(* ===== verification/Prelude.thy ===== *)
theory Prelude
  imports Main "HOL-Library.Word"
begin

text \<open>
  Shared vocabulary of the development: the machine integers of the two targets (32-bit ARM for
  the kernel code, 32-bit operations of x86 for the SThread library), the ways in which C code of
  this repository can go wrong, a small linked-list theory over a store, and generic lemmas on
  lists and sums.
\<close>

section \<open>Machine integers\<close>

type_synonym u32 = "32 word"
type_synonym u64 = "64 word"
type_synonym ulong = "32 word" \<comment> \<open>\<open>unsigned long\<close> on ARM\<close>

type_synonym addr = nat
type_synonym pid = nat

named_theorems wrap_simps \<open>rules that remove a wrap-around where the value is in range\<close>
named_theorems errno_defs \<open>definitions of the error numbers\<close>
named_theorems frame_simps \<open>what an operation leaves unchanged\<close>

text \<open>C's \<open>int\<close> and \<open>long\<close> on the 32-bit targets: an \<open>int\<close> kept in range by wrapping.\<close>

definition wrap_s32 :: "int \<Rightarrow> int" where
  "wrap_s32 x = signed_take_bit 31 x"

lemma wrap_s32_id [wrap_simps]: "- (2 ^ 31) \<le> x \<Longrightarrow> x < 2 ^ 31 \<Longrightarrow> wrap_s32 x = x"
  by (simp add: wrap_s32_def signed_take_bit_int_eq_self)

lemma wrap_s32_range: "- (2 ^ 31) \<le> wrap_s32 x \<and> wrap_s32 x < 2 ^ 31"
  using signed_take_bit_int_greater_eq_minus_exp [of 31 x] signed_take_bit_int_less_exp [of 31 x]
  by (simp add: wrap_s32_def)

lemma wrap_s32_idem [simp]: "wrap_s32 (wrap_s32 x) = wrap_s32 x"
  by (simp add: wrap_s32_def)

text \<open>Word arithmetic without overflow.\<close>

lemma unat_mult_small: "unat a * unat b < 2 ^ 32 \<Longrightarrow> unat (a * b :: ulong) = unat a * unat b"
  by (intro unat_mult_lem [THEN iffD1]) simp

lemma unat_add_small: "unat a + unat b < 2 ^ 32 \<Longrightarrow> unat (a + b :: ulong) = unat a + unat b"
  by (intro unat_add_lem [THEN iffD1]) simp

lemma ulong_less: "unat (x :: ulong) < 2 ^ 32"
  using unsigned_less [of x] by simp

lemma unat_ucast_u64 [simp]: "unat (ucast (x :: ulong) :: u64) = unat x"
  using ulong_less [of x] by (simp add: unsigned_ucast_eq take_bit_nat_eq_self_iff)

lemma ulong_mult_less: "unat (x :: ulong) * unat (y :: ulong) \<le> (2 ^ 32 - 1) * (2 ^ 32 - 1)"
  using ulong_less [of x] ulong_less [of y] by (intro mult_mono) auto

lemma unat_mult_fits: "unat x * unat y < 2 ^ 64 \<Longrightarrow> unat (x * y :: u64) = unat x * unat y"
  by (intro unat_mult_lem [THEN iffD1]) simp

lemma unat_ulong_product: "unat (ucast x * ucast y :: u64) = unat (x :: ulong) * unat (y :: ulong)"
  using ulong_mult_less [of x y] by (subst unat_mult_fits) (simp_all only: unat_ucast_u64, simp)

section \<open>Error numbers and faults\<close>

definition EPERM :: int where [errno_defs]: "EPERM = 1"
definition ESRCH :: int where [errno_defs]: "ESRCH = 3"
definition EFAULT :: int where [errno_defs]: "EFAULT = 14"
definition EBUSY :: int where [errno_defs]: "EBUSY = 16"
definition EINVAL :: int where [errno_defs]: "EINVAL = 22"

text \<open>
  What stops the modelled code: a dereferenced null pointer, an access to memory that was
  released, a \<open>free\<close> of memory that \<open>malloc\<close> did not return, a call of \<open>abort\<close> or of the kernel's \<open>panic\<close> or \<open>BUG\<close>.
\<close>

datatype fault = NullDeref | UseAfterFree | BadFree | Abort | Panic | Bug

type_synonym 'a result = "fault + 'a"

definition rbind :: "'e + 'a \<Rightarrow> ('a \<Rightarrow> 'e + 'b) \<Rightarrow> 'e + 'b" where
  "rbind m f = (case m of Inl e \<Rightarrow> Inl e | Inr x \<Rightarrow> f x)"

lemma rbind_simps [simp]:
  "rbind (Inl e) f = Inl e"
  "rbind (Inr x) f = f x"
  by (simp_all add: rbind_def)

lemma rbind_Inr_iff: "rbind m f = Inr y \<longleftrightarrow> (\<exists>x. m = Inr x \<and> f x = Inr y)"
  by (cases m) auto

lemma rbind_Inl_iff: "rbind m f = Inl e \<longleftrightarrow> m = Inl e \<or> (\<exists>x. m = Inr x \<and> f x = Inl e)"
  by (cases m) auto

section \<open>Linked lists in a store\<close>

text \<open>\<open>chain nxt p xs q\<close>: following \<open>nxt\<close> from \<open>p\<close> visits the addresses \<open>xs\<close> and ends at \<open>q\<close>.\<close>

fun chain :: "(addr \<Rightarrow> addr option option) \<Rightarrow> addr option \<Rightarrow> addr list \<Rightarrow> addr option \<Rightarrow> bool" where
  "chain nxt p [] q \<longleftrightarrow> p = q"
| "chain nxt p (a # as) q \<longleftrightarrow> p = Some a \<and> (\<exists>n. nxt a = Some n \<and> chain nxt n as q)"

lemma chain_append:
  "chain nxt p (as @ bs) q \<longleftrightarrow> (\<exists>r. chain nxt p as r \<and> chain nxt r bs q)"
  by (induction as arbitrary: p) auto

lemma chain_cong:
  "(\<And>a. a \<in> set as \<Longrightarrow> nxt a = nxt' a) \<Longrightarrow> chain nxt p as q = chain nxt' p as q"
  by (induction as arbitrary: p) auto

lemma chain_unique:
  "chain nxt p as None \<Longrightarrow> chain nxt p bs None \<Longrightarrow> as = bs"
  by (induction as arbitrary: p bs) (case_tac bs; force)+

lemma chain_distinct: "chain nxt p as None \<Longrightarrow> distinct as"
proof (induction as arbitrary: p)
  case (Cons a as)
  then obtain n where n: "nxt a = Some n" "chain nxt n as None" by auto
  have "a \<notin> set as"
  proof
    assume "a \<in> set as"
    then obtain us vs where as: "as = us @ a # vs" by (auto dest: split_list)
    with n have "chain nxt n vs None" by (auto simp: chain_append)
    with n(2) have "as = vs" by (rule chain_unique)
    with as show False by simp
  qed
  with Cons n show ?case by auto
qed simp

lemma chain_dom: "chain nxt p as q \<Longrightarrow> a \<in> set as \<Longrightarrow> nxt a \<noteq> None"
  by (induction as arbitrary: p) auto

section \<open>Lists\<close>

lemma sum_list_replicate_mult: "sum_list (replicate n (k::nat)) = n * k"
  by (induction n) auto

lemma filter_remove1_distinct:
  "distinct xs \<Longrightarrow> remove1 x xs = filter (\<lambda>y. y \<noteq> x) xs"
  by (rule distinct_remove1_removeAll [of xs x, unfolded removeAll_filter_not_eq, THEN trans])
    (auto intro: filter_cong)

end
