(* ===== verification/Sys_Fail.thy ===== *)
theory Sys_Fail
  imports Prelude
begin

text \<open>
  Fault injection (homework 2): \<open>sys_fail.c\<close> and the hook in the system call entry path of
  \<open>entry-common.S\<close>. \<open>n\<close> and \<open>sys_fail_ran\<close> are the file's globals, \<open>hw2_count\<close> is a field of
  every task; \<open>current\<close> is the task in whose context the kernel runs.
\<close>

section \<open>State and operations\<close>

record fail_state =
  n :: int
  sys_fail_ran :: int
  hw2_count :: "pid \<Rightarrow> int"

definition fail_init :: fail_state where
  "fail_init = \<lparr>n = 0, sys_fail_ran = 0, hw2_count = (\<lambda>_. 0)\<rparr>"

definition sys_fail :: "pid \<Rightarrow> int \<Rightarrow> fail_state \<Rightarrow> int \<times> fail_state" where
  "sys_fail current N s =
    (let s = s\<lparr>n := N\<rparr> in
     if n s > 0 \<and> sys_fail_ran s = 0 then
       (0, s\<lparr>hw2_count := (hw2_count s)(current := 0), sys_fail_ran := 1\<rparr>)
     else if n s \<le> 0 \<and> sys_fail_ran s = 0 then (- EINVAL, s)
     else if n s = 0 \<and> sys_fail_ran s = 1 then (0, s\<lparr>sys_fail_ran := 0\<rparr>)
     else if n s > 0 \<and> sys_fail_ran s = 1 then
       (0, s\<lparr>hw2_count := (hw2_count s)(current := 0)\<rparr>)
     else (0, s))"

definition should_fail :: "pid \<Rightarrow> fail_state \<Rightarrow> int \<times> fail_state" where
  "should_fail current s =
    (if sys_fail_ran s = 1 then
       (let c = wrap_s32 (hw2_count s current + 1);
            s = s\<lparr>hw2_count := (hw2_count s)(current := c)\<rparr> in
        if c < n s then (0, s) else (1, s))
     else (0, s))"

definition fail_syscall :: "fail_state \<Rightarrow> int \<times> fail_state" where
  "fail_syscall s = (- EINVAL, s\<lparr>sys_fail_ran := 0\<rparr>)"

text \<open>
  The entry path: \<open>should_fail\<close> decides; a non-zero answer tail-calls \<open>fail_syscall\<close>, otherwise
  the handler found in the call table runs. Handlers are the two kinds that matter here.
\<close>

datatype syscall = Sys_fail int | Other int

definition vector_swi :: "pid \<Rightarrow> syscall \<Rightarrow> fail_state \<Rightarrow> int \<times> fail_state" where
  "vector_swi current c s =
    (let (r, s) = should_fail current s in
     if r \<noteq> 0 then fail_syscall s
     else (case c of Sys_fail N \<Rightarrow> sys_fail current N s | Other v \<Rightarrow> (v, s)))"

fun run_syscalls :: "(pid \<times> syscall) list \<Rightarrow> fail_state \<Rightarrow> int list \<times> fail_state" where
  "run_syscalls [] s = ([], s)"
| "run_syscalls ((p, c) # cs) s =
    (let (r, s) = vector_swi p c s; (rs, s) = run_syscalls cs s in (r # rs, s))"

section \<open>The injector as an armed or idle machine\<close>

definition idle :: "fail_state \<Rightarrow> bool" where
  "idle s \<longleftrightarrow> sys_fail_ran s = 0"

text \<open>\<open>armed p k s\<close>: the \<open>k\<close>-th system call of task \<open>p\<close> from now is the one to fail.\<close>

definition armed :: "pid \<Rightarrow> int \<Rightarrow> fail_state \<Rightarrow> bool" where
  "armed p k s \<longleftrightarrow> sys_fail_ran s = 1 \<and> 0 < k \<and> 0 \<le> hw2_count s p \<and> n s < 2 ^ 31
     \<and> n s = hw2_count s p + k"

definition fail_inv :: "fail_state \<Rightarrow> bool" where
  "fail_inv s \<longleftrightarrow> sys_fail_ran s \<in> {0, 1} \<and> - (2 ^ 31) \<le> n s \<and> n s < 2 ^ 31
     \<and> (\<forall>p. - (2 ^ 31) \<le> hw2_count s p \<and> hw2_count s p < 2 ^ 31)"

lemmas fail_op_defs = sys_fail_def should_fail_def fail_syscall_def vector_swi_def Let_def

lemma fail_inv_init: "fail_inv fail_init"
  by (simp add: fail_inv_def fail_init_def)

lemma fail_inv_should_fail: "fail_inv s \<Longrightarrow> fail_inv (snd (should_fail p s))"
  using wrap_s32_range by (auto simp: fail_inv_def fail_op_defs)

lemma fail_inv_sys_fail:
  "fail_inv s \<Longrightarrow> - (2 ^ 31) \<le> N \<Longrightarrow> N < 2 ^ 31 \<Longrightarrow> fail_inv (snd (sys_fail p N s))"
  by (auto simp: fail_inv_def sys_fail_def Let_def)

lemma idle_call [simp]: "idle s \<Longrightarrow> vector_swi p (Other v) s = (v, s)"
  by (simp add: idle_def fail_op_defs)

lemma idle_calls: "idle s \<Longrightarrow> run_syscalls (map (\<lambda>v. (p, Other v)) vs) s = (vs, s)"
  by (induction vs) auto

lemma armed_call:
  assumes "armed p k s" and "1 < k"
  shows "\<exists>s'. vector_swi p (Other v) s = (v, s') \<and> armed p (k - 1) s'"
  using assms by (auto simp: armed_def fail_op_defs wrap_simps)

lemma armed_fails:
  assumes "armed p 1 s"
  shows "\<exists>s'. vector_swi p c s = (- EINVAL, s') \<and> idle s'"
  using assms by (auto simp: armed_def idle_def fail_op_defs wrap_simps)

lemma armed_calls:
  assumes "armed p (int (length vs) + 1) s"
  shows "\<exists>s'. run_syscalls (map (\<lambda>v. (p, Other v)) vs) s = (vs, s') \<and> armed p 1 s'"
  using assms
proof (induction vs arbitrary: s)
  case (Cons v vs)
  then obtain s1 where s1: "vector_swi p (Other v) s = (v, s1)" "armed p (int (length vs) + 1) s1"
    using armed_call [of p "int (length (v # vs)) + 1" s v] by (auto simp: add.commute)
  with Cons.IH [of s1] show ?case by auto
qed simp

lemma run_syscalls_append:
  "run_syscalls (cs @ ds) s =
     (let (rs, s) = run_syscalls cs s; (rs', s) = run_syscalls ds s in (rs @ rs', s))"
  by (induction cs s rule: run_syscalls.induct) (auto simp: Let_def split: prod.splits)

lemma sys_fail_arms:
  assumes "idle s" and "0 < N" and "N < 2 ^ 31"
  shows "\<exists>s'. vector_swi p (Sys_fail N) s = (0, s') \<and> armed p N s'"
  using assms by (auto simp: idle_def armed_def fail_op_defs)

section \<open>Properties\<close>



text \<open>
  The globals of the injector are shared by all tasks while the counter is per task: a task
  that never asked for an injection can be the one whose call fails, and that uses the injection up.
\<close>
theorem sys_fail_hits_other_task:
  assumes "armed p k s" and "q \<noteq> p" and "n s - 1 \<le> hw2_count s q" and "hw2_count s q < 2 ^ 31 - 1"
  shows "\<exists>s'. run_syscalls [(q, Other v), (p, Other w)] s = ([- EINVAL, w], s') \<and> idle s'"
  using assms by (auto simp: armed_def idle_def fail_op_defs wrap_simps)

theorem sys_fail_hits_other_task_witness:
  "\<exists>s'. run_syscalls [(4, Other 0), (3, Other 9)]
      \<lparr>n = 2, sys_fail_ran = 1, hw2_count = (\<lambda>p. if p = 3 then 0 else 1)\<rparr> = ([- EINVAL, 9], s')
    \<and> idle s'"
  by (rule sys_fail_hits_other_task [where k = 2]) (simp_all add: armed_def)

text \<open>
  Every branch of \<open>sys_fail\<close> on an injector whose flag is 0 or 1: the result and the new flag
  by the sign of the argument.
\<close>
theorem sys_fail_branches:
  assumes "fail_inv s"
  shows "fst (sys_fail p N s) = (if N \<le> 0 \<and> idle s then - EINVAL else 0)
    \<and> (idle (snd (sys_fail p N s)) \<longleftrightarrow> (if N = 0 then True else if N < 0 then idle s else False))"
  using assms by (auto simp: sys_fail_def fail_inv_def idle_def EINVAL_def Let_def)

theorem sys_fail_branches_witness:
  "fst (sys_fail 5 (- 1) fail_init) = - EINVAL"
  using sys_fail_branches [OF fail_inv_init, of 5 "- 1"] by (simp add: idle_def fail_init_def)

end
