(* ===== verification/Wait_Queue.thy ===== *)
theory Wait_Queue
  imports Prelude
begin

text \<open>
  The interface between the semaphore of \<open>hw3/sync.c\<close> and its queue of waiting threads: a queue
  state, a fallible \<open>enq\<close> and \<open>deq\<close>, the list of waiting threads as the abstraction, and how many
  more threads can wait. The laws are what the semaphore relies on; the first-come-first-served
  order follows from them once, here.
\<close>

fun enq_all :: "('q \<Rightarrow> 'a \<Rightarrow> 'q result) \<Rightarrow> 'q \<Rightarrow> 'a list \<Rightarrow> 'q result" where
  "enq_all enq q [] = Inr q"
| "enq_all enq q (x # xs) = rbind (enq q x) (\<lambda>q. enq_all enq q xs)"

fun deq_all :: "('q \<Rightarrow> ('a \<times> 'q) result) \<Rightarrow> nat \<Rightarrow> 'q \<Rightarrow> ('a list \<times> 'q) result" where
  "deq_all deq 0 q = Inr ([], q)"
| "deq_all deq (Suc k) q =
    rbind (deq q) (\<lambda>(x, q). rbind (deq_all deq k q) (\<lambda>(xs, q). Inr (x # xs, q)))"

locale wait_queue =
  fixes enq :: "'q \<Rightarrow> 'a \<Rightarrow> 'q result"
    and deq :: "'q \<Rightarrow> ('a \<times> 'q) result"
    and view :: "'q \<Rightarrow> 'a list"
    and room :: "'q \<Rightarrow> nat"
    and inv :: "'q \<Rightarrow> bool"
  assumes enq_law: "inv q \<Longrightarrow> 0 < room q \<Longrightarrow>
      \<exists>q'. enq q x = Inr q' \<and> inv q' \<and> view q' = view q @ [x] \<and> room q \<le> Suc (room q')"
    and deq_law: "inv q \<Longrightarrow> view q = x # xs \<Longrightarrow>
      \<exists>q'. deq q = Inr (x, q') \<and> inv q' \<and> view q' = xs"
begin

lemma enq_all_view:
  "inv q \<Longrightarrow> length xs \<le> room q \<Longrightarrow>
    \<exists>q'. enq_all enq q xs = Inr q' \<and> inv q' \<and> view q' = view q @ xs"
proof (induction xs arbitrary: q)
  case (Cons x xs)
  then obtain q1 where q1: "enq q x = Inr q1" "inv q1" "view q1 = view q @ [x]" "room q \<le> Suc (room q1)"
    using enq_law [of q x] by auto
  with Cons.prems have "length xs \<le> room q1" by simp
  with Cons.IH [OF q1(2)] q1 show ?case by auto
qed simp

lemma deq_all_view:
  "inv q \<Longrightarrow> view q = xs @ ys \<Longrightarrow>
    \<exists>q'. deq_all deq (length xs) q = Inr (xs, q') \<and> inv q' \<and> view q' = ys"
proof (induction xs arbitrary: q)
  case (Cons x xs)
  then obtain q1 where q1: "deq q = Inr (x, q1)" "inv q1" "view q1 = xs @ ys"
    using deq_law [of q x "xs @ ys"] by auto
  with Cons.IH [OF q1(2,3)] show ?case by auto
qed simp

text \<open>Threads leave the queue in the order in which they joined it.\<close>

lemma first_come_first_served:
  assumes "inv q" and "view q = []" and "length xs \<le> room q"
  shows "\<exists>q'. rbind (enq_all enq q xs) (deq_all deq (length xs)) = Inr (xs, q') \<and> view q' = []"
proof -
  from enq_all_view [OF assms(1,3)] assms(2) obtain q1
    where q1: "enq_all enq q xs = Inr q1" "inv q1" "view q1 = xs" by auto
  with deq_all_view [OF q1(2), of xs "[]"] show ?thesis by auto
qed

end

end
