(* ===== verification/Semaphore.thy ===== *)
theory Semaphore
  imports Wait_Queue
begin

text \<open>
  The semaphore of \<open>hw3/sync.c\<close>: the linked queue of waiting threads in a C heap, the spin lock
  around every operation, and the five operations. \<open>sthread_self()\<close> is the argument \<open>self\<close>; the
  effect an operation has on threads after it released the lock (suspend the caller, wake another
  thread) is part of its result.
\<close>

section \<open>State\<close>

type_synonym tid = nat

record Node =
  data :: tid
  "next" :: "addr option"

record sthread_sem =
  count :: int
  sthread_count :: int
  head :: "addr option"
  start :: "addr option"

text \<open>
  The C heap: allocated cells, the next fresh address, and the address space left. \<open>malloc\<close> fails
  when the space is used up and never returns an address twice, so an access after \<open>free\<close> shows.
\<close>

record sync_state =
  cells :: "addr \<rightharpoonup> Node"
  brk :: addr
  limit :: addr
  flag :: u32
  sem :: sthread_sem

definition malloc :: "sync_state \<Rightarrow> addr option \<times> sync_state" where
  "malloc s = (if brk s < limit s
     then (Some (brk s), s\<lparr>cells := (cells s)(brk s \<mapsto> \<lparr>data = 0, next = None\<rparr>), brk := Suc (brk s)\<rparr>)
     else (None, s))"

definition free :: "addr \<Rightarrow> sync_state \<Rightarrow> sync_state" where
  "free a s = s\<lparr>cells := (cells s)(a := None)\<rparr>"

definition load :: "sync_state \<Rightarrow> addr option \<Rightarrow> Node result" where
  "load s p = (case p of None \<Rightarrow> Inl NullDeref
     | Some a \<Rightarrow> (case cells s a of None \<Rightarrow> Inl UseAfterFree | Some nd \<Rightarrow> Inr nd))"

definition store :: "addr option \<Rightarrow> (Node \<Rightarrow> Node) \<Rightarrow> sync_state \<Rightarrow> sync_state result" where
  "store p f s = rbind (load s p) (\<lambda>nd. Inr (s\<lparr>cells := (cells s)(the p \<mapsto> f nd)\<rparr>))"

definition set_sem :: "(sthread_sem \<Rightarrow> sthread_sem) \<Rightarrow> sync_state \<Rightarrow> sync_state" where
  "set_sem f s = s\<lparr>sem := f (sem s)\<rparr>"

section \<open>The queue of waiting threads\<close>

definition insertNode :: "sync_state \<Rightarrow> tid \<Rightarrow> sync_state result" where
  "insertNode s d =
    (if sthread_count (sem s) = 0 then
       (let (p, s) = malloc s;
            s = set_sem (\<lambda>m. m\<lparr>head := p\<rparr>) s;
            s = set_sem (\<lambda>m. m\<lparr>start := head m\<rparr>) s in
        rbind (store (head (sem s)) (\<lambda>nd. nd\<lparr>data := d\<rparr>) s) (\<lambda>s.
        rbind (store (head (sem s)) (\<lambda>nd. nd\<lparr>next := None\<rparr>) s) (\<lambda>s.
        Inr (set_sem (\<lambda>m. m\<lparr>sthread_count := wrap_s32 (sthread_count m + 1)\<rparr>) s))))
     else
       (let (temp, s) = malloc s in
        rbind (store (head (sem s)) (\<lambda>nd. nd\<lparr>next := temp\<rparr>) s) (\<lambda>s.
        rbind (store temp (\<lambda>nd. nd\<lparr>data := d\<rparr>) s) (\<lambda>s.
        rbind (store temp (\<lambda>nd. nd\<lparr>next := None\<rparr>) s) (\<lambda>s.
        Inr (set_sem (\<lambda>m. m\<lparr>head := temp, sthread_count := wrap_s32 (sthread_count m + 1)\<rparr>) s))))))"

definition removeNode :: "sync_state \<Rightarrow> (addr option \<times> sync_state) result" where
  "removeNode s =
    (let temp = start (sem s) in
     rbind (load s temp) (\<lambda>nd.
     Inr (temp, set_sem (\<lambda>m. m\<lparr>start := next nd, sthread_count := wrap_s32 (sthread_count m - 1)\<rparr>) s)))"

section \<open>The spin lock\<close>

text \<open>\<open>test_and_set\<close> stores 1 and returns the old value; the loop ends when that was 0.\<close>

definition test_and_set :: "u32 \<Rightarrow> u32 \<times> u32" where
  "test_and_set x = (x, 1)"

partial_function (option) lock :: "u32 \<Rightarrow> u32 option" where
  "lock f = (case test_and_set f of (old, new) \<Rightarrow> if old \<noteq> 0 then lock new else Some new)"

definition unlock :: "sync_state \<Rightarrow> sync_state" where
  "unlock s = s\<lparr>flag := 0\<rparr>"

definition locked :: "(sync_state \<Rightarrow> 'a) \<Rightarrow> sync_state \<Rightarrow> 'a option" where
  "locked body s = (case lock (flag s) of None \<Rightarrow> None | Some f \<Rightarrow> Some (body (s\<lparr>flag := f\<rparr>)))"

section \<open>Semaphore operations\<close>

datatype effect = Continue | Suspend | Wake tid

definition sthread_sem_init :: "int \<Rightarrow> sync_state \<Rightarrow> int \<times> sync_state" where
  "sthread_sem_init c s =
    (let s = set_sem (\<lambda>m. m\<lparr>count := c, head := None, start := None, sthread_count := 0\<rparr>) s;
         ret = (if count (sem s) = c \<and> head (sem s) = None then 0 else - 1) in
     (ret, unlock s))"

definition sthread_sem_destroy :: "sync_state \<Rightarrow> int \<times> sync_state" where
  "sthread_sem_destroy s =
    (let s = set_sem (\<lambda>m. m\<lparr>count := 0, head := None\<rparr>) s;
         ret = (if count (sem s) = 0 \<and> head (sem s) = None then 0 else - 1) in
     (ret, unlock s))"

definition sthread_sem_down :: "tid \<Rightarrow> sync_state \<Rightarrow> (int \<times> effect \<times> sync_state) result" where
  "sthread_sem_down self s =
    (if count (sem s) > 0 then
       Inr (0, Continue, unlock (set_sem (\<lambda>m. m\<lparr>count := wrap_s32 (count m - 1)\<rparr>) s))
     else rbind (insertNode s self) (\<lambda>s. Inr (- 1, Suspend, unlock s)))"

definition sthread_sem_try_down :: "sync_state \<Rightarrow> int \<times> sync_state" where
  "sthread_sem_try_down s =
    (if count (sem s) > 0
     then (0, unlock (set_sem (\<lambda>m. m\<lparr>count := wrap_s32 (count m - 1)\<rparr>) s))
     else (- 1, unlock s))"

definition sthread_sem_up :: "sync_state \<Rightarrow> (int \<times> effect \<times> sync_state) result" where
  "sthread_sem_up s =
    (if sthread_count (sem s) \<le> 0 then
       Inr (0, Continue, unlock (set_sem (\<lambda>m. m\<lparr>count := wrap_s32 (count m + 1)\<rparr>) s))
     else
       rbind (removeNode s) (\<lambda>(longestWaitingThread, s).
       rbind (load s longestWaitingThread) (\<lambda>nd.
       let d = data nd; s = free (the longestWaitingThread) s in
       Inr (0, Wake d, unlock s))))"

section \<open>The queue invariant\<close>

definition nxt :: "sync_state \<Rightarrow> addr \<Rightarrow> addr option option" where
  "nxt s a = map_option next (cells s a)"

fun waiters :: "(addr \<rightharpoonup> Node) \<Rightarrow> nat \<Rightarrow> addr option \<Rightarrow> tid list" where
  "waiters c 0 p = []"
| "waiters c (Suc k) None = []"
| "waiters c (Suc k) (Some a) =
    (case c a of None \<Rightarrow> [] | Some nd \<Rightarrow> data nd # waiters c k (next nd))"

definition waiting :: "sync_state \<Rightarrow> tid list" where
  "waiting s = waiters (cells s) (nat (sthread_count (sem s))) (start (sem s))"

definition queue_of :: "sync_state \<Rightarrow> addr list \<Rightarrow> bool" where
  "queue_of s ns \<longleftrightarrow> chain (nxt s) (start (sem s)) ns None
     \<and> sthread_count (sem s) = int (length ns) \<and> length ns < 2 ^ 31
     \<and> (ns \<noteq> [] \<longrightarrow> head (sem s) = Some (last ns))
     \<and> (\<forall>a. cells s a \<noteq> None \<longrightarrow> a < brk s)"

definition queue_inv :: "sync_state \<Rightarrow> bool" where
  "queue_inv s \<longleftrightarrow> (\<exists>ns. queue_of s ns)"

definition room :: "sync_state \<Rightarrow> nat" where
  "room s = min (limit s - brk s) (2 ^ 31 - 1 - nat (sthread_count (sem s)))"

lemmas heap_op_defs = malloc_def load_def store_def set_sem_def

lemma waiters_chain:
  "chain (nxt s) p ns None \<Longrightarrow>
    waiters (cells s) (length ns) p = map (\<lambda>a. data (the (cells s a))) ns"
  by (induction ns arbitrary: p) (auto simp: nxt_def)

lemma waiting_queue_of:
  "queue_of s ns \<Longrightarrow> waiting s = map (\<lambda>a. data (the (cells s a))) ns"
  by (auto simp: queue_of_def waiting_def waiters_chain)

lemma queue_inv_init: "\<forall>a. cells s a \<noteq> None \<longrightarrow> a < brk s \<Longrightarrow> queue_of (snd (sthread_sem_init c s)) []"
  by (auto simp: queue_of_def sthread_sem_init_def set_sem_def unlock_def Let_def)

lemma insertNode_empty:
  assumes "queue_of s []" and "0 < room s"
  shows "\<exists>s'. insertNode s d = Inr s' \<and> queue_of s' [brk s]
    \<and> cells s' = (cells s)(brk s \<mapsto> \<lparr>data = d, next = None\<rparr>) \<and> brk s' = Suc (brk s)"
  using assms
  by (auto simp: insertNode_def heap_op_defs queue_of_def room_def nxt_def wrap_simps less_Suc_eq)

lemma insertNode_nonempty:
  assumes q: "queue_of s ns" and ne: "ns \<noteq> []" and r: "0 < room s"
  shows "\<exists>s' nd. cells s (last ns) = Some nd \<and> insertNode s d = Inr s' \<and> queue_of s' (ns @ [brk s])
    \<and> cells s' = (cells s)(last ns \<mapsto> nd\<lparr>next := Some (brk s)\<rparr>, brk s \<mapsto> \<lparr>data = d, next = None\<rparr>)
    \<and> brk s' = Suc (brk s)"
proof -
  let ?l = "last ns" and ?b = "brk s"
  obtain ms where ns: "ns = ms @ [?l]" using ne by (metis append_butlast_last_id)
  from q have ch: "chain (nxt s) (start (sem s)) ns None" and fr: "\<And>a. cells s a \<noteq> None \<Longrightarrow> a < ?b"
    and sc: "sthread_count (sem s) = int (length ns)" and hd: "head (sem s) = Some ?l"
    using ne by (auto simp: queue_of_def)
  have "nxt s ?l \<noteq> None" using chain_dom [OF ch] ne by simp
  then obtain nd where nd: "cells s ?l = Some nd" by (auto simp: nxt_def)
  have lb: "?l \<noteq> ?b" using fr [of ?l] nd by auto
  have dist: "distinct ns" using ch by (rule chain_distinct)
  let ?c = "(cells s)(?l \<mapsto> nd\<lparr>next := Some ?b\<rparr>, ?b \<mapsto> \<lparr>data = d, next = None\<rparr>)"
  let ?s = "s\<lparr>cells := ?c, brk := Suc ?b,
      sem := (sem s)\<lparr>head := Some ?b, sthread_count := wrap_s32 (sthread_count (sem s) + 1)\<rparr>\<rparr>"
  have ins: "insertNode s d = Inr ?s"
    using ne r sc hd nd lb
    by (auto simp: insertNode_def heap_op_defs room_def fun_upd_twist)
  from ch ns have ch1: "chain (nxt s) (start (sem s)) ms (Some ?l)"
    by (metis chain.simps chain_append)
  have "\<And>a. a \<in> set ms \<Longrightarrow> nxt s a = nxt ?s a"
  proof -
    fix a assume a: "a \<in> set ms"
    then have "a \<noteq> ?l" using dist by (subst (asm) ns) auto
    moreover have "a \<noteq> ?b" using fr [of a] chain_dom [OF ch1 a] by (auto simp: nxt_def)
    ultimately show "nxt s a = nxt ?s a" by (simp add: nxt_def)
  qed
  from chain_cong [OF this] ch1
  have "chain (nxt ?s) (start (sem ?s)) ms (Some ?l)" by simp
  moreover have "chain (nxt ?s) (Some ?l) [?l, ?b] None" using lb by (simp add: nxt_def)
  ultimately have "chain (nxt ?s) (start (sem ?s)) (ms @ [?l, ?b]) None"
    using chain_append by blast
  then have "chain (nxt ?s) (start (sem ?s)) (ns @ [?b]) None" by (subst ns) simp
  moreover have "\<forall>a. cells ?s a \<noteq> None \<longrightarrow> a < brk ?s" using fr nd by (auto simp: less_Suc_eq)
  ultimately have "queue_of ?s (ns @ [?b])"
    using r sc by (auto simp: queue_of_def room_def wrap_simps)
  with ins nd show ?thesis by auto
qed

lemma insertNode_frame:
  "insertNode s d = Inr s' \<Longrightarrow> count (sem s') = count (sem s) \<and> flag s' = flag s \<and> limit s' = limit s"
  by (auto simp: insertNode_def heap_op_defs Let_def rbind_def split: if_splits option.splits sum.splits)

lemma insertNode_law:
  assumes inv: "queue_inv s" and r: "0 < room s"
  shows "\<exists>s'. insertNode s d = Inr s' \<and> queue_inv s' \<and> waiting s' = waiting s @ [d]
    \<and> room s \<le> Suc (room s')"
proof -
  from inv obtain ns where q: "queue_of s ns" by (auto simp: queue_inv_def)
  obtain s' where s': "insertNode s d = Inr s'" "queue_of s' (ns @ [brk s])" "brk s' = Suc (brk s)"
    and new: "cells s' (brk s) = Some \<lparr>data = d, next = None\<rparr>"
    and old: "\<And>a. a \<in> set ns \<Longrightarrow> data (the (cells s' a)) = data (the (cells s a))"
  proof (cases "ns = []")
    case True
    with insertNode_empty [of s d] q r that show ?thesis by fastforce
  next
    case False
    have "\<And>a. a \<in> set ns \<Longrightarrow> a \<noteq> brk s"
      using q chain_dom [of "nxt s" "start (sem s)" ns None] by (force simp: queue_of_def nxt_def)
    with insertNode_nonempty [OF q False r, of d] that show ?thesis by fastforce
  qed
  have "waiting s' = waiting s @ [d]"
    using waiting_queue_of [OF q] waiting_queue_of [OF s'(2)] new old by simp
  moreover have "room s \<le> Suc (room s')"
    using q s' insertNode_frame [OF s'(1)] by (auto simp: room_def queue_of_def)
  ultimately show ?thesis using s' by (auto simp: queue_inv_def)
qed

text \<open>The first waiting thread as \<open>sthread_sem_up\<close> takes it: unlink the node, read it, free it.\<close>

definition dequeue :: "sync_state \<Rightarrow> (tid \<times> sync_state) result" where
  "dequeue s = rbind (removeNode s) (\<lambda>(p, s). rbind (load s p) (\<lambda>nd. Inr (data nd, free (the p) s)))"

lemma dequeue_law:
  assumes inv: "queue_inv s" and w: "waiting s = t # ts"
  shows "\<exists>s'. dequeue s = Inr (t, s') \<and> queue_inv s' \<and> waiting s' = ts"
proof -
  from inv obtain ns where q: "queue_of s ns" by (auto simp: queue_inv_def)
  with w obtain a ms where ns: "ns = a # ms" by (cases ns) (auto simp: waiting_queue_of)
  from q ns obtain nd where nd: "cells s a = Some nd" and st: "start (sem s) = Some a"
    and ch: "chain (nxt s) (next nd) ms None" and sc: "sthread_count (sem s) = 1 + int (length ms)"
    by (auto simp: queue_of_def nxt_def)
  from q ns have am: "a \<notin> set ms"
    using chain_distinct [of "nxt s" "start (sem s)" ns] by (auto simp: queue_of_def)
  let ?s = "s\<lparr>cells := (cells s)(a := None),
      sem := (sem s)\<lparr>start := next nd, sthread_count := wrap_s32 (sthread_count (sem s) - 1)\<rparr>\<rparr>"
  have deq: "dequeue s = Inr (data nd, ?s)"
    using nd st by (simp add: dequeue_def removeNode_def heap_op_defs free_def)
  have "chain (nxt ?s) (next nd) ms None"
    using ch am by (subst chain_cong [of ms "nxt ?s" "nxt s"]) (auto simp: nxt_def)
  then have q': "queue_of ?s ms"
    using q ns sc by (auto simp: queue_of_def wrap_simps)
  have "map (\<lambda>x. data (the (cells ?s x))) ms = map (\<lambda>x. data (the (cells s x))) ms"
    using am by auto
  with waiting_queue_of [OF q] waiting_queue_of [OF q'] w ns nd
  have "data nd = t" and "waiting ?s = ts" by auto
  with deq q' show ?thesis by (auto simp: queue_inv_def)
qed

interpretation sem_queue: wait_queue insertNode dequeue waiting room queue_inv
  using insertNode_law dequeue_law by unfold_locales blast+

lemma sthread_sem_up_dequeue:
  "0 < sthread_count (sem s) \<Longrightarrow>
    sthread_sem_up s = rbind (dequeue s) (\<lambda>(t, s). Inr (0, Wake t, unlock s))"
  by (auto simp: sthread_sem_up_def dequeue_def rbind_def Let_def split: sum.splits)

section \<open>Refinement of the abstract semaphore\<close>

text \<open>
  What a semaphore promises: a value and the threads that wait, first come first served. \<open>sem_abs\<close>
  reads both off the concrete state.
\<close>

type_synonym sem_spec = "int \<times> tid list"

fun spec_down :: "tid \<Rightarrow> sem_spec \<Rightarrow> effect \<times> sem_spec" where
  "spec_down t (v, ws) = (if v > 0 then (Continue, (v - 1, ws)) else (Suspend, (v, ws @ [t])))"

fun spec_up :: "sem_spec \<Rightarrow> effect \<times> sem_spec" where
  "spec_up (v, []) = (Continue, (v + 1, []))"
| "spec_up (v, w # ws) = (Wake w, (v, ws))"

definition sem_abs :: "sync_state \<Rightarrow> sem_spec" where
  "sem_abs s = (count (sem s), waiting s)"

definition sem_inv :: "sync_state \<Rightarrow> bool" where
  "sem_inv s \<longleftrightarrow> queue_inv s \<and> 0 \<le> count (sem s) \<and> count (sem s) < 2 ^ 31
     \<and> (0 < count (sem s) \<longrightarrow> waiting s = [])"

lemma queue_inv_count: "queue_inv s \<Longrightarrow> sthread_count (sem s) = int (length (waiting s))"
proof -
  assume "queue_inv s"
  then obtain ns where "queue_of s ns" by (auto simp: queue_inv_def)
  then show ?thesis using waiting_queue_of [of s ns] by (simp add: queue_of_def)
qed

lemma nxt_frame [simp]:
  "nxt (s\<lparr>flag := f\<rparr>) = nxt s" "nxt (s\<lparr>sem := m\<rparr>) = nxt s"
  by (simp_all add: nxt_def fun_eq_iff)

lemma queue_inv_unlock [simp]:
  "queue_inv (unlock s) = queue_inv s" "waiting (unlock s) = waiting s"
  "room (unlock s) = room s" "flag (unlock s) = 0" "sem (unlock s) = sem s"
  by (simp_all add: unlock_def queue_inv_def queue_of_def waiting_def room_def)

lemma queue_inv_flag [simp]:
  "queue_inv (s\<lparr>flag := f\<rparr>) = queue_inv s" "waiting (s\<lparr>flag := f\<rparr>) = waiting s"
  "room (s\<lparr>flag := f\<rparr>) = room s"
  by (simp_all add: queue_inv_def queue_of_def waiting_def room_def)

lemma queue_inv_set_count [simp]:
  "queue_inv (set_sem (\<lambda>m. m\<lparr>count := f m\<rparr>) s) = queue_inv s"
  "waiting (set_sem (\<lambda>m. m\<lparr>count := f m\<rparr>) s) = waiting s"
  "room (set_sem (\<lambda>m. m\<lparr>count := f m\<rparr>) s) = room s"
  by (simp_all add: set_sem_def queue_inv_def queue_of_def waiting_def room_def)

lemma sem_inv_flag [simp]: "sem_inv (s\<lparr>flag := f\<rparr>) = sem_inv s"
  by (simp add: sem_inv_def)

lemma dequeue_frame:
  "dequeue s = Inr (t, s') \<Longrightarrow> count (sem s') = count (sem s) \<and> limit s' = limit s \<and> brk s' = brk s"
  by (auto simp: dequeue_def removeNode_def set_sem_def free_def rbind_def Let_def split: sum.splits)

lemma down_refines:
  assumes "sem_inv s" and "0 < room s"
  shows "\<exists>ret e s'. sthread_sem_down t s = Inr (ret, e, s') \<and> sem_inv s' \<and> flag s' = 0
    \<and> (e, sem_abs s') = spec_down t (sem_abs s) \<and> (ret = 0 \<longleftrightarrow> e = Continue)"
proof (cases "0 < count (sem s)")
  case True
  with assms show ?thesis
    by (auto simp: sthread_sem_down_def sem_inv_def sem_abs_def wrap_simps)
      (simp_all add: set_sem_def wrap_simps)
next
  case False
  from assms sem_queue.enq_law [of s t] obtain s'
    where s': "insertNode s t = Inr s'" "queue_inv s'" "waiting s' = waiting s @ [t]"
    by (auto simp: sem_inv_def)
  with False assms insertNode_frame [OF s'(1)] show ?thesis
    by (auto simp: sthread_sem_down_def sem_inv_def sem_abs_def)
qed

lemma up_refines:
  assumes "sem_inv s" and "count (sem s) < 2 ^ 31 - 1"
  shows "\<exists>e s'. sthread_sem_up s = Inr (0, e, s') \<and> sem_inv s' \<and> flag s' = 0
    \<and> (e, sem_abs s') = spec_up (sem_abs s)"
proof (cases "waiting s")
  case Nil
  with assms queue_inv_count [of s] show ?thesis
    by (auto simp: sthread_sem_up_def sem_inv_def sem_abs_def wrap_simps)
      (simp_all add: set_sem_def wrap_simps)
next
  case (Cons t ts)
  from assms sem_queue.deq_law [of s t ts] Cons obtain s'
    where s': "dequeue s = Inr (t, s')" "queue_inv s'" "waiting s' = ts"
    by (auto simp: sem_inv_def)
  with Cons assms dequeue_frame [OF s'(1)] queue_inv_count [of s] show ?thesis
    by (auto simp: sthread_sem_up_dequeue sem_inv_def sem_abs_def)
qed

lemma try_down_refines:
  assumes "sem_inv s"
  shows "sem_inv (snd (sthread_sem_try_down s)) \<and> flag (snd (sthread_sem_try_down s)) = 0
    \<and> sthread_sem_try_down s = (if count (sem s) > 0
         then (0, snd (sthread_sem_try_down s)) else (- 1, s\<lparr>flag := 0\<rparr>))
    \<and> sem_abs (snd (sthread_sem_try_down s)) =
        (if count (sem s) > 0 then (count (sem s) - 1, waiting s) else sem_abs s)"
  using assms
  by (auto simp: sthread_sem_try_down_def sem_inv_def sem_abs_def wrap_simps unlock_def [symmetric])
    (auto simp: set_sem_def wrap_simps)

text \<open>A free lock is taken at once; a lock that is held is spun on without end by one thread alone.\<close>

lemma lock_free [simp]: "lock 0 = Some 1"
  by (subst lock.simps) (simp add: test_and_set_def)

lemma lock_held: "lock f = Some r \<Longrightarrow> f = 0 \<and> r = 1"
  by (rule lock.raw_induct [where P = "\<lambda>f r. f = 0 \<and> r = 1"])
    (fastforce simp: test_and_set_def split: if_splits)+

lemma locked_free: "flag s = 0 \<Longrightarrow> locked body s = Some (body (s\<lparr>flag := 1\<rparr>))"
  by (simp add: locked_def)

section \<open>Properties\<close>

text \<open>
  C5. The semaphore of \<open>sync.c\<close> implements the abstract semaphore: on a well-formed state with the
  lock free, \<open>down\<close> and \<open>up\<close> return, do not touch memory they do not own, release the lock, keep
  the invariant, and change value and waiting threads exactly as the specification says.
\<close>
theorem semaphore_refines_spec:
  assumes "sem_inv s" and "flag s = 0" and "0 < room s" and "count (sem s) < 2 ^ 31 - 1"
  shows "(\<exists>ret e s'. locked (sthread_sem_down t) s = Some (Inr (ret, e, s')) \<and> sem_inv s'
        \<and> flag s' = 0 \<and> (e, sem_abs s') = spec_down t (sem_abs s))
    \<and> (\<exists>e s'. locked sthread_sem_up s = Some (Inr (0, e, s')) \<and> sem_inv s'
        \<and> flag s' = 0 \<and> (e, sem_abs s') = spec_up (sem_abs s))"
  using assms down_refines [of "s\<lparr>flag := 1\<rparr>" t] up_refines [of "s\<lparr>flag := 1\<rparr>"]
  by (auto simp: locked_free sem_abs_def)

definition sem_example :: sync_state where
  "sem_example = snd (sthread_sem_init 1
     \<lparr>cells = Map.empty, brk = 16, limit = 64, flag = 0,
      sem = \<lparr>count = 0, sthread_count = 0, head = None, start = None\<rparr>\<rparr>)"

lemma sem_example_inv: "sem_inv sem_example" "flag sem_example = 0" "room sem_example = 48"
  by (auto simp: sem_inv_def queue_inv_def queue_of_def sem_example_def sthread_sem_init_def
      set_sem_def unlock_def waiting_def room_def intro!: exI [of _ "[]"])

theorem semaphore_refines_spec_witness:
  "(\<exists>ret e s'. locked (sthread_sem_down 5) sem_example = Some (Inr (ret, e, s')) \<and> sem_inv s'
        \<and> flag s' = 0 \<and> (e, sem_abs s') = spec_down 5 (sem_abs sem_example))
    \<and> (\<exists>e s'. locked sthread_sem_up sem_example = Some (Inr (0, e, s')) \<and> sem_inv s'
        \<and> flag s' = 0 \<and> (e, sem_abs s') = spec_up (sem_abs sem_example))"
  by (rule semaphore_refines_spec)
    (simp_all add: sem_example_inv, simp add: sem_example_def sthread_sem_init_def set_sem_def unlock_def)

text \<open>
  The linked queue of waiting threads is first come first served: inserting any list of threads
  into an empty queue with room for them and then removing as many returns them in the same order
  and leaves the queue empty.
\<close>
theorem wait_queue_fifo:
  assumes "queue_inv s" and "waiting s = []" and "length ts \<le> room s"
  shows "\<exists>s'. rbind (enq_all insertNode s ts) (deq_all dequeue (length ts)) = Inr (ts, s')
    \<and> waiting s' = []"
  using assms by (rule sem_queue.first_come_first_served)

theorem wait_queue_fifo_witness:
  "\<exists>s'. rbind (enq_all insertNode sem_example [3, 1, 2]) (deq_all dequeue (length [3::nat, 1, 2]))
      = Inr ([3, 1, 2], s') \<and> waiting s' = []"
  by (rule wait_queue_fifo)
    (use sem_example_inv in \<open>simp_all add: sem_inv_def\<close>,
     simp add: sem_example_def sthread_sem_init_def set_sem_def unlock_def waiting_def)

text \<open>
  \<open>sthread_sem_destroy\<close> resets \<open>head\<close> but not \<open>sthread_count\<close>: destroying a semaphore that has
  waiting threads succeeds, and the next \<open>down\<close> dereferences the null \<open>head\<close>.
\<close>
theorem destroy_with_waiters_breaks_down:
  assumes "sem_inv s" and "waiting s \<noteq> []"
  shows "fst (sthread_sem_destroy s) = 0
    \<and> sthread_sem_down t (snd (sthread_sem_destroy s)) = Inl NullDeref"
proof -
  from assms queue_inv_count [of s] have "sthread_count (sem s) \<noteq> 0"
    by (auto simp: sem_inv_def)
  then show ?thesis
    by (simp add: sthread_sem_destroy_def sthread_sem_down_def insertNode_def heap_op_defs unlock_def
        Let_def split: prod.splits if_splits)
qed

definition sem_waiting_example :: sync_state where
  "sem_waiting_example = \<lparr>cells = [16 \<mapsto> \<lparr>data = 5, next = None\<rparr>], brk = 17, limit = 64, flag = 0,
      sem = \<lparr>count = 0, sthread_count = 1, head = Some 16, start = Some 16\<rparr>\<rparr>"

theorem destroy_with_waiters_breaks_down_witness:
  "fst (sthread_sem_destroy sem_waiting_example) = 0
    \<and> sthread_sem_down 7 (snd (sthread_sem_destroy sem_waiting_example)) = Inl NullDeref"
  by (rule destroy_with_waiters_breaks_down)
    (auto simp: sem_waiting_example_def sem_inv_def queue_inv_def queue_of_def waiting_def nxt_def
      intro!: exI [of _ "[16]"])

end
