(* ===== verification/Semaphore_Threads.thy ===== *)
theory Semaphore_Threads
  imports Semaphore
begin

text \<open>
  Threads that share one semaphore, interleaved at the points where the code takes and releases
  the spin lock and where it reads or writes a pipe. \<open>sthread_suspend\<close> reads nine bytes from the
  thread's own pipe and \<open>sthread_wake\<close> writes nine bytes into it (\<open>hw3/sthread.c\<close>), so a wake-up
  that comes before the suspend is kept.
\<close>

section \<open>The step relation\<close>

datatype pc = Idle | In_down | In_try | Blocked | Holding | In_up | Waking tid

record sys =
  mem :: sync_state
  pc :: "tid \<Rightarrow> pc"
  pipe :: "tid \<Rightarrow> nat"

definition goto :: "tid \<Rightarrow> pc \<Rightarrow> sys \<Rightarrow> sys" where
  "goto t c s = s\<lparr>pc := (pc s)(t := c)\<rparr>"

inductive sem_step :: "sys \<Rightarrow> sys \<Rightarrow> bool" where
  down_lock: "pc s t = Idle \<Longrightarrow> flag (mem s) = 0 \<Longrightarrow>
    sem_step s (goto t In_down (s\<lparr>mem := (mem s)\<lparr>flag := 1\<rparr>\<rparr>))"
| down_cont: "pc s t = In_down \<Longrightarrow> sthread_sem_down t (mem s) = Inr (r, Continue, m) \<Longrightarrow>
    0 < room (mem s) \<Longrightarrow> sem_step s (goto t Holding (s\<lparr>mem := m\<rparr>))"
| down_wait: "pc s t = In_down \<Longrightarrow> sthread_sem_down t (mem s) = Inr (r, Suspend, m) \<Longrightarrow>
    0 < room (mem s) \<Longrightarrow> sem_step s (goto t Blocked (s\<lparr>mem := m\<rparr>))"
| resume: "pc s t = Blocked \<Longrightarrow> 9 \<le> pipe s t \<Longrightarrow>
    sem_step s (goto t Holding (s\<lparr>pipe := (pipe s)(t := pipe s t - 9)\<rparr>))"
| try_lock: "pc s t = Idle \<Longrightarrow> flag (mem s) = 0 \<Longrightarrow>
    sem_step s (goto t In_try (s\<lparr>mem := (mem s)\<lparr>flag := 1\<rparr>\<rparr>))"
| try_down: "pc s t = In_try \<Longrightarrow> sthread_sem_try_down (mem s) = (r, m) \<Longrightarrow>
    sem_step s (goto t (if r = 0 then Holding else Idle) (s\<lparr>mem := m\<rparr>))"
| up_lock: "pc s t = Holding \<Longrightarrow> flag (mem s) = 0 \<Longrightarrow>
    sem_step s (goto t In_up (s\<lparr>mem := (mem s)\<lparr>flag := 1\<rparr>\<rparr>))"
| up_cont: "pc s t = In_up \<Longrightarrow> sthread_sem_up (mem s) = Inr (r, Continue, m) \<Longrightarrow>
    sem_step s (goto t Idle (s\<lparr>mem := m\<rparr>))"
| up_wake: "pc s t = In_up \<Longrightarrow> sthread_sem_up (mem s) = Inr (r, Wake w, m) \<Longrightarrow>
    sem_step s (goto t (Waking w) (s\<lparr>mem := m\<rparr>))"
| wake: "pc s t = Waking w \<Longrightarrow>
    sem_step s (goto t Idle (s\<lparr>pipe := (pipe s)(w := pipe s w + 9)\<rparr>))"

definition sys_start :: "nat \<Rightarrow> nat \<Rightarrow> sys" where
  "sys_start N space = \<lparr>mem = snd (sthread_sem_init (int N)
      \<lparr>cells = Map.empty, brk = 1, limit = space, flag = 0,
       sem = \<lparr>count = 0, sthread_count = 0, head = None, start = None\<rparr>\<rparr>),
     pc = (\<lambda>_. Idle), pipe = (\<lambda>_. 0)\<rparr>"

inductive sem_reach :: "nat \<Rightarrow> sys \<Rightarrow> bool" for N where
  reach_start: "sem_reach N (sys_start N space)"
| reach_step: "sem_reach N s \<Longrightarrow> sem_step s s' \<Longrightarrow> sem_reach N s'"

section \<open>The invariant\<close>

definition crit :: "pc \<Rightarrow> bool" where
  "crit c \<longleftrightarrow> c = In_down \<or> c = In_try \<or> c = In_up"

text \<open>A thread that was taken off the queue but has not returned from its suspend is owed the unit.\<close>

definition owed :: "sys \<Rightarrow> tid \<Rightarrow> bool" where
  "owed s t \<longleftrightarrow> pc s t = Blocked \<and> t \<notin> set (waiting (mem s))"

definition granted :: "sys \<Rightarrow> tid set" where
  "granted s = {t. pc s t = Holding \<or> pc s t = In_up \<or> owed s t}"

definition lock_inv :: "sys \<Rightarrow> bool" where
  "lock_inv s \<longleftrightarrow> (\<forall>t u. crit (pc s t) \<longrightarrow> crit (pc s u) \<longrightarrow> t = u)
     \<and> (flag (mem s) = 0 \<longrightarrow> (\<forall>t. \<not> crit (pc s t)))"

definition wait_inv :: "sys \<Rightarrow> bool" where
  "wait_inv s \<longleftrightarrow> distinct (waiting (mem s)) \<and> (\<forall>t \<in> set (waiting (mem s)). pc s t = Blocked)"

definition pipe_inv :: "sys \<Rightarrow> bool" where
  "pipe_inv s \<longleftrightarrow> (\<forall>t. pipe s t = (if owed s t \<and> (\<forall>u. pc s u \<noteq> Waking t) then 9 else 0))
     \<and> (\<forall>t u. pc s u = Waking t \<longrightarrow> owed s t)
     \<and> (\<forall>t u v. pc s u = Waking t \<longrightarrow> pc s v = Waking t \<longrightarrow> u = v)"

definition unit_inv :: "nat \<Rightarrow> sys \<Rightarrow> bool" where
  "unit_inv N s \<longleftrightarrow> finite (granted s) \<and> count (sem (mem s)) + int (card (granted s)) = int N"

definition sys_inv :: "nat \<Rightarrow> sys \<Rightarrow> bool" where
  "sys_inv N s \<longleftrightarrow> sem_inv (mem s) \<and> lock_inv s \<and> wait_inv s \<and> pipe_inv s \<and> unit_inv N s"

lemmas sys_inv_defs = sys_inv_def lock_inv_def wait_inv_def pipe_inv_def crit_def

lemma goto_simps [simp]:
  "pc (goto t c s) = (pc s)(t := c)" "mem (goto t c s) = mem s" "pipe (goto t c s) = pipe s"
  by (simp_all add: goto_def)

lemma sem_inv_start: "N < 2 ^ 31 \<Longrightarrow> sem_inv (mem (sys_start N space))"
  by (auto simp: sys_start_def sem_inv_def queue_inv_def queue_of_def sthread_sem_init_def set_sem_def
      unlock_def waiting_def intro!: exI [of _ "[]"])

lemma sys_inv_start: "N < 2 ^ 31 \<Longrightarrow> sys_inv N (sys_start N space)"
  unfolding sys_inv_defs unit_inv_def granted_def owed_def
  by (auto simp: sem_inv_start)
    (auto simp: sys_start_def sthread_sem_init_def set_sem_def unlock_def waiting_def)

text \<open>The effect of the operations on the abstract value, for use under the invariant.\<close>

lemma down_Continue:
  assumes "sem_inv m" "0 < room m" "sthread_sem_down t m = Inr (r, Continue, m')"
  shows "sem_inv m' \<and> waiting m' = waiting m \<and> count (sem m') = count (sem m) - 1 \<and> flag m' = 0"
  using down_refines [OF assms(1,2), of t] assms(3)
  by (auto simp: sem_abs_def split: if_splits)

lemma down_Suspend:
  assumes "sem_inv m" "0 < room m" "sthread_sem_down t m = Inr (r, Suspend, m')"
  shows "sem_inv m' \<and> waiting m' = waiting m @ [t] \<and> count (sem m') = count (sem m) \<and> flag m' = 0"
  using down_refines [OF assms(1,2), of t] assms(3)
  by (auto simp: sem_abs_def split: if_splits)

lemma up_Continue:
  assumes "sem_inv m" "count (sem m) < 2 ^ 31 - 1" "sthread_sem_up m = Inr (r, Continue, m')"
  shows "sem_inv m' \<and> waiting m' = waiting m \<and> count (sem m') = count (sem m) + 1 \<and> flag m' = 0"
  using up_refines [OF assms(1,2)] assms(3)
  by (cases "waiting m") (auto simp: sem_abs_def)

lemma up_Wake:
  assumes "sem_inv m" "count (sem m) < 2 ^ 31 - 1" "sthread_sem_up m = Inr (r, Wake w, m')"
  shows "sem_inv m' \<and> waiting m = w # waiting m' \<and> count (sem m') = count (sem m) \<and> flag m' = 0"
  using up_refines [OF assms(1,2)] assms(3)
  by (cases "waiting m") (auto simp: sem_abs_def)

lemma try_down_cases:
  assumes "sem_inv m" "sthread_sem_try_down m = (r, m')"
  shows "sem_inv m' \<and> waiting m' = waiting m \<and> flag m' = 0
    \<and> count (sem m') = (if r = 0 then count (sem m) - 1 else count (sem m))"
  using try_down_refines [OF assms(1)] unfolding assms(2)
  by (auto simp: sem_abs_def split: if_splits)

lemma up_count:
  assumes "sys_inv N s" "N < 2 ^ 31" "pc s t = In_up"
  shows "count (sem (mem s)) < 2 ^ 31 - 1"
proof -
  from assms have fin: "finite (granted s)" and eq: "count (sem (mem s)) + int (card (granted s)) = int N"
    and "t \<in> granted s" by (auto simp: sys_inv_def unit_inv_def granted_def)
  then have "0 < card (granted s)" by (auto simp: card_gt_0_iff)
  then have "1 \<le> int (card (granted s))" by simp
  moreover have "int N < 2 ^ 31" using assms(2) by simp
  ultimately show ?thesis using eq by simp
qed

section \<open>Every step keeps the invariant\<close>

text \<open>Steps that change no grant: taking the lock, joining the queue, delivering a wake-up.\<close>

lemma unit_inv_same:
  "unit_inv N s \<Longrightarrow> granted s' = granted s \<Longrightarrow> count (sem (mem s')) = count (sem (mem s)) \<Longrightarrow> unit_inv N s'"
  by (simp add: unit_inv_def)

lemma unit_inv_gain:
  "unit_inv N s \<Longrightarrow> t \<notin> granted s \<Longrightarrow> granted s' = insert t (granted s) \<Longrightarrow>
    count (sem (mem s')) = count (sem (mem s)) - 1 \<Longrightarrow> unit_inv N s'"
  by (simp add: unit_inv_def)

lemma unit_inv_lose:
  "unit_inv N s \<Longrightarrow> t \<in> granted s \<Longrightarrow> granted s' = granted s - {t} \<Longrightarrow>
    count (sem (mem s')) = count (sem (mem s)) + 1 \<Longrightarrow> unit_inv N s'"
  using card_Suc_Diff1 [of "granted s" t] by (simp add: unit_inv_def)

lemma unit_inv_swap:
  "unit_inv N s \<Longrightarrow> t \<in> granted s \<Longrightarrow> w \<notin> granted s \<Longrightarrow> granted s' = insert w (granted s - {t}) \<Longrightarrow>
    count (sem (mem s')) = count (sem (mem s)) \<Longrightarrow> unit_inv N s'"
  using card_Suc_Diff1 [of "granted s" t] by (simp add: unit_inv_def)

lemma pipe_inv_same:
  assumes "pipe_inv s" "owed s' = owed s" "pipe s' = pipe s"
    "\<And>u x. pc s' u = Waking x \<longleftrightarrow> pc s u = Waking x"
  shows "pipe_inv s'"
  using assms(1) unfolding pipe_inv_def assms(2-4) .

lemma lock_inv_enter:
  assumes "lock_inv s" "flag (mem s) = 0" "pc s' = (pc s)(t := c)" "flag (mem s') = 1"
  shows "lock_inv s'"
  using assms by (auto simp: lock_inv_def)

lemma lock_inv_leave:
  assumes "lock_inv s" "crit (pc s t)" "\<not> crit c" "pc s' = (pc s)(t := c)"
  shows "lock_inv s'"
  using assms by (auto simp: lock_inv_def)

lemma lock_inv_outside:
  assumes "lock_inv s" "\<not> crit (pc s t)" "\<not> crit c" "pc s' = (pc s)(t := c)" "mem s' = mem s"
  shows "lock_inv s'"
  using assms by (auto simp: lock_inv_def)

lemma wait_inv_same:
  assumes "wait_inv s" "waiting (mem s') = waiting (mem s)" "pc s' = (pc s)(t := c)"
    "t \<notin> set (waiting (mem s))"
  shows "wait_inv s'"
  using assms by (auto simp: wait_inv_def)

lemma not_waiting: "sys_inv N s \<Longrightarrow> pc s t \<noteq> Blocked \<Longrightarrow> t \<notin> set (waiting (mem s))"
  by (auto simp: sys_inv_def wait_inv_def)

lemmas sys_invD = sys_inv_def [THEN iffD1]

lemma sys_inv_lock:
  assumes inv: "sys_inv N s" and f: "flag (mem s) = 0" and c: "pc s t = c" "crit c'"
    "c = Idle \<and> c' \<noteq> In_up \<or> c = Holding \<and> c' = In_up"
  shows "sys_inv N (goto t c' (s\<lparr>mem := (mem s)\<lparr>flag := 1\<rparr>\<rparr>))" (is "sys_inv N ?s")
proof -
  have "granted ?s = granted s" using c by (auto simp: granted_def owed_def crit_def)
  then have "unit_inv N ?s" using inv by - (rule unit_inv_same [of N s], auto simp: sys_inv_def)
  moreover have "owed ?s = owed s" using c by (auto simp: owed_def crit_def fun_eq_iff)
  then have "pipe_inv ?s" using inv c by - (rule pipe_inv_same [of s], auto simp: sys_inv_def crit_def)
  moreover have "lock_inv ?s" using inv f by - (rule lock_inv_enter [of s], auto simp: sys_inv_def)
  moreover have "wait_inv ?s"
    using inv not_waiting [OF inv, of t] c by - (rule wait_inv_same [of s], auto simp: sys_inv_def)
  ultimately show ?thesis using inv by (simp add: sys_inv_def)
qed

lemma sys_inv_down_cont:
  assumes inv: "sys_inv N s" and pc: "pc s t = In_down \<or> pc s t = In_try"
    and m: "sem_inv m" "waiting m = waiting (mem s)" "count (sem m) = count (sem (mem s)) - 1"
  shows "sys_inv N (goto t Holding (s\<lparr>mem := m\<rparr>))" (is "sys_inv N ?s")
proof -
  have "granted ?s = insert t (granted s)" "t \<notin> granted s"
    using pc m inv by (auto simp: granted_def owed_def)
  then have "unit_inv N ?s" using inv m by - (rule unit_inv_gain [of N s t], auto simp: sys_inv_def)
  moreover have "owed ?s = owed s" using pc m by (auto simp: owed_def fun_eq_iff)
  then have "pipe_inv ?s" using inv pc by - (rule pipe_inv_same [of s], auto simp: sys_inv_def)
  moreover have "lock_inv ?s"
    using inv pc by - (rule lock_inv_leave [of s t Holding], auto simp: sys_inv_def crit_def)
  moreover have "wait_inv ?s"
    using inv not_waiting [OF inv, of t] pc m by - (rule wait_inv_same [of s], auto simp: sys_inv_def)
  ultimately show ?thesis using m by (simp add: sys_inv_def)
qed

lemma sys_inv_try_fails:
  assumes inv: "sys_inv N s" and pc: "pc s t = In_try" and m: "sem_inv m" "waiting m = waiting (mem s)"
    "count (sem m) = count (sem (mem s))"
  shows "sys_inv N (goto t Idle (s\<lparr>mem := m\<rparr>))" (is "sys_inv N ?s")
proof -
  have "granted ?s = granted s" using pc m inv by (auto simp: granted_def owed_def)
  then have "unit_inv N ?s" using inv m by - (rule unit_inv_same [of N s], auto simp: sys_inv_def)
  moreover have "owed ?s = owed s" using pc m by (auto simp: owed_def fun_eq_iff)
  then have "pipe_inv ?s" using inv pc by - (rule pipe_inv_same [of s], auto simp: sys_inv_def)
  moreover have "lock_inv ?s"
    using inv pc by - (rule lock_inv_leave [of s t Idle], auto simp: sys_inv_def crit_def)
  moreover have "wait_inv ?s"
    using inv not_waiting [OF inv, of t] pc m by - (rule wait_inv_same [of s], auto simp: sys_inv_def)
  ultimately show ?thesis using m by (simp add: sys_inv_def)
qed

lemma sys_inv_down_wait:
  assumes inv: "sys_inv N s" and pc: "pc s t = In_down" and m: "sem_inv m" "waiting m = waiting (mem s) @ [t]"
    "count (sem m) = count (sem (mem s))"
  shows "sys_inv N (goto t Blocked (s\<lparr>mem := m\<rparr>))" (is "sys_inv N ?s")
proof -
  have tw: "t \<notin> set (waiting (mem s))" using not_waiting [OF inv, of t] pc by simp
  have "granted ?s = granted s" using pc m by (auto simp: granted_def owed_def)
  then have "unit_inv N ?s" using inv m by - (rule unit_inv_same [of N s], auto simp: sys_inv_def)
  moreover have "owed ?s = owed s" using pc m by (auto simp: owed_def fun_eq_iff)
  then have "pipe_inv ?s" using inv pc by - (rule pipe_inv_same [of s], auto simp: sys_inv_def)
  moreover have "lock_inv ?s"
    using inv pc by - (rule lock_inv_leave [of s t Blocked], auto simp: sys_inv_def crit_def)
  moreover have "wait_inv ?s" using inv tw m by (auto simp: sys_inv_def wait_inv_def)
  ultimately show ?thesis using m by (simp add: sys_inv_def)
qed

lemma sys_inv_up_cont:
  assumes inv: "sys_inv N s" and pc: "pc s t = In_up" and m: "sem_inv m" "waiting m = waiting (mem s)"
    "count (sem m) = count (sem (mem s)) + 1"
  shows "sys_inv N (goto t Idle (s\<lparr>mem := m\<rparr>))" (is "sys_inv N ?s")
proof -
  have "granted ?s = granted s - {t}" "t \<in> granted s"
    using pc m by (auto simp: granted_def owed_def)
  then have "unit_inv N ?s" using inv m by - (rule unit_inv_lose [of N s t], auto simp: sys_inv_def)
  moreover have "owed ?s = owed s" using pc m by (auto simp: owed_def fun_eq_iff)
  then have "pipe_inv ?s" using inv pc by - (rule pipe_inv_same [of s], auto simp: sys_inv_def)
  moreover have "lock_inv ?s"
    using inv pc by - (rule lock_inv_leave [of s t Idle], auto simp: sys_inv_def crit_def)
  moreover have "wait_inv ?s"
    using inv not_waiting [OF inv, of t] pc m by - (rule wait_inv_same [of s], auto simp: sys_inv_def)
  ultimately show ?thesis using m by (simp add: sys_inv_def)
qed

lemma pipe_inv_start_wake:
  assumes "pipe_inv s" "\<not> owed s w" "pc s t = In_up" "owed s' = (owed s)(w := True)"
    "pc s' = (pc s)(t := Waking w)" "pipe s' = pipe s"
  shows "pipe_inv s'"
proof -
  have nw: "pc s u \<noteq> Waking w" for u using assms(1,2) by (auto simp: pipe_inv_def)
  have same: "pc s' u = Waking x \<longleftrightarrow> pc s u = Waking x" if "x \<noteq> w" for u x
    using that assms(3,5) by auto
  have "pipe s' x = (if owed s' x \<and> (\<forall>u. pc s' u \<noteq> Waking x) then 9 else 0)" for x
  proof (cases "x = w")
    case True
    have "\<not> (\<forall>u. pc s' u \<noteq> Waking w)" using assms(5) by auto
    with True show ?thesis using assms(1,2,6) unfolding pipe_inv_def by simp
  next
    case False
    then show ?thesis using same assms(1,4,6) unfolding pipe_inv_def by simp
  qed
  moreover have "owed s' x" if "pc s' u = Waking x" for u x
    using that same [of x u] assms(1,4) by (cases "x = w") (auto simp: pipe_inv_def)
  moreover have "u = v" if "pc s' u = Waking x" "pc s' v = Waking x" for u v x
    using that same [of x] nw assms(1,5) by (cases "x = w") (auto simp: pipe_inv_def split: if_splits)
  ultimately show ?thesis unfolding pipe_inv_def by blast
qed

lemma sys_inv_up_wake:
  assumes inv: "sys_inv N s" and pc: "pc s t = In_up" and m: "sem_inv m" "waiting (mem s) = w # waiting m"
    "count (sem m) = count (sem (mem s))"
  shows "sys_inv N (goto t (Waking w) (s\<lparr>mem := m\<rparr>))" (is "sys_inv N ?s")
proof -
  have w: "pc s w = Blocked" "w \<notin> set (waiting m)" "w \<noteq> t" "\<not> owed s w"
    using inv pc m by (auto simp: sys_inv_def wait_inv_def owed_def)
  have ow: "owed ?s = (owed s)(w := True)"
    using pc m w by (auto simp: owed_def fun_eq_iff)
  have "granted ?s = insert w (granted s - {t})" "t \<in> granted s" "w \<notin> granted s"
    using pc m w ow by (auto simp: granted_def owed_def)
  then have "unit_inv N ?s" using inv m by - (rule unit_inv_swap [of N s t w], auto simp: sys_inv_def)
  moreover have "pipe_inv ?s"
    using inv w pc ow by - (rule pipe_inv_start_wake [of s w t], auto simp: sys_inv_def)
  moreover have "lock_inv ?s"
    using inv pc by - (rule lock_inv_leave [of s t "Waking w"], auto simp: sys_inv_def crit_def)
  moreover have "wait_inv ?s"
    using inv pc m not_waiting [OF inv, of t] by (auto simp: sys_inv_def wait_inv_def)
  ultimately show ?thesis using m by (simp add: sys_inv_def)
qed

lemma pipe_at:
  "sys_inv N s \<Longrightarrow> pipe s t = (if owed s t \<and> (\<forall>u. pc s u \<noteq> Waking t) then 9 else 0)"
  unfolding sys_inv_def pipe_inv_def by blast

lemma sys_inv_resume:
  assumes inv: "sys_inv N s" and pc: "pc s t = Blocked" and p: "9 \<le> pipe s t"
  shows "sys_inv N (goto t Holding (s\<lparr>pipe := (pipe s)(t := pipe s t - 9)\<rparr>))" (is "sys_inv N ?s")
proof -
  have ow: "owed s t" and nw: "\<And>u. pc s u \<noteq> Waking t" and p9: "pipe s t = 9"
    using p pipe_at [OF inv, of t] by (auto split: if_splits)
  have "granted ?s = granted s" using pc ow by (auto simp: granted_def owed_def)
  then have "unit_inv N ?s" using inv by - (rule unit_inv_same [of N s], auto simp: sys_inv_def)
  moreover have ow': "owed ?s = (owed s)(t := False)" by (auto simp: owed_def fun_eq_iff)
  have wk: "pc ?s u = Waking x \<longleftrightarrow> pc s u = Waking x" for u x using pc by auto
  have "pipe_inv ?s"
    unfolding pipe_inv_def wk ow' using inv nw p9 by (simp add: sys_inv_def pipe_inv_def)
  moreover have "lock_inv ?s"
    using inv pc by - (rule lock_inv_outside [of s t Holding], auto simp: sys_inv_def crit_def)
  moreover have "wait_inv ?s"
    using inv ow by - (rule wait_inv_same [of s], auto simp: sys_inv_def owed_def)
  ultimately show ?thesis using inv by (simp add: sys_inv_def)
qed

lemma sys_inv_wake:
  assumes inv: "sys_inv N s" and pc: "pc s t = Waking w"
  shows "sys_inv N (goto t Idle (s\<lparr>pipe := (pipe s)(w := pipe s w + 9)\<rparr>))" (is "sys_inv N ?s")
proof -
  have ow: "owed s w" using inv pc by (auto simp: sys_inv_def pipe_inv_def)
  have only: "pc s u = Waking w \<longleftrightarrow> u = t" for u
    using inv pc by (auto simp: sys_inv_def pipe_inv_def)
  have wk: "pc ?s u = Waking x \<longleftrightarrow> pc s u = Waking x \<and> x \<noteq> w" for u x
    using pc only [of u] by (cases "u = t") auto
  have p0: "pipe s w = 0" using pipe_at [OF inv, of w] pc by auto
  have "granted ?s = granted s" using pc by (auto simp: granted_def owed_def)
  then have "unit_inv N ?s" using inv by - (rule unit_inv_same [of N s], auto simp: sys_inv_def)
  moreover have ow': "owed ?s = owed s" using pc by (auto simp: owed_def fun_eq_iff)
  have "pipe_inv ?s"
    unfolding pipe_inv_def wk ow' using inv ow p0 by (simp add: sys_inv_def pipe_inv_def)
  moreover have "lock_inv ?s"
    using inv pc by - (rule lock_inv_outside [of s t Idle], auto simp: sys_inv_def crit_def)
  moreover have "wait_inv ?s"
    using inv not_waiting [OF inv, of t] pc by - (rule wait_inv_same [of s], auto simp: sys_inv_def)
  ultimately show ?thesis using inv by (simp add: sys_inv_def)
qed

lemma sys_inv_step:
  assumes "sem_step s s'" and "sys_inv N s" and "N < 2 ^ 31"
  shows "sys_inv N s'"
  using assms
proof (induction rule: sem_step.induct)
  case (down_lock s t)
  then show ?case by (intro sys_inv_lock) (auto simp: crit_def)
next
  case (down_cont s t r m)
  then show ?case using down_Continue [of "mem s" t r m] by (intro sys_inv_down_cont) (auto simp: sys_inv_def)
next
  case (down_wait s t r m)
  then show ?case using down_Suspend [of "mem s" t r m] by (intro sys_inv_down_wait) (auto simp: sys_inv_def)
next
  case (resume s t)
  then show ?case by (intro sys_inv_resume)
next
  case (try_lock s t)
  then show ?case by (intro sys_inv_lock) (auto simp: crit_def)
next
  case (try_down s t r m)
  then show ?case using try_down_cases [of "mem s" r m] 
    by (auto simp: sys_inv_def [of N s] intro!: sys_inv_down_cont sys_inv_try_fails)
next
  case (up_lock s t)
  then show ?case by (intro sys_inv_lock) (auto simp: crit_def)
next
  case (up_cont s t r m)
  then show ?case using up_Continue [of "mem s" r m] up_count [of N s t]
    by (intro sys_inv_up_cont) (auto simp: sys_inv_def)
next
  case (up_wake s t r w m)
  then show ?case using up_Wake [of "mem s" r w m] up_count [of N s t]
    by (intro sys_inv_up_wake) (auto simp: sys_inv_def)
next
  case (wake s t w)
  then show ?case by (intro sys_inv_wake)
qed

lemma sem_reach_inv: "sem_reach N s \<Longrightarrow> N < 2 ^ 31 \<Longrightarrow> sys_inv N s"
  by (induction rule: sem_reach.induct) (auto intro: sys_inv_start sys_inv_step)

section \<open>Properties\<close>

text \<open>
  C6. At most \<open>N\<close> threads are between a successful \<open>down\<close> (or \<open>try_down\<close>) and the matching \<open>up\<close> of
  a semaphore initialised with \<open>N\<close>, in every interleaving; for \<open>N = 1\<close> this is mutual exclusion.
  Units are never lost or duplicated: the value plus the threads that hold or are owed a unit is \<open>N\<close>.
\<close>
theorem semaphore_capacity:
  assumes "sem_reach N s" and "N < 2 ^ 31"
  shows "card {t. pc s t = Holding} \<le> N
    \<and> count (sem (mem s)) + int (card (granted s)) = int N"
proof -
  from sem_reach_inv [OF assms] have u: "finite (granted s)"
    "count (sem (mem s)) + int (card (granted s)) = int N" and c: "0 \<le> count (sem (mem s))"
    by (auto simp: sys_inv_def unit_inv_def sem_inv_def)
  have "card {t. pc s t = Holding} \<le> card (granted s)"
    by (rule card_mono [OF u(1)]) (auto simp: granted_def)
  with u c show ?thesis by linarith
qed


text \<open>
  The thread inside a critical section of the semaphore is alone there, its operation does not
  fault (no null or freed node is touched) and it has a next step, as long as memory is left for
  one more queue node.
\<close>
theorem critical_section_safe:
  assumes "sem_reach N s" and "N < 2 ^ 31" and "0 < room (mem s)" and "crit (pc s t)"
  shows "(\<forall>u. crit (pc s u) \<longrightarrow> u = t) \<and> (\<exists>s'. sem_step s s' \<and> \<not> crit (pc s' t))"
proof -
  note inv = sem_reach_inv [OF assms(1,2)]
  then have si: "sem_inv (mem s)" and li: "lock_inv s" by (auto simp: sys_inv_def)
  consider "pc s t = In_down" | "pc s t = In_try" | "pc s t = In_up"
    using assms(4) by (auto simp: crit_def)
  then have "\<exists>s'. sem_step s s' \<and> \<not> crit (pc s' t)"
  proof cases
    case 1
    from down_refines [OF si assms(3), of t] obtain r e m
      where m: "sthread_sem_down t (mem s) = Inr (r, e, m)" "(e, sem_abs m) = spec_down t (sem_abs (mem s))"
      by blast
    then have "e = Continue \<or> e = Suspend" by (auto simp: sem_abs_def split: if_splits)
    with m 1 assms(3) show ?thesis
      using sem_step.down_cont [of s t r m] sem_step.down_wait [of s t r m] by (fastforce simp: crit_def)
  next
    case 2
    then show ?thesis
      using sem_step.try_down [of s t "fst (sthread_sem_try_down (mem s))" "snd (sthread_sem_try_down (mem s))"]
      by (auto simp: crit_def intro!: exI split: if_splits)
  next
    case 3
    from up_refines [OF si up_count [OF inv assms(2) 3]] obtain e m
      where m: "sthread_sem_up (mem s) = Inr (0, e, m)" "(e, sem_abs m) = spec_up (sem_abs (mem s))"
      by blast
    then have "e = Continue \<or> (\<exists>w. e = Wake w)" by (cases "waiting (mem s)") (auto simp: sem_abs_def)
    with m 3 show ?thesis
      using sem_step.up_cont [of s t 0 m] sem_step.up_wake [of s t 0 _ m] by (fastforce simp: crit_def)
  qed
  with li assms(4) show ?thesis by (auto simp: lock_inv_def)
qed

text \<open>A run that shows the hypotheses hold together: a thread inside \<open>down\<close> of a fresh semaphore.\<close>

definition sys_example :: sys where
  "sys_example = goto 3 In_down ((sys_start 1 100)\<lparr>mem := (mem (sys_start 1 100))\<lparr>flag := 1\<rparr>\<rparr>)"

lemma sys_example_reach: "sem_reach 1 sys_example"
  unfolding sys_example_def
  by (rule reach_step [OF reach_start [of 1 100]], rule down_lock)
    (simp_all add: sys_start_def sthread_sem_init_def set_sem_def unlock_def)

lemma sys_example_simps: "pc sys_example 3 = In_down" "room (mem sys_example) = 99"
  by (simp_all add: sys_example_def sys_start_def sthread_sem_init_def set_sem_def unlock_def room_def)

theorem semaphore_capacity_witness:
  "card {t. pc sys_example t = Holding} \<le> 1
    \<and> count (sem (mem sys_example)) + int (card (granted sys_example)) = int 1"
  by (rule semaphore_capacity [OF sys_example_reach]) simp

lemma sys_example_not_owed: "\<not> owed sys_example 4"
  by (simp add: sys_example_def sys_start_def owed_def)


theorem critical_section_safe_witness:
  "{u. crit (pc sys_example u)} = {3} \<and> (\<exists>s'. sem_step sys_example s' \<and> \<not> crit (pc s' 3))"
  using critical_section_safe [OF sys_example_reach, of 3] by (auto simp: sys_example_simps crit_def)

end
