(* ===== verification/Semaphore_Ad.thy ===== *)
theory Semaphore_Ad
  imports Semaphore
begin

text \<open>
  The other semaphore of the repository, \<open>hw3/sync_ad.c\<close>, whose \<open>count\<close> goes below zero by one for
  every waiting thread, and the queue prototype of \<open>hw3/test.c\<close>. The queue and the lock of
  \<open>sync_ad.c\<close> are those of \<open>sync.c\<close>, statement for statement.
\<close>

section \<open>The semaphore with a negative count\<close>

definition insertNode_ad :: "sync_state \<Rightarrow> tid \<Rightarrow> sync_state result" where
  "insertNode_ad = insertNode"

definition removeNode_ad :: "sync_state \<Rightarrow> (addr option \<times> sync_state) result" where
  "removeNode_ad = removeNode"

definition sthread_sem_init_ad :: "int \<Rightarrow> sync_state \<Rightarrow> int \<times> sync_state" where
  "sthread_sem_init_ad = sthread_sem_init"

definition sthread_sem_destroy_ad :: "sync_state \<Rightarrow> int \<times> sync_state" where
  "sthread_sem_destroy_ad = sthread_sem_destroy"

definition sthread_sem_down_ad :: "tid \<Rightarrow> sync_state \<Rightarrow> (int \<times> effect \<times> sync_state) result" where
  "sthread_sem_down_ad self s =
    (let s = set_sem (\<lambda>m. m\<lparr>count := wrap_s32 (count m - 1)\<rparr>) s in
     if count (sem s) \<ge> 0 then Inr (0, Continue, unlock s)
     else rbind (insertNode_ad s self) (\<lambda>s. Inr (0, Suspend, unlock s)))"

definition sthread_sem_try_down_ad :: "sync_state \<Rightarrow> int \<times> sync_state" where
  "sthread_sem_try_down_ad s =
    (if count (sem s) \<ge> 0
     then (0, unlock (set_sem (\<lambda>m. m\<lparr>count := wrap_s32 (count m - 1)\<rparr>) s))
     else (- 1, unlock s))"

definition sthread_sem_up_ad :: "sync_state \<Rightarrow> (int \<times> effect \<times> sync_state) result" where
  "sthread_sem_up_ad s =
    (let s = set_sem (\<lambda>m. m\<lparr>count := wrap_s32 (count m + 1)\<rparr>) s in
     if sthread_count (sem s) \<le> 0 then Inr (0, Continue, unlock s)
     else
       rbind (removeNode_ad s) (\<lambda>(longestWaitingThread, s).
       rbind (load s longestWaitingThread) (\<lambda>nd.
       let d = data nd; s = free (the longestWaitingThread) s in
       Inr (0, Wake d, unlock s))))"

text \<open>Used with \<open>down\<close> and \<open>up\<close> only, a negative count is minus the number of waiting threads.\<close>

definition sem_inv_ad :: "sync_state \<Rightarrow> bool" where
  "sem_inv_ad s \<longleftrightarrow> queue_inv s \<and> - (2 ^ 31) < count (sem s) \<and> count (sem s) < 2 ^ 31 - 1
     \<and> int (length (waiting s)) = max 0 (- count (sem s))"

definition sem_abs_ad :: "sync_state \<Rightarrow> sem_spec" where
  "sem_abs_ad s = (max 0 (count (sem s)), waiting s)"

lemma set_sem_count [simp]:
  "count (sem (set_sem (\<lambda>m. m\<lparr>count := f m\<rparr>) s)) = f (sem s)"
  "sthread_count (sem (set_sem (\<lambda>m. m\<lparr>count := f m\<rparr>) s)) = sthread_count (sem s)"
  by (simp_all add: set_sem_def)

lemma up_ad_dequeue:
  "0 < sthread_count (sem s) \<Longrightarrow> sthread_sem_up_ad s =
    rbind (dequeue (set_sem (\<lambda>m. m\<lparr>count := wrap_s32 (count m + 1)\<rparr>) s))
      (\<lambda>(t, s). Inr (0, Wake t, unlock s))"
  by (auto simp: sthread_sem_up_ad_def dequeue_def removeNode_ad_def rbind_def Let_def split: sum.splits)

lemma down_ad_refines:
  assumes inv: "sem_inv_ad s" and r: "0 < room s" and c: "- (2 ^ 31) + 1 < count (sem s)"
  shows "\<exists>e s'. sthread_sem_down_ad t s = Inr (0, e, s') \<and> sem_inv_ad s'
    \<and> (e, sem_abs_ad s') = spec_down t (sem_abs_ad s)"
proof -
  let ?s = "set_sem (\<lambda>m. m\<lparr>count := wrap_s32 (count m - 1)\<rparr>) s"
  have w: "wrap_s32 (count (sem s) - 1) = count (sem s) - 1"
    using inv c by (intro wrap_s32_id) (auto simp: sem_inv_ad_def)
  show ?thesis
  proof (cases "0 < count (sem s)")
    case True
    with inv c w show ?thesis
      by (auto simp: sthread_sem_down_ad_def sem_inv_ad_def sem_abs_ad_def Let_def)
  next
    case False
    from inv r sem_queue.enq_law [of ?s t] obtain s'
      where s': "insertNode ?s t = Inr s'" "queue_inv s'" "waiting s' = waiting s @ [t]"
      by (auto simp: sem_inv_ad_def)
    from insertNode_frame [OF s'(1)] w have "count (sem s') = count (sem s) - 1" by simp
    with False s' inv c w show ?thesis
      by (auto simp: sthread_sem_down_ad_def sem_inv_ad_def sem_abs_ad_def Let_def insertNode_ad_def)
  qed
qed

lemma up_ad_refines:
  assumes inv: "sem_inv_ad s" and c: "count (sem s) < 2 ^ 31 - 2"
  shows "\<exists>e s'. sthread_sem_up_ad s = Inr (0, e, s') \<and> sem_inv_ad s'
    \<and> (e, sem_abs_ad s') = spec_up (sem_abs_ad s)"
proof -
  let ?s = "set_sem (\<lambda>m. m\<lparr>count := wrap_s32 (count m + 1)\<rparr>) s"
  have w: "wrap_s32 (count (sem s) + 1) = count (sem s) + 1"
    using inv by (intro wrap_s32_id) (auto simp: sem_inv_ad_def)
  have q: "queue_inv s" using inv by (simp add: sem_inv_ad_def)
  show ?thesis
  proof (cases "waiting s")
    case Nil
    with inv c w queue_inv_count [OF q] show ?thesis
      by (auto simp: sthread_sem_up_ad_def sem_inv_ad_def sem_abs_ad_def Let_def)
  next
    case (Cons t ts)
    with q sem_queue.deq_law [of ?s t ts] obtain s'
      where s': "dequeue ?s = Inr (t, s')" "queue_inv s'" "waiting s' = ts" by auto
    from dequeue_frame [OF s'(1)] w have "count (sem s') = count (sem s) + 1" by simp
    with s' Cons inv c queue_inv_count [OF q] show ?thesis
      by (auto simp: up_ad_dequeue sem_inv_ad_def sem_abs_ad_def)
  qed
qed

section \<open>Properties\<close>

text \<open>
  Used through \<open>down\<close> and \<open>up\<close> alone, the semaphore of \<open>sync_ad.c\<close> implements the same abstract
  semaphore as \<open>sync.c\<close>, with the value read as the non-negative part of \<open>count\<close>; and \<open>down\<close> always
  returns 0, also to a thread that had to wait.
\<close>
theorem semaphore_ad_refines_spec:
  assumes "sem_inv_ad s" and "0 < room s"
    and "- (2 ^ 31) + 1 < count (sem s)" and "count (sem s) < 2 ^ 31 - 2"
  shows "(\<exists>e s'. sthread_sem_down_ad t s = Inr (0, e, s') \<and> sem_inv_ad s'
        \<and> (e, sem_abs_ad s') = spec_down t (sem_abs_ad s))
    \<and> (\<exists>e s'. sthread_sem_up_ad s = Inr (0, e, s') \<and> sem_inv_ad s'
        \<and> (e, sem_abs_ad s') = spec_up (sem_abs_ad s))"
  using down_ad_refines [OF assms(1-3)] up_ad_refines [OF assms(1,4)] by blast

lemma sem_example_inv_ad: "sem_inv_ad sem_example"
  using sem_example_inv(1)
  by (auto simp: sem_inv_ad_def sem_inv_def)
    (auto simp: sem_example_def sthread_sem_init_def set_sem_def unlock_def)

theorem semaphore_ad_refines_spec_witness:
  "(\<exists>e s'. sthread_sem_down_ad 2 sem_example = Inr (0, e, s') \<and> sem_inv_ad s'
        \<and> (e, sem_abs_ad s') = spec_down 2 (sem_abs_ad sem_example))
    \<and> (\<exists>e s'. sthread_sem_up_ad sem_example = Inr (0, e, s') \<and> sem_inv_ad s'
        \<and> (e, sem_abs_ad s') = spec_up (sem_abs_ad sem_example))"
  by (rule semaphore_ad_refines_spec [OF sem_example_inv_ad])
    (simp_all add: sem_example_inv, simp_all add: sem_example_def sthread_sem_init_def set_sem_def unlock_def)

text \<open>
  \<open>try_down\<close> of \<open>sync_ad.c\<close> tests \<open>count >= 0\<close> where \<open>down\<close> decrements first: on a semaphore whose
  units are all taken (value 0, nobody waiting) it succeeds, so one unit is held twice, and the count
  it leaves no longer matches the number of waiting threads.
\<close>
theorem try_down_ad_overcommits:
  assumes "sem_inv_ad s" and "count (sem s) = 0"
  shows "fst (sthread_sem_try_down_ad s) = 0
    \<and> sem_abs_ad (snd (sthread_sem_try_down_ad s)) = sem_abs_ad s
    \<and> \<not> sem_inv_ad (snd (sthread_sem_try_down_ad s))"
  using assms by (auto simp: sthread_sem_try_down_ad_def sem_abs_ad_def sem_inv_ad_def wrap_simps)

definition sem_taken_example :: sync_state where
  "sem_taken_example = set_sem (\<lambda>m. m\<lparr>count := 0\<rparr>) sem_example"

theorem try_down_ad_overcommits_witness:
  "fst (sthread_sem_try_down_ad sem_taken_example) = 0
    \<and> sem_abs_ad (snd (sthread_sem_try_down_ad sem_taken_example)) = sem_abs_ad sem_taken_example
    \<and> \<not> sem_inv_ad (snd (sthread_sem_try_down_ad sem_taken_example))"
  by (rule try_down_ad_overcommits)
    (use sem_example_inv(1) in \<open>auto simp: sem_taken_example_def sem_inv_ad_def sem_inv_def\<close>,
     auto simp: sem_example_def sthread_sem_init_def set_sem_def unlock_def)

end
