(* ===== verification/Buddy.thy ===== *)
theory Buddy
  imports Prelude "HOL-Library.Disjoint_Sets"
begin

unbundle bit_operations_syntax

text \<open>
  The buddy allocator of \<open>hw5/mm/page_alloc.c\<close>: the free lists of a zone, freeing with coalescing,
  splitting, and removal of the smallest fitting block. Pages are page frame numbers; a page's
  \<open>lru\<close> link is its place in one of the lists. \<open>MAX_ORDER\<close> and \<open>pageblock_order\<close> come from headers
  outside the repository and are fields of the zone. Debug options (guard pages, \<open>VM_BUG_ON\<close>) are off.
\<close>

section \<open>State\<close>

datatype mtype = MIGRATE_UNMOVABLE | MIGRATE_RECLAIMABLE | MIGRATE_MOVABLE | MIGRATE_RESERVE
  | MIGRATE_CMA | MIGRATE_ISOLATE

definition mtypes :: "mtype list" where
  "mtypes = [MIGRATE_UNMOVABLE, MIGRATE_RECLAIMABLE, MIGRATE_MOVABLE, MIGRATE_RESERVE, MIGRATE_CMA, MIGRATE_ISOLATE]"

record page =
  page_private :: nat
  PageBuddy :: bool
  PageHead :: bool
  PageTail :: bool
  first_page :: nat
  compound_order :: nat
  compound_dtor :: bool \<comment> \<open>the destructor is \<open>free_compound_page\<close>\<close>
  page_count :: int
  page_mapcount :: int
  page_mapping :: addr \<comment> \<open>0 is \<open>NULL\<close>; the low bit marks an anonymous page\<close>
  page_flags :: u32
  PageHWPoison :: bool
  cleared :: bool \<comment> \<open>\<open>clear_highpage\<close> zeroed its contents\<close>

text \<open>
  A zone with the memory map below it. The fields up to \<open>page_zone_id\<close> are configuration: the
  constants of the headers, the extent of the zone, its holes, and the flag masks of
  \<open>page-flags.h\<close>.
\<close>

record zone =
  MAX_ORDER :: nat
  pageblock_order :: nat
  zone_start_pfn :: nat
  spanned_pages :: nat
  PAGE_FLAGS_CHECK_AT_FREE :: u32
  PAGE_FLAGS_CHECK_AT_PREP :: u32
  PG_mlocked :: nat
  PG_reserved :: nat
  mem_cgroup_bad_page_check :: "nat \<Rightarrow> bool"
  pfn_valid_within :: "nat \<Rightarrow> bool"
  page_zone_id :: "nat \<Rightarrow> nat"
  pages :: "nat \<Rightarrow> page"
  free_list :: "nat \<Rightarrow> mtype \<Rightarrow> nat list"
  nr_free :: "nat \<Rightarrow> int"
  pageblock_mt :: "nat \<Rightarrow> mtype"
  NR_FREE_PAGES :: int
  NR_FREE_CMA_PAGES :: int
  NR_MLOCK :: int
  PGFREE :: nat \<comment> \<open>event counters\<close>
  PGALLOC :: nat
  UNEVICTABLE_MLOCKFREED :: nat
  all_unreclaimable :: int
  pages_scanned :: nat
  cma_alloc :: bool
  page_group_by_mobility_disabled :: bool
  TAINT_BAD_PAGE :: bool

section \<open>List and page primitives\<close>

definition list_add :: "nat \<Rightarrow> nat \<Rightarrow> mtype \<Rightarrow> zone \<Rightarrow> zone" where
  "list_add p k mt z = z\<lparr>free_list := (free_list z)(k := (free_list z k)(mt := p # free_list z k mt))\<rparr>"

definition list_add_tail :: "nat \<Rightarrow> nat \<Rightarrow> mtype \<Rightarrow> zone \<Rightarrow> zone" where
  "list_add_tail p k mt z = z\<lparr>free_list := (free_list z)(k := (free_list z k)(mt := free_list z k mt @ [p]))\<rparr>"

definition list_del :: "nat \<Rightarrow> zone \<Rightarrow> zone" where
  "list_del p z = z\<lparr>free_list := (\<lambda>k mt. filter (\<lambda>q. q \<noteq> p) (free_list z k mt))\<rparr>"

definition nr_free_inc :: "nat \<Rightarrow> zone \<Rightarrow> zone" where
  "nr_free_inc k z = z\<lparr>nr_free := (nr_free z)(k := nr_free z k + 1)\<rparr>"

definition nr_free_dec :: "nat \<Rightarrow> zone \<Rightarrow> zone" where
  "nr_free_dec k z = z\<lparr>nr_free := (nr_free z)(k := nr_free z k - 1)\<rparr>"

definition upd_page :: "nat \<Rightarrow> (page \<Rightarrow> page) \<Rightarrow> zone \<Rightarrow> zone" where
  "upd_page p f z = z\<lparr>pages := (pages z)(p := f (pages z p))\<rparr>"

definition set_page_order :: "nat \<Rightarrow> nat \<Rightarrow> zone \<Rightarrow> zone" where
  "set_page_order p k z = upd_page p (\<lambda>g. g\<lparr>page_private := k, PageBuddy := True\<rparr>) z"

definition rmv_page_order :: "nat \<Rightarrow> zone \<Rightarrow> zone" where
  "rmv_page_order p z = upd_page p (\<lambda>g. g\<lparr>PageBuddy := False, page_private := 0\<rparr>) z"

definition page_order :: "zone \<Rightarrow> nat \<Rightarrow> nat" where
  "page_order z p = page_private (pages z p)"

text \<open>\<open>bad_page\<close>; its rate-limited reports are output only.\<close>

definition bad_page :: "nat \<Rightarrow> zone \<Rightarrow> zone" where
  "bad_page p z =
    (if PageHWPoison (pages z p) then upd_page p (\<lambda>g. g\<lparr>PageBuddy := False, page_mapcount := 0\<rparr>) z
     else (upd_page p (\<lambda>g. g\<lparr>PageBuddy := False, page_mapcount := 0\<rparr>) z)\<lparr>TAINT_BAD_PAGE := True\<rparr>)"

section \<open>Compound pages\<close>

definition prep_compound_page :: "nat \<Rightarrow> nat \<Rightarrow> zone \<Rightarrow> zone" where
  "prep_compound_page p order z =
    fold (\<lambda>i. upd_page (p + i) (\<lambda>g. g\<lparr>PageTail := True, page_count := 0, first_page := p\<rparr>)) [1..<2 ^ order]
      (upd_page p (\<lambda>g. g\<lparr>compound_dtor := True, compound_order := order, PageHead := True\<rparr>) z)"

definition destroy_tail :: "nat \<Rightarrow> nat \<Rightarrow> nat \<times> zone \<Rightarrow> nat \<times> zone" where
  "destroy_tail p i = (\<lambda>(bad, z).
     let (bad, z) = (if \<not> PageTail (pages z (p + i)) \<or> first_page (pages z (p + i)) \<noteq> p
                     then (Suc bad, bad_page p z) else (bad, z)) in
     (bad, upd_page (p + i) (\<lambda>g. g\<lparr>PageTail := False\<rparr>) z))"

definition destroy_compound_page :: "nat \<Rightarrow> nat \<Rightarrow> zone \<Rightarrow> nat \<times> zone" where
  "destroy_compound_page p order z =
    (let (bad, z) = (if compound_order (pages z p) \<noteq> order \<or> \<not> PageHead (pages z p)
                     then (1, bad_page p z) else (0, z));
         z = upd_page p (\<lambda>g. g\<lparr>PageHead := False\<rparr>) z in
     fold (destroy_tail p) [1..<2 ^ order] (bad, z))"

section \<open>Freeing\<close>

definition find_buddy_index :: "nat \<Rightarrow> nat \<Rightarrow> nat" where
  "find_buddy_index page_idx order = page_idx XOR push_bit order 1"

definition page_is_buddy :: "zone \<Rightarrow> nat \<Rightarrow> nat \<Rightarrow> nat \<Rightarrow> bool" where
  "page_is_buddy z p buddy order =
    (if \<not> pfn_valid_within z buddy then False
     else if page_zone_id z p \<noteq> page_zone_id z buddy then False
     else if PageBuddy (pages z buddy) \<and> page_order z buddy = order then True
     else False)"

text \<open>
  The coalescing loop returns the merged page, its index, its order, the last buddy that was looked
  at with its index, and the zone.
\<close>

function coalesce :: "nat \<Rightarrow> nat \<Rightarrow> nat \<Rightarrow> nat \<Rightarrow> nat \<Rightarrow> zone \<Rightarrow> nat \<times> nat \<times> nat \<times> nat \<times> nat \<times> zone" where
  "coalesce p page_idx order buddy buddy_idx z =
    (if order < MAX_ORDER z - 1 then
       let buddy_idx = find_buddy_index page_idx order;
           buddy = p + buddy_idx - page_idx in
       if \<not> page_is_buddy z p buddy order then (p, page_idx, order, buddy, buddy_idx, z)
       else
         let z' = rmv_page_order buddy (nr_free_dec order (list_del buddy z));
             combined_idx = buddy_idx AND page_idx in
         coalesce (p + combined_idx - page_idx) combined_idx (Suc order) buddy buddy_idx z'
     else (p, page_idx, order, buddy, buddy_idx, z))"
  by pat_completeness auto
termination
  by (relation "measure (\<lambda>(p, page_idx, order, buddy, buddy_idx, z). MAX_ORDER z - order)")
    (auto simp: rmv_page_order_def upd_page_def nr_free_dec_def list_del_def Let_def)

declare coalesce.simps [simp del]

definition free_one_page_core :: "nat \<Rightarrow> nat \<Rightarrow> mtype \<Rightarrow> zone \<Rightarrow> zone" where
  "free_one_page_core p order migratetype z =
    (let page_idx = p AND mask (MAX_ORDER z);
         (p, page_idx, order, buddy, buddy_idx, z) = coalesce p page_idx order 0 0 z;
         z = set_page_order p order z in
     if order < MAX_ORDER z - 2 \<and> pfn_valid_within z buddy
        \<and> (let combined_idx = buddy_idx AND page_idx;
               higher_page = p + combined_idx - page_idx;
               buddy_idx = find_buddy_index combined_idx (order + 1);
               higher_buddy = p + buddy_idx - combined_idx in
           page_is_buddy z higher_page higher_buddy (order + 1))
     then nr_free_inc order (list_add_tail p order migratetype z)
     else nr_free_inc order (list_add p order migratetype z))"

definition free_one_page' :: "nat \<Rightarrow> nat \<Rightarrow> mtype \<Rightarrow> zone \<Rightarrow> zone" where
  \<comment> \<open>\<open>__free_one_page\<close>\<close>
  "free_one_page' p order migratetype z =
    (if PageHead (pages z p) \<or> PageTail (pages z p) then
       (let (bad, z) = destroy_compound_page p order z in
        if bad \<noteq> 0 then z else free_one_page_core p order migratetype z)
     else free_one_page_core p order migratetype z)"

definition mod_zone_freepage_state :: "int \<Rightarrow> mtype \<Rightarrow> zone \<Rightarrow> zone" where
  "mod_zone_freepage_state n mt z =
    (let z = z\<lparr>NR_FREE_PAGES := NR_FREE_PAGES z + n\<rparr> in
     if mt = MIGRATE_CMA then z\<lparr>NR_FREE_CMA_PAGES := NR_FREE_CMA_PAGES z + n\<rparr> else z)"

definition free_one_page :: "nat \<Rightarrow> nat \<Rightarrow> mtype \<Rightarrow> zone \<Rightarrow> zone" where
  "free_one_page p order migratetype z =
    (let z = z\<lparr>all_unreclaimable := 0, pages_scanned := 0\<rparr>;
         z = free_one_page' p order migratetype z in
     if migratetype \<noteq> MIGRATE_ISOLATE then mod_zone_freepage_state (2 ^ order) migratetype z else z)"

section \<open>Allocating\<close>

fun expand :: "nat \<Rightarrow> nat \<Rightarrow> nat \<Rightarrow> mtype \<Rightarrow> zone \<Rightarrow> zone" where
  "expand p low 0 migratetype z = z"
| "expand p low (Suc high) migratetype z =
    (if Suc high > low then
       let z = list_add (p + 2 ^ high) high migratetype z;
           z = nr_free_inc high z;
           z = set_page_order (p + 2 ^ high) high z in
       expand p low high migratetype z
     else z)"

function rmqueue_smallest_from :: "nat \<Rightarrow> nat \<Rightarrow> mtype \<Rightarrow> zone \<Rightarrow> nat option \<times> zone" where
  "rmqueue_smallest_from current_order order migratetype z =
    (if current_order < MAX_ORDER z then
       (case free_list z current_order migratetype of
          [] \<Rightarrow> rmqueue_smallest_from (Suc current_order) order migratetype z
        | p # _ \<Rightarrow>
            let z = list_del p z;
                z = rmv_page_order p z;
                z = nr_free_dec current_order z in
            (Some p, expand p order current_order migratetype z))
     else (None, z))"
  by pat_completeness auto
termination
  by (relation "measure (\<lambda>(c, order, mt, z). MAX_ORDER z - c)") auto

declare rmqueue_smallest_from.simps [simp del]

definition rmqueue_smallest :: "nat \<Rightarrow> mtype \<Rightarrow> zone \<Rightarrow> nat option \<times> zone" where
  "rmqueue_smallest order migratetype z = rmqueue_smallest_from order order migratetype z"

section \<open>Buddy arithmetic\<close>

definition buddy_of :: "nat \<Rightarrow> nat \<Rightarrow> nat" where
  "buddy_of p k = (if bit p k then p - 2 ^ k else p + 2 ^ k)"

lemma bit_le: "bit (n::nat) k \<Longrightarrow> 2 ^ k \<le> n"
  by (metis bit_iff_odd div_less even_zero not_le)

lemma unset_bit_nat: "unset_bit k (n::nat) = (if bit n k then n - 2 ^ k else n)"
proof (cases "bit n k")
  case True
  have "n = set_bit k (unset_bit k n)"
    using True by (auto intro!: bit_eqI simp: bit_simps)
  also have "\<dots> = unset_bit k n + 2 ^ k"
    by (simp add: set_bit_eq bit_simps)
  finally show ?thesis using True by simp
next
  case False
  have "unset_bit k n = n" using False by (auto intro!: bit_eqI simp: bit_simps)
  with False show ?thesis by simp
qed

lemma flip_bit_nat: "flip_bit k (n::nat) = buddy_of n k"
  by (simp add: buddy_of_def flip_bit_eq_if set_bit_eq unset_bit_nat)

lemma find_buddy_index_eq: "find_buddy_index i k = buddy_of i k"
  by (simp add: find_buddy_index_def flip_bit_nat [symmetric] flip_bit_eq_xor)

lemma and_buddy: "buddy_of i k AND i = (if bit i k then i - 2 ^ k else i)"
proof -
  have "buddy_of i k AND i = unset_bit k i"
    by (rule bit_eqI) (auto simp: flip_bit_nat [symmetric] bit_simps)
  then show ?thesis by (simp add: unset_bit_nat)
qed

lemma idx_bit: "k < M \<Longrightarrow> bit (take_bit M p) k = bit (p::nat) k"
  by (simp add: bit_take_bit_iff)

lemma idx_le: "take_bit M p \<le> (p::nat)"
  by (simp add: take_bit_eq_mod)

lemma idx_buddy: "k < M \<Longrightarrow> p + buddy_of (take_bit M p) k - take_bit M p = buddy_of p k"
  using idx_le [of M p] bit_le [of "take_bit M p" k] bit_le [of p k]
  by (auto simp: buddy_of_def idx_bit)

lemma idx_combined:
  "k < M \<Longrightarrow> p + (buddy_of (take_bit M p) k AND take_bit M p) - take_bit M p = (if bit p k then p - 2 ^ k else p)"
  using idx_le [of M p] bit_le [of "take_bit M p" k] bit_le [of p k]
  by (auto simp: and_buddy idx_bit)

lemma idx_combined_take:
  assumes "k < M"
  shows "buddy_of (take_bit M p) k AND take_bit M p = take_bit M (if bit p k then p - 2 ^ k else p)"
proof -
  have "(if bit p k then p - 2 ^ k else p) = unset_bit k p" by (simp add: unset_bit_nat)
  moreover have "take_bit M (unset_bit k p) = unset_bit k (take_bit M p)"
    using assms by (simp add: take_bit_unset_bit_eq)
  ultimately show ?thesis using assms by (simp add: and_buddy unset_bit_nat idx_bit)
qed

lemma aligned_bit: "2 ^ k dvd p \<Longrightarrow> \<not> bit p k \<Longrightarrow> 2 ^ Suc k dvd (p::nat)"
  by (auto simp: bit_iff_odd elim!: dvdE evenE)

lemma aligned_bit': "2 ^ k dvd p \<Longrightarrow> bit p k \<Longrightarrow> 2 ^ Suc k dvd (p - 2 ^ k::nat)"
  by (auto simp: bit_iff_odd algebra_simps elim!: dvdE oddE)

lemma buddy_bit: "bit (buddy_of p k) k = (\<not> bit p k)"
  by (simp add: flip_bit_nat [symmetric] bit_simps)

lemma buddy_buddy [simp]: "buddy_of (buddy_of p k) k = p"
  using bit_le [of p k] by (auto simp: buddy_of_def [of "buddy_of p k"] buddy_bit) (auto simp: buddy_of_def)

lemma buddy_ne [simp]: "buddy_of p k \<noteq> p"
  by (metis buddy_bit)

section \<open>Free blocks and the invariant\<close>

definition blocks :: "zone \<Rightarrow> (nat \<times> nat) set" where
  "blocks z = {(p, k). \<exists>mt. p \<in> set (free_list z k mt)}"

definition span :: "nat \<Rightarrow> nat \<Rightarrow> nat set" where
  "span p k = {p..<p + 2 ^ k}"

definition free_pages :: "zone \<Rightarrow> nat set" where
  "free_pages z = (\<Union>(p, k) \<in> blocks z. span p k)"

text \<open>A well-placed block: its order is legal, it is naturally aligned and has no hole.\<close>

definition block_ok :: "zone \<Rightarrow> nat \<Rightarrow> nat \<Rightarrow> bool" where
  "block_ok z p k \<longleftrightarrow> k < MAX_ORDER z \<and> 2 ^ k dvd p \<and> (\<forall>q\<in>span p k. pfn_valid_within z q)"

definition list_inv :: "zone \<Rightarrow> bool" where
  "list_inv z \<longleftrightarrow> (\<forall>k mt. distinct (free_list z k mt))
     \<and> (\<forall>k mt mt' p. p \<in> set (free_list z k mt) \<longrightarrow> p \<in> set (free_list z k mt') \<longrightarrow> mt = mt')
     \<and> (\<forall>k. nr_free z k = (\<Sum>mt\<leftarrow>mtypes. int (length (free_list z k mt))))"

definition block_inv :: "zone \<Rightarrow> bool" where
  "block_inv z \<longleftrightarrow> (\<forall>p k. (p, k) \<in> blocks z \<longrightarrow> block_ok z p k)
     \<and> (\<forall>p k q j. (p, k) \<in> blocks z \<longrightarrow> (q, j) \<in> blocks z \<longrightarrow> (p, k) \<noteq> (q, j) \<longrightarrow> span p k \<inter> span q j = {})"

definition meta_inv :: "zone \<Rightarrow> bool" where
  "meta_inv z \<longleftrightarrow> (\<forall>p. PageBuddy (pages z p) \<longrightarrow> (p, page_private (pages z p)) \<in> blocks z)
     \<and> (\<forall>p k. (p, k) \<in> blocks z \<longrightarrow> PageBuddy (pages z p) \<and> page_private (pages z p) = k)"

text \<open>Maximal coalescing: no block below the largest order has a free buddy of its own order.\<close>

definition coalesced :: "zone \<Rightarrow> bool" where
  "coalesced z \<longleftrightarrow> (\<forall>p k. (p, k) \<in> blocks z \<longrightarrow> Suc k < MAX_ORDER z \<longrightarrow> \<not> page_is_buddy z p (buddy_of p k) k)"

definition buddy_inv :: "zone \<Rightarrow> bool" where
  "buddy_inv z \<longleftrightarrow> list_inv z \<and> block_inv z \<and> meta_inv z \<and> coalesced z"

text \<open>A block that is in nobody's free list.\<close>

definition in_hand :: "zone \<Rightarrow> nat \<Rightarrow> nat \<Rightarrow> bool" where
  "in_hand z p k \<longleftrightarrow> block_ok z p k \<and> span p k \<inter> free_pages z = {}"

lemma span_self [simp, intro]: "p \<in> span p k"
  by (simp add: span_def)

lemma span_split: "span p (Suc k) = span p k \<union> span (p + 2 ^ k) k"
  by (auto simp: span_def)

lemma span_split_disjoint: "span p k \<inter> span (p + 2 ^ k) k = {}"
  by (auto simp: span_def)

lemma span_merge: "span p k \<union> span (buddy_of p k) k = span (if bit p k then p - 2 ^ k else p) (Suc k)"
  using bit_le [of p k] by (auto simp: span_def buddy_of_def)

lemma span_buddy_disjoint: "span p k \<inter> span (buddy_of p k) k = {}"
  using bit_le [of p k] by (auto simp: span_def buddy_of_def)

lemma blocks_span: "(p, k) \<in> blocks z \<Longrightarrow> span p k \<subseteq> free_pages z"
  by (auto simp: free_pages_def)

lemma blocks_unique: "block_inv z \<Longrightarrow> (p, k) \<in> blocks z \<Longrightarrow> (p, j) \<in> blocks z \<Longrightarrow> k = j"
  unfolding block_inv_def using span_self by (metis disjoint_iff prod.inject)

text \<open>The four list-and-page changes of the allocator's code are all one of these two.\<close>

definition add_block :: "bool \<Rightarrow> nat \<Rightarrow> nat \<Rightarrow> mtype \<Rightarrow> zone \<Rightarrow> zone" where
  "add_block tail p k mt z =
    nr_free_inc k ((if tail then list_add_tail p k mt else list_add p k mt) (set_page_order p k z))"

definition del_block :: "nat \<Rightarrow> nat \<Rightarrow> zone \<Rightarrow> zone" where
  "del_block p k z = rmv_page_order p (nr_free_dec k (list_del p z))"

lemmas block_defs = add_block_def del_block_def list_add_def list_add_tail_def list_del_def
  nr_free_inc_def nr_free_dec_def upd_page_def set_page_order_def rmv_page_order_def

text \<open>What the block operations keep of the zone.\<close>

definition same_zone :: "zone \<Rightarrow> zone \<Rightarrow> bool" where
  "same_zone z z' \<longleftrightarrow> MAX_ORDER z' = MAX_ORDER z \<and> pfn_valid_within z' = pfn_valid_within z
     \<and> page_zone_id z' = page_zone_id z \<and> cma_alloc z' = cma_alloc z
     \<and> PAGE_FLAGS_CHECK_AT_FREE z' = PAGE_FLAGS_CHECK_AT_FREE z \<and> PG_mlocked z' = PG_mlocked z
     \<and> PAGE_FLAGS_CHECK_AT_PREP z' = PAGE_FLAGS_CHECK_AT_PREP z
     \<and> mem_cgroup_bad_page_check z' = mem_cgroup_bad_page_check z
     \<and> pageblock_order z' = pageblock_order z
     \<and> zone_start_pfn z' = zone_start_pfn z \<and> spanned_pages z' = spanned_pages z
     \<and> page_group_by_mobility_disabled z' = page_group_by_mobility_disabled z"

lemma same_zone_refl [simp]: "same_zone z z" and
  same_zone_trans: "same_zone a b \<Longrightarrow> same_zone b c \<Longrightarrow> same_zone a c"
  by (auto simp: same_zone_def)

lemma add_block_same [simp]: "same_zone z (add_block t p k mt z)" and
  del_block_same [simp]: "same_zone z (del_block p k z)"
  by (simp_all add: same_zone_def block_defs)

lemma block_ok_same: "same_zone z z' \<Longrightarrow> block_ok z' = block_ok z"
  by (intro ext) (simp add: same_zone_def block_ok_def)

text \<open>Only the buddy marks of pages in \<open>F\<close> change.\<close>

definition strip :: "page \<Rightarrow> page" where
  "strip g = g\<lparr>page_private := 0, PageBuddy := False\<rparr>"

definition touched :: "nat set \<Rightarrow> zone \<Rightarrow> zone \<Rightarrow> bool" where
  "touched F z z' \<longleftrightarrow> (\<forall>q. strip (pages z' q) = strip (pages z q)) \<and> (\<forall>q. q \<notin> F \<longrightarrow> pages z' q = pages z q)"

lemma touched_refl [simp]: "touched F z z"
  by (simp add: touched_def)

lemma touched_trans: "touched F a b \<Longrightarrow> touched G b c \<Longrightarrow> F \<subseteq> H \<Longrightarrow> G \<subseteq> H \<Longrightarrow> touched H a c"
  unfolding touched_def by (metis subsetD)

lemma strip_fields: "strip g = strip h \<Longrightarrow> PageHead g = PageHead h \<and> PageTail g = PageTail h
    \<and> page_flags g = page_flags h \<and> page_count g = page_count h \<and> page_mapcount g = page_mapcount h
    \<and> page_mapping g = page_mapping h"
  by (cases g; cases h) (simp add: strip_def)

lemma add_block_touched: "p \<in> F \<Longrightarrow> touched F z (add_block t p k mt z)" and
  del_block_touched: "p \<in> F \<Longrightarrow> touched F z (del_block p k z)"
  by (auto simp: touched_def block_defs strip_def)

lemma blocks_add [simp]: "blocks (add_block t p k mt z) = insert (p, k) (blocks z)"
  by (auto simp: blocks_def block_defs split: if_splits)

lemma blocks_del [simp]: "blocks (del_block p k z) = {(q, j) \<in> blocks z. q \<noteq> p}"
  by (auto simp: blocks_def block_defs)

lemma pages_add: "pages (add_block t p k mt z) = (pages z)(p := (pages z p)\<lparr>page_private := k, PageBuddy := True\<rparr>)"
  and pages_del: "pages (del_block p k z) = (pages z)(p := (pages z p)\<lparr>PageBuddy := False, page_private := 0\<rparr>)"
  by (simp_all add: block_defs)

lemma free_pages_add: "free_pages (add_block t p k mt z) = free_pages z \<union> span p k"
  by (auto simp: free_pages_def)

lemma free_pages_del:
  assumes "block_inv z" "(p, k) \<in> blocks z"
  shows "free_pages (del_block p k z) = free_pages z - span p k"
proof -
  have "span q j \<inter> span p k = {}" if "(q, j) \<in> blocks z" "q \<noteq> p" for q j
    using assms that by (auto simp: block_inv_def)
  moreover have "j = k" if "(p, j) \<in> blocks z" for j
    using blocks_unique [OF assms(1)] that assms(2) by blast
  ultimately show ?thesis
    unfolding free_pages_def blocks_del by fastforce
qed

lemma in_hand_not_block: "in_hand z p k \<Longrightarrow> (p, j) \<notin> blocks z"
  using blocks_span [of p j z] by (auto simp: in_hand_def)

lemma list_inv_add:
  assumes "list_inv z" "(p, k) \<notin> blocks z"
  shows "list_inv (add_block t p k mt z)"
proof -
  have "\<And>m. p \<notin> set (free_list z k m)" using assms(2) by (auto simp: blocks_def)
  then show ?thesis using assms(1)
    by (cases mt) (auto simp: list_inv_def block_defs mtypes_def)
qed

lemma list_inv_del:
  assumes "list_inv z" "block_inv z" "p \<in> set (free_list z k mt)"
  shows "list_inv (del_block p k z)"
proof -
  have k: "j = k" if "p \<in> set (free_list z j m)" for j m
    using that assms(3) blocks_unique [OF assms(2), of p j k] by (auto simp: blocks_def)
  then have m: "m = mt" if "p \<in> set (free_list z j m)" for j m
    using that assms(1,3) unfolding list_inv_def by metis
  have other: "filter (\<lambda>q. q \<noteq> p) (free_list z j m) = free_list z j m" if "(j, m) \<noteq> (k, mt)" for j m
    using that k m by (metis (mono_tags, lifting) filter_True)
  have less: "int (length (filter (\<lambda>q. q \<noteq> p) (free_list z k mt))) = int (length (free_list z k mt)) - 1"
    using assms(1,3) length_remove1 [of p "free_list z k mt"] length_pos_if_in_set [OF assms(3)]
    by (simp add: list_inv_def filter_remove1_distinct [symmetric] of_nat_diff Suc_leI)
  have "(\<Sum>m\<leftarrow>mtypes. int (length (filter (\<lambda>q. q \<noteq> p) (free_list z j m))))
        = (\<Sum>m\<leftarrow>mtypes. int (length (free_list z j m))) - of_bool (j = k)" for j
    using less other [of j] by (cases "j = k"; cases mt) (simp_all add: mtypes_def)
  then show ?thesis using assms(1) by (auto simp: list_inv_def block_defs)
qed

lemma block_inv_add:
  "block_inv z \<Longrightarrow> in_hand z p k \<Longrightarrow> block_inv (add_block t p k mt z)"
  using blocks_span [where z = z]
  by (auto simp: block_inv_def in_hand_def block_ok_same [OF add_block_same]) blast+

lemma block_inv_del: "block_inv z \<Longrightarrow> block_inv (del_block p k z)"
  by (auto simp: block_inv_def block_ok_same [OF del_block_same])

lemma meta_inv_add: "meta_inv z \<Longrightarrow> in_hand z p k \<Longrightarrow> meta_inv (add_block t p k mt z)"
  using in_hand_not_block [of z p k] by (auto simp: meta_inv_def pages_add)

lemma meta_inv_del: "meta_inv z \<Longrightarrow> meta_inv (del_block p k z)"
  by (auto simp: meta_inv_def pages_del)

text \<open>A page is a buddy exactly when it heads a free block of that order.\<close>

lemma page_is_buddy_iff:
  assumes "meta_inv z"
  shows "page_is_buddy z p b k \<longleftrightarrow> pfn_valid_within z b \<and> page_zone_id z p = page_zone_id z b \<and> (b, k) \<in> blocks z"
  using assms by (auto simp: page_is_buddy_def meta_inv_def page_order_def)

lemma coalesced_del: "meta_inv z \<Longrightarrow> coalesced z \<Longrightarrow> coalesced (del_block p k z)"
  using del_block_same [of z p k]
  by (auto simp: coalesced_def page_is_buddy_iff meta_inv_del same_zone_def)

lemma coalesced_add:
  assumes m: "meta_inv z" and c: "coalesced z" and h: "in_hand z p k"
    and top: "Suc k < MAX_ORDER z \<Longrightarrow> \<not> page_is_buddy z p (buddy_of p k) k"
    and v: "block_inv z"
  shows "coalesced (add_block t p k mt z)"
  unfolding coalesced_def
proof (intro allI impI)
  fix q j
  let ?z = "add_block t p k mt z"
  assume q: "(q, j) \<in> blocks ?z" and j: "Suc j < MAX_ORDER ?z"
  have s: "MAX_ORDER ?z = MAX_ORDER z" "pfn_valid_within ?z = pfn_valid_within z"
    "page_zone_id ?z = page_zone_id z"
    using add_block_same [of z t p k mt] by (simp_all add: same_zone_def)
  show "\<not> page_is_buddy ?z q (buddy_of q j) j"
  proof
    assume "page_is_buddy ?z q (buddy_of q j) j"
    then have b: "pfn_valid_within z (buddy_of q j)" "page_zone_id z q = page_zone_id z (buddy_of q j)"
      "(buddy_of q j, j) \<in> insert (p, k) (blocks z)"
      by (simp_all add: page_is_buddy_iff [OF meta_inv_add [OF m h]] s)
    consider "(q, j) = (p, k)" | "(q, j) \<in> blocks z" "(q, j) \<noteq> (p, k)" using q by auto
    then show False
    proof cases
      case 1
      with b top j show False by (auto simp: page_is_buddy_iff [OF m] s)
    next
      case 2
      show False
      proof (cases "buddy_of q j = p \<and> j = k")
        case True
        then have "q = buddy_of p k" using buddy_buddy by metis
        with True 2 b top j v show False
          by (auto simp: page_is_buddy_iff [OF m] s block_inv_def block_ok_def)
      next
        case False
        with 2 b c j show False by (auto simp: coalesced_def page_is_buddy_iff [OF m] s)
      qed
    qed
  qed
qed

lemma buddy_inv_add:
  "buddy_inv z \<Longrightarrow> in_hand z p k \<Longrightarrow> (Suc k < MAX_ORDER z \<Longrightarrow> \<not> page_is_buddy z p (buddy_of p k) k)
    \<Longrightarrow> buddy_inv (add_block t p k mt z)"
  by (simp add: buddy_inv_def list_inv_add block_inv_add meta_inv_add coalesced_add in_hand_not_block)

lemma buddy_inv_del:
  assumes "buddy_inv z" "p \<in> set (free_list z k mt)"
  shows "buddy_inv (del_block p k z)" "in_hand (del_block p k z) p k"
    "free_pages (del_block p k z) = free_pages z - span p k"
proof -
  have b: "(p, k) \<in> blocks z" using assms(2) by (auto simp: blocks_def)
  show "buddy_inv (del_block p k z)" using assms unfolding buddy_inv_def
    by (blast intro: list_inv_del block_inv_del meta_inv_del coalesced_del)
  show f: "free_pages (del_block p k z) = free_pages z - span p k"
    using assms(1) b by (intro free_pages_del) (auto simp: buddy_inv_def)
  show "in_hand (del_block p k z) p k"
    using assms(1) b f by (auto simp: in_hand_def buddy_inv_def block_inv_def block_ok_same [OF del_block_same])
qed


section \<open>Splitting\<close>

lemma expand_add_block:
  "set_page_order q k (nr_free_inc k (list_add q k mt z)) = add_block False q k mt z"
  by (rule zone.equality) (simp_all add: block_defs)

lemma expand_step:
  "expand p low (Suc high) mt z =
    (if low \<le> high then expand p low high mt (add_block False (p + 2 ^ high) high mt z) else z)"
  by (simp add: expand_add_block less_Suc_eq_le)

declare expand.simps(2) [simp del]

lemma in_hand_lower:
  "in_hand z p (Suc k) \<Longrightarrow> in_hand z p k"
  "in_hand z p (Suc k) \<Longrightarrow> in_hand z (p + 2 ^ k) k"
  by (auto simp: in_hand_def block_ok_def span_split elim!: dvdE)

lemma in_hand_upper_buddy: "in_hand z p (Suc k) \<Longrightarrow> buddy_of (p + 2 ^ k) k = p"
proof -
  assume "in_hand z p (Suc k)"
  then have "2 ^ Suc k dvd p" by (simp add: in_hand_def block_ok_def)
  then have "\<not> bit p k" by (auto simp: bit_iff_odd elim!: dvdE)
  then have "p + 2 ^ k = buddy_of p k" by (simp add: buddy_of_def)
  then show ?thesis by simp
qed

lemma expand_correct:
  assumes "buddy_inv z" "in_hand z p high" "low \<le> high"
  shows "buddy_inv (expand p low high mt z) \<and> in_hand (expand p low high mt z) p low
    \<and> free_pages (expand p low high mt z) = free_pages z \<union> (span p high - span p low)
    \<and> same_zone z (expand p low high mt z) \<and> touched (span p high - span p low) z (expand p low high mt z)"
  using assms
proof (induction high arbitrary: z)
  case (Suc high)
  show ?case
  proof (cases "low \<le> high")
    case True
    let ?z = "add_block False (p + 2 ^ high) high mt z"
    note h = in_hand_lower [OF Suc.prems(2)]
    have "\<not> page_is_buddy z (p + 2 ^ high) (buddy_of (p + 2 ^ high) high) high"
      using in_hand_upper_buddy [OF Suc.prems(2)] in_hand_not_block [OF h(1)] Suc.prems(1)
      by (auto simp: buddy_inv_def page_is_buddy_iff)
    then have inv: "buddy_inv ?z" using buddy_inv_add Suc.prems(1) h(2) by blast
    have hand: "in_hand ?z p high"
      using h(1) span_split_disjoint [of p high]
      by (auto simp: in_hand_def free_pages_add block_ok_same [OF add_block_same])
    have "span p low \<subseteq> span p high" using True by (auto simp: span_def intro: less_le_trans)
    then have "span (p + 2 ^ high) high \<union> (span p high - span p low) = span p (Suc high) - span p low"
      using span_split_disjoint [of p high] by (auto simp: span_split)
    moreover have "touched (span p (Suc high) - span p low) z (expand p low high mt ?z)"
    proof (rule touched_trans [OF add_block_touched])
      show "p + 2 ^ high \<in> span (p + 2 ^ high) high" by simp
      show "touched (span p high - span p low) ?z (expand p low high mt ?z)"
        using Suc.IH [OF inv hand True] by blast
    qed (use calculation in blast)+
    ultimately show ?thesis using Suc.IH [OF inv hand True] True
      by (auto simp: expand_step free_pages_add Un_assoc intro: same_zone_trans [OF add_block_same])
  next
    case False
    with Suc.prems show ?thesis by (simp add: expand_step le_Suc_eq)
  qed
qed simp

section \<open>Allocation of the smallest fitting block\<close>

lemma rmqueue_del_block: "nr_free_dec k (rmv_page_order p (list_del p z)) = del_block p k z"
  by (simp add: block_defs)

lemma rmqueue_smallest_from_correct:
  assumes "buddy_inv z" "order \<le> c"
  shows "case rmqueue_smallest_from c order mt z of
    (None, z') \<Rightarrow> z' = z \<and> (\<forall>k. c \<le> k \<longrightarrow> k < MAX_ORDER z \<longrightarrow> free_list z k mt = [])
  | (Some p, z') \<Rightarrow> buddy_inv z' \<and> in_hand z' p order \<and> span p order \<subseteq> free_pages z
      \<and> free_pages z' = free_pages z - span p order \<and> same_zone z z' \<and> touched (free_pages z) z z'
      \<and> (\<exists>k. c \<le> k \<and> k < MAX_ORDER z \<and> (\<forall>j. c \<le> j \<longrightarrow> j < k \<longrightarrow> free_list z j mt = [])
             \<and> (\<exists>ps. free_list z k mt = p # ps))"
  using assms
proof (induction c order mt z rule: rmqueue_smallest_from.induct)
  case (1 c order mt z)
  show ?case
  proof (cases "c < MAX_ORDER z")
    case False
    then show ?thesis by (simp add: rmqueue_smallest_from.simps)
  next
    case c: True
    show ?thesis
    proof (cases "free_list z c mt")
      case Nil
      have 2: "rmqueue_smallest_from c order mt z = rmqueue_smallest_from (Suc c) order mt z"
        using c Nil by (subst rmqueue_smallest_from.simps) simp
      have ex: "(\<forall>k\<ge>c. k < M \<longrightarrow> free_list z k mt = []) \<longleftrightarrow> (\<forall>k\<ge>Suc c. k < M \<longrightarrow> free_list z k mt = [])" for M
        using Nil by (metis Suc_leD Suc_leI le_neq_implies_less)
      obtain r z' where res: "rmqueue_smallest_from (Suc c) order mt z = (r, z')" by fastforce
      show ?thesis using 1(1) [OF c Nil 1(2)] 1(3)
        unfolding 2 ex res by (cases r) (auto dest: Suc_leD)
    next
      case (Cons p ps)
      let ?d = "del_block p c z"
      have p: "p \<in> set (free_list z c mt)" and pb: "(p, c) \<in> blocks z"
        using Cons by (auto simp: blocks_def intro: exI [of _ mt])
      note d = buddy_inv_del [OF 1(2) p]
      have r: "rmqueue_smallest_from c order mt z = (Some p, expand p order c mt ?d)"
        using c Cons by (subst rmqueue_smallest_from.simps) (simp add: rmqueue_del_block)
      have sub: "span p order \<subseteq> span p c" using 1(3) by (auto simp: span_def intro: less_le_trans)
      have "free_pages (expand p order c mt ?d) = free_pages z - span p order"
        using expand_correct [OF d(1,2) 1(3)] d(3) blocks_span [OF pb] sub by auto
      moreover have "touched (free_pages z) z (expand p order c mt ?d)"
        using expand_correct [OF d(1,2) 1(3), of mt] blocks_span [OF pb]
        by - (rule touched_trans [OF del_block_touched [of p "span p c"], of "span p c - span p order"], blast+)
      ultimately show ?thesis
        using expand_correct [OF d(1,2) 1(3), of mt] blocks_span [OF pb] sub c Cons pb
        unfolding r by (auto intro!: exI [of _ c] intro: same_zone_trans [OF del_block_same])
    qed
  qed
qed

section \<open>Freeing\<close>

text \<open>One merge: the buddy leaves its list and the doubled block is in hand.\<close>

lemma coalesce_merge:
  assumes "buddy_inv z" "in_hand z p k" "idx = take_bit (MAX_ORDER z) p"
    and "k < MAX_ORDER z - 1 \<and> page_is_buddy z p (buddy_of p k) k"
  defines "b \<equiv> buddy_of p k" and "c \<equiv> (if bit p k then p - 2 ^ k else p)"
  defines "d \<equiv> del_block b k z"
  shows "p + (find_buddy_index idx k AND idx) - idx = c"
    "find_buddy_index idx k AND idx = take_bit (MAX_ORDER d) c"
    "buddy_inv d" "in_hand d c (Suc k)"
    "free_pages d \<union> span c (Suc k) = free_pages z \<union> span p k"
    "b \<in> free_pages z" "free_pages d \<subseteq> free_pages z"
proof -
  obtain mt where b: "b \<in> set (free_list z k mt)"
    using assms(1,4) by (auto simp: buddy_inv_def page_is_buddy_iff blocks_def b_def)
  then have bb: "(b, k) \<in> blocks z" by (auto simp: blocks_def)
  note d = buddy_inv_del [OF assms(1) b, folded d_def]
  have kM: "k < MAX_ORDER z" using assms(2) by (simp add: in_hand_def block_ok_def)
  show "p + (find_buddy_index idx k AND idx) - idx = c"
    "find_buddy_index idx k AND idx = take_bit (MAX_ORDER d) c"
    using kM assms(3) idx_combined_take idx_combined del_block_same [of z b k]
    by (simp_all add: find_buddy_index_eq same_zone_def c_def d_def)
  show "buddy_inv d" by (rule d(1))
  have sm: "span c (Suc k) = span p k \<union> span b k" by (simp only: span_merge b_def c_def)
  show "free_pages d \<union> span c (Suc k) = free_pages z \<union> span p k"
    using blocks_span [OF bb] d(3) by (auto simp: sm)
  show "b \<in> free_pages z" "free_pages d \<subseteq> free_pages z" using blocks_span [OF bb] d(3) by auto
  have okb: "block_ok z b k" using assms(1) bb by (auto simp: buddy_inv_def block_inv_def)
  have "2 ^ Suc k dvd c"
    using assms(2) aligned_bit aligned_bit' by (auto simp: in_hand_def block_ok_def c_def)
  then have "block_ok z c (Suc k)"
    using okb assms(2,4) unfolding block_ok_def in_hand_def sm by auto
  moreover have "span c (Suc k) \<inter> free_pages d = {}"
    using assms(2) d(3) by (auto simp: in_hand_def sm)
  ultimately show "in_hand d c (Suc k)"
    by (simp add: in_hand_def d_def block_ok_same [OF del_block_same])
qed

lemma coalesce_correct:
  assumes "buddy_inv z" "in_hand z p k" "idx = take_bit (MAX_ORDER z) p"
    and "coalesce p idx k b bi z = (p', idx', k', b', bi', z')"
  shows "buddy_inv z' \<and> in_hand z' p' k' \<and> same_zone z z' \<and> k \<le> k' \<and> touched (free_pages z) z z'
    \<and> free_pages z' \<union> span p' k' = free_pages z \<union> span p k
    \<and> (Suc k' < MAX_ORDER z \<longrightarrow> \<not> page_is_buddy z' p' (buddy_of p' k') k')"
  using assms
proof (induction p idx k b bi z rule: coalesce.induct)
  case (1 p idx k b bi z)
  have kM: "k < MAX_ORDER z" using 1(3) by (simp add: in_hand_def block_ok_def)
  have bud: "p + find_buddy_index idx k - idx = buddy_of p k"
    using kM 1(4) by (simp add: find_buddy_index_eq idx_buddy)
  show ?case
  proof (cases "k < MAX_ORDER z - 1 \<and> page_is_buddy z p (buddy_of p k) k")
    case False
    then have "p' = p \<and> k' = k \<and> z' = z"
      using 1(5) bud by (auto simp: coalesce.simps [of p] Let_def split: if_splits)
    with False 1 show ?thesis by auto
  next
    case True
    let ?b = "buddy_of p k" and ?c = "if bit p k then p - 2 ^ k else p"
    let ?d = "del_block ?b k z"
    note m = coalesce_merge [OF 1(2,3,4) True]
    have step: "coalesce ?c (find_buddy_index idx k AND idx) (Suc k) ?b (find_buddy_index idx k) ?d
        = (p', idx', k', b', bi', z')"
      using 1(5) True bud m(1) by (simp add: coalesce.simps [of p] Let_def del_block_def)
    have *: "buddy_inv z' \<and> in_hand z' p' k' \<and> same_zone ?d z' \<and> Suc k \<le> k' \<and> touched (free_pages ?d) ?d z'
      \<and> free_pages z' \<union> span p' k' = free_pages ?d \<union> span ?c (Suc k)
      \<and> (Suc k' < MAX_ORDER ?d \<longrightarrow> \<not> page_is_buddy z' p' (buddy_of p' k') k')"
      using 1(1) [of "find_buddy_index idx k" ?b ?d] True bud m step
      by (auto simp: del_block_def)
    then have "touched (free_pages z) z z'"
      using m(6,7) by - (rule touched_trans [OF del_block_touched, of ?b "free_pages z" "free_pages ?d"], blast+)
    with * m(5) show ?thesis using del_block_same [of z ?b k]
      by (auto intro: same_zone_trans simp: same_zone_def)
  qed
qed

lemma free_one_page_core_correct:
  assumes "buddy_inv z" "in_hand z p k"
  shows "buddy_inv (free_one_page_core p k mt z)
    \<and> free_pages (free_one_page_core p k mt z) = free_pages z \<union> span p k
    \<and> same_zone z (free_one_page_core p k mt z) \<and> touched (free_pages z \<union> span p k) z (free_one_page_core p k mt z)"
proof -
  obtain p' idx' k' b' bi' z' where c:
    "coalesce p (p AND mask (MAX_ORDER z)) k 0 0 z = (p', idx', k', b', bi', z')"
    by (metis prod_cases6)
  have *: "buddy_inv z'" "in_hand z' p' k'" "same_zone z z'"
    "free_pages z' \<union> span p' k' = free_pages z \<union> span p k"
    "Suc k' < MAX_ORDER z \<longrightarrow> \<not> page_is_buddy z' p' (buddy_of p' k') k'" "touched (free_pages z) z z'"
    using coalesce_correct [OF assms _ c] by (simp_all add: take_bit_eq_mask)
  obtain t where t: "free_one_page_core p k mt z = add_block t p' k' mt z'"
  proof -
    have "free_one_page_core p k mt z = add_block True p' k' mt z'
      \<or> free_one_page_core p k mt z = add_block False p' k' mt z'"
      by (simp add: free_one_page_core_def c add_block_def Let_def)
    then show ?thesis using that by blast
  qed
  have "buddy_inv (add_block t p' k' mt z')"
    using buddy_inv_add * by (simp add: same_zone_def)
  moreover have "touched (free_pages z \<union> span p k) z (add_block t p' k' mt z')"
    using *(4) by - (rule touched_trans [OF *(6) add_block_touched [of p' "span p' k'"]], blast+)
  ultimately show ?thesis unfolding t using *
    by (simp add: free_pages_add same_zone_trans [OF _ add_block_same])
qed

text \<open>
  Changes that leave the lists, the buddy marks and the orders of free blocks alone, such as
  breaking up a compound page.
\<close>

definition lists_same :: "zone \<Rightarrow> zone \<Rightarrow> bool" where
  "lists_same z z' \<longleftrightarrow> same_zone z z' \<and> free_list z' = free_list z \<and> nr_free z' = nr_free z
     \<and> (\<forall>q. PageBuddy (pages z' q) = PageBuddy (pages z q)
          \<and> (PageBuddy (pages z q) \<longrightarrow> page_private (pages z' q) = page_private (pages z q)))"

lemma lists_same_refl [simp]: "lists_same z z" and
  lists_same_trans: "lists_same a b \<Longrightarrow> lists_same b c \<Longrightarrow> lists_same a c"
  by (auto simp: lists_same_def intro: same_zone_trans)

lemma lists_same_blocks: "lists_same z z' \<Longrightarrow> blocks z' = blocks z"
  by (simp add: lists_same_def blocks_def)

lemma lists_same_free: "lists_same z z' \<Longrightarrow> free_pages z' = free_pages z"
  by (simp add: free_pages_def lists_same_blocks)

lemma lists_same_hand: "lists_same z z' \<Longrightarrow> in_hand z' = in_hand z"
  using block_ok_same [of z z'] by (intro ext) (simp add: in_hand_def lists_same_free, simp add: lists_same_def)

lemma lists_same_buddy: "lists_same z z' \<Longrightarrow> page_is_buddy z' = page_is_buddy z"
  by (intro ext) (auto simp: page_is_buddy_def lists_same_def same_zone_def page_order_def)

lemma lists_same_inv:
  assumes "lists_same z z'"
  shows "buddy_inv z' = buddy_inv z"
proof -
  have "block_ok z' = block_ok z" "MAX_ORDER z' = MAX_ORDER z"
    using assms block_ok_same [of z z'] by (simp_all add: lists_same_def same_zone_def)
  moreover have "free_list z' = free_list z" "nr_free z' = nr_free z"
    using assms by (simp_all add: lists_same_def)
  moreover have "meta_inv z' = meta_inv z"
    using assms unfolding meta_inv_def lists_same_blocks [OF assms] lists_same_def by metis
  ultimately show ?thesis
    unfolding buddy_inv_def list_inv_def block_inv_def coalesced_def
      lists_same_blocks [OF assms] lists_same_buddy [OF assms] by (simp only:)
qed

lemma upd_page_lists_same:
  "(\<And>g. page_private (h g) = page_private g \<and> PageBuddy (h g) = PageBuddy g) \<Longrightarrow> lists_same z (upd_page p h z)"
  by (simp add: lists_same_def upd_page_def same_zone_def)

lemma lists_same_mod_state [simp]: "lists_same z (mod_zone_freepage_state n mt z)"
  by (simp add: mod_zone_freepage_state_def lists_same_def same_zone_def Let_def)

definition compound :: "zone \<Rightarrow> nat \<Rightarrow> nat \<Rightarrow> bool" where
  "compound z p k \<longleftrightarrow> PageHead (pages z p) \<and> compound_order (pages z p) = k
     \<and> (\<forall>q\<in>span p k - {p}. PageTail (pages z q) \<and> first_page (pages z q) = p)"

lemma destroy_tails:
  assumes "\<forall>q\<in>{p + i..<p + n}. PageTail (pages z q) \<and> first_page (pages z q) = p"
  shows "fst (fold (destroy_tail p) [i..<n] (bad, z)) = bad
    \<and> lists_same z (snd (fold (destroy_tail p) [i..<n] (bad, z)))
    \<and> (\<forall>q. pages (snd (fold (destroy_tail p) [i..<n] (bad, z))) q
         = (if p + i \<le> q \<and> q < p + n then (pages z q)\<lparr>PageTail := False\<rparr> else pages z q))"
  using assms
proof (induction "n - i" arbitrary: i z)
  case (Suc d)
  then have i: "i < n" by simp
  let ?z = "upd_page (p + i) (\<lambda>g. g\<lparr>PageTail := False\<rparr>) z"
  have t: "destroy_tail p i (bad, z) = (bad, ?z)"
    using Suc.prems i by (simp add: destroy_tail_def)
  have d: "d = n - Suc i" using Suc(2) by simp
  have prem: "\<forall>q\<in>{p + Suc i..<p + n}. PageTail (pages ?z q) \<and> first_page (pages ?z q) = p"
    using Suc.prems by (auto simp: upd_page_def)
  have "lists_same z ?z" by (rule upd_page_lists_same) simp
  then show ?case
    using Suc.hyps(1) [OF d prem] i
    by (auto simp: upt_conv_Cons t upd_page_def intro: lists_same_trans)
qed auto

lemma destroy_compound_page_ok:
  assumes "compound z p k"
  shows "fst (destroy_compound_page p k z) = 0 \<and> lists_same z (snd (destroy_compound_page p k z))
    \<and> (\<forall>q. pages (snd (destroy_compound_page p k z)) q =
        (if q = p then (pages z q)\<lparr>PageHead := False\<rparr>
         else if q \<in> span p k then (pages z q)\<lparr>PageTail := False\<rparr> else pages z q))"
proof -
  let ?z = "upd_page p (\<lambda>g. g\<lparr>PageHead := False\<rparr>) z"
  have *: "\<forall>q\<in>{p + 1..<p + 2 ^ k}. PageTail (pages ?z q) \<and> first_page (pages ?z q) = p"
    using assms by (auto simp: compound_def upd_page_def span_def)
  have l: "lists_same z ?z" by (rule upd_page_lists_same) simp
  have e: "destroy_compound_page p k z = fold (destroy_tail p) [1..<2 ^ k] (0, ?z)"
    using assms by (simp add: destroy_compound_page_def compound_def)
  show ?thesis
    using destroy_tails [OF *, of 0] l unfolding e
    by (auto simp: upd_page_def span_def intro: lists_same_trans)
qed

lemma free_one_page'_correct:
  assumes "buddy_inv z" "in_hand z p k"
    and "\<not> PageHead (pages z p) \<and> \<not> PageTail (pages z p) \<or> compound z p k"
  shows "buddy_inv (free_one_page' p k mt z)
    \<and> free_pages (free_one_page' p k mt z) = free_pages z \<union> span p k
    \<and> same_zone z (free_one_page' p k mt z)
    \<and> (\<not> PageHead (pages z p) \<and> \<not> PageTail (pages z p) \<longrightarrow> touched (free_pages z \<union> span p k) z (free_one_page' p k mt z))"
proof (cases "PageHead (pages z p) \<or> PageTail (pages z p)")
  case False
  then show ?thesis using free_one_page_core_correct [OF assms(1,2)] by (simp add: free_one_page'_def)
next
  case True
  then have "compound z p k" using assms(3) by blast
  note d = destroy_compound_page_ok [OF this]
  then have l: "lists_same z (snd (destroy_compound_page p k z))" by blast
  have "buddy_inv (snd (destroy_compound_page p k z))" "in_hand (snd (destroy_compound_page p k z)) p k"
    using assms(1,2) lists_same_inv [OF l] lists_same_hand [OF l] by simp_all
  note c = free_one_page_core_correct [OF this]
  have "free_one_page' p k mt z = free_one_page_core p k mt (snd (destroy_compound_page p k z))"
    using True d by (simp add: free_one_page'_def case_prod_beta)
  with c lists_same_free [OF l] l True show ?thesis
    by (auto simp: lists_same_def intro: same_zone_trans)
qed

text \<open>The zone's page counter is the caller's business.\<close>

lemma prim_nr_free_pages [simp]:
  "NR_FREE_PAGES (upd_page p h z) = NR_FREE_PAGES z" "NR_FREE_PAGES (set_page_order p k z) = NR_FREE_PAGES z"
  "NR_FREE_PAGES (rmv_page_order p z) = NR_FREE_PAGES z" "NR_FREE_PAGES (list_add p k mt z) = NR_FREE_PAGES z"
  "NR_FREE_PAGES (list_add_tail p k mt z) = NR_FREE_PAGES z" "NR_FREE_PAGES (list_del p z) = NR_FREE_PAGES z"
  "NR_FREE_PAGES (nr_free_inc k z) = NR_FREE_PAGES z" "NR_FREE_PAGES (nr_free_dec k z) = NR_FREE_PAGES z"
  "NR_FREE_PAGES (bad_page p z) = NR_FREE_PAGES z"
  by (simp_all add: block_defs bad_page_def)

lemma coalesce_nr_free_pages:
  "coalesce p idx k b bi z = (p', idx', k', b', bi', z') \<Longrightarrow> NR_FREE_PAGES z' = NR_FREE_PAGES z"
proof (induction p idx k b bi z rule: coalesce.induct)
  case (1 p idx k b bi z)
  from 1(2) 1(1) [OF _ refl refl _ refl refl] show ?case
    by (auto simp: coalesce.simps [of p idx k b bi z] Let_def split: if_splits)
qed

lemma destroy_nr_free_pages: "NR_FREE_PAGES (snd (destroy_compound_page p k z)) = NR_FREE_PAGES z"
proof -
  have "NR_FREE_PAGES (snd (fold (destroy_tail p) is bz)) = NR_FREE_PAGES (snd bz)" for "is" bz
    by (induction "is" arbitrary: bz) (auto simp: destroy_tail_def case_prod_beta)
  then show ?thesis by (simp add: destroy_compound_page_def case_prod_beta)
qed

lemma free_one_page'_nr_free_pages [simp]: "NR_FREE_PAGES (free_one_page' p k mt z) = NR_FREE_PAGES z"
proof -
  have "NR_FREE_PAGES (free_one_page_core p k mt z) = NR_FREE_PAGES z" for z
    by (auto simp: free_one_page_core_def Let_def split: prod.splits dest: coalesce_nr_free_pages)
  then show ?thesis using destroy_nr_free_pages [of p k z]
    by (auto simp: free_one_page'_def split: prod.splits)
qed

section \<open>The free lists are determined by the set of free pages\<close>

lemma aligned_gap: "d dvd x \<Longrightarrow> d dvd y \<Longrightarrow> x < y \<Longrightarrow> x + d \<le> (y::nat)"
  using dvd_imp_le [of d "y - x"] by (auto simp: dvd_diff_nat)

lemma aligned_span_nested:
  assumes "2 ^ k dvd p" "2 ^ j dvd q" "j \<le> k" "q \<in> span p k"
  shows "span q j \<subseteq> span p k"
proof -
  have jk: "2 ^ j dvd (2 ^ k::nat)" using assms(3) by (rule le_imp_power_dvd)
  then have "2 ^ j dvd p" using assms(1) by (rule dvd_trans)
  then have "q + 2 ^ j \<le> p + 2 ^ k"
    using aligned_gap [of "2 ^ j" q "p + 2 ^ k"] assms jk by (auto simp: span_def)
  then show ?thesis using assms(4) by (auto simp: span_def)
qed

definition one_zone :: "zone \<Rightarrow> bool" where
  "one_zone z \<longleftrightarrow> (\<forall>p\<in>free_pages z. \<forall>q\<in>free_pages z. page_zone_id z p = page_zone_id z q)"

lemma span_order_le: "span q j \<subseteq> span p k \<Longrightarrow> j \<le> k"
proof -
  assume "span q j \<subseteq> span p k"
  then have "card (span q j) \<le> card (span p k)" by (rule card_mono [rotated]) (simp add: span_def)
  then show ?thesis by (simp add: span_def)
qed

lemma span_equal: "span q j = span p k \<Longrightarrow> q = p \<and> j = k"
proof -
  assume e: "span q j = span p k"
  then have "j = k" by (metis antisym order_refl span_order_le)
  moreover have "q \<in> span p k" "p \<in> span q j" using e span_self by metis+
  ultimately show ?thesis by (auto simp: span_def)
qed

lemma aligned_same_order: "2 ^ k dvd p \<Longrightarrow> 2 ^ k dvd q \<Longrightarrow> q \<in> span p k \<Longrightarrow> q = p"
  using aligned_gap [of "2 ^ k" p q] by (cases "p < q") (auto simp: span_def)

text \<open>An aligned range of free pages lies inside one free block.\<close>

lemma free_range_in_block:
  assumes "buddy_inv z" "one_zone z" "block_ok z q j" "span q j \<subseteq> free_pages z"
  shows "\<exists>p k. (p, k) \<in> blocks z \<and> span q j \<subseteq> span p k"
  using assms(3,4)
proof (induction j arbitrary: q)
  case 0
  then show ?case by (fastforce simp: free_pages_def span_def)
next
  case (Suc j)
  have al: "block_ok z q j" "block_ok z (q + 2 ^ j) j" and jM: "Suc j < MAX_ORDER z"
    using Suc.prems(1) by (auto simp: block_ok_def span_split elim!: dvdE)
  obtain p k where p: "(p, k) \<in> blocks z" "span q j \<subseteq> span p k"
    using Suc.IH [OF al(1)] Suc.prems(2) by (auto simp: span_split)
  obtain p' k' where p': "(p', k') \<in> blocks z" "span (q + 2 ^ j) j \<subseteq> span p' k'"
    using Suc.IH [OF al(2)] Suc.prems(2) by (auto simp: span_split)
  have ok: "block_ok z p k" "block_ok z p' k'" using assms(1) p(1) p'(1) by (auto simp: buddy_inv_def block_inv_def)
  have le: "j \<le> k" "j \<le> k'" using p(2) p'(2) span_order_le by blast+
  show ?case
  proof (cases "j < k")
    case True
    have "span q (Suc j) \<subseteq> span p k"
      using True ok Suc.prems(1) p(2) span_self [of q j] by (intro aligned_span_nested) (auto simp: block_ok_def)
    then show ?thesis using p(1) by blast
  next
    case False
    then have kj: "k = j" using le by simp
    have "q = p" using aligned_same_order [of k p q] ok(1) al(1) p(2) kj by (auto simp: block_ok_def)
    then have qb: "(q, j) \<in> blocks z" using p(1) kj by simp
    have bit: "\<not> bit q j" using Suc.prems(1) by (auto simp: block_ok_def bit_iff_odd elim!: dvdE)
    then have bud: "buddy_of q j = q + 2 ^ j" by (simp add: buddy_of_def)
    have "j \<noteq> k'"
    proof
      assume "j = k'"
      then have "q + 2 ^ j = p'"
        using aligned_same_order [of k' p' "q + 2 ^ j"] ok(2) al(2) p'(2) by (auto simp: block_ok_def)
      then have b: "(buddy_of q j, j) \<in> blocks z" using p'(1) \<open>j = k'\<close> bud by simp
      have v: "pfn_valid_within z (buddy_of q j)" using al(2) bud by (auto simp: block_ok_def)
      have zid: "page_zone_id z q = page_zone_id z (buddy_of q j)"
        using assms(2) subsetD [OF blocks_span [OF qb] span_self] subsetD [OF blocks_span [OF b] span_self]
        unfolding one_zone_def by blast
      show False using assms(1) qb jM b v zid by (auto simp: buddy_inv_def coalesced_def page_is_buddy_iff)
    qed
    then have k': "Suc j \<le> k'" using le by simp
    have "2 ^ k' dvd p'" using ok(2) by (simp add: block_ok_def)
    then have al': "2 ^ Suc j dvd q" "2 ^ Suc j dvd p'"
      using Suc.prems(1) dvd_trans [OF le_imp_power_dvd [OF k', of "2::nat"]] unfolding block_ok_def by blast+
    have in': "q + 2 ^ j \<in> span p' k'" using p'(2) by (rule subsetD) simp
    then have "p' \<le> q"
      using aligned_gap [OF al'] by (cases "q < p'") (auto simp: span_def)
    then have "q \<in> span p' k'" using in' by (auto simp: span_def)
    then have "span q (Suc j) \<subseteq> span p' k'"
      using k' ok(2) al' by (intro aligned_span_nested) (auto simp: block_ok_def)
    then show ?thesis using p'(1) by blast
  qed
qed

lemma one_zone_same: "same_zone z z' \<Longrightarrow> free_pages z' = free_pages z \<Longrightarrow> one_zone z' = one_zone z"
  unfolding one_zone_def same_zone_def by (simp only:)

lemma blocks_canonical_subset:
  assumes "buddy_inv z" "buddy_inv z'" "same_zone z z'" "free_pages z' = free_pages z" "one_zone z"
  shows "blocks z \<subseteq> blocks z'"
proof (rule subrelI)
  fix p k
  assume pk: "(p, k) \<in> blocks z"
  have oz: "one_zone z'" using one_zone_same [OF assms(3,4)] assms(5) by simp
  have "block_ok z' p k" using assms(1) pk block_ok_same [OF assms(3)] by (auto simp: buddy_inv_def block_inv_def)
  then obtain q j where q: "(q, j) \<in> blocks z'" "span p k \<subseteq> span q j"
    using free_range_in_block [OF assms(2) oz] blocks_span [OF pk] assms(4) by metis
  have "block_ok z q j" using assms(2) q(1) block_ok_same [OF assms(3)] by (auto simp: buddy_inv_def block_inv_def)
  then obtain p' k' where p': "(p', k') \<in> blocks z" "span q j \<subseteq> span p' k'"
    using free_range_in_block [OF assms(1,5)] blocks_span [OF q(1)] assms(4) by metis
  have "(p', k') = (p, k)"
  proof (rule ccontr)
    assume "(p', k') \<noteq> (p, k)"
    then have "span p k \<inter> span p' k' = {}" using assms(1) pk p'(1) unfolding buddy_inv_def block_inv_def by metis
    then show False using q(2) p'(2) span_self [of p k] by auto
  qed
  then have "q = p \<and> j = k" using span_equal [of q j p k] q(2) p'(2) by auto
  then show "(p, k) \<in> blocks z'" using q(1) by simp
qed

lemma same_zone_sym: "same_zone z z' \<Longrightarrow> same_zone z' z"
  by (simp add: same_zone_def)

lemma blocks_canonical:
  assumes "buddy_inv z" "buddy_inv z'" "same_zone z z'" "free_pages z' = free_pages z" "one_zone z"
  shows "blocks z' = blocks z"
proof
  have "one_zone z'" using one_zone_same [OF assms(3,4)] assms(5) by simp
  then show "blocks z' \<subseteq> blocks z"
    using blocks_canonical_subset [OF assms(2,1) same_zone_sym [OF assms(3)]] assms(4) by simp
qed (rule blocks_canonical_subset [OF assms])

section \<open>Properties\<close>

definition zone0 :: zone where
  "zone0 = \<lparr>MAX_ORDER = 4, pageblock_order = 3, zone_start_pfn = 0, spanned_pages = 16,
    PAGE_FLAGS_CHECK_AT_FREE = 0x3F, PAGE_FLAGS_CHECK_AT_PREP = 0xFF, PG_mlocked = 5, PG_reserved = 4,
    mem_cgroup_bad_page_check = (\<lambda>_. False), pfn_valid_within = (\<lambda>p. p < 16), page_zone_id = (\<lambda>_. 0),
    pages = (\<lambda>_. \<lparr>page_private = 0, PageBuddy = False, PageHead = False, PageTail = False, first_page = 0,
      compound_order = 0, compound_dtor = False, page_count = 0, page_mapcount = 0, page_mapping = 0,
      page_flags = 0, PageHWPoison = False, cleared = False\<rparr>),
    free_list = (\<lambda>_ _. []), nr_free = (\<lambda>_. 0), pageblock_mt = (\<lambda>_. MIGRATE_MOVABLE),
    NR_FREE_PAGES = 0, NR_FREE_CMA_PAGES = 0, NR_MLOCK = 0, PGFREE = 0, PGALLOC = 0, UNEVICTABLE_MLOCKFREED = 0, all_unreclaimable = 0, pages_scanned = 0,
    cma_alloc = False, page_group_by_mobility_disabled = False, TAINT_BAD_PAGE = False\<rparr>"

lemma zone0_blocks [simp]: "blocks zone0 = {}" and zone0_free [simp]: "free_pages zone0 = {}"
  by (simp_all add: zone0_def blocks_def free_pages_def)

lemma zone0_inv [simp]: "buddy_inv zone0"
  unfolding buddy_inv_def list_inv_def block_inv_def meta_inv_def coalesced_def zone0_blocks
  by (simp add: zone0_def mtypes_def)

lemma zone0_pages [simp]: "\<not> PageHead (pages zone0 p)" "\<not> PageTail (pages zone0 p)" "MAX_ORDER zone0 = 4"
  "NR_FREE_PAGES zone0 = 0" "pfn_valid_within zone0 q = (q < 16)" "page_zone_id zone0 q = 0"
  by (simp_all add: zone0_def)

definition zone1 :: zone where
  "zone1 = free_one_page' 8 3 MIGRATE_MOVABLE zone0"

lemma hand8: "in_hand zone0 8 3"
  by (simp add: in_hand_def block_ok_def span_def)

lemma zone1_facts: "buddy_inv zone1" "free_pages zone1 = span 8 3" "same_zone zone0 zone1"
  using free_one_page'_correct [OF zone0_inv hand8, of MIGRATE_MOVABLE] by (simp_all add: zone1_def)

lemma zone1_one_zone: "one_zone zone1"
  using zone1_facts(3) by (simp add: one_zone_def same_zone_def)

lemma free_one_page_full:
  assumes "buddy_inv z" "in_hand z p k"
    and "\<not> PageHead (pages z p) \<and> \<not> PageTail (pages z p) \<or> compound z p k"
  shows "buddy_inv (free_one_page p k mt z)
    \<and> free_pages (free_one_page p k mt z) = free_pages z \<union> span p k
    \<and> NR_FREE_PAGES (free_one_page p k mt z) = NR_FREE_PAGES z + (if mt = MIGRATE_ISOLATE then 0 else 2 ^ k)
    \<and> same_zone z (free_one_page p k mt z)
    \<and> (\<not> PageHead (pages z p) \<and> \<not> PageTail (pages z p) \<longrightarrow> touched (free_pages z \<union> span p k) z (free_one_page p k mt z))"
proof -
  let ?z = "z\<lparr>all_unreclaimable := 0, pages_scanned := 0\<rparr>"
  let ?f = "free_one_page' p k mt ?z"
  have l: "lists_same z ?z" by (simp add: lists_same_def same_zone_def)
  have "buddy_inv ?z" "in_hand ?z p k" "\<not> PageHead (pages ?z p) \<and> \<not> PageTail (pages ?z p) \<or> compound ?z p k"
    using assms lists_same_inv [OF l] lists_same_hand [OF l] by (simp_all add: compound_def)
  note f = free_one_page'_correct [OF this, of mt]
  note m = lists_same_mod_state [of _ "2 ^ k" mt]
  have n: "NR_FREE_PAGES (mod_zone_freepage_state (2 ^ k) mt x) = NR_FREE_PAGES x + 2 ^ k" for x
    by (simp add: mod_zone_freepage_state_def Let_def)
  have t: "touched F z (mod_zone_freepage_state (2 ^ k) mt x) = touched F z x"
    "touched F ?z x = touched F z x" "same_zone ?z x = same_zone z x"
    "same_zone z (mod_zone_freepage_state (2 ^ k) mt x) = same_zone z x" for F x
    by (simp_all add: touched_def mod_zone_freepage_state_def Let_def same_zone_def)
  show ?thesis
    using f lists_same_free [OF l] lists_same_inv [OF m] lists_same_free [OF m]
    by (auto simp: free_one_page_def Let_def n t)
qed

text \<open>
  C2. Freeing a block (\<open>free_one_page\<close>, with its coalescing loop) keeps the allocator's invariant -
  the lists are duplicate free and counted by \<open>nr_free\<close>, free blocks are aligned, hole-free and
  disjoint, the page marks agree with the lists, and no two free buddies are left unmerged - and it
  adds exactly the pages of the block to the free pages and to the zone's counter.
\<close>

theorem free_one_page_correct:
  assumes "buddy_inv z" "in_hand z p k"
    and "\<not> PageHead (pages z p) \<and> \<not> PageTail (pages z p) \<or> compound z p k"
  shows "buddy_inv (free_one_page p k mt z)
    \<and> free_pages (free_one_page p k mt z) = free_pages z \<union> span p k
    \<and> NR_FREE_PAGES (free_one_page p k mt z) = NR_FREE_PAGES z + (if mt = MIGRATE_ISOLATE then 0 else 2 ^ k)"
  using free_one_page_full [OF assms] by blast

theorem free_one_page_correct_witness:
  "buddy_inv (free_one_page 8 3 MIGRATE_MOVABLE zone0) \<and> free_pages (free_one_page 8 3 MIGRATE_MOVABLE zone0) = span 8 3
   \<and> NR_FREE_PAGES (free_one_page 8 3 MIGRATE_MOVABLE zone0) = 8"
  using free_one_page_correct [OF zone0_inv hand8, of MIGRATE_MOVABLE] by simp

text \<open>
  \<open>__rmqueue_smallest\<close> either finds every list of the migrate type from the requested order
  upwards empty and changes nothing, or hands out the head of the first non-empty one: a block of
  the requested order whose pages were free, aligned, and are now exactly the pages missing from
  the free lists, with the invariant kept.
\<close>

theorem rmqueue_smallest_correct:
  assumes "buddy_inv z"
  shows "case rmqueue_smallest order mt z of
    (None, z') \<Rightarrow> z' = z \<and> (\<forall>k. order \<le> k \<longrightarrow> k < MAX_ORDER z \<longrightarrow> free_list z k mt = [])
  | (Some p, z') \<Rightarrow> buddy_inv z' \<and> in_hand z' p order \<and> span p order \<subseteq> free_pages z
      \<and> free_pages z' = free_pages z - span p order \<and> same_zone z z' \<and> touched (free_pages z) z z'
      \<and> (\<exists>k. order \<le> k \<and> k < MAX_ORDER z \<and> (\<forall>j. order \<le> j \<longrightarrow> j < k \<longrightarrow> free_list z j mt = [])
             \<and> (\<exists>ps. free_list z k mt = p # ps))"
  unfolding rmqueue_smallest_def by (rule rmqueue_smallest_from_correct) (auto intro: assms)

lemma zone1_alloc: "fst (rmqueue_smallest 1 MIGRATE_MOVABLE zone1) = Some 8"
  by code_simp

lemma zone1_alloc_eq:
  "rmqueue_smallest 1 MIGRATE_MOVABLE zone1 = (Some 8, snd (rmqueue_smallest 1 MIGRATE_MOVABLE zone1))"
  by (metis zone1_alloc prod.collapse)

theorem rmqueue_smallest_correct_witness:
  "\<exists>z'. rmqueue_smallest 1 MIGRATE_MOVABLE zone1 = (Some 8, z') \<and> buddy_inv z' \<and> free_pages z' = span 8 3 - span 8 1"
proof -
  obtain z' where r: "rmqueue_smallest 1 MIGRATE_MOVABLE zone1 = (Some 8, z')"
    using zone1_alloc by (metis prod.collapse)
  show ?thesis
    using rmqueue_smallest_correct [OF zone1_facts(1), of 1 MIGRATE_MOVABLE] r zone1_facts(2) by simp
qed

text \<open>
  C17. Allocating a block and freeing it again, with any migrate type, restores the allocator: the
  same blocks of the same orders are free, because a fully coalesced set of aligned blocks is
  determined by the pages it covers.
\<close>

theorem alloc_free_restores_blocks:
  assumes "buddy_inv z" "one_zone z" "rmqueue_smallest order mt z = (Some p, z')"
    and "\<not> PageHead (pages z' p) \<and> \<not> PageTail (pages z' p)"
  shows "blocks (free_one_page' p order mt' z') = blocks z"
proof -
  have a: "buddy_inv z'" "in_hand z' p order" "span p order \<subseteq> free_pages z"
    "free_pages z' = free_pages z - span p order" "same_zone z z'"
    using rmqueue_smallest_from_correct [OF assms(1) order_refl, of order mt] assms(3)
    by (simp_all add: rmqueue_smallest_def)
  note f = free_one_page'_correct [OF a(1,2) disjI1 [OF assms(4)], of mt']
  show ?thesis
    using f a by (intro blocks_canonical [OF assms(1) _ _ _ assms(2)]) (auto intro: same_zone_trans)
qed

lemma zone1_alloc_pages: "\<not> PageHead (pages (snd (rmqueue_smallest 1 MIGRATE_MOVABLE zone1)) 8)
  \<and> \<not> PageTail (pages (snd (rmqueue_smallest 1 MIGRATE_MOVABLE zone1)) 8)"
  by code_simp

theorem alloc_free_restores_blocks_witness:
  "blocks (free_one_page' 8 1 MIGRATE_UNMOVABLE (snd (rmqueue_smallest 1 MIGRATE_MOVABLE zone1))) = blocks zone1"
  by (rule alloc_free_restores_blocks [OF zone1_facts(1) zone1_one_zone zone1_alloc_eq zone1_alloc_pages])

lemma prep_tails:
  "pages (fold (\<lambda>i. upd_page (p + i) h) [a..<b] z) q =
    (if p + a \<le> q \<and> q < p + b then h (pages z q) else pages z q)"
proof (induction "b - a" arbitrary: a z)
  case (Suc d)
  then have "a < b" "d = b - Suc a" by simp_all
  with Suc.hyps(1) [of "Suc a"] show ?case by (auto simp: upt_conv_Cons upd_page_def)
qed auto

text \<open>
  Preparing a compound page and destroying it again reports no bad page, and clears every
  head and tail mark of the block.
\<close>

theorem compound_page_roundtrip:
  "fst (destroy_compound_page p k (prep_compound_page p k z)) = 0
   \<and> \<not> PageHead (pages (snd (destroy_compound_page p k (prep_compound_page p k z))) p)
   \<and> (\<forall>q\<in>span p k - {p}. \<not> PageTail (pages (snd (destroy_compound_page p k (prep_compound_page p k z))) q))"
proof -
  have "compound (prep_compound_page p k z) p k"
    by (auto simp: compound_def prep_compound_page_def prep_tails upd_page_def span_def)
  then show ?thesis using destroy_compound_page_ok by auto
qed

theorem compound_page_roundtrip_witness:
  "9 \<in> span 8 3 - {8::nat} \<and> \<not> PageTail (pages (snd (destroy_compound_page 8 3 (prep_compound_page 8 3 zone0))) 9)"
  using compound_page_roundtrip [of 8 3 zone0] by (simp add: span_def)

lemma higher_buddy_unaligned:
  assumes "bit p k" "2 ^ k dvd p" "Suc k < M"
  defines "c \<equiv> take_bit M (p - 2 ^ k)"
  shows "\<not> 2 ^ Suc k dvd p + buddy_of c (Suc k) - c"
proof
  assume d: "2 ^ Suc k dvd p + buddy_of c (Suc k) - c"
  have "2 ^ Suc k dvd (2 ^ M::nat)" using assms(3) by (intro le_imp_power_dvd) simp
  then have c: "2 ^ Suc k dvd c"
    using aligned_bit' [OF assms(2,1)] unfolding c_def take_bit_eq_mod by (rule dvd_mod [rotated])
  have b: "2 ^ Suc k dvd buddy_of c (Suc k)"
    using c bit_le [of c "Suc k"] by (simp add: buddy_of_def dvd_diff_nat del: power_Suc)
  have "c \<le> p" using idx_le [of M "p - 2 ^ k"] unfolding c_def by linarith
  then have "p + buddy_of c (Suc k) - c + c = p + buddy_of c (Suc k)" by simp
  then have "2 ^ Suc k dvd p" using d b c by (metis dvd_add dvd_add_left_iff)
  then have "\<not> bit p k" by (auto simp: bit_iff_odd elim!: dvdE)
  with assms(1) show False by simp
qed

text \<open>
  The check for a free buddy of the next order uses \<open>page\<close> where it computed \<open>higher_page\<close>:
  whenever the freed block is the upper one of its pair, the address it looks at is never the head
  of a block of that order, so the block always goes to the head of its list, also when its
  higher buddy is free and the comment asks for the tail.
\<close>

theorem upper_buddy_goes_to_head:
  assumes "buddy_inv z" "in_hand z p k" "bit p k" "Suc k < MAX_ORDER z"
    and "\<not> page_is_buddy z p (buddy_of p k) k" "\<not> PageHead (pages z p) \<and> \<not> PageTail (pages z p)"
  shows "free_list (free_one_page' p k mt z) k mt = p # free_list z k mt"
proof -
  let ?M = "MAX_ORDER z" and ?z = "set_page_order p k z"
  let ?i = "take_bit ?M p"
  let ?c = "take_bit ?M (p - 2 ^ k)"
  have al: "2 ^ k dvd p" using assms(2) by (simp add: in_hand_def block_ok_def)
  have kM: "k < ?M" using assms(4) by simp
  have co: "coalesce p ?i k 0 0 z = (p, ?i, k, buddy_of p k, buddy_of ?i k, z)"
    using assms(4,5) idx_buddy [OF kM, of p] less_diff_conv [of k ?M 1] by (simp add: coalesce.simps [of p] Let_def find_buddy_index_eq)
  have cc: "buddy_of ?i k AND ?i = ?c" using idx_combined_take [OF kM, of p] assms(3) by simp
  have "\<not> page_is_buddy ?z x (p + buddy_of ?c (Suc k) - ?c) (Suc k)" for x
  proof
    let ?h = "p + buddy_of ?c (Suc k) - ?c"
    assume h: "page_is_buddy ?z x ?h (Suc k)"
    then have "?h \<noteq> p" by (auto simp: page_is_buddy_def page_order_def set_page_order_def upd_page_def split: if_splits)
    with h have "PageBuddy (pages z ?h)" "page_private (pages z ?h) = Suc k"
      by (auto simp: page_is_buddy_def page_order_def set_page_order_def upd_page_def split: if_splits)
    then have "(?h, Suc k) \<in> blocks z" using assms(1) by (metis buddy_inv_def meta_inv_def)
    then have "2 ^ Suc k dvd ?h" using assms(1) unfolding buddy_inv_def block_inv_def block_ok_def by blast
    with higher_buddy_unaligned [OF assms(3) al assms(4)] show False by blast
  qed
  then have "free_one_page_core p k mt z = nr_free_inc k (list_add p k mt ?z)"
    by (simp add: free_one_page_core_def Let_def take_bit_eq_mask [symmetric] co cc find_buddy_index_eq)
  then show ?thesis using assms(6) by (simp add: free_one_page'_def block_defs)
qed

text \<open>
  Page 14 and the pair 8, 9 are free. Page 11 is the upper half of the pair 10, 11, whose higher
  buddy is the free pair 8, 9.
\<close>

definition zone2 :: zone where
  "zone2 = free_one_page' 8 1 MIGRATE_MOVABLE (free_one_page' 14 0 MIGRATE_MOVABLE zone0)"

theorem upper_buddy_goes_to_head_witness:
  "page_is_buddy zone2 10 8 1 \<and> free_list (free_one_page' 11 0 MIGRATE_MOVABLE zone2) 0 MIGRATE_MOVABLE = [11, 14]"
proof -
  have h: "in_hand zone0 14 0" by (simp add: in_hand_def block_ok_def span_def)
  note a = free_one_page'_correct [OF zone0_inv h disjI1, of MIGRATE_MOVABLE, simplified]
  have h1: "in_hand (free_one_page' 14 0 MIGRATE_MOVABLE zone0) 8 1"
    using a by (auto simp: in_hand_def block_ok_def span_def same_zone_def)
  have c1: "\<not> PageHead (pages (free_one_page' 14 0 MIGRATE_MOVABLE zone0) 8)
    \<and> \<not> PageTail (pages (free_one_page' 14 0 MIGRATE_MOVABLE zone0) 8)" by code_simp
  have b: "buddy_inv zone2" "free_pages zone2 = span 14 0 \<union> span 8 1" "same_zone zone0 zone2"
    using free_one_page'_correct [OF conjunct1 [OF a] h1 disjI1 [OF c1], of MIGRATE_MOVABLE] a
    by (auto simp: zone2_def intro: same_zone_trans)
  have h2: "in_hand zone2 11 0" using b by (auto simp: in_hand_def block_ok_def span_def same_zone_def)
  have "bit (11::nat) 0" by simp
  moreover have "Suc 0 < MAX_ORDER zone2" "\<not> page_is_buddy zone2 11 (buddy_of 11 0) 0"
    "\<not> PageHead (pages zone2 11) \<and> \<not> PageTail (pages zone2 11)" by code_simp+
  moreover have "free_list zone2 0 MIGRATE_MOVABLE = [14]" "page_is_buddy zone2 10 8 1" by code_simp+
  ultimately show ?thesis
    using upper_buddy_goes_to_head [OF b(1) h2, of MIGRATE_MOVABLE] by simp
qed

end
