(* ===== verification/Page_Pool.thy ===== *)
theory Page_Pool
  imports Prelude
begin

text \<open>
  The contract of a page allocator with its clients: \<open>alloc\<close> hands out a block of pages that were available
  and takes exactly these away, \<open>free\<close> makes a block available again. A client that holds blocks and
  allocates and frees in any order is run by \<open>pool_run\<close>; the lemma of the locale says that no page ever
  belongs to two owners and that none is lost.
\<close>

datatype 'm request = Alloc nat 'm | Free nat 'm

text \<open>
  The blocks that the client holds are a list of start and order. \<open>Free i m\<close> gives the \<open>i\<close>-th of them back
  (and does nothing when there is no such block), \<open>Alloc k m\<close> asks for a block of order \<open>k\<close>.
\<close>

fun pool_step :: "(nat \<Rightarrow> 'm \<Rightarrow> 'z \<Rightarrow> nat option \<times> 'z) \<Rightarrow> (nat \<Rightarrow> nat \<Rightarrow> 'm \<Rightarrow> 'z \<Rightarrow> 'z)
    \<Rightarrow> 'm request \<Rightarrow> (nat \<times> nat) list \<times> 'z \<Rightarrow> (nat \<times> nat) list \<times> 'z" where
  "pool_step alloc free (Alloc k m) (held, z) =
    (case alloc k m z of (None, z') \<Rightarrow> (held, z') | (Some p, z') \<Rightarrow> ((p, k) # held, z'))"
| "pool_step alloc free (Free i m) (held, z) =
    (if i < length held
     then (take i held @ drop (Suc i) held, free (fst (held ! i)) (snd (held ! i)) m z) else (held, z))"

definition pool_run :: "(nat \<Rightarrow> 'm \<Rightarrow> 'z \<Rightarrow> nat option \<times> 'z) \<Rightarrow> (nat \<Rightarrow> nat \<Rightarrow> 'm \<Rightarrow> 'z \<Rightarrow> 'z)
    \<Rightarrow> 'm request list \<Rightarrow> (nat \<times> nat) list \<times> 'z \<Rightarrow> (nat \<times> nat) list \<times> 'z" where
  "pool_run alloc free = fold (pool_step alloc free)"

fun separate :: "('b \<Rightarrow> 'p set) \<Rightarrow> 'p set \<Rightarrow> 'b list \<Rightarrow> bool" where
  "separate pgs A [] \<longleftrightarrow> True"
| "separate pgs A (b # bs) \<longleftrightarrow> pgs b \<inter> A = {} \<and> separate pgs (A \<union> pgs b) bs"

lemma separate_iff:
  "separate pgs A bs \<longleftrightarrow> (\<forall>b \<in> set bs. pgs b \<inter> A = {}) \<and> sorted_wrt (\<lambda>b c. pgs b \<inter> pgs c = {}) bs"
  by (induction bs arbitrary: A) auto

lemma separate_remove:
  "separate pgs A (xs @ b # ys) \<Longrightarrow> pgs b \<inter> A = {} \<and> separate pgs (A \<union> pgs b) (xs @ ys)"
proof (induction xs arbitrary: A)
  case (Cons x xs)
  then have "pgs b \<inter> (A \<union> pgs x) = {}" "separate pgs (A \<union> pgs x \<union> pgs b) (xs @ ys)" by auto
  with Cons.prems show ?case by (auto simp: ac_simps)
qed simp

locale page_pool =
  fixes alloc :: "nat \<Rightarrow> 'm \<Rightarrow> 'z \<Rightarrow> nat option \<times> 'z"
    and free :: "nat \<Rightarrow> nat \<Rightarrow> 'm \<Rightarrow> 'z \<Rightarrow> 'z"
    and pgs :: "nat \<times> nat \<Rightarrow> nat set"
    and avail :: "'z \<Rightarrow> nat set"
    and inv :: "'z \<Rightarrow> bool"
    and ok :: "'z \<Rightarrow> nat \<times> nat \<Rightarrow> bool"
  assumes alloc_some: "inv z \<Longrightarrow> alloc k m z = (Some p, z') \<Longrightarrow>
      inv z' \<and> ok z' (p, k) \<and> pgs (p, k) \<subseteq> avail z \<and> avail z' = avail z - pgs (p, k)"
    and alloc_none: "inv z \<Longrightarrow> alloc k m z = (None, z') \<Longrightarrow> z' = z"
    and alloc_keeps: "inv z \<Longrightarrow> alloc k m z = (Some p, z') \<Longrightarrow> ok z b \<Longrightarrow> ok z' b"
    and free_law: "inv z \<Longrightarrow> ok z (p, k) \<Longrightarrow> pgs (p, k) \<inter> avail z = {} \<Longrightarrow>
      inv (free p k m z) \<and> avail (free p k m z) = avail z \<union> pgs (p, k)"
    and free_keeps: "inv z \<Longrightarrow> ok z (p, k) \<Longrightarrow> pgs (p, k) \<inter> avail z = {} \<Longrightarrow> ok z b \<Longrightarrow> ok (free p k m z) b"
begin

definition books :: "nat set \<Rightarrow> (nat \<times> nat) list \<times> 'z \<Rightarrow> bool" where
  "books U c \<longleftrightarrow> inv (snd c) \<and> (\<forall>b \<in> set (fst c). ok (snd c) b) \<and> separate pgs (avail (snd c)) (fst c)
     \<and> avail (snd c) \<union> (\<Union>b \<in> set (fst c). pgs b) = U"

lemma books_alloc:
  assumes "books U (held, z)"
  shows "books U (pool_step alloc free (Alloc k m) (held, z))"
proof (cases "alloc k m z")
  case (Pair r z')
  have b: "inv z" "\<forall>b \<in> set held. ok z b" "separate pgs (avail z) held" "avail z \<union> (\<Union>b \<in> set held. pgs b) = U"
    using assms by (simp_all add: books_def)
  show ?thesis
  proof (cases r)
    case None
    with Pair have "z' = z" using alloc_none [OF b(1)] by simp
    with assms Pair None show ?thesis by simp
  next
    case (Some p)
    note a = alloc_some [OF b(1) Pair [unfolded Some]]
    have "avail z' \<union> pgs (p, k) = avail z" using a by blast
    with a b Pair Some alloc_keeps [OF b(1)] show ?thesis by (auto simp: books_def)
  qed
qed

lemma books_free:
  assumes "books U (held, z)"
  shows "books U (pool_step alloc free (Free i m) (held, z))"
proof (cases "i < length held")
  case True
  define b where "b = held ! i"
  let ?xs = "take i held" and ?ys = "drop (Suc i) held"
  have h: "held = ?xs @ b # ?ys" using True by (simp add: b_def id_take_nth_drop)
  then have s: "set held = insert b (set ?xs \<union> set ?ys)" by (metis Un_insert_right list.simps(15) set_append)
  have c: "inv z" "\<forall>b \<in> set held. ok z b" "separate pgs (avail z) held" "avail z \<union> (\<Union>b \<in> set held. pgs b) = U"
    using assms by (simp_all add: books_def)
  obtain p k where b: "b = (p, k)" by fastforce
  have e: "pgs (p, k) \<inter> avail z = {}" "separate pgs (avail z \<union> pgs (p, k)) (?xs @ ?ys)"
    using separate_remove [of pgs "avail z" ?xs b ?ys] c(3) h b by simp_all
  have oz: "ok z (p, k)" using c(2) s b by simp
  have "avail z \<union> pgs (p, k) \<union> (\<Union>b \<in> set ?xs \<union> set ?ys. pgs b) = U" using c(4) s b by auto
  moreover have "\<forall>b \<in> set ?xs \<union> set ?ys. ok (free p k m z) b" using c(2) s free_keeps [OF c(1) oz e(1)] by simp
  ultimately show ?thesis
    using free_law [OF c(1) oz e(1)] e(2) True b unfolding books_def b_def by simp
qed (use assms in simp)

lemma books_run: "books U c \<Longrightarrow> books U (pool_run alloc free rs c)"
  unfolding pool_run_def
proof (induction rs arbitrary: c)
  case (Cons r rs)
  obtain held z where "c = (held, z)" by fastforce
  with Cons have "books U (pool_step alloc free r c)" using books_alloc books_free by (cases r) auto
  with Cons.IH show ?case by simp
qed simp

text \<open>
  A client that starts without blocks holds at every moment blocks that are disjoint from each other and
  from the available pages, and together with these they make up the pages of the start.
\<close>

lemma no_double_booking:
  assumes "inv z" and "pool_run alloc free rs ([], z) = (held, z')"
  shows "inv z' \<and> (\<forall>b \<in> set held. pgs b \<inter> avail z' = {}) \<and> sorted_wrt (\<lambda>b c. pgs b \<inter> pgs c = {}) held
    \<and> avail z' \<union> (\<Union>b \<in> set held. pgs b) = avail z"
  using books_run [of "avail z" "([], z)" rs] assms by (simp add: books_def separate_iff)

end

end
