(* ===== verification/Page_Fallback.thy ===== *)
theory Page_Fallback
  imports Buddy Page_Pool
begin

text \<open>
  Migrate types and fallback lists of \<open>hw5/mm/page_alloc.c\<close>: stealing a block from another migrate
  type, moving the free pages of a page block, and \<open>__rmqueue\<close> with the reserve and the contiguous
  memory area. \<open>CONFIG_CMA\<close> and \<open>CONFIG_HOLES_IN_ZONE\<close> are on.
\<close>

section \<open>Page blocks\<close>

definition get_pageblock_migratetype :: "zone \<Rightarrow> nat \<Rightarrow> mtype" where
  "get_pageblock_migratetype z p = pageblock_mt z (p div 2 ^ pageblock_order z)"

definition set_pageblock_migratetype :: "nat \<Rightarrow> mtype \<Rightarrow> zone \<Rightarrow> zone" where
  "set_pageblock_migratetype p migratetype z =
    (let migratetype = (if page_group_by_mobility_disabled z then MIGRATE_UNMOVABLE else migratetype) in
     z\<lparr>pageblock_mt := (pageblock_mt z)(p div 2 ^ pageblock_order z := migratetype)\<rparr>)"

definition is_migrate_cma :: "mtype \<Rightarrow> bool" where
  "is_migrate_cma mt \<longleftrightarrow> mt = MIGRATE_CMA"

fun change_pageblock_loop :: "nat \<Rightarrow> nat \<Rightarrow> mtype \<Rightarrow> zone \<Rightarrow> zone" where
  "change_pageblock_loop 0 p migratetype z = z"
| "change_pageblock_loop (Suc n) p migratetype z =
    change_pageblock_loop n (p + 2 ^ pageblock_order z) migratetype (set_pageblock_migratetype p migratetype z)"

definition change_pageblock_range :: "nat \<Rightarrow> nat \<Rightarrow> mtype \<Rightarrow> zone \<Rightarrow> zone" where
  "change_pageblock_range p start_order migratetype z =
    change_pageblock_loop (2 ^ (start_order - pageblock_order z)) p migratetype z"

section \<open>Moving free pages between lists\<close>

text \<open>The rows of the C array have four entries; the ones not written are zero, \<open>MIGRATE_UNMOVABLE\<close>.\<close>

fun fallbacks :: "mtype \<Rightarrow> mtype list" where
  "fallbacks MIGRATE_UNMOVABLE = [MIGRATE_RECLAIMABLE, MIGRATE_MOVABLE, MIGRATE_RESERVE, MIGRATE_UNMOVABLE]"
| "fallbacks MIGRATE_RECLAIMABLE = [MIGRATE_UNMOVABLE, MIGRATE_MOVABLE, MIGRATE_RESERVE, MIGRATE_UNMOVABLE]"
| "fallbacks MIGRATE_MOVABLE = [MIGRATE_CMA, MIGRATE_RECLAIMABLE, MIGRATE_UNMOVABLE, MIGRATE_RESERVE]"
| "fallbacks MIGRATE_CMA = [MIGRATE_RESERVE, MIGRATE_UNMOVABLE, MIGRATE_UNMOVABLE, MIGRATE_UNMOVABLE]"
| "fallbacks MIGRATE_RESERVE = [MIGRATE_RESERVE, MIGRATE_UNMOVABLE, MIGRATE_UNMOVABLE, MIGRATE_UNMOVABLE]"
| "fallbacks MIGRATE_ISOLATE = [MIGRATE_RESERVE, MIGRATE_UNMOVABLE, MIGRATE_UNMOVABLE, MIGRATE_UNMOVABLE]"

definition list_move :: "nat \<Rightarrow> nat \<Rightarrow> mtype \<Rightarrow> zone \<Rightarrow> zone" where
  "list_move p k mt z = list_add p k mt (list_del p z)"

function move_freepages :: "nat \<Rightarrow> nat \<Rightarrow> mtype \<Rightarrow> nat \<Rightarrow> zone \<Rightarrow> nat \<times> zone" where
  "move_freepages p end_page migratetype pages_moved z =
    (if p \<le> end_page then
       if \<not> pfn_valid_within z p then move_freepages (p + 1) end_page migratetype pages_moved z
       else if \<not> PageBuddy (pages z p) then move_freepages (p + 1) end_page migratetype pages_moved z
       else
         let order = page_order z p in
         move_freepages (p + 2 ^ order) end_page migratetype (pages_moved + 2 ^ order) (list_move p order migratetype z)
     else (pages_moved, z))"
  by pat_completeness auto
termination
  by (relation "measure (\<lambda>(p, e, mt, n, z). Suc e - p)") (auto intro: diff_less_mono2)

declare move_freepages.simps [simp del]

definition move_freepages_block :: "nat \<Rightarrow> mtype \<Rightarrow> zone \<Rightarrow> nat \<times> zone" where
  "move_freepages_block p migratetype z =
    (let start_pfn = p - p mod 2 ^ pageblock_order z;
         end_page = start_pfn + 2 ^ pageblock_order z - 1;
         start_page = (if start_pfn < zone_start_pfn z then p else start_pfn) in
     if end_page \<ge> zone_start_pfn z + spanned_pages z then (0, z)
     else move_freepages start_page end_page migratetype 0 z)"

section \<open>Allocation with fallback\<close>

text \<open>One successful try of \<open>__rmqueue_fallback\<close>: the block \<open>p\<close> heads a list of \<open>migratetype\<close>.\<close>

definition claim_block :: "nat \<Rightarrow> nat \<Rightarrow> mtype \<Rightarrow> mtype \<Rightarrow> zone \<Rightarrow> mtype \<times> zone" where
  "claim_block p current_order migratetype start_migratetype z =
    (if \<not> is_migrate_cma migratetype \<and>
        (current_order \<ge> pageblock_order z div 2 \<or> start_migratetype = MIGRATE_RECLAIMABLE
         \<or> page_group_by_mobility_disabled z) then
       let (n, z) = move_freepages_block p start_migratetype z;
           z = (if n \<ge> 2 ^ (pageblock_order z - 1) \<or> page_group_by_mobility_disabled z
                then set_pageblock_migratetype p start_migratetype z else z) in
       (start_migratetype, z)
     else (migratetype, z))"

definition steal_block :: "nat \<Rightarrow> nat \<Rightarrow> nat \<Rightarrow> mtype \<Rightarrow> mtype \<Rightarrow> zone \<Rightarrow> zone" where
  "steal_block p current_order order migratetype start_migratetype z =
    (let z = nr_free_dec current_order z;
         (migratetype, z) = claim_block p current_order migratetype start_migratetype z;
         z = rmv_page_order p (list_del p z);
         z = (if current_order \<ge> pageblock_order z \<and> \<not> is_migrate_cma migratetype
              then change_pageblock_range p current_order start_migratetype z else z) in
     expand p order current_order (if is_migrate_cma migratetype then migratetype else start_migratetype) z)"

fun rmqueue_fallback_types :: "mtype list \<Rightarrow> nat \<Rightarrow> nat \<Rightarrow> mtype \<Rightarrow> zone \<Rightarrow> (nat \<times> zone) option" where
  "rmqueue_fallback_types [] current_order order start_migratetype z = None"
| "rmqueue_fallback_types (migratetype # row) current_order order start_migratetype z =
    (if migratetype = MIGRATE_RESERVE then None
     else case free_list z current_order migratetype of
       [] \<Rightarrow> rmqueue_fallback_types row current_order order start_migratetype z
     | p # _ \<Rightarrow> Some (p, steal_block p current_order order migratetype start_migratetype z))"

text \<open>\<open>n\<close> is the loop variable \<open>current_order\<close> plus one.\<close>

fun rmqueue_fallback_from :: "nat \<Rightarrow> nat \<Rightarrow> mtype \<Rightarrow> zone \<Rightarrow> nat option \<times> zone" where
  "rmqueue_fallback_from 0 order start_migratetype z = (None, z)"
| "rmqueue_fallback_from (Suc current_order) order start_migratetype z =
    (if current_order \<ge> order then
       (case rmqueue_fallback_types (fallbacks start_migratetype) current_order order start_migratetype z of
          None \<Rightarrow> rmqueue_fallback_from current_order order start_migratetype z
        | Some (p, z') \<Rightarrow> (Some p, z'))
     else (None, z))"

definition rmqueue_fallback :: "nat \<Rightarrow> mtype \<Rightarrow> zone \<Rightarrow> nat option \<times> zone" where
  "rmqueue_fallback order start_migratetype z = rmqueue_fallback_from (MAX_ORDER z) order start_migratetype z"

definition rmqueue :: "nat \<Rightarrow> mtype \<Rightarrow> zone \<Rightarrow> nat option \<times> zone" where
  "rmqueue order migratetype z =
    (case rmqueue_smallest order migratetype z of
       (Some p, z) \<Rightarrow> (Some p, z)
     | (None, z) \<Rightarrow>
         if migratetype \<noteq> MIGRATE_RESERVE then
           (case rmqueue_fallback order migratetype z of
              (Some p, z) \<Rightarrow> (Some p, z)
            | (None, z) \<Rightarrow> rmqueue_smallest order MIGRATE_RESERVE z)
         else (None, z))"

definition rmqueue_cma :: "nat \<Rightarrow> mtype \<Rightarrow> zone \<Rightarrow> nat option \<times> zone" where
  "rmqueue_cma order migratetype z =
    (case (if migratetype = MIGRATE_MOVABLE \<and> \<not> cma_alloc z then rmqueue_smallest order MIGRATE_CMA z else (None, z)) of
       (Some p, z) \<Rightarrow> (Some p, z)
     | (None, z) \<Rightarrow> rmqueue order migratetype z)"

section \<open>Moving keeps the blocks\<close>

lemma list_move_eq:
  assumes "meta_inv z" "PageBuddy (pages z p)"
  shows "list_move p (page_order z p) mt z = add_block False p (page_order z p) mt (del_block p (page_order z p) z)"
  using assms by (intro zone.equality) (auto simp: list_move_def page_order_def block_defs fun_eq_iff)

lemma list_move_keeps:
  assumes "buddy_inv z" "PageBuddy (pages z p)"
  shows "buddy_inv (list_move p (page_order z p) mt z)"
    "blocks (list_move p (page_order z p) mt z) = blocks z"
    "same_zone z (list_move p (page_order z p) mt z)"
proof -
  let ?k = "page_order z p"
  let ?d = "del_block p ?k z"
  have m: "meta_inv z" using assms(1) by (simp add: buddy_inv_def)
  have b: "(p, ?k) \<in> blocks z" using m assms(2) by (simp add: meta_inv_def page_order_def)
  then obtain mt0 where p: "p \<in> set (free_list z ?k mt0)" by (auto simp: blocks_def)
  note d = buddy_inv_del [OF assms(1) p]
  note e = list_move_eq [OF m assms(2), of mt]
  have "Suc ?k < MAX_ORDER z \<Longrightarrow> \<not> page_is_buddy ?d p (buddy_of p ?k) ?k"
    using assms(1) b del_block_same [of z p ?k]
    by (auto simp: buddy_inv_def page_is_buddy_iff meta_inv_del coalesced_def same_zone_def)
  then show "buddy_inv (list_move p ?k mt z)"
    unfolding e using buddy_inv_add [OF d(1,2)] del_block_same [of z p ?k] by (simp add: same_zone_def)
  have "block_inv z" using assms(1) by (simp add: buddy_inv_def)
  then show "blocks (list_move p ?k mt z) = blocks z"
    unfolding e using b blocks_unique [of z p] by auto
  show "same_zone z (list_move p ?k mt z)"
    by (simp add: list_move_def list_add_def list_del_def same_zone_def)
qed

lemma pages_list_move [simp]: "pages (list_move p k mt z) = pages z"
  by (simp add: list_move_def list_add_def list_del_def)

lemma move_freepages_keeps:
  assumes "buddy_inv z" "move_freepages p e mt n z = (n', z')"
  shows "buddy_inv z' \<and> blocks z' = blocks z \<and> same_zone z z' \<and> pages z' = pages z"
  using assms
proof (induction p e mt n z rule: move_freepages.induct)
  case (1 p e mt n z)
  show ?case
  proof (cases "p \<le> e")
    case False
    with 1(4,5) show ?thesis by (simp add: move_freepages.simps)
  next
    case p: True
    show ?thesis
    proof (cases "pfn_valid_within z p \<and> PageBuddy (pages z p)")
      case True
      note k = list_move_keeps [OF 1(4), of p mt]
      have step: "move_freepages (p + 2 ^ page_order z p) e mt (n + 2 ^ page_order z p)
          (list_move p (page_order z p) mt z) = (n', z')"
        using 1(5) p True by (subst (asm) move_freepages.simps) (simp add: Let_def)
      show ?thesis using 1(3) [OF p _ _ refl k(1) step] True k(2,3) by (auto intro: same_zone_trans)
    next
      case False
      then show ?thesis using 1(1,2,4,5) p
        by (subst (asm) (3) move_freepages.simps) (auto split: if_splits)
    qed
  qed
qed

lemma set_pageblock_same [simp]: "lists_same z (set_pageblock_migratetype p mt z)"
  by (simp add: set_pageblock_migratetype_def lists_same_def same_zone_def Let_def)

lemma pages_set_pageblock [simp]: "pages (set_pageblock_migratetype p mt z) = pages z"
  by (simp add: set_pageblock_migratetype_def Let_def)

lemma change_pageblock_loop_same:
  "lists_same z (change_pageblock_loop n p mt z) \<and> pages (change_pageblock_loop n p mt z) = pages z"
proof (induction n arbitrary: p z)
  case (Suc n)
  show ?case
    using lists_same_trans [OF set_pageblock_same conjunct1 [OF Suc.IH]] Suc.IH by simp
qed simp

lemma change_pageblock_range_same [simp]:
  "lists_same z (change_pageblock_range p k mt z)" "pages (change_pageblock_range p k mt z) = pages z"
  by (simp_all add: change_pageblock_range_def change_pageblock_loop_same)

text \<open>The early \<open>nr_free--\<close> of the fallback path commutes with what follows it.\<close>

lemma nr_free_dec_simps [simp]:
  "MAX_ORDER (nr_free_dec k z) = MAX_ORDER z" "pages (nr_free_dec k z) = pages z"
  "pfn_valid_within (nr_free_dec k z) = pfn_valid_within z" "page_order (nr_free_dec k z) = page_order z"
  "pageblock_order (nr_free_dec k z) = pageblock_order z" "zone_start_pfn (nr_free_dec k z) = zone_start_pfn z"
  "spanned_pages (nr_free_dec k z) = spanned_pages z"
  "page_group_by_mobility_disabled (nr_free_dec k z) = page_group_by_mobility_disabled z"
  by (auto simp: nr_free_dec_def page_order_def)

lemma nr_free_dec_move: "list_move p j mt (nr_free_dec k z) = nr_free_dec k (list_move p j mt z)"
  and nr_free_dec_block: "set_pageblock_migratetype p mt (nr_free_dec k z) = nr_free_dec k (set_pageblock_migratetype p mt z)"
  and nr_free_dec_del: "rmv_page_order p (list_del p (nr_free_dec k z)) = del_block p k z"
  by (simp_all add: list_move_def block_defs set_pageblock_migratetype_def Let_def)

lemma move_freepages_nr_free:
  "move_freepages p e mt n (nr_free_dec k z) = apsnd (nr_free_dec k) (move_freepages p e mt n z)"
proof (induction p e mt n z rule: move_freepages.induct)
  case (1 p e mt n z)
  then show ?case
    by (subst (1 2) move_freepages.simps) (auto simp: Let_def nr_free_dec_move)
qed

lemma move_freepages_block_keeps:
  assumes "buddy_inv z" "move_freepages_block p mt z = (n, z')"
  shows "buddy_inv z' \<and> blocks z' = blocks z \<and> same_zone z z' \<and> pages z' = pages z
    \<and> move_freepages_block p mt (nr_free_dec k z) = (n, nr_free_dec k z')"
  using assms move_freepages_keeps [OF assms(1)]
  by (auto simp: move_freepages_block_def Let_def move_freepages_nr_free split: if_splits)

lemma claim_block_keeps:
  assumes "buddy_inv z" "claim_block p c mt st z = (mt', z')"
  shows "buddy_inv z' \<and> blocks z' = blocks z \<and> same_zone z z' \<and> pages z' = pages z
    \<and> claim_block p c mt st (nr_free_dec k z) = (mt', nr_free_dec k z')"
proof -
  obtain n zv where mv: "move_freepages_block p st z = (n, zv)" by fastforce
  note v = move_freepages_block_keeps [OF assms(1) mv, of k]
  have sv: "lists_same zv (set_pageblock_migratetype p st zv)" by simp
  have "same_zone z (set_pageblock_migratetype p st zv)"
    using v sv by (auto simp: lists_same_def intro: same_zone_trans)
  then show ?thesis
    using assms v mv lists_same_inv [OF sv] lists_same_blocks [OF sv]
    by (auto simp: claim_block_def nr_free_dec_block split: if_splits)
qed

lemma steal_block_shape:
  assumes "buddy_inv z"
  shows "\<exists>zm z4 mt'. buddy_inv zm \<and> blocks zm = blocks z \<and> same_zone z zm \<and> touched {p} z z4
    \<and> lists_same (del_block p c zm) z4 \<and> steal_block p c order mt st z = expand p order c mt' z4"
proof -
  obtain mt1 zm where cl: "claim_block p c mt st z = (mt1, zm)" by fastforce
  note m = claim_block_keeps [OF assms cl, of c]
  define z4 where "z4 = (if c \<ge> pageblock_order (del_block p c zm) \<and> \<not> is_migrate_cma mt1
      then change_pageblock_range p c st (del_block p c zm) else del_block p c zm)"
  have l: "lists_same (del_block p c zm) z4" by (simp add: z4_def)
  have "pages z4 = pages (del_block p c zm)" by (simp add: z4_def)
  then have "touched {p} z z4" using m by (auto simp: touched_def pages_del strip_def)
  have "steal_block p c order mt st z = expand p order c (if is_migrate_cma mt1 then mt1 else st) z4"
    unfolding steal_block_def z4_def using m by (simp add: Let_def nr_free_dec_del)
  with m l \<open>touched {p} z z4\<close> show ?thesis by blast
qed

lemma steal_block_correct:
  assumes "buddy_inv z" "(p, c) \<in> blocks z" "order \<le> c" and z': "z' = steal_block p c order mt st z"
  shows "buddy_inv z' \<and> in_hand z' p order \<and> span p order \<subseteq> free_pages z
    \<and> free_pages z' = free_pages z - span p order \<and> same_zone z z' \<and> touched (free_pages z) z z'"
proof -
  obtain zm z4 mt' where s: "buddy_inv zm" "blocks zm = blocks z" "same_zone z zm"
    "lists_same (del_block p c zm) z4" "z' = expand p order c mt' z4" "touched {p} z z4"
    using steal_block_shape [OF assms(1)] unfolding z' by metis
  obtain m where "p \<in> set (free_list zm c m)" using assms(2) unfolding s(2) [symmetric] by (auto simp: blocks_def)
  note d = buddy_inv_del [OF s(1) this]
  have fz: "free_pages zm = free_pages z" by (simp add: free_pages_def s(2))
  have "buddy_inv z4" "in_hand z4 p c" "free_pages z4 = free_pages z - span p c"
    using d lists_same_inv [OF s(4)] lists_same_hand [OF s(4)] lists_same_free [OF s(4)] fz by simp_all
  note e = expand_correct [OF this(1,2) assms(3), of mt'] and f = this(3)
  have sub: "span p order \<subseteq> span p c" using assms(3) by (auto simp: span_def intro: less_le_trans)
  have "same_zone z z4" using s(3,4) same_zone_trans [OF s(3) del_block_same [of zm p c]]
    by (auto simp: lists_same_def intro: same_zone_trans)
  moreover have "touched (free_pages z) z z'"
    using e blocks_span [OF assms(2)] unfolding s(5)
    by - (rule touched_trans [OF s(6), of "span p c - span p order"], auto)
  ultimately show ?thesis using e f sub blocks_span [OF assms(2)] s(5) by (auto intro: same_zone_trans)
qed

text \<open>What an allocation of one block from the buddy lists promises.\<close>

definition took :: "zone \<Rightarrow> nat \<Rightarrow> nat \<Rightarrow> zone \<Rightarrow> bool" where
  "took z p order z' \<longleftrightarrow> buddy_inv z' \<and> in_hand z' p order \<and> span p order \<subseteq> free_pages z
     \<and> free_pages z' = free_pages z - span p order \<and> same_zone z z' \<and> touched (free_pages z) z z'"

lemma rmqueue_smallest_took:
  assumes "buddy_inv z" "rmqueue_smallest order mt z = (r, z')"
  shows "case r of None \<Rightarrow> z' = z \<and> (\<forall>k\<ge>order. k < MAX_ORDER z \<longrightarrow> free_list z k mt = [])
         | Some p \<Rightarrow> took z p order z'"
  using rmqueue_smallest_from_correct [OF assms(1) order_refl, of order mt] assms(2)
  by (cases r) (simp_all add: rmqueue_smallest_def took_def)

lemma fallback_types_correct:
  assumes "buddy_inv z" "order \<le> c"
  shows "case rmqueue_fallback_types row c order st z of
      None \<Rightarrow> \<forall>m\<in>set (takeWhile (\<lambda>m. m \<noteq> MIGRATE_RESERVE) row). free_list z c m = []
    | Some (p, z') \<Rightarrow> took z p order z'"
proof (induction row)
  case (Cons m row)
  show ?case
  proof (cases "m = MIGRATE_RESERVE \<or> free_list z c m = []")
    case True
    with Cons show ?thesis by (auto split: option.splits)
  next
    case False
    then obtain p ps where p: "free_list z c m = p # ps" by (auto simp: neq_Nil_conv)
    then have "(p, c) \<in> blocks z" by (auto simp: blocks_def intro: exI [of _ m])
    from steal_block_correct [OF assms(1) this assms(2) refl] False p show ?thesis by (simp add: took_def)
  qed
qed simp

lemma fallback_from_correct:
  assumes "buddy_inv z"
  shows "case rmqueue_fallback_from n order st z of
      (None, z') \<Rightarrow> z' = z \<and> (\<forall>k\<ge>order. k < n \<longrightarrow>
         (\<forall>m\<in>set (takeWhile (\<lambda>m. m \<noteq> MIGRATE_RESERVE) (fallbacks st)). free_list z k m = []))
    | (Some p, z') \<Rightarrow> took z p order z'"
proof (induction n)
  case (Suc c)
  show ?case
  proof (cases "order \<le> c")
    case True
    from fallback_types_correct [OF assms True, of "fallbacks st" st] Suc True show ?thesis
      by (auto split: option.splits prod.splits simp: less_Suc_eq)
  qed (auto simp: less_Suc_eq)
qed simp

lemma rmqueue_took:
  assumes "buddy_inv z" "rmqueue order mt z = (r, z')"
  shows "case r of
      None \<Rightarrow> z' = z \<and> (\<forall>k\<ge>order. k < MAX_ORDER z \<longrightarrow> free_list z k mt = [] \<and> free_list z k MIGRATE_RESERVE = []
         \<and> (\<forall>m\<in>set (takeWhile (\<lambda>m. m \<noteq> MIGRATE_RESERVE) (fallbacks mt)). free_list z k m = []))
    | Some p \<Rightarrow> took z p order z'"
proof -
  obtain r1 z1 where s: "rmqueue_smallest order mt z = (r1, z1)" by fastforce
  note a = rmqueue_smallest_took [OF assms(1) s]
  show ?thesis
  proof (cases r1)
    case (Some p)
    then show ?thesis using a s assms(2) by (auto simp: rmqueue_def)
  next
    case None
    then have z1: "z1 = z" using a by simp
    obtain r2 z2 where f: "rmqueue_fallback order mt z = (r2, z2)" by fastforce
    note b = fallback_from_correct [OF assms(1), where n = "MAX_ORDER z" and order = order and st = mt, folded rmqueue_fallback_def, unfolded f]
    obtain r3 z3 where r: "rmqueue_smallest order MIGRATE_RESERVE z = (r3, z3)" by fastforce
    note c = rmqueue_smallest_took [OF assms(1) r]
    show ?thesis
    proof (cases "mt = MIGRATE_RESERVE")
      case True
      then show ?thesis using a s None z1 assms(2) by (auto simp: rmqueue_def)
    next
      case False
      show ?thesis using a b c False None s f r z1 assms(2)
        by (cases r2; cases r3) (auto simp: rmqueue_def)
    qed
  qed
qed

lemma rmqueue_any_took:
  assumes "buddy_inv z" "(if cma then rmqueue_cma order mt z else rmqueue order mt z) = (r, z')"
  shows "case r of None \<Rightarrow> z' = z | Some p \<Rightarrow> took z p order z'"
proof (cases cma)
  case False
  then show ?thesis using assms rmqueue_took [OF assms(1), of order mt r z'] by (cases r) auto
next
  case True
  obtain r1 z1 where c: "(if mt = MIGRATE_MOVABLE \<and> \<not> cma_alloc z then rmqueue_smallest order MIGRATE_CMA z else (None, z)) = (r1, z1)"
    by fastforce
  have 1: "case r1 of None \<Rightarrow> z1 = z | Some p \<Rightarrow> took z p order z1"
    using c rmqueue_smallest_took [OF assms(1), of order MIGRATE_CMA r1 z1] by (cases r1) (auto split: if_splits)
  show ?thesis
  proof (cases r1)
    case None
    then have "rmqueue order mt z = (r, z')" using 1 assms(2) True c by (simp add: rmqueue_cma_def)
    then show ?thesis using rmqueue_took [OF assms(1), of order mt r z'] by (cases r) auto
  next
    case (Some p)
    then show ?thesis using 1 assms(2) True c by (auto simp: rmqueue_cma_def)
  qed
qed

section \<open>The allocator as a pool of pages\<close>

definition plain :: "zone \<Rightarrow> nat set \<Rightarrow> bool" where
  "plain z S \<longleftrightarrow> (\<forall>q\<in>S. \<not> PageHead (pages z q) \<and> \<not> PageTail (pages z q))"

definition pool_inv :: "zone \<Rightarrow> bool" where
  "pool_inv z \<longleftrightarrow> buddy_inv z \<and> plain z (free_pages z)"

definition pool_ok :: "zone \<Rightarrow> nat \<times> nat \<Rightarrow> bool" where
  "pool_ok z b \<longleftrightarrow> block_ok z (fst b) (snd b) \<and> plain z (span (fst b) (snd b))"

lemma plain_touched: "touched F z z' \<Longrightarrow> plain z' S \<longleftrightarrow> plain z S"
proof -
  assume t: "touched F z z'"
  have "PageHead (pages z' q) = PageHead (pages z q) \<and> PageTail (pages z' q) = PageTail (pages z q)" for q
    using strip_fields [of "pages z' q" "pages z q"] t by (simp add: touched_def)
  then show ?thesis by (simp add: plain_def)
qed

lemma pool_ok_touched: "touched F z z' \<Longrightarrow> same_zone z z' \<Longrightarrow> pool_ok z' b \<longleftrightarrow> pool_ok z b"
  by (simp add: pool_ok_def plain_touched block_ok_same)

lemma pool_took:
  assumes "pool_inv z" "took z p k z'"
  shows "pool_inv z' \<and> pool_ok z' (p, k) \<and> span p k \<subseteq> free_pages z \<and> free_pages z' = free_pages z - span p k"
    and "pool_ok z b \<Longrightarrow> pool_ok z' b"
proof -
  have t: "buddy_inv z'" "in_hand z' p k" "span p k \<subseteq> free_pages z" "free_pages z' = free_pages z - span p k"
    "same_zone z z'" "touched (free_pages z) z z'"
    using assms(2) by (simp_all add: took_def)
  show "pool_ok z b \<Longrightarrow> pool_ok z' b" using pool_ok_touched [OF t(6,5)] by simp
  have "plain z' (free_pages z)" using assms(1) plain_touched [OF t(6)] by (simp add: pool_inv_def)
  with t show "pool_inv z' \<and> pool_ok z' (p, k) \<and> span p k \<subseteq> free_pages z \<and> free_pages z' = free_pages z - span p k"
    by (auto simp: pool_inv_def pool_ok_def plain_def in_hand_def)
qed

lemma pool_free:
  assumes "pool_inv z" "pool_ok z (p, k)" "span p k \<inter> free_pages z = {}"
  shows "pool_inv (free_one_page p k mt z) \<and> free_pages (free_one_page p k mt z) = free_pages z \<union> span p k"
    and "pool_ok z b \<Longrightarrow> pool_ok (free_one_page p k mt z) b"
proof -
  have n: "\<not> PageHead (pages z p) \<and> \<not> PageTail (pages z p)" using assms(2) by (simp add: pool_ok_def plain_def)
  have "in_hand z p k" using assms(2,3) by (simp add: in_hand_def pool_ok_def)
  note f = free_one_page_full [OF conjunct1 [OF assms(1) [unfolded pool_inv_def]] this disjI1 [OF n], of mt]
  then have t: "touched (free_pages z \<union> span p k) z (free_one_page p k mt z)" using n by blast
  show "pool_ok z b \<Longrightarrow> pool_ok (free_one_page p k mt z) b" using pool_ok_touched [OF t] f by blast
  have "plain (free_one_page p k mt z) (free_pages z \<union> span p k)"
    using assms(1,2) unfolding plain_touched [OF t] by (auto simp: pool_inv_def pool_ok_def plain_def)
  with f show "pool_inv (free_one_page p k mt z) \<and> free_pages (free_one_page p k mt z) = free_pages z \<union> span p k"
    by (simp add: pool_inv_def)
qed

lemma page_poolI:
  assumes "\<And>k m z r z'. buddy_inv z \<Longrightarrow> alloc k m z = (r, z') \<Longrightarrow> case r of None \<Rightarrow> z' = z | Some p \<Rightarrow> took z p k z'"
  shows "page_pool alloc free_one_page (\<lambda>(p, k). span p k) free_pages pool_inv pool_ok"
proof unfold_locales
  fix z z' k m p b
  assume z: "pool_inv z" and a: "alloc k m z = (Some p, z')"
  then have "took z p k z'" using assms [of z k m "Some p"] by (simp add: pool_inv_def)
  note t = pool_took [OF z this]
  show "pool_inv z' \<and> pool_ok z' (p, k) \<and> (case (p, k) of (p, k) \<Rightarrow> span p k) \<subseteq> free_pages z
      \<and> free_pages z' = free_pages z - (case (p, k) of (p, k) \<Rightarrow> span p k)"
    using t(1) by simp
  show "pool_ok z b \<Longrightarrow> pool_ok z' b" by (rule t(2))
next
  fix z z' k m
  assume "pool_inv z" "alloc k m z = (None, z')"
  then show "z' = z" using assms [of z k m None] by (simp add: pool_inv_def)
qed (use pool_free in simp_all)

interpretation smallest_pool: page_pool rmqueue_smallest free_one_page "\<lambda>(p, k). span p k" free_pages pool_inv pool_ok
  by (rule page_poolI) (use rmqueue_smallest_took in \<open>fastforce split: option.splits\<close>)

interpretation rmqueue_pool: page_pool rmqueue free_one_page "\<lambda>(p, k). span p k" free_pages pool_inv pool_ok
  by (rule page_poolI) (use rmqueue_any_took [where cma = False] in simp)

interpretation cma_pool: page_pool rmqueue_cma free_one_page "\<lambda>(p, k). span p k" free_pages pool_inv pool_ok
  by (rule page_poolI) (use rmqueue_any_took [where cma = True] in simp)

section \<open>Properties\<close>

text \<open>
  C7. \<open>__rmqueue\<close> fails only when the lists of the requested migrate type, of all its fallback
  types and of the reserve are empty from the requested order upwards, and then changes nothing;
  otherwise the block it returns - found directly, stolen from another migrate type, or taken
  from the reserve - was free, is aligned, and is exactly what leaves the free pages, with the
  allocator's invariant kept.
\<close>

theorem rmqueue_correct:
  assumes "buddy_inv z"
  shows "case rmqueue order mt z of
      (None, z') \<Rightarrow> z' = z \<and> (\<forall>k\<ge>order. k < MAX_ORDER z \<longrightarrow> free_list z k mt = [] \<and> free_list z k MIGRATE_RESERVE = []
         \<and> (\<forall>m\<in>set (takeWhile (\<lambda>m. m \<noteq> MIGRATE_RESERVE) (fallbacks mt)). free_list z k m = []))
    | (Some p, z') \<Rightarrow> buddy_inv z' \<and> in_hand z' p order \<and> span p order \<subseteq> free_pages z
         \<and> free_pages z' = free_pages z - span p order"
proof -
  obtain r z' where r: "rmqueue order mt z = (r, z')" by fastforce
  from rmqueue_took [OF assms r] r show ?thesis by (cases r) (auto simp: took_def)
qed

lemma zone1_rmqueue: "fst (rmqueue 2 MIGRATE_UNMOVABLE zone1) = Some 8"
  by code_simp

theorem rmqueue_correct_witness:
  "\<exists>z'. rmqueue 2 MIGRATE_UNMOVABLE zone1 = (Some 8, z') \<and> buddy_inv z' \<and> free_pages z' = span 8 3 - span 8 2"
proof -
  obtain z' where "rmqueue 2 MIGRATE_UNMOVABLE zone1 = (Some 8, z')"
    using zone1_rmqueue by (metis prod.collapse)
  with rmqueue_correct [OF zone1_facts(1), of 2 MIGRATE_UNMOVABLE] zone1_facts(2) show ?thesis by simp
qed

text \<open>
  \<open>__rmqueue_cma\<close> serves a movable request from the contiguous memory area first, whenever that
  area has a fitting block and no contiguous allocation is under way, and otherwise behaves as
  \<open>__rmqueue\<close>.
\<close>

theorem rmqueue_cma_prefers_cma:
  assumes "buddy_inv z"
  shows "rmqueue_cma order mt z =
    (if mt = MIGRATE_MOVABLE \<and> \<not> cma_alloc z \<and> (\<exists>k\<ge>order. k < MAX_ORDER z \<and> free_list z k MIGRATE_CMA \<noteq> [])
     then rmqueue_smallest order MIGRATE_CMA z else rmqueue order mt z)"
proof -
  obtain r z' where r: "rmqueue_smallest order MIGRATE_CMA z = (r, z')" by fastforce
  have "r \<noteq> None" if "k \<ge> order" "k < MAX_ORDER z" "free_list z k MIGRATE_CMA \<noteq> []" for k
    using that rmqueue_smallest_took [OF assms r] by (cases r) auto
  moreover have "\<exists>k\<ge>order. k < MAX_ORDER z \<and> free_list z k MIGRATE_CMA \<noteq> []" if "r = Some p" for p
    using rmqueue_smallest_from_correct [OF assms order_refl, of order MIGRATE_CMA] r that
    by (force simp: rmqueue_smallest_def)
  ultimately show ?thesis using rmqueue_smallest_took [OF assms r] r
    by (cases r) (auto simp: rmqueue_cma_def)
qed

lemma zone_cma_facts: "buddy_inv (free_one_page' 8 3 MIGRATE_CMA zone0)"
  using free_one_page'_correct [OF zone0_inv hand8, of MIGRATE_CMA] by simp

theorem rmqueue_cma_prefers_cma_witness:
  "fst (rmqueue_cma 0 MIGRATE_MOVABLE (free_one_page' 8 3 MIGRATE_CMA zone0)) = Some 8"
proof -
  have "fst (rmqueue_smallest 0 MIGRATE_CMA (free_one_page' 8 3 MIGRATE_CMA zone0)) = Some 8"
    and "free_list (free_one_page' 8 3 MIGRATE_CMA zone0) 3 MIGRATE_CMA = [8]"
    and "\<not> cma_alloc (free_one_page' 8 3 MIGRATE_CMA zone0)" "MAX_ORDER (free_one_page' 8 3 MIGRATE_CMA zone0) = 4"
    by code_simp+
  moreover from this have "\<exists>k\<ge>0. k < MAX_ORDER (free_one_page' 8 3 MIGRATE_CMA zone0)
      \<and> free_list (free_one_page' 8 3 MIGRATE_CMA zone0) k MIGRATE_CMA \<noteq> []"
    by (intro exI [of _ 3]) simp
  ultimately show ?thesis
    using rmqueue_cma_prefers_cma [OF zone_cma_facts, of 0 MIGRATE_MOVABLE] by simp
qed

text \<open>
  C1. No page has two owners and none is lost: whatever sequence of allocations (\<open>__rmqueue\<close>, of any orders
  and migrate types, with stealing and the reserve) and releases (\<open>free_one_page\<close>, in any order) a
  client performs, the blocks it holds are pairwise disjoint, none of their pages is on a free list, and
  together with the free pages they are the pages that were free at the start.
\<close>
theorem pages_never_shared:
  assumes "buddy_inv z" and "\<forall>q\<in>free_pages z. \<not> PageHead (pages z q) \<and> \<not> PageTail (pages z q)"
    and "pool_run rmqueue free_one_page rs ([], z) = (blks, z')"
  shows "buddy_inv z' \<and> (\<forall>(p, k)\<in>set blks. span p k \<inter> free_pages z' = {})
    \<and> sorted_wrt (\<lambda>(p, k) (q, j). span p k \<inter> span q j = {}) blks
    \<and> free_pages z' \<union> (\<Union>(p, k)\<in>set blks. span p k) = free_pages z"
proof -
  have "pool_inv z" using assms(1,2) by (simp add: pool_inv_def plain_def)
  from rmqueue_pool.no_double_booking [OF this assms(3)] show ?thesis
    by (simp add: pool_inv_def split_def)
qed

lemma zone1_plain: "\<forall>q\<in>free_pages zone1. \<not> PageHead (pages zone1 q) \<and> \<not> PageTail (pages zone1 q)"
proof -
  have "\<forall>q\<in>set [8..<16]. \<not> PageHead (pages zone1 q) \<and> \<not> PageTail (pages zone1 q)" by code_simp
  moreover have "span 8 3 = {8..<16}" by (simp add: span_def)
  ultimately show ?thesis unfolding zone1_facts(2) by (simp only: set_upt)
qed

theorem pages_never_shared_witness:
  "case pool_run rmqueue free_one_page [Alloc 1 MIGRATE_MOVABLE, Alloc 1 MIGRATE_MOVABLE] ([], zone1) of
     (blks, z') \<Rightarrow> buddy_inv z' \<and> length blks = 2 \<and> free_pages z' \<union> (\<Union>(p, k)\<in>set blks. span p k) = span 8 3"
proof -
  let ?r = "pool_run rmqueue free_one_page [Alloc 1 MIGRATE_MOVABLE, Alloc 1 MIGRATE_MOVABLE] ([], zone1)"
  obtain blks z' where r: "?r = (blks, z')" by fastforce
  have "length (fst ?r) = 2" by code_simp
  with r pages_never_shared [OF zone1_facts(1) zone1_plain r] zone1_facts(2) show ?thesis by simp
qed

end
