(* ===== verification/Page_Pcp.thy ===== *)
theory Page_Pcp
  imports Page_Fallback "HOL-Library.Monad_Syntax" "HOL-Library.Multiset"
begin

text \<open>
  The per-CPU page lists of \<open>hw5/mm/page_alloc.c\<close>: checks at free and at allocation time, bulk
  refill and bulk drain between the lists of one CPU and the buddy lists, and the order-0 fast
  paths \<open>free_hot_cold_page\<close> and \<open>buffered_rmqueue\<close>. Locks and interrupt masking are not modelled:
  each operation runs with the zone lock held. \<open>arch_*\<close> hooks and debug checks have no effect.
\<close>

section \<open>State\<close>

record pcp =
  lists :: "nat \<Rightarrow> nat list" \<comment> \<open>indexed by the migrate types below \<open>MIGRATE_PCPTYPES\<close>\<close>
  pcp_count :: int
  pcp_high :: int
  pcp_batch :: nat

definition MIGRATE_PCPTYPES :: nat where "MIGRATE_PCPTYPES = 3"

fun mt_num :: "mtype \<Rightarrow> nat" where
  "mt_num MIGRATE_UNMOVABLE = 0" | "mt_num MIGRATE_RECLAIMABLE = 1" | "mt_num MIGRATE_MOVABLE = 2"
| "mt_num MIGRATE_RESERVE = 3" | "mt_num MIGRATE_CMA = 4" | "mt_num MIGRATE_ISOLATE = 5"

definition mt_of :: "nat \<Rightarrow> mtype" where
  "mt_of n = mtypes ! n"

section \<open>Freeing\<close>

definition free_page_mlock :: "zone \<Rightarrow> zone" where
  "free_page_mlock z = z\<lparr>NR_MLOCK := NR_MLOCK z - 1, UNEVICTABLE_MLOCKFREED := UNEVICTABLE_MLOCKFREED z + 1\<rparr>"

definition TestClearPageMlocked :: "nat \<Rightarrow> zone \<Rightarrow> bool \<times> zone" where
  "TestClearPageMlocked p z =
    (bit (page_flags (pages z p)) (PG_mlocked z),
     upd_page p (\<lambda>g. g\<lparr>page_flags := unset_bit (PG_mlocked z) (page_flags g)\<rparr>) z)"

definition free_pages_check :: "nat \<Rightarrow> zone \<Rightarrow> nat \<times> zone" where
  "free_pages_check p z =
    (let g = pages z p in
     if page_mapcount g \<noteq> 0 \<or> page_mapping g \<noteq> 0 \<or> page_count g \<noteq> 0
        \<or> page_flags g AND PAGE_FLAGS_CHECK_AT_FREE z \<noteq> 0 \<or> mem_cgroup_bad_page_check z p
     then (1, bad_page p z)
     else if page_flags g AND PAGE_FLAGS_CHECK_AT_PREP z \<noteq> 0
     then (0, upd_page p (\<lambda>g. g\<lparr>page_flags := page_flags g AND NOT (PAGE_FLAGS_CHECK_AT_PREP z)\<rparr>) z)
     else (0, z))"

definition PageAnon :: "page \<Rightarrow> bool" where
  "PageAnon g \<longleftrightarrow> odd (page_mapping g)"

definition free_pages_prepare :: "nat \<Rightarrow> nat \<Rightarrow> zone \<Rightarrow> bool \<times> zone" where
  "free_pages_prepare p order z =
    (let z = (if PageAnon (pages z p) then upd_page p (\<lambda>g. g\<lparr>page_mapping := 0\<rparr>) z else z);
         (bad, z) = fold (\<lambda>i (bad, z). let (b, z) = free_pages_check (p + i) z in (bad + b, z)) [0..<2 ^ order] (0, z) in
     (bad = 0, z))"

definition free_pages_ok :: "nat \<Rightarrow> nat \<Rightarrow> zone \<Rightarrow> zone" where
  \<comment> \<open>\<open>__free_pages_ok\<close>\<close>
  "free_pages_ok p order z =
    (let (wasMlocked, z) = TestClearPageMlocked p z;
         (good, z) = free_pages_prepare p order z in
     if \<not> good then z
     else
       let z = (if wasMlocked then free_page_mlock z else z);
           z = z\<lparr>PGFREE := PGFREE z + 2 ^ order\<rparr> in
       free_one_page p order (get_pageblock_migratetype z p) z)"

definition free_compound_page :: "nat \<Rightarrow> zone \<Rightarrow> zone" where
  "free_compound_page p z = free_pages_ok p (compound_order (pages z p)) z"

text \<open>
  The inner loop of \<open>free_pcppages_bulk\<close>: pages leave the tail of one list until enough were freed,
  the batch is used up or the list is empty. It is entered with a non-empty list and \<open>to_free > 0\<close>.
\<close>

definition free_pcp_page :: "nat \<Rightarrow> zone \<Rightarrow> zone" where
  "free_pcp_page p z =
    (let mt = get_pageblock_migratetype z p;
         z = free_one_page' p 0 (mt_of (page_private (pages z p))) z in
     if is_migrate_cma mt then z\<lparr>NR_FREE_CMA_PAGES := NR_FREE_CMA_PAGES z + 1\<rparr> else z)"

function free_batch :: "nat list \<Rightarrow> nat \<Rightarrow> nat \<Rightarrow> zone \<Rightarrow> nat list \<times> nat \<times> nat \<times> zone" where
  "free_batch ps to_free batch_free z =
    (if ps = [] then (ps, to_free, batch_free, z)
     else
       let p = last ps; z = free_pcp_page p z; ps = butlast ps; to_free = to_free - 1 in
       if to_free = 0 then (ps, to_free, batch_free, z)
       else
         let batch_free = batch_free - 1 in
         if batch_free \<noteq> 0 \<and> ps \<noteq> [] then free_batch ps to_free batch_free z
         else (ps, to_free, batch_free, z))"
  by pat_completeness auto
termination
  by (relation "measure (\<lambda>(ps, _). length ps)") auto

declare free_batch.simps [simp del]

text \<open>The search for a non-empty list; with all lists empty the code does not leave it.\<close>

partial_function (option) next_list :: "(nat \<Rightarrow> nat list) \<Rightarrow> nat \<Rightarrow> nat \<Rightarrow> (nat \<times> nat) option" where
  [code]: "next_list ls migratetype batch_free =
    (let batch_free = batch_free + 1;
         migratetype = (if migratetype + 1 = MIGRATE_PCPTYPES then 0 else migratetype + 1) in
     if ls migratetype = [] then next_list ls migratetype batch_free else Some (migratetype, batch_free))"

partial_function (option) bulk_loop ::
  "nat \<Rightarrow> nat \<Rightarrow> nat \<Rightarrow> (nat \<Rightarrow> nat list) \<Rightarrow> zone \<Rightarrow> ((nat \<Rightarrow> nat list) \<times> zone) option" where
  [code]: "bulk_loop migratetype batch_free to_free ls z =
    (if to_free = 0 then Some (ls, z)
     else do {
       (migratetype, batch_free) \<leftarrow> next_list ls migratetype batch_free;
       let batch_free = (if batch_free = MIGRATE_PCPTYPES then to_free else batch_free);
       let (ps, to_free, batch_free, z) = free_batch (ls migratetype) to_free batch_free z;
       bulk_loop migratetype batch_free to_free (ls(migratetype := ps)) z
     })"

definition free_pcppages_bulk :: "nat \<Rightarrow> pcp \<Rightarrow> zone \<Rightarrow> (pcp \<times> zone) option" where
  "free_pcppages_bulk n pcp z =
    (let z = z\<lparr>all_unreclaimable := 0, pages_scanned := 0\<rparr> in
     do {
       (ls, z) \<leftarrow> bulk_loop 0 0 n (lists pcp) z;
       Some (pcp\<lparr>lists := ls\<rparr>, z\<lparr>NR_FREE_PAGES := NR_FREE_PAGES z + int n\<rparr>)
     })"

definition drain_zone_pages :: "pcp \<Rightarrow> zone \<Rightarrow> (pcp \<times> zone) option" where
  "drain_zone_pages pcp z =
    (let to_drain = (if pcp_count pcp \<ge> int (pcp_batch pcp) then pcp_batch pcp else nat (pcp_count pcp)) in
     do {
       (pcp, z) \<leftarrow> free_pcppages_bulk to_drain pcp z;
       Some (pcp\<lparr>pcp_count := pcp_count pcp - int to_drain\<rparr>, z)
     })"

definition drain_pages :: "pcp \<Rightarrow> zone \<Rightarrow> (pcp \<times> zone) option" where
  \<comment> \<open>one zone of the loop of \<open>drain_pages\<close>\<close>
  "drain_pages pcp z =
    (if pcp_count pcp \<noteq> 0 then do {
       (pcp, z) \<leftarrow> free_pcppages_bulk (nat (pcp_count pcp)) pcp z;
       Some (pcp\<lparr>pcp_count := 0\<rparr>, z)
     } else Some (pcp, z))"

text \<open>The part of \<open>free_hot_cold_page\<close> after the checks: where the page goes.\<close>

definition pcp_put :: "nat \<Rightarrow> bool \<Rightarrow> mtype \<Rightarrow> pcp \<Rightarrow> zone \<Rightarrow> (pcp \<times> zone) option" where
  "pcp_put p cold migratetype pcp z =
    (if mt_num migratetype \<ge> MIGRATE_PCPTYPES \<and> (migratetype = MIGRATE_ISOLATE \<or> is_migrate_cma migratetype)
     then Some (pcp, free_one_page p 0 migratetype z)
     else
       let m = (if mt_num migratetype \<ge> MIGRATE_PCPTYPES then mt_num MIGRATE_MOVABLE else mt_num migratetype);
           pcp = pcp\<lparr>lists := (lists pcp)(m := (if cold then lists pcp m @ [p] else p # lists pcp m)),
                     pcp_count := pcp_count pcp + 1\<rparr> in
       if pcp_count pcp \<ge> pcp_high pcp then do {
         (pcp, z) \<leftarrow> free_pcppages_bulk (pcp_batch pcp) pcp z;
         Some (pcp\<lparr>pcp_count := pcp_count pcp - int (pcp_batch pcp)\<rparr>, z)
       } else Some (pcp, z))"

definition free_hot_cold_page :: "nat \<Rightarrow> bool \<Rightarrow> pcp \<Rightarrow> zone \<Rightarrow> (pcp \<times> zone) option" where
  "free_hot_cold_page p cold pcp z =
    (let (wasMlocked, z) = TestClearPageMlocked p z;
         (good, z) = free_pages_prepare p 0 z in
     if \<not> good then Some (pcp, z)
     else
       let migratetype = get_pageblock_migratetype z p;
           z = upd_page p (\<lambda>g. g\<lparr>page_private := mt_num migratetype\<rparr>) z;
           z = (if wasMlocked then free_page_mlock z else z);
           z = z\<lparr>PGFREE := PGFREE z + 1\<rparr> in
       pcp_put p cold migratetype pcp z)"

fun free_hot_cold_page_list :: "nat list \<Rightarrow> bool \<Rightarrow> pcp \<Rightarrow> zone \<Rightarrow> (pcp \<times> zone) option" where
  "free_hot_cold_page_list [] cold pcp z = Some (pcp, z)"
| "free_hot_cold_page_list (p # ps) cold pcp z = do {
     (pcp, z) \<leftarrow> free_hot_cold_page p cold pcp z;
     free_hot_cold_page_list ps cold pcp z
   }"

section \<open>Allocating\<close>

text \<open>
  The bulk refill inserts each page at a cursor that then stands on it: after the previous page
  (\<open>list_add\<close>), or before it (\<open>list_add_tail\<close>) when \<open>cold\<close>. The list is kept as the part before and
  the part after the insertion point.
\<close>

definition bulk_page :: "nat \<Rightarrow> mtype \<Rightarrow> nat \<Rightarrow> zone \<Rightarrow> zone" where
  "bulk_page order migratetype p z =
    (let mt = get_pageblock_migratetype z p;
         mt = (if \<not> is_migrate_cma mt \<and> mt \<noteq> MIGRATE_ISOLATE then migratetype else mt);
         z = upd_page p (\<lambda>g. g\<lparr>page_private := mt_num mt\<rparr>) z in
     if is_migrate_cma mt then z\<lparr>NR_FREE_CMA_PAGES := NR_FREE_CMA_PAGES z - 2 ^ order\<rparr> else z)"

fun rmqueue_bulk_loop ::
  "nat \<Rightarrow> nat \<Rightarrow> mtype \<Rightarrow> bool \<Rightarrow> bool \<Rightarrow> nat \<Rightarrow> nat list \<Rightarrow> nat list \<Rightarrow> zone \<Rightarrow> nat \<times> nat list \<times> zone" where
  "rmqueue_bulk_loop 0 order migratetype cold cma i front back z = (i, front @ back, z)"
| "rmqueue_bulk_loop (Suc n) order migratetype cold cma i front back z =
    (case (if cma then rmqueue_cma order migratetype z else rmqueue order migratetype z) of
       (None, z) \<Rightarrow> (i, front @ back, z)
     | (Some p, z) \<Rightarrow>
         let z = bulk_page order migratetype p z in
         if \<not> cold then rmqueue_bulk_loop n order migratetype cold cma (Suc i) (front @ [p]) back z
         else rmqueue_bulk_loop n order migratetype cold cma (Suc i) front (p # back) z)"

definition rmqueue_bulk :: "nat \<Rightarrow> nat \<Rightarrow> nat list \<Rightarrow> mtype \<Rightarrow> bool \<Rightarrow> bool \<Rightarrow> zone \<Rightarrow> nat \<times> nat list \<times> zone" where
  "rmqueue_bulk order n ps migratetype cold cma z =
    (let (i, ps, z) = (if cold then rmqueue_bulk_loop n order migratetype cold cma 0 ps [] z
                       else rmqueue_bulk_loop n order migratetype cold cma 0 [] ps z) in
     (i, ps, z\<lparr>NR_FREE_PAGES := NR_FREE_PAGES z - int (i * 2 ^ order)\<rparr>))"

definition check_new_page :: "nat \<Rightarrow> zone \<Rightarrow> bool \<times> zone" where
  "check_new_page p z =
    (let g = pages z p in
     if page_mapcount g \<noteq> 0 \<or> page_mapping g \<noteq> 0 \<or> page_count g \<noteq> 0
        \<or> page_flags g AND PAGE_FLAGS_CHECK_AT_PREP z \<noteq> 0 \<or> mem_cgroup_bad_page_check z p
     then (True, bad_page p z) else (False, z))"

fun check_new_pages :: "nat list \<Rightarrow> zone \<Rightarrow> bool \<times> zone" where
  "check_new_pages [] z = (False, z)"
| "check_new_pages (p # ps) z =
    (let (bad, z) = check_new_page p z in if bad then (True, z) else check_new_pages ps z)"

record gfp =
  GFP_ZERO :: bool
  GFP_COMP :: bool
  GFP_COLD :: bool
  GFP_CMA :: bool

definition prep_zero_page :: "nat \<Rightarrow> nat \<Rightarrow> zone \<Rightarrow> zone" where
  "prep_zero_page p order z = fold (\<lambda>i. upd_page (p + i) (\<lambda>g. g\<lparr>cleared := True\<rparr>)) [0..<2 ^ order] z"

definition prep_new_page :: "nat \<Rightarrow> nat \<Rightarrow> gfp \<Rightarrow> zone \<Rightarrow> bool \<times> zone" where
  "prep_new_page p order gfp_flags z =
    (let (bad, z) = check_new_pages [p..<p + 2 ^ order] z in
     if bad then (True, z)
     else
       let z = upd_page p (\<lambda>g. g\<lparr>page_private := 0, page_count := 1\<rparr>) z;
           z = (if GFP_ZERO gfp_flags then prep_zero_page p order z else z);
           z = (if order \<noteq> 0 \<and> GFP_COMP gfp_flags then prep_compound_page p order z else z) in
       (False, z))"

text \<open>The two ways to obtain a page in \<open>buffered_rmqueue\<close>, before it is prepared.\<close>

definition rmqueue_pcp :: "gfp \<Rightarrow> mtype \<Rightarrow> pcp \<Rightarrow> zone \<Rightarrow> nat option \<times> pcp \<times> zone" where
  "rmqueue_pcp gfp_flags migratetype pcp z =
    (let cold = GFP_COLD gfp_flags; m = mt_num migratetype;
         (pcp, z) =
           (if lists pcp m = [] then
              let (i, ps, z) = rmqueue_bulk 0 (pcp_batch pcp) (lists pcp m) migratetype cold (GFP_CMA gfp_flags) z in
              (pcp\<lparr>lists := (lists pcp)(m := ps), pcp_count := pcp_count pcp + int i\<rparr>, z)
            else (pcp, z)) in
     if lists pcp m = [] then (None, pcp, z)
     else
       let p = (if cold then last (lists pcp m) else hd (lists pcp m)) in
       (Some p, pcp\<lparr>lists := (lists pcp)(m := filter (\<lambda>q. q \<noteq> p) (lists pcp m)), pcp_count := pcp_count pcp - 1\<rparr>, z))"

definition rmqueue_buddy :: "nat \<Rightarrow> gfp \<Rightarrow> mtype \<Rightarrow> zone \<Rightarrow> nat option \<times> zone" where
  "rmqueue_buddy order gfp_flags migratetype z =
    (case (if GFP_CMA gfp_flags then rmqueue_cma order migratetype z else rmqueue order migratetype z) of
       (None, z) \<Rightarrow> (None, z)
     | (Some p, z) \<Rightarrow> (Some p, mod_zone_freepage_state (- (2 ^ order)) (get_pageblock_migratetype z p) z))"

partial_function (option) buffered_rmqueue ::
  "nat \<Rightarrow> gfp \<Rightarrow> mtype \<Rightarrow> pcp \<Rightarrow> zone \<Rightarrow> (nat option \<times> pcp \<times> zone) option" where
  [code]: "buffered_rmqueue order gfp_flags migratetype pcp z =
    (let (r, pcp, z) =
       (if order = 0 then rmqueue_pcp gfp_flags migratetype pcp z
        else let (r, z) = rmqueue_buddy order gfp_flags migratetype z in (r, pcp, z)) in
     case r of
       None \<Rightarrow> Some (None, pcp, z)
     | Some p \<Rightarrow>
         let z = z\<lparr>PGALLOC := PGALLOC z + 2 ^ order\<rparr>;
             (bad, z) = prep_new_page p order gfp_flags z in
         if bad then buffered_rmqueue order gfp_flags migratetype pcp z else Some (Some p, pcp, z))"

section \<open>Splitting an allocated page\<close>

definition split_page :: "nat \<Rightarrow> nat \<Rightarrow> zone \<Rightarrow> zone" where
  "split_page p order z = fold (\<lambda>i. upd_page (p + i) (\<lambda>g. g\<lparr>page_count := 1\<rparr>)) [1..<2 ^ order] z"

section \<open>Sizes of the lists\<close>

text \<open>\<open>rounddown_pow_of_two\<close> of \<open>log2.h\<close>, for a positive argument.\<close>

fun rounddown_pow_of_two :: "nat \<Rightarrow> nat" where
  "rounddown_pow_of_two n = (if n < 2 then 1 else 2 * rounddown_pow_of_two (n div 2))"

declare rounddown_pow_of_two.simps [simp del]

definition zone_batchsize :: "nat \<Rightarrow> nat" where
  "zone_batchsize present_pages =
    (let batch = present_pages div 1024;
         batch = (if batch * 4096 > 512 * 1024 then (512 * 1024) div 4096 else batch);
         batch = batch div 4;
         batch = (if batch < 1 then 1 else batch) in
     rounddown_pow_of_two (batch + batch div 2) - 1)"

definition setup_pageset :: "nat \<Rightarrow> pcp" where
  "setup_pageset batch = \<lparr>lists = (\<lambda>_. []), pcp_count = 0, pcp_high = 6 * int batch, pcp_batch = max 1 (1 * batch)\<rparr>"

definition setup_pagelist_highmark :: "nat \<Rightarrow> pcp \<Rightarrow> pcp" where
  "setup_pagelist_highmark high pcp =
    (let pcp = pcp\<lparr>pcp_high := int high, pcp_batch := max 1 (high div 4)\<rparr> in
     if high div 4 > 12 * 8 then pcp\<lparr>pcp_batch := 12 * 8\<rparr> else pcp)"

section \<open>Invariant\<close>

definition all_pages :: "(nat \<Rightarrow> nat list) \<Rightarrow> nat list" where
  "all_pages ls = ls 0 @ ls 1 @ ls 2"

text \<open>Pages that are neither free nor part of a compound page.\<close>

definition held :: "zone \<Rightarrow> nat set \<Rightarrow> bool" where
  "held z S \<longleftrightarrow> (\<forall>p\<in>S. in_hand z p 0 \<and> \<not> PageHead (pages z p) \<and> \<not> PageTail (pages z p))"

lemma span_0 [simp]: "span p 0 = {p}"
  by (auto simp: span_def)

lemma in_hand_0: "in_hand z p 0 \<longleftrightarrow> 0 < MAX_ORDER z \<and> pfn_valid_within z p \<and> p \<notin> free_pages z"
  by (auto simp: in_hand_def block_ok_def)

lemma held_mono: "held z S \<Longrightarrow> T \<subseteq> S \<Longrightarrow> held z T"
  by (auto simp: held_def)

lemma held_step:
  assumes "held z S" "same_zone z z'" "\<forall>q\<in>T. strip (pages z' q) = strip (pages z q)"
    and "T \<subseteq> S" "free_pages z' \<inter> T = {}"
  shows "held z' T"
  unfolding held_def
proof
  fix q assume q: "q \<in> T"
  then have "strip (pages z' q) = strip (pages z q)" "q \<in> S" using assms by auto
  with q assms(1,2,5) show "in_hand z' q 0 \<and> \<not> PageHead (pages z' q) \<and> \<not> PageTail (pages z' q)"
    using strip_fields [of "pages z' q" "pages z q"] by (auto simp: held_def in_hand_0 same_zone_def)
qed

section \<open>Draining\<close>

lemma free_pcp_page_correct:
  assumes "buddy_inv z" "held z S" "p \<in> S"
  defines "z' \<equiv> free_pcp_page p z"
  shows "buddy_inv z'" "free_pages z' = insert p (free_pages z)" "held z' (S - {p})" "same_zone z z'"
    "\<forall>q. strip (pages z' q) = strip (pages z q)" "NR_FREE_PAGES z' = NR_FREE_PAGES z"
proof -
  let ?f = "free_one_page' p 0 (mt_of (page_private (pages z p))) z"
  have p: "in_hand z p 0" "\<not> PageHead (pages z p) \<and> \<not> PageTail (pages z p)" using assms(2,3) by (auto simp: held_def)
  note f = free_one_page'_correct [OF assms(1) p(1) disjI1 [OF p(2)], of "mt_of (page_private (pages z p))"]
  have l: "lists_same ?f z'" and pg: "pages z' = pages ?f" and nr: "NR_FREE_PAGES z' = NR_FREE_PAGES z"
    by (simp_all add: z'_def free_pcp_page_def Let_def lists_same_def same_zone_def)
  show "buddy_inv z'" using f lists_same_inv [OF l] by simp
  show fr: "free_pages z' = insert p (free_pages z)" using f lists_same_free [OF l] by simp
  show sz: "same_zone z z'" using f l by (auto simp: lists_same_def intro: same_zone_trans)
  show st: "\<forall>q. strip (pages z' q) = strip (pages z q)" using f p(2) pg by (simp add: touched_def)
  show "held z' (S - {p})"
    using assms(2) st fr by (intro held_step [OF assms(2) sz]) (auto simp: held_def in_hand_0)
  show "NR_FREE_PAGES z' = NR_FREE_PAGES z" by (rule nr)
qed

text \<open>What a drain from \<open>ps\<close> to \<open>ps'\<close> does to the zone.\<close>

definition drained :: "zone \<Rightarrow> nat set \<Rightarrow> nat set \<Rightarrow> zone \<Rightarrow> bool" where
  "drained z F R z' \<longleftrightarrow> buddy_inv z' \<and> free_pages z' = free_pages z \<union> F \<and> held z' R \<and> same_zone z z'
     \<and> (\<forall>q. strip (pages z' q) = strip (pages z q)) \<and> NR_FREE_PAGES z' = NR_FREE_PAGES z"

lemma drained_trans: "drained a F R b \<Longrightarrow> drained b G Q c \<Longrightarrow> drained a (F \<union> G) Q c"
  by (auto simp: drained_def intro: same_zone_trans)

lemma free_batch_correct:
  assumes "buddy_inv z" "held z (set ps \<union> R)" "distinct ps" "set ps \<inter> R = {}" "ps \<noteq> []" "0 < tf"
    and "free_batch ps tf bf z = (ps', tf', bf', z')"
  shows "\<exists>qs. ps = ps' @ qs \<and> qs \<noteq> [] \<and> length qs + tf' = tf \<and> drained z (set qs) (set ps' \<union> R) z'"
  using assms
proof (induction ps tf bf z rule: free_batch.induct)
  case (1 ps tf bf z)
  let ?p = "last ps" and ?z = "free_pcp_page (last ps) z" and ?ps = "butlast ps"
  have ps: "ps = ?ps @ [?p]" using 1(6) by simp
  have mem: "?p \<in> set ps \<union> R" using 1(6) by simp
  note f = free_pcp_page_correct [OF 1(2,3) mem]
  have lp: "?p \<in> set ps" using 1(6) by simp
  have "distinct (?ps @ [?p])" using 1(4) ps by metis
  then have d1: "?p \<notin> set ?ps" by simp
  have sub: "set ?ps \<union> R \<subseteq> set ps \<union> R - {?p}"
    using d1 lp 1(5) by (auto dest: in_set_butlastD)
  have h: "held ?z (set ?ps \<union> R)" using held_mono [OF f(3) sub] .
  then have d: "drained z {?p} (set ?ps \<union> R) ?z"
    using f by (auto simp: drained_def)
  show ?case
  proof (cases "tf - 1 = 0 \<or> bf - 1 = 0 \<or> ?ps = []")
    case True
    then have "ps' = ?ps \<and> tf' = tf - 1 \<and> z' = ?z"
      using 1(8) 1(6) by (subst (asm) free_batch.simps) (auto simp: Let_def split: if_splits)
    with ps d 1(7) show ?thesis by (intro exI [of _ "[?p]"]) auto
  next
    case False
    then have step: "free_batch ?ps (tf - 1) (bf - 1) ?z = (ps', tf', bf', z')"
      using 1(8) 1(6) by (subst (asm) free_batch.simps) (auto simp: Let_def)
    have "distinct ?ps" "set ?ps \<inter> R = {}" using 1(4,5) by (auto simp: distinct_butlast dest: in_set_butlastD)
    then obtain qs where qs: "?ps = ps' @ qs" "length qs + tf' = tf - 1" "drained ?z (set qs) (set ps' \<union> R) z'"
      using 1(1) [OF 1(6) refl refl refl refl _ refl _ f(1) h _ _ _ _ step] False by auto
    have "ps = ps' @ (qs @ [?p])" using ps qs(1) by simp
    moreover have "drained z (set (qs @ [?p])) (set ps' \<union> R) z'"
      using drained_trans [OF d qs(3)] by (simp add: insert_commute)
    ultimately show ?thesis using qs(2) 1(7) by (intro exI [of _ "qs @ [?p]"]) auto
  qed
qed

lemma next_list_step:
  "m < 3 \<Longrightarrow> next_list ls m b = (let m' = Suc m mod 3 in if ls m' = [] then next_list ls m' (Suc b) else Some (m', Suc b))"
  by (subst next_list.simps) (auto simp: MIGRATE_PCPTYPES_def Let_def mod_Suc)

lemma next_list_finds:
  assumes "all_pages ls \<noteq> []" "m < 3"
  shows "\<exists>m' b'. next_list ls m b = Some (m', b') \<and> m' < 3 \<and> ls m' \<noteq> []"
proof -
  let ?f = "\<lambda>m. Suc m mod 3"
  have hit: "next_list ls m b = Some (?f m, Suc b)" if "m < 3" "ls (?f m) \<noteq> []" for m b
    using next_list_step [OF that(1)] that(2) by (simp add: Let_def)
  have miss: "next_list ls m b = next_list ls (?f m) (Suc b)" if "m < 3" "ls (?f m) = []" for m b
    using next_list_step [OF that(1)] that(2) by (simp add: Let_def)
  have lt: "?f k < 3" for k by simp
  have "m = 0 \<or> m = 1 \<or> m = 2" using assms(2) by linarith
  then have "{?f m, ?f (?f m), ?f (?f (?f m))} = {0, 1, 2}" by auto
  moreover have "\<exists>k\<in>{0, 1, 2}. ls k \<noteq> []" using assms(1) by (auto simp: all_pages_def)
  ultimately have "ls (?f m) \<noteq> [] \<or> ls (?f (?f m)) \<noteq> [] \<or> ls (?f (?f (?f m))) \<noteq> []" by (metis insert_iff singletonD)
  then show ?thesis using hit miss assms(2) lt by metis
qed

lemma all_pages_upd:
  assumes "m < 3" "ls m = ps' @ qs"
  shows "mset (all_pages ls) = mset (all_pages (ls(m := ps'))) + mset qs"
proof -
  consider "m = 0" | "m = 1" | "m = 2" using assms(1) by linarith
  then show ?thesis using assms(2) by cases (auto simp: all_pages_def)
qed

text \<open>The pages of the other lists.\<close>

definition rest :: "(nat \<Rightarrow> nat list) \<Rightarrow> nat \<Rightarrow> nat set" where
  "rest ls m = set (all_pages (ls(m := [])))"

lemma all_pages_split:
  assumes "m < 3" "distinct (all_pages ls)"
  shows "set (all_pages ls) = set (ls m) \<union> rest ls m" "set (ls m) \<inter> rest ls m = {}" "distinct (ls m)"
    "rest (ls(m := ps)) m = rest ls m"
proof -
  consider "m = 0" | "m = 1" | "m = 2" using assms(1) by linarith
  then show "set (all_pages ls) = set (ls m) \<union> rest ls m" "set (ls m) \<inter> rest ls m = {}" "distinct (ls m)"
    "rest (ls(m := ps)) m = rest ls m"
    using assms(2) by (cases, auto simp: all_pages_def rest_def)+
qed

lemma bulk_loop_correct:
  assumes "buddy_inv z" "held z (set (all_pages ls))" "distinct (all_pages ls)" "m < 3"
    and "tf \<le> length (all_pages ls)"
  shows "\<exists>ls' z'. bulk_loop m bf tf ls z = Some (ls', z') \<and> distinct (all_pages ls')
    \<and> set (all_pages ls') \<subseteq> set (all_pages ls) \<and> length (all_pages ls') + tf = length (all_pages ls)
    \<and> drained z (set (all_pages ls) - set (all_pages ls')) (set (all_pages ls')) z'"
  using assms
proof (induction tf arbitrary: m bf ls z rule: less_induct)
  case (less tf)
  show ?case
  proof (cases "tf = 0")
    case True
    then show ?thesis using less.prems by (subst bulk_loop.simps) (auto simp: drained_def)
  next
    case False
    then have ne: "all_pages ls \<noteq> []" using less.prems(5) by auto
    obtain m' b' where n: "next_list ls m bf = Some (m', b')" "m' < 3" "ls m' \<noteq> []"
      using next_list_finds [OF ne less.prems(4)] by metis
    note sp = all_pages_split [OF n(2) less.prems(3)]
    define b'' where "b'' = (if b' = MIGRATE_PCPTYPES then tf else b')"
    obtain ps tf' bf' z1 where fb: "free_batch (ls m') tf b'' z = (ps, tf', bf', z1)"
      by (metis prod_cases4)
    have h: "held z (set (ls m') \<union> rest ls m')" using less.prems(2) sp(1) by simp
    obtain qs where qs: "ls m' = ps @ qs" "qs \<noteq> []" "length qs + tf' = tf"
      "drained z (set qs) (set ps \<union> rest ls m') z1"
      using free_batch_correct [OF less.prems(1) h sp(3,2) n(3) _ fb] False by auto
    let ?ls = "ls(m' := ps)"
    note ms = all_pages_upd [of m' ls ps qs, OF n(2) qs(1)]
    have len: "length (all_pages ls) = length (all_pages ?ls) + length qs"
      using arg_cong [OF ms, of size] by simp
    have dq: "distinct (all_pages ?ls @ qs)"
      using less.prems(3) ms by (metis distinct_count_atmost_1 mset_append mset_eq_imp_distinct_iff)
    have sq: "set (all_pages ls) = set (all_pages ?ls) \<union> set qs" using ms by (metis set_append set_mset_mset mset_append)
    have sps: "set (all_pages ?ls) = set ps \<union> rest ls m'"
      using all_pages_split(1) [OF n(2), of ?ls] all_pages_split(4) [OF n(2) less.prems(3)] dq by simp
    have z1: "buddy_inv z1" "held z1 (set (all_pages ?ls))" using qs(4) sps by (simp_all add: drained_def)
    have tf': "tf' < tf" using qs(2,3) by (cases qs) auto
    have ls: "distinct (all_pages ?ls)" "tf' \<le> length (all_pages ?ls)" using dq len qs(3) less.prems(5) by auto
    obtain ls' z' where r: "bulk_loop m' bf' tf' ?ls z1 = Some (ls', z')" "distinct (all_pages ls')"
      "set (all_pages ls') \<subseteq> set (all_pages ?ls)" "length (all_pages ls') + tf' = length (all_pages ?ls)"
      "drained z1 (set (all_pages ?ls) - set (all_pages ls')) (set (all_pages ls')) z'"
      using less.IH [OF tf' z1 ls(1) n(2) ls(2), of bf'] by metis
    have st: "bulk_loop m bf tf ls z = Some (ls', z')"
      using False n fb r(1) by (subst bulk_loop.simps) (simp add: b''_def)
    have "set qs \<union> (set (all_pages ?ls) - set (all_pages ls')) = set (all_pages ls) - set (all_pages ls')"
      using sq dq r(3) by auto
    with drained_trans [OF qs(4) r(5)] have "drained z (set (all_pages ls) - set (all_pages ls')) (set (all_pages ls')) z'"
      by simp
    with st r sq len qs(3) show ?thesis by auto
  qed
qed

section \<open>The state of one CPU and its zone\<close>

text \<open>The pages an order-0 request can get.\<close>

definition avail :: "pcp \<Rightarrow> zone \<Rightarrow> nat set" where
  "avail pcp z = free_pages z \<union> set (all_pages (lists pcp))"

definition pcp_inv :: "pcp \<Rightarrow> zone \<Rightarrow> bool" where
  "pcp_inv pcp z \<longleftrightarrow> buddy_inv z \<and> distinct (all_pages (lists pcp)) \<and> held z (set (all_pages (lists pcp)))
     \<and> pcp_count pcp = int (length (all_pages (lists pcp)))
     \<and> (\<forall>q\<in>free_pages z. \<not> PageHead (pages z q) \<and> \<not> PageTail (pages z q))"

lemma free_pcppages_bulk_inv:
  assumes "buddy_inv z" "distinct (all_pages (lists pcp))" "held z (set (all_pages (lists pcp)))"
    and "\<forall>q\<in>free_pages z. \<not> PageHead (pages z q) \<and> \<not> PageTail (pages z q)"
    and "pcp_count pcp = int (length (all_pages (lists pcp)))" "n \<le> length (all_pages (lists pcp))"
  shows "\<exists>pcp' z'. free_pcppages_bulk n pcp z = Some (pcp', z') \<and> pcp_count pcp' = pcp_count pcp
    \<and> pcp_batch pcp' = pcp_batch pcp \<and> pcp_high pcp' = pcp_high pcp
    \<and> pcp_inv (pcp'\<lparr>pcp_count := pcp_count pcp - int n\<rparr>) z' \<and> avail pcp' z' = avail pcp z
    \<and> NR_FREE_PAGES z' = NR_FREE_PAGES z + int n \<and> same_zone z z' \<and> (\<forall>q. strip (pages z' q) = strip (pages z q))"
proof -
  let ?z = "z\<lparr>all_unreclaimable := 0, pages_scanned := 0\<rparr>"
  have l: "lists_same z ?z" by (simp add: lists_same_def same_zone_def)
  have h: "held ?z (set (all_pages (lists pcp)))"
    using assms(3) lists_same_hand [OF l] by (simp add: held_def)
  obtain ls' z' where b: "bulk_loop 0 0 n (lists pcp) ?z = Some (ls', z')" "distinct (all_pages ls')"
    "set (all_pages ls') \<subseteq> set (all_pages (lists pcp))" "length (all_pages ls') + n = length (all_pages (lists pcp))"
    "drained ?z (set (all_pages (lists pcp)) - set (all_pages ls')) (set (all_pages ls')) z'"
    using bulk_loop_correct [OF _ h assms(2) _ assms(6), of 0 0] assms(1) lists_same_inv [OF l] by auto
  let ?z' = "z'\<lparr>NR_FREE_PAGES := NR_FREE_PAGES z' + int n\<rparr>"
  have l': "lists_same z' ?z'" by (simp add: lists_same_def same_zone_def)
  have fp: "free_pages ?z' = free_pages z \<union> (set (all_pages (lists pcp)) - set (all_pages ls'))"
    using b(5) lists_same_free [OF l] lists_same_free [OF l'] by (simp add: drained_def)
  have clean: "\<not> PageHead (pages ?z' q) \<and> \<not> PageTail (pages ?z' q)" if "q \<in> free_pages ?z'" for q
  proof -
    have "strip (pages ?z' q) = strip (pages z q)" using b(5) by (simp add: drained_def)
    moreover have "\<not> PageHead (pages z q) \<and> \<not> PageTail (pages z q)"
      using that assms(3,4) unfolding fp by (auto simp: held_def)
    ultimately show ?thesis using strip_fields by blast
  qed
  have inv: "buddy_inv ?z'" "held ?z' (set (all_pages ls'))"
    using b(5) lists_same_inv [OF l'] lists_same_hand [OF l'] by (simp_all add: drained_def held_def)
  have "pcp_inv (pcp\<lparr>lists := ls', pcp_count := pcp_count pcp - int n\<rparr>) ?z'"
    using inv clean b(2,4) assms(5) by (auto simp: pcp_inv_def)
  moreover have "avail (pcp\<lparr>lists := ls'\<rparr>) ?z' = avail pcp z"
    using fp b(3) by (auto simp: avail_def)
  moreover have "free_pcppages_bulk n pcp z = Some (pcp\<lparr>lists := ls'\<rparr>, ?z')"
    using b(1) by (simp add: free_pcppages_bulk_def)
  moreover have "NR_FREE_PAGES ?z' = NR_FREE_PAGES z + int n" "same_zone z ?z'" "\<forall>q. strip (pages ?z' q) = strip (pages z q)"
    using b(5) by (auto simp: drained_def same_zone_def)
  ultimately show ?thesis by auto
qed

lemma bulk_pcp_inv:
  assumes "pcp_inv pcp z" "n \<le> length (all_pages (lists pcp))"
  shows "\<exists>pcp' z'. free_pcppages_bulk n pcp z = Some (pcp', z') \<and> pcp_count pcp' = pcp_count pcp
    \<and> pcp_batch pcp' = pcp_batch pcp \<and> pcp_high pcp' = pcp_high pcp
    \<and> pcp_inv (pcp'\<lparr>pcp_count := pcp_count pcp - int n\<rparr>) z' \<and> avail pcp' z' = avail pcp z
    \<and> NR_FREE_PAGES z' = NR_FREE_PAGES z + int n \<and> same_zone z z' \<and> (\<forall>q. strip (pages z' q) = strip (pages z q))"
  by (rule free_pcppages_bulk_inv) (use assms in \<open>simp_all add: pcp_inv_def\<close>)

text \<open>Changes of one page in hand that the lists cannot see.\<close>

definition only :: "nat \<Rightarrow> zone \<Rightarrow> zone \<Rightarrow> bool" where
  "only p z z' \<longleftrightarrow> lists_same z z' \<and> (\<forall>q. q \<noteq> p \<longrightarrow> pages z' q = pages z q)
     \<and> PageHead (pages z' p) = PageHead (pages z p) \<and> PageTail (pages z' p) = PageTail (pages z p)
     \<and> PageBuddy (pages z' p) = PageBuddy (pages z p) \<and> NR_FREE_PAGES z' = NR_FREE_PAGES z"

lemma only_refl [simp]: "only p z z" and only_trans: "only p a b \<Longrightarrow> only p b c \<Longrightarrow> only p a c"
  by (auto simp: only_def intro: lists_same_trans)

lemma only_upd:
  "\<not> PageBuddy (pages z p) \<Longrightarrow> PageBuddy (h (pages z p)) = PageBuddy (pages z p) \<Longrightarrow>
   PageHead (h (pages z p)) = PageHead (pages z p) \<Longrightarrow> PageTail (h (pages z p)) = PageTail (pages z p) \<Longrightarrow>
   only p z (upd_page p h z)"
  by (auto simp: only_def lists_same_def upd_page_def same_zone_def)

lemma only_bad_page: "\<not> PageBuddy (pages z p) \<Longrightarrow> only p z (bad_page p z)"
  by (auto simp: only_def lists_same_def upd_page_def same_zone_def bad_page_def)

lemma only_not_buddy: "only p z z' \<Longrightarrow> PageBuddy (pages z' p) = PageBuddy (pages z p)"
  by (simp add: only_def)

lemma only_mlock: "\<not> PageBuddy (pages z p) \<Longrightarrow> TestClearPageMlocked p z = (m, z') \<Longrightarrow> only p z z'"
  by (auto simp: TestClearPageMlocked_def intro: only_upd)

lemma only_check: "\<not> PageBuddy (pages z p) \<Longrightarrow> free_pages_check p z = (b, z') \<Longrightarrow> only p z z'"
  by (auto simp: free_pages_check_def Let_def split: if_splits intro: only_bad_page only_upd)

lemma only_prepare:
  assumes "\<not> PageBuddy (pages z p)" "free_pages_prepare p 0 z = (g, z')"
  shows "only p z z'"
proof -
  let ?z = "if PageAnon (pages z p) then upd_page p (\<lambda>g. g\<lparr>page_mapping := 0\<rparr>) z else z"
  have o: "only p z ?z" using assms(1) by (auto intro: only_upd)
  obtain b z1 where c: "free_pages_check p ?z = (b, z1)" by fastforce
  have "only p ?z z1" using only_check [OF _ c] assms(1) only_not_buddy [OF o] by blast
  moreover have "z' = z1" using assms(2) c by (simp add: free_pages_prepare_def Let_def)
  ultimately show ?thesis using o only_trans by blast
qed

lemma in_hand_not_buddy: "buddy_inv z \<Longrightarrow> in_hand z p k \<Longrightarrow> \<not> PageBuddy (pages z p)"
  using in_hand_not_block [of z p k] by (auto simp: buddy_inv_def meta_inv_def)

lemma only_pcp_inv:
  assumes "only p z z'" "p \<notin> free_pages z" "pcp_inv pcp z"
  shows "pcp_inv pcp z' \<and> free_pages z' = free_pages z \<and> same_zone z z' \<and> (in_hand z' = in_hand z)"
proof -
  have l: "lists_same z z'" using assms(1) by (simp add: only_def)
  have "PageHead (pages z' q) = PageHead (pages z q) \<and> PageTail (pages z' q) = PageTail (pages z q)" for q
    using assms(1) by (cases "q = p") (auto simp: only_def)
  then show ?thesis
    using assms(3) l lists_same_inv [OF l] lists_same_hand [OF l] lists_same_free [OF l]
    by (auto simp: pcp_inv_def held_def lists_same_def)
qed

text \<open>A page that somebody holds and that is not on the per-CPU lists.\<close>

definition owned :: "pcp \<Rightarrow> zone \<Rightarrow> nat \<Rightarrow> bool" where
  "owned pcp z p \<longleftrightarrow> in_hand z p 0 \<and> \<not> PageHead (pages z p) \<and> \<not> PageTail (pages z p) \<and> p \<notin> set (all_pages (lists pcp))"

lemma pcp_add:
  assumes "pcp_inv pcp z" "owned pcp z p" "m < 3"
    and pcp': "pcp' = pcp\<lparr>lists := (lists pcp)(m := (if cold then lists pcp m @ [p] else p # lists pcp m)), pcp_count := pcp_count pcp + 1\<rparr>"
  shows "pcp_inv pcp' z" "avail pcp' z = insert p (avail pcp z)"
proof -
  let ?ls = "(lists pcp)(m := (if cold then lists pcp m @ [p] else p # lists pcp m))"
  consider "m = 0" | "m = 1" | "m = 2" using assms(3) by linarith
  then have ms: "mset (all_pages ?ls) = add_mset p (mset (all_pages (lists pcp)))"
    by cases (auto simp: all_pages_def)
  then have "set (all_pages ?ls) = insert p (set (all_pages (lists pcp)))"
    by (metis set_mset_add_mset_insert set_mset_mset)
  moreover have "distinct (all_pages ?ls)"
    using assms(1,2) mset_eq_imp_distinct_iff [of "all_pages ?ls" "p # all_pages (lists pcp)"] ms
    by (simp add: pcp_inv_def owned_def)
  moreover have "length (all_pages ?ls) = Suc (length (all_pages (lists pcp)))"
    using arg_cong [OF ms, of size] by simp
  ultimately show "pcp_inv pcp' z" "avail pcp' z = insert p (avail pcp z)"
    using assms(1,2) by (auto simp: pcp' pcp_inv_def avail_def owned_def held_def)
qed

text \<open>What the lists need of the other pages is left as it was.\<close>

definition apart :: "nat \<Rightarrow> zone \<Rightarrow> zone \<Rightarrow> bool" where
  "apart p z z' \<longleftrightarrow> same_zone z z' \<and> (\<forall>q. q \<noteq> p \<longrightarrow> strip (pages z' q) = strip (pages z q))"

lemma apart_trans: "apart p a b \<Longrightarrow> apart p b c \<Longrightarrow> apart p a c"
  by (auto simp: apart_def intro: same_zone_trans)

lemma only_apart: "only p z z' \<Longrightarrow> apart p z z'"
  by (simp add: only_def apart_def lists_same_def)

lemma buddy_free_inv:
  assumes "pcp_inv pcp z" "owned pcp z p"
  shows "pcp_inv pcp (free_one_page p 0 mt z) \<and> avail pcp (free_one_page p 0 mt z) = insert p (avail pcp z) \<and> apart p z (free_one_page p 0 mt z)"
proof -
  let ?z = "free_one_page p 0 mt z"
  have p: "in_hand z p 0" "\<not> PageHead (pages z p) \<and> \<not> PageTail (pages z p)" using assms(2) by (auto simp: owned_def)
  have "buddy_inv z" using assms(1) by (simp add: pcp_inv_def)
  note f = free_one_page_full [OF this p(1) disjI1 [OF p(2)], of mt]
  have s: "strip (pages ?z q) = strip (pages z q)" for q using f p(2) by (simp add: touched_def)
  have "held ?z (set (all_pages (lists pcp)))"
    using assms f s by (intro held_step [of z "set (all_pages (lists pcp))" ?z]) (auto simp: pcp_inv_def owned_def held_def in_hand_0)
  moreover have "\<not> PageHead (pages ?z q) \<and> \<not> PageTail (pages ?z q)" if "q \<in> free_pages ?z" for q
    using that f p strip_fields [OF s [of q]] assms(1) by (auto simp: pcp_inv_def)
  ultimately show ?thesis using f s assms(1) by (auto simp: pcp_inv_def avail_def apart_def)
qed

lemma pcp_put_inv:
  assumes i: "pcp_inv pcp z" and ow: "owned pcp z p" and high: "int (pcp_batch pcp) \<le> max 1 (pcp_high pcp)"
  shows "\<exists>pcp' z'. pcp_put p cold mt pcp z = Some (pcp', z') \<and> pcp_inv pcp' z' \<and> avail pcp' z' = insert p (avail pcp z)
    \<and> apart p z z' \<and> pcp_batch pcp' = pcp_batch pcp \<and> pcp_high pcp' = pcp_high pcp"
proof (cases "mt_num mt \<ge> MIGRATE_PCPTYPES \<and> (mt = MIGRATE_ISOLATE \<or> is_migrate_cma mt)")
  case True
  then show ?thesis using buddy_free_inv [OF i ow, of mt] by (simp add: pcp_put_def)
next
  case False
  define m where "m = (if mt_num mt \<ge> MIGRATE_PCPTYPES then mt_num MIGRATE_MOVABLE else mt_num mt)"
  define pcp1 where "pcp1 = pcp\<lparr>lists := (lists pcp)(m := (if cold then lists pcp m @ [p] else p # lists pcp m)),
                     pcp_count := pcp_count pcp + 1\<rparr>"
  have m: "m < 3" by (auto simp: m_def MIGRATE_PCPTYPES_def)
  note a = pcp_add [OF i ow m pcp1_def]
  have st: "pcp_put p cold mt pcp z =
    (if pcp_count pcp1 \<ge> pcp_high pcp1 then do {
         (pcp, z) \<leftarrow> free_pcppages_bulk (pcp_batch pcp1) pcp1 z;
         Some (pcp\<lparr>pcp_count := pcp_count pcp - int (pcp_batch pcp)\<rparr>, z)
       } else Some (pcp1, z))"
    unfolding pcp_put_def Let_def m_def [symmetric] pcp1_def [symmetric] if_not_P [OF False] by (rule refl)
  show ?thesis
  proof (cases "pcp_count pcp1 \<ge> pcp_high pcp1")
    case True
    have len: "pcp_batch pcp1 \<le> length (all_pages (lists pcp1))"
      using True high a(1) i by (auto simp: pcp_inv_def pcp1_def)
    obtain pcp2 z5 where bk: "free_pcppages_bulk (pcp_batch pcp1) pcp1 z = Some (pcp2, z5)"
      "pcp_count pcp2 = pcp_count pcp1" "pcp_batch pcp2 = pcp_batch pcp1" "pcp_high pcp2 = pcp_high pcp1"
      "same_zone z z5" "\<forall>q. strip (pages z5 q) = strip (pages z q)"
      "pcp_inv (pcp2\<lparr>pcp_count := pcp_count pcp1 - int (pcp_batch pcp1)\<rparr>) z5" "avail pcp2 z5 = avail pcp1 z"
      using bulk_pcp_inv [OF a(1) len] by blast
    have "avail (pcp2\<lparr>pcp_count := n\<rparr>) z5 = avail pcp2 z5" for n by (simp add: avail_def)
    then show ?thesis using st True bk a(2) by (simp add: apart_def pcp1_def)
  next
    case False
    then show ?thesis using st a by (simp add: apart_def pcp1_def)
  qed
qed

lemma free_hot_cold_good:
  assumes "pcp_inv pcp z" "owned pcp z p" "int (pcp_batch pcp) \<le> max 1 (pcp_high pcp)"
    and "TestClearPageMlocked p z = (w, z1)" "free_pages_prepare p 0 z1 = (True, z2)"
  shows "\<exists>pcp' z'. free_hot_cold_page p cold pcp z = Some (pcp', z') \<and> pcp_inv pcp' z'
    \<and> avail pcp' z' = insert p (avail pcp z) \<and> apart p z z' \<and> pcp_batch pcp' = pcp_batch pcp \<and> pcp_high pcp' = pcp_high pcp"
proof -
  have b: "buddy_inv z" "p \<notin> free_pages z" using assms(1,2) by (auto simp: pcp_inv_def owned_def in_hand_0)
  have nb: "\<not> PageBuddy (pages z p)" using in_hand_not_buddy [OF b(1)] assms(2) by (auto simp: owned_def)
  define mt where "mt = get_pageblock_migratetype z2 p"
  define z3 where "z3 = upd_page p (\<lambda>g. g\<lparr>page_private := mt_num mt\<rparr>) z2"
  define z4 where "z4 = (let z = (if w then free_page_mlock z3 else z3) in z\<lparr>PGFREE := PGFREE z + 1\<rparr>)"
  have o2: "only p z z2"
    using only_mlock [OF nb assms(4)] only_prepare [OF _ assms(5)] nb only_not_buddy only_trans by metis
  have "only p z2 z3" unfolding z3_def using nb only_not_buddy [OF o2] by (intro only_upd) auto
  moreover have "only p z3 z4"
    by (auto simp: z4_def Let_def free_page_mlock_def only_def lists_same_def same_zone_def)
  ultimately have o4: "only p z z4" using o2 only_trans by blast
  note i = only_pcp_inv [OF o4 b(2) assms(1)]
  have "owned pcp z4 p" using assms(2) i o4 by (simp add: owned_def only_def)
  note put = pcp_put_inv [OF conjunct1 [OF i] this assms(3), of cold mt]
  have "avail pcp z4 = avail pcp z" using i by (simp add: avail_def)
  moreover have "free_hot_cold_page p cold pcp z = pcp_put p cold mt pcp z4"
    by (simp add: free_hot_cold_page_def assms(4,5) z4_def z3_def mt_def Let_def)
  ultimately show ?thesis using put apart_trans [OF only_apart [OF o4]] by auto
qed

section \<open>Taking pages\<close>

definition clean :: "zone \<Rightarrow> bool" where
  "clean z \<longleftrightarrow> (\<forall>q\<in>free_pages z. \<not> PageHead (pages z q) \<and> \<not> PageTail (pages z q))"

lemma took_keeps:
  assumes "took z p k z'" "held z R" "clean z"
  shows "held z' R" "clean z'" "\<And>q. strip (pages z' q) = strip (pages z q)" "same_zone z z'"
    "\<forall>q\<in>span p k. \<not> PageHead (pages z' q) \<and> \<not> PageTail (pages z' q)"
proof -
  have t: "span p k \<subseteq> free_pages z" "free_pages z' = free_pages z - span p k" "same_zone z z'"
    using assms(1) by (simp_all add: took_def)
  show s: "\<And>q. strip (pages z' q) = strip (pages z q)" using assms(1) by (simp add: took_def touched_def)
  show "same_zone z z'" by (rule t(3))
  show "held z' R" using assms(2) s t by (intro held_step [OF assms(2) t(3)]) (auto simp: held_def in_hand_0)
  have "PageHead (pages z' q) = PageHead (pages z q) \<and> PageTail (pages z' q) = PageTail (pages z q)" for q
    using strip_fields [OF s [of q]] by blast
  then show "clean z'" "\<forall>q\<in>span p k. \<not> PageHead (pages z' q) \<and> \<not> PageTail (pages z' q)"
    using assms(3) t by (auto simp: clean_def)
qed

lemma bulk_take_step:
  assumes "buddy_inv z" "held z R" "clean z" "took z p 0 z1"
    and z2: "z2 = upd_page p (\<lambda>g. g\<lparr>page_private := n\<rparr>) z1" and z3: "z3 = z2 \<or> z3 = z2\<lparr>NR_FREE_CMA_PAGES := c\<rparr>"
  shows "buddy_inv z3" "held z3 (insert p R)" "clean z3" "free_pages z3 = free_pages z - {p}"
    "\<And>q. strip (pages z3 q) = strip (pages z q)" "same_zone z z3" "p \<in> free_pages z"
proof -
  have t: "buddy_inv z1" "in_hand z1 p 0" "free_pages z1 = free_pages z - {p}" "p \<in> free_pages z"
    using assms(4) by (auto simp: took_def)
  note k = took_keeps [OF assms(4,2,3)]
  have "only p z1 z2" unfolding z2 using in_hand_not_buddy [OF t(1,2)] by (intro only_upd) auto
  moreover have "only p z2 z3" using z3 by (auto simp: only_def lists_same_def same_zone_def)
  ultimately have o: "only p z1 z3" by (rule only_trans)
  then have l: "lists_same z1 z3" by (simp add: only_def)
  have st: "strip (pages z3 q) = strip (pages z1 q)" for q
    using z3 by (auto simp: z2 upd_page_def strip_def)
  show "\<And>q. strip (pages z3 q) = strip (pages z q)" using st k(3) by simp
  show "same_zone z z3" using l k(4) by (auto simp: lists_same_def intro: same_zone_trans)
  show "buddy_inv z3" "free_pages z3 = free_pages z - {p}" "p \<in> free_pages z"
    using t lists_same_inv [OF l] lists_same_free [OF l] by simp_all
  have ht: "PageHead (pages z3 q) = PageHead (pages z1 q) \<and> PageTail (pages z3 q) = PageTail (pages z1 q)" for q
    using strip_fields [OF st] by blast
  show "clean z3" using k(2) ht lists_same_free [OF l] by (simp add: clean_def)
  show "held z3 (insert p R)" using k(1,5) t(2) ht lists_same_hand [OF l] by (simp add: held_def)
qed

lemma rmqueue_bulk_loop_correct:
  assumes "buddy_inv z" "held z (set front \<union> set back \<union> R)" "clean z"
    and "rmqueue_bulk_loop n 0 mt cold cma i front back z = (i', ps, z')"
  shows "\<exists>new. mset ps = mset (front @ back) + mset new \<and> i' = i + length new \<and> distinct new
    \<and> set new \<subseteq> free_pages z \<and> free_pages z' = free_pages z - set new \<and> buddy_inv z' \<and> clean z'
    \<and> held z' (set front \<union> set back \<union> set new \<union> R) \<and> same_zone z z' \<and> (\<forall>q. strip (pages z' q) = strip (pages z q))"
  using assms
proof (induction n arbitrary: i front "back" z)
  case 0
  then show ?case by (intro exI [of _ "[]"]) auto
next
  case (Suc n)
  obtain r z1 where r: "(if cma then rmqueue_cma 0 mt z else rmqueue 0 mt z) = (r, z1)" by fastforce
  note t = rmqueue_any_took [OF Suc.prems(1) r]
  show ?case
  proof (cases r)
    case None
    then show ?thesis using Suc.prems t r by (intro exI [of _ "[]"]) auto
  next
    case (Some p)
    then have tk: "took z p 0 z1" using t by simp
    define z3 where "z3 = bulk_page 0 mt p z1"
    obtain n' where n': "z3 = upd_page p (\<lambda>g. g\<lparr>page_private := n'\<rparr>) z1
        \<or> (\<exists>c. z3 = (upd_page p (\<lambda>g. g\<lparr>page_private := n'\<rparr>) z1)\<lparr>NR_FREE_CMA_PAGES := c\<rparr>)"
      unfolding z3_def bulk_page_def Let_def by metis
    then obtain c where z3: "z3 = upd_page p (\<lambda>g. g\<lparr>page_private := n'\<rparr>) z1
        \<or> z3 = (upd_page p (\<lambda>g. g\<lparr>page_private := n'\<rparr>) z1)\<lparr>NR_FREE_CMA_PAGES := c\<rparr>" by blast
    define f b where "f = (if cold then front else front @ [p])" and "b = (if cold then p # back else back)"
    have step: "rmqueue_bulk_loop n 0 mt cold cma (Suc i) f b z3 = (i', ps, z')"
      using Suc.prems(4) unfolding rmqueue_bulk_loop.simps r Some
      by (simp add: Let_def z3_def f_def b_def split: if_splits)
    note s = bulk_take_step [OF Suc.prems(1,2,3) tk refl z3]
    have fb: "set f \<union> set b \<union> R = insert p (set front \<union> set back \<union> R)" by (auto simp: f_def b_def)
    have h: "held z3 (set f \<union> set b \<union> R)" using s(2) by (simp only: fb)
    obtain new where new: "mset ps = mset (f @ b) + mset new" "i' = Suc i + length new" "distinct new"
      "set new \<subseteq> free_pages z3" "free_pages z' = free_pages z3 - set new" "buddy_inv z'" "clean z'"
      "held z' (set f \<union> set b \<union> set new \<union> R)" "same_zone z3 z'" "\<forall>q. strip (pages z' q) = strip (pages z3 q)"
      using Suc.IH [OF s(1) h s(3) step] by blast
    have "set front \<union> set back \<union> set (p # new) \<union> R = set f \<union> set b \<union> set new \<union> R" by (auto simp: f_def b_def)
    then have "held z' (set front \<union> set back \<union> set (p # new) \<union> R)" using new(8) by (simp only:)
    moreover have "mset ps = mset (front @ back) + mset (p # new)" using new(1) by (auto simp: f_def b_def)
    moreover have "distinct (p # new)" "set (p # new) \<subseteq> free_pages z" "free_pages z' = free_pages z - set (p # new)"
      using new(3,4,5) s(4,7) by auto
    moreover have "\<forall>q. strip (pages z' q) = strip (pages z q)" using new(10) s(5) by simp
    ultimately show ?thesis using new(2,6,7,9) s(6) by (intro exI [of _ "p # new"]) (auto intro: same_zone_trans)
  qed
qed

text \<open>What one try to get a block of pages promises.\<close>

definition got :: "nat \<Rightarrow> pcp \<Rightarrow> zone \<Rightarrow> nat option \<Rightarrow> pcp \<Rightarrow> zone \<Rightarrow> bool" where
  "got order pcp z r pcp' z' \<longleftrightarrow> pcp_inv pcp' z' \<and> same_zone z z' \<and> (\<forall>q. strip (pages z' q) = strip (pages z q))
     \<and> (case r of None \<Rightarrow> avail pcp' z' = avail pcp z
        | Some p \<Rightarrow> span p order \<subseteq> avail pcp z \<and> avail pcp' z' = avail pcp z - span p order
            \<and> 2 ^ order dvd p \<and> order < MAX_ORDER z)"

lemma all_pages_set:
  assumes "m < 3"
  shows "mset (all_pages (ls(m := ps))) = mset (all_pages (ls(m := []))) + mset ps"
proof -
  consider "m = 0" | "m = 1" | "m = 2" using assms by linarith
  then show ?thesis by cases (auto simp: all_pages_def)
qed

lemma pcp_refill:
  assumes "pcp_inv pcp z" "m < 3" "lists pcp m = []" "rmqueue_bulk 0 n [] mt cold cma z = (i, ps, z')"
  defines "pcp' \<equiv> pcp\<lparr>lists := (lists pcp)(m := ps), pcp_count := pcp_count pcp + int i\<rparr>"
  shows "pcp_inv pcp' z'" "avail pcp' z' = avail pcp z" "same_zone z z'" "\<forall>q. strip (pages z' q) = strip (pages z q)"
proof -
  let ?R = "set (all_pages (lists pcp))"
  have i: "buddy_inv z" "held z (set [] \<union> set [] \<union> ?R)" "clean z" using assms(1) by (simp_all add: pcp_inv_def clean_def)
  obtain ps' z1 where loop: "rmqueue_bulk_loop n 0 mt cold cma 0 [] [] z = (i, ps', z1)"
    "ps = ps'" "z' = z1\<lparr>NR_FREE_PAGES := NR_FREE_PAGES z1 - int i\<rparr>"
    using assms(4) by (auto simp: rmqueue_bulk_def Let_def split: prod.splits if_splits)
  obtain new where new: "mset ps = mset new" "i = length new" "distinct new"
    "set new \<subseteq> free_pages z" "free_pages z1 = free_pages z - set new" "buddy_inv z1" "clean z1"
    "held z1 (set new \<union> ?R)" "same_zone z z1" "\<forall>q. strip (pages z1 q) = strip (pages z q)"
    using rmqueue_bulk_loop_correct [OF i loop(1)] loop(2) by auto
  have l: "lists_same z1 z'" by (simp add: loop(3) lists_same_def same_zone_def)
  have pg: "pages z' = pages z1" by (simp add: loop(3))
  have e: "all_pages ((lists pcp)(m := [])) = all_pages (lists pcp)" using assms(3) fun_upd_idem [of "lists pcp" m "[]"] by simp
  have ms: "mset (all_pages ((lists pcp)(m := ps))) = mset (all_pages (lists pcp) @ new)"
    using all_pages_set [OF assms(2), of "lists pcp" ps] e new(1) by simp
  then have set: "set (all_pages ((lists pcp)(m := ps))) = ?R \<union> set new" by (metis set_append set_mset_mset)
  have "?R \<inter> free_pages z = {}" using assms(1) by (auto simp: pcp_inv_def held_def in_hand_0)
  then have "distinct (all_pages (lists pcp) @ new)" using assms(1) new(3,4) by (auto simp: pcp_inv_def)
  then have d: "distinct (all_pages ((lists pcp)(m := ps)))" using ms mset_eq_imp_distinct_iff by blast
  have len: "length (all_pages ((lists pcp)(m := ps))) = length (all_pages (lists pcp)) + i"
    using arg_cong [OF ms, of size] new(2) by simp
  show "pcp_inv pcp' z'"
    using d len new(6,7,8) assms(1) lists_same_inv [OF l] lists_same_hand [OF l] lists_same_free [OF l] pg
    by (simp add: pcp_inv_def pcp'_def set held_def clean_def Un_commute)
  have "free_pages z' = free_pages z - set new" "lists pcp' = (lists pcp)(m := ps)"
    using new(5) lists_same_free [OF l] by (simp_all add: pcp'_def)
  then show "avail pcp' z' = avail pcp z"
    using new(4) unfolding avail_def by (simp only: set) blast
  show "same_zone z z'" using new(9) l by (auto simp: lists_same_def intro: same_zone_trans)
  show "\<forall>q. strip (pages z' q) = strip (pages z q)" using new(10) pg by simp
qed

lemma pcp_take:
  assumes "pcp_inv pcp z" "m < 3" "p \<in> set (lists pcp m)"
  defines "pcp' \<equiv> pcp\<lparr>lists := (lists pcp)(m := filter (\<lambda>q. q \<noteq> p) (lists pcp m)), pcp_count := pcp_count pcp - 1\<rparr>"
  shows "got 0 pcp z (Some p) pcp' z"
proof -
  let ?ls = "(lists pcp)(m := filter (\<lambda>q. q \<noteq> p) (lists pcp m))"
  have dl: "distinct (all_pages (lists pcp))" using assms(1) by (simp add: pcp_inv_def)
  note sp = all_pages_split [OF assms(2) dl]
  have rm: "mset (lists pcp m) = add_mset p (mset (filter (\<lambda>q. q \<noteq> p) (lists pcp m)))"
    using sp(3) assms(3) by (simp add: filter_remove1_distinct [symmetric])
  have ms: "mset (all_pages (lists pcp)) = add_mset p (mset (all_pages ?ls))"
    using all_pages_set [OF assms(2), of "lists pcp" "lists pcp m"]
    unfolding fun_upd_triv rm all_pages_set [OF assms(2), of "lists pcp" "filter (\<lambda>q. q \<noteq> p) (lists pcp m)"]
    by (simp only: union_mset_add_mset_right)
  then have "mset (all_pages (lists pcp)) = mset (p # all_pages ?ls)" by simp
  from mset_eq_imp_distinct_iff [OF this] have d: "distinct (p # all_pages ?ls)" using dl by simp
  have st: "set (all_pages (lists pcp)) = insert p (set (all_pages ?ls))"
    using ms by (metis set_mset_add_mset_insert set_mset_mset)
  have len: "length (all_pages (lists pcp)) = Suc (length (all_pages ?ls))"
    using arg_cong [OF ms, of size] by simp
  have ls: "lists pcp' = ?ls" "pcp_count pcp' = pcp_count pcp - 1" by (simp_all add: pcp'_def)
  have hp: "held z (insert p (set (all_pages ?ls)))" using assms(1) unfolding pcp_inv_def st by blast
  then have p: "p \<notin> free_pages z" "0 < MAX_ORDER z" by (simp_all add: held_def in_hand_0)
  have "pcp_inv pcp' z"
    using assms(1) d len held_mono [OF hp, of "set (all_pages ?ls)"] unfolding pcp_inv_def ls by auto
  moreover have "avail pcp' z = avail pcp z - {p}"
    unfolding avail_def ls st using p d by auto
  moreover have "p \<in> avail pcp z" unfolding avail_def st by simp
  ultimately show ?thesis using p(2) by (simp add: got_def)
qed

lemma rmqueue_pcp_got:
  assumes "pcp_inv pcp z" "mt_num mt < 3" "rmqueue_pcp g mt pcp z = (r, pcp', z')"
  shows "got 0 pcp z r pcp' z'"
proof -
  let ?m = "mt_num mt"
  obtain pcp1 z1 where one: "(if lists pcp ?m = [] then
      let (i, ps, z) = rmqueue_bulk 0 (pcp_batch pcp) (lists pcp ?m) mt (GFP_COLD g) (GFP_CMA g) z in
      (pcp\<lparr>lists := (lists pcp)(?m := ps), pcp_count := pcp_count pcp + int i\<rparr>, z) else (pcp, z)) = (pcp1, z1)"
    by fastforce
  have a: "pcp_inv pcp1 z1" "avail pcp1 z1 = avail pcp z" "same_zone z z1" "\<forall>q. strip (pages z1 q) = strip (pages z q)"
    using one assms(1) pcp_refill [OF assms(1,2)] by (auto split: if_splits prod.splits)
  show ?thesis
  proof (cases "lists pcp1 ?m = []")
    case True
    then have "r = None \<and> pcp' = pcp1 \<and> z' = z1" using assms(3) unfolding rmqueue_pcp_def Let_def one [unfolded Let_def] by simp
    with a show ?thesis by (auto simp: got_def)
  next
    case False
    define p where "p = (if GFP_COLD g then last (lists pcp1 ?m) else hd (lists pcp1 ?m))"
    have p: "p \<in> set (lists pcp1 ?m)" using False by (simp add: p_def)
    have "r = Some p \<and> z' = z1 \<and> pcp' = pcp1\<lparr>lists := (lists pcp1)(?m := filter (\<lambda>q. q \<noteq> p) (lists pcp1 ?m)),
        pcp_count := pcp_count pcp1 - 1\<rparr>"
      using assms(3) False unfolding rmqueue_pcp_def Let_def one [unfolded Let_def] p_def by simp
    with pcp_take [OF a(1) assms(2) p] a show ?thesis
      by (auto simp: got_def same_zone_def)
  qed
qed

lemma rmqueue_buddy_got:
  assumes "pcp_inv pcp z" "rmqueue_buddy order g mt z = (r, z')"
  shows "got order pcp z r pcp z'"
proof -
  obtain r1 z1 where 1: "(if GFP_CMA g then rmqueue_cma order mt z else rmqueue order mt z) = (r1, z1)" by fastforce
  have i: "buddy_inv z" "held z (set (all_pages (lists pcp)))" "clean z" using assms(1) by (simp_all add: pcp_inv_def clean_def)
  note t = rmqueue_any_took [OF i(1) 1]
  show ?thesis
  proof (cases r1)
    case None
    then show ?thesis using assms t 1 by (auto simp: rmqueue_buddy_def got_def)
  next
    case (Some p)
    then have tk: "took z p order z1" using t by simp
    note k = took_keeps [OF tk i(2,3)]
    have r: "r = Some p" "z' = mod_zone_freepage_state (- (2 ^ order)) (get_pageblock_migratetype z1 p) z1"
      using assms(2) 1 Some by (auto simp: rmqueue_buddy_def)
    have l: "lists_same z1 z'" and pg: "pages z' = pages z1"
      by (simp_all add: r(2)) (simp add: mod_zone_freepage_state_def Let_def)
    have f: "free_pages z' = free_pages z - span p order" "span p order \<subseteq> free_pages z" "buddy_inv z'"
      "2 ^ order dvd p" "order < MAX_ORDER z"
      using tk lists_same_free [OF l] lists_same_inv [OF l] by (auto simp: took_def in_hand_def block_ok_def same_zone_def)
    have "pcp_inv pcp z'"
      using assms(1) f k lists_same_hand [OF l] lists_same_free [OF l] pg by (simp add: pcp_inv_def held_def clean_def)
    moreover have "avail pcp z' = avail pcp z - span p order"
      using f assms(1) by (auto simp: avail_def pcp_inv_def held_def in_hand_0)
    moreover have "same_zone z z'" using k(4) l by (auto simp: lists_same_def intro: same_zone_trans)
    ultimately show ?thesis using f k(3) pg r(1) by (auto simp: got_def avail_def)
  qed
qed

text \<open>Changes inside a set of pages in hand.\<close>

definition within :: "nat set \<Rightarrow> zone \<Rightarrow> zone \<Rightarrow> bool" where
  "within S z z' \<longleftrightarrow> lists_same z z' \<and> (\<forall>q. q \<notin> S \<longrightarrow> pages z' q = pages z q)"

lemma within_refl [simp]: "within S z z" and within_trans: "within S a b \<Longrightarrow> within S b c \<Longrightarrow> within S a c"
  by (auto simp: within_def intro: lists_same_trans)

lemma within_upd: "q \<in> S \<Longrightarrow> \<not> PageBuddy (pages z q) \<Longrightarrow> \<not> PageBuddy (h (pages z q)) \<Longrightarrow> within S z (upd_page q h z)"
  by (auto simp: within_def lists_same_def upd_page_def same_zone_def)

lemma within_buddy: "within S z z' \<Longrightarrow> PageBuddy (pages z' q) = PageBuddy (pages z q)"
  by (simp add: within_def lists_same_def)

lemma within_fold:
  assumes "\<And>q. q \<in> S \<Longrightarrow> \<not> PageBuddy (pages z q)" "\<And>g. PageBuddy (h g) = PageBuddy g" "\<And>i. i \<in> set is \<Longrightarrow> p + i \<in> S"
  shows "within S z (fold (\<lambda>i. upd_page (p + i) h) is z)"
  using assms(1,3)
proof (induction "is" arbitrary: z)
  case (Cons i "is")
  have w: "within S z (upd_page (p + i) h z)"
    using Cons.prems assms(2) by (intro within_upd) auto
  have "within S (upd_page (p + i) h z) (fold (\<lambda>i. upd_page (p + i) h) is (upd_page (p + i) h z))"
    using Cons.prems within_buddy [OF w] by (intro Cons.IH) auto
  with w within_trans show ?case by auto
qed simp

lemma within_check:
  assumes "\<And>q. q \<in> S \<Longrightarrow> \<not> PageBuddy (pages z q)" "set ps \<subseteq> S" "check_new_pages ps z = (bad, z')"
  shows "within S z z' \<and> (if bad then \<exists>q\<in>set ps. fst (check_new_page q z)
    else z' = z \<and> (\<forall>q\<in>set ps. \<not> fst (check_new_page q z)))"
  using assms(2,3)
proof (induction ps)
  case (Cons p ps)
  show ?case
  proof (cases "fst (check_new_page p z)")
    case True
    then have "bad \<and> z' = bad_page p z"
      using Cons.prems(2) by (auto simp: check_new_page_def Let_def split: if_splits)
    moreover have "within S z (bad_page p z)"
      using assms(1) [of p] Cons.prems(1) by (auto simp: within_def bad_page_def lists_same_def upd_page_def same_zone_def)
    ultimately show ?thesis using True by auto
  next
    case False
    then have "check_new_page p z = (False, z)" by (auto simp: check_new_page_def Let_def split: if_splits)
    with Cons show ?thesis by auto
  qed
qed simp

lemma prep_new_page_within:
  assumes S: "\<And>q. q \<in> span p order \<Longrightarrow> \<not> PageBuddy (pages z q)" and "prep_new_page p order g z = (bad, z')"
  shows "within (span p order) z z' \<and> (if bad then \<exists>q\<in>span p order. fst (check_new_page q z)
    else (\<forall>q\<in>span p order. \<not> fst (check_new_page q z)) \<and> page_count (pages z' p) = 1)"
proof -
  let ?S = "span p order"
  obtain b z1 where c: "check_new_pages [p..<p + 2 ^ order] z = (b, z1)" by fastforce
  have sub: "set [p..<p + 2 ^ order] = ?S" by (auto simp: span_def)
  note w = within_check [OF S _ c, of ?S, unfolded sub, OF _ order_refl]
  show ?thesis
  proof (cases b)
    case True
    then show ?thesis using assms(2) c w by (simp add: prep_new_page_def)
  next
    case False
    then have z1: "z1 = z" using w by simp
    define z2 where "z2 = upd_page p (\<lambda>g. g\<lparr>page_private := 0, page_count := 1\<rparr>) z"
    define z3 where "z3 = (if GFP_ZERO g then prep_zero_page p order z2 else z2)"
    define z4 where "z4 = (if order \<noteq> 0 \<and> GFP_COMP g then prep_compound_page p order z3 else z3)"
    have r: "bad = False" "z' = z4"
      using assms(2) c False z1 by (auto simp: prep_new_page_def Let_def z2_def z3_def z4_def)
    have w2: "within ?S z z2" unfolding z2_def using S by (intro within_upd) auto
    have w3: "within ?S z2 z3" unfolding z3_def prep_zero_page_def using S within_buddy [OF w2]
      by (auto intro!: within_fold simp: span_def)
    have b3: "\<And>q. q \<in> ?S \<Longrightarrow> \<not> PageBuddy (pages z3 q)" using S within_buddy [OF w2] within_buddy [OF w3] by simp
    define h where "h = upd_page p (\<lambda>g. g\<lparr>compound_dtor := True, compound_order := order, PageHead := True\<rparr>) z3"
    have wh: "within ?S z3 h" unfolding h_def using b3 by (intro within_upd) auto
    have "within ?S h (fold (\<lambda>i. upd_page (p + i) (\<lambda>g. g\<lparr>PageTail := True, page_count := 0, first_page := p\<rparr>)) [1..<2 ^ order] h)"
      using b3 within_buddy [OF wh] by (intro within_fold) (auto simp: span_def)
    then have "within ?S z3 (prep_compound_page p order z3)"
      unfolding prep_compound_page_def h_def [symmetric] by (rule within_trans [OF wh])
    then have w4: "within ?S z3 z4" by (simp add: z4_def)
    have "page_count (pages z3 p) = page_count (pages z2 p)"
      by (simp add: z3_def prep_zero_page_def prep_tails)
    then have "page_count (pages z4 p) = 1"
      by (simp add: z4_def prep_compound_page_def prep_tails upd_page_def z2_def)
    moreover have "within ?S z z4" using w2 w3 w4 within_trans by blast
    ultimately show ?thesis using r w False by simp
  qed
qed

lemma within_pcp_inv:
  assumes "pcp_inv pcp z" "within S z z'" "S \<inter> avail pcp z = {}"
  shows "pcp_inv pcp z'" "avail pcp z' = avail pcp z"
proof -
  have l: "lists_same z z'" using assms(2) by (simp add: within_def)
  show av: "avail pcp z' = avail pcp z" using lists_same_free [OF l] by (simp add: avail_def)
  have "pages z' q = pages z q" if "q \<in> avail pcp z" for q using assms(2,3) that by (auto simp: within_def)
  then show "pcp_inv pcp z'"
    using assms(1) lists_same_inv [OF l] lists_same_hand [OF l] lists_same_free [OF l]
    by (auto simp: pcp_inv_def held_def avail_def)
qed

lemma finite_avail: "buddy_inv z \<Longrightarrow> finite (avail pcp z)"
proof -
  assume b: "buddy_inv z"
  have m: "(UNIV :: mtype set) = set mtypes" by (auto simp: mtypes_def) (metis mtype.exhaust)
  have "blocks z \<subseteq> (\<Union>k<MAX_ORDER z. \<Union>mt\<in>UNIV. set (free_list z k mt) \<times> {k})"
    using b by (fastforce simp: blocks_def buddy_inv_def block_inv_def block_ok_def)
  then have "finite (blocks z)" by (rule finite_subset) (simp add: m)
  then show ?thesis by (auto simp: avail_def free_pages_def span_def)
qed

lemma check_new_page_cong:
  "same_zone z z' \<Longrightarrow> strip (pages z' q) = strip (pages z q) \<Longrightarrow> fst (check_new_page q z') = fst (check_new_page q z)"
  using strip_fields [of "pages z' q" "pages z q"] by (auto simp: check_new_page_def Let_def same_zone_def)

lemma got_not_buddy:
  assumes "got order pcp z (Some p) pcp' z'" "q \<in> span p order"
  shows "\<not> PageBuddy (pages z' q)"
proof
  assume "PageBuddy (pages z' q)"
  then have "q \<in> free_pages z'"
    using assms(1) blocks_span [of q _ z'] by (auto simp: got_def pcp_inv_def buddy_inv_def meta_inv_def)
  then show False using assms by (auto simp: got_def avail_def)
qed

definition bad_blocks :: "nat \<Rightarrow> zone \<Rightarrow> nat list \<Rightarrow> bool" where
  "bad_blocks order z bs \<longleftrightarrow> (\<forall>b\<in>set bs. \<exists>q\<in>span b order. fst (check_new_page q z))"

definition page_given :: "nat \<Rightarrow> pcp \<Rightarrow> zone \<Rightarrow> nat option \<Rightarrow> pcp \<Rightarrow> zone \<Rightarrow> nat list \<Rightarrow> bool" where
  "page_given order pcp z r pcp' z' bs \<longleftrightarrow> pcp_inv pcp' z' \<and> bad_blocks order z bs
     \<and> (\<forall>b\<in>set bs. span b order \<subseteq> avail pcp z)
     \<and> (case r of None \<Rightarrow> avail pcp' z' = avail pcp z - (\<Union>b\<in>set bs. span b order)
        | Some p \<Rightarrow> span p order \<subseteq> avail pcp z \<and> 2 ^ order dvd p \<and> page_count (pages z' p) = 1
            \<and> (\<forall>q\<in>span p order. \<not> fst (check_new_page q z))
            \<and> avail pcp' z' = avail pcp z - span p order - (\<Union>b\<in>set bs. span b order))"

lemma page_given_retry:
  assumes g: "page_given order pcp1 z2 r pcp' z' bs" and av: "avail pcp1 z2 = avail pcp z - span p order"
    and sub: "span p order \<subseteq> avail pcp z" and bad: "\<exists>q\<in>span p order. fst (check_new_page q z)"
    and same: "\<And>q. q \<in> avail pcp1 z2 \<Longrightarrow> fst (check_new_page q z2) = fst (check_new_page q z)"
  shows "page_given order pcp z r pcp' z' (p # bs)"
proof -
  have bs: "\<forall>b\<in>set bs. span b order \<subseteq> avail pcp1 z2" using g by (simp add: page_given_def)
  then have "bad_blocks order z (p # bs)"
    using g bad same unfolding bad_blocks_def page_given_def by (metis set_ConsD subsetD)
  moreover have "\<forall>q\<in>span p' order. \<not> fst (check_new_page q z)" if "r = Some p'" for p'
  proof -
    have "span p' order \<subseteq> avail pcp1 z2" "\<forall>q\<in>span p' order. \<not> fst (check_new_page q z2)"
      using g that by (simp_all add: page_given_def)
    then show ?thesis using same by (metis subsetD)
  qed
  ultimately show ?thesis
    using g bs av sub by (cases r) (auto simp: page_given_def)
qed

lemma buffered_rmqueue_given:
  assumes "pcp_inv pcp z" "order = 0 \<longrightarrow> mt_num mt < 3"
  shows "\<exists>r pcp' z' bs. buffered_rmqueue order g mt pcp z = Some (r, pcp', z') \<and> page_given order pcp z r pcp' z' bs"
  using assms(1)
proof (induction "card (avail pcp z)" arbitrary: pcp z rule: less_induct)
  case less
  obtain r pcp1 z1 where t: "(if order = 0 then rmqueue_pcp g mt pcp z
      else let (r, z) = rmqueue_buddy order g mt z in (r, pcp, z)) = (r, pcp1, z1)"
    by (metis prod_cases3)
  have got: "got order pcp z r pcp1 z1"
    using t assms(2) rmqueue_pcp_got [OF less.prems] rmqueue_buddy_got [OF less.prems]
    by (auto split: if_splits prod.splits)
  show ?case
  proof (cases r)
    case None
    then have "buffered_rmqueue order g mt pcp z = Some (None, pcp1, z1)"
      by (subst buffered_rmqueue.simps) (simp add: t)
    with got None show ?thesis
      by (intro exI [of _ None] exI [of _ pcp1] exI [of _ z1] exI [of _ "[]"]) (simp add: got_def page_given_def bad_blocks_def)
  next
    case (Some p)
    let ?S = "span p order"
    define z1' where "z1' = z1\<lparr>PGALLOC := PGALLOC z1 + 2 ^ order\<rparr>"
    obtain bad z2 where pr: "prep_new_page p order g z1' = (bad, z2)" by fastforce
    have step: "buffered_rmqueue order g mt pcp z =
        (if bad then buffered_rmqueue order g mt pcp1 z2 else Some (Some p, pcp1, z2))"
      by (subst buffered_rmqueue.simps) (simp add: t Some z1'_def [symmetric] pr)
    have l1: "within ?S z1 z1'" by (simp add: within_def z1'_def lists_same_def same_zone_def)
    have sub: "?S \<subseteq> avail pcp z" "avail pcp1 z1 = avail pcp z - ?S" "pcp_inv pcp1 z1" "2 ^ order dvd p"
      and st: "same_zone z z1" "\<And>q. strip (pages z1 q) = strip (pages z q)"
      using got Some by (auto simp: got_def)
    have nb: "\<And>q. q \<in> ?S \<Longrightarrow> \<not> PageBuddy (pages z1' q)"
      using got_not_buddy got Some within_buddy [OF l1] by blast
    note w = prep_new_page_within [OF nb pr]
    have w2: "within ?S z1 z2" using within_trans [OF l1] w by blast
    note p2 = within_pcp_inv [OF sub(3) w2]
    have ck: "fst (check_new_page q z1') = fst (check_new_page q z)" for q
      using st by (intro check_new_page_cong) (auto simp: z1'_def same_zone_def)
    have disj: "?S \<inter> avail pcp1 z1 = {}" using sub by auto
    show ?thesis
    proof (cases bad)
      case False
      then have "page_given order pcp z (Some p) pcp1 z2 []"
        using p2 [OF disj] sub w ck by (simp add: page_given_def bad_blocks_def)
      with step False show ?thesis by auto
    next
      case True
      have fin: "finite (avail pcp z)" using less.prems finite_avail by (auto simp: pcp_inv_def)
      have "avail pcp1 z2 \<subset> avail pcp z" using p2(2) [OF disj] sub span_self [of p order] by blast
      then have "card (avail pcp1 z2) < card (avail pcp z)" by (rule psubset_card_mono [OF fin])
      then obtain r' pcp' z' bs where ih: "buffered_rmqueue order g mt pcp1 z2 = Some (r', pcp', z')"
        "page_given order pcp1 z2 r' pcp' z' bs"
        using less.hyps p2(1) [OF disj] by blast
      have "same_zone z1 z2" using w2 by (simp add: within_def lists_same_def)
      then have same: "fst (check_new_page q z2) = fst (check_new_page q z)" if "q \<in> avail pcp1 z2" for q
        using that p2(2) [OF disj] disj w2 st
        by (intro check_new_page_cong) (auto simp: within_def intro: same_zone_trans)
      have "page_given order pcp z r' pcp' z' (p # bs)"
        using True w ck p2(2) [OF disj] sub same by (intro page_given_retry [OF ih(2)]) auto
      with step True ih(1) show ?thesis by auto
    qed
  qed
qed

section \<open>Properties\<close>

definition pcp0 :: pcp where
  "pcp0 = \<lparr>lists = (\<lambda>_. []), pcp_count = 0, pcp_high = 2, pcp_batch = 1\<rparr>"

lemma pcp0_inv: "pcp_inv pcp0 zone1"
proof -
  have "\<not> PageHead (pages zone1 q) \<and> \<not> PageTail (pages zone1 q)" for q
  proof -
    have "touched (free_pages zone0 \<union> span 8 3) zone0 zone1"
      using free_one_page'_correct [OF zone0_inv hand8, of MIGRATE_MOVABLE] by (simp add: zone1_def)
    then show ?thesis using strip_fields [of "pages zone1 q" "pages zone0 q"] by (simp add: touched_def)
  qed
  then show ?thesis using zone1_facts(1) by (simp add: pcp_inv_def pcp0_def all_pages_def held_def)
qed

lemma owned3: "owned pcp0 zone1 3"
proof -
  have "\<not> PageHead (pages zone1 3) \<and> \<not> PageTail (pages zone1 3)" by code_simp
  then show ?thesis
    using zone1_facts by (simp add: owned_def in_hand_0 pcp0_def all_pages_def span_def same_zone_def)
qed

text \<open>
  C21. \<open>free_hot_cold_page\<close> always returns and keeps the invariant of the per-CPU lists and the buddy
  lists (no page on two lists, \<open>count\<close> equal to the number of listed pages). A page that passes
  the checks becomes available exactly once - on a per-CPU list or in the buddy lists - and no
  other page does, however many pages the overflow drain moves; a page that fails them does
  not become available.
\<close>

theorem free_hot_cold_page_correct:
  assumes "pcp_inv pcp z" "owned pcp z p" "int (pcp_batch pcp) \<le> max 1 (pcp_high pcp)"
  shows "\<exists>pcp' z'. free_hot_cold_page p cold pcp z = Some (pcp', z') \<and> pcp_inv pcp' z'
    \<and> avail pcp' z' = (if fst (free_pages_prepare p 0 (snd (TestClearPageMlocked p z)))
                       then insert p (avail pcp z) else avail pcp z)"
proof -
  obtain w z1 where t: "TestClearPageMlocked p z = (w, z1)" by fastforce
  obtain g z2 where f: "free_pages_prepare p 0 z1 = (g, z2)" by fastforce
  show ?thesis
  proof (cases g)
    case True
    then show ?thesis using free_hot_cold_good [OF assms t, of z2 cold] f t by auto
  next
    case False
    have b: "buddy_inv z" "p \<notin> free_pages z" using assms(1,2) by (auto simp: pcp_inv_def owned_def in_hand_0)
    have nb: "\<not> PageBuddy (pages z p)" using in_hand_not_buddy [OF b(1)] assms(2) by (auto simp: owned_def)
    have "only p z z2"
      using only_mlock [OF nb t] only_prepare [OF _ f] nb only_not_buddy only_trans by metis
    note i = only_pcp_inv [OF this b(2) assms(1)]
    show ?thesis using False f t i by (simp add: free_hot_cold_page_def avail_def)
  qed
qed

theorem free_hot_cold_page_correct_witness:
  "\<exists>pcp' z'. free_hot_cold_page 3 False pcp0 zone1 = Some (pcp', z') \<and> pcp_inv pcp' z'
    \<and> avail pcp' z' = insert 3 (span 8 3)"
proof -
  have "fst (free_pages_prepare 3 0 (snd (TestClearPageMlocked 3 zone1)))" by code_simp
  moreover have "avail pcp0 zone1 = span 8 3" using zone1_facts(2) by (simp add: avail_def pcp0_def all_pages_def)
  ultimately show ?thesis
    using free_hot_cold_page_correct [OF pcp0_inv owned3, of False] by (simp add: pcp0_def)
qed

text \<open>
  \<open>free_pcppages_bulk\<close> asked for at most as many pages as are listed always returns: it moves
  exactly that many pages from the per-CPU lists to the buddy lists, adds them to the zone's
  counter, and loses or duplicates none. (Asked for more, its search for a non-empty list never ends.)
\<close>

theorem free_pcppages_bulk_correct:
  assumes "pcp_inv pcp z" "n \<le> length (all_pages (lists pcp))"
  shows "\<exists>pcp' z'. free_pcppages_bulk n pcp z = Some (pcp', z')
    \<and> pcp_inv (pcp'\<lparr>pcp_count := pcp_count pcp - int n\<rparr>) z'
    \<and> length (all_pages (lists pcp')) = length (all_pages (lists pcp)) - n
    \<and> avail pcp' z' = avail pcp z \<and> NR_FREE_PAGES z' = NR_FREE_PAGES z + int n"
proof -
  obtain pcp' z' where b: "free_pcppages_bulk n pcp z = Some (pcp', z')"
    "pcp_inv (pcp'\<lparr>pcp_count := pcp_count pcp - int n\<rparr>) z'" "avail pcp' z' = avail pcp z"
    "NR_FREE_PAGES z' = NR_FREE_PAGES z + int n"
    using bulk_pcp_inv [OF assms] by blast
  then have "int (length (all_pages (lists pcp'))) = int (length (all_pages (lists pcp))) - int n"
    using assms(1) by (simp add: pcp_inv_def)
  with b assms(2) show ?thesis by (intro exI [of _ pcp'] exI [of _ z']) (simp add: of_nat_diff [symmetric])
qed

definition pcp3 :: pcp where
  "pcp3 = \<lparr>lists = (\<lambda>m. if m = 2 then [3] else []), pcp_count = 1, pcp_high = 2, pcp_batch = 1\<rparr>"

lemma pcp3_inv: "pcp_inv pcp3 zone1"
  using pcp_add(1) [OF pcp0_inv owned3, of 2 pcp3 False] by (simp add: pcp3_def pcp0_def fun_upd_def)

theorem free_pcppages_bulk_correct_witness:
  "\<exists>pcp' z'. free_pcppages_bulk 1 pcp3 zone1 = Some (pcp', z') \<and> all_pages (lists pcp') = []
    \<and> 3 \<in> free_pages z'"
proof -
  have a: "3 \<in> avail pcp3 zone1" by (simp add: avail_def pcp3_def all_pages_def)
  obtain pcp' z' where r: "free_pcppages_bulk 1 pcp3 zone1 = Some (pcp', z')"
    "length (all_pages (lists pcp')) = length (all_pages (lists pcp3)) - 1" "avail pcp' z' = avail pcp3 zone1"
    using free_pcppages_bulk_correct [OF pcp3_inv, of 1] by (auto simp: pcp3_def all_pages_def)
  then have "all_pages (lists pcp') = []" by (simp add: pcp3_def all_pages_def)
  with r a show ?thesis by (auto simp: avail_def)
qed

text \<open>
  C18. \<open>buffered_rmqueue\<close> always returns, also when it meets pages that fail \<open>check_new_page\<close> and
  tries again. It keeps the invariant; a returned block was available, is naturally aligned,
  passes the checks and has reference count one; what is no longer available afterwards is that
  block and the blocks that were dropped because a page in them failed the checks.
\<close>

theorem buffered_rmqueue_correct:
  assumes "pcp_inv pcp z" "order = 0 \<longrightarrow> mt_num mt < MIGRATE_PCPTYPES"
  shows "\<exists>r pcp' z' bs. buffered_rmqueue order g mt pcp z = Some (r, pcp', z') \<and> pcp_inv pcp' z'
    \<and> (\<forall>b\<in>set bs. \<exists>q\<in>span b order. fst (check_new_page q z))
    \<and> (case r of None \<Rightarrow> avail pcp' z' = avail pcp z - (\<Union>b\<in>set bs. span b order)
       | Some p \<Rightarrow> span p order \<subseteq> avail pcp z \<and> 2 ^ order dvd p \<and> page_count (pages z' p) = 1
           \<and> (\<forall>q\<in>span p order. \<not> fst (check_new_page q z))
           \<and> avail pcp' z' = avail pcp z - span p order - (\<Union>b\<in>set bs. span b order))"
  using buffered_rmqueue_given [OF assms(1), of order mt g] assms(2)
  unfolding page_given_def bad_blocks_def MIGRATE_PCPTYPES_def by blast

definition gfp0 :: gfp where
  "gfp0 = \<lparr>GFP_ZERO = True, GFP_COMP = False, GFP_COLD = False, GFP_CMA = False\<rparr>"

theorem buffered_rmqueue_correct_witness:
  "\<exists>pcp' z'. buffered_rmqueue 0 gfp0 MIGRATE_MOVABLE pcp3 zone1 = Some (Some 3, pcp', z') \<and> pcp_inv pcp' z'
    \<and> 3 \<notin> avail pcp' z'"
proof -
  have e: "map_option fst (buffered_rmqueue 0 gfp0 MIGRATE_MOVABLE pcp3 zone1) = Some (Some 3)" by code_simp
  then obtain pcp' z' where b: "buffered_rmqueue 0 gfp0 MIGRATE_MOVABLE pcp3 zone1 = Some (Some 3, pcp', z')"
    by (auto split: option.splits prod.splits)
  with buffered_rmqueue_correct [OF pcp3_inv, of 0 MIGRATE_MOVABLE gfp0] show ?thesis
    by (auto simp: MIGRATE_PCPTYPES_def)
qed

lemma rounddown_pow_of_two_le: "0 < n \<Longrightarrow> \<exists>k. rounddown_pow_of_two n = 2 ^ k \<and> 2 ^ k \<le> n"
proof (induction n rule: rounddown_pow_of_two.induct)
  case (1 n)
  show ?case
  proof (cases "n < 2")
    case True
    with 1 show ?thesis by (intro exI [of _ 0]) (simp add: rounddown_pow_of_two.simps)
  next
    case False
    then obtain k where "rounddown_pow_of_two (n div 2) = 2 ^ k" "2 ^ k \<le> n div 2" using 1 by auto
    with False show ?thesis by (intro exI [of _ "Suc k"]) (simp add: rounddown_pow_of_two.simps [of n])
  qed
qed

text \<open>
  The sizes that the code gives the per-CPU lists: the batch of a zone is one below a power of two
  and at most 31, and whichever of the two functions configures a list, its batch is positive
  and never exceeds the larger of its high mark and one - which is what the overflow drain
  needs to come to an end.
\<close>

theorem pageset_sizes:
  "(\<exists>k\<le>5. zone_batchsize n = 2 ^ k - 1)
   \<and> (\<forall>pcp \<in> {setup_pageset (zone_batchsize n), setup_pageset 0, setup_pagelist_highmark h pcp1}.
        1 \<le> pcp_batch pcp \<and> int (pcp_batch pcp) \<le> max 1 (pcp_high pcp))"
proof -
  define b where "b = (let batch = n div 1024;
         batch = (if batch * 4096 > 512 * 1024 then (512 * 1024) div 4096 else batch);
         batch = batch div 4 in (if batch < 1 then 1 else batch))"
  have e: "zone_batchsize n = rounddown_pow_of_two (b + b div 2) - 1"
    by (simp add: zone_batchsize_def b_def Let_def)
  have "1 \<le> b" "b \<le> 32" by (auto simp: b_def Let_def)
  then obtain k where k: "rounddown_pow_of_two (b + b div 2) = 2 ^ k" "2 ^ k \<le> b + b div 2"
    using rounddown_pow_of_two_le [of "b + b div 2"] by auto
  have "(2::nat) ^ k < 2 ^ 6" using k(2) \<open>b \<le> 32\<close> by simp
  then have "k < 6" by (rule power_less_imp_less_exp [rotated]) simp
  with e k have "\<exists>k\<le>5. zone_batchsize n = 2 ^ k - 1" by (intro exI [of _ k]) simp
  moreover have "1 \<le> pcp_batch (setup_pageset c) \<and> int (pcp_batch (setup_pageset c)) \<le> max 1 (pcp_high (setup_pageset c))" for c
    by (auto simp: setup_pageset_def max_def)
  moreover have "1 \<le> pcp_batch (setup_pagelist_highmark h pcp1)
      \<and> int (pcp_batch (setup_pagelist_highmark h pcp1)) \<le> max 1 (pcp_high (setup_pagelist_highmark h pcp1))"
    by (auto simp: setup_pagelist_highmark_def Let_def max_def)
  ultimately show ?thesis by simp
qed

theorem pageset_sizes_witness:
  "setup_pageset 0 \<in> {setup_pageset (zone_batchsize 262144), setup_pageset 0, setup_pagelist_highmark 186 pcp0}
   \<and> 1 \<le> pcp_batch (setup_pageset 0) \<and> int (pcp_batch (setup_pageset 0)) \<le> max 1 (pcp_high (setup_pageset 0))"
  using pageset_sizes [of 262144 186 pcp0] by simp

end
