(* ===== verification/Watermark.thy ===== *)
theory Watermark
  imports Page_Pcp
begin

text \<open>
  Watermarks and reserves of \<open>hw5/mm/page_alloc.c\<close>: the test that guards every allocation, and the
  functions that compute the marks, the low-memory reserves and the reserved page blocks. One
  node, as on the target (\<open>CONFIG_NUMA\<close> is off). Page counts are far below the width of \<open>long\<close>, so
  they are kept as unbounded numbers.
\<close>

section \<open>State\<close>

record wzone =
  present_pages :: nat
  is_highmem :: bool
  cma_wmark_pages :: nat
  watermark :: "nat \<Rightarrow> nat"
  lowmem_reserve :: "nat \<Rightarrow> nat"
  percpu_drift_mark :: nat
  nr_free_snapshot :: int \<comment> \<open>\<open>zone_page_state_snapshot\<close> of \<open>NR_FREE_PAGES\<close>\<close>
  zone_dirty_balance_reserve :: nat
  buddy :: zone

record wsys =
  node_zones :: "wzone list" \<comment> \<open>indexed by the zone type\<close>
  lowmem_reserve_ratio :: "nat \<Rightarrow> int"
  min_free_kbytes :: nat
  min_free_order_shift :: nat
  dirty_balance_reserve :: nat
  totalreserve_pages :: nat

record alloc_flags =
  ALLOC_HIGH :: bool
  ALLOC_HARDER :: bool
  ALLOC_CMA :: bool

definition WMARK_MIN :: nat where "WMARK_MIN = 0"
definition WMARK_LOW :: nat where "WMARK_LOW = 1"
definition WMARK_HIGH :: nat where "WMARK_HIGH = 2"

section \<open>The watermark test\<close>

fun watermark_loop :: "nat \<Rightarrow> zone \<Rightarrow> nat list \<Rightarrow> int \<Rightarrow> int \<Rightarrow> bool" where
  "watermark_loop shift z [] free wm = True"
| "watermark_loop shift z (k # ks) free wm =
    (let free = free - nr_free z k * 2 ^ k; wm = drop_bit shift wm in
     if free \<le> wm then False else watermark_loop shift z ks free wm)"

definition zone_watermark_ok' :: "nat \<Rightarrow> wzone \<Rightarrow> nat \<Rightarrow> nat \<Rightarrow> nat \<Rightarrow> alloc_flags \<Rightarrow> int \<Rightarrow> bool" where
  \<comment> \<open>\<open>__zone_watermark_ok\<close>; the first argument is \<open>min_free_order_shift\<close>\<close>
  "zone_watermark_ok' shift w order mark classzone_idx flags free =
    (let wm = int mark;
         free = free - (2 ^ order - 1);
         wm = (if ALLOC_HIGH flags then wm - wm div 2 else wm);
         wm = (if ALLOC_HARDER flags then wm - wm div 4 else wm);
         free = (if \<not> ALLOC_CMA flags then free - NR_FREE_CMA_PAGES (buddy w) else free) in
     if free \<le> wm + int (lowmem_reserve w classzone_idx) then False
     else watermark_loop shift (buddy w) [0..<order] free wm)"

definition zone_watermark_ok :: "nat \<Rightarrow> wzone \<Rightarrow> nat \<Rightarrow> nat \<Rightarrow> nat \<Rightarrow> alloc_flags \<Rightarrow> bool" where
  "zone_watermark_ok shift w order mark classzone_idx flags =
    zone_watermark_ok' shift w order mark classzone_idx flags (NR_FREE_PAGES (buddy w))"

definition zone_watermark_ok_safe :: "nat \<Rightarrow> wzone \<Rightarrow> nat \<Rightarrow> nat \<Rightarrow> nat \<Rightarrow> alloc_flags \<Rightarrow> bool" where
  "zone_watermark_ok_safe shift w order mark classzone_idx flags =
    (let free = NR_FREE_PAGES (buddy w);
         free = (if percpu_drift_mark w \<noteq> 0 \<and> free < int (percpu_drift_mark w) then nr_free_snapshot w else free) in
     zone_watermark_ok' shift w order mark classzone_idx flags free)"

section \<open>Computing the reserves\<close>

definition zone_reserve :: "nat \<Rightarrow> nat \<Rightarrow> wzone \<Rightarrow> nat" where
  "zone_reserve n i w =
    min (fold (\<lambda>j m. if lowmem_reserve w j > m then lowmem_reserve w j else m) [i..<n] 0 + watermark w WMARK_HIGH)
      (present_pages w)"

definition calculate_totalreserve_pages :: "wsys \<Rightarrow> wsys" where
  "calculate_totalreserve_pages s =
    (let n = length (node_zones s);
         zs = map (\<lambda>i. (node_zones s ! i)\<lparr>zone_dirty_balance_reserve := zone_reserve n i (node_zones s ! i)\<rparr>) [0..<n];
         reserve = sum_list (map zone_dirty_balance_reserve zs) in
     s\<lparr>node_zones := zs, dirty_balance_reserve := reserve, totalreserve_pages := reserve\<rparr>)"

definition upd_zone :: "nat \<Rightarrow> (wzone \<Rightarrow> wzone) \<Rightarrow> wsys \<Rightarrow> wsys" where
  "upd_zone i f s = s\<lparr>node_zones := (node_zones s)[i := f (node_zones s ! i)]\<rparr>"

definition fix_ratio :: "nat \<Rightarrow> wsys \<Rightarrow> wsys" where
  "fix_ratio i s = (if lowmem_reserve_ratio s i < 1 then s\<lparr>lowmem_reserve_ratio := (lowmem_reserve_ratio s)(i := 1)\<rparr> else s)"

definition set_reserve :: "nat \<Rightarrow> nat \<Rightarrow> nat \<Rightarrow> wsys \<Rightarrow> wsys" where
  "set_reserve i j v s = upd_zone i (\<lambda>w. w\<lparr>lowmem_reserve := (lowmem_reserve w)(j := v)\<rparr>) s"

fun lowmem_loop :: "nat \<Rightarrow> nat \<Rightarrow> nat \<Rightarrow> wsys \<Rightarrow> wsys" where
  "lowmem_loop j 0 present s = s"
| "lowmem_loop j (Suc idx) present s =
    (let s = fix_ratio idx s;
         s = set_reserve idx j (present div nat (lowmem_reserve_ratio s idx)) s in
     lowmem_loop j idx (present + present_pages (node_zones s ! idx)) s)"

definition lowmem_zone :: "nat \<Rightarrow> wsys \<Rightarrow> wsys" where
  "lowmem_zone j s = lowmem_loop j j (present_pages (node_zones s ! j)) (set_reserve j j 0 s)"

definition setup_per_zone_lowmem_reserve :: "wsys \<Rightarrow> wsys" where
  "setup_per_zone_lowmem_reserve s =
    calculate_totalreserve_pages (fold lowmem_zone [0..<length (node_zones s)] s)"

section \<open>Reserved page blocks\<close>

definition pageblock_is_reserved :: "zone \<Rightarrow> nat \<Rightarrow> nat \<Rightarrow> bool" where
  "pageblock_is_reserved z start_pfn end_pfn =
    list_ex (\<lambda>pfn. \<not> pfn_valid_within z pfn \<or> bit (page_flags (pages z pfn)) (PG_reserved z)) [start_pfn..<end_pfn]"

definition reserve_block :: "nat \<Rightarrow> nat \<Rightarrow> nat \<times> zone \<Rightarrow> nat \<times> zone" where
  "reserve_block end_pfn pfn = (\<lambda>(reserve, z).
    if \<not> pfn_valid_within z pfn then (reserve, z)
    else
      let block_migratetype = get_pageblock_migratetype z pfn;
          block_end_pfn = min (pfn + 2 ^ pageblock_order z) end_pfn in
      if reserve > 0 \<and> pageblock_is_reserved z pfn block_end_pfn then (reserve, z)
      else if reserve > 0 \<and> block_migratetype = MIGRATE_RESERVE then (reserve - 1, z)
      else if reserve > 0 \<and> block_migratetype = MIGRATE_MOVABLE then
        (reserve - 1, snd (move_freepages_block pfn MIGRATE_RESERVE (set_pageblock_migratetype pfn MIGRATE_RESERVE z)))
      else if block_migratetype = MIGRATE_RESERVE then
        (reserve, snd (move_freepages_block pfn MIGRATE_MOVABLE (set_pageblock_migratetype pfn MIGRATE_MOVABLE z)))
      else (reserve, z))"

definition roundup :: "nat \<Rightarrow> nat \<Rightarrow> nat" where
  "roundup x y = (x + (y - 1)) div y * y"

definition block_starts :: "zone \<Rightarrow> nat list" where
  "block_starts z =
    (let b = 2 ^ pageblock_order z in
     filter (\<lambda>pfn. b dvd pfn) [roundup (zone_start_pfn z) b..<zone_start_pfn z + spanned_pages z])"

definition setup_zone_migrate_reserve :: "nat \<Rightarrow> zone \<Rightarrow> zone" where
  \<comment> \<open>the first argument is \<open>min_wmark_pages(zone)\<close>\<close>
  "setup_zone_migrate_reserve wmark z =
    (let b = 2 ^ pageblock_order z;
         reserve = min 2 (roundup wmark b div b) in
     snd (fold (reserve_block (zone_start_pfn z + spanned_pages z)) (block_starts z) (reserve, z)))"

section \<open>Computing the watermarks\<close>

definition SWAP_CLUSTER_MAX :: nat where "SWAP_CLUSTER_MAX = 32"

definition zone_wmarks :: "nat \<Rightarrow> nat \<Rightarrow> wzone \<Rightarrow> wzone" where
  "zone_wmarks pages_min lowmem_pages w =
    (let tmp = pages_min * present_pages w div lowmem_pages;
         wmin = (if is_highmem w then
                   let min_pages = present_pages w div 1024;
                       min_pages = (if min_pages < SWAP_CLUSTER_MAX then SWAP_CLUSTER_MAX else min_pages) in
                   (if min_pages > 128 then 128 else min_pages)
                 else tmp);
         low = wmin + tmp div 4;
         high = wmin + tmp div 2;
         w = w\<lparr>watermark := (watermark w)(WMARK_MIN := wmin + cma_wmark_pages w, WMARK_LOW := low + cma_wmark_pages w,
                 WMARK_HIGH := high + cma_wmark_pages w)\<rparr> in
     w\<lparr>buddy := setup_zone_migrate_reserve (watermark w WMARK_MIN) (buddy w)\<rparr>)"

definition setup_per_zone_wmarks :: "wsys \<Rightarrow> wsys option" where
  \<comment> \<open>\<open>__setup_per_zone_wmarks\<close>; \<open>None\<close> is the division by zero of \<open>do_div\<close>\<close>
  "setup_per_zone_wmarks s =
    (let pages_min = min_free_kbytes s div 4;
         lowmem_pages = sum_list (map present_pages (filter (\<lambda>w. \<not> is_highmem w) (node_zones s))) in
     if lowmem_pages = 0 \<and> node_zones s \<noteq> [] then None
     else Some (calculate_totalreserve_pages (s\<lparr>node_zones := map (zone_wmarks pages_min lowmem_pages) (node_zones s)\<rparr>)))"

section \<open>Counting free pages\<close>

definition heads :: "zone \<Rightarrow> nat \<Rightarrow> nat set" where
  "heads z k = {p. (p, k) \<in> blocks z}"

lemma mtypes_UNIV: "set mtypes = UNIV" "distinct mtypes"
  by (auto simp: mtypes_def) (metis mtype.exhaust)

lemma card_heads:
  assumes "list_inv z"
  shows "int (card (heads z k)) = nr_free z k"
proof -
  have "heads z k = (\<Union>mt\<in>set mtypes. set (free_list z k mt))" by (auto simp: heads_def blocks_def mtypes_UNIV)
  then have "card (heads z k) = (\<Sum>mt\<in>set mtypes. card (set (free_list z k mt)))"
    using assms by (simp only:, subst card_UN_disjoint) (auto simp: list_inv_def mtypes_UNIV(1) [symmetric])
  also have "\<dots> = (\<Sum>mt\<leftarrow>mtypes. length (free_list z k mt))"
    using assms mtypes_UNIV(2) by (simp add: sum_list_distinct_conv_sum_set list_inv_def distinct_card)
  finally show ?thesis using assms by (simp add: list_inv_def mtypes_def)
qed

lemma card_free_pages:
  assumes "buddy_inv z"
  shows "int (card (free_pages z)) = (\<Sum>k<MAX_ORDER z. nr_free z k * 2 ^ k)"
proof -
  have bi: "block_inv z" "list_inv z" using assms by (simp_all add: buddy_inv_def)
  have fin: "finite (heads z k)" for k
  proof (rule finite_subset)
    show "heads z k \<subseteq> (\<Union>mt\<in>set mtypes. set (free_list z k mt))" by (auto simp: heads_def blocks_def mtypes_UNIV)
  qed simp
  have blk: "blocks z = (\<Union>k<MAX_ORDER z. (\<lambda>p. (p, k)) ` heads z k)"
    using bi(1) by (auto simp: heads_def block_inv_def block_ok_def)
  then have finb: "finite (blocks z)" using fin by simp
  have "card (free_pages z) = (\<Sum>b\<in>blocks z. card (case b of (p, k) \<Rightarrow> span p k))"
    unfolding free_pages_def
  proof (rule card_UN_disjoint [OF finb], safe)
    fix p k q j x
    assume a: "(p, k) \<in> blocks z" "(q, j) \<in> blocks z" "x \<in> span p k" "x \<in> span q j"
    show "p = q" "k = j" using a bi(1) unfolding block_inv_def by (metis disjoint_iff prod.inject)+
  qed (auto simp: span_def)
  also have "\<dots> = (\<Sum>b\<in>blocks z. 2 ^ snd b)" by (rule sum.cong) (auto simp: span_def)
  also have "\<dots> = (\<Sum>k<MAX_ORDER z. \<Sum>b\<in>(\<lambda>p. (p, k)) ` heads z k. 2 ^ snd b)"
    unfolding blk using fin by (intro sum.UNION_disjoint) auto
  also have "\<dots> = (\<Sum>k<MAX_ORDER z. card (heads z k) * 2 ^ k)"
    by (rule sum.cong) (auto simp: sum.reindex inj_on_def)
  finally show ?thesis using card_heads [OF bi(2)] by simp
qed

section \<open>What passing the test means\<close>

lemma watermark_loop_true:
  "watermark_loop sh z [a..<b] free m \<Longrightarrow> 0 \<le> m \<Longrightarrow> 0 < free \<Longrightarrow> 0 < free - (\<Sum>k\<in>{a..<b}. nr_free z k * 2 ^ k)"
proof (induction "b - a" arbitrary: a free m)
  case (Suc d)
  then have ab: "a < b" "d = b - Suc a" by simp_all
  have m: "0 \<le> drop_bit sh m" using Suc.prems(2) by simp
  have step: "watermark_loop sh z [Suc a..<b] (free - nr_free z a * 2 ^ a) (drop_bit sh m)"
    "drop_bit sh m < free - nr_free z a * 2 ^ a"
    using Suc.prems(1) ab(1) by (auto simp: upt_conv_Cons Let_def split: if_splits)
  have "0 < free - nr_free z a * 2 ^ a - (\<Sum>k\<in>{Suc a..<b}. nr_free z k * 2 ^ k)"
    using Suc.hyps(1) [OF ab(2) step(1) m] step(2) m by linarith
  then show ?case using ab(1) by (simp add: sum.atLeast_Suc_lessThan)
qed simp

lemma half_quarter_nonneg: "0 \<le> (m::int) \<Longrightarrow> 0 \<le> m - m div 2" "0 \<le> (m::int) \<Longrightarrow> 0 \<le> m - m div 4"
  by auto

lemma watermark_ok_positive:
  assumes "zone_watermark_ok' sh w order mark idx fl free" "0 \<le> NR_FREE_CMA_PAGES (buddy w)"
  shows "0 < free - (\<Sum>k<order. nr_free (buddy w) k * 2 ^ k)"
proof -
  define m where "m = (let m = int mark; m = (if ALLOC_HIGH fl then m - m div 2 else m) in
      if ALLOC_HARDER fl then m - m div 4 else m)"
  define f where "f = free - (2 ^ order - 1) - (if ALLOC_CMA fl then 0 else NR_FREE_CMA_PAGES (buddy w))"
  have m: "0 \<le> m" by (auto simp: m_def Let_def half_quarter_nonneg)
  have f: "f \<le> free" using assms(2) by (auto simp: f_def) (smt (verit) one_le_power)+
  have "m + int (lowmem_reserve w idx) < f" "watermark_loop sh (buddy w) [0..<order] f m"
    using assms(1) by (auto simp: zone_watermark_ok'_def Let_def m_def f_def split: if_splits)
  then have "0 < f - (\<Sum>k\<in>{0..<order}. nr_free (buddy w) k * 2 ^ k)"
    using m by (intro watermark_loop_true) auto
  with f show ?thesis by (simp add: atLeast0LessThan)
qed

section \<open>Properties\<close>

text \<open>
  When the watermark test passes for an order and a count that does not overstate the free
  pages, the buddy lists really hold a block of at least that order. (The test need not look at the
  lists themselves: the pages below the order are subtracted level by level.)
\<close>

theorem watermark_ok_implies_block:
  assumes "buddy_inv (buddy w)" "0 \<le> NR_FREE_CMA_PAGES (buddy w)" "order \<le> MAX_ORDER (buddy w)"
    and "free \<le> int (card (free_pages (buddy w)))"
    and "zone_watermark_ok' sh w order mark idx fl free"
  shows "\<exists>k mt. order \<le> k \<and> k < MAX_ORDER (buddy w) \<and> free_list (buddy w) k mt \<noteq> []"
proof -
  let ?z = "buddy w"
  have "0 < (\<Sum>k<MAX_ORDER ?z. nr_free ?z k * 2 ^ k) - (\<Sum>k<order. nr_free ?z k * 2 ^ k)"
    using watermark_ok_positive [OF assms(5,2)] assms(4) card_free_pages [OF assms(1)] by linarith
  also have "\<dots> = (\<Sum>k\<in>{order..<MAX_ORDER ?z}. nr_free ?z k * 2 ^ k)"
    using sum.atLeastLessThan_concat [of 0 order "MAX_ORDER ?z" "\<lambda>k. nr_free ?z k * 2 ^ k"] assms(3)
    by (simp add: atLeast0LessThan)
  finally have "0 < (\<Sum>k\<in>{order..<MAX_ORDER ?z}. nr_free ?z k * 2 ^ k)" .
  then obtain k where k: "k \<in> {order..<MAX_ORDER ?z}" "0 < nr_free ?z k * 2 ^ k"
    by (metis (no_types, lifting) not_less sum_nonpos)
  then have "nr_free ?z k \<noteq> 0" by auto
  moreover have "nr_free ?z k = (\<Sum>mt\<leftarrow>mtypes. int (length (free_list ?z k mt)))"
    using assms(1) by (simp add: buddy_inv_def list_inv_def)
  ultimately have "\<exists>mt. free_list ?z k mt \<noteq> []" by (rule_tac ccontr) (simp add: mtypes_def)
  with k(1) show ?thesis by auto
qed

definition wzone1 :: wzone where
  "wzone1 = \<lparr>present_pages = 16, is_highmem = False, cma_wmark_pages = 0, watermark = (\<lambda>_. 0), lowmem_reserve = (\<lambda>_. 0),
     percpu_drift_mark = 0, nr_free_snapshot = 0, zone_dirty_balance_reserve = 0, buddy = zone1\<rparr>"

theorem watermark_ok_implies_block_witness:
  "\<exists>k mt. 2 \<le> k \<and> k < MAX_ORDER (buddy wzone1) \<and> free_list (buddy wzone1) k mt \<noteq> []"
proof (rule watermark_ok_implies_block)
  let ?fl = "\<lparr>ALLOC_HIGH = False, ALLOC_HARDER = False, ALLOC_CMA = True\<rparr>"
  show "zone_watermark_ok' 1 wzone1 2 1 0 ?fl 8" by code_simp
  show "buddy_inv (buddy wzone1)" using zone1_facts(1) by (simp add: wzone1_def)
  show "0 \<le> NR_FREE_CMA_PAGES (buddy wzone1)" "2 \<le> MAX_ORDER (buddy wzone1)" by code_simp+
  show "8 \<le> int (card (free_pages (buddy wzone1)))" using zone1_facts(2) by (simp add: wzone1_def span_def)
qed

lemma set_reserve_simps [simp]:
  "length (node_zones (set_reserve i j v s)) = length (node_zones s)"
  "lowmem_reserve_ratio (set_reserve i j v s) = lowmem_reserve_ratio s"
  by (simp_all add: set_reserve_def upd_zone_def)

lemma set_reserve_present [simp]:
  "present_pages (node_zones (set_reserve i j v s) ! k) = present_pages (node_zones s ! k)"
  by (cases "k < length (node_zones s)"; cases "k = i") (auto simp: set_reserve_def upd_zone_def nth_list_update list_update_beyond)

lemma set_reserve_lowmem:
  "k < length (node_zones s) \<Longrightarrow> lowmem_reserve (node_zones (set_reserve i j v s) ! k) l
    = (if k = i \<and> l = j then v else lowmem_reserve (node_zones s ! k) l)"
  by (cases "k = i") (auto simp: set_reserve_def upd_zone_def)

lemma fix_ratio_simps [simp]: "node_zones (fix_ratio i s) = node_zones s"
  "lowmem_reserve_ratio (fix_ratio i s) k = (if k = i then max 1 (lowmem_reserve_ratio s k) else lowmem_reserve_ratio s k)"
  by (auto simp: fix_ratio_def)

lemma lowmem_loop_keeps:
  "length (node_zones (lowmem_loop j i p s)) = length (node_zones s)
   \<and> (\<forall>k. present_pages (node_zones (lowmem_loop j i p s) ! k) = present_pages (node_zones s ! k))
   \<and> (\<forall>k. max 1 (lowmem_reserve_ratio (lowmem_loop j i p s) k) = max 1 (lowmem_reserve_ratio s k))
   \<and> (\<forall>k<length (node_zones s). \<forall>l. l \<noteq> j \<or> i \<le> k \<longrightarrow>
        lowmem_reserve (node_zones (lowmem_loop j i p s) ! k) l = lowmem_reserve (node_zones s ! k) l)"
proof (induction j i p s rule: lowmem_loop.induct)
  case (2 j i p s)
  then show ?case by (auto simp: Let_def set_reserve_lowmem)
qed simp

lemma lowmem_loop_sets:
  "k < i \<Longrightarrow> i \<le> length (node_zones s) \<Longrightarrow>
   lowmem_reserve (node_zones (lowmem_loop j i p s) ! k) j
     = (p + (\<Sum>l\<in>{Suc k..<i}. present_pages (node_zones s ! l))) div nat (max 1 (lowmem_reserve_ratio s k))"
proof (induction j i p s rule: lowmem_loop.induct)
  case (2 j i p s)
  let ?f = "fix_ratio i s"
  let ?s = "set_reserve i j (p div nat (lowmem_reserve_ratio ?f i)) ?f"
  have step: "lowmem_loop j (Suc i) p s = lowmem_loop j i (p + present_pages (node_zones ?s ! i)) ?s"
    by (simp add: Let_def)
  show ?case
  proof (cases "k = i")
    case True
    then show ?thesis
      using lowmem_loop_keeps [of j i "p + present_pages (node_zones ?s ! i)" ?s] 2(3)
      unfolding step by (simp add: set_reserve_lowmem)
  next
    case False
    then have ki: "k < i" using 2(2) by simp
    have ih: "lowmem_reserve (node_zones (lowmem_loop j i (p + present_pages (node_zones ?s ! i)) ?s) ! k) j
      = (p + present_pages (node_zones ?s ! i) + (\<Sum>l\<in>{Suc k..<i}. present_pages (node_zones ?s ! l)))
          div nat (max 1 (lowmem_reserve_ratio ?s k))"
      using 2(1) [OF refl refl ki] 2(3) by simp
    then show ?thesis unfolding step using False ki by (simp add: algebra_simps)
  qed
qed simp

definition reserve_of :: "wsys \<Rightarrow> nat \<Rightarrow> nat \<Rightarrow> nat" where
  "reserve_of s i j = (\<Sum>l\<in>{Suc i..j}. present_pages (node_zones s ! l)) div nat (max 1 (lowmem_reserve_ratio s i))"

lemma lowmem_zone_keeps:
  "length (node_zones (lowmem_zone j s)) = length (node_zones s)
   \<and> (\<forall>k. present_pages (node_zones (lowmem_zone j s) ! k) = present_pages (node_zones s ! k))
   \<and> (\<forall>k. max 1 (lowmem_reserve_ratio (lowmem_zone j s) k) = max 1 (lowmem_reserve_ratio s k))
   \<and> (\<forall>k<length (node_zones s). \<forall>l. l \<noteq> j \<longrightarrow>
        lowmem_reserve (node_zones (lowmem_zone j s) ! k) l = lowmem_reserve (node_zones s ! k) l)"
  using lowmem_loop_keeps [of j j "present_pages (node_zones s ! j)" "set_reserve j j 0 s"]
  by (simp add: lowmem_zone_def set_reserve_lowmem)

lemma lowmem_zone_sets:
  assumes "j < length (node_zones s)" "k \<le> j"
  shows "lowmem_reserve (node_zones (lowmem_zone j s) ! k) j = (if k = j then 0 else reserve_of s k j)"
proof (cases "k = j")
  case True
  then show ?thesis
    using assms lowmem_loop_keeps [of j j "present_pages (node_zones s ! j)" "set_reserve j j 0 s"]
    by (simp add: lowmem_zone_def set_reserve_lowmem)
next
  case False
  then have k: "k < j" using assms(2) by simp
  have "{Suc k..j} = insert j {Suc k..<j}" using k by auto
  then show ?thesis using False lowmem_loop_sets [OF k, of "set_reserve j j 0 s" j "present_pages (node_zones s ! j)"] assms(1)
    by (simp add: lowmem_zone_def reserve_of_def)
qed

lemma lowmem_fold:
  assumes "n \<le> length (node_zones s)"
  shows "let s' = fold lowmem_zone [0..<n] s in length (node_zones s') = length (node_zones s)
    \<and> (\<forall>k. present_pages (node_zones s' ! k) = present_pages (node_zones s ! k))
    \<and> (\<forall>k. max 1 (lowmem_reserve_ratio s' k) = max 1 (lowmem_reserve_ratio s k))
    \<and> (\<forall>j<n. \<forall>k\<le>j. lowmem_reserve (node_zones s' ! k) j = (if k = j then 0 else reserve_of s k j))"
  using assms
proof (induction n)
  case (Suc n)
  define s1 where "s1 = fold lowmem_zone [0..<n] s"
  have f: "fold lowmem_zone [0..<Suc n] s = lowmem_zone n s1" by (simp add: s1_def)
  have ih: "length (node_zones s1) = length (node_zones s)"
    "\<forall>k. present_pages (node_zones s1 ! k) = present_pages (node_zones s ! k)"
    "\<forall>k. max 1 (lowmem_reserve_ratio s1 k) = max 1 (lowmem_reserve_ratio s k)"
    "\<forall>j<n. \<forall>k\<le>j. lowmem_reserve (node_zones s1 ! k) j = (if k = j then 0 else reserve_of s k j)"
    using Suc by (simp_all add: s1_def Let_def)
  have r: "reserve_of s1 = reserve_of s" using ih by (intro ext) (simp add: reserve_of_def)
  note k = lowmem_zone_keeps [of n s1] and t = lowmem_zone_sets [of n s1]
  have "lowmem_reserve (node_zones (lowmem_zone n s1) ! k) j = (if k = j then 0 else reserve_of s k j)"
    if "j < Suc n" "k \<le> j" for j k
  proof (cases "j = n")
    case True
    then show ?thesis using that t [of k] ih(1) Suc.prems r by simp
  next
    case False
    then show ?thesis using that k ih(1,4) Suc.prems by auto
  qed
  with k ih show ?case unfolding f Let_def by auto
qed simp

lemma calculate_totalreserve_fields:
  "length (node_zones (calculate_totalreserve_pages s)) = length (node_zones s)"
  "i < length (node_zones s) \<Longrightarrow> lowmem_reserve (node_zones (calculate_totalreserve_pages s) ! i) = lowmem_reserve (node_zones s ! i)"
  "i < length (node_zones s) \<Longrightarrow> watermark (node_zones (calculate_totalreserve_pages s) ! i) = watermark (node_zones s ! i)"
  "i < length (node_zones s) \<Longrightarrow> present_pages (node_zones (calculate_totalreserve_pages s) ! i) = present_pages (node_zones s ! i)"
  by (simp_all add: calculate_totalreserve_pages_def Let_def)

text \<open>
  \<open>setup_per_zone_lowmem_reserve\<close>: a zone keeps back, from a request that could also have been served
  by zone \<open>j\<close> above it, the pages of all zones above it up to \<open>j\<close> divided by its reserve ratio (at
  least one), and keeps nothing back from requests for the zone itself.
\<close>

theorem lowmem_reserve_values:
  assumes "j < length (node_zones s)" "i \<le> j"
  shows "lowmem_reserve (node_zones (setup_per_zone_lowmem_reserve s) ! i) j =
    (if i = j then 0
     else (\<Sum>l\<in>{Suc i..j}. present_pages (node_zones s ! l)) div nat (max 1 (lowmem_reserve_ratio s i)))"
  using lowmem_fold [OF order_refl, of s] assms
  by (simp add: setup_per_zone_lowmem_reserve_def Let_def calculate_totalreserve_fields reserve_of_def)

definition wsys1 :: wsys where
  "wsys1 = \<lparr>node_zones = [wzone1, wzone1\<lparr>present_pages := 640\<rparr>, wzone1\<lparr>present_pages := 64, is_highmem := True\<rparr>],
     lowmem_reserve_ratio = (\<lambda>i. if i = 0 then 0 else 32), min_free_kbytes = 1024, min_free_order_shift = 1,
     dirty_balance_reserve = 0, totalreserve_pages = 0\<rparr>"

theorem lowmem_reserve_values_witness:
  "lowmem_reserve (node_zones (setup_per_zone_lowmem_reserve wsys1) ! 0) 2 = 704"
  using lowmem_reserve_values [of 2 wsys1 0]
  by (simp add: wsys1_def numeral_2_eq_2 atLeastAtMostSuc_conv)

lemma reserve_block_keeps:
  assumes "buddy_inv (snd rz)"
  shows "buddy_inv (snd (reserve_block e pfn rz)) \<and> blocks (snd (reserve_block e pfn rz)) = blocks (snd rz)
    \<and> same_zone (snd rz) (snd (reserve_block e pfn rz))"
proof -
  obtain r z where rz: "rz = (r, z)" by fastforce
  have mv: "buddy_inv z' \<and> blocks z' = blocks z \<and> same_zone z z'"
    if "z' = snd (move_freepages_block pfn mt (set_pageblock_migratetype pfn mt z))" for z' mt
  proof -
    let ?p = "set_pageblock_migratetype pfn mt z"
    have l: "lists_same z ?p" by simp
    have "buddy_inv ?p" using assms rz lists_same_inv [OF l] by simp
    moreover have "move_freepages_block pfn mt ?p = (fst (move_freepages_block pfn mt ?p), z')" by (simp add: that)
    ultimately have "buddy_inv z' \<and> blocks z' = blocks ?p \<and> same_zone ?p z'"
      using move_freepages_block_keeps by blast
    then show ?thesis using lists_same_blocks [OF l] l by (auto simp: lists_same_def intro: same_zone_trans)
  qed
  show ?thesis using assms mv [OF refl] by (auto simp: reserve_block_def rz Let_def)
qed

lemma reserve_blocks_keep:
  "buddy_inv (snd rz) \<Longrightarrow> buddy_inv (snd (fold (reserve_block e) ps rz))
    \<and> blocks (snd (fold (reserve_block e) ps rz)) = blocks (snd rz) \<and> same_zone (snd rz) (snd (fold (reserve_block e) ps rz))"
proof (induction ps arbitrary: rz)
  case (Cons p ps)
  note k = reserve_block_keeps [OF Cons.prems, of e p]
  then show ?case using Cons.IH [of "reserve_block e p rz"] by (auto intro: same_zone_trans)
qed simp

lemma sum_floor_le:
  assumes "0 < d"
  shows "(\<Sum>x\<leftarrow>xs. m * x div d) \<le> m * sum_list xs div (d::nat)"
proof (induction xs)
  case (Cons x xs)
  have "m * x div d + m * sum_list xs div d \<le> (m * x + m * sum_list xs) div d"
    by (simp only: div_add1_eq [of "m * x" "m * sum_list xs" d] le_add1)
  with Cons show ?case by (simp add: algebra_simps)
qed simp

text \<open>
  \<open>__setup_per_zone_wmarks\<close>: for every zone the minimum mark is at most the low mark and that at most
  the high mark; the minimum marks of the low-memory zones, less their contiguous-area part,
  together never exceed the configured \<open>min_free_kbytes\<close>; and re-reserving page blocks moves no page into
  or out of the free lists.
\<close>

theorem wmarks_ordered:
  assumes "setup_per_zone_wmarks s = Some s'" "\<forall>w\<in>set (node_zones s). buddy_inv (buddy w)"
  shows "(\<forall>i<length (node_zones s). let w = node_zones s' ! i in
      watermark w WMARK_MIN \<le> watermark w WMARK_LOW \<and> watermark w WMARK_LOW \<le> watermark w WMARK_HIGH)
    \<and> (\<Sum>w\<leftarrow>filter (\<lambda>w. \<not> is_highmem w) (node_zones s'). watermark w WMARK_MIN - cma_wmark_pages w) \<le> min_free_kbytes s div 4
    \<and> (\<forall>i<length (node_zones s). buddy_inv (buddy (node_zones s' ! i))
         \<and> blocks (buddy (node_zones s' ! i)) = blocks (buddy (node_zones s ! i)))"
proof -
  define pm lp where "pm = min_free_kbytes s div 4"
    and "lp = sum_list (map present_pages (filter (\<lambda>w. \<not> is_highmem w) (node_zones s)))"
  define zs where "zs = map (zone_wmarks pm lp) (node_zones s)"
  have s': "s' = calculate_totalreserve_pages (s\<lparr>node_zones := zs\<rparr>)"
    and lp: "lp \<noteq> 0 \<or> node_zones s = []"
    using assms(1) by (auto simp: setup_per_zone_wmarks_def Let_def pm_def lp_def zs_def split: if_splits)
  let ?f = "\<lambda>i w. w\<lparr>zone_dirty_balance_reserve := zone_reserve (length zs) i w\<rparr>"
  have nz: "node_zones s' = map (\<lambda>i. ?f i (zs ! i)) [0..<length zs]"
    by (simp add: s' calculate_totalreserve_pages_def Let_def)
  have marks: "watermark (zone_wmarks pm lp w) WMARK_MIN \<le> watermark (zone_wmarks pm lp w) WMARK_LOW
      \<and> watermark (zone_wmarks pm lp w) WMARK_LOW \<le> watermark (zone_wmarks pm lp w) WMARK_HIGH" for w
    by (simp add: zone_wmarks_def Let_def WMARK_MIN_def WMARK_LOW_def WMARK_HIGH_def)
  have mn: "\<not> is_highmem w \<Longrightarrow> watermark (zone_wmarks pm lp w) WMARK_MIN - cma_wmark_pages (zone_wmarks pm lp w)
      = pm * present_pages w div lp" and hm: "is_highmem (zone_wmarks pm lp w) = is_highmem w" for w
    by (simp_all add: zone_wmarks_def Let_def WMARK_MIN_def WMARK_LOW_def WMARK_HIGH_def)
  have bd: "buddy_inv (buddy (zone_wmarks pm lp w)) \<and> blocks (buddy (zone_wmarks pm lp w)) = blocks (buddy w)"
    if "buddy_inv (buddy w)" for w
    using reserve_blocks_keep [of "(r, buddy w)" for r] that
    by (simp add: zone_wmarks_def Let_def setup_zone_migrate_reserve_def)
  have "(\<Sum>w\<leftarrow>filter (\<lambda>w. \<not> is_highmem w) (node_zones s'). watermark w WMARK_MIN - cma_wmark_pages w)
      = (\<Sum>w\<leftarrow>filter (\<lambda>w. \<not> is_highmem w) zs. watermark w WMARK_MIN - cma_wmark_pages w)"
  proof -
    have "map g (filter P zs) = map g (filter P (map (nth zs) [0..<length zs]))" for g :: "wzone \<Rightarrow> nat" and P
      by (simp add: map_nth)
    then show ?thesis unfolding nz by (simp add: filter_map comp_def)
  qed
  also have "\<dots> = (\<Sum>x\<leftarrow>map present_pages (filter (\<lambda>w. \<not> is_highmem w) (node_zones s)). pm * x div lp)"
    unfolding zs_def filter_map comp_def hm map_map by (rule arg_cong [of _ _ sum_list], rule map_cong) (auto simp: mn)
  also have "\<dots> \<le> pm"
    using sum_floor_le [of lp pm "map present_pages (filter (\<lambda>w. \<not> is_highmem w) (node_zones s))"] lp
    by (auto simp: lp_def [symmetric])
  finally show ?thesis using marks bd assms(2) by (auto simp: nz zs_def pm_def Let_def)
qed

theorem wmarks_ordered_witness:
  "\<exists>s'. setup_per_zone_wmarks wsys1 = Some s' \<and> watermark (node_zones s' ! 1) WMARK_LOW \<le> watermark (node_zones s' ! 1) WMARK_HIGH"
proof -
  have "sum_list (map present_pages (filter (\<lambda>w. \<not> is_highmem w) (node_zones wsys1))) = 656"
    by (simp add: wsys1_def wzone1_def)
  then obtain s' where s': "setup_per_zone_wmarks wsys1 = Some s'"
    unfolding setup_per_zone_wmarks_def Let_def by simp
  have "\<forall>w\<in>set (node_zones wsys1). buddy_inv (buddy w)"
    using zone1_facts(1) by (simp add: wsys1_def wzone1_def)
  from conjunct1 [OF wmarks_ordered [OF s' this]] have "\<forall>i<length (node_zones wsys1).
      watermark (node_zones s' ! i) WMARK_LOW \<le> watermark (node_zones s' ! i) WMARK_HIGH" unfolding Let_def by blast
  moreover have "length (node_zones wsys1) = 3" by (simp add: wsys1_def)
  ultimately show ?thesis using s' by auto
qed

lemma sum_list_nth_le: "(\<And>i. i < length xs \<Longrightarrow> f i \<le> (g (xs ! i) :: nat)) \<Longrightarrow> sum_list (map f [0..<length xs]) \<le> sum_list (map g xs)"
proof -
  assume a: "\<And>i. i < length xs \<Longrightarrow> f i \<le> g (xs ! i)"
  have "sum_list (map f [0..<length xs]) \<le> sum_list (map (\<lambda>i. g (xs ! i)) [0..<length xs])"
    using a by (intro sum_list_mono) simp
  also have "map (\<lambda>i. g (xs ! i)) [0..<length xs] = map g xs" by (rule nth_equalityI) simp_all
  finally show ?thesis .
qed

text \<open>
  The reserve totals that \<open>calculate_totalreserve_pages\<close> publishes never exceed the memory that is
  present, whatever the marks and ratios are, and each zone's share covers its largest
  low-memory reserve plus its high mark whenever the zone is big enough.
\<close>

theorem totalreserve_bounded:
  "totalreserve_pages (calculate_totalreserve_pages s) \<le> sum_list (map present_pages (node_zones s))
   \<and> (\<forall>i<length (node_zones s). \<forall>j\<in>{i..<length (node_zones s)}.
        lowmem_reserve (node_zones s ! i) j + watermark (node_zones s ! i) WMARK_HIGH \<le> present_pages (node_zones s ! i) \<longrightarrow>
        lowmem_reserve (node_zones s ! i) j + watermark (node_zones s ! i) WMARK_HIGH
          \<le> zone_dirty_balance_reserve (node_zones (calculate_totalreserve_pages s) ! i))"
proof -
  let ?zs = "node_zones s"
  have le: "zone_reserve n i w \<le> present_pages w" for n i w by (simp add: zone_reserve_def)
  have mx: "a \<le> fold (\<lambda>j m. if f j > m then f j else m) js a
      \<and> (\<forall>j\<in>set js. f j \<le> fold (\<lambda>j m. if f j > m then f j else m) js a)" for f :: "nat \<Rightarrow> nat" and js a
  proof (induction js arbitrary: a)
    case (Cons j js)
    show ?case using Cons [of "if f j > a then f j else a"] by (auto split: if_splits)
  qed simp
  have "totalreserve_pages (calculate_totalreserve_pages s)
      = sum_list (map (\<lambda>i. zone_reserve (length ?zs) i (?zs ! i)) [0..<length ?zs])"
    by (simp add: calculate_totalreserve_pages_def Let_def comp_def)
  also have "\<dots> \<le> sum_list (map present_pages ?zs)" using le by (rule sum_list_nth_le)
  finally have a: "totalreserve_pages (calculate_totalreserve_pages s) \<le> sum_list (map present_pages ?zs)" .
  have "lowmem_reserve w j + watermark w WMARK_HIGH \<le> zone_reserve n i w"
    if "j \<in> {i..<n}" "lowmem_reserve w j + watermark w WMARK_HIGH \<le> present_pages w" for i j n w
    using that mx [of 0 "lowmem_reserve w" "[i..<n]"] by (auto simp: zone_reserve_def)
  then show ?thesis using a by (simp add: calculate_totalreserve_pages_def Let_def)
qed

theorem totalreserve_bounded_witness:
  "totalreserve_pages (calculate_totalreserve_pages wsys1) \<le> 720
   \<and> (2::nat) \<in> {1..<length (node_zones wsys1)}
   \<and> lowmem_reserve (node_zones wsys1 ! 1) 2 + watermark (node_zones wsys1 ! 1) WMARK_HIGH
       \<le> zone_dirty_balance_reserve (node_zones (calculate_totalreserve_pages wsys1) ! 1)"
  using totalreserve_bounded [of wsys1] by (simp add: wsys1_def wzone1_def)

end
