(* ===== verification/User_Table.thy ===== *)
theory User_Table
  imports Prelude
begin

text \<open>
  The interface of the user cache (\<open>hw5/kernel/user.c\<close>) to its clients \<open>set_mlimit\<close>, the OOM killer
  and the page allocator: \<open>lkp\<close> takes a reference on the user it returns, \<open>put\<close> gives one back. The
  clients of homework 5 only ever call \<open>lkp\<close>; what that costs is proved here once.
\<close>

fun find_all :: "('i \<Rightarrow> 's \<Rightarrow> (addr option \<times> 's) result) \<Rightarrow> 'i list \<Rightarrow> 's \<Rightarrow> 's result" where
  "find_all lkp [] s = Inr s"
| "find_all lkp (i # js) s = rbind (lkp i s) (\<lambda>(p, s). find_all lkp js s)"

locale user_table =
  fixes lkp :: "'i \<Rightarrow> 's \<Rightarrow> (addr option \<times> 's) result"
    and put :: "addr \<Rightarrow> 's \<Rightarrow> 's result"
    and view :: "'s \<Rightarrow> 'i \<Rightarrow> addr option"
    and refs :: "'s \<Rightarrow> addr \<Rightarrow> int"
    and inv :: "'s \<Rightarrow> bool"
    and maxref :: int
  assumes find_hit: "inv s \<Longrightarrow> view s i = Some a \<Longrightarrow> refs s a < maxref \<Longrightarrow>
      \<exists>s'. lkp i s = Inr (Some a, s') \<and> inv s' \<and> view s' = view s \<and> refs s' = (refs s)(a := refs s a + 1)"
    and find_miss: "inv s \<Longrightarrow> view s i = None \<Longrightarrow> lkp i s = Inr (None, s)"
    and put_ref: "inv s \<Longrightarrow> view s i = Some a \<Longrightarrow> 1 < refs s a \<Longrightarrow>
      \<exists>s'. put a s = Inr s' \<and> inv s' \<and> view s' = view s \<and> refs s' = (refs s)(a := refs s a - 1)"
begin

text \<open>A reference that is taken and given back leaves the table as it was.\<close>

lemma find_put:
  assumes "inv s" and "view s i = Some a" and "0 < refs s a" and "refs s a < maxref"
  shows "\<exists>s1 s2. lkp i s = Inr (Some a, s1) \<and> put a s1 = Inr s2 \<and> inv s2
    \<and> view s2 = view s \<and> refs s2 = refs s"
proof -
  from find_hit [OF assms(1,2,4)] obtain s1 where s1: "lkp i s = Inr (Some a, s1)" "inv s1"
    "view s1 = view s" "refs s1 = (refs s)(a := refs s a + 1)" by blast
  with put_ref [of s1 i a] assms obtain s2 where "put a s1 = Inr s2" "inv s2"
    "view s2 = view s1" "refs s2 = (refs s1)(a := refs s1 a - 1)" by auto
  with s1 show ?thesis by auto
qed

text \<open>Every lookup without a matching \<open>put\<close> leaves one reference behind.\<close>

lemma find_all_leaks:
  assumes "inv s" and "view s i = Some a" and "refs s a + int k \<le> maxref"
  shows "\<exists>s'. find_all lkp (replicate k i) s = Inr s' \<and> inv s' \<and> view s' = view s
    \<and> refs s' = (refs s)(a := refs s a + int k)"
  using assms
proof (induction k arbitrary: s)
  case (Suc k)
  from Suc.prems(3) have "refs s a < maxref" by simp
  with find_hit [OF Suc.prems(1,2)] obtain s1 where s1: "lkp i s = Inr (Some a, s1)" "inv s1"
    "view s1 = view s" "refs s1 = (refs s)(a := refs s a + 1)" by blast
  with Suc.prems have "inv s1" "view s1 i = Some a" "refs s1 a + int k \<le> maxref" by auto
  from Suc.IH [OF this] obtain s' where "find_all lkp (replicate k i) s1 = Inr s'" "inv s'"
    "view s' = view s1" "refs s' = (refs s1)(a := refs s1 a + int k)" by blast
  with s1 show ?case by (intro exI [of _ s']) (simp add: add.assoc)
qed auto

end

end
