(* ===== verification/User_Cache.thy ===== *)
theory User_Cache
  imports User_Table
begin

unbundle bit_operations_syntax

text \<open>
  The user cache of \<open>hw5/kernel/user.c\<close>: reference-counted \<open>user_struct\<close>s in a hash table per user
  namespace. Objects live in a store indexed by address; a bucket is the list of the addresses on
  its \<open>hlist\<close>. \<open>UIDHASH_BITS\<close> comes from a header that is not part of the repository and is the
  parameter \<open>bits\<close>. Each definition is one section executed under \<open>uidhash_lock\<close>.
\<close>

section \<open>State\<close>

type_synonym uid_t = "32 word"

record user_struct =
  u_count :: int
  u_uid :: uid_t
  processes :: int
  mem_max :: int
  cumulative_mem :: int
  user_ns :: addr
  uid_keyring :: "addr option"
  session_keyring :: "addr option"

record ucache =
  users :: "addr \<rightharpoonup> user_struct"
  uidhash_table :: "addr \<Rightarrow> u32 \<Rightarrow> addr list"
  ns_kref :: "addr \<Rightarrow> int"
  keys_put :: "addr list"
  u_brk :: addr
  u_limit :: addr

definition root_user :: "addr \<Rightarrow> user_struct" where
  "root_user init_user_ns = \<lparr>u_count = 2, u_uid = 0, processes = 1, mem_max = 0, cumulative_mem = 0,
     user_ns = init_user_ns, uid_keyring = None, session_keyring = None\<rparr>"

definition init_user_ns_kref :: int where
  "init_user_ns_kref = 3"

section \<open>Operations\<close>

definition uidhashfn :: "nat \<Rightarrow> uid_t \<Rightarrow> u32" where
  "uidhashfn bits uid = (drop_bit bits uid + uid) AND mask bits"

definition uid_hash_insert :: "addr \<Rightarrow> addr \<Rightarrow> u32 \<Rightarrow> ucache \<Rightarrow> ucache" where
  "uid_hash_insert up ns b s = s\<lparr>uidhash_table :=
     (uidhash_table s)(ns := (uidhash_table s ns)(b := up # uidhash_table s ns b))\<rparr>"

definition load_user :: "addr \<Rightarrow> ucache \<Rightarrow> user_struct result" where
  "load_user a s = (case users s a of None \<Rightarrow> Inl UseAfterFree | Some u \<Rightarrow> Inr u)"

definition set_user :: "addr \<Rightarrow> user_struct \<Rightarrow> ucache \<Rightarrow> ucache" where
  "set_user a u s = s\<lparr>users := (users s)(a \<mapsto> u)\<rparr>"

definition put_user_ns :: "addr \<Rightarrow> ucache \<Rightarrow> ucache" where
  "put_user_ns ns s = s\<lparr>ns_kref := (ns_kref s)(ns := ns_kref s ns - 1)\<rparr>"

definition get_user_ns :: "addr \<Rightarrow> ucache \<Rightarrow> ucache" where
  "get_user_ns ns s = s\<lparr>ns_kref := (ns_kref s)(ns := ns_kref s ns + 1)\<rparr>"

definition key_put :: "addr option \<Rightarrow> ucache \<Rightarrow> ucache" where
  "key_put k s = (case k of None \<Rightarrow> s | Some a \<Rightarrow> s\<lparr>keys_put := a # keys_put s\<rparr>)"

text \<open>\<open>hlist_del_init\<close> unlinks the node from the list it is on.\<close>

definition uid_hash_remove :: "addr \<Rightarrow> ucache \<Rightarrow> ucache result" where
  "uid_hash_remove up s = rbind (load_user up s) (\<lambda>u.
     Inr (put_user_ns (user_ns u)
       (s\<lparr>uidhash_table := (\<lambda>ns b. filter (\<lambda>a. a \<noteq> up) (uidhash_table s ns b))\<rparr>)))"

fun uid_hash_find :: "uid_t \<Rightarrow> addr list \<Rightarrow> ucache \<Rightarrow> (addr option \<times> ucache) result" where
  "uid_hash_find uid [] s = Inr (None, s)"
| "uid_hash_find uid (a # as) s = rbind (load_user a s) (\<lambda>u.
     if u_uid u = uid
     then Inr (Some a, set_user a (u\<lparr>u_count := wrap_s32 (u_count u + 1)\<rparr>) s)
     else uid_hash_find uid as s)"

definition free_user :: "addr \<Rightarrow> ucache \<Rightarrow> ucache result" where
  "free_user up s = rbind (uid_hash_remove up s) (\<lambda>s. rbind (load_user up s) (\<lambda>u.
     Inr ((key_put (session_keyring u) (key_put (uid_keyring u) s))
       \<lparr>users := (users s)(up := None)\<rparr>)))"

definition find_user :: "nat \<Rightarrow> addr \<Rightarrow> uid_t \<Rightarrow> ucache \<Rightarrow> (addr option \<times> ucache) result" where
  "find_user bits ns uid s = uid_hash_find uid (uidhash_table s ns (uidhashfn bits uid)) s"

definition free_uid :: "addr option \<Rightarrow> ucache \<Rightarrow> ucache result" where
  "free_uid p s = (case p of None \<Rightarrow> Inr s
     | Some up \<Rightarrow> rbind (load_user up s) (\<lambda>u.
         let c = wrap_s32 (u_count u - 1); s = set_user up (u\<lparr>u_count := c\<rparr>) s in
         if c = 0 then free_user up s else Inr s))"

definition kmem_cache_zalloc :: "ucache \<Rightarrow> addr option \<times> ucache" where
  "kmem_cache_zalloc s = (if u_brk s < u_limit s
     then (Some (u_brk s), s\<lparr>users := (users s)(u_brk s \<mapsto>
        \<lparr>u_count = 0, u_uid = 0, processes = 0, mem_max = 0, cumulative_mem = 0, user_ns = 0,
         uid_keyring = None, session_keyring = None\<rparr>), u_brk := Suc (u_brk s)\<rparr>)
     else (None, s))"

text \<open>
  \<open>alloc_uid\<close> looks the user up, and if it is missing allocates outside the lock, then looks it up
  again before it inserts. \<open>alloc_uid_new\<close> is the part after the failed first lookup, so that other
  processors may have run in between.
\<close>

definition alloc_uid_new :: "nat \<Rightarrow> addr \<Rightarrow> uid_t \<Rightarrow> ucache \<Rightarrow> (addr option \<times> ucache) result" where
  "alloc_uid_new bits ns uid s =
    (case kmem_cache_zalloc s of
      (None, s) \<Rightarrow> Inr (None, s)
    | (Some new, s) \<Rightarrow> rbind (load_user new s) (\<lambda>z.
        let u = z\<lparr>u_uid := uid, u_count := 1, mem_max := - 1, cumulative_mem := 0, user_ns := ns\<rparr>;
            s = get_user_ns ns (set_user new u s);
            hashent = uidhashfn bits uid in
        rbind (uid_hash_find uid (uidhash_table s ns hashent) s) (\<lambda>(up, s).
        case up of
          Some a \<Rightarrow>
            let s = put_user_ns ns s; s = key_put (uid_keyring u) s; s = key_put (session_keyring u) s in
            Inr (Some a, s\<lparr>users := (users s)(new := None)\<rparr>)
        | None \<Rightarrow> Inr (Some new, uid_hash_insert new ns hashent s))))"

definition alloc_uid :: "nat \<Rightarrow> addr \<Rightarrow> uid_t \<Rightarrow> ucache \<Rightarrow> (addr option \<times> ucache) result" where
  "alloc_uid bits ns uid s =
    rbind (uid_hash_find uid (uidhash_table s ns (uidhashfn bits uid)) s) (\<lambda>(up, s).
    case up of Some a \<Rightarrow> Inr (Some a, s) | None \<Rightarrow> alloc_uid_new bits ns uid s)"

definition uid_cache_init :: "nat \<Rightarrow> addr \<Rightarrow> addr \<Rightarrow> ucache \<Rightarrow> ucache" where
  "uid_cache_init bits init_user_ns root s =
    (let s = s\<lparr>uidhash_table := (uidhash_table s)(init_user_ns :=
           (\<lambda>k. if k < 2 ^ bits then [] else uidhash_table s init_user_ns k))\<rparr> in
     uid_hash_insert root init_user_ns (uidhashfn bits 0) s)"

section \<open>Invariant and abstraction\<close>

definition cache_inv :: "nat \<Rightarrow> ucache \<Rightarrow> bool" where
  "cache_inv bits s \<longleftrightarrow>
     (\<forall>ns b. distinct (uidhash_table s ns b))
   \<and> (\<forall>ns b a. a \<in> set (uidhash_table s ns b) \<longrightarrow>
        (\<exists>u. users s a = Some u \<and> uidhashfn bits (u_uid u) = b \<and> user_ns u = ns
           \<and> 0 < u_count u \<and> u_count u < 2 ^ 31))
   \<and> (\<forall>a u. users s a = Some u \<longrightarrow> a \<in> set (uidhash_table s (user_ns u) (uidhashfn bits (u_uid u))) \<and> a < u_brk s)
   \<and> (\<forall>a a' u u'. users s a = Some u \<longrightarrow> users s a' = Some u' \<longrightarrow> u_uid u = u_uid u' \<longrightarrow>
        user_ns u = user_ns u' \<longrightarrow> a = a')"

definition has_user :: "ucache \<Rightarrow> addr \<Rightarrow> uid_t \<Rightarrow> addr \<Rightarrow> bool" where
  "has_user s ns uid a \<longleftrightarrow> (\<exists>u. users s a = Some u \<and> u_uid u = uid \<and> user_ns u = ns)"

definition lookup_user :: "nat \<Rightarrow> ucache \<Rightarrow> addr \<Rightarrow> uid_t \<Rightarrow> addr option" where
  "lookup_user bits s ns uid = List.find (\<lambda>a. \<exists>u. users s a = Some u \<and> u_uid u = uid)
     (uidhash_table s ns (uidhashfn bits uid))"

definition refs :: "ucache \<Rightarrow> addr \<Rightarrow> int" where
  "refs s a = (case users s a of None \<Rightarrow> 0 | Some u \<Rightarrow> u_count u)"

lemma cache_invD:
  assumes "cache_inv bits s"
  shows "distinct (uidhash_table s ns b)"
    and "a \<in> set (uidhash_table s ns b) \<Longrightarrow> \<exists>u. users s a = Some u \<and> uidhashfn bits (u_uid u) = b
      \<and> user_ns u = ns \<and> 0 < u_count u \<and> u_count u < 2 ^ 31"
    and "users s a = Some u \<Longrightarrow> a \<in> set (uidhash_table s (user_ns u) (uidhashfn bits (u_uid u)))"
    and "users s a = Some u \<Longrightarrow> a < u_brk s"
    and "users s a = Some u \<Longrightarrow> users s a' = Some u' \<Longrightarrow> u_uid u = u_uid u' \<Longrightarrow>
      user_ns u = user_ns u' \<Longrightarrow> a = a'"
    and "users s a = Some u \<Longrightarrow> 0 < u_count u \<and> u_count u < 2 ^ 31"
  using assms unfolding cache_inv_def by blast+ (use assms in \<open>unfold cache_inv_def, metis option.inject\<close>)

text \<open>The lookup succeeds exactly for the users that exist, whatever the hash function.\<close>

lemma lookup_user_iff:
  assumes "cache_inv bits s"
  shows "lookup_user bits s ns uid = Some a \<longleftrightarrow> has_user s ns uid a"
proof
  assume "lookup_user bits s ns uid = Some a"
  then have "a \<in> set (uidhash_table s ns (uidhashfn bits uid))" "\<exists>u. users s a = Some u \<and> u_uid u = uid"
    by (auto simp: lookup_user_def find_Some_iff)
  with cache_invD(2) [OF assms] show "has_user s ns uid a" by (fastforce simp: has_user_def)
next
  assume h: "has_user s ns uid a"
  then obtain u where u: "users s a = Some u" "u_uid u = uid" "user_ns u = ns" by (auto simp: has_user_def)
  then have "a \<in> set (uidhash_table s ns (uidhashfn bits uid))" using cache_invD(3) [OF assms] by auto
  with u have "lookup_user bits s ns uid \<noteq> None"
    by (auto simp: lookup_user_def find_None_iff)
  then obtain a' where a': "lookup_user bits s ns uid = Some a'" by auto
  then have "a' \<in> set (uidhash_table s ns (uidhashfn bits uid))" "\<exists>u. users s a' = Some u \<and> u_uid u = uid"
    by (auto simp: lookup_user_def find_Some_iff)
  with cache_invD(2) [OF assms] have "has_user s ns uid a'" by (fastforce simp: has_user_def)
  with u cache_invD(5) [OF assms] have "a' = a" by (auto simp: has_user_def)
  with a' show "lookup_user bits s ns uid = Some a" by simp
qed

lemma uid_hash_find_eq:
  assumes "\<And>a. a \<in> set as \<Longrightarrow> users s a \<noteq> None"
  shows "uid_hash_find uid as s =
    (case List.find (\<lambda>a. \<exists>u. users s a = Some u \<and> u_uid u = uid) as of
       None \<Rightarrow> Inr (None, s)
     | Some a \<Rightarrow> Inr (Some a, set_user a ((the (users s a))\<lparr>u_count := wrap_s32 (u_count (the (users s a)) + 1)\<rparr>) s))"
  using assms
proof (induction as)
  case (Cons a as)
  then obtain u where "users s a = Some u" by fastforce
  with Cons show ?case by (auto simp: load_user_def)
qed simp

lemma find_user_eq:
  assumes "cache_inv bits s"
  shows "find_user bits ns uid s = (case lookup_user bits s ns uid of None \<Rightarrow> Inr (None, s)
     | Some a \<Rightarrow> Inr (Some a, set_user a ((the (users s a))\<lparr>u_count := wrap_s32 (u_count (the (users s a)) + 1)\<rparr>) s))"
  unfolding find_user_def lookup_user_def
  by (rule uid_hash_find_eq) (use cache_invD(2) [OF assms] in fastforce)

text \<open>Changing a count (or a limit) within range keeps the invariant and the abstraction.\<close>

lemma cache_inv_set_user:
  assumes "cache_inv bits s" "users s a = Some u" "u_uid u' = u_uid u" "user_ns u' = user_ns u"
    "0 < u_count u'" "u_count u' < 2 ^ 31"
  shows "cache_inv bits (set_user a u' s)"
  using assms unfolding cache_inv_def set_user_def by (simp add: all_conj_distrib) (metis option.inject)

lemma has_user_set_user:
  "users s a = Some u \<Longrightarrow> u_uid u' = u_uid u \<Longrightarrow> user_ns u' = user_ns u \<Longrightarrow>
    has_user (set_user a u' s) = has_user s"
  by (auto simp: has_user_def set_user_def fun_eq_iff)

lemma lookup_user_set_user:
  assumes "users s a = Some u" "u_uid u' = u_uid u"
  shows "lookup_user bits (set_user a u' s) = lookup_user bits s"
proof -
  have "(\<lambda>x. \<exists>w. users (set_user a u' s) x = Some w \<and> u_uid w = uid)
      = (\<lambda>x. \<exists>w. users s x = Some w \<and> u_uid w = uid)" for uid
    using assms by (auto simp: set_user_def fun_eq_iff)
  then show ?thesis by (simp add: lookup_user_def fun_eq_iff) (simp add: set_user_def)
qed

lemma refs_set_user: "refs (set_user a u' s) = (refs s)(a := u_count u')"
  by (auto simp: refs_def set_user_def fun_eq_iff)

lemma find_user_hit:
  assumes inv: "cache_inv bits s" and l: "lookup_user bits s ns uid = Some a" and r: "refs s a < 2 ^ 31 - 1"
  shows "\<exists>s'. find_user bits ns uid s = Inr (Some a, s') \<and> cache_inv bits s'
    \<and> lookup_user bits s' = lookup_user bits s \<and> refs s' = (refs s)(a := refs s a + 1)"
proof -
  from l lookup_user_iff [OF inv] obtain u where u: "users s a = Some u" by (auto simp: has_user_def)
  with cache_invD(6) [OF inv] r have c: "0 < u_count u" "u_count u < 2 ^ 31 - 1" by (auto simp: refs_def)
  then have "wrap_s32 (u_count u + 1) = u_count u + 1" by (intro wrap_s32_id) auto
  with find_user_eq [OF inv, of ns uid] l u c show ?thesis
    by (auto intro!: cache_inv_set_user [OF inv u] simp: lookup_user_set_user [OF u] refs_set_user)
      (simp add: refs_def)
qed

lemma free_uid_drop:
  assumes inv: "cache_inv bits s" and l: "lookup_user bits s ns uid = Some a" and r: "1 < refs s a"
  shows "\<exists>s'. free_uid (Some a) s = Inr s' \<and> cache_inv bits s'
    \<and> lookup_user bits s' = lookup_user bits s \<and> refs s' = (refs s)(a := refs s a - 1)"
proof -
  from l lookup_user_iff [OF inv] obtain u where u: "users s a = Some u" by (auto simp: has_user_def)
  with cache_invD(6) [OF inv] r have c: "1 < u_count u" "u_count u < 2 ^ 31" by (auto simp: refs_def)
  then have "wrap_s32 (u_count u - 1) = u_count u - 1" by (intro wrap_s32_id) auto
  with u c show ?thesis
    by (auto simp: free_uid_def load_user_def lookup_user_set_user [OF u] refs_set_user
        intro!: cache_inv_set_user [OF inv u]) (simp add: refs_def)
qed

interpretation user_cache: user_table "\<lambda>(ns, uid). find_user bits ns uid" "\<lambda>a. free_uid (Some a)"
    "\<lambda>s (ns, uid). lookup_user bits s ns uid" refs "cache_inv bits" "2 ^ 31 - 1"
  for bits :: nat
proof (unfold_locales, goal_cases)
  case (1 s i a)
  then show ?case using find_user_hit [of bits s "fst i" "snd i" a] by (cases i) fastforce
next
  case (2 s i)
  then show ?case using find_user_eq [of bits s "fst i" "snd i"] by (cases i) simp
next
  case (3 s i a)
  then show ?case using free_uid_drop [of bits s "fst i" "snd i" a] by (cases i) fastforce
qed

section \<open>Inserting and removing users\<close>

lemma cache_inv_insert:
  assumes inv: "cache_inv bits s" and new: "\<And>a. \<not> has_user s ns uid a"
    and u: "u_uid u = uid" "user_ns u = ns" "u_count u = 1" and b: "u_brk s \<le> a"
  shows "cache_inv bits (uid_hash_insert a ns (uidhashfn bits uid)
    (s\<lparr>u_brk := Suc a, users := (users s)(a \<mapsto> u), ns_kref := k\<rparr>))" (is "cache_inv bits ?s")
proof -
  have fr: "users s a = None" using cache_invD(4) [OF inv, of a] b by (cases "users s a") auto
  have na: "a \<notin> set (uidhash_table s ns' b')" for ns' b' using cache_invD(2) [OF inv] fr by fastforce
  have tab: "uidhash_table ?s ns' b' =
      (if ns' = ns \<and> b' = uidhashfn bits uid then a # uidhash_table s ns' b' else uidhash_table s ns' b')" for ns' b'
    by (simp add: uid_hash_insert_def)
  have us: "users ?s = (users s)(a \<mapsto> u)" and br: "u_brk ?s = Suc a"
    by (simp_all add: uid_hash_insert_def)
  have "distinct (uidhash_table ?s ns' b')" for ns' b'
    unfolding tab using cache_invD(1) [OF inv] na by auto
  moreover have "\<exists>w. users ?s x = Some w \<and> uidhashfn bits (u_uid w) = b' \<and> user_ns w = ns'
      \<and> 0 < u_count w \<and> u_count w < 2 ^ 31" if "x \<in> set (uidhash_table ?s ns' b')" for ns' b' x
    using that cache_invD(2) [OF inv, of x ns' b'] u fr unfolding tab us by (auto split: if_splits)
  moreover have "x \<in> set (uidhash_table ?s (user_ns w) (uidhashfn bits (u_uid w))) \<and> x < u_brk ?s"
    if "users ?s x = Some w" for x w
    using that cache_invD(3,4) [OF inv, of x w] u b unfolding tab us br by (fastforce split: if_splits)
  moreover have "x = x'" if "users ?s x = Some w" "users ?s x' = Some w'" "u_uid w = u_uid w'"
    "user_ns w = user_ns w'" for x x' w w'
    using that cache_invD(5) [OF inv, of x w x' w'] new [unfolded has_user_def] u unfolding us
    by (auto split: if_splits)
  ultimately show ?thesis unfolding cache_inv_def by blast
qed

lemma lookup_None: "cache_inv bits s \<Longrightarrow> lookup_user bits s ns uid = None \<longleftrightarrow> (\<forall>a. \<not> has_user s ns uid a)"
  using lookup_user_iff [of bits s ns uid] by (metis not_Some_eq)

text \<open>The zeroed object is invisible to the lookup: it is in no bucket.\<close>

lemma uid_hash_find_fresh:
  assumes inv: "cache_inv bits s" and b: "u_brk s \<le> n"
    and s': "users s' = (users s)(n \<mapsto> z)" "uidhash_table s' = uidhash_table s"
  shows "uid_hash_find uid (uidhash_table s ns (uidhashfn bits uid)) s'
    = (case lookup_user bits s ns uid of None \<Rightarrow> Inr (None, s')
       | Some a \<Rightarrow> Inr (Some a, set_user a ((the (users s a))\<lparr>u_count := wrap_s32 (u_count (the (users s a)) + 1)\<rparr>) s'))"
    (is "uid_hash_find uid ?as s' = _")
proof -
  have fr: "users s n = None" using cache_invD(4) [OF inv, of n] b by (cases "users s n") auto
  have na: "n \<notin> set ?as" using cache_invD(2) [OF inv] fr by fastforce
  have same: "users s' a = users s a" if "a \<in> set ?as" for a using that na s' by auto
  then have "List.find (\<lambda>a. \<exists>u. users s' a = Some u \<and> u_uid u = uid) ?as = lookup_user bits s ns uid"
    unfolding lookup_user_def by (intro find_cong) auto
  moreover have "lookup_user bits s ns uid = Some a \<Longrightarrow> a \<in> set ?as" for a
    by (auto simp: lookup_user_def find_Some_iff)
  moreover have "users s' a \<noteq> None" if "a \<in> set ?as" for a
    using that cache_invD(2) [OF inv that] same by fastforce
  ultimately show ?thesis using same
    by (subst uid_hash_find_eq) (auto split: option.splits)
qed

lemma cache_inv_brk: "cache_inv bits s \<Longrightarrow> u_brk s \<le> m \<Longrightarrow> cache_inv bits (s\<lparr>u_brk := m\<rparr>)"
  unfolding cache_inv_def by (simp add: all_conj_distrib) (meson less_le_trans)

lemma alloc_uid_new_hit:
  assumes inv: "cache_inv bits s" and sp: "u_brk s < u_limit s"
    and l: "lookup_user bits s ns uid = Some a" and r: "refs s a < 2 ^ 31 - 1"
  shows "\<exists>s'. alloc_uid_new bits ns uid s = Inr (Some a, s') \<and> cache_inv bits s'
    \<and> has_user s' = has_user s \<and> refs s' = (refs s)(a := refs s a + 1)
    \<and> (\<forall>n. ns_kref s' n = ns_kref s n)"
proof -
  from l lookup_user_iff [OF inv] obtain u where u: "users s a = Some u" by (auto simp: has_user_def)
  have fr: "users s (u_brk s) = None" using cache_invD(4) [OF inv, of "u_brk s"]
    by (cases "users s (u_brk s)") auto
  then have ne: "a \<noteq> u_brk s" using u by auto
  have c: "0 < u_count u" "u_count u < 2 ^ 31 - 1" using cache_invD(6) [OF inv u] r u by (auto simp: refs_def)
  then have w: "wrap_s32 (u_count u + 1) = u_count u + 1" by (intro wrap_s32_id) auto
  let ?s = "(set_user a (u\<lparr>u_count := u_count u + 1\<rparr>) s)\<lparr>u_brk := Suc (u_brk s)\<rparr>"
  have "alloc_uid_new bits ns uid s = Inr (Some a, ?s)"
    using sp u ne fr w l
    by (simp add: alloc_uid_new_def kmem_cache_zalloc_def load_user_def get_user_ns_def
        uid_hash_find_fresh [OF inv order_refl, where z = z for z] set_user_def)
      (auto simp: put_user_ns_def key_put_def fun_eq_iff intro!: ucache.equality)
  moreover have "cache_inv bits (set_user a (u\<lparr>u_count := u_count u + 1\<rparr>) s)"
    using c by (intro cache_inv_set_user [OF inv u]) auto
  then have "cache_inv bits ?s" by (rule cache_inv_brk) (simp add: set_user_def)
  moreover have "has_user ?s = has_user (set_user a (u\<lparr>u_count := u_count u + 1\<rparr>) s)"
    "refs ?s = refs (set_user a (u\<lparr>u_count := u_count u + 1\<rparr>) s)"
    by (simp_all add: has_user_def refs_def fun_eq_iff)
  ultimately show ?thesis
    using u by (auto simp: has_user_set_user [OF u] refs_set_user) (simp_all add: refs_def set_user_def)
qed

lemma alloc_uid_new_miss:
  assumes inv: "cache_inv bits s" and sp: "u_brk s < u_limit s" and l: "lookup_user bits s ns uid = None"
  shows "\<exists>s' u. alloc_uid_new bits ns uid s = Inr (Some (u_brk s), s') \<and> cache_inv bits s'
    \<and> users s' = (users s)(u_brk s \<mapsto> u) \<and> users s (u_brk s) = None
    \<and> u_uid u = uid \<and> user_ns u = ns \<and> u_count u = 1 \<and> mem_max u = - 1 \<and> cumulative_mem u = 0"
proof -
  have fr: "users s (u_brk s) = None" using cache_invD(4) [OF inv, of "u_brk s"]
    by (cases "users s (u_brk s)") auto
  let ?u = "\<lparr>u_count = 1, u_uid = uid, processes = 0, mem_max = - 1, cumulative_mem = 0, user_ns = ns,
         uid_keyring = None, session_keyring = None\<rparr>"
  let ?s = "uid_hash_insert (u_brk s) ns (uidhashfn bits uid) (s\<lparr>u_brk := Suc (u_brk s),
      users := (users s)(u_brk s \<mapsto> ?u), ns_kref := (ns_kref s)(ns := ns_kref s ns + 1)\<rparr>)"
  have "alloc_uid_new bits ns uid s = Inr (Some (u_brk s), ?s)"
    using sp l
    by (simp add: alloc_uid_new_def kmem_cache_zalloc_def load_user_def get_user_ns_def
        uid_hash_find_fresh [OF inv order_refl] set_user_def)
  moreover have "cache_inv bits ?s"
    using l lookup_None [OF inv] by (intro cache_inv_insert [OF inv]) auto
  ultimately show ?thesis using fr by (intro exI [of _ ?s] exI [of _ ?u]) (simp add: uid_hash_insert_def)
qed

section \<open>Properties\<close>

text \<open>
  There is never more than one \<open>user_struct\<close> for a uid of a namespace, and the lookup finds it:
  in a well-formed cache \<open>find_user\<close> returns the user exactly when one exists, takes one reference on
  it and changes nothing else that a lookup or a reference count can see.
\<close>
theorem find_user_correct:
  assumes "cache_inv bits s" and "\<And>a. refs s a < 2 ^ 31 - 1"
  shows "\<exists>p s'. find_user bits ns uid s = Inr (p, s') \<and> cache_inv bits s'
    \<and> (\<forall>a. p = Some a \<longleftrightarrow> has_user s ns uid a) \<and> lookup_user bits s' = lookup_user bits s
    \<and> refs s' = (case p of None \<Rightarrow> refs s | Some a \<Rightarrow> (refs s)(a := refs s a + 1))"
proof (cases "lookup_user bits s ns uid")
  case None
  then have "find_user bits ns uid s = Inr (None, s)" using find_user_eq [OF assms(1), of ns uid] by simp
  moreover have "\<forall>a. \<not> has_user s ns uid a" using None lookup_None [OF assms(1)] by simp
  ultimately show ?thesis using assms(1) by auto
next
  case (Some a)
  with find_user_hit [OF assms(1) Some assms(2)] lookup_user_iff [OF assms(1), of ns uid]
  show ?thesis by fastforce
qed

text \<open>
  C36. \<open>alloc_uid\<close> is safe against a racing \<open>alloc_uid\<close> of the same uid: whatever well-formed cache the
  second half finds, it leaves a well-formed cache with one user for that uid, on which the caller
  holds a reference; a user it creates has no limit and no memory charged.
\<close>
theorem alloc_uid_new_unique:
  assumes "cache_inv bits s" and "\<And>a. refs s a < 2 ^ 31 - 1" and "u_brk s < u_limit s"
  shows "\<exists>a s' u. alloc_uid_new bits ns uid s = Inr (Some a, s') \<and> cache_inv bits s'
    \<and> lookup_user bits s' ns uid = Some a \<and> refs s' a = refs s a + 1 \<and> users s' a = Some u
    \<and> (lookup_user bits s ns uid = None \<longrightarrow> mem_max u = - 1 \<and> cumulative_mem u = 0)"
proof (cases "lookup_user bits s ns uid")
  case None
  from alloc_uid_new_miss [OF assms(1,3) None] obtain s' u
    where s': "alloc_uid_new bits ns uid s = Inr (Some (u_brk s), s')" "cache_inv bits s'"
      "users s' = (users s)(u_brk s \<mapsto> u)" "users s (u_brk s) = None"
      "u_uid u = uid" "user_ns u = ns" "u_count u = 1" "mem_max u = - 1" "cumulative_mem u = 0" by blast
  then have "has_user s' ns uid (u_brk s)" by (simp add: has_user_def)
  with s' lookup_user_iff [OF s'(2)] show ?thesis by (auto simp: refs_def)
next
  case (Some a)
  from alloc_uid_new_hit [OF assms(1,3) Some assms(2)] obtain s'
    where s': "alloc_uid_new bits ns uid s = Inr (Some a, s')" "cache_inv bits s'"
      "has_user s' = has_user s" "refs s' = (refs s)(a := refs s a + 1)" by blast
  have "has_user s' ns uid a" using Some lookup_user_iff [OF assms(1)] s'(3) by simp
  then obtain u where "users s' a = Some u" "lookup_user bits s' ns uid = Some a"
    using lookup_user_iff [OF s'(2), of ns uid a] by (auto simp: has_user_def)
  with s' Some show ?thesis by (intro exI [of _ a] exI [of _ s'] exI [of _ u]) simp
qed

text \<open>
  Taking a reference with \<open>find_user\<close> and giving it back with \<open>free_uid\<close> restores every reference
  count and every lookup.
\<close>
theorem find_free_roundtrip:
  assumes "cache_inv bits s" and "lookup_user bits s ns uid = Some a" and "refs s a < 2 ^ 31 - 1"
  shows "\<exists>s1 s2. find_user bits ns uid s = Inr (Some a, s1) \<and> free_uid (Some a) s1 = Inr s2
    \<and> cache_inv bits s2 \<and> lookup_user bits s2 = lookup_user bits s \<and> refs s2 = refs s"
proof -
  from assms(1,2) lookup_user_iff [of bits s ns uid a] have "0 < refs s a"
    using cache_invD(6) [OF assms(1)] by (auto simp: has_user_def refs_def)
  with user_cache.find_put [of bits s "(ns, uid)" a] assms show ?thesis
    by (fastforce simp: fun_eq_iff)
qed

text \<open>
  Callers that look a user up and never call \<open>free_uid\<close> (as \<open>set_mlimit\<close>, the OOM killer and the
  page allocator do) pin it for ever: \<open>k\<close> lookups raise its reference count by exactly \<open>k\<close>.
\<close>
theorem find_user_leaks_reference:
  assumes "cache_inv bits s" and "lookup_user bits s ns uid = Some a" and "refs s a + int k \<le> 2 ^ 31 - 1"
  shows "\<exists>s'. find_all (\<lambda>(ns, uid). find_user bits ns uid) (replicate k (ns, uid)) s = Inr s'
    \<and> refs s' a = refs s a + int k \<and> lookup_user bits s' ns uid = Some a"
  using user_cache.find_all_leaks [of bits s "(ns, uid)" a k] assms by (fastforce simp: fun_eq_iff)

subsection \<open>Witnesses: the cache after \<open>uid_cache_init\<close>\<close>

definition cache_example :: ucache where
  "cache_example = uid_cache_init 3 5 2 \<lparr>users = [2 \<mapsto> root_user 5], uidhash_table = (\<lambda>_ _. []),
     ns_kref = (\<lambda>_. init_user_ns_kref), keys_put = [], u_brk = 10, u_limit = 100\<rparr>"

lemma cache_example_inv: "cache_inv 3 cache_example"
  by (auto simp: cache_inv_def cache_example_def uid_cache_init_def uid_hash_insert_def root_user_def Let_def)

lemma cache_example_root: "lookup_user 3 cache_example 5 0 = Some 2" "lookup_user 3 cache_example 5 7 = None"
  using lookup_user_iff [OF cache_example_inv] lookup_None [OF cache_example_inv]
  by (auto simp: has_user_def cache_example_def uid_cache_init_def uid_hash_insert_def root_user_def Let_def)

lemma cache_example_refs: "refs cache_example a = (if a = 2 then 2 else 0)"
  by (auto simp: refs_def cache_example_def uid_cache_init_def uid_hash_insert_def root_user_def Let_def)

lemma cache_example_space: "u_brk cache_example < u_limit cache_example"
  by (simp add: cache_example_def uid_cache_init_def uid_hash_insert_def Let_def)

theorem find_user_correct_witness:
  "\<exists>p s'. find_user 3 5 0 cache_example = Inr (p, s') \<and> cache_inv 3 s'
    \<and> (\<forall>a. p = Some a \<longleftrightarrow> has_user cache_example 5 0 a) \<and> lookup_user 3 s' = lookup_user 3 cache_example
    \<and> refs s' = (case p of None \<Rightarrow> refs cache_example | Some a \<Rightarrow> (refs cache_example)(a := refs cache_example a + 1))"
  by (rule find_user_correct [OF cache_example_inv]) (simp add: cache_example_refs)

theorem alloc_uid_new_unique_witness:
  "\<exists>a s' u. alloc_uid_new 3 5 7 cache_example = Inr (Some a, s') \<and> cache_inv 3 s'
    \<and> lookup_user 3 s' 5 7 = Some a \<and> refs s' a = refs cache_example a + 1 \<and> users s' a = Some u
    \<and> (lookup_user 3 cache_example 5 7 = None \<longrightarrow> mem_max u = - 1 \<and> cumulative_mem u = 0)"
  by (rule alloc_uid_new_unique [OF cache_example_inv]) (simp_all add: cache_example_refs cache_example_space)

theorem find_free_roundtrip_witness:
  "\<exists>s1 s2. find_user 3 5 0 cache_example = Inr (Some 2, s1) \<and> free_uid (Some 2) s1 = Inr s2
    \<and> cache_inv 3 s2 \<and> lookup_user 3 s2 = lookup_user 3 cache_example \<and> refs s2 = refs cache_example"
  by (rule find_free_roundtrip [OF cache_example_inv]) (simp_all add: cache_example_root cache_example_refs)

theorem find_user_leaks_reference_witness:
  "\<exists>s'. find_all (\<lambda>(ns, uid). find_user 3 ns uid) (replicate 5 (5, 0)) cache_example = Inr s'
    \<and> refs s' 2 = refs cache_example 2 + int 5 \<and> lookup_user 3 s' 5 0 = Some 2"
  by (rule find_user_leaks_reference [OF cache_example_inv]) (simp_all add: cache_example_root cache_example_refs)

end
