(* ===== verification/Oom_State.thy ===== *)
theory Oom_State
  imports User_Cache
begin

unbundle bit_operations_syntax

text \<open>
  The part of the kernel state that the memory limit of homework 5 reads and writes: tasks, their
  memory descriptors, the user cache, the globals \<open>user\<close> and \<open>start\<close> of \<open>set_mlimit.c\<close> and the knobs
  of \<open>oom_kill.c\<close>; and the system call \<open>set_mlimit\<close> itself.

  \<open>plist\<close> is the order of \<open>for_each_process\<close>; \<open>ring p\<close> is the thread ring of \<open>p\<close> read from \<open>p\<close> (so its
  first element is \<open>p\<close>), the order of \<open>while_each_thread\<close>. \<open>rss\<close> is what \<open>get_mm_rss\<close> returns.
  Functions of other kernel subsystems are fields of \<open>oom_env\<close>.
\<close>

section \<open>State\<close>

record mm =
  rss :: ulong
  nr_ptes :: ulong
  swapents :: ulong

record task =
  t_pid :: int
  t_tgid :: int
  t_flags :: u32
  exit_state :: int
  t_mm :: "addr option"
  t_signal :: addr
  cred_uid :: uid_t
  cred_user :: addr
  tif_memdie :: bool
  frozen :: bool
  ptrace_exit :: bool
  group_leader :: addr
  children :: "addr list"
  fatal_signal :: bool

record oomk =
  uc :: ucache
  tasks :: "addr \<Rightarrow> task"
  mms :: "addr \<Rightarrow> mm"
  oom_score_adj :: "addr \<Rightarrow> int"
  plist :: "addr list"
  ring :: "addr \<Rightarrow> addr list"
  "user" :: uid_t
  "start" :: int
  current :: addr
  sigkilled :: "addr list"
  zone_oom_locked :: "addr \<Rightarrow> bool"
  populated_zones :: "addr list"
  sysctl_panic_on_oom :: int
  sysctl_oom_kill_allocating_task :: int
  totalram_pages :: ulong
  total_swap_pages :: ulong

record oom_env =
  uidhash_bits :: nat
  current_user_ns :: addr
  config_numa :: bool
  mempolicy_nodemask_intersects :: "addr \<Rightarrow> addr \<Rightarrow> bool"
  cpuset_mems_allowed_intersects :: "addr \<Rightarrow> addr \<Rightarrow> bool"
  task_in_mem_cgroup :: "addr \<Rightarrow> addr \<Rightarrow> bool"
  has_capability_noaudit :: "addr \<Rightarrow> bool"
  notifier_freed :: ulong
  mem_cgroup_get_limit :: "addr \<Rightarrow> u64"
  gfp_thisnode :: "u32 \<Rightarrow> bool"
  high_memory_subset :: "addr \<Rightarrow> bool"
  mask_nodes :: "addr \<Rightarrow> nat list"
  node_spanned_pages :: "nat \<Rightarrow> ulong"
  zonelist_zones :: "addr \<Rightarrow> u32 \<Rightarrow> addr option \<Rightarrow> addr list"
  cpuset_zone_allowed_softwall :: "addr \<Rightarrow> u32 \<Rightarrow> bool"
  cpuset_current_mems_allowed :: "nat list"

definition PAGE_SIZE :: ulong where
  "PAGE_SIZE = 4096"

definition PF_EXITING :: u32 where
  "PF_EXITING = 0x00000004"

definition PF_KTHREAD :: u32 where
  "PF_KTHREAD = 0x00200000"

definition OOM_SCORE_ADJ_MIN :: int where
  "OOM_SCORE_ADJ_MIN = - 1000"

definition get_mm_rss :: "oomk \<Rightarrow> addr option \<Rightarrow> ulong result" where
  "get_mm_rss s m = (case m of None \<Rightarrow> Inl NullDeref | Some a \<Rightarrow> Inr (rss (mms s a)))"

definition adj :: "oomk \<Rightarrow> addr \<Rightarrow> int" where
  "adj s p = oom_score_adj s (t_signal (tasks s p))"

definition upd_task :: "addr \<Rightarrow> (task \<Rightarrow> task) \<Rightarrow> oomk \<Rightarrow> oomk" where
  "upd_task p f s = s\<lparr>tasks := (tasks s)(p := f (tasks s p))\<rparr>"

text \<open>\<open>usr->cumulative_mem += delta\<close> on a \<open>long\<close> field, through a pointer that may be null.\<close>

definition add_cumulative :: "addr option \<Rightarrow> int \<Rightarrow> oomk \<Rightarrow> oomk result" where
  "add_cumulative p delta s = (case p of None \<Rightarrow> Inl NullDeref
     | Some a \<Rightarrow> rbind (load_user a (uc s)) (\<lambda>u.
         Inr (s\<lparr>uc := set_user a (u\<lparr>cumulative_mem := wrap_s32 (cumulative_mem u + delta)\<rparr>) (uc s)\<rparr>)))"

definition rss_bytes :: "ulong \<Rightarrow> int" where
  "rss_bytes r = uint (r * PAGE_SIZE)"

definition find_user_k :: "oom_env \<Rightarrow> uid_t \<Rightarrow> oomk \<Rightarrow> (addr option \<times> oomk) result" where
  "find_user_k env uid s =
    rbind (find_user (uidhash_bits env) (current_user_ns env) uid (uc s)) (\<lambda>(p, c). Inr (p, s\<lparr>uc := c\<rparr>))"

section \<open>The system call \<open>set_mlimit\<close>\<close>

fun charge_processes :: "uid_t \<Rightarrow> addr option \<Rightarrow> addr list \<Rightarrow> oomk \<Rightarrow> oomk result" where
  "charge_processes uid usr [] s = Inr s"
| "charge_processes uid usr (p # ps) s =
    (if cred_uid (tasks s p) = uid
     then rbind (get_mm_rss s (t_mm (tasks s p))) (\<lambda>r.
          rbind (add_cumulative usr (rss_bytes r) s) (charge_processes uid usr ps))
     else charge_processes uid usr ps s)"

definition set_mlimit :: "oom_env \<Rightarrow> uid_t \<Rightarrow> int \<Rightarrow> oomk \<Rightarrow> (int \<times> oomk) result" where
  "set_mlimit env uid lim s =
    rbind (find_user_k env uid s) (\<lambda>(usr, s).
    rbind (charge_processes uid usr (plist s) s) (\<lambda>s.
    case usr of
      None \<Rightarrow> Inl NullDeref
    | Some a \<Rightarrow>
        let s = s\<lparr>user := uid\<rparr> in
        rbind (load_user a (uc s)) (\<lambda>u.
        let s = s\<lparr>uc := set_user a (u\<lparr>mem_max := lim\<rparr>) (uc s), start := 1\<rparr> in
        Inr (wrap_s32 (cumulative_mem u), s))))"

section \<open>What the system call charges\<close>

definition user_rss :: "oomk \<Rightarrow> uid_t \<Rightarrow> addr list \<Rightarrow> int" where
  "user_rss s uid ps = sum_list (map (\<lambda>p. case t_mm (tasks s p) of
      None \<Rightarrow> 0 | Some m \<Rightarrow> rss_bytes (rss (mms s m))) (filter (\<lambda>p. cred_uid (tasks s p) = uid) ps))"

lemma user_rss_cong: "tasks s' = tasks s \<Longrightarrow> mms s' = mms s \<Longrightarrow> user_rss s' uid ps = user_rss s uid ps"
  by (simp only: user_rss_def)

lemma wrap_s32_add: "wrap_s32 (wrap_s32 x + y) = wrap_s32 (x + y)"
  by (simp add: wrap_s32_def signed_take_bit_add [of 31 "signed_take_bit 31 x" y, symmetric]
      signed_take_bit_add [of 31 x y, symmetric])

lemma charge_processes_eq:
  assumes "users (uc s) a = Some u"
    and "\<And>p. p \<in> set ps \<Longrightarrow> cred_uid (tasks s p) = uid \<Longrightarrow> t_mm (tasks s p) \<noteq> None"
  shows "\<exists>c. charge_processes uid (Some a) ps s =
      Inr (s\<lparr>uc := (uc s)\<lparr>users := (users (uc s))(a \<mapsto> u\<lparr>cumulative_mem := c\<rparr>)\<rparr>\<rparr>)
    \<and> (if filter (\<lambda>p. cred_uid (tasks s p) = uid) ps = [] then c = cumulative_mem u
       else c = wrap_s32 (cumulative_mem u + user_rss s uid ps))"
  using assms
proof (induction ps arbitrary: s u)
  case Nil
  have "s\<lparr>uc := (uc s)\<lparr>users := (users (uc s))(a \<mapsto> u)\<rparr>\<rparr> = s" using Nil
    by (auto simp: fun_upd_idem)
  then show ?case by (intro exI [of _ "cumulative_mem u"]) (simp del: fun_upd_apply)
next
  case (Cons p ps)
  show ?case
  proof (cases "cred_uid (tasks s p) = uid")
    case False
    then show ?thesis using Cons.IH [of s u] Cons.prems by (auto simp: user_rss_def)
  next
    case True
    then obtain m where m: "t_mm (tasks s p) = Some m" using Cons.prems(2) [of p] by auto
    let ?c = "wrap_s32 (cumulative_mem u + rss_bytes (rss (mms s m)))"
    let ?u = "u\<lparr>cumulative_mem := ?c\<rparr>"
    let ?s = "s\<lparr>uc := (uc s)\<lparr>users := (users (uc s))(a \<mapsto> ?u)\<rparr>\<rparr>"
    have "users (uc ?s) a = Some ?u" by simp
    moreover have "\<And>p. p \<in> set ps \<Longrightarrow> cred_uid (tasks ?s p) = uid \<Longrightarrow> t_mm (tasks ?s p) \<noteq> None"
      using Cons.prems(2) by auto
    ultimately obtain c where c: "charge_processes uid (Some a) ps ?s =
        Inr (?s\<lparr>uc := (uc ?s)\<lparr>users := (users (uc ?s))(a \<mapsto> ?u\<lparr>cumulative_mem := c\<rparr>)\<rparr>\<rparr>)"
      "if filter (\<lambda>p. cred_uid (tasks ?s p) = uid) ps = [] then c = cumulative_mem ?u
       else c = wrap_s32 (cumulative_mem ?u + user_rss ?s uid ps)"
      using Cons.IH by blast
    have r: "user_rss ?s uid ps = user_rss s uid ps" by (rule user_rss_cong) simp_all
    have "charge_processes uid (Some a) (p # ps) s = charge_processes uid (Some a) ps ?s"
      using True m Cons.prems(1) by (simp add: get_mm_rss_def add_cumulative_def load_user_def set_user_def)
    with c(1) have "charge_processes uid (Some a) (p # ps) s =
        Inr (s\<lparr>uc := (uc s)\<lparr>users := (users (uc s))(a \<mapsto> u\<lparr>cumulative_mem := c\<rparr>)\<rparr>\<rparr>)" by simp
    moreover have "c = wrap_s32 (cumulative_mem u + user_rss s uid (p # ps))"
      using c(2) r True m by (auto simp: user_rss_def wrap_s32_add add.assoc split: if_splits)
    ultimately show ?thesis using True by (intro exI [of _ c]) (simp del: fun_upd_apply)
  qed
qed

definition charge_ok :: "oomk \<Rightarrow> uid_t \<Rightarrow> bool" where
  "charge_ok s uid \<longleftrightarrow> list_ex (\<lambda>p. cred_uid (tasks s p) = uid) (plist s)
     \<and> list_all (\<lambda>p. cred_uid (tasks s p) = uid \<longrightarrow> t_mm (tasks s p) \<noteq> None) (plist s)"

lemma set_mlimit_eq:
  assumes inv: "cache_inv (uidhash_bits env) (uc s)"
    and l: "lookup_user (uidhash_bits env) (uc s) (current_user_ns env) uid = Some a"
    and u: "users (uc s) a = Some u" and r: "u_count u < 2 ^ 31 - 1" and ok: "charge_ok s uid"
  shows "set_mlimit env uid lim s =
    (let c = wrap_s32 (cumulative_mem u + user_rss s uid (plist s)) in
     Inr (c, s\<lparr>uc := set_user a (u\<lparr>u_count := u_count u + 1, cumulative_mem := c, mem_max := lim\<rparr>) (uc s),
        user := uid, start := 1\<rparr>))"
proof -
  let ?u = "u\<lparr>u_count := u_count u + 1\<rparr>"
  let ?s = "s\<lparr>uc := set_user a ?u (uc s)\<rparr>"
  have "wrap_s32 (u_count u + 1) = u_count u + 1"
    using cache_invD(6) [OF inv u] r by (intro wrap_s32_id) auto
  then have f: "find_user_k env uid s = Inr (Some a, ?s)"
    using l u by (simp add: find_user_k_def find_user_eq [OF inv])
  have u': "users (uc ?s) a = Some ?u" by (simp add: set_user_def)
  have mmok: "\<And>p. p \<in> set (plist s) \<Longrightarrow> cred_uid (tasks ?s p) = uid \<Longrightarrow> t_mm (tasks ?s p) \<noteq> None"
    using ok by (auto simp: charge_ok_def list_all_iff)
  have ne: "filter (\<lambda>p. cred_uid (tasks ?s p) = uid) (plist s) \<noteq> []"
    using ok by (auto simp: charge_ok_def list_ex_iff filter_empty_conv)
  have "user_rss ?s uid (plist s) = user_rss s uid (plist s)" by (rule user_rss_cong) simp_all
  with charge_processes_eq [where uid = uid and ps = "plist s", OF u' mmok] ne
  have c: "charge_processes uid (Some a) (plist s) ?s = Inr (?s\<lparr>uc := (uc ?s)\<lparr>users := (users (uc ?s))
      (a \<mapsto> ?u\<lparr>cumulative_mem := wrap_s32 (cumulative_mem u + user_rss s uid (plist s))\<rparr>)\<rparr>\<rparr>)"
    by (auto simp del: fun_upd_apply)
  show ?thesis
    unfolding set_mlimit_def f using c by (simp add: load_user_def set_user_def Let_def)
qed

text \<open>
  \<open>set_mlimit\<close> on a known user whose processes all have an address space returns the memory charged
  to the user, the old charge plus the resident memory of its processes (modulo the width of \<open>long\<close>),
  stores the limit, records the user in the global \<open>user\<close>, and leaves every other user untouched.
\<close>
theorem set_mlimit_charges_rss:
  assumes "cache_inv (uidhash_bits env) (uc s)"
    and "lookup_user (uidhash_bits env) (uc s) (current_user_ns env) uid = Some a"
    and "users (uc s) a = Some u" and "u_count u < 2 ^ 31 - 1" and "charge_ok s uid"
  shows "\<exists>c s' u'. set_mlimit env uid lim s = Inr (c, s')
    \<and> c = wrap_s32 (cumulative_mem u + user_rss s uid (plist s))
    \<and> users (uc s') a = Some u' \<and> mem_max u' = lim \<and> cumulative_mem u' = c \<and> user s' = uid
    \<and> (\<forall>b. b \<noteq> a \<longrightarrow> users (uc s') b = users (uc s) b) \<and> cache_inv (uidhash_bits env) (uc s')"
proof -
  have "cache_inv (uidhash_bits env) (set_user a (u\<lparr>u_count := u_count u + 1,
      cumulative_mem := wrap_s32 (cumulative_mem u + user_rss s uid (plist s)), mem_max := lim\<rparr>) (uc s))"
    using cache_invD(6) [OF assms(1,3)] assms(4) by (intro cache_inv_set_user [OF assms(1,3)]) auto
  then show ?thesis unfolding set_mlimit_eq [OF assms] by (auto simp: Let_def set_user_def)
qed

text \<open>
  \<open>set_mlimit\<close> never resets the charge: calling it twice for the same user charges the resident
  memory of its processes twice, and keeps two references on the user.
\<close>
theorem set_mlimit_twice_double_charges:
  assumes "cache_inv (uidhash_bits env) (uc s)"
    and "lookup_user (uidhash_bits env) (uc s) (current_user_ns env) uid = Some a"
    and "users (uc s) a = Some u" and "u_count u < 2 ^ 31 - 2" and "charge_ok s uid"
  shows "\<exists>c1 s1 c2 s2 u'. set_mlimit env uid lim s = Inr (c1, s1) \<and> set_mlimit env uid lim s1 = Inr (c2, s2)
    \<and> c2 = wrap_s32 (cumulative_mem u + 2 * user_rss s uid (plist s))
    \<and> users (uc s2) a = Some u' \<and> u_count u' = u_count u + 2"
proof -
  let ?r = "user_rss s uid (plist s)" and ?bits = "uidhash_bits env"
  let ?u = "u\<lparr>u_count := u_count u + 1, cumulative_mem := wrap_s32 (cumulative_mem u + ?r), mem_max := lim\<rparr>"
  let ?s = "s\<lparr>uc := set_user a ?u (uc s), user := uid, start := 1\<rparr>"
  have 1: "set_mlimit env uid lim s = Inr (wrap_s32 (cumulative_mem u + ?r), ?s)"
    using set_mlimit_eq [OF assms(1-3) _ assms(5)] assms(4) by (simp add: Let_def)
  have inv: "cache_inv ?bits (uc ?s)"
    using cache_invD(6) [OF assms(1,3)] assms(4) by (auto intro!: cache_inv_set_user [OF assms(1,3)])
  have l: "lookup_user ?bits (uc ?s) (current_user_ns env) uid = Some a"
    using assms(2) by (simp add: lookup_user_set_user [OF assms(3)])
  have u': "users (uc ?s) a = Some ?u" by (simp add: set_user_def)
  have ok: "charge_ok ?s uid" using assms(5) by (simp add: charge_ok_def)
  have r: "user_rss ?s uid (plist ?s) = ?r" by (simp, rule user_rss_cong) simp_all
  have "wrap_s32 (wrap_s32 (cumulative_mem u + ?r) + ?r) = wrap_s32 (cumulative_mem u + 2 * ?r)"
    unfolding wrap_s32_add by (simp add: algebra_simps)
  with 1 set_mlimit_eq [OF inv l u' _ ok, of lim] r assms(4) show ?thesis
    by (auto simp: Let_def set_user_def)
qed

text \<open>
  \<open>set_mlimit\<close> dereferences the result of \<open>find_user\<close> without a check: a uid that has no
  \<open>user_struct\<close> in the namespace of the caller crashes the kernel.
\<close>
theorem set_mlimit_unknown_user_faults:
  assumes "cache_inv (uidhash_bits env) (uc s)"
    and "lookup_user (uidhash_bits env) (uc s) (current_user_ns env) uid = None"
  shows "set_mlimit env uid lim s = Inl NullDeref"
proof -
  have nul: "charge_processes uid None ps t = Inl NullDeref \<or> charge_processes uid None ps t = Inr t" for ps t
    by (induction ps arbitrary: t) (auto simp: get_mm_rss_def add_cumulative_def split: option.splits)
  have "find_user_k env uid s = Inr (None, s)"
    using assms by (simp add: find_user_k_def find_user_eq)
  with nul [of "plist s" s] show ?thesis by (auto simp: set_mlimit_def)
qed

section \<open>Witnesses\<close>

definition env_example :: oom_env where
  "env_example = \<lparr>uidhash_bits = 3, current_user_ns = 5, config_numa = False,
    mempolicy_nodemask_intersects = (\<lambda>_ _. True), cpuset_mems_allowed_intersects = (\<lambda>_ _. True),
    task_in_mem_cgroup = (\<lambda>_ _. True), has_capability_noaudit = (\<lambda>_. False), notifier_freed = 0,
    mem_cgroup_get_limit = (\<lambda>_. 0), gfp_thisnode = (\<lambda>_. False), high_memory_subset = (\<lambda>_. True),
    mask_nodes = (\<lambda>_. []), node_spanned_pages = (\<lambda>_. 0), zonelist_zones = (\<lambda>_ _ _. []),
    cpuset_zone_allowed_softwall = (\<lambda>_ _. True), cpuset_current_mems_allowed = []\<rparr>"

definition task_example :: task where
  "task_example = \<lparr>t_pid = 42, t_tgid = 42, t_flags = 0, exit_state = 0, t_mm = Some 30, t_signal = 31,
    cred_uid = 0, cred_user = 2, tif_memdie = False, frozen = False, ptrace_exit = False, group_leader = 20,
    children = [], fatal_signal = False\<rparr>"

definition oomk_example :: oomk where
  "oomk_example = \<lparr>uc = cache_example, tasks = (\<lambda>_. task_example),
    mms = (\<lambda>_. \<lparr>rss = 100, nr_ptes = 2, swapents = 0\<rparr>), oom_score_adj = (\<lambda>_. 0), plist = [20],
    ring = (\<lambda>p. [p]), user = 0, start = 0, current = 20, sigkilled = [], zone_oom_locked = (\<lambda>_. False),
    populated_zones = [], sysctl_panic_on_oom = 0, sysctl_oom_kill_allocating_task = 0,
    totalram_pages = 1000, total_swap_pages = 0\<rparr>"

lemma example_simps [simp]:
  "uidhash_bits env_example = 3" "current_user_ns env_example = 5" "config_numa env_example = False"
  "uc oomk_example = cache_example" "users cache_example 2 = Some (root_user 5)"
  "charge_ok oomk_example 0" "plist oomk_example = [20]"
  by (simp_all add: env_example_def oomk_example_def cache_example_def uid_cache_init_def uid_hash_insert_def
      charge_ok_def task_example_def Let_def)

theorem set_mlimit_charges_rss_witness:
  "\<exists>c s' u'. set_mlimit env_example 0 9000 oomk_example = Inr (c, s')
    \<and> c = wrap_s32 (cumulative_mem (root_user 5) + user_rss oomk_example 0 (plist oomk_example))
    \<and> users (uc s') 2 = Some u' \<and> mem_max u' = 9000 \<and> cumulative_mem u' = c \<and> user s' = 0
    \<and> (\<forall>b. b \<noteq> 2 \<longrightarrow> users (uc s') b = users (uc oomk_example) b) \<and> cache_inv (uidhash_bits env_example) (uc s')"
  by (rule set_mlimit_charges_rss) (simp_all add: cache_example_inv cache_example_root root_user_def)

theorem set_mlimit_twice_double_charges_witness:
  "\<exists>c1 s1 c2 s2 u'. set_mlimit env_example 0 9000 oomk_example = Inr (c1, s1)
    \<and> set_mlimit env_example 0 9000 s1 = Inr (c2, s2)
    \<and> c2 = wrap_s32 (cumulative_mem (root_user 5) + 2 * user_rss oomk_example 0 (plist oomk_example))
    \<and> users (uc s2) 2 = Some u' \<and> u_count u' = u_count (root_user 5) + 2"
  by (rule set_mlimit_twice_double_charges) (simp_all add: cache_example_inv cache_example_root root_user_def)

theorem set_mlimit_unknown_user_faults_witness:
  "set_mlimit env_example 7 9000 oomk_example = Inl NullDeref"
  by (rule set_mlimit_unknown_user_faults) (simp_all add: cache_example_inv cache_example_root)

end
