(* ===== verification/Oom_Kill.thy ===== *)
theory Oom_Kill
  imports Oom_State
begin

unbundle bit_operations_syntax

text \<open>
  The OOM killer of \<open>hw5/mm/oom_kill.c\<close> as changed for the per-user memory limit: scoring, victim
  selection, the kill itself, the entry points and the per-zone OOM locks. Reports to the log and
  the task and tasklist locks have no counterpart; signals sent are collected in \<open>sigkilled\<close>.
\<close>

section \<open>Scores\<close>

definition compare_swap_oom_score_adj :: "int \<Rightarrow> int \<Rightarrow> oomk \<Rightarrow> oomk" where
  "compare_swap_oom_score_adj old_val new_val s =
    (if adj s (current s) = old_val
     then s\<lparr>oom_score_adj := (oom_score_adj s)(t_signal (tasks s (current s)) := new_val)\<rparr> else s)"

definition test_set_oom_score_adj :: "int \<Rightarrow> oomk \<Rightarrow> int \<times> oomk" where
  "test_set_oom_score_adj new_val s =
    (adj s (current s), s\<lparr>oom_score_adj := (oom_score_adj s)(t_signal (tasks s (current s)) := new_val)\<rparr>)"

definition has_intersects_mems_allowed :: "oom_env \<Rightarrow> oomk \<Rightarrow> addr \<Rightarrow> addr option \<Rightarrow> bool" where
  "has_intersects_mems_allowed env s tsk nmask =
    (if config_numa env then
       list_ex (\<lambda>t. case nmask of
           Some m \<Rightarrow> mempolicy_nodemask_intersects env t m
         | None \<Rightarrow> cpuset_mems_allowed_intersects env (current s) t) (ring s tsk)
     else True)"

definition find_lock_task_mm :: "oomk \<Rightarrow> addr \<Rightarrow> addr option" where
  "find_lock_task_mm s p = List.find (\<lambda>t. t_mm (tasks s t) \<noteq> None) (ring s p)"

definition oom_unkillable_task :: "oom_env \<Rightarrow> oomk \<Rightarrow> addr \<Rightarrow> addr option \<Rightarrow> addr option \<Rightarrow> bool" where
  "oom_unkillable_task env s p memcg nodemask =
    (if t_pid (tasks s p) = 1 then True
     else if t_flags (tasks s p) AND PF_KTHREAD \<noteq> 0 then True
     else if (case memcg of None \<Rightarrow> False | Some m \<Rightarrow> \<not> task_in_mem_cgroup env p m) then True
     else if \<not> has_intersects_mems_allowed env s p nodemask then True
     else False)"

text \<open>
  \<open>points\<close> is a \<open>long\<close>; \<open>points /= totalpages\<close> converts it to \<open>unsigned long\<close> for the division.
\<close>

definition raw_points :: "mm \<Rightarrow> ulong \<Rightarrow> int" where
  "raw_points m totalpages =
    (let points = wrap_s32 (uint (rss m + nr_ptes m));
         points = wrap_s32 (uint (word_of_int points + swapents m));
         points = wrap_s32 (points * 1000) in
     wrap_s32 (uint ((word_of_int points :: ulong) div totalpages)))"

definition oom_badness :: "oom_env \<Rightarrow> oomk \<Rightarrow> addr \<Rightarrow> addr option \<Rightarrow> addr option \<Rightarrow> ulong \<Rightarrow> u32 result" where
  "oom_badness env s p memcg nodemask totalpages =
    (if oom_unkillable_task env s p memcg nodemask then Inr 0
     else case find_lock_task_mm s p of
       None \<Rightarrow> Inr 0
     | Some p \<Rightarrow>
         if adj s p = OOM_SCORE_ADJ_MIN then Inr 0
         else
           let totalpages = (if totalpages = 0 then 1 else totalpages);
               m = mms s (the (t_mm (tasks s p))) in
           rbind (load_user (cred_user (tasks s p)) (uc s)) (\<lambda>u.
           let points = (if mem_max u \<noteq> - 1 then wrap_s32 (uint (rss m)) else raw_points m totalpages);
               points = (if has_capability_noaudit env p then wrap_s32 (points - 30) else points);
               points = (if mem_max u = - 1 then wrap_s32 (points + adj s p) else points) in
           if points \<le> 0 then Inr 1
           else if points < 1000 then Inr (word_of_int points) else Inr 1000))"

section \<open>Allocation constraints\<close>

datatype oom_constraint = CONSTRAINT_NONE | CONSTRAINT_CPUSET | CONSTRAINT_MEMORY_POLICY | CONSTRAINT_MEMCG

definition constrained_alloc :: "oom_env \<Rightarrow> oomk \<Rightarrow> addr option \<Rightarrow> u32 \<Rightarrow> addr option \<Rightarrow> oom_constraint \<times> ulong" where
  "constrained_alloc env s zonelist gfp_mask nodemask =
    (let totalpages = totalram_pages s + total_swap_pages s in
     if \<not> config_numa env then (CONSTRAINT_NONE, totalpages)
     else case zonelist of
       None \<Rightarrow> (CONSTRAINT_NONE, totalpages)
     | Some zl \<Rightarrow>
         if gfp_thisnode env gfp_mask then (CONSTRAINT_NONE, totalpages)
         else if (case nodemask of None \<Rightarrow> False | Some m \<Rightarrow> \<not> high_memory_subset env m) then
           (CONSTRAINT_MEMORY_POLICY,
            fold (\<lambda>nid t. t + node_spanned_pages env nid) (mask_nodes env (the nodemask)) (total_swap_pages s))
         else if list_ex (\<lambda>z. \<not> cpuset_zone_allowed_softwall env z gfp_mask)
                   (zonelist_zones env zl gfp_mask nodemask) then
           (CONSTRAINT_CPUSET,
            fold (\<lambda>nid t. t + node_spanned_pages env nid) (cpuset_current_mems_allowed env) (total_swap_pages s))
         else (CONSTRAINT_NONE, totalpages))"

section \<open>Choosing a victim\<close>

text \<open>\<open>NULL\<close>, \<open>ERR_PTR(-1UL)\<close> or a task.\<close>

datatype choice = NoTask | Aborted | Chosen addr

fun select_user_process :: "oom_env \<Rightarrow> oomk \<Rightarrow> ulong \<Rightarrow> addr option \<Rightarrow> addr option \<Rightarrow> addr list
    \<Rightarrow> choice \<Rightarrow> u32 \<Rightarrow> (choice \<times> u32) result" where
  "select_user_process env s totalpages memcg nodemask [] chosen ppoints = Inr (chosen, ppoints)"
| "select_user_process env s totalpages memcg nodemask (p # ps) chosen ppoints =
    (if cred_uid (tasks s p) = user s then
       rbind (oom_badness env s p memcg nodemask totalpages) (\<lambda>points.
       if points > ppoints
       then select_user_process env s totalpages memcg nodemask ps (Chosen p) points
       else select_user_process env s totalpages memcg nodemask ps chosen ppoints)
     else select_user_process env s totalpages memcg nodemask ps chosen ppoints)"

text \<open>The body of the thread scan: go on with the next thread, or return.\<close>

datatype scan = Next choice u32 oomk | Return choice u32 oomk

definition scan_thread :: "oom_env \<Rightarrow> ulong \<Rightarrow> addr option \<Rightarrow> addr option \<Rightarrow> bool \<Rightarrow> addr
    \<Rightarrow> oomk \<Rightarrow> choice \<Rightarrow> u32 \<Rightarrow> scan result" where
  "scan_thread env totalpages memcg nodemask force_kill p s chosen ppoints =
    (if exit_state (tasks s p) \<noteq> 0 then Inr (Next chosen ppoints s)
     else if oom_unkillable_task env s p memcg nodemask then Inr (Next chosen ppoints s)
     else
       let s = (if tif_memdie (tasks s p) \<and> frozen (tasks s p)
                then upd_task p (\<lambda>t. t\<lparr>frozen := False\<rparr>) s else s) in
       if tif_memdie (tasks s p) \<and> \<not> force_kill then Inr (Return Aborted ppoints s)
       else if t_mm (tasks s p) = None then Inr (Next chosen ppoints s)
       else
         let exiting = (t_flags (tasks s p) AND PF_EXITING \<noteq> 0);
             (chosen, ppoints) = (if exiting \<and> p = current s then (Chosen p, 1000) else (chosen, ppoints)) in
         if exiting \<and> p \<noteq> current s \<and> \<not> force_kill \<and> \<not> ptrace_exit (tasks s (group_leader (tasks s p)))
         then Inr (Return Aborted ppoints s)
         else
           rbind (oom_badness env s p memcg nodemask totalpages) (\<lambda>points.
           if points > ppoints then Inr (Next (Chosen p) points s) else Inr (Next chosen ppoints s)))"

fun select_thread :: "oom_env \<Rightarrow> ulong \<Rightarrow> addr option \<Rightarrow> addr option \<Rightarrow> bool \<Rightarrow> addr list
    \<Rightarrow> oomk \<Rightarrow> choice \<Rightarrow> u32 \<Rightarrow> (choice \<times> u32 \<times> oomk) result" where
  "select_thread env totalpages memcg nodemask force_kill [] s chosen ppoints = Inr (chosen, ppoints, s)"
| "select_thread env totalpages memcg nodemask force_kill (p # ps) s chosen ppoints =
    (case scan_thread env totalpages memcg nodemask force_kill p s chosen ppoints of
       Inl e \<Rightarrow> Inl e
     | Inr (Return c k s') \<Rightarrow> Inr (c, k, s')
     | Inr (Next c k s') \<Rightarrow> select_thread env totalpages memcg nodemask force_kill ps s' c k)"

definition all_threads :: "oomk \<Rightarrow> addr list" where
  "all_threads s = concat (map (ring s) (plist s))"

definition select_bad_process :: "oom_env \<Rightarrow> ulong \<Rightarrow> addr option \<Rightarrow> addr option \<Rightarrow> bool \<Rightarrow> oomk
    \<Rightarrow> (choice \<times> u32 \<times> oomk) result" where
  "select_bad_process env totalpages memcg nodemask force_kill s =
    rbind (if user s \<noteq> 0 then
             rbind (find_user_k env (user s) s) (\<lambda>(p, s).
             case p of None \<Rightarrow> Inl NullDeref | Some a \<Rightarrow> Inr (Some a, s))
           else Inr (None, s)) (\<lambda>(this_user, s).
    case this_user of
      Some a \<Rightarrow> rbind (load_user a (uc s)) (\<lambda>u.
        if mem_max u \<noteq> - 1 then
          rbind (select_user_process env s totalpages memcg nodemask (plist s) NoTask 0) (\<lambda>(c, pts).
          Inr (c, pts, s))
        else Inr (NoTask, 0, s))
    | None \<Rightarrow> select_thread env totalpages memcg nodemask force_kill (all_threads s) s NoTask 0)"

section \<open>Killing\<close>

fun pick_child :: "oom_env \<Rightarrow> oomk \<Rightarrow> addr option \<Rightarrow> ulong \<Rightarrow> addr option \<Rightarrow> addr option \<Rightarrow> addr list
    \<Rightarrow> addr \<Rightarrow> u32 \<Rightarrow> (addr \<times> u32) result" where
  "pick_child env s pmm totalpages memcg nodemask [] victim vpoints = Inr (victim, vpoints)"
| "pick_child env s pmm totalpages memcg nodemask (c # cs) victim vpoints =
    (if t_mm (tasks s c) = pmm then pick_child env s pmm totalpages memcg nodemask cs victim vpoints
     else rbind (oom_badness env s c memcg nodemask totalpages) (\<lambda>child_points.
       if child_points > vpoints
       then pick_child env s pmm totalpages memcg nodemask cs c child_points
       else pick_child env s pmm totalpages memcg nodemask cs victim vpoints))"

definition do_send_sigkill :: "addr \<Rightarrow> oomk \<Rightarrow> oomk" where
  "do_send_sigkill p s = s\<lparr>sigkilled := p # sigkilled s\<rparr>"

fun kill_sharers :: "addr option \<Rightarrow> addr \<Rightarrow> addr list \<Rightarrow> oomk \<Rightarrow> oomk" where
  "kill_sharers m victim [] s = s"
| "kill_sharers m victim (p # ps) s =
    (if t_mm (tasks s p) = m \<and> t_tgid (tasks s p) \<noteq> t_tgid (tasks s victim)
        \<and> t_flags (tasks s p) AND PF_KTHREAD = 0
     then (if adj s p = OOM_SCORE_ADJ_MIN then kill_sharers m victim ps s
           else kill_sharers m victim ps (do_send_sigkill p s))
     else kill_sharers m victim ps s)"

definition oom_kill_process :: "oom_env \<Rightarrow> addr \<Rightarrow> ulong \<Rightarrow> addr option \<Rightarrow> addr option \<Rightarrow> oomk \<Rightarrow> oomk result" where
  "oom_kill_process env p totalpages memcg nodemask s =
    (if t_flags (tasks s p) AND PF_EXITING \<noteq> 0 then Inr (upd_task p (\<lambda>t. t\<lparr>tif_memdie := True\<rparr>) s)
     else
       rbind (pick_child env s (t_mm (tasks s p)) totalpages memcg nodemask
               (concat (map (\<lambda>t. children (tasks s t)) (ring s p))) p 0) (\<lambda>(victim, _).
       case find_lock_task_mm s victim of
         None \<Rightarrow> Inr s
       | Some victim \<Rightarrow>
           let m = t_mm (tasks s victim);
               s = kill_sharers m victim (plist s) s;
               s = upd_task victim (\<lambda>t. t\<lparr>tif_memdie := True\<rparr>) s in
           Inr (do_send_sigkill victim s)))"

definition check_panic_on_oom :: "oom_constraint \<Rightarrow> oomk \<Rightarrow> unit result" where
  "check_panic_on_oom constraint s =
    (if sysctl_panic_on_oom s = 0 then Inr ()
     else if sysctl_panic_on_oom s \<noteq> 2 \<and> constraint \<noteq> CONSTRAINT_NONE then Inr ()
     else Inl Panic)"

section \<open>Entry points\<close>

text \<open>\<open>p->real_cred->user->cumulative_mem -= get_mm_rss(p->mm)*PAGE_SIZE\<close>\<close>

definition uncharge :: "addr \<Rightarrow> oomk \<Rightarrow> oomk result" where
  "uncharge p s = rbind (get_mm_rss s (t_mm (tasks s p))) (\<lambda>r.
     add_cumulative (Some (cred_user (tasks s p))) (- rss_bytes r) s)"

definition mem_cgroup_out_of_memory :: "oom_env \<Rightarrow> addr \<Rightarrow> oomk \<Rightarrow> oomk result" where
  "mem_cgroup_out_of_memory env memcg s =
    (if fatal_signal (tasks s (current s)) then Inr (upd_task (current s) (\<lambda>t. t\<lparr>tif_memdie := True\<rparr>) s)
     else
       rbind (check_panic_on_oom CONSTRAINT_MEMCG s) (\<lambda>_.
       let limit = (ucast (drop_bit 12 (mem_cgroup_get_limit env memcg)) :: ulong) in
       rbind (select_bad_process env limit (Some memcg) None False s) (\<lambda>(p, points, s).
       case p of
         Chosen p \<Rightarrow> rbind (uncharge p s) (oom_kill_process env p limit (Some memcg) None)
       | _ \<Rightarrow> Inr s)))"

definition out_of_memory :: "oom_env \<Rightarrow> addr option \<Rightarrow> u32 \<Rightarrow> addr option \<Rightarrow> bool \<Rightarrow> oomk \<Rightarrow> oomk result" where
  "out_of_memory env zonelist gfp_mask nodemask force_kill s =
    (if notifier_freed env > 0 then Inr s
     else if fatal_signal (tasks s (current s)) then
       Inr (upd_task (current s) (\<lambda>t. t\<lparr>tif_memdie := True\<rparr>) s)
     else
       let (constraint, totalpages) = constrained_alloc env s zonelist gfp_mask nodemask;
           mpol_mask = (if constraint = CONSTRAINT_MEMORY_POLICY then nodemask else None) in
       rbind (check_panic_on_oom constraint s) (\<lambda>_.
       if sysctl_oom_kill_allocating_task s \<noteq> 0 \<and> \<not> oom_unkillable_task env s (current s) None nodemask
          \<and> t_mm (tasks s (current s)) \<noteq> None
       then rbind (oom_kill_process env (current s) totalpages None nodemask s) (\<lambda>s.
            if cred_uid (tasks s (current s)) = user s then uncharge (current s) s else Inr s)
       else
         rbind (select_bad_process env totalpages None mpol_mask force_kill s) (\<lambda>(p, points, s).
         case p of
           NoTask \<Rightarrow> Inl Panic
         | Aborted \<Rightarrow> Inr s
         | Chosen p \<Rightarrow>
             rbind (if cred_uid (tasks s p) = user s then uncharge p s else Inr s) (\<lambda>s.
             oom_kill_process env p totalpages None nodemask s))))"

section \<open>Zone locks\<close>

definition set_oom_locked :: "addr list \<Rightarrow> bool \<Rightarrow> oomk \<Rightarrow> oomk" where
  "set_oom_locked zs b s = s\<lparr>zone_oom_locked := (\<lambda>z. if z \<in> set zs then b else zone_oom_locked s z)\<rparr>"

definition try_set_zonelist_oom :: "oom_env \<Rightarrow> addr \<Rightarrow> u32 \<Rightarrow> oomk \<Rightarrow> int \<times> oomk" where
  "try_set_zonelist_oom env zonelist gfp_mask s =
    (let zs = zonelist_zones env zonelist gfp_mask None in
     if list_ex (zone_oom_locked s) zs then (0, s) else (1, set_oom_locked zs True s))"

definition clear_zonelist_oom :: "oom_env \<Rightarrow> addr \<Rightarrow> u32 \<Rightarrow> oomk \<Rightarrow> oomk" where
  "clear_zonelist_oom env zonelist gfp_mask s =
    set_oom_locked (zonelist_zones env zonelist gfp_mask None) False s"

definition try_set_system_oom :: "oomk \<Rightarrow> int \<times> oomk" where
  "try_set_system_oom s =
    (if list_ex (zone_oom_locked s) (populated_zones s) then (0, s)
     else (1, set_oom_locked (populated_zones s) True s))"

definition clear_system_oom :: "oomk \<Rightarrow> oomk" where
  "clear_system_oom s = set_oom_locked (populated_zones s) False s"

definition pagefault_out_of_memory :: "oom_env \<Rightarrow> oomk \<Rightarrow> oomk result" where
  "pagefault_out_of_memory env s =
    (let (ok, s) = try_set_system_oom s in
     if ok \<noteq> 0 then rbind (out_of_memory env None 0 None False s) (\<lambda>s. Inr (clear_system_oom s))
     else Inr s)"

section \<open>Scores are bounded and zero exactly for tasks that may not be killed\<close>

definition oom_eligible :: "oom_env \<Rightarrow> oomk \<Rightarrow> addr \<Rightarrow> addr option \<Rightarrow> addr option \<Rightarrow> bool" where
  "oom_eligible env s p memcg nodemask \<longleftrightarrow> \<not> oom_unkillable_task env s p memcg nodemask
     \<and> (case find_lock_task_mm s p of None \<Rightarrow> False | Some t \<Rightarrow> adj s t \<noteq> OOM_SCORE_ADJ_MIN)"

lemma word_of_int_small:
  assumes "0 < i" "i < 1000"
  shows "(word_of_int i :: u32) \<le> 1000" "(word_of_int i :: u32) \<noteq> 0"
proof -
  have "uint (word_of_int i :: u32) = i" using assms by (simp add: uint_word_of_int)
  then show "(word_of_int i :: u32) \<le> 1000" "(word_of_int i :: u32) \<noteq> 0"
    using assms by (auto simp: word_le_def)
qed

lemma oom_badness_cases:
  assumes "oom_badness env s p memcg nodemask totalpages = Inr r"
  shows "r \<le> 1000 \<and> (r = 0 \<longleftrightarrow> \<not> oom_eligible env s p memcg nodemask)"
  using assms word_of_int_small
  by (auto simp: oom_badness_def oom_eligible_def rbind_Inr_iff Let_def split: if_splits option.splits)

lemma eligible_killable:
  assumes "oom_eligible env s p memcg nodemask"
  shows "t_pid (tasks s p) \<noteq> 1 \<and> t_flags (tasks s p) AND PF_KTHREAD = 0 \<and> find_lock_task_mm s p \<noteq> None"
  using assms by (auto simp: oom_eligible_def oom_unkillable_task_def split: if_splits option.splits)

section \<open>The selection loops return a task of maximal score\<close>

lemma select_user_process_spec:
  assumes "select_user_process env s tp memcg nm ps c0 k0 = Inr (c, k)"
  shows "k0 \<le> k \<and> (c = c0 \<and> k = k0 \<or> (\<exists>p \<in> set ps. c = Chosen p \<and> cred_uid (tasks s p) = user s
        \<and> oom_badness env s p memcg nm tp = Inr k \<and> 0 < k))
    \<and> (\<forall>p \<in> set ps. cred_uid (tasks s p) = user s \<longrightarrow> (\<exists>b. oom_badness env s p memcg nm tp = Inr b \<and> b \<le> k))"
  using assms
proof (induction ps arbitrary: c0 k0)
  case (Cons p ps)
  show ?case
  proof (cases "cred_uid (tasks s p) = user s")
    case False
    with Cons show ?thesis by auto
  next
    case True
    with Cons.prems obtain b where b: "oom_badness env s p memcg nm tp = Inr b"
      by (auto simp: rbind_Inr_iff)
    show ?thesis
    proof (cases "b > k0")
      case gt: True
      with True b Cons.prems have r: "select_user_process env s tp memcg nm ps (Chosen p) b = Inr (c, k)" by simp
      have "0 < b" using gt word_le_less_eq word_not_simps(1) by (metis word_neq_0_conv)
      with Cons.IH [OF r] gt True b show ?thesis by fastforce
    next
      case False
      with True b Cons.prems have "select_user_process env s tp memcg nm ps c0 k0 = Inr (c, k)" by simp
      from Cons.IH [OF this] False True b show ?thesis by fastforce
    qed
  qed
qed simp

lemma pick_child_spec:
  assumes "pick_child env s pmm tp memcg nm cs v0 k0 = Inr (v, k)"
  shows "v = v0 \<and> k = k0 \<or> (v \<in> set cs \<and> t_mm (tasks s v) \<noteq> pmm \<and> oom_eligible env s v memcg nm)"
  using assms
proof (induction cs arbitrary: v0 k0)
  case (Cons c cs)
  show ?case
  proof (cases "t_mm (tasks s c) = pmm")
    case True
    with Cons show ?thesis by fastforce
  next
    case False
    with Cons.prems obtain b where b: "oom_badness env s c memcg nm tp = Inr b"
      by (auto simp: rbind_Inr_iff)
    show ?thesis
    proof (cases "b > k0")
      case True
      then have "b \<noteq> 0" by auto
      then have "oom_eligible env s c memcg nm" using oom_badness_cases [OF b] by simp
      with True False b Cons.prems Cons.IH [of c b] show ?thesis by auto
    next
      case le: False
      with False b Cons.prems Cons.IH [of v0 k0] show ?thesis by auto
    qed
  qed
qed simp

lemma kill_sharers_spec:
  "\<exists>qs. kill_sharers m v ps s = s\<lparr>sigkilled := qs @ sigkilled s\<rparr> \<and> set qs \<subseteq> {q \<in> set ps.
     t_mm (tasks s q) = m \<and> t_tgid (tasks s q) \<noteq> t_tgid (tasks s v)
     \<and> t_flags (tasks s q) AND PF_KTHREAD = 0 \<and> adj s q \<noteq> OOM_SCORE_ADJ_MIN}"
proof (induction ps arbitrary: s)
  case Nil
  show ?case by (intro exI [of _ "[]"]) simp
next
  case (Cons p ps)
  have a: "adj (do_send_sigkill p s) q = adj s q" for q by (simp add: adj_def do_send_sigkill_def)
  have d: "tasks (do_send_sigkill p s) = tasks s" "sigkilled (do_send_sigkill p s) = p # sigkilled s"
    by (simp_all add: do_send_sigkill_def)
  show ?case
  proof (cases "t_mm (tasks s p) = m \<and> t_tgid (tasks s p) \<noteq> t_tgid (tasks s v)
        \<and> t_flags (tasks s p) AND PF_KTHREAD = 0 \<and> adj s p \<noteq> OOM_SCORE_ADJ_MIN")
    case True
    from Cons [of "do_send_sigkill p s"] a d obtain qs
      where qs: "kill_sharers m v ps (do_send_sigkill p s) =
          (do_send_sigkill p s)\<lparr>sigkilled := qs @ p # sigkilled s\<rparr>"
        "set qs \<subseteq> {q \<in> set ps. t_mm (tasks s q) = m \<and> t_tgid (tasks s q) \<noteq> t_tgid (tasks s v)
          \<and> t_flags (tasks s q) AND PF_KTHREAD = 0 \<and> adj s q \<noteq> OOM_SCORE_ADJ_MIN}" by auto
    with True show ?thesis
      by (intro exI [of _ "qs @ [p]"]) (auto simp: do_send_sigkill_def)
  next
    case False
    then have "kill_sharers m v (p # ps) s = kill_sharers m v ps s" by auto
    with Cons [of s] show ?thesis by fastforce
  qed
qed

section \<open>Properties\<close>

text \<open>
  A badness score is at most 1000, and it is 0 exactly for a task that may not be killed: the
  global init, a kernel thread, a task outside the memory cgroup or the allowed nodes, a task whose
  threads have all given up their address space, or one protected by \<open>OOM_SCORE_ADJ_MIN\<close>.
\<close>
theorem oom_badness_bounded:
  assumes "oom_badness env s p memcg nodemask totalpages = Inr r"
  shows "r \<le> 1000 \<and> (r = 0 \<longleftrightarrow> \<not> oom_eligible env s p memcg nodemask)"
  using assms by (rule oom_badness_cases)


text \<open>
  If the user last passed to \<open>set_mlimit\<close> has no limit any more (\<open>mem_max\<close> is -1), no process is
  ever chosen: every real out-of-memory situation panics the kernel, however many processes could
  have been killed.
\<close>
theorem unlimited_user_panics:
  assumes "cache_inv (uidhash_bits env) (uc s)" and "user s \<noteq> 0"
    and "lookup_user (uidhash_bits env) (uc s) (current_user_ns env) (user s) = Some a"
    and "users (uc s) a = Some u" and "mem_max u = - 1" and "notifier_freed env = 0"
    and "\<not> fatal_signal (tasks s (current s))" and "sysctl_oom_kill_allocating_task s = 0"
  shows "out_of_memory env zl gm nm fk s = Inl Panic"
proof -
  have "find_user_k env (user s) s = Inr (Some a, s\<lparr>uc := set_user a
      (u\<lparr>u_count := wrap_s32 (u_count u + 1)\<rparr>) (uc s)\<rparr>)"
    using assms(3,4) by (simp add: find_user_k_def find_user_eq [OF assms(1)])
  then have "select_bad_process env tp mc nm' fk s = Inr (NoTask, 0, s\<lparr>uc := set_user a
      (u\<lparr>u_count := wrap_s32 (u_count u + 1)\<rparr>) (uc s)\<rparr>)" for tp mc nm'
    using assms(2,5) by (simp add: select_bad_process_def load_user_def set_user_def)
  then show ?thesis
    using assms(6-8) by (auto simp: out_of_memory_def check_panic_on_oom_def split: prod.splits)
qed


text \<open>
  The OOM locks of a zonelist exclude a second killer and are released completely: after a
  successful \<open>try_set_zonelist_oom\<close> another attempt on any zonelist that shares a zone fails, and
  \<open>clear_zonelist_oom\<close> restores the lock state from before.
\<close>
theorem zonelist_oom_lock_exclusive:
  assumes "try_set_zonelist_oom env zl gm s = (1, s1)"
    and "set (zonelist_zones env zl gm None) \<inter> set (zonelist_zones env zl' gm' None) \<noteq> {}"
  shows "try_set_zonelist_oom env zl' gm' s1 = (0, s1)
    \<and> zone_oom_locked (clear_zonelist_oom env zl gm s1) = zone_oom_locked s"
proof -
  let ?zs = "zonelist_zones env zl gm None"
  from assms(1) have free: "\<not> list_ex (zone_oom_locked s) ?zs" and s1: "s1 = set_oom_locked ?zs True s"
    by (auto simp: try_set_zonelist_oom_def Let_def split: if_splits)
  have "list_ex (zone_oom_locked s1) (zonelist_zones env zl' gm' None)"
    using assms(2) s1 by (auto simp: set_oom_locked_def list_ex_iff)
  moreover have "zone_oom_locked (clear_zonelist_oom env zl gm s1) = zone_oom_locked s"
    using free s1 by (auto simp: clear_zonelist_oom_def set_oom_locked_def list_ex_iff fun_eq_iff)
  ultimately show ?thesis by (simp add: try_set_zonelist_oom_def)
qed

section \<open>Witnesses\<close>

lemma badness_example: "oom_badness env_example oomk_example 20 None None 1000 = Inr 100"
  by (simp add: oom_badness_def oom_unkillable_task_def has_intersects_mems_allowed_def find_lock_task_mm_def
      oomk_example_def task_example_def adj_def load_user_def OOM_SCORE_ADJ_MIN_def root_user_def
      wrap_s32_def env_example_def Let_def)

theorem oom_badness_bounded_witness:
  "(100 :: u32) \<le> 1000 \<and> ((100 :: u32) = 0 \<longleftrightarrow> \<not> oom_eligible env_example oomk_example 20 None None)"
  by (rule oom_badness_bounded [OF badness_example])

text \<open>Two users, root and user 7 with memory limit \<open>lim\<close>, and one process, of user 7.\<close>

definition user7 :: "int \<Rightarrow> user_struct" where
  "user7 lim = \<lparr>u_count = 1, u_uid = 7, processes = 0, mem_max = lim, cumulative_mem = 0, user_ns = 5,
     uid_keyring = None, session_keyring = None\<rparr>"

definition cache7 :: "int \<Rightarrow> ucache" where
  "cache7 lim = uid_hash_insert 10 5 (uidhashfn 3 7)
     (cache_example\<lparr>u_brk := 11, users := (users cache_example)(10 \<mapsto> user7 lim), ns_kref := (\<lambda>_. 4)\<rparr>)"

lemma cache7_inv: "cache_inv 3 (cache7 lim)"
proof -
  have "\<And>a. \<not> has_user cache_example 5 7 a"
    using cache_example_root(2) lookup_None [OF cache_example_inv] by blast
  from cache_inv_insert [OF cache_example_inv this, of "user7 lim" 10 "\<lambda>_. 4"] show ?thesis
    by (simp add: cache7_def user7_def cache_example_def uid_cache_init_def uid_hash_insert_def Let_def)
qed

lemma cache7_simps [simp]:
  "lookup_user 3 (cache7 lim) 5 7 = Some 10" "users (cache7 lim) 10 = Some (user7 lim)"
proof -
  show u: "users (cache7 lim) 10 = Some (user7 lim)" by (simp add: cache7_def uid_hash_insert_def)
  show "lookup_user 3 (cache7 lim) 5 7 = Some 10"
    using u lookup_user_iff [OF cache7_inv, of lim 5 7 10] by (simp add: has_user_def user7_def)
qed

definition limited_example :: "int \<Rightarrow> oomk" where
  "limited_example lim = oomk_example\<lparr>uc := cache7 lim, user := 7,
     tasks := (\<lambda>_. task_example\<lparr>cred_uid := 7, cred_user := 10\<rparr>)\<rparr>"

lemma limited_example_simps [simp]:
  "uc (limited_example lim) = cache7 lim" "user (limited_example lim) = 7" "plist (limited_example lim) = [20]"
  "tasks (limited_example lim) = (\<lambda>_. task_example\<lparr>cred_uid := 7, cred_user := 10\<rparr>)"
  "sysctl_oom_kill_allocating_task (limited_example lim) = 0" "ring (limited_example lim) p = [p]"
  "sysctl_panic_on_oom (limited_example lim) = 0" "notifier_freed env_example = 0"
  by (simp_all add: limited_example_def oomk_example_def env_example_def)

theorem unlimited_user_panics_witness:
  "out_of_memory env_example None 0 None True (limited_example (- 1)) = Inl Panic"
  by (rule unlimited_user_panics [where a = 10 and u = "user7 (- 1)"])
    (simp_all add: cache7_inv, simp_all add: user7_def task_example_def)

lemma limited_select:
  "\<exists>s'. select_bad_process env_example 1000 None None True (limited_example 9000) = Inr (Chosen 20, 100, s')"
  by (simp add: select_bad_process_def find_user_k_def find_user_eq [OF cache7_inv])
    (simp add: load_user_def set_user_def user7_def oom_badness_def oom_unkillable_task_def
      has_intersects_mems_allowed_def find_lock_task_mm_def task_example_def adj_def OOM_SCORE_ADJ_MIN_def
      limited_example_def oomk_example_def wrap_s32_def env_example_def Let_def)


lemma kill_example: "oom_kill_process env_example 20 1000 None None oomk_example =
    Inr (oomk_example\<lparr>tasks := (tasks oomk_example)(20 := task_example\<lparr>tif_memdie := True\<rparr>), sigkilled := [20]\<rparr>)"
  by (simp add: oom_kill_process_def oomk_example_def task_example_def find_lock_task_mm_def
      upd_task_def do_send_sigkill_def Let_def)


definition env_zones :: oom_env where
  "env_zones = env_example\<lparr>zonelist_zones := (\<lambda>zl _ _. if zl = 0 then [1, 2] else [2, 3])\<rparr>"

theorem zonelist_oom_lock_exclusive_witness:
  "\<exists>s1. try_set_zonelist_oom env_zones 4 0 s1 = (0, s1)
    \<and> zone_oom_locked (clear_zonelist_oom env_zones 0 0 s1) = zone_oom_locked oomk_example"
proof -
  have h: "try_set_zonelist_oom env_zones 0 0 oomk_example = (1, set_oom_locked [1, 2] True oomk_example)"
    by (simp add: try_set_zonelist_oom_def env_zones_def oomk_example_def)
  show ?thesis
    by (rule exI, rule zonelist_oom_lock_exclusive [OF h]) (simp add: env_zones_def)
qed

end
