(* ===== verification/Alloc_Limit.thy ===== *)
theory Alloc_Limit
  imports Oom_Kill
begin

text \<open>
  The memory limit inside the page allocator: the code that homework 5 puts at the head of
  \<open>__alloc_pages_nodemask\<close> in \<open>hw5/mm/page_alloc.c\<close>. It runs on every page allocation of every task
  once \<open>set_mlimit\<close> has set \<open>start\<close>.
\<close>

section \<open>The check\<close>

text \<open>
  \<open>required_mem * PAGE_SIZE\<close> and the sum with the \<open>long\<close> field are computed in \<open>unsigned long\<close>, and so
  is the comparison with \<open>mem_max\<close>.
\<close>

definition required_bytes :: "nat \<Rightarrow> ulong" where
  "required_bytes order = of_int (wrap_s32 (2 ^ order)) * PAGE_SIZE"

definition over_limit :: "user_struct \<Rightarrow> nat \<Rightarrow> bool" where
  "over_limit u order \<longleftrightarrow> (of_int (cumulative_mem u) + required_bytes order :: ulong) > of_int (mem_max u)"

text \<open>The loop over all processes; the result \<open>False\<close> is the early \<open>return NULL\<close>.\<close>

fun mlimit_loop :: "oom_env \<Rightarrow> addr \<Rightarrow> u32 \<Rightarrow> nat \<Rightarrow> addr option \<Rightarrow> addr \<Rightarrow> addr list \<Rightarrow> oomk \<Rightarrow> (bool \<times> oomk) result" where
  "mlimit_loop env zonelist gfp_mask order nodemask this_user [] s = Inr (True, s)"
| "mlimit_loop env zonelist gfp_mask order nodemask this_user (p # ps) s =
    (if cred_uid (tasks s p) = user s then
       rbind (load_user this_user (uc s)) (\<lambda>u.
       if over_limit u order then
         let (got, s) = try_set_zonelist_oom env zonelist gfp_mask s in
         if got = 0 then Inr (False, s)
         else rbind (out_of_memory env (Some zonelist) gfp_mask nodemask False s) (\<lambda>s.
              mlimit_loop env zonelist gfp_mask order nodemask this_user ps (clear_zonelist_oom env zonelist gfp_mask s))
       else rbind (add_cumulative (Some this_user) (uint (required_bytes order)) s)
              (mlimit_loop env zonelist gfp_mask order nodemask this_user ps))
     else mlimit_loop env zonelist gfp_mask order nodemask this_user ps s)"

definition mlimit_check :: "oom_env \<Rightarrow> addr \<Rightarrow> u32 \<Rightarrow> nat \<Rightarrow> addr option \<Rightarrow> oomk \<Rightarrow> (bool \<times> oomk) result" where
  "mlimit_check env zonelist gfp_mask order nodemask s =
    (if start s = 1 then
       rbind (if user s \<noteq> 0 then find_user_k env (user s) s else Inr (None, s)) (\<lambda>(this_user, s).
       case this_user of
         None \<Rightarrow> Inr (True, s)
       | Some a \<Rightarrow> rbind (load_user a (uc s)) (\<lambda>u.
           if mem_max u \<noteq> - 1 then mlimit_loop env zonelist gfp_mask order nodemask a (plist s) s
           else Inr (True, s)))
     else Inr (True, s))"

section \<open>What it charges\<close>

definition user_procs :: "oomk \<Rightarrow> addr list \<Rightarrow> nat" where
  "user_procs s ps = length (filter (\<lambda>p. cred_uid (tasks s p) = user s) ps)"

lemma uint_small: "0 \<le> x \<Longrightarrow> x < 2 ^ 32 \<Longrightarrow> uint (word_of_int x :: ulong) = x"
  by (simp add: uint_word_of_int_eq take_bit_int_eq_self)

lemma required_bytes_eq:
  assumes "order \<le> 18"
  shows "required_bytes order = of_nat (2 ^ order * 4096)" "uint (required_bytes order) = 2 ^ order * 4096"
proof -
  have le: "(2::int) ^ order \<le> 2 ^ 18" using assms by (intro power_increasing) auto
  have "(0::int) \<le> 2 ^ order" by simp
  then have "- (2 ^ 31) \<le> (2::int) ^ order" by (rule order_trans [rotated]) simp
  moreover have "(2::int) ^ order < 2 ^ 31" using le by (rule le_less_trans) simp
  ultimately have "wrap_s32 (2 ^ order) = 2 ^ order" by (rule wrap_s32_id)
  then show e: "required_bytes order = of_nat (2 ^ order * 4096)" by (simp add: required_bytes_def PAGE_SIZE_def)
  have "required_bytes order = word_of_int (2 ^ order * 4096)" by (simp add: e)
  then show "uint (required_bytes order) = 2 ^ order * 4096"
    using le uint_small [of "2 ^ order * 4096"] by simp
qed

lemma over_limit_iff:
  assumes "order \<le> 18" "0 \<le> cumulative_mem u" "cumulative_mem u < 2 ^ 31" "0 \<le> mem_max u" "mem_max u < 2 ^ 31"
  shows "over_limit u order \<longleftrightarrow> cumulative_mem u + 2 ^ order * 4096 > mem_max u"
proof -
  have le: "(2::int) ^ order \<le> 2 ^ 18" using assms(1) by (intro power_increasing) auto
  have e: "of_int (cumulative_mem u) + required_bytes order = (word_of_int (cumulative_mem u + 2 ^ order * 4096) :: ulong)"
    by (simp add: required_bytes_eq [OF assms(1)])
  have "uint (word_of_int (cumulative_mem u + 2 ^ order * 4096) :: ulong) = cumulative_mem u + 2 ^ order * 4096"
    using assms(2,3) le by (intro uint_small) auto
  moreover have "uint (word_of_int (mem_max u) :: ulong) = mem_max u"
    using assms(4,5) by (intro uint_small) auto
  ultimately show ?thesis unfolding over_limit_def e by (simp add: word_less_def)
qed

lemma mlimit_loop_charges:
  assumes "users (uc s) a = Some u" "order \<le> 18" "0 \<le> cumulative_mem u" "mem_max u < 2 ^ 31"
    and "cumulative_mem u + int (user_procs s ps) * (2 ^ order * 4096) \<le> mem_max u"
  shows "mlimit_loop env zl gfp_mask order nm a ps s =
    Inr (True, s\<lparr>uc := set_user a (u\<lparr>cumulative_mem := cumulative_mem u + int (user_procs s ps) * (2 ^ order * 4096)\<rparr>) (uc s)\<rparr>)"
  using assms(1,3,4,5)
proof (induction ps arbitrary: s u)
  case Nil
  then have "set_user a u (uc s) = uc s" by (simp add: set_user_def fun_upd_idem)
  then show ?case by (simp add: user_procs_def)
next
  case (Cons p ps)
  let ?R = "2 ^ order * 4096 :: int"
  show ?case
  proof (cases "cred_uid (tasks s p) = user s")
    case False
    then show ?thesis using Cons.IH [OF Cons.prems(1-3)] Cons.prems(4) by (simp add: user_procs_def)
  next
    case True
    have n: "user_procs s (p # ps) = Suc (user_procs s ps)" using True by (simp add: user_procs_def)
    let ?u = "u\<lparr>cumulative_mem := cumulative_mem u + ?R\<rparr>"
    let ?s = "s\<lparr>uc := set_user a ?u (uc s)\<rparr>"
    have lim: "cumulative_mem u + ?R + int (user_procs s ps) * ?R \<le> mem_max u"
      using Cons.prems(4) n by (simp add: algebra_simps)
    have nn: "0 \<le> int (user_procs s ps) * ?R" by simp
    then have bound: "cumulative_mem u + ?R \<le> mem_max u" using lim by linarith
    have R0: "0 \<le> ?R" by simp
    have "\<not> over_limit u order"
    proof -
      have "cumulative_mem u < 2 ^ 31" "0 \<le> mem_max u" using Cons.prems(2,3) bound R0 by linarith+
      then show ?thesis using over_limit_iff [OF assms(2) Cons.prems(2) _ _ Cons.prems(3)] bound by simp
    qed
    moreover have "wrap_s32 (cumulative_mem u + uint (required_bytes order)) = cumulative_mem u + ?R"
      using Cons.prems(2,3) bound R0 by (simp only: required_bytes_eq(2) [OF assms(2)], intro wrap_s32_id) linarith+
    ultimately have step: "mlimit_loop env zl gfp_mask order nm a (p # ps) s = mlimit_loop env zl gfp_mask order nm a ps ?s"
      using True Cons.prems(1) by (simp add: load_user_def add_cumulative_def)
    have np: "user_procs ?s ps = user_procs s ps" by (simp add: user_procs_def)
    have "mlimit_loop env zl gfp_mask order nm a ps ?s = Inr (True, ?s\<lparr>uc := set_user a
        (?u\<lparr>cumulative_mem := cumulative_mem ?u + int (user_procs ?s ps) * ?R\<rparr>) (uc ?s)\<rparr>)"
      using Cons.prems(2,3) lim R0 np by (intro Cons.IH) (simp_all add: set_user_def)
    with step np n show ?thesis by (simp add: set_user_def algebra_simps)
  qed
qed


definition charging_example :: oomk where
  "charging_example = (limited_example 9000000)\<lparr>start := 1, plist := [20, 21, 22]\<rparr>"

lemma charging_example_simps [simp]:
  "uc charging_example = cache7 9000000" "user charging_example = 7" "start charging_example = 1"
  "plist charging_example = [20, 21, 22]" "user_procs charging_example [20, 21, 22] = 3"
  by (simp_all add: charging_example_def user_procs_def)


text \<open>
  The allocator returns no page, without killing anything, when the limit is exceeded while another
  context holds the out-of-memory lock of one of the zones.
\<close>

theorem alloc_fails_while_oom_locked:
  assumes "users (uc s) a = Some u" "over_limit u order" "cred_uid (tasks s p) = user s"
    and "z \<in> set (zonelist_zones env zl gfp_mask None)" "zone_oom_locked s z"
  shows "mlimit_loop env zl gfp_mask order nm a (p # ps) s = Inr (False, s)"
proof -
  have "list_ex (zone_oom_locked s) (zonelist_zones env zl gfp_mask None)"
    using assms(4,5) by (auto simp: list_ex_iff)
  with assms(1-3) show ?thesis by (simp add: load_user_def try_set_zonelist_oom_def)
qed

theorem alloc_fails_while_oom_locked_witness:
  "mlimit_loop env_zones 0 0 3 None 10 [20] ((limited_example 4096)\<lparr>zone_oom_locked := (\<lambda>z. z = 2)\<rparr>)
   = Inr (False, (limited_example 4096)\<lparr>zone_oom_locked := (\<lambda>z. z = 2)\<rparr>)"
proof (rule alloc_fails_while_oom_locked [where u = "user7 4096" and z = 2])
  show "over_limit (user7 4096) 3"
    by (simp add: over_limit_def user7_def required_bytes_def wrap_s32_def PAGE_SIZE_def)
qed (simp_all add: env_zones_def)

end
