(* ===== verification/Alloc_Path.thy ===== *)
theory Alloc_Path
  imports Watermark Alloc_Limit
begin

text \<open>
  The path of a page allocation through \<open>hw5/mm/page_alloc.c\<close>: the scan of the zone list, the slow path with
  compaction, reclaim and the out-of-memory killer, \<open>__alloc_pages_nodemask\<close> with the memory limit, and the functions
  around it that free pages and allocate exact sizes. It composes the free lists (\<open>Page_Pcp\<close>), the watermark
  test (\<open>Watermark\<close>) and the limit (\<open>Alloc_Limit\<close>).

  Configuration: one node and one processor (\<open>CONFIG_NUMA\<close> and \<open>CONFIG_SMP\<close> off, so there is no zone list cache and no
  zone reclaim), compaction on, fault injection and debugging off. Reclaim, compaction, waiting and the
  wake-up of \<open>kswapd\<close> are not in the repository: they are arguments that change the whole state, because pages
  come and go while they run. Reports and trace points are left out.
\<close>

section \<open>Computations that may fault or not return\<close>

type_synonym 'a outcome = "'a result option"

definition obind :: "'a outcome \<Rightarrow> ('a \<Rightarrow> 'b outcome) \<Rightarrow> 'b outcome" where
  "obind m f = (case m of None \<Rightarrow> None | Some (Inl e) \<Rightarrow> Some (Inl e) | Some (Inr x) \<Rightarrow> f x)"

definition ret :: "'a \<Rightarrow> 'a outcome" where
  "ret x = Some (Inr x)"

section \<open>Requests and state\<close>

record gfp_t = gfp +
  GFP_WAIT :: bool
  GFP_HIGH :: bool
  GFP_FS :: bool
  GFP_REPEAT :: bool
  GFP_NOFAIL :: bool
  GFP_NORETRY :: bool
  GFP_NOMEMALLOC :: bool
  GFP_HARDWALL :: bool
  GFP_THISNODE :: bool
  GFP_NO_KSWAPD :: bool
  GFP_WRITE :: bool
  gfp_other :: u32 \<comment> \<open>the bits this code does not look at\<close>

record aflags = alloc_flags +
  ALLOC_WMARK :: nat
  ALLOC_NO_WATERMARKS :: bool
  ALLOC_CPUSET :: bool

record 'e mem =
  mzones :: "nat \<Rightarrow> wzone"
  pcps :: "nat \<Rightarrow> pcp"
  kern :: oomk
  compact_considered :: "nat \<Rightarrow> nat"
  compact_defer_shift :: "nat \<Rightarrow> nat"
  compact_order_failed :: "nat \<Rightarrow> nat"
  ext :: 'e \<comment> \<open>the state of code outside the repository\<close>

record request =
  r_gfp :: gfp_t
  r_order :: nat
  r_zonelist :: addr
  r_high :: nat
  r_nodemask :: "addr option"
  r_mt :: mtype

type_synonym gpage = "nat \<times> nat" \<comment> \<open>a zone and a page frame in it\<close>

record 'e alloc_env =
  oom :: oom_env
  zonerefs :: "addr \<Rightarrow> nat list"
  gfp_zone :: "gfp_t \<Rightarrow> nat"
  gfp_bits :: "gfp_t \<Rightarrow> u32"
  allocflags_to_migratetype :: "gfp_t \<Rightarrow> mtype"
  gfp_allowed_mask :: gfp_t
  order_shift :: nat \<comment> \<open>\<open>min_free_order_shift\<close>\<close>
  MAX_ORDER_NR :: nat
  PAGE_ALLOC_COSTLY_ORDER :: nat
  ZONE_NORMAL :: nat
  COMPACT_SKIPPED :: nat
  oom_killer_disabled :: bool
  rt_task_current :: "'e mem \<Rightarrow> bool"
  in_interrupt :: "'e mem \<Rightarrow> bool"
  zone_dirty_ok :: "nat \<Rightarrow> 'e mem \<Rightarrow> bool"
  pm_suspended_storage :: "'e mem \<Rightarrow> bool"
  compaction_deferred :: "nat \<Rightarrow> nat \<Rightarrow> 'e mem \<Rightarrow> bool \<times> 'e mem"
  try_to_compact_pages :: "request \<Rightarrow> bool \<Rightarrow> 'e mem \<Rightarrow> nat \<times> 'e mem"
  defer_compaction :: "nat \<Rightarrow> nat \<Rightarrow> 'e mem \<Rightarrow> 'e mem"
  try_to_free_pages :: "request \<Rightarrow> 'e mem \<Rightarrow> nat \<times> 'e mem"
  wait_iff_congested :: "nat \<Rightarrow> 'e mem \<Rightarrow> 'e mem"
  schedule_timeout_uninterruptible :: "'e mem \<Rightarrow> 'e mem"
  wakeup_kswapd :: "nat \<Rightarrow> nat \<Rightarrow> nat \<Rightarrow> 'e mem \<Rightarrow> 'e mem"
  get_mems_allowed :: "'e mem \<Rightarrow> nat"
  put_mems_allowed :: "nat \<Rightarrow> 'e mem \<Rightarrow> bool"
  node_zonelist :: addr
  page_address :: "gpage \<Rightarrow> ulong"
  virt_to_page :: "ulong \<Rightarrow> gpage"
  get_order :: "ulong \<Rightarrow> nat"

definition PF_MEMALLOC :: u32 where "PF_MEMALLOC = 0x00000800"
definition PF_DUMPCORE :: u32 where "PF_DUMPCORE = 0x00000200"

definition current_task :: "'e mem \<Rightarrow> task" where
  "current_task s = tasks (kern s) (current (kern s))"

definition set_current_flags :: "(u32 \<Rightarrow> u32) \<Rightarrow> 'e mem \<Rightarrow> 'e mem" where
  "set_current_flags f s = s\<lparr>kern := Oom_State.upd_task (current (kern s)) (\<lambda>t. t\<lparr>t_flags := f (t_flags t)\<rparr>) (kern s)\<rparr>"

definition memalloc :: "'e mem \<Rightarrow> bool" where
  "memalloc s \<longleftrightarrow> t_flags (current_task s) AND PF_MEMALLOC \<noteq> 0"

definition gfp_and :: "gfp_t \<Rightarrow> gfp_t \<Rightarrow> gfp_t" where
  "gfp_and a b = \<lparr>GFP_ZERO = (GFP_ZERO a \<and> GFP_ZERO b), GFP_COMP = (GFP_COMP a \<and> GFP_COMP b),
     GFP_COLD = (GFP_COLD a \<and> GFP_COLD b), GFP_CMA = (GFP_CMA a \<and> GFP_CMA b),
     GFP_WAIT = (GFP_WAIT a \<and> GFP_WAIT b), GFP_HIGH = (GFP_HIGH a \<and> GFP_HIGH b), GFP_FS = (GFP_FS a \<and> GFP_FS b),
     GFP_REPEAT = (GFP_REPEAT a \<and> GFP_REPEAT b), GFP_NOFAIL = (GFP_NOFAIL a \<and> GFP_NOFAIL b),
     GFP_NORETRY = (GFP_NORETRY a \<and> GFP_NORETRY b), GFP_NOMEMALLOC = (GFP_NOMEMALLOC a \<and> GFP_NOMEMALLOC b),
     GFP_HARDWALL = (GFP_HARDWALL a \<and> GFP_HARDWALL b), GFP_THISNODE = (GFP_THISNODE a \<and> GFP_THISNODE b),
     GFP_NO_KSWAPD = (GFP_NO_KSWAPD a \<and> GFP_NO_KSWAPD b), GFP_WRITE = (GFP_WRITE a \<and> GFP_WRITE b),
     gfp_other = gfp_other a AND gfp_other b\<rparr>"

definition put_zone :: "nat \<Rightarrow> pcp \<Rightarrow> zone \<Rightarrow> 'e mem \<Rightarrow> 'e mem" where
  "put_zone zi pcp z s = s\<lparr>mzones := (mzones s)(zi := (mzones s zi)\<lparr>buddy := z\<rparr>), pcps := (pcps s)(zi := pcp)\<rparr>"

text \<open>\<open>for_each_zone_zonelist_nodemask\<close>: on one node the node mask excludes nothing.\<close>

definition zones_below :: "'e alloc_env \<Rightarrow> request \<Rightarrow> nat list" where
  "zones_below env r = filter (\<lambda>zi. zi \<le> r_high r) (zonerefs env (r_zonelist r))"

definition first_zones_zonelist :: "'e alloc_env \<Rightarrow> request \<Rightarrow> nat option" where
  "first_zones_zonelist env r = (case zones_below env r of [] \<Rightarrow> None | zi # _ \<Rightarrow> Some zi)"

section \<open>Scanning the zone list\<close>

definition zone_eligible :: "'e alloc_env \<Rightarrow> gfp_t \<Rightarrow> nat \<Rightarrow> aflags \<Rightarrow> nat \<Rightarrow> nat \<Rightarrow> 'e mem \<Rightarrow> bool" where
  "zone_eligible env g order fl classzone_idx zi s \<longleftrightarrow>
    (\<not> ALLOC_CPUSET fl \<or> cpuset_zone_allowed_softwall (oom env) zi (gfp_bits env g))
    \<and> \<not> (ALLOC_WMARK fl = WMARK_LOW \<and> GFP_WRITE g \<and> \<not> zone_dirty_ok env zi s)
    \<and> (ALLOC_NO_WATERMARKS fl
       \<or> zone_watermark_ok (order_shift env) (mzones s zi) order (watermark (mzones s zi) (ALLOC_WMARK fl)) classzone_idx (alloc_flags.truncate fl))"

fun scan_zones :: "'e alloc_env \<Rightarrow> gfp_t \<Rightarrow> nat \<Rightarrow> aflags \<Rightarrow> nat \<Rightarrow> mtype \<Rightarrow> nat list \<Rightarrow> 'e mem \<Rightarrow> (gpage option \<times> 'e mem) option" where
  "scan_zones env g order fl classzone_idx mt [] s = Some (None, s)"
| "scan_zones env g order fl classzone_idx mt (zi # zs) s =
    (if zone_eligible env g order fl classzone_idx zi s then
       case buffered_rmqueue order (gfp.truncate g) mt (pcps s zi) (buddy (mzones s zi)) of
         None \<Rightarrow> None
       | Some (page, pcp, z) \<Rightarrow>
           let s = put_zone zi pcp z s
           in case page of
                None \<Rightarrow> scan_zones env g order fl classzone_idx mt zs s
              | Some p \<Rightarrow> Some (Some (zi, p), s)
     else scan_zones env g order fl classzone_idx mt zs s)"

definition get_page_from_freelist :: "'e alloc_env \<Rightarrow> request \<Rightarrow> gfp_t \<Rightarrow> aflags \<Rightarrow> nat \<Rightarrow> 'e mem \<Rightarrow> (gpage option \<times> 'e mem) outcome" where
  "get_page_from_freelist env r gfp_mask fl preferred_zone s =
    map_option Inr (scan_zones env gfp_mask (r_order r) fl preferred_zone (r_mt r) (zones_below env r) s)"

section \<open>Steps of the slow path\<close>

definition should_alloc_retry :: "'e alloc_env \<Rightarrow> gfp_t \<Rightarrow> nat \<Rightarrow> nat \<Rightarrow> nat \<Rightarrow> 'e mem \<Rightarrow> bool" where
  "should_alloc_retry env g order did_some_progress pages_reclaimed s =
    (if GFP_NORETRY g then False
     else if GFP_NOFAIL g then True
     else if did_some_progress = 0 \<and> pm_suspended_storage env s then False
     else if order \<le> PAGE_ALLOC_COSTLY_ORDER env then True
     else GFP_REPEAT g \<and> pages_reclaimed < 2 ^ order)"

definition wmark_flags :: "nat \<Rightarrow> aflags" where
  "wmark_flags w = \<lparr>ALLOC_HIGH = False, ALLOC_HARDER = False, ALLOC_CMA = False, ALLOC_WMARK = w,
     ALLOC_NO_WATERMARKS = False, ALLOC_CPUSET = True\<rparr>"

definition alloc_pages_may_oom :: "'e alloc_env \<Rightarrow> request \<Rightarrow> nat \<Rightarrow> 'e mem \<Rightarrow> (gpage option \<times> 'e mem) outcome" where
  "alloc_pages_may_oom env r preferred_zone s =
    (let g = r_gfp r; (ok, k) = try_set_zonelist_oom (oom env) (r_zonelist r) (gfp_bits env g) (kern s); s = s\<lparr>kern := k\<rparr>;
         out = (\<lambda>page s. ret (page, s\<lparr>kern := clear_zonelist_oom (oom env) (r_zonelist r) (gfp_bits env g) (kern s)\<rparr>))
     in if ok = 0 then ret (None, schedule_timeout_uninterruptible env s)
        else obind (get_page_from_freelist env r (g\<lparr>GFP_HARDWALL := True\<rparr>) (wmark_flags WMARK_HIGH) preferred_zone s) (\<lambda>(page, s).
          if page \<noteq> None then out page s
          else if \<not> GFP_NOFAIL g
            \<and> (r_order r > PAGE_ALLOC_COSTLY_ORDER env \<or> r_high r < ZONE_NORMAL env \<or> GFP_THISNODE g)
          then out page s
          else obind (Some (out_of_memory (oom env) (Some (r_zonelist r)) (gfp_bits env g) (r_nodemask r) False (kern s)))
                 (\<lambda>k. out page (s\<lparr>kern := k\<rparr>))))"

fun drain_zones :: "nat list \<Rightarrow> 'e mem \<Rightarrow> 'e mem option" where
  "drain_zones [] s = Some s"
| "drain_zones (zi # zs) s =
    (case drain_pages (pcps s zi) (buddy (mzones s zi)) of
       None \<Rightarrow> None
     | Some (pcp, z) \<Rightarrow> drain_zones zs (put_zone zi pcp z s))"

definition drain_local_pages :: "'e mem \<Rightarrow> 'e mem option" where
  "drain_local_pages s = drain_zones (populated_zones (kern s)) s"

definition drain_all_pages :: "'e mem \<Rightarrow> 'e mem option" where
  "drain_all_pages s =
    (if \<exists>zi \<in> set (populated_zones (kern s)). pcp_count (pcps s zi) \<noteq> 0 then drain_local_pages s else Some s)"

definition compact_success :: "nat \<Rightarrow> nat \<Rightarrow> 'e mem \<Rightarrow> 'e mem" where
  "compact_success zi order s =
    s\<lparr>compact_considered := (compact_considered s)(zi := 0), compact_defer_shift := (compact_defer_shift s)(zi := 0),
      compact_order_failed := (if order \<ge> compact_order_failed s zi then (compact_order_failed s)(zi := order + 1) else compact_order_failed s)\<rparr>"

text \<open>The result is the page and the new value of \<open>deferred_compaction\<close>.\<close>

definition alloc_pages_direct_compact ::
  "'e alloc_env \<Rightarrow> request \<Rightarrow> aflags \<Rightarrow> nat \<Rightarrow> bool \<Rightarrow> bool \<Rightarrow> 'e mem \<Rightarrow> (gpage option \<times> bool \<times> 'e mem) outcome" where
  "alloc_pages_direct_compact env r fl preferred_zone sync_migration deferred s =
    (if r_order r = 0 then ret (None, deferred, s)
     else case compaction_deferred env preferred_zone (r_order r) s of
       (True, s) \<Rightarrow> ret (None, True, s)
     | (False, s) \<Rightarrow>
         let s = set_current_flags (\<lambda>f. f OR PF_MEMALLOC) s;
             (did_some_progress, s) = try_to_compact_pages env r sync_migration s;
             s = set_current_flags (\<lambda>f. f AND NOT PF_MEMALLOC) s
         in if did_some_progress \<noteq> COMPACT_SKIPPED env then
              obind (map_option Inr (drain_local_pages s)) (\<lambda>s.
              obind (get_page_from_freelist env r (r_gfp r) fl preferred_zone s) (\<lambda>(page, s).
              if page \<noteq> None then ret (page, deferred, compact_success preferred_zone (r_order r) s)
              else ret (None, deferred, if sync_migration then defer_compaction env preferred_zone (r_order r) s else s)))
            else ret (None, deferred, s))"

definition perform_reclaim :: "'e alloc_env \<Rightarrow> request \<Rightarrow> 'e mem \<Rightarrow> nat \<times> 'e mem" where
  "perform_reclaim env r s =
    (let s = set_current_flags (\<lambda>f. f OR PF_MEMALLOC) s;
         (progress, s) = try_to_free_pages env r s
     in (progress, set_current_flags (\<lambda>f. f AND NOT PF_MEMALLOC) s))"

definition alloc_pages_direct_reclaim ::
  "'e alloc_env \<Rightarrow> request \<Rightarrow> aflags \<Rightarrow> nat \<Rightarrow> 'e mem \<Rightarrow> (gpage option \<times> nat \<times> 'e mem) outcome" where
  "alloc_pages_direct_reclaim env r fl preferred_zone s =
    (let (did_some_progress, s) = perform_reclaim env r s
     in if did_some_progress = 0 then ret (None, did_some_progress, s)
        else obind (get_page_from_freelist env r (r_gfp r) fl preferred_zone s) (\<lambda>(page, s).
          if page \<noteq> None then ret (page, did_some_progress, s)
          else obind (map_option Inr (drain_all_pages s)) (\<lambda>s.
               obind (get_page_from_freelist env r (r_gfp r) fl preferred_zone s) (\<lambda>(page, s).
               ret (page, did_some_progress, s)))))"

partial_function (option) alloc_pages_high_priority :: "'e alloc_env \<Rightarrow> request \<Rightarrow> nat \<Rightarrow> 'e mem \<Rightarrow> (gpage option \<times> 'e mem) outcome" where
  [code]: "alloc_pages_high_priority env r preferred_zone s =
    (case get_page_from_freelist env r (r_gfp r) ((wmark_flags 0)\<lparr>ALLOC_NO_WATERMARKS := True, ALLOC_CPUSET := False\<rparr>) preferred_zone s of
       None \<Rightarrow> None
     | Some (Inl e) \<Rightarrow> Some (Inl e)
     | Some (Inr (page, s)) \<Rightarrow>
         if page = None \<and> GFP_NOFAIL (r_gfp r)
         then alloc_pages_high_priority env r preferred_zone (wait_iff_congested env preferred_zone s)
         else Some (Inr (page, s)))"

definition wake_all_kswapd :: "'e alloc_env \<Rightarrow> request \<Rightarrow> nat \<Rightarrow> 'e mem \<Rightarrow> 'e mem" where
  "wake_all_kswapd env r classzone_idx s = fold (\<lambda>zi. wakeup_kswapd env zi (r_order r) classzone_idx) (zones_below env r) s"

definition gfp_to_alloc_flags :: "'e alloc_env \<Rightarrow> gfp_t \<Rightarrow> 'e mem \<Rightarrow> aflags" where
  "gfp_to_alloc_flags env g s =
    \<lparr>ALLOC_HIGH = GFP_HIGH g,
     ALLOC_HARDER = (if \<not> GFP_WAIT g then \<not> GFP_NOMEMALLOC g else rt_task_current env s \<and> \<not> in_interrupt env s),
     ALLOC_CMA = (allocflags_to_migratetype env g = MIGRATE_MOVABLE),
     ALLOC_WMARK = WMARK_MIN,
     ALLOC_NO_WATERMARKS = (\<not> GFP_NOMEMALLOC g \<and> \<not> in_interrupt env s \<and> (memalloc s \<or> tif_memdie (current_task s))),
     ALLOC_CPUSET = GFP_WAIT g\<rparr>"

section \<open>The slow path\<close>

text \<open>
  One pass from the label \<open>rebalance\<close> to the end of the function or the next jump back. The local variables that
  live through several passes are a record.
\<close>

record locals =
  l_flags :: aflags
  l_pref :: nat
  pages_reclaimed :: nat
  sync_migration :: bool
  deferred_compaction :: bool

datatype pass = Done "gpage option" | Restart | Rebalance

definition slow_setup :: "'e alloc_env \<Rightarrow> request \<Rightarrow> locals \<Rightarrow> 'e mem \<Rightarrow> locals \<times> 'e mem" where
  "slow_setup env r l s =
    (let s = (if GFP_NO_KSWAPD (r_gfp r) then s else wake_all_kswapd env r (l_pref l) s);
         fl = gfp_to_alloc_flags env (r_gfp r) s;
         pref = (if \<not> ALLOC_CPUSET fl \<and> r_nodemask r = None
                 then case first_zones_zonelist env r of None \<Rightarrow> l_pref l | Some zi \<Rightarrow> zi
                 else l_pref l)
     in (l\<lparr>l_flags := fl, l_pref := pref\<rparr>, s))"

definition slow_oom :: "'e alloc_env \<Rightarrow> request \<Rightarrow> locals \<Rightarrow> 'e mem \<Rightarrow> (pass \<times> locals \<times> 'e mem) outcome" where
  "slow_oom env r l s =
    (let g = r_gfp r
     in if oom_killer_disabled env then ret (Done None, l, s)
        else if t_flags (current_task s) AND PF_DUMPCORE \<noteq> 0 \<and> \<not> GFP_NOFAIL g then ret (Done None, l, s)
        else obind (alloc_pages_may_oom env r (l_pref l) s) (\<lambda>(page, s).
          if page \<noteq> None then ret (Done page, l, s)
          else if \<not> GFP_NOFAIL g \<and> (r_order r > PAGE_ALLOC_COSTLY_ORDER env \<or> r_high r < ZONE_NORMAL env)
          then ret (Done None, l, s)
          else ret (Restart, l, s)))"

definition slow_retry :: "'e alloc_env \<Rightarrow> request \<Rightarrow> nat \<Rightarrow> locals \<Rightarrow> 'e mem \<Rightarrow> (pass \<times> locals \<times> 'e mem) outcome" where
  "slow_retry env r did_some_progress l s =
    (let g = r_gfp r; l = l\<lparr>pages_reclaimed := pages_reclaimed l + did_some_progress\<rparr>
     in if should_alloc_retry env g (r_order r) did_some_progress (pages_reclaimed l) s
        then ret (Rebalance, l, wait_iff_congested env (l_pref l) s)
        else obind (alloc_pages_direct_compact env r (l_flags l) (l_pref l) (sync_migration l) (deferred_compaction l) s) (\<lambda>(page, deferred, s).
          ret (Done page, l\<lparr>deferred_compaction := deferred\<rparr>, s)))"

definition slow_reclaim :: "'e alloc_env \<Rightarrow> request \<Rightarrow> locals \<Rightarrow> 'e mem \<Rightarrow> (pass \<times> locals \<times> 'e mem) outcome" where
  "slow_reclaim env r l s =
    (let g = r_gfp r
     in obind (alloc_pages_direct_compact env r (l_flags l) (l_pref l) (sync_migration l) (deferred_compaction l) s) (\<lambda>(page, deferred, s).
        let l = l\<lparr>deferred_compaction := deferred\<rparr>
        in if page \<noteq> None then ret (Done page, l, s)
           else let l = l\<lparr>sync_migration := True\<rparr>
           in if deferred \<and> GFP_NO_KSWAPD g then ret (Done None, l, s)
           else obind (alloc_pages_direct_reclaim env r (l_flags l) (l_pref l) s) (\<lambda>(page, did_some_progress, s).
             if page \<noteq> None then ret (Done page, l, s)
             else if did_some_progress = 0 \<and> GFP_FS g \<and> \<not> GFP_NORETRY g then slow_oom env r l s
             else slow_retry env r did_some_progress l s)))"

definition slow_pass :: "'e alloc_env \<Rightarrow> request \<Rightarrow> locals \<Rightarrow> 'e mem \<Rightarrow> (pass \<times> locals \<times> 'e mem) outcome" where
  "slow_pass env r l s =
    (let g = r_gfp r
     in obind (get_page_from_freelist env r g ((l_flags l)\<lparr>ALLOC_NO_WATERMARKS := False\<rparr>) (l_pref l) s) (\<lambda>(page, s).
        if page \<noteq> None then ret (Done page, l, s)
        else obind (if ALLOC_NO_WATERMARKS (l_flags l) then alloc_pages_high_priority env r (l_pref l) s else ret (None, s)) (\<lambda>(page, s).
          if page \<noteq> None then ret (Done page, l, s)
          else if \<not> GFP_WAIT g then ret (Done None, l, s)
          else if memalloc s then ret (Done None, l, s)
          else if tif_memdie (current_task s) \<and> \<not> GFP_NOFAIL g then ret (Done None, l, s)
          else slow_reclaim env r l s)))"

partial_function (option) slow_loop :: "'e alloc_env \<Rightarrow> request \<Rightarrow> locals \<Rightarrow> 'e mem \<Rightarrow> (gpage option \<times> 'e mem) outcome" where
  [code]: "slow_loop env r l s =
    (case slow_pass env r l s of
       None \<Rightarrow> None
     | Some (Inl e) \<Rightarrow> Some (Inl e)
     | Some (Inr (p, l, s)) \<Rightarrow>
         (case p of
            Done page \<Rightarrow> Some (Inr (page, s))
          | Restart \<Rightarrow> (let (l, s) = slow_setup env r l s in slow_loop env r l s)
          | Rebalance \<Rightarrow> slow_loop env r l s))"

definition alloc_pages_slowpath :: "'e alloc_env \<Rightarrow> request \<Rightarrow> nat \<Rightarrow> 'e mem \<Rightarrow> (gpage option \<times> 'e mem) outcome" where
  "alloc_pages_slowpath env r preferred_zone s =
    (if r_order r \<ge> MAX_ORDER_NR env then ret (None, s)
     else let (l, s) = slow_setup env r \<lparr>l_flags = wmark_flags 0, l_pref = preferred_zone, pages_reclaimed = 0,
                         sync_migration = False, deferred_compaction = False\<rparr> s
          in slow_loop env r l s)"

section \<open>Allocating and freeing\<close>

partial_function (option) alloc_retry_cpuset :: "'e alloc_env \<Rightarrow> request \<Rightarrow> 'e mem \<Rightarrow> (gpage option \<times> 'e mem) outcome" where
  [code]: "alloc_retry_cpuset env r s =
    (let cookie = get_mems_allowed env s
     in case (case first_zones_zonelist env r of
          None \<Rightarrow> ret (None, s)
        | Some pref \<Rightarrow>
            obind (get_page_from_freelist env r ((r_gfp r)\<lparr>GFP_HARDWALL := True\<rparr>)
                ((wmark_flags WMARK_LOW)\<lparr>ALLOC_CMA := allocflags_to_migratetype env (r_gfp r) = MIGRATE_MOVABLE\<rparr>) pref s) (\<lambda>(page, s).
            if page = None then alloc_pages_slowpath env r pref s else ret (page, s)))
        of None \<Rightarrow> None
         | Some (Inl e) \<Rightarrow> Some (Inl e)
         | Some (Inr (page, s)) \<Rightarrow>
             if \<not> put_mems_allowed env cookie s \<and> page = None then alloc_retry_cpuset env r s else Some (Inr (page, s)))"

definition alloc_pages_nodemask :: "'e alloc_env \<Rightarrow> gfp_t \<Rightarrow> nat \<Rightarrow> addr \<Rightarrow> addr option \<Rightarrow> 'e mem \<Rightarrow> (gpage option \<times> 'e mem) outcome" where
  "alloc_pages_nodemask env gfp_mask order zonelist nodemask s =
    obind (Some (mlimit_check (oom env) zonelist (gfp_bits env gfp_mask) order nodemask (kern s))) (\<lambda>(ok, k).
    let s = s\<lparr>kern := k\<rparr>; g = gfp_and gfp_mask (gfp_allowed_mask env)
    in if \<not> ok then ret (None, s)
       else if zonerefs env zonelist = [] then ret (None, s)
       else alloc_retry_cpuset env \<lparr>r_gfp = g, r_order = order, r_zonelist = zonelist, r_high = gfp_zone env gfp_mask,
              r_nodemask = nodemask, r_mt = allocflags_to_migratetype env gfp_mask\<rparr> s)"

definition get_free_pages :: "'e alloc_env \<Rightarrow> gfp_t \<Rightarrow> nat \<Rightarrow> 'e mem \<Rightarrow> (ulong \<times> 'e mem) outcome" where
  "get_free_pages env gfp_mask order s =
    obind (alloc_pages_nodemask env gfp_mask order (node_zonelist env) None s) (\<lambda>(page, s).
    ret (case page of None \<Rightarrow> 0 | Some pg \<Rightarrow> page_address env pg, s))"

definition get_zeroed_page :: "'e alloc_env \<Rightarrow> gfp_t \<Rightarrow> 'e mem \<Rightarrow> (ulong \<times> 'e mem) outcome" where
  "get_zeroed_page env gfp_mask s = get_free_pages env (gfp_mask\<lparr>GFP_ZERO := True\<rparr>) 0 s"

definition put_page_testzero :: "nat \<Rightarrow> zone \<Rightarrow> bool \<times> zone" where
  "put_page_testzero p z = (page_count (pages z p) - 1 = 0, upd_page p (\<lambda>g. g\<lparr>page_count := page_count g - 1\<rparr>) z)"

definition free_pages_page :: "gpage \<Rightarrow> nat \<Rightarrow> 'e mem \<Rightarrow> 'e mem option" where
  \<comment> \<open>\<open>__free_pages\<close>\<close>
  "free_pages_page pg order s =
    (let (zi, p) = pg; (zero, z) = put_page_testzero p (buddy (mzones s zi))
     in if \<not> zero then Some (put_zone zi (pcps s zi) z s)
        else if order = 0
        then map_option (\<lambda>(pcp, z). put_zone zi pcp z s) (free_hot_cold_page p False (pcps s zi) z)
        else Some (put_zone zi (pcps s zi) (free_pages_ok p order z) s))"

definition free_pages_addr :: "'e alloc_env \<Rightarrow> ulong \<Rightarrow> nat \<Rightarrow> 'e mem \<Rightarrow> 'e mem option" where
  \<comment> \<open>\<open>free_pages\<close>\<close>
  "free_pages_addr env adr order s = (if adr \<noteq> 0 then free_pages_page (virt_to_page env adr) order s else Some s)"

section \<open>Reasoning about outcomes\<close>

definition ensures :: "'a outcome \<Rightarrow> ('a \<Rightarrow> bool) \<Rightarrow> bool" where
  "ensures m Q \<longleftrightarrow> (\<forall>x. m = Some (Inr x) \<longrightarrow> Q x)"

lemma ensures_ret [simp]: "ensures (ret x) Q \<longleftrightarrow> Q x"
  by (simp add: ensures_def ret_def)

lemma ensures_bind [simp]: "ensures (obind m f) Q \<longleftrightarrow> ensures m (\<lambda>x. ensures (f x) Q)"
  by (auto simp: ensures_def obind_def split: option.splits sum.splits)

lemma ensures_map [simp]: "ensures (map_option Inr m) Q \<longleftrightarrow> (\<forall>x. m = Some x \<longrightarrow> Q x)"
  by (auto simp: ensures_def)

lemma ensures_weaken: "ensures m P \<Longrightarrow> (\<And>x. P x \<Longrightarrow> Q x) \<Longrightarrow> ensures m Q"
  by (simp add: ensures_def)

lemma ret_not_None [simp]: "ret x \<noteq> None" "None \<noteq> ret x"
  by (simp_all add: ret_def)

lemma ensures_then: "(\<And>x. ensures (f x) Q) \<Longrightarrow> ensures (obind m f) Q"
  by (simp add: ensures_bind) (simp add: ensures_def)

lemma ensures_conj: "ensures m P \<Longrightarrow> ensures m Q \<Longrightarrow> ensures m (\<lambda>x. P x \<and> Q x)"
  by (simp add: ensures_def)

text \<open>The computation returns, and unless it faults its result satisfies \<open>Q\<close>.\<close>

definition sure :: "'a outcome \<Rightarrow> ('a \<Rightarrow> bool) \<Rightarrow> bool" where
  "sure m Q \<longleftrightarrow> m \<noteq> None \<and> ensures m Q"

lemma sure_simps [simp]:
  "sure (ret x) Q \<longleftrightarrow> Q x" "sure (map_option Inr (Some x)) Q \<longleftrightarrow> Q x" "sure (Some c) Q \<longleftrightarrow> (\<forall>x. c = Inr x \<longrightarrow> Q x)"
  by (auto simp: sure_def ensures_def ret_def)

lemma sure_bind: "sure m P \<Longrightarrow> (\<And>x. P x \<Longrightarrow> sure (f x) Q) \<Longrightarrow> sure (obind m f) Q"
  by (auto simp: sure_def ensures_def obind_def split: option.splits sum.splits)

lemma sure_weaken: "sure m P \<Longrightarrow> (\<And>x. P x \<Longrightarrow> Q x) \<Longrightarrow> sure m Q"
  by (auto simp: sure_def ensures_def)

lemma sure_ensures: "sure m P \<Longrightarrow> ensures m P"
  by (simp add: sure_def)

section \<open>Invariant and handed out blocks\<close>

text \<open>Every zone structure of the node is well-formed; a zone without memory has empty lists.\<close>

definition mem_ok :: "'e mem \<Rightarrow> bool" where
  "mem_ok s \<longleftrightarrow> (\<forall>zi. pcp_inv (pcps s zi) (buddy (mzones s zi)))"

text \<open>
  What is assumed of the code outside the repository: it may allocate, free and move pages, but it keeps the lists well-formed; and
  the migrate type of a request is one of the types that have a per-CPU list.
\<close>

definition env_ok :: "'e alloc_env \<Rightarrow> bool" where
  "env_ok env \<longleftrightarrow> (\<forall>s zi order cz r sync. mem_ok s \<longrightarrow>
       mem_ok (snd (compaction_deferred env zi order s)) \<and> mem_ok (snd (try_to_compact_pages env r sync s))
       \<and> mem_ok (defer_compaction env zi order s) \<and> mem_ok (snd (try_to_free_pages env r s))
       \<and> mem_ok (wait_iff_congested env zi s) \<and> mem_ok (schedule_timeout_uninterruptible env s)
       \<and> mem_ok (wakeup_kswapd env zi order cz s))
     \<and> (\<forall>g. mt_num (allocflags_to_migratetype env g) < MIGRATE_PCPTYPES)"

abbreviation zavail :: "'e mem \<Rightarrow> nat \<Rightarrow> nat set" where
  "zavail s zi \<equiv> avail (pcps s zi) (buddy (mzones s zi))"

text \<open>Between two states a block of a zone is handed out, and nothing else happens but that bad blocks are dropped.\<close>

definition handed_out :: "nat \<Rightarrow> 'e mem \<Rightarrow> gpage \<Rightarrow> 'e mem \<Rightarrow> bool" where
  "handed_out order s pg s' \<longleftrightarrow> mem_ok s \<and> span (snd pg) order \<subseteq> zavail s (fst pg) \<and> 2 ^ order dvd snd pg
     \<and> page_count (pages (buddy (mzones s' (fst pg))) (snd pg)) = 1
     \<and> zavail s' (fst pg) \<subseteq> zavail s (fst pg) - span (snd pg) order
     \<and> (\<forall>zj. zj \<noteq> fst pg \<longrightarrow> mzones s' zj = mzones s zj \<and> pcps s' zj = pcps s zj)"

definition granted :: "'e alloc_env \<Rightarrow> request \<Rightarrow> (aflags \<Rightarrow> bool) \<Rightarrow> gpage \<Rightarrow> 'e mem \<Rightarrow> bool" where
  "granted env r F pg s' \<longleftrightarrow> (\<exists>s g fl cz. F fl \<and> fst pg \<in> set (zones_below env r) \<and> zone_eligible env g (r_order r) fl cz (fst pg) s
     \<and> g\<lparr>GFP_HARDWALL := GFP_HARDWALL (r_gfp r)\<rparr> = r_gfp r \<and> handed_out (r_order r) s pg s')"

definition good :: "'e alloc_env \<Rightarrow> request \<Rightarrow> (aflags \<Rightarrow> bool) \<Rightarrow> gpage option \<Rightarrow> 'e mem \<Rightarrow> bool" where
  "good env r F page s \<longleftrightarrow> mem_ok s \<and> (\<forall>pg. page = Some pg \<longrightarrow> granted env r F pg s)"

lemma good_None [simp]: "good env r F None s \<longleftrightarrow> mem_ok s"
  by (simp add: good_def)

lemma good_mem_ok: "good env r F page s \<Longrightarrow> mem_ok s"
  by (simp add: good_def)

lemma mem_ok_frame [simp]:
  "mem_ok (s\<lparr>kern := k\<rparr>) = mem_ok s" "mem_ok (set_current_flags f s) = mem_ok s" "mem_ok (compact_success zi order s) = mem_ok s"
  by (simp_all add: mem_ok_def set_current_flags_def compact_success_def)

lemma handed_out_frame [simp]:
  "handed_out order s pg (s'\<lparr>kern := k\<rparr>) = handed_out order s pg s'"
  "handed_out order s pg (compact_success zi n s') = handed_out order s pg s'"
  by (simp_all add: handed_out_def compact_success_def)

lemma good_frame [simp]:
  "good env r F page (s\<lparr>kern := k\<rparr>) = good env r F page s" "good env r F page (compact_success zi order s) = good env r F page s"
  by (simp_all add: good_def granted_def)

lemma mem_ok_put_zone: "mem_ok s \<Longrightarrow> pcp_inv pcp z \<Longrightarrow> mem_ok (put_zone zi pcp z s)"
  by (simp add: mem_ok_def put_zone_def)

section \<open>The scan\<close>

lemma scan_good:
  assumes "mem_ok s" "mt_num mt < MIGRATE_PCPTYPES" "set zs \<subseteq> set (zones_below env r)" "mt = r_mt r"
    and g: "g\<lparr>GFP_HARDWALL := GFP_HARDWALL (r_gfp r)\<rparr> = r_gfp r" and F: "F fl"
  shows "\<exists>page s'. scan_zones env g (r_order r) fl cz mt zs s = Some (page, s') \<and> good env r F page s'"
  using assms(1,3)
proof (induction zs arbitrary: s)
  case (Cons zi zs)
  show ?case
  proof (cases "zone_eligible env g (r_order r) fl cz zi s")
    case True
    have "pcp_inv (pcps s zi) (buddy (mzones s zi))" using Cons.prems by (simp add: mem_ok_def)
    then obtain pg pcp z bs where b: "buffered_rmqueue (r_order r) (gfp.truncate g) mt (pcps s zi) (buddy (mzones s zi)) = Some (pg, pcp, z)"
      "page_given (r_order r) (pcps s zi) (buddy (mzones s zi)) pg pcp z bs"
      using buffered_rmqueue_given assms(2) unfolding MIGRATE_PCPTYPES_def by blast
    let ?s = "put_zone zi pcp z s"
    have ok: "mem_ok ?s" using b(2) Cons.prems(1) by (auto simp: page_given_def intro: mem_ok_put_zone)
    show ?thesis
    proof (cases pg)
      case None
      then show ?thesis using Cons.IH [OF ok] Cons.prems True b(1) by auto
    next
      case (Some p)
      have "handed_out (r_order r) s (zi, p) ?s"
        using b(2) Cons.prems(1) Some by (auto simp: handed_out_def page_given_def put_zone_def)
      then have "granted env r F (zi, p) ?s" unfolding granted_def using F g True Cons.prems(2) by fastforce
      with ok have "good env r F (Some (zi, p)) ?s" by (simp add: good_def)
      then show ?thesis using True b(1) Some by simp
    qed
  next
    case False
    then show ?thesis using Cons by simp
  qed
qed simp

text \<open>The flags with which a request may be served.\<close>

definition allowed_flags :: "gfp_t \<Rightarrow> aflags \<Rightarrow> bool" where
  "allowed_flags g fl \<longleftrightarrow> (ALLOC_NO_WATERMARKS fl \<longrightarrow> \<not> GFP_NOMEMALLOC g) \<and> (ALLOC_HIGH fl \<longrightarrow> GFP_HIGH g)
     \<and> (\<not> ALLOC_CPUSET fl \<longrightarrow> \<not> GFP_WAIT g \<or> ALLOC_NO_WATERMARKS fl) \<and> ALLOC_WMARK fl \<le> WMARK_HIGH"

lemma allowed_flags_simps [simp]:
  "w \<le> WMARK_HIGH \<Longrightarrow> allowed_flags g (wmark_flags w)"
  "w \<le> WMARK_HIGH \<Longrightarrow> allowed_flags g ((wmark_flags w)\<lparr>ALLOC_CMA := c\<rparr>)"
  "allowed_flags g (gfp_to_alloc_flags env g s)"
  by (simp_all add: allowed_flags_def wmark_flags_def gfp_to_alloc_flags_def WMARK_MIN_def)

section \<open>Steps of the slow path keep the invariant\<close>

lemma drain_zones_ok: "mem_ok s \<Longrightarrow> \<exists>s'. drain_zones zs s = Some s' \<and> mem_ok s'"
proof (induction zs arbitrary: s)
  case (Cons zi zs)
  have i: "pcp_inv (pcps s zi) (buddy (mzones s zi))" using Cons.prems by (simp add: mem_ok_def)
  have "\<exists>pcp z. drain_pages (pcps s zi) (buddy (mzones s zi)) = Some (pcp, z) \<and> pcp_inv pcp z"
  proof (cases "pcp_count (pcps s zi) = 0")
    case False
    let ?n = "nat (pcp_count (pcps s zi))"
    have len: "?n \<le> length (all_pages (lists (pcps s zi)))" "pcp_count (pcps s zi) - int ?n = 0" using i by (auto simp: pcp_inv_def)
    obtain pcp z where "free_pcppages_bulk ?n (pcps s zi) (buddy (mzones s zi)) = Some (pcp, z)"
      "pcp_inv (pcp\<lparr>pcp_count := pcp_count (pcps s zi) - int ?n\<rparr>) z"
      using bulk_pcp_inv [OF i len(1)] by blast
    with False len(2) show ?thesis by (simp add: drain_pages_def)
  qed (use i in \<open>simp add: drain_pages_def\<close>)
  then show ?case using Cons mem_ok_put_zone by fastforce
qed simp

lemma drain_ok:
  assumes "mem_ok s"
  shows "drain_local_pages s \<noteq> None" "drain_local_pages s = Some s' \<Longrightarrow> mem_ok s'"
    "drain_all_pages s \<noteq> None" "drain_all_pages s = Some s' \<Longrightarrow> mem_ok s'"
  using drain_zones_ok [OF assms, of "populated_zones (kern s)"] assms
  by (auto simp: drain_local_pages_def drain_all_pages_def split: if_splits)


lemmas env_okD = env_ok_def [THEN iffD1, THEN conjunct1, rule_format]

definition req_ok :: "request \<Rightarrow> bool" where
  "req_ok r \<longleftrightarrow> mt_num (r_mt r) < MIGRATE_PCPTYPES"

abbreviation fine :: "'e alloc_env \<Rightarrow> request \<Rightarrow> gpage option \<Rightarrow> 'e mem \<Rightarrow> bool" where
  "fine env r \<equiv> good env r (allowed_flags (r_gfp r))"

lemma get_page_sure:
  assumes "req_ok r" "mem_ok s" "allowed_flags (r_gfp r) fl" "g = r_gfp r \<or> g = (r_gfp r)\<lparr>GFP_HARDWALL := True\<rparr>"
  shows "sure (get_page_from_freelist env r g fl cz s) (\<lambda>(page, s). fine env r page s)"
proof -
  have "g\<lparr>GFP_HARDWALL := GFP_HARDWALL (r_gfp r)\<rparr> = r_gfp r" using assms(4) by auto
  then show ?thesis
    using scan_good [where F = "allowed_flags (r_gfp r)" and fl = fl and zs = "zones_below env r" and g = g and env = env and cz = cz,
        OF assms(2) _ order_refl refl]
      assms(1,3)
    by (auto simp: get_page_from_freelist_def sure_def ensures_def req_ok_def)
qed

lemma may_oom_sure:
  assumes "env_ok env" "req_ok r" "mem_ok s"
  shows "sure (alloc_pages_may_oom env r pref s) (\<lambda>(page, s). fine env r page s)"
proof -
  have g: "sure (get_page_from_freelist env r ((r_gfp r)\<lparr>GFP_HARDWALL := True\<rparr>) (wmark_flags WMARK_HIGH) pref (s\<lparr>kern := k\<rparr>))
      (\<lambda>(page, s). fine env r page s)" for k
    by (rule get_page_sure [OF assms(2)]) (simp_all add: assms(3))
  show ?thesis
    unfolding alloc_pages_may_oom_def Let_def
    by (auto split: prod.splits intro!: sure_bind [OF g] sure_bind [where P = "\<lambda>_. True"] simp: env_okD [OF assms(1)] assms(3))
qed

lemma compact_sure:
  assumes "env_ok env" "req_ok r" "mem_ok s" "allowed_flags (r_gfp r) fl"
  shows "sure (alloc_pages_direct_compact env r fl pref sync deferred s) (\<lambda>(page, d, s). fine env r page s)"
proof -
  have g: "sure (get_page_from_freelist env r (r_gfp r) fl pref s) (\<lambda>(page, s). fine env r page s)" if "mem_ok s" for s
    by (rule get_page_sure [OF assms(2)]) (simp_all add: that assms(4))
  have d: "sure (map_option Inr (drain_local_pages s)) mem_ok" if "mem_ok s" for s :: "'a mem"
    using drain_ok [OF that] by (auto simp: sure_def)
  have c: "mem_ok (snd (compaction_deferred env pref (r_order r) s))" using env_okD [OF assms(1,3)] by blast
  have t: "mem_ok s \<Longrightarrow> mem_ok (snd (try_to_compact_pages env r sync s))" for s using env_okD [OF assms(1)] by blast
  have f: "mem_ok s \<Longrightarrow> mem_ok (defer_compaction env pref (r_order r) s)" for s using env_okD [OF assms(1)] by blast
  show ?thesis
  proof (cases "r_order r = 0")
    case False
    obtain b s1 where b: "compaction_deferred env pref (r_order r) s = (b, s1)" by fastforce
    obtain n s2 where n: "try_to_compact_pages env r sync (set_current_flags (\<lambda>f. f OR PF_MEMALLOC) s1) = (n, s2)" by fastforce
    have ok: "mem_ok s1" "mem_ok s2" using c b t [of "set_current_flags (\<lambda>f. f OR PF_MEMALLOC) s1"] n by simp_all
    show ?thesis
      unfolding alloc_pages_direct_compact_def using False ok
      by (auto simp: b n Let_def split: bool.split intro!: sure_bind [OF d] sure_bind [OF g] f simp: good_mem_ok)
  qed (simp add: alloc_pages_direct_compact_def assms(3))
qed

lemma reclaim_sure:
  assumes "env_ok env" "req_ok r" "mem_ok s" "allowed_flags (r_gfp r) fl"
  shows "sure (alloc_pages_direct_reclaim env r fl pref s) (\<lambda>(page, n, s). fine env r page s)"
proof -
  have g: "sure (get_page_from_freelist env r (r_gfp r) fl pref s) (\<lambda>(page, s). fine env r page s)" if "mem_ok s" for s
    by (rule get_page_sure [OF assms(2)]) (simp_all add: that assms(4))
  have d: "sure (map_option Inr (drain_all_pages s)) mem_ok" if "mem_ok s" for s :: "'a mem"
    using drain_ok [OF that] by (auto simp: sure_def)
  obtain n s1 where p: "perform_reclaim env r s = (n, s1)" by fastforce
  have "mem_ok (snd (try_to_free_pages env r (set_current_flags (\<lambda>f. f OR PF_MEMALLOC) s)))"
    using env_okD [OF assms(1)] assms(3) by simp
  then have "mem_ok s1" using p by (auto simp: perform_reclaim_def Let_def split: prod.splits)
  then show ?thesis
    unfolding alloc_pages_direct_reclaim_def p
    by (auto intro!: sure_bind [OF g] sure_bind [OF d] simp: good_mem_ok)
qed


text \<open>What one pass promises.\<close>

definition locals_ok :: "request \<Rightarrow> locals \<Rightarrow> bool" where
  "locals_ok r l \<longleftrightarrow> allowed_flags (r_gfp r) (l_flags l) \<and> ALLOC_CPUSET (l_flags l) = GFP_WAIT (r_gfp r)"

definition pass_ok :: "'e alloc_env \<Rightarrow> request \<Rightarrow> pass \<times> locals \<times> 'e mem \<Rightarrow> bool" where
  "pass_ok env r x \<longleftrightarrow> (case x of (p, l, s) \<Rightarrow> locals_ok r l \<and> fine env r (case p of Done page \<Rightarrow> page | _ \<Rightarrow> None) s)"

lemma slow_retry_sure:
  assumes "env_ok env" "req_ok r" "mem_ok s" "locals_ok r l"
  shows "sure (slow_retry env r n l s) (pass_ok env r)"
  unfolding slow_retry_def Let_def
  using env_okD [OF assms(1,3)] assms(4)
  by (auto simp: pass_ok_def locals_ok_def intro!: sure_bind [OF compact_sure [OF assms(1-3)]])

lemma slow_oom_sure:
  assumes "env_ok env" "req_ok r" "mem_ok s" "locals_ok r l"
  shows "sure (slow_oom env r l s) (pass_ok env r)"
  unfolding slow_oom_def Let_def
  using assms(3,4) by (auto simp: pass_ok_def dest: good_mem_ok intro!: sure_bind [OF may_oom_sure [OF assms(1-3)]])

lemma slow_reclaim_sure:
  assumes "env_ok env" "req_ok r" "mem_ok s" "locals_ok r l"
  shows "sure (slow_reclaim env r l s) (pass_ok env r)"
proof -
  have f: "allowed_flags (r_gfp r) (l_flags l)" using assms(4) by (simp add: locals_ok_def)
  have c: "sure (alloc_pages_direct_reclaim env r (l_flags l) pref s) (\<lambda>(page, n, s). fine env r page s)" if "mem_ok s" for s pref
    by (rule reclaim_sure [OF assms(1,2) that f])
  have upd: "locals_ok r (l\<lparr>deferred_compaction := d\<rparr>)" "locals_ok r (l\<lparr>deferred_compaction := d, sync_migration := b\<rparr>)" for d b
    using assms(4) by (simp_all add: locals_ok_def)
  have 1: "sure (if page \<noteq> None then ret (Done page, l', s)
      else if n = 0 \<and> GFP_FS (r_gfp r) \<and> \<not> GFP_NORETRY (r_gfp r) then slow_oom env r l' s
      else slow_retry env r n l' s) (pass_ok env r)" if "fine env r page s" "locals_ok r l'" for page n s l'
    using that slow_oom_sure [OF assms(1,2) good_mem_ok [OF that(1)] that(2)] slow_retry_sure [OF assms(1,2) good_mem_ok [OF that(1)] that(2)]
    by (auto simp: pass_ok_def)
  have 2: "sure (obind (alloc_pages_direct_reclaim env r (l_flags l) pref s) (\<lambda>(page, n, s).
      if page \<noteq> None then ret (Done page, l', s)
      else if n = 0 \<and> GFP_FS (r_gfp r) \<and> \<not> GFP_NORETRY (r_gfp r) then slow_oom env r l' s
      else slow_retry env r n l' s)) (pass_ok env r)" if "mem_ok s" "locals_ok r l'" for s l' pref
    by (rule sure_bind [OF c [OF that(1)]]) (clarify, rule 1 [OF _ that(2)])
  show ?thesis
    unfolding slow_reclaim_def Let_def
    by (rule sure_bind [OF compact_sure [OF assms(1-3) f]]) (use 2 in \<open>auto simp: upd pass_ok_def simp del: not_None_eq dest: good_mem_ok\<close>)
qed

lemma high_priority_flags: "allowed_flags g ((wmark_flags 0)\<lparr>ALLOC_NO_WATERMARKS := True, ALLOC_CPUSET := False\<rparr>) \<longleftrightarrow> \<not> GFP_NOMEMALLOC g"
  by (simp add: allowed_flags_def wmark_flags_def)

lemma high_priority_partial:
  assumes "alloc_pages_high_priority env r pref s = Some y" "env_ok env" "req_ok r" "\<not> GFP_NOMEMALLOC (r_gfp r)" "mem_ok s"
  shows "\<forall>page s'. y = Inr (page, s') \<longrightarrow> fine env r page s'"
  using assms(2-5)
proof (induction rule: alloc_pages_high_priority.raw_induct [OF _ assms(1)])
  case (1 f env r pref s y)
  let ?m = "get_page_from_freelist env r (r_gfp r) ((wmark_flags 0)\<lparr>ALLOC_NO_WATERMARKS := True, ALLOC_CPUSET := False\<rparr>) pref s"
  have g: "sure ?m (\<lambda>(page, s). fine env r page s)"
    using "1.prems" by (intro get_page_sure) (simp_all add: high_priority_flags)
  show ?case
  proof (cases ?m)
    case (Some x)
    show ?thesis
    proof (cases x)
      case (Inr q)
      obtain page s1 where q: "q = (page, s1)" by fastforce
      have p: "fine env r page s1" using g Some Inr q by (simp add: sure_def ensures_def)
      then have w: "mem_ok (wait_iff_congested env pref s1)" using env_okD [OF "1.prems"(1)] good_mem_ok by blast
      show ?thesis
        using "1.hyps" "1.IH" [OF _ "1.prems"(1-3) w, of pref y] Some Inr q p by (auto split: if_splits)
    qed (use "1.hyps" Some in auto)
  qed (use g in \<open>simp add: sure_def\<close>)
qed

lemma high_priority_sure:
  assumes "env_ok env" "req_ok r" "\<not> GFP_NOMEMALLOC (r_gfp r)" "mem_ok s" "\<not> GFP_NOFAIL (r_gfp r)"
  shows "sure (alloc_pages_high_priority env r pref s) (\<lambda>(page, s). fine env r page s)"
proof -
  have "sure (get_page_from_freelist env r (r_gfp r) ((wmark_flags 0)\<lparr>ALLOC_NO_WATERMARKS := True, ALLOC_CPUSET := False\<rparr>) pref s)
      (\<lambda>(page, s). fine env r page s)"
    using assms by (intro get_page_sure) (simp_all add: high_priority_flags)
  with assms(5) show ?thesis
    by (subst alloc_pages_high_priority.simps) (auto simp: sure_def ensures_def split: option.splits sum.splits)
qed

lemma allowed_flags_drop: "allowed_flags g fl \<Longrightarrow> ALLOC_CPUSET fl \<or> \<not> GFP_WAIT g \<Longrightarrow> allowed_flags g (fl\<lparr>ALLOC_NO_WATERMARKS := False\<rparr>)"
  by (auto simp: allowed_flags_def)


lemma slow_pass_start:
  assumes "env_ok env" "req_ok r" "mem_ok s" "locals_ok r l"
  shows "sure (get_page_from_freelist env r (r_gfp r) ((l_flags l)\<lparr>ALLOC_NO_WATERMARKS := False\<rparr>) (l_pref l) s) (\<lambda>(page, s). fine env r page s)"
  using assms(4) by (intro get_page_sure [OF assms(2,3)]) (simp_all add: locals_ok_def allowed_flags_drop)

text \<open>The part of a pass after the attempts without reclaim.\<close>

lemma slow_pass_rest:
  assumes "env_ok env" "req_ok r" "fine env r page s" "locals_ok r l"
  shows "sure (if page \<noteq> None then ret (Done page, l, s) else if \<not> GFP_WAIT (r_gfp r) then ret (Done None, l, s)
      else if memalloc s then ret (Done None, l, s) else if tif_memdie (current_task s) \<and> \<not> GFP_NOFAIL (r_gfp r) then ret (Done None, l, s)
      else slow_reclaim env r l s) (pass_ok env r)"
  using assms(3,4) slow_reclaim_sure [OF assms(1,2) good_mem_ok [OF assms(3)] assms(4)] good_mem_ok [OF assms(3)] by (auto simp: pass_ok_def)

lemma slow_pass_ensures:
  assumes "env_ok env" "req_ok r" "mem_ok s" "locals_ok r l"
  shows "ensures (slow_pass env r l s) (pass_ok env r)"
proof -
  have h: "ensures (alloc_pages_high_priority env r (l_pref l) s) (\<lambda>(page, s). fine env r page s)" if "mem_ok s" "ALLOC_NO_WATERMARKS (l_flags l)" for s
    using assms(4) that high_priority_partial [OF _ assms(1,2) _ that(1)] by (auto simp: ensures_def locals_ok_def allowed_flags_def)
  have e: "ensures (if ALLOC_NO_WATERMARKS (l_flags l) then alloc_pages_high_priority env r (l_pref l) s else ret (None, s)) (\<lambda>(page, s). fine env r page s)"
    if "mem_ok s" for s using h that by simp
  have "ensures (obind (if ALLOC_NO_WATERMARKS (l_flags l) then alloc_pages_high_priority env r (l_pref l) s else ret (None, s)) (\<lambda>(page, s).
      if page \<noteq> None then ret (Done page, l, s) else if \<not> GFP_WAIT (r_gfp r) then ret (Done None, l, s)
      else if memalloc s then ret (Done None, l, s) else if tif_memdie (current_task s) \<and> \<not> GFP_NOFAIL (r_gfp r) then ret (Done None, l, s)
      else slow_reclaim env r l s)) (pass_ok env r)" if "mem_ok s" for s
    unfolding ensures_bind
    by (rule ensures_weaken [OF e [OF that]]) (clarify, rule sure_ensures [OF slow_pass_rest [OF assms(1,2) _ assms(4)]])
  then show ?thesis
    unfolding slow_pass_def Let_def ensures_bind [of "get_page_from_freelist _ _ _ _ _ _"]
    by (intro ensures_weaken [OF sure_ensures [OF slow_pass_start [OF assms]]])
      (auto simp: pass_ok_def assms(4) simp del: not_None_eq ensures_bind dest: good_mem_ok)
qed

lemma slow_setup_ok:
  assumes "env_ok env" "mem_ok s" "slow_setup env r l s = (l', s')"
  shows "mem_ok s'" "locals_ok r l'" "pages_reclaimed l' = pages_reclaimed l"
proof -
  have k: "mem_ok (fold (\<lambda>zi. wakeup_kswapd env zi n cz) zs s)" if "mem_ok s" for zs n cz s
    using that by (induction zs arbitrary: s) (use env_okD [OF assms(1)] in auto)
  have "locals_ok r (l\<lparr>l_flags := gfp_to_alloc_flags env (r_gfp r) s1, l_pref := q\<rparr>)"
    "locals_ok r (l\<lparr>l_flags := gfp_to_alloc_flags env (r_gfp r) s1\<rparr>)" for s1 q
    using allowed_flags_simps(3) [of "r_gfp r" env s1] by (simp_all add: locals_ok_def gfp_to_alloc_flags_def)
  then show "mem_ok s'" "locals_ok r l'" "pages_reclaimed l' = pages_reclaimed l"
    using assms(2,3) k by (auto simp: slow_setup_def wake_all_kswapd_def Let_def split: if_splits)
qed

lemma slow_loop_partial:
  assumes "slow_loop env r l s = Some y" "env_ok env" "req_ok r" "mem_ok s" "locals_ok r l"
  shows "\<forall>page s'. y = Inr (page, s') \<longrightarrow> fine env r page s'"
  using assms(2-5)
proof (induction rule: slow_loop.raw_induct [OF _ assms(1)])
  case (1 f env r l s y)
  show ?case
  proof (cases "\<exists>x. slow_pass env r l s = Some (Inr x)")
    case True
    then obtain p l1 s1 where p: "slow_pass env r l s = Some (Inr (p, l1, s1))" by auto
    then have ok: "pass_ok env r (p, l1, s1)" using slow_pass_ensures [OF "1.prems"] by (simp add: ensures_def)
    show ?thesis
    proof (cases p)
      case (Done page)
      then show ?thesis using "1.hyps" ok p by (auto simp: pass_ok_def)
    next
      case Restart
      obtain l2 s2 where s2: "slow_setup env r l1 s1 = (l2, s2)" by fastforce
      have "mem_ok s1" using ok Restart by (simp add: pass_ok_def)
      note o = slow_setup_ok [OF "1.prems"(1) this s2]
      show ?thesis using "1.hyps" "1.IH" [OF _ "1.prems"(1,2) o(1,2)] p Restart s2 by simp
    next
      case Rebalance
      then have "mem_ok s1" "locals_ok r l1" using ok by (simp_all add: pass_ok_def)
      from "1.IH" [OF _ "1.prems"(1,2) this] show ?thesis using "1.hyps" p Rebalance by simp
    qed
  qed (use "1.hyps" in \<open>auto split: option.splits sum.splits\<close>)
qed

lemma slowpath_ensures:
  assumes "env_ok env" "req_ok r" "mem_ok s"
  shows "ensures (alloc_pages_slowpath env r pref s) (\<lambda>(page, s). fine env r page s)"
  unfolding alloc_pages_slowpath_def
  using slow_setup_ok [OF assms(1,3)] slow_loop_partial [OF _ assms(1,2)] assms(3)
  by (auto simp: ensures_def ret_def split: prod.splits)


lemma retry_cpuset_partial:
  assumes "alloc_retry_cpuset env r s = Some y" "env_ok env" "req_ok r" "mem_ok s"
  shows "\<forall>page s'. y = Inr (page, s') \<longrightarrow> fine env r page s'"
  using assms(2-4)
proof (induction rule: alloc_retry_cpuset.raw_induct [OF _ assms(1)])
  case (1 f env r s y)
  let ?fl = "(wmark_flags WMARK_LOW)\<lparr>ALLOC_CMA := allocflags_to_migratetype env (r_gfp r) = MIGRATE_MOVABLE\<rparr>"
  let ?m = "case first_zones_zonelist env r of None \<Rightarrow> ret (None, s)
        | Some pref \<Rightarrow> obind (get_page_from_freelist env r ((r_gfp r)\<lparr>GFP_HARDWALL := True\<rparr>) ?fl pref s) (\<lambda>(page, s).
            if page = None then alloc_pages_slowpath env r pref s else ret (page, s))"
  have "allowed_flags (r_gfp r) ?fl" by (simp add: WMARK_LOW_def WMARK_HIGH_def)
  then have g: "sure (get_page_from_freelist env r ((r_gfp r)\<lparr>GFP_HARDWALL := True\<rparr>) ?fl pref s) (\<lambda>(page, s). fine env r page s)" for pref
    by (intro get_page_sure "1.prems") auto
  have m: "ensures ?m (\<lambda>(page, s). fine env r page s)"
    using "1.prems"(3) slowpath_ensures [OF "1.prems"(1,2)]
    by (auto split: option.split intro!: ensures_weaken [OF sure_ensures [OF g]] dest: good_mem_ok)
  show ?case
  proof (cases "\<exists>x. ?m = Some (Inr x)")
    case True
    then obtain page s1 where p: "?m = Some (Inr (page, s1))" by fastforce
    then have ok: "fine env r page s1" using m unfolding ensures_def by blast
    note h = "1.hyps" [unfolded p Let_def option.case sum.case prod.case]
    show ?thesis using h ok "1.IH" [OF _ "1.prems"(1,2) good_mem_ok [OF ok]] by (auto split: if_splits)
  next
    case False
    then show ?thesis using "1.hyps" unfolding Let_def by (cases ?m) (auto split: option.splits sum.splits)
  qed
qed


section \<open>Termination of the slow path\<close>

text \<open>
  A request that may fail and need not retry: it cannot wait, forbids to retry, or is large and either did not ask to
  repeat or may call the out-of-memory killer.
\<close>

definition bounded_request :: "'e alloc_env \<Rightarrow> gfp_t \<Rightarrow> nat \<Rightarrow> bool" where
  "bounded_request env g order \<longleftrightarrow> \<not> GFP_NOFAIL g
     \<and> (\<not> GFP_WAIT g \<or> GFP_NORETRY g \<or> order > PAGE_ALLOC_COSTLY_ORDER env \<and> (\<not> GFP_REPEAT g \<or> GFP_FS g))"

definition pass_advances :: "request \<Rightarrow> locals \<Rightarrow> pass \<times> locals \<times> 'e mem \<Rightarrow> bool" where
  "pass_advances r l x \<longleftrightarrow> (case x of (p, l', s) \<Rightarrow> (\<exists>page. p = Done page)
     \<or> p = Rebalance \<and> pages_reclaimed l < pages_reclaimed l' \<and> pages_reclaimed l' < 2 ^ r_order r)"

lemma slow_oom_advances:
  "\<not> GFP_NOFAIL (r_gfp r) \<Longrightarrow> r_order r > PAGE_ALLOC_COSTLY_ORDER env \<Longrightarrow> ensures (slow_oom env r l s) (pass_advances r l0)"
  by (auto simp: slow_oom_def Let_def pass_advances_def simp del: ensures_bind intro!: ensures_then)

lemma slow_retry_advances:
  assumes "bounded_request env (r_gfp r) (r_order r)" "GFP_WAIT (r_gfp r)" "\<not> (n = 0 \<and> GFP_FS (r_gfp r) \<and> \<not> GFP_NORETRY (r_gfp r))"
    "pages_reclaimed l = pages_reclaimed l0"
  shows "ensures (slow_retry env r n l s) (pass_advances r l0)"
  using assms by (auto simp: slow_retry_def Let_def pass_advances_def should_alloc_retry_def bounded_request_def simp del: ensures_bind intro!: ensures_then split: if_splits)

lemma slow_pass_advances:
  assumes "bounded_request env (r_gfp r) (r_order r)"
  shows "ensures (slow_pass env r l s) (pass_advances r l)"
proof -
  have d: "pass_advances r l (Done page, l', s)" for page l' and s :: "'a mem" by (simp add: pass_advances_def)
  have o: "ensures (slow_oom env r l' s) (pass_advances r l)" if "GFP_WAIT (r_gfp r)" "\<not> GFP_NORETRY (r_gfp r)" for l' s
    using assms that by (intro slow_oom_advances) (auto simp: bounded_request_def)
  have "ensures (slow_reclaim env r l s) (pass_advances r l)" if "GFP_WAIT (r_gfp r)" for s
    unfolding slow_reclaim_def Let_def
    using that d by (auto simp del: ensures_bind intro!: ensures_then o slow_retry_advances [OF assms])
  then show ?thesis
    unfolding slow_pass_def Let_def using d by (auto simp del: ensures_bind intro!: ensures_then)
qed

lemma slow_pass_sure:
  assumes "env_ok env" "req_ok r" "mem_ok s" "locals_ok r l" "bounded_request env (r_gfp r) (r_order r)"
  shows "sure (slow_pass env r l s) (\<lambda>x. pass_ok env r x \<and> pass_advances r l x)"
proof -
  have h: "sure (if ALLOC_NO_WATERMARKS (l_flags l) then alloc_pages_high_priority env r (l_pref l) s else ret (None, s)) (\<lambda>(page, s). fine env r page s)"
    if "mem_ok s" for s
    using assms(4,5) that high_priority_sure [OF assms(1,2) _ that, of "l_pref l"] by (auto simp: locals_ok_def allowed_flags_def bounded_request_def)
  have 1: "sure (obind (if ALLOC_NO_WATERMARKS (l_flags l) then alloc_pages_high_priority env r (l_pref l) s else ret (None, s)) (\<lambda>(page, s).
      if page \<noteq> None then ret (Done page, l, s) else if \<not> GFP_WAIT (r_gfp r) then ret (Done None, l, s)
      else if memalloc s then ret (Done None, l, s) else if tif_memdie (current_task s) \<and> \<not> GFP_NOFAIL (r_gfp r) then ret (Done None, l, s)
      else slow_reclaim env r l s)) (pass_ok env r)" if "mem_ok s" for s
    by (rule sure_bind [OF h [OF that]]) (clarify, rule slow_pass_rest [OF assms(1,2) _ assms(4)])
  have "sure (slow_pass env r l s) (pass_ok env r)"
    unfolding slow_pass_def Let_def
    by (rule sure_bind [OF slow_pass_start [OF assms(1-4)]])
      (use 1 in \<open>auto simp: pass_ok_def assms(4) simp del: not_None_eq dest: good_mem_ok\<close>)
  then show ?thesis using ensures_conj [OF _ slow_pass_advances [OF assms(5)]] by (simp add: sure_def)
qed

lemma slow_loop_returns:
  assumes "env_ok env" "req_ok r" "mem_ok s" "locals_ok r l" "bounded_request env (r_gfp r) (r_order r)"
  shows "slow_loop env r l s \<noteq> None"
  using assms(3,4)
proof (induction "2 ^ r_order r - pages_reclaimed l" arbitrary: l s rule: less_induct)
  case less
  note p = slow_pass_sure [OF assms(1,2) less.prems assms(5)]
  then obtain x where x: "slow_pass env r l s = Some x" by (auto simp: sure_def)
  show ?case
  proof (cases x)
    case (Inr y)
    obtain q l1 s1 where y: "y = (q, l1, s1)" by (metis prod_cases3)
    have q: "pass_ok env r (q, l1, s1)" "pass_advances r l (q, l1, s1)" using p x Inr y by (simp_all add: sure_def ensures_def)
    show ?thesis
    proof (cases q)
      case (Done page)
      then show ?thesis using x Inr y by (subst slow_loop.simps) simp
    next
      case Rebalance
      have "slow_loop env r l1 s1 \<noteq> None"
        using q Rebalance by (intro less.hyps) (auto simp: pass_ok_def pass_advances_def)
      then show ?thesis using x Inr y Rebalance by (subst slow_loop.simps) simp
    qed (use q in \<open>auto simp: pass_advances_def\<close>)
  qed (subst slow_loop.simps, simp add: x)
qed

section \<open>Requests that do not fail\<close>

text \<open>A request that waits and retries can fail only in the situations listed here.\<close>

definition excused :: "'e alloc_env \<Rightarrow> request \<Rightarrow> 'e mem \<Rightarrow> bool" where
  "excused env r s \<longleftrightarrow> memalloc s
     \<or> \<not> GFP_NOFAIL (r_gfp r) \<and> tif_memdie (current_task s)
     \<or> GFP_FS (r_gfp r) \<and> (oom_killer_disabled env
         \<or> \<not> GFP_NOFAIL (r_gfp r) \<and> (t_flags (current_task s) AND PF_DUMPCORE \<noteq> 0 \<or> r_high r < ZONE_NORMAL env))"

definition persistent :: "'e alloc_env \<Rightarrow> request \<Rightarrow> bool" where
  "persistent env r \<longleftrightarrow> GFP_WAIT (r_gfp r) \<and> \<not> GFP_NORETRY (r_gfp r) \<and> \<not> GFP_NO_KSWAPD (r_gfp r)
     \<and> (GFP_NOFAIL (r_gfp r) \<or> r_order r \<le> PAGE_ALLOC_COSTLY_ORDER env \<and> (\<forall>s. \<not> pm_suspended_storage env s))"

lemma slow_pass_excused:
  assumes "persistent env r"
  shows "ensures (slow_pass env r l s) (\<lambda>(p, l', s'). p = Done None \<longrightarrow> excused env r s')"
proof -
  have r: "ensures (slow_retry env r n l s) (\<lambda>(p, l', s'). p = Done None \<longrightarrow> excused env r s')" for n l s
    using assms by (auto simp: slow_retry_def Let_def should_alloc_retry_def persistent_def simp del: ensures_bind intro!: ensures_then)
  have o: "ensures (slow_oom env r l s) (\<lambda>(p, l', s'). p = Done None \<longrightarrow> excused env r s')" if "GFP_FS (r_gfp r)" for l s
    using assms that by (auto simp: slow_oom_def Let_def excused_def persistent_def simp del: ensures_bind intro!: ensures_then)
  have "ensures (slow_reclaim env r l s) (\<lambda>(p, l', s'). p = Done None \<longrightarrow> excused env r s')" for l s
    using assms by (auto simp: slow_reclaim_def Let_def persistent_def simp del: ensures_bind intro!: ensures_then r o)
  then show ?thesis
    using assms by (auto simp: slow_pass_def Let_def persistent_def excused_def simp del: ensures_bind intro!: ensures_then)
qed

lemma slow_loop_excused:
  assumes "slow_loop env r l s = Some y" "persistent env r"
  shows "\<forall>s'. y = Inr (None, s') \<longrightarrow> excused env r s'"
  using assms(2)
proof (induction rule: slow_loop.raw_induct [OF _ assms(1)])
  case (1 f env r l s y)
  then show ?case using slow_pass_excused [OF "1.prems", of l s]
    by (auto simp: ensures_def split: option.splits sum.splits pass.splits prod.splits)
qed


section \<open>Properties of an allocation\<close>

lemma nodemask_split:
  assumes "alloc_pages_nodemask env g order zl nm s = Some (Inr (page, s'))"
  shows "\<exists>k. page = None \<and> s' = s\<lparr>kern := k\<rparr> \<or> alloc_retry_cpuset env \<lparr>r_gfp = gfp_and g (gfp_allowed_mask env), r_order = order,
      r_zonelist = zl, r_high = gfp_zone env g, r_nodemask = nm, r_mt = allocflags_to_migratetype env g\<rparr> (s\<lparr>kern := k\<rparr>) = Some (Inr (page, s'))"
  using assms by (auto simp: alloc_pages_nodemask_def obind_def ret_def Let_def split: sum.splits if_splits)



text \<open>
  C24. A request that can wait, does not forbid to retry and is small or marked \<open>__GFP_NOFAIL\<close> does not fail in the slow path, except
  in the situations that the code provides for: the task is itself reclaiming memory; it is being killed; or the request may enter file
  systems and the out-of-memory killer is switched off, the task dumps core or the request is for low memory. Of these only the first and the switched off killer concern
  \<open>__GFP_NOFAIL\<close>.
\<close>
theorem retrying_requests_do_not_fail:
  assumes "persistent env r" "r_order r < MAX_ORDER_NR env" "alloc_pages_slowpath env r pref s = Some (Inr (None, s'))"
  shows "excused env r s'"
  using assms(2,3) slow_loop_excused [OF _ assms(1)] by (fastforce simp: alloc_pages_slowpath_def Let_def split: prod.splits)

section \<open>A request that never comes back\<close>

text \<open>
  The situation of a request for which no zone has memory and reclaim finds nothing, from now on.
\<close>

definition starved :: "'e alloc_env \<Rightarrow> request \<Rightarrow> ('e mem \<Rightarrow> bool) \<Rightarrow> bool" where
  "starved env r I \<longleftrightarrow> (\<forall>s. I s \<longrightarrow>
     (\<forall>fl pref. get_page_from_freelist env r (r_gfp r) fl pref s = ret (None, s))
     \<and> \<not> memalloc s \<and> \<not> tif_memdie (current_task s) \<and> \<not> pm_suspended_storage env s
     \<and> (\<forall>fl pref sync d. \<exists>d' s'. alloc_pages_direct_compact env r fl pref sync d s = ret (None, d', s') \<and> I s')
     \<and> fst (perform_reclaim env r s) = 0 \<and> I (snd (perform_reclaim env r s))
     \<and> (\<forall>zi. I (wait_iff_congested env zi s)) \<and> (\<forall>zi n cz. I (wakeup_kswapd env zi n cz s)))"

lemma starved_pass:
  assumes "starved env r I" "I s" "GFP_WAIT (r_gfp r)" "GFP_REPEAT (r_gfp r)" "\<not> GFP_FS (r_gfp r)" "\<not> GFP_NORETRY (r_gfp r)"
    "\<not> GFP_NO_KSWAPD (r_gfp r)" "\<not> GFP_NOFAIL (r_gfp r)" "pages_reclaimed l < 2 ^ r_order r"
  shows "\<exists>l' s'. slow_pass env r l s = ret (Rebalance, l', s') \<and> I s' \<and> pages_reclaimed l' = pages_reclaimed l"
proof -
  have st: "get_page_from_freelist env r (r_gfp r) fl pref s = ret (None, s)" "\<not> memalloc s" "\<not> tif_memdie (current_task s)"
    "\<not> pm_suspended_storage env s" "fst (perform_reclaim env r s) = 0" "I (snd (perform_reclaim env r s))" "I (wait_iff_congested env zi s)"
    if "I s" for s fl pref zi
    using assms(1) [unfolded starved_def, THEN spec, THEN mp, OF that] by simp_all
  obtain d s1 where c: "alloc_pages_direct_compact env r (l_flags l) (l_pref l) (sync_migration l) (deferred_compaction l) s = ret (None, d, s1)" "I s1"
    using assms(1) [unfolded starved_def, THEN spec, THEN mp, OF assms(2)] by blast
  obtain n s2 where p: "perform_reclaim env r s1 = (n, s2)" by fastforce
  have i: "n = 0" "I s2" using st(5,6) [OF c(2)] p by simp_all
  have b: "obind (ret x) f = f x" for x :: 'x and f :: "'x \<Rightarrow> 'y outcome" by (simp add: obind_def ret_def)
  have h: "alloc_pages_high_priority env r (l_pref l) s = ret (None, s)"
    using st(1) [OF assms(2)] assms(8) by (subst alloc_pages_high_priority.simps) (simp add: ret_def)
  have "should_alloc_retry env (r_gfp r) (r_order r) 0 (pages_reclaimed l) s2"
    using assms st(4) [OF i(2)] by (auto simp: should_alloc_retry_def)
  then have "slow_pass env r l s = ret (Rebalance, l\<lparr>deferred_compaction := d, sync_migration := True\<rparr>, wait_iff_congested env (l_pref l) s2)"
    using assms(3-8) st [OF assms(2)] c(1) p i(1)
    by (simp add: slow_pass_def slow_reclaim_def slow_retry_def alloc_pages_direct_reclaim_def Let_def b h)
  then show ?thesis using st(7) [OF i(2), of "l_pref l"] 
    by (intro exI [of _ "l\<lparr>deferred_compaction := d, sync_migration := True\<rparr>"] exI [of _ "wait_iff_congested env (l_pref l) s2"]) simp
qed


lemma starved_loop:
  assumes "slow_loop env r l s = Some y" "starved env r I" "I s" "GFP_WAIT (r_gfp r)" "GFP_REPEAT (r_gfp r)" "\<not> GFP_FS (r_gfp r)"
    "\<not> GFP_NORETRY (r_gfp r)" "\<not> GFP_NO_KSWAPD (r_gfp r)" "\<not> GFP_NOFAIL (r_gfp r)" "pages_reclaimed l < 2 ^ r_order r"
  shows False
  using assms(2-)
proof (induction rule: slow_loop.raw_induct [OF _ assms(1)])
  case (1 f env r l s y)
  obtain l1 s1 where p: "slow_pass env r l s = ret (Rebalance, l1, s1)" "I s1" "pages_reclaimed l1 = pages_reclaimed l"
    using starved_pass [OF "1.prems"] by blast
  have "f env r l1 s1 = Some y" using "1.hyps" p(1) by (simp add: ret_def)
  from "1.IH" [OF this "1.prems"(1) p(2) "1.prems"(3-8)] "1.prems"(9) p(3) show ?case by simp
qed

text \<open>
  A request with \<open>__GFP_REPEAT\<close> that may not enter file systems never returns when there is nothing to reclaim: without progress
  it only gives up if it may call the out-of-memory killer. The comment in \<open>should_alloc_retry\<close> says that a large request of this
  kind is retried \<open>until we no longer reclaim any pages\<close>.
\<close>
theorem repeat_without_progress_never_returns:
  assumes "starved env r I" "I s" "GFP_WAIT (r_gfp r)" "GFP_REPEAT (r_gfp r)" "\<not> GFP_FS (r_gfp r)" "\<not> GFP_NORETRY (r_gfp r)"
    "\<not> GFP_NO_KSWAPD (r_gfp r)" "\<not> GFP_NOFAIL (r_gfp r)" "r_order r < MAX_ORDER_NR env"
  shows "alloc_pages_slowpath env r pref s = None"
proof -
  have w: "I (wakeup_kswapd env zi n cz s)" if "I s" for zi n cz s
    using assms(1) [unfolded starved_def, THEN spec, THEN mp, OF that] by blast
  have k: "I (fold (\<lambda>zi. wakeup_kswapd env zi n cz) zs s)" if "I s" for zs n cz s
    using that by (induction zs arbitrary: s) (simp_all add: w)
  obtain l1 s1 where u: "slow_setup env r \<lparr>l_flags = wmark_flags 0, l_pref = pref, pages_reclaimed = 0,
      sync_migration = False, deferred_compaction = False\<rparr> s = (l1, s1)" by fastforce
  then have "I s1" "pages_reclaimed l1 = 0"
    using k [OF assms(2)] assms(2) by (auto simp: slow_setup_def wake_all_kswapd_def Let_def split: if_splits)
  with starved_loop [OF _ assms(1) _ assms(3-8), of l1 s1] have "slow_loop env r l1 s1 = None"
    by (cases "slow_loop env r l1 s1") auto
  then show ?thesis using assms(9) u by (simp add: alloc_pages_slowpath_def)
qed

section \<open>Freeing by reference\<close>

lemma free_page_full:
  assumes "mem_ok s" "owned (pcps s zi) (buddy (mzones s zi)) p" "int (pcp_batch (pcps s zi)) \<le> max 1 (pcp_high (pcps s zi))"
    and g: "g \<longleftrightarrow> page_count (pages (buddy (mzones s zi)) p) = 1
      \<and> fst (free_pages_prepare p 0 (snd (TestClearPageMlocked p (snd (put_page_testzero p (buddy (mzones s zi)))))))"
  shows "\<exists>pcp' z'. free_pages_page (zi, p) 0 s = Some (put_zone zi pcp' z' s) \<and> pcp_inv pcp' z'
    \<and> avail pcp' z' = (if g then insert p (zavail s zi) else zavail s zi)
    \<and> apart p (buddy (mzones s zi)) z' \<and> pcp_batch pcp' = pcp_batch (pcps s zi) \<and> pcp_high pcp' = pcp_high (pcps s zi)"
proof -
  let ?z = "buddy (mzones s zi)" and ?pcp = "pcps s zi"
  define z where "z = upd_page p (\<lambda>g. g\<lparr>page_count := page_count g - 1\<rparr>) ?z"
  have i: "pcp_inv ?pcp ?z" using assms(1) by (simp add: mem_ok_def)
  have b: "buddy_inv ?z" "p \<notin> free_pages ?z" using i assms(2) by (auto simp: pcp_inv_def owned_def in_hand_0)
  have nb: "\<not> PageBuddy (pages ?z p)" using in_hand_not_buddy [OF b(1)] assms(2) by (auto simp: owned_def)
  have o: "only p ?z z" unfolding z_def using nb by (intro only_upd) auto
  note j = only_pcp_inv [OF o b(2) i]
  have ow: "owned ?pcp z p" using assms(2) j o by (simp add: owned_def only_def)
  have av: "avail ?pcp z = avail ?pcp ?z" using j by (simp add: avail_def)
  have t: "put_page_testzero p ?z = (page_count (pages ?z p) = 1, z)" by (auto simp: put_page_testzero_def z_def)
  obtain w z1 where t1: "TestClearPageMlocked p z = (w, z1)" by fastforce
  obtain c z2 where f: "free_pages_prepare p 0 z1 = (c, z2)" by fastforce
  have nb': "\<not> PageBuddy (pages z p)" using nb only_not_buddy [OF o] by simp
  have "only p z z2" using only_mlock [OF nb' t1] only_prepare [OF _ f] nb' only_not_buddy only_trans by metis
  then have o2: "only p ?z z2" using o only_trans by blast
  note i2 = only_pcp_inv [OF o2 b(2) i]
  consider "page_count (pages ?z p) \<noteq> 1" | "page_count (pages ?z p) = 1" "c" | "page_count (pages ?z p) = 1" "\<not> c" by blast
  then show ?thesis
  proof cases
    case 1
    then show ?thesis using t j av only_apart [OF o] g by (auto simp: free_pages_page_def)
  next
    case 2
    then obtain pcp' z' where h: "free_hot_cold_page p False ?pcp z = Some (pcp', z')" "pcp_inv pcp' z'"
      "avail pcp' z' = insert p (avail ?pcp ?z)" "apart p z z'" "pcp_batch pcp' = pcp_batch ?pcp" "pcp_high pcp' = pcp_high ?pcp"
      using free_hot_cold_good [OF conjunct1 [OF j] ow assms(3) t1, of z2 False] f av by auto
    then have "apart p ?z z'" using apart_trans only_apart [OF o] by blast
    then show ?thesis using 2 h t t1 f g by (auto simp: free_pages_page_def)
  next
    case 3
    then have "free_hot_cold_page p False ?pcp z = Some (?pcp, z2)" using f t1 by (simp add: free_hot_cold_page_def)
    moreover have "avail ?pcp z2 = avail ?pcp ?z" using i2 by (simp add: avail_def)
    ultimately show ?thesis using 3 t t1 f g i2 only_apart [OF o2] by (auto simp: free_pages_page_def)
  qed
qed

text \<open>
  Dropping a reference to a single page gives the page back to the free lists exactly when it was the last one and the page
  passes the checks; no other page becomes available, and the lists stay well-formed.
\<close>
theorem free_page_last_reference:
  assumes "mem_ok s" "owned (pcps s zi) (buddy (mzones s zi)) p" "int (pcp_batch (pcps s zi)) \<le> max 1 (pcp_high (pcps s zi))"
  shows "\<exists>s'. free_pages_page (zi, p) 0 s = Some s' \<and> mem_ok s'
    \<and> zavail s' zi = (if page_count (pages (buddy (mzones s zi)) p) = 1
          \<and> fst (free_pages_prepare p 0 (snd (TestClearPageMlocked p (snd (put_page_testzero p (buddy (mzones s zi)))))))
        then insert p (zavail s zi) else zavail s zi)
    \<and> (\<forall>zj. zj \<noteq> zi \<longrightarrow> mzones s' zj = mzones s zj \<and> pcps s' zj = pcps s zj)"
proof -
  obtain pcp' z' where f: "free_pages_page (zi, p) 0 s = Some (put_zone zi pcp' z' s)" "pcp_inv pcp' z'"
    "avail pcp' z' = (if page_count (pages (buddy (mzones s zi)) p) = 1
          \<and> fst (free_pages_prepare p 0 (snd (TestClearPageMlocked p (snd (put_page_testzero p (buddy (mzones s zi)))))))
        then insert p (zavail s zi) else zavail s zi)"
    using free_page_full [OF assms refl] by blast
  then show ?thesis using mem_ok_put_zone [OF assms(1) f(2)] by (intro exI [of _ "put_zone zi pcp' z' s"]) (simp add: put_zone_def)
qed

section \<open>Witnesses\<close>

definition zone8 :: zone where "zone8 = zone1\<lparr>NR_FREE_PAGES := 8\<rparr>"

lemma zone8_inv: "pcp_inv pcp0 zone8"
  by (rule within_pcp_inv [OF pcp0_inv, of "{}"]) (simp_all add: within_def zone8_def lists_same_def same_zone_def)

definition alloc_env0 :: "unit alloc_env" where
  "alloc_env0 = \<lparr>oom = env_example, zonerefs = (\<lambda>_. [1, 0]), gfp_zone = (\<lambda>_. 0), gfp_bits = (\<lambda>_. 0),
     allocflags_to_migratetype = (\<lambda>_. MIGRATE_MOVABLE),
     gfp_allowed_mask = \<lparr>GFP_ZERO = True, GFP_COMP = True, GFP_COLD = True, GFP_CMA = True, GFP_WAIT = True, GFP_HIGH = True,
       GFP_FS = True, GFP_REPEAT = True, GFP_NOFAIL = True, GFP_NORETRY = True, GFP_NOMEMALLOC = True, GFP_HARDWALL = True,
       GFP_THISNODE = True, GFP_NO_KSWAPD = True, GFP_WRITE = True, gfp_other = 0\<rparr>,
     order_shift = 1, MAX_ORDER_NR = 11, PAGE_ALLOC_COSTLY_ORDER = 3, ZONE_NORMAL = 0, COMPACT_SKIPPED = 0, oom_killer_disabled = False,
     rt_task_current = (\<lambda>_. False), in_interrupt = (\<lambda>_. False), zone_dirty_ok = (\<lambda>_ _. True), pm_suspended_storage = (\<lambda>_. False),
     compaction_deferred = (\<lambda>_ _ s. (True, s)), try_to_compact_pages = (\<lambda>_ _ s. (0, s)), defer_compaction = (\<lambda>_ _ s. s),
     try_to_free_pages = (\<lambda>_ s. (0, s)), wait_iff_congested = (\<lambda>_ s. s), schedule_timeout_uninterruptible = (\<lambda>s. s),
     wakeup_kswapd = (\<lambda>_ _ _ s. s), get_mems_allowed = (\<lambda>_. 0), put_mems_allowed = (\<lambda>_ _. True), node_zonelist = 0,
     page_address = (\<lambda>(zi, p). of_nat p * PAGE_SIZE), virt_to_page = (\<lambda>a. (0, unat a div 4096)), get_order = (\<lambda>_. 0)\<rparr>"

definition gfp_repeat :: gfp_t where
  "gfp_repeat = \<lparr>GFP_ZERO = False, GFP_COMP = False, GFP_COLD = False, GFP_CMA = False, GFP_WAIT = True, GFP_HIGH = False,
       GFP_FS = False, GFP_REPEAT = True, GFP_NOFAIL = False, GFP_NORETRY = False, GFP_NOMEMALLOC = False, GFP_HARDWALL = False,
       GFP_THISNODE = False, GFP_NO_KSWAPD = False, GFP_WRITE = False, gfp_other = 0\<rparr>"

definition mem_with :: "zone \<Rightarrow> unit mem" where
  "mem_with z = \<lparr>mzones = (\<lambda>_. wzone1\<lparr>buddy := z\<rparr>), pcps = (\<lambda>_. pcp0), kern = oomk_example, compact_considered = (\<lambda>_. 0),
     compact_defer_shift = (\<lambda>_. 0), compact_order_failed = (\<lambda>_. 0), ext = ()\<rparr>"

lemma alloc_env0_ok: "env_ok alloc_env0"
  by (simp add: env_ok_def alloc_env0_def MIGRATE_PCPTYPES_def)

lemma mem8_ok: "mem_ok (mem_with zone8)"
  using zone8_inv by (simp add: mem_ok_def mem_with_def)

lemma outcome_fst: "map_option (map_sum id fst) m = Some (Inr x) \<Longrightarrow> \<exists>s. m = Some (Inr (x, s))"
  by (cases m; cases "the m") auto

lemma mem8_alloc: "map_option (map_sum id fst) (alloc_pages_nodemask alloc_env0 gfp_repeat 1 0 None (mem_with zone8)) = Some (Inr (Some (0, 8)))"
  by code_simp



definition req_of :: "gfp_t \<Rightarrow> nat \<Rightarrow> request" where
  "req_of g n = \<lparr>r_gfp = g, r_order = n, r_zonelist = 0, r_high = 0, r_nodemask = None, r_mt = MIGRATE_MOVABLE\<rparr>"

definition kern_memalloc :: oomk where
  "kern_memalloc = oomk_example\<lparr>tasks := (\<lambda>_. task_example\<lparr>t_flags := PF_MEMALLOC\<rparr>)\<rparr>"

lemma memalloc_fails:
  "map_option (map_sum id fst) (alloc_pages_slowpath alloc_env0 (req_of (gfp_repeat\<lparr>GFP_NOMEMALLOC := True\<rparr>) 0) 0 ((mem_with zone0)\<lparr>kern := kern_memalloc\<rparr>))
    = Some (Inr None)"
  by code_simp

theorem retrying_requests_do_not_fail_witness:
  "\<exists>s'. alloc_pages_slowpath alloc_env0 (req_of (gfp_repeat\<lparr>GFP_NOMEMALLOC := True\<rparr>) 0) 0 ((mem_with zone0)\<lparr>kern := kern_memalloc\<rparr>) = Some (Inr (None, s'))
    \<and> excused alloc_env0 (req_of (gfp_repeat\<lparr>GFP_NOMEMALLOC := True\<rparr>) 0) s'"
proof -
  let ?r = "req_of (gfp_repeat\<lparr>GFP_NOMEMALLOC := True\<rparr>) 0"
  have p: "persistent alloc_env0 ?r" "r_order ?r < MAX_ORDER_NR alloc_env0"
    by (simp_all add: persistent_def req_of_def gfp_repeat_def alloc_env0_def)
  obtain s' where a: "alloc_pages_slowpath alloc_env0 ?r 0 ((mem_with zone0)\<lparr>kern := kern_memalloc\<rparr>) = Some (Inr (None, s'))"
    using outcome_fst [OF memalloc_fails] by blast
  from retrying_requests_do_not_fail [OF p a] a show ?thesis by blast
qed

theorem free_page_last_reference_witness:
  "\<exists>s'. free_pages_page (0, 3) 0 (mem_with (upd_page 3 (\<lambda>g. g\<lparr>page_count := 1\<rparr>) zone1)) = Some s' \<and> mem_ok s' \<and> 3 \<in> zavail s' 0"
proof -
  let ?z = "upd_page 3 (\<lambda>g. g\<lparr>page_count := 1\<rparr>) zone1" and ?s = "mem_with (upd_page 3 (\<lambda>g. g\<lparr>page_count := 1\<rparr>) zone1)"
  have b: "buddy_inv zone1" "3 \<notin> free_pages zone1" using owned3 zone1_facts(1) by (auto simp: owned_def in_hand_0)
  have nb: "\<not> PageBuddy (pages zone1 3)" using in_hand_not_buddy [OF b(1)] owned3 by (auto simp: owned_def)
  have o: "only 3 zone1 ?z" using nb by (intro only_upd) auto
  note j = only_pcp_inv [OF o b(2) pcp0_inv]
  have "mem_ok ?s" "owned (pcps ?s 0) (buddy (mzones ?s 0)) 3" "int (pcp_batch (pcps ?s 0)) \<le> max 1 (pcp_high (pcps ?s 0))"
    using j owned3 o by (simp_all add: mem_ok_def mem_with_def owned_def only_def pcp0_def)
  note f = free_page_last_reference [OF this]
  have c: "page_count (pages (buddy (mzones ?s 0)) 3) = 1" by (simp add: mem_with_def upd_page_def)
  have "fst (free_pages_prepare 3 0 (snd (TestClearPageMlocked 3 (snd (put_page_testzero 3 (buddy (mzones ?s 0)))))))" by code_simp
  with f c show ?thesis by auto
qed


lemma zone0_rmqueue: "buffered_rmqueue 5 g MIGRATE_MOVABLE pcp zone0 = Some (None, pcp, zone0)"
proof -
  have m: "MAX_ORDER zone0 = Suc 3" by (simp add: zone0_def)
  have "rmqueue_smallest 5 mt zone0 = (None, zone0)" for mt
    by (simp add: rmqueue_smallest_def) (subst rmqueue_smallest_from.simps, simp add: m)
  moreover have "rmqueue_fallback 5 mt zone0 = (None, zone0)" for mt
    unfolding rmqueue_fallback_def m rmqueue_fallback_from.simps by simp
  ultimately have "rmqueue 5 MIGRATE_MOVABLE zone0 = (None, zone0)" "rmqueue_cma 5 MIGRATE_MOVABLE zone0 = (None, zone0)"
    by (simp_all add: rmqueue_def rmqueue_cma_def)
  then show ?thesis by (subst buffered_rmqueue.simps) (simp add: rmqueue_buddy_def)
qed

lemma mem0_scan: "get_page_from_freelist alloc_env0 (req_of g 5) h fl pref (mem_with zone0) = ret (None, mem_with zone0)"
proof -
  have "put_zone 0 (pcps (mem_with zone0) 0) zone0 (mem_with zone0) = mem_with zone0"
    by (simp add: put_zone_def mem_with_def fun_upd_idem)
  moreover have "buddy (mzones (mem_with zone0) 0) = zone0" by (simp add: mem_with_def)
  moreover have "zones_below alloc_env0 (req_of g 5) = [0]" by (simp add: zones_below_def alloc_env0_def req_of_def)
  ultimately show ?thesis by (simp add: get_page_from_freelist_def ret_def req_of_def zone0_rmqueue)
qed

lemma mem0_reclaim: "perform_reclaim alloc_env0 r (mem_with zone0) = (0, mem_with zone0)"
  by (simp add: perform_reclaim_def alloc_env0_def set_current_flags_def Oom_State.upd_task_def mem_with_def oomk_example_def task_example_def
      PF_MEMALLOC_def fun_upd_idem)

theorem repeat_without_progress_never_returns_witness:
  "alloc_pages_slowpath alloc_env0 (req_of gfp_repeat 5) 0 (mem_with zone0) = None"
proof (rule repeat_without_progress_never_returns [where I = "\<lambda>s. s = mem_with zone0"])
  have "alloc_pages_direct_compact alloc_env0 (req_of gfp_repeat 5) fl pref sync d (mem_with zone0) = ret (None, True, mem_with zone0)" for fl pref sync d
    by (simp add: alloc_pages_direct_compact_def alloc_env0_def req_of_def)
  moreover have "wait_iff_congested alloc_env0 zi s = s" "wakeup_kswapd alloc_env0 zi n cz s = s" for zi n cz s
    by (simp_all add: alloc_env0_def)
  moreover have "\<not> memalloc (mem_with zone0)" "\<not> tif_memdie (current_task (mem_with zone0))" "\<not> pm_suspended_storage alloc_env0 (mem_with zone0)"
    by (simp_all add: memalloc_def current_task_def alloc_env0_def mem_with_def oomk_example_def task_example_def)
  ultimately show "starved alloc_env0 (req_of gfp_repeat 5) (\<lambda>s. s = mem_with zone0)"
    by (auto simp: starved_def mem0_scan mem0_reclaim)
qed (simp_all add: req_of_def gfp_repeat_def alloc_env0_def)

end
