(* ===== verification/Alloc_Exact.thy ===== *)
theory Alloc_Exact
  imports Alloc_Path
begin

text \<open>
  Allocations of an exact number of pages (\<open>hw5/mm/page_alloc.c\<close>): a block of a power of two is split into single pages and
  the pages beyond the requested size go back at once. Addresses are machine words; the linear map between them and pages is
  an argument, as it belongs to the architecture.
\<close>

section \<open>Exact sizes\<close>

definition PAGE_ALIGN :: "ulong \<Rightarrow> ulong" where
  "PAGE_ALIGN x = (x + (PAGE_SIZE - 1)) AND NOT (PAGE_SIZE - 1)"

partial_function (option) free_range :: "'e alloc_env \<Rightarrow> ulong \<Rightarrow> ulong \<Rightarrow> 'e mem \<Rightarrow> 'e mem option" where
  [code]: "free_range env used finish s =
    (if used < finish
     then case free_pages_addr env used 0 s of None \<Rightarrow> None | Some s \<Rightarrow> free_range env (used + PAGE_SIZE) finish s
     else Some s)"

definition make_alloc_exact :: "'e alloc_env \<Rightarrow> ulong \<Rightarrow> nat \<Rightarrow> ulong \<Rightarrow> 'e mem \<Rightarrow> (ulong \<times> 'e mem) option" where
  "make_alloc_exact env adr order sz s =
    (if adr \<noteq> 0 then
       let alloc_end = adr + push_bit order PAGE_SIZE; used = adr + PAGE_ALIGN sz;
           (zi, p) = virt_to_page env adr;
           s = put_zone zi (pcps s zi) (split_page p order (buddy (mzones s zi))) s
       in map_option (\<lambda>s. (adr, s)) (free_range env used alloc_end s)
     else Some (adr, s))"

definition alloc_pages_exact :: "'e alloc_env \<Rightarrow> ulong \<Rightarrow> gfp_t \<Rightarrow> 'e mem \<Rightarrow> (ulong \<times> 'e mem) outcome" where
  "alloc_pages_exact env sz gfp_mask s =
    obind (get_free_pages env gfp_mask (get_order env sz) s) (\<lambda>(adr, s).
    map_option Inr (make_alloc_exact env adr (get_order env sz) sz s))"

definition free_pages_exact :: "'e alloc_env \<Rightarrow> ulong \<Rightarrow> ulong \<Rightarrow> 'e mem \<Rightarrow> 'e mem option" where
  "free_pages_exact env virt sz s = free_range env virt (virt + PAGE_ALIGN sz) s"

section \<open>Pages that can be given back\<close>

definition freeable :: "zone \<Rightarrow> nat \<Rightarrow> bool" where
  "freeable z p \<longleftrightarrow> page_count (pages z p) = 1
     \<and> fst (free_pages_prepare p 0 (snd (TestClearPageMlocked p (snd (put_page_testzero p z)))))"

text \<open>A page as it comes from the allocator, apart from its reference count.\<close>

definition reusable :: "zone \<Rightarrow> nat \<Rightarrow> bool" where
  "reusable z p \<longleftrightarrow> page_mapcount (pages z p) = 0 \<and> (page_mapping (pages z p) = 0 \<or> odd (page_mapping (pages z p)))
     \<and> unset_bit (PG_mlocked z) (page_flags (pages z p)) AND PAGE_FLAGS_CHECK_AT_FREE z = 0 \<and> \<not> mem_cgroup_bad_page_check z p"

lemma freeable_iff: "freeable z p \<longleftrightarrow> page_count (pages z p) = 1 \<and> reusable z p"
  by (auto simp: freeable_def reusable_def free_pages_prepare_def free_pages_check_def TestClearPageMlocked_def put_page_testzero_def
      upd_page_def PageAnon_def Let_def)

lemma reusable_cong: "same_zone z z' \<Longrightarrow> strip (pages z' p) = strip (pages z p) \<Longrightarrow> reusable z' p = reusable z p"
  using strip_fields [of "pages z' p" "pages z p"] by (simp add: reusable_def same_zone_def)

lemma freeable_cong: "same_zone z z' \<Longrightarrow> strip (pages z' p) = strip (pages z p) \<Longrightarrow> freeable z' p = freeable z p"
  using strip_fields [of "pages z' p" "pages z p"] reusable_cong by (simp add: freeable_iff)

lemma owned_iff: "owned pcp z p \<longleftrightarrow> 0 < MAX_ORDER z \<and> pfn_valid_within z p \<and> p \<notin> avail pcp z \<and> \<not> PageHead (pages z p) \<and> \<not> PageTail (pages z p)"
  by (auto simp: owned_def in_hand_0 avail_def)

lemma owned_cong:
  assumes "same_zone z z'" "strip (pages z' p) = strip (pages z p)" "p \<in> avail pcp' z' \<longleftrightarrow> p \<in> avail pcp z"
  shows "owned pcp' z' p = owned pcp z p"
  using strip_fields [OF assms(2)] assms(1,3) by (simp add: owned_iff same_zone_def)


section \<open>Giving back a range of pages\<close>

text \<open>The pages of a range are mapped one after the other, and the range does not wrap around.\<close>

definition mapped_range :: "'e alloc_env \<Rightarrow> ulong \<Rightarrow> nat \<Rightarrow> nat \<Rightarrow> nat \<Rightarrow> bool" where
  "mapped_range env a zi p n \<longleftrightarrow> a \<noteq> 0 \<and> unat a + n * 4096 < 2 ^ 32
     \<and> (\<forall>i<n. virt_to_page env (a + of_nat i * PAGE_SIZE) = (zi, p + i))"

lemma unat_plus_pages: "unat a + n * 4096 < 2 ^ 32 \<Longrightarrow> unat (a + of_nat n * PAGE_SIZE) = unat (a :: ulong) + n * 4096"
proof -
  assume l: "unat a + n * 4096 < 2 ^ 32"
  have "of_nat n * PAGE_SIZE = (of_nat (n * 4096) :: ulong)" by (simp add: PAGE_SIZE_def)
  moreover have "unat (of_nat (n * 4096) :: ulong) = n * 4096" unfolding unat_of_nat using l by simp
  ultimately show ?thesis using l by (simp add: unat_add_lem [THEN iffD1])
qed

lemma mapped_range_drop:
  assumes "mapped_range env a zi p n" "m \<le> n"
  shows "mapped_range env (a + of_nat m * PAGE_SIZE) zi (p + m) (n - m)"
proof -
  have l: "unat a + m * 4096 < 2 ^ 32" "unat a + n * 4096 < 2 ^ 32" "a \<noteq> 0" using assms by (auto simp: mapped_range_def)
  then have u: "unat (a + of_nat m * PAGE_SIZE) = unat a + m * 4096" using unat_plus_pages by blast
  have "unat a > 0" using l(3) by (simp add: unat_gt_0)
  then have "a + of_nat m * PAGE_SIZE \<noteq> 0" using u by auto
  moreover have "virt_to_page env (a + of_nat m * PAGE_SIZE + of_nat i * PAGE_SIZE) = (zi, p + m + i)" if "i < n - m" for i
  proof -
    have "a + of_nat m * PAGE_SIZE + of_nat i * PAGE_SIZE = a + of_nat (m + i) * PAGE_SIZE" by (simp add: algebra_simps)
    moreover have "virt_to_page env (a + of_nat (m + i) * PAGE_SIZE) = (zi, p + (m + i))"
      using assms that unfolding mapped_range_def by (metis add.commute less_diff_conv)
    ultimately show ?thesis by (simp only: add.assoc)
  qed
  ultimately show ?thesis using u l assms(2) by (simp add: mapped_range_def)
qed

text \<open>The state differs in one zone only, there only in the given pages, and these are available in addition.\<close>

definition gave_back :: "nat \<Rightarrow> nat set \<Rightarrow> 'e mem \<Rightarrow> 'e mem \<Rightarrow> bool" where
  "gave_back zi P s s' \<longleftrightarrow> mem_ok s' \<and> zavail s' zi = zavail s zi \<union> P
     \<and> same_zone (buddy (mzones s zi)) (buddy (mzones s' zi))
     \<and> (\<forall>q. q \<notin> P \<longrightarrow> strip (pages (buddy (mzones s' zi)) q) = strip (pages (buddy (mzones s zi)) q))
     \<and> pcp_batch (pcps s' zi) = pcp_batch (pcps s zi) \<and> pcp_high (pcps s' zi) = pcp_high (pcps s zi)
     \<and> (\<forall>zj. zj \<noteq> zi \<longrightarrow> mzones s' zj = mzones s zj \<and> pcps s' zj = pcps s zj)"

lemma gave_back_trans: "gave_back zi P a b \<Longrightarrow> gave_back zi Q b c \<Longrightarrow> gave_back zi (P \<union> Q) a c"
  by (auto simp: gave_back_def intro: same_zone_trans)

definition ready :: "'e mem \<Rightarrow> nat \<Rightarrow> nat \<Rightarrow> bool" where
  "ready s zi q \<longleftrightarrow> owned (pcps s zi) (buddy (mzones s zi)) q \<and> freeable (buddy (mzones s zi)) q"

lemma ready_cong: "gave_back zi P s s' \<Longrightarrow> q \<notin> P \<Longrightarrow> ready s' zi q = ready s zi q"
  using owned_cong [of "buddy (mzones s zi)" "buddy (mzones s' zi)" q "pcps s' zi" "pcps s zi"]
    freeable_cong [of "buddy (mzones s zi)" "buddy (mzones s' zi)" q]
  by (auto simp: ready_def gave_back_def)

lemma free_page_ready:
  assumes "mem_ok s" "ready s zi p" "int (pcp_batch (pcps s zi)) \<le> max 1 (pcp_high (pcps s zi))"
  shows "\<exists>s'. free_pages_page (zi, p) 0 s = Some s' \<and> gave_back zi {p} s s'"
proof -
  have o: "owned (pcps s zi) (buddy (mzones s zi)) p" and f: "freeable (buddy (mzones s zi)) p" using assms(2) by (auto simp: ready_def)
  obtain pcp z where r: "free_pages_page (zi, p) 0 s = Some (put_zone zi pcp z s)" "pcp_inv pcp z" "avail pcp z = insert p (zavail s zi)"
    "apart p (buddy (mzones s zi)) z" "pcp_batch pcp = pcp_batch (pcps s zi)" "pcp_high pcp = pcp_high (pcps s zi)"
    using free_page_full [OF assms(1) o assms(3) refl] f by (auto simp: freeable_def)
  then have "gave_back zi {p} s (put_zone zi pcp z s)"
    using mem_ok_put_zone [OF assms(1) r(2)] by (auto simp: gave_back_def put_zone_def apart_def)
  with r(1) show ?thesis by blast
qed

lemma free_range_gives_back:
  assumes "mem_ok s" "int (pcp_batch (pcps s zi)) \<le> max 1 (pcp_high (pcps s zi))" "mapped_range env a zi p n"
    and "\<And>q. p \<le> q \<Longrightarrow> q < p + n \<Longrightarrow> ready s zi q"
  shows "\<exists>s'. free_range env a (a + of_nat n * PAGE_SIZE) s = Some s' \<and> gave_back zi {p..<p + n} s s'"
  using assms
proof (induction n arbitrary: a p s)
  case 0
  then show ?case by (subst free_range.simps) (auto simp: gave_back_def same_zone_def)
next
  case (Suc n)
  have l: "unat a + Suc n * 4096 < 2 ^ 32" "a \<noteq> 0" using Suc.prems(3) by (auto simp: mapped_range_def)
  have lt: "a < a + of_nat (Suc n) * PAGE_SIZE" using unat_plus_pages [OF l(1)] by (simp add: word_less_nat_alt del: of_nat_Suc)
  have v: "virt_to_page env a = (zi, p)" using Suc.prems(3) by (auto simp: mapped_range_def dest: spec [where x = 0])
  obtain s1 where s1: "free_pages_page (zi, p) 0 s = Some s1" "gave_back zi {p} s s1"
    using free_page_ready [OF Suc.prems(1) _ Suc.prems(2), of p] Suc.prems(4) by auto
  have b: "mem_ok s1" "int (pcp_batch (pcps s1 zi)) \<le> max 1 (pcp_high (pcps s1 zi))" using s1(2) Suc.prems(2) by (auto simp: gave_back_def)
  have m: "mapped_range env (a + PAGE_SIZE) zi (Suc p) n" using mapped_range_drop [OF Suc.prems(3), of 1] by simp
  have r: "ready s1 zi q" if "Suc p \<le> q" "q < Suc p + n" for q
    using ready_cong [OF s1(2), of q] Suc.prems(4) [of q] that by auto
  from Suc.IH [OF b m r] obtain s2 where s2: "free_range env (a + PAGE_SIZE) (a + PAGE_SIZE + of_nat n * PAGE_SIZE) s1 = Some s2"
    "gave_back zi {Suc p..<Suc p + n} s1 s2" by blast
  have e: "a + PAGE_SIZE + of_nat n * PAGE_SIZE = a + of_nat (Suc n) * PAGE_SIZE" by (simp add: algebra_simps)
  have "free_range env a (a + of_nat (Suc n) * PAGE_SIZE) s = Some s2"
    using s1(1) s2(1) lt v l(2) unfolding e by (subst free_range.simps) (simp add: free_pages_addr_def)
  moreover have "{p} \<union> {Suc p..<Suc p + n} = {p..<p + Suc n}" by auto
  ultimately show ?case using gave_back_trans [OF s1(2) s2(2)] by auto
qed

section \<open>Sizes in pages\<close>

definition pages_of :: "ulong \<Rightarrow> nat" where
  "pages_of sz = (unat sz + 4095) div 4096"

lemma PAGE_ALIGN_pages: "unat sz + 4095 < 2 ^ 32 \<Longrightarrow> PAGE_ALIGN sz = of_nat (pages_of sz) * PAGE_SIZE"
proof -
  assume l: "unat sz + 4095 < 2 ^ 32"
  let ?x = "sz + 4095 :: ulong"
  have u: "unat ?x = unat sz + 4095" using l by (subst unat_add_lem [THEN iffD1]) simp_all
  have "PAGE_ALIGN sz = ?x AND NOT (mask 12)" by (simp add: PAGE_ALIGN_def PAGE_SIZE_def mask_eq_exp_minus_1)
  also have "\<dots> = ?x - take_bit 12 ?x"
    by (subst disjunctive_diff_eq_and_not) (auto simp: bit_eq_iff bit_simps)
  finally have e: "PAGE_ALIGN sz = ?x - take_bit 12 ?x" .
  have t: "unat (take_bit 12 ?x) = unat ?x mod 4096" unfolding unsigned_take_bit_eq by (simp add: take_bit_eq_mod)
  have "take_bit 12 ?x \<le> ?x" unfolding word_le_nat_alt t by simp
  then have "unat (PAGE_ALIGN sz) = unat ?x - unat ?x mod 4096" unfolding e t [symmetric] by (rule unat_sub)
  also have "\<dots> = pages_of sz * 4096" unfolding u pages_of_def by (metis minus_mod_eq_div_mult)
  finally have "PAGE_ALIGN sz = of_nat (pages_of sz * 4096)" by (metis of_nat_unat ucast_id)
  then show ?thesis by (simp add: PAGE_SIZE_def)
qed


section \<open>Exact allocations\<close>

text \<open>A block as it comes from the allocator: the first page holds the only reference.\<close>

definition fresh_block :: "'e mem \<Rightarrow> nat \<Rightarrow> nat \<Rightarrow> nat \<Rightarrow> bool" where
  "fresh_block s zi p order \<longleftrightarrow> page_count (pages (buddy (mzones s zi)) p) = 1
     \<and> (\<forall>q \<in> span p order. owned (pcps s zi) (buddy (mzones s zi)) q \<and> reusable (buddy (mzones s zi)) q)"

lemma split_page_fresh:
  assumes "mem_ok s" "fresh_block s zi p order" and s': "s' = put_zone zi (pcps s zi) (split_page p order (buddy (mzones s zi))) s"
  shows "mem_ok s'" "zavail s' zi = zavail s zi" "pcps s' = pcps s" "\<And>q. q \<in> span p order \<Longrightarrow> ready s' zi q"
    "\<And>zj. zj \<noteq> zi \<Longrightarrow> mzones s' zj = mzones s zj"
proof -
  let ?z = "buddy (mzones s zi)"
  define z where "z = split_page p order ?z"
  have i: "pcp_inv (pcps s zi) ?z" using assms(1) by (simp add: mem_ok_def)
  have own: "owned (pcps s zi) ?z q" if "q \<in> span p order" for q using assms(2) that by (simp add: fresh_block_def)
  have nb: "\<not> PageBuddy (pages ?z q)" if "q \<in> span p order" for q
    using in_hand_not_buddy [of ?z q 0] own [OF that] i by (auto simp: owned_def pcp_inv_def)
  have w: "within (span p order) ?z z" unfolding z_def split_page_def by (rule within_fold [OF nb]) (auto simp: span_def)
  have d: "span p order \<inter> avail (pcps s zi) ?z = {}" using own by (auto simp: owned_iff)
  note k = within_pcp_inv [OF i w d]
  have pg: "pages z q = (if p < q \<and> q < p + 2 ^ order then (pages ?z q)\<lparr>page_count := 1\<rparr> else pages ?z q)" for q
    by (simp add: z_def split_page_def prep_tails Suc_le_eq)
  have sz: "same_zone ?z z" using w by (simp add: within_def lists_same_def)
  have e: "buddy (mzones s' zi) = z" "pcps s' = pcps s" by (simp_all add: s' put_zone_def z_def)
  show "mem_ok s'" unfolding s' z_def [symmetric] using mem_ok_put_zone [OF assms(1) k(1)] .
  show "zavail s' zi = zavail s zi" "pcps s' = pcps s" using e k(2) by simp_all
  show "ready s' zi q" if q: "q \<in> span p order" for q
  proof -
    have "page_count (pages z q) = 1" using assms(2) q by (auto simp: pg fresh_block_def span_def)
    moreover have "reusable z q" using assms(2) q sz by (auto simp: fresh_block_def reusable_def pg same_zone_def)
    moreover have "owned (pcps s zi) z q" using own [OF q] sz k(2) by (auto simp: owned_iff pg same_zone_def)
    ultimately show ?thesis by (simp add: ready_def e freeable_iff)
  qed
  show "\<And>zj. zj \<noteq> zi \<Longrightarrow> mzones s' zj = mzones s zj" by (simp add: s' put_zone_def)
qed

text \<open>
  C25. An exact allocation keeps exactly the pages that the size needs, rounded up, and gives the rest of the block
  back at once; freeing it with the same size gives back the pages it kept. Nothing else becomes available, no page is given back
  twice, and the lists stay well-formed.
\<close>
theorem exact_allocation_roundtrip:
  assumes "mem_ok s" "fresh_block s zi p order" "int (pcp_batch (pcps s zi)) \<le> max 1 (pcp_high (pcps s zi))"
    and "mapped_range env a zi p (2 ^ order)" "unat sz \<le> 2 ^ order * 4096"
  shows "\<exists>s1. make_alloc_exact env a order sz s = Some (a, s1) \<and> mem_ok s1
    \<and> zavail s1 zi = zavail s zi \<union> {p + pages_of sz..<p + 2 ^ order}
    \<and> (\<exists>s2. free_pages_exact env a sz s1 = Some s2 \<and> mem_ok s2 \<and> zavail s2 zi = zavail s zi \<union> span p order
         \<and> (\<forall>zj. zj \<noteq> zi \<longrightarrow> zavail s2 zj = zavail s zj))"
proof -
  let ?m = "pages_of sz"
  have m: "?m \<le> 2 ^ order" using assms(5) by (simp add: pages_of_def)
  have a: "a \<noteq> 0" "unat a + 2 ^ order * 4096 < 2 ^ 32" "virt_to_page env a = (zi, p)"
    using assms(4) by (auto simp: mapped_range_def dest: spec [where x = 0])
  have "k * 4096 < 2 ^ 32 \<Longrightarrow> k * 4096 + 4095 < (2 ^ 32 :: nat)" for k by simp
  from this [of "2 ^ order"] have "unat sz + 4095 < 2 ^ 32" using a(2) assms(5) by linarith
  note al = PAGE_ALIGN_pages [OF this]
  define s0 where "s0 = put_zone zi (pcps s zi) (split_page p order (buddy (mzones s zi))) s"
  note f = split_page_fresh [OF assms(1,2) s0_def]
  have b0: "int (pcp_batch (pcps s0 zi)) \<le> max 1 (pcp_high (pcps s0 zi))" using assms(3) f(3) by simp
  have e: "a + push_bit order PAGE_SIZE = a + of_nat ?m * PAGE_SIZE + of_nat (2 ^ order - ?m) * PAGE_SIZE"
    using m by (simp add: push_bit_eq_mult of_nat_diff algebra_simps)
  have r: "ready s0 zi q" if "p + ?m \<le> q" "q < p + ?m + (2 ^ order - ?m)" for q
    using f(4) that by (simp add: span_def)
  obtain s1 where s1: "free_range env (a + of_nat ?m * PAGE_SIZE) (a + push_bit order PAGE_SIZE) s0 = Some s1"
    "gave_back zi {p + ?m..<p + 2 ^ order} s0 s1"
    using free_range_gives_back [OF f(1) b0 mapped_range_drop [OF assms(4) m] r] m unfolding e by auto
  have b1: "mem_ok s1" "int (pcp_batch (pcps s1 zi)) \<le> max 1 (pcp_high (pcps s1 zi))" using s1(2) b0 by (auto simp: gave_back_def)
  have mr: "mapped_range env a zi p ?m" using assms(4) m by (auto simp: mapped_range_def)
  have r1: "ready s1 zi q" if "p \<le> q" "q < p + ?m" for q
    using ready_cong [OF s1(2), of q] f(4) [of q] that m by (simp add: span_def)
  obtain s2 where s2: "free_range env a (a + of_nat ?m * PAGE_SIZE) s1 = Some s2" "gave_back zi {p..<p + ?m} s1 s2"
    using free_range_gives_back [OF b1 mr r1] by blast
  have "make_alloc_exact env a order sz s = Some (a, s1)"
    using s1(1) a(1,3) by (simp add: make_alloc_exact_def al Let_def s0_def [symmetric])
  moreover have "free_pages_exact env a sz s1 = Some s2" using s2(1) by (simp add: free_pages_exact_def al)
  moreover have "{p + ?m..<p + 2 ^ order} \<union> {p..<p + ?m} = span p order" using m by (auto simp: span_def)
  ultimately show ?thesis
    using s1(2) s2(2) f(2,3,5) by (intro exI [of _ s1] conjI exI [of _ s2]) (auto simp: gave_back_def)
qed


section \<open>Witness\<close>

definition zone_fresh :: zone where
  "zone_fresh = upd_page 8 (\<lambda>g. g\<lparr>page_count := 1\<rparr>) zone0"

lemma zone_fresh_inv: "pcp_inv pcp0 zone_fresh"
proof -
  have "pcp_inv pcp0 zone0" using zone0_inv by (simp add: pcp_inv_def pcp0_def all_pages_def held_def)
  moreover have "only 8 zone0 zone_fresh" unfolding zone_fresh_def by (rule only_upd) (simp_all add: zone0_def)
  ultimately show ?thesis using only_pcp_inv [of 8 zone0 zone_fresh pcp0] by simp
qed

lemma zone_fresh_block: "fresh_block (mem_with zone_fresh) 0 8 1"
proof -
  have "avail pcp0 zone_fresh = {}"
    using lists_same_free [of zone0 zone_fresh] by (simp add: avail_def pcp0_def all_pages_def zone_fresh_def zone0_def lists_same_def same_zone_def upd_page_def
        free_pages_def blocks_def)
  moreover have "span 8 1 = {8, 9}" by (auto simp: span_def)
  ultimately show ?thesis
    by (simp add: fresh_block_def owned_iff mem_with_def) (simp add: zone_fresh_def upd_page_def zone0_def reusable_def)
qed

theorem exact_allocation_roundtrip_witness:
  "\<exists>s1. make_alloc_exact alloc_env0 32768 1 100 (mem_with zone_fresh) = Some (32768, s1)
    \<and> zavail s1 0 = zavail (mem_with zone_fresh) 0 \<union> {9} \<and> (\<exists>s2. free_pages_exact alloc_env0 32768 100 s1 = Some s2)"
proof -
  have "mem_ok (mem_with zone_fresh)" using zone_fresh_inv by (simp add: mem_ok_def mem_with_def)
  moreover have "int (pcp_batch (pcps (mem_with zone_fresh) 0)) \<le> max 1 (pcp_high (pcps (mem_with zone_fresh) 0))"
    by (simp add: mem_with_def pcp0_def)
  moreover have "mapped_range alloc_env0 32768 0 8 (2 ^ 1)"
  proof -
    have "virt_to_page alloc_env0 (32768 + of_nat i * PAGE_SIZE) = (0, 8 + i)" if "i < 2" for i :: nat
    proof -
      from that consider "i = 0" | "i = 1" by linarith
      then show ?thesis by cases (simp_all add: alloc_env0_def PAGE_SIZE_def)
    qed
    then show ?thesis by (simp add: mapped_range_def)
  qed
  ultimately obtain s1 where "make_alloc_exact alloc_env0 32768 1 100 (mem_with zone_fresh) = Some (32768, s1)"
    "zavail s1 0 = zavail (mem_with zone_fresh) 0 \<union> {8 + pages_of 100..<8 + 2 ^ 1}" "\<exists>s2. free_pages_exact alloc_env0 32768 100 s1 = Some s2"
    using exact_allocation_roundtrip [of "mem_with zone_fresh" 0 8 1 alloc_env0 32768 100] zone_fresh_block by auto
  moreover have "{8 + pages_of 100..<8 + 2 ^ 1} = {9}" by (auto simp: pages_of_def)
  ultimately show ?thesis by auto
qed

end
