(* ===== verification/Sched_Types.thy ===== *)
theory Sched_Types
  imports Prelude "HOL-Library.Tree"
begin

unbundle bit_operations_syntax

text \<open>
  Data of the process scheduler of homework 4: \<open>struct load_weight\<close>, \<open>struct sched_entity\<close> and the
  scheduling part of \<open>struct task_struct\<close> (\<open>hw4/linux/sched.h\<close>), \<open>struct cfs_rq\<close> and \<open>struct rq\<close>
  (\<open>hw4/kernel/sched/sched.h\<close>), the policy and priority constants and the small inline helpers on them.

  The configuration is the one of the emulator board: 32-bit, one processor (no \<open>CONFIG_SMP\<close>), no group
  scheduling, no bandwidth control, no high-resolution tick, no scheduler statistics. A task and
  its scheduling entity are then one-to-one, so both are named by the same identifier, and there is
  one run queue. Run-queue counters are natural numbers: they count tasks, of which there are far
  fewer than \<open>2 ^ 32\<close>. Times are \<open>u64\<close> and weights \<open>unsigned long\<close>, both with wrap-around.
\<close>

section \<open>Records\<close>

type_synonym tid = nat

record load_weight =
  weight :: ulong
  inv_weight :: ulong

record sched_entity =
  load :: load_weight
  se_on_rq :: bool
  exec_start :: u64
  sum_exec_runtime :: u64
  vruntime :: u64
  prev_sum_exec_runtime :: u64

datatype sched_class = Stop_class | Rt_class | Fair_class | Mycfs_class | Idle_class

record task_struct =
  state :: int
  on_rq :: bool
  prio :: int
  static_prio :: int
  normal_prio :: int
  rt_priority :: int
  policy :: int
  sched_class :: sched_class
  sched_reset_on_fork :: bool
  has_mm :: bool
  se :: sched_entity
  need_resched :: bool
  pf_frozen :: bool
  nvcsw :: u32
  nivcsw :: u32

text \<open>The timeline is the red-black tree of \<open>run_node\<close>s; a node is named by its entity.\<close>

record cfs_rq =
  cfs_load :: load_weight
  cfs_nr_running :: nat
  h_nr_running :: nat
  min_vruntime :: u64
  min_vruntime_copy :: u64
  tasks_timeline :: "tid tree"
  rb_leftmost :: "tid option"
  cfs_curr :: "tid option"
  next_buddy :: "tid option"
  last_buddy :: "tid option"
  skip_buddy :: "tid option"

record mycfs_rq =
  mycfs_min_vruntime :: u64
  mycfs_min_vruntime_copy :: u64
  mycfs_timeline :: "tid tree"

record rq =
  nr_running :: nat
  skip_clock_update :: int
  rq_load :: load_weight
  nr_switches :: u64
  cfs :: cfs_rq
  mycfs :: mycfs_rq
  nr_uninterruptible :: ulong
  curr :: tid
  idle :: tid
  stop :: "tid option"
  clock :: u64
  clock_task :: u64

record sched =
  rq :: rq
  tsk :: "tid \<Rightarrow> task_struct"

section \<open>Policies, priorities and weights\<close>

named_theorems sched_const_defs \<open>the numeric constants of the scheduler headers\<close>

definition SCHED_NORMAL :: int where [sched_const_defs]: "SCHED_NORMAL = 0"
definition SCHED_FIFO :: int where [sched_const_defs]: "SCHED_FIFO = 1"
definition SCHED_RR :: int where [sched_const_defs]: "SCHED_RR = 2"
definition SCHED_BATCH :: int where [sched_const_defs]: "SCHED_BATCH = 3"
definition SCHED_IDLE :: int where [sched_const_defs]: "SCHED_IDLE = 5"
definition SCHED_MYCFS :: int where [sched_const_defs]: "SCHED_MYCFS = 6"
definition SCHED_RESET_ON_FORK :: int where [sched_const_defs]: "SCHED_RESET_ON_FORK = 0x40000000"

definition ENQUEUE_WAKEUP :: u32 where [sched_const_defs]: "ENQUEUE_WAKEUP = 1"
definition ENQUEUE_HEAD :: u32 where [sched_const_defs]: "ENQUEUE_HEAD = 2"
definition ENQUEUE_WAKING :: u32 where [sched_const_defs]: "ENQUEUE_WAKING = 0"
definition DEQUEUE_SLEEP :: u32 where [sched_const_defs]: "DEQUEUE_SLEEP = 1"
definition WF_FORK :: u32 where [sched_const_defs]: "WF_FORK = 2"

definition MAX_RT_PRIO :: int where [sched_const_defs]: "MAX_RT_PRIO = 100"
definition MAX_PRIO :: int where [sched_const_defs]: "MAX_PRIO = MAX_RT_PRIO + 40"
definition NICE_0_LOAD :: ulong where [sched_const_defs]: "NICE_0_LOAD = 1024"

definition NICE_TO_PRIO :: "int \<Rightarrow> int" where
  "NICE_TO_PRIO nice = MAX_RT_PRIO + nice + 20"

definition PRIO_TO_NICE :: "int \<Rightarrow> int" where
  "PRIO_TO_NICE p = p - MAX_RT_PRIO - 20"

definition rt_policy :: "int \<Rightarrow> bool" where
  "rt_policy pol \<longleftrightarrow> pol = SCHED_FIFO \<or> pol = SCHED_RR"

definition task_has_rt_policy :: "task_struct \<Rightarrow> bool" where
  "task_has_rt_policy p = rt_policy (policy p)"

definition rt_prio :: "int \<Rightarrow> bool" where
  "rt_prio p \<longleftrightarrow> p < MAX_RT_PRIO"

definition update_load_add :: "load_weight \<Rightarrow> ulong \<Rightarrow> load_weight" where
  "update_load_add lw n = lw\<lparr>weight := weight lw + n, inv_weight := 0\<rparr>"

definition update_load_sub :: "load_weight \<Rightarrow> ulong \<Rightarrow> load_weight" where
  "update_load_sub lw n = lw\<lparr>weight := weight lw - n, inv_weight := 0\<rparr>"

definition update_load_set :: "load_weight \<Rightarrow> ulong \<Rightarrow> load_weight" where
  "update_load_set lw w = lw\<lparr>weight := w, inv_weight := 0\<rparr>"

lemma update_load_simps [simp]:
  "weight (update_load_add lw n) = weight lw + n"
  "weight (update_load_sub lw n) = weight lw - n"
  "weight (update_load_set lw w) = w"
  "inv_weight (update_load_add lw n) = 0"
  "inv_weight (update_load_sub lw n) = 0"
  "inv_weight (update_load_set lw w) = 0"
  by (simp_all add: update_load_add_def update_load_sub_def update_load_set_def)

text \<open>\<open>prio_to_weight\<close> and \<open>prio_to_wmult\<close>: the weight of each nice level and its inverse.\<close>

definition prio_to_weight :: "ulong list" where
  "prio_to_weight = [
    88761, 71755, 56483, 46273, 36291, 29154, 23254, 18705, 14949, 11916,
    9548, 7620, 6100, 4904, 3906, 3121, 2501, 1991, 1586, 1277,
    1024, 820, 655, 526, 423, 335, 272, 215, 172, 137,
    110, 87, 70, 56, 45, 36, 29, 23, 18, 15]"

definition prio_to_wmult :: "ulong list" where
  "prio_to_wmult = [
    48388, 59856, 76040, 92818, 118348, 147320, 184698, 229616, 287308, 360437,
    449829, 563644, 704093, 875809, 1099582, 1376151, 1717300, 2157191, 2708050, 3363326,
    4194304, 5237765, 6557202, 8165337, 10153587, 12820798, 15790321, 19976592, 24970740, 31350126,
    39045157, 49367440, 61356676, 76695844, 95443717, 119304647, 148102320, 186737708, 238609294, 286331153]"

definition WEIGHT_IDLEPRIO :: ulong where [sched_const_defs]: "WEIGHT_IDLEPRIO = 3"
definition WMULT_IDLEPRIO :: ulong where [sched_const_defs]: "WMULT_IDLEPRIO = 1431655765"

lemma length_prio_tables [simp]: "length prio_to_weight = 40" "length prio_to_wmult = 40"
  by (simp_all add: prio_to_weight_def prio_to_wmult_def)

section \<open>Updates of one entity or of the fair run queue\<close>

definition upd_task :: "tid \<Rightarrow> (task_struct \<Rightarrow> task_struct) \<Rightarrow> sched \<Rightarrow> sched" where
  "upd_task p f s = s\<lparr>tsk := (tsk s)(p := f (tsk s p))\<rparr>"

definition upd_se :: "tid \<Rightarrow> (sched_entity \<Rightarrow> sched_entity) \<Rightarrow> sched \<Rightarrow> sched" where
  "upd_se p f = upd_task p (\<lambda>t. t\<lparr>se := f (se t)\<rparr>)"

definition upd_rq :: "(rq \<Rightarrow> rq) \<Rightarrow> sched \<Rightarrow> sched" where
  "upd_rq f s = s\<lparr>rq := f (rq s)\<rparr>"

definition upd_cfs :: "(cfs_rq \<Rightarrow> cfs_rq) \<Rightarrow> sched \<Rightarrow> sched" where
  "upd_cfs f = upd_rq (\<lambda>r. r\<lparr>cfs := f (cfs r)\<rparr>)"

abbreviation ent :: "sched \<Rightarrow> tid \<Rightarrow> sched_entity" where
  "ent s p \<equiv> se (tsk s p)"

abbreviation cfsq :: "sched \<Rightarrow> cfs_rq" where
  "cfsq s \<equiv> cfs (rq s)"

abbreviation vrt :: "sched \<Rightarrow> tid \<Rightarrow> u64" where
  "vrt s p \<equiv> vruntime (ent s p)"

lemma upd_task_simps [simp]:
  "rq (upd_task p f s) = rq s"
  "tsk (upd_task p f s) q = (if q = p then f (tsk s p) else tsk s q)"
  by (simp_all add: upd_task_def)

lemma upd_se_simps [simp]:
  "rq (upd_se p f s) = rq s"
  "tsk (upd_se p f s) q = (if q = p then (tsk s p)\<lparr>se := f (ent s p)\<rparr> else tsk s q)"
  by (simp_all add: upd_se_def)

lemma upd_rq_simps [simp]:
  "rq (upd_rq f s) = f (rq s)"
  "tsk (upd_rq f s) = tsk s"
  by (simp_all add: upd_rq_def)

lemma upd_cfs_simps [simp]:
  "rq (upd_cfs f s) = (rq s)\<lparr>cfs := f (cfsq s)\<rparr>"
  "tsk (upd_cfs f s) = tsk s"
  by (simp_all add: upd_cfs_def)

end
