(* ===== verification/Cfs_Math.thy ===== *)
theory Cfs_Math
  imports Sched_Types
begin

unbundle bit_operations_syntax

text \<open>
  The arithmetic of the fair scheduler (\<open>hw4/kernel/sched/fair.c\<close>): virtual run times are \<open>u64\<close> values
  compared by the sign of their difference, and run time is scaled by a weight with a multiplication
  by the inverse of the weight, scaled by \<open>2 ^ 32\<close>, in place of a division.
\<close>

section \<open>Virtual run times\<close>

definition max_vruntime :: "u64 \<Rightarrow> u64 \<Rightarrow> u64" where
  "max_vruntime m v = (if 0 < sint (v - m) then v else m)"

definition min_vruntime' :: "u64 \<Rightarrow> u64 \<Rightarrow> u64" where
  "min_vruntime' m v = (if sint (v - m) < 0 then v else m)"

definition entity_before :: "sched_entity \<Rightarrow> sched_entity \<Rightarrow> bool" where
  "entity_before a b \<longleftrightarrow> sint (vruntime a - vruntime b) < 0"

text \<open>
  The comparison is an order on the values of any window of half the range. \<open>offset b v\<close> is the distance
  of \<open>v\<close> from the start \<open>b\<close> of the window.
\<close>

definition offset :: "u64 \<Rightarrow> u64 \<Rightarrow> nat" where
  "offset b v = unat (v - b)"

definition in_window :: "u64 \<Rightarrow> u64 \<Rightarrow> bool" where
  "in_window b v \<longleftrightarrow> offset b v < 2 ^ 63"

lemma diff_range_63:
  fixes a b :: nat
  assumes "a < 2 ^ 63" "b < 2 ^ 63"
  shows "- (2 ^ 63) \<le> int a - int b" "int a - int b < 2 ^ 63"
  using assms by auto

lemma sint_diff_small:
  fixes x y :: u64
  assumes "unat x < 2 ^ 63" "unat y < 2 ^ 63"
  shows "sint (x - y) = int (unat x) - int (unat y)"
proof -
  let ?d = "int (unat x) - int (unat y)"
  have "of_int ?d = x - y" by simp
  then have "sint (x - y) = sint (of_int ?d :: u64)" by simp
  also have "\<dots> = signed_take_bit 63 ?d" by (simp add: sint_sbintrunc' del: of_int_diff)
  also have "\<dots> = ?d" by (intro signed_take_bit_int_eq_self diff_range_63 assms)
  finally show ?thesis .
qed

lemma sint_diff_window:
  assumes "in_window b u" "in_window b v"
  shows "sint (u - v) = int (offset b u) - int (offset b v)"
  using sint_diff_small [of "u - b" "v - b"] assms by (simp add: in_window_def offset_def)

lemma entity_before_window:
  assumes "in_window b (vruntime x)" "in_window b (vruntime y)"
  shows "entity_before x y \<longleftrightarrow> offset b (vruntime x) < offset b (vruntime y)"
  using sint_diff_window [OF assms] by (simp add: entity_before_def)

lemma max_vruntime_window:
  assumes "in_window b u" "in_window b v"
  shows "in_window b (max_vruntime u v)" "offset b (max_vruntime u v) = max (offset b u) (offset b v)"
  using sint_diff_window [OF assms(2,1)] assms by (auto simp: max_vruntime_def max_def)

lemma min_vruntime_window:
  assumes "in_window b u" "in_window b v"
  shows "in_window b (min_vruntime' u v)" "offset b (min_vruntime' u v) = min (offset b u) (offset b v)"
  using sint_diff_window [OF assms(2,1)] assms by (auto simp: min_vruntime'_def min_def)

section \<open>Scaling by a weight\<close>

definition WMULT_CONST :: u64 where
  "WMULT_CONST = 0xFFFFFFFF"

definition SRR :: "u64 \<Rightarrow> nat \<Rightarrow> u64" where
  "SRR x y = drop_bit y (x + push_bit (y - 1) 1)"

text \<open>The inverse is computed on the first use and kept in the weight.\<close>

definition fill_inv_weight :: "load_weight \<Rightarrow> load_weight" where
  "fill_inv_weight lw =
    (if inv_weight lw = 0
     then lw\<lparr>inv_weight := if weight lw = 0 then 0xFFFFFFFF else 0xFFFFFFFF div weight lw\<rparr>
     else lw)"

definition calc_delta_mine :: "ulong \<Rightarrow> ulong \<Rightarrow> load_weight \<Rightarrow> ulong \<times> load_weight" where
  "calc_delta_mine delta_exec w lw =
    (let tmp = (if 1 < w then ucast delta_exec * ucast w else ucast delta_exec) :: u64;
         lw' = fill_inv_weight lw;
         inv = ucast (inv_weight lw') :: u64;
         r = (if WMULT_CONST < tmp then SRR (SRR tmp 16 * inv) 16 else SRR (tmp * inv) 32)
     in (ucast (min r 0x7FFFFFFF), lw'))"

definition calc_delta_fair :: "ulong \<Rightarrow> sched_entity \<Rightarrow> ulong \<times> sched_entity" where
  "calc_delta_fair delta e =
    (if weight (load e) \<noteq> NICE_0_LOAD
     then let (d, lw) = calc_delta_mine delta NICE_0_LOAD (load e) in (d, e\<lparr>load := lw\<rparr>)
     else (delta, e))"

text \<open>An inverse is good when it is within one unit of \<open>2 ^ 32 / weight\<close>.\<close>

definition inv_ok :: "load_weight \<Rightarrow> bool" where
  "inv_ok lw \<longleftrightarrow> \<bar>int (unat (inv_weight lw)) * int (unat (weight lw)) - 2 ^ 32\<bar> \<le> int (unat (weight lw))"

definition weight_ok :: "load_weight \<Rightarrow> bool" where
  "weight_ok lw \<longleftrightarrow> weight lw \<noteq> 0 \<and> (inv_weight lw = 0 \<or> inv_ok lw)"

lemma fill_inv_weight_weight [simp]: "weight (fill_inv_weight lw) = weight lw"
  by (simp add: fill_inv_weight_def)

lemma div_round_error:
  fixes w n :: nat
  assumes "0 < w"
  shows "\<bar>int (n div w) * int w - (int n + 1)\<bar> \<le> int w"
proof -
  have "n div w * w + n mod w = n" "n mod w < w" using assms by simp_all
  then show ?thesis unfolding of_nat_mult [symmetric] by linarith
qed

lemma fill_inv_ok:
  assumes "weight_ok lw"
  shows "inv_ok (fill_inv_weight lw)"
proof (cases "inv_weight lw = 0")
  case True
  let ?w = "unat (weight lw)"
  have w: "0 < ?w" using assms by (simp add: weight_ok_def unat_gt_0)
  have d: "unat (0xFFFFFFFF div weight lw) = 4294967295 div ?w" by (simp add: unat_div)
  have "\<bar>int (4294967295 div ?w) * int ?w - 2 ^ 32\<bar> \<le> int ?w"
    using div_round_error [OF w, of 4294967295] by simp
  moreover have "inv_weight (fill_inv_weight lw) = 0xFFFFFFFF div weight lw"
    using True assms by (simp add: fill_inv_weight_def weight_ok_def)
  ultimately show ?thesis
    unfolding inv_ok_def fill_inv_weight_weight by (simp only: d)
next
  case False
  with assms show ?thesis by (simp add: weight_ok_def fill_inv_weight_def)
qed

lemma unat_add_fits: "unat x + unat y < 2 ^ 64 \<Longrightarrow> unat (x + y :: u64) = unat x + unat y"
  by (intro unat_add_lem [THEN iffD1]) simp

lemma unat_SRR_16:
  assumes "unat x + 2 ^ 15 < 2 ^ 64"
  shows "unat (SRR x 16) = (unat x + 2 ^ 15) div 2 ^ 16"
proof -
  have "unat (x + 32768) = unat x + 32768" using assms by (subst unat_add_fits) simp_all
  then show ?thesis by (simp add: SRR_def drop_bit_eq_div unat_div)
qed

lemma unat_SRR_32:
  assumes "unat x + 2 ^ 31 < 2 ^ 64"
  shows "unat (SRR x 32) = (unat x + 2 ^ 31) div 2 ^ 32"
proof -
  have "unat (x + 2147483648) = unat x + 2147483648" using assms by (subst unat_add_fits) simp_all
  then show ?thesis by (simp add: SRR_def drop_bit_eq_div unat_div)
qed

text \<open>
  The error of the two roundings, on natural numbers: \<open>T\<close> is the product of time and weight, \<open>W\<close> the weight
  to divide by and \<open>I\<close> its inverse.
\<close>

lemma scale_error_direct:
  fixes T W I :: int
  assumes "\<bar>I * W - 2 ^ 32\<bar> \<le> W" "0 \<le> T" "0 < W" "r = (T * I + 2 ^ 31) div 2 ^ 32"
  shows "\<bar>r * W - T\<bar> * 2 ^ 32 \<le> (T + 2 ^ 31) * W"
proof -
  define e where "e = I * W - 2 ^ 32"
  define m where "m = (T * I + 2 ^ 31) mod 2 ^ 32"
  have m: "0 \<le> m" "m < 2 ^ 32" by (simp_all add: m_def)
  have "r * 2 ^ 32 = T * I + 2 ^ 31 - m" by (simp add: assms(4) m_def minus_mod_eq_div_mult)
  then have "r * 2 ^ 32 * W = (T * I + 2 ^ 31 - m) * W" by simp
  also have "\<dots> = T * (I * W) + (2 ^ 31 - m) * W" by (simp add: algebra_simps)
  also have "\<dots> = T * 2 ^ 32 + (T * e + (2 ^ 31 - m) * W)" by (simp add: e_def algebra_simps)
  finally have "(r * W - T) * 2 ^ 32 = T * e + (2 ^ 31 - m) * W" by (simp add: algebra_simps)
  moreover have "\<bar>T * e\<bar> \<le> T * W" using assms by (simp add: e_def abs_mult mult_left_mono)
  moreover have "\<bar>(2 ^ 31 - m) * W\<bar> \<le> 2 ^ 31 * W" using m assms(3) by (simp add: abs_mult)
  ultimately have "\<bar>(r * W - T) * 2 ^ 32\<bar> \<le> (T + 2 ^ 31) * W"
    by (simp add: distrib_right)
  then show ?thesis by (simp only: abs_mult) simp
qed

lemma scale_error_split:
  fixes T W I :: int
  assumes "\<bar>I * W - 2 ^ 32\<bar> \<le> W" "0 \<le> T" "0 < W" "0 \<le> I"
    and S: "S = (T + 2 ^ 15) div 2 ^ 16" and r: "r = (S * I + 2 ^ 15) div 2 ^ 16"
  shows "\<bar>r * W - T\<bar> * 2 ^ 32 \<le> (T + 2 ^ 31 + 2 ^ 15) * W + 2 ^ 47"
proof -
  define e where "e = I * W - 2 ^ 32"
  define m where "m = (T + 2 ^ 15) mod 2 ^ 16"
  define n where "n = (S * I + 2 ^ 15) mod 2 ^ 16"
  have b: "0 \<le> m" "m < 2 ^ 16" "0 \<le> n" "n < 2 ^ 16" by (simp_all add: m_def n_def)
  have S': "S * 2 ^ 16 = T + 2 ^ 15 - m" by (simp add: S m_def minus_mod_eq_div_mult)
  have S0: "0 \<le> S" using assms(2) by (simp add: S)
  have r': "r * 2 ^ 16 = S * I + 2 ^ 15 - n" by (simp add: r n_def minus_mod_eq_div_mult)
  have "r * W * 2 ^ 32 = (r * 2 ^ 16) * 2 ^ 16 * W" by simp
  also have "\<dots> = (S * 2 ^ 16) * (I * W) + (2 ^ 15 - n) * 2 ^ 16 * W"
    by (simp only: r') (simp add: algebra_simps)
  also have "I * W = 2 ^ 32 + e" by (simp add: e_def)
  also have "(S * 2 ^ 16) * (2 ^ 32 + e) = T * 2 ^ 32 + (2 ^ 15 - m) * 2 ^ 32 + (S * 2 ^ 16) * e"
    by (simp only: distrib_left S') (simp add: algebra_simps)
  finally have eq: "(r * W - T) * 2 ^ 32 = (2 ^ 15 - m) * 2 ^ 32 + (S * 2 ^ 16) * e + (2 ^ 15 - n) * 2 ^ 16 * W"
    by (simp add: algebra_simps)
  have 1: "\<bar>(2 ^ 15 - m) * 2 ^ 32\<bar> \<le> 2 ^ 47" using b by (simp add: abs_mult)
  have "\<bar>(S * 2 ^ 16) * e\<bar> \<le> (S * 2 ^ 16) * W"
    using assms S0 by (simp add: e_def abs_mult mult_left_mono)
  also have "\<dots> \<le> (T + 2 ^ 15) * W" using S' b(1) assms(3) by (simp add: mult_right_mono)
  finally have 2: "\<bar>(S * 2 ^ 16) * e\<bar> \<le> (T + 2 ^ 15) * W" .
  have 3: "\<bar>(2 ^ 15 - n) * 2 ^ 16 * W\<bar> \<le> 2 ^ 31 * W" using b assms(3) by (simp add: abs_mult)
  have "\<bar>(r * W - T) * 2 ^ 32\<bar> \<le> (T + 2 ^ 31 + 2 ^ 15) * W + 2 ^ 47"
    unfolding eq using 1 2 3 by (simp add: distrib_right)
  then show ?thesis by (simp only: abs_mult) simp
qed

text \<open>\<open>scaled_time d w\<close> is the product that \<open>calc_delta_mine\<close> divides; it treats a weight of zero as one.\<close>

definition scaled_time :: "ulong \<Rightarrow> ulong \<Rightarrow> nat" where
  "scaled_time d w = unat d * max 1 (unat w)"

lemma unat_scaled_time:
  "unat ((if 1 < w then ucast d * ucast w else ucast d) :: u64) = scaled_time d w"
proof (cases "1 < w")
  case True
  then have "1 < unat w" by (simp add: word_less_nat_alt)
  with True show ?thesis by (simp add: scaled_time_def unat_ulong_product max_def)
next
  case False
  then have "unat w \<le> 1" by (simp add: word_less_nat_alt)
  with False show ?thesis by (simp add: scaled_time_def max_def)
qed

text \<open>With the inverse \<open>I\<close> at hand, the result before it is clipped, on natural numbers.\<close>

definition scaled_div :: "nat \<Rightarrow> nat \<Rightarrow> nat" where
  "scaled_div T I =
    (if 2 ^ 32 \<le> T then ((T + 2 ^ 15) div 2 ^ 16 * I + 2 ^ 15) div 2 ^ 16
     else (T * I + 2 ^ 31) div 2 ^ 32)"

lemma split_product_fits:
  fixes T W I :: nat
  assumes "T < 2 ^ 46 * W" "\<bar>int I * int W - 2 ^ 32\<bar> \<le> int W" "W < 2 ^ 32"
  shows "(T + 2 ^ 15) div 2 ^ 16 * I + 2 ^ 15 < 2 ^ 64"
proof -
  let ?S = "(T + 2 ^ 15) div 2 ^ 16"
  have W: "0 < W" using assms(1) by (cases W) auto
  have IW: "I * W \<le> 2 ^ 33" using assms(2,3) by (simp flip: of_nat_mult)
  have "?S * 2 ^ 16 \<le> T + 2 ^ 15" by simp
  then have "?S * 2 ^ 16 \<le> 2 ^ 46 * W + 2 ^ 15" using assms(1) by linarith
  then have "?S * 2 ^ 16 * I \<le> (2 ^ 46 * W + 2 ^ 15) * I" by (rule mult_right_mono) simp
  also have "\<dots> = 2 ^ 46 * (I * W) + 2 ^ 15 * I" by (simp add: algebra_simps)
  also have "\<dots> \<le> 2 ^ 46 * 2 ^ 33 + 2 ^ 15 * 2 ^ 33"
    using IW W by (intro add_mono mult_left_mono) (auto intro: order_trans [of I "I * W"])
  finally have "?S * I * 2 ^ 16 \<le> 2 ^ 46 * 2 ^ 33 + 2 ^ 15 * 2 ^ 33" by (simp only: mult_ac)
  moreover have "(x :: nat) * 2 ^ 16 \<le> 2 ^ 46 * 2 ^ 33 + 2 ^ 15 * 2 ^ 33 \<Longrightarrow> x + 2 ^ 15 < 2 ^ 64" for x by simp
  ultimately show ?thesis by blast
qed

lemma calc_delta_mine_nat:
  assumes "weight_ok lw" "scaled_time d w < 2 ^ 46 * unat (weight lw)"
  shows "unat (fst (calc_delta_mine d w lw))
    = min (scaled_div (scaled_time d w) (unat (inv_weight (fill_inv_weight lw)))) (2 ^ 31 - 1)"
proof -
  let ?tmp = "(if 1 < w then ucast d * ucast w else ucast d) :: u64"
  let ?iv = "inv_weight (fill_inv_weight lw)"
  let ?inv = "ucast ?iv :: u64"
  let ?T = "scaled_time d w" and ?I = "unat ?iv"
  have T: "unat ?tmp = ?T" by (rule unat_scaled_time)
  have I: "unat ?inv = ?I" by (rule unat_ucast_u64)
  have ok: "\<bar>int ?I * int (unat (weight lw)) - 2 ^ 32\<bar> \<le> int (unat (weight lw))"
    using fill_inv_ok [OF assms(1)] by (simp add: inv_ok_def)
  define r where "r = (if WMULT_CONST < ?tmp then SRR (SRR ?tmp 16 * ?inv) 16 else SRR (?tmp * ?inv) 32)"
  have "WMULT_CONST < ?tmp \<longleftrightarrow> 2 ^ 32 \<le> ?T"
    using T unfolding word_less_nat_alt [of WMULT_CONST] by (simp only:) (simp add: WMULT_CONST_def, linarith)
  moreover have "unat (SRR (SRR ?tmp 16 * ?inv) 16) = ((?T + 2 ^ 15) div 2 ^ 16 * ?I + 2 ^ 15) div 2 ^ 16"
  proof -
    have "?T + 2 ^ 15 < 2 ^ 64"
    proof -
      have "?T < 2 ^ 46 * 2 ^ 32" using assms(2) ulong_less [of "weight lw"]
        by (elim order_less_le_trans) simp
      moreover have "?T \<le> (2 ^ 32 - 1) * (2 ^ 32 - 1)"
        using ulong_less [of d] ulong_less [of w] unfolding scaled_time_def
        by (intro mult_mono) auto
      ultimately show ?thesis by simp
    qed
    then have S: "unat (SRR ?tmp 16) = (?T + 2 ^ 15) div 2 ^ 16"
      by (subst unat_SRR_16) (simp_all only: T)
    have f: "(?T + 2 ^ 15) div 2 ^ 16 * ?I + 2 ^ 15 < 2 ^ 64"
      by (rule split_product_fits [OF assms(2) ok ulong_less])
    have "unat (SRR ?tmp 16 * ?inv) = (?T + 2 ^ 15) div 2 ^ 16 * ?I"
      using unat_mult_fits [of "SRR ?tmp 16" ?inv] add_lessD1 [OF f] by (simp only: S I)
    then show ?thesis using unat_SRR_16 [of "SRR ?tmp 16 * ?inv"] f by (simp only:)
  qed
  moreover have "unat (SRR (?tmp * ?inv) 32) = (?T * ?I + 2 ^ 31) div 2 ^ 32" if "?T < 2 ^ 32"
  proof -
    have "?T * ?I \<le> (2 ^ 32 - 1) * (2 ^ 32 - 1)"
      using that ulong_less [of ?iv] by (intro mult_mono) auto
    then have f: "?T * ?I + 2 ^ 31 < 2 ^ 64" by simp
    have "unat (?tmp * ?inv) = ?T * ?I"
      using unat_mult_fits [of ?tmp ?inv] add_lessD1 [OF f] by (simp only: T I)
    then show ?thesis using unat_SRR_32 [of "?tmp * ?inv"] f by (simp only:)
  qed
  ultimately have r: "unat r = scaled_div ?T ?I"
    by (auto simp: r_def scaled_div_def not_le simp del: One_nat_def)
  have "fst (calc_delta_mine d w lw) = ucast (min r 0x7FFFFFFF)"
    unfolding calc_delta_mine_def Let_def r_def by simp
  moreover have "unat (min r 0x7FFFFFFF) = min (unat r) (2 ^ 31 - 1)"
    by (simp add: min_def word_le_nat_alt)
  ultimately show ?thesis
    by (simp add: r unsigned_ucast_eq take_bit_nat_eq_self_iff)
qed

lemma scaled_div_error:
  fixes T W I :: nat
  assumes "\<bar>int I * int W - 2 ^ 32\<bar> \<le> int W" "0 < W"
  shows "\<bar>int (scaled_div T I) * int W - int T\<bar> * 2 ^ 32 \<le> (int T + 2 ^ 31 + 2 ^ 15) * int W + 2 ^ 47"
proof (cases "2 ^ 32 \<le> T")
  case True
  then show ?thesis
    using scale_error_split [OF assms(1), of "int T" "(int T + 2 ^ 15) div 2 ^ 16" "int (scaled_div T I)"] assms(2)
    by (simp add: scaled_div_def of_nat_div)
next
  case False
  then have "\<bar>int (scaled_div T I) * int W - int T\<bar> * 2 ^ 32 \<le> (int T + 2 ^ 31) * int W"
    using scale_error_direct [OF assms(1), of "int T" "int (scaled_div T I)"] assms(2)
    by (simp add: scaled_div_def of_nat_div)
  then show ?thesis by (simp add: distrib_right)
qed

text \<open>
  C31. Multiplication by the inverse is an accurate division: unless the product is so large that the
  quotient does not fit in 46 bits, \<open>calc_delta_mine\<close> does not overflow and returns \<open>delta * weight / lw\<close>
  clipped to \<open>LONG_MAX\<close>, with a relative error below \<open>2 ^ - 32\<close> times the weight and an absolute one of
  a few units; the weight keeps its value and a good inverse.
\<close>
theorem calc_delta_mine_accurate:
  assumes "weight_ok lw" and "scaled_time d w < 2 ^ 46 * unat (weight lw)"
  shows "\<exists>r. unat (fst (calc_delta_mine d w lw)) = min r (2 ^ 31 - 1)
      \<and> \<bar>int r * int (unat (weight lw)) - int (scaled_time d w)\<bar> * 2 ^ 32
          \<le> (int (scaled_time d w) + 2 ^ 31 + 2 ^ 15) * int (unat (weight lw)) + 2 ^ 47
      \<and> weight (snd (calc_delta_mine d w lw)) = weight lw
      \<and> inv_ok (snd (calc_delta_mine d w lw))"
proof -
  have ok: "inv_ok (fill_inv_weight lw)" by (rule fill_inv_ok [OF assms(1)])
  have W: "0 < unat (weight lw)" using assms(1) by (simp add: weight_ok_def unat_gt_0)
  have snd: "snd (calc_delta_mine d w lw) = fill_inv_weight lw" by (simp add: calc_delta_mine_def Let_def)
  show ?thesis
    unfolding snd using calc_delta_mine_nat [OF assms] scaled_div_error [OF _ W] ok
    by (intro exI [of _ "scaled_div (scaled_time d w) (unat (inv_weight (fill_inv_weight lw)))"])
      (simp only: inv_ok_def fill_inv_weight_weight conj_assoc simp_thms)
qed

theorem calc_delta_mine_accurate_witness:
  "\<exists>r. unat (fst (calc_delta_mine 4000000 1024 \<lparr>weight = 335, inv_weight = 0\<rparr>)) = min r (2 ^ 31 - 1)
      \<and> \<bar>int r * 335 - 4096000000\<bar> * 2 ^ 32 \<le> (4096000000 + 2 ^ 31 + 2 ^ 15) * 335 + 2 ^ 47"
proof -
  have "weight_ok \<lparr>weight = 335, inv_weight = 0\<rparr>" by (simp add: weight_ok_def)
  moreover have "scaled_time 4000000 1024 = 4096000000" by (simp add: scaled_time_def)
  ultimately show ?thesis
    using calc_delta_mine_accurate [of "\<lparr>weight = 335, inv_weight = 0\<rparr>" 4000000 1024] by auto
qed

text \<open>Every entry of the weight tables has a good precomputed inverse.\<close>

lemma prio_tables_inverse:
  "i < 40 \<Longrightarrow> weight_ok \<lparr>weight = prio_to_weight ! i, inv_weight = prio_to_wmult ! i\<rparr>"
proof -
  have "list_all (\<lambda>(w, v). weight_ok \<lparr>weight = w, inv_weight = v\<rparr>) (zip prio_to_weight prio_to_wmult)"
    by (simp add: prio_to_weight_def prio_to_wmult_def weight_ok_def inv_ok_def)
  then show "i < 40 \<Longrightarrow> ?thesis" by (auto simp: list_all_length)
qed

end
