(* ===== verification/Cfs_Timeline.thy ===== *)
theory Cfs_Timeline
  imports Cfs_Math
begin

text \<open>
  The timeline of the fair run queue: a red-black tree of the waiting entities ordered by virtual run
  time with a cached pointer to the leftmost one (\<open>__enqueue_entity\<close>, \<open>__dequeue_entity\<close>,
  \<open>__pick_first_entity\<close>, \<open>__pick_next_entity\<close>, \<open>__pick_last_entity\<close>, \<open>update_min_vruntime\<close>).

  Balancing is the work of \<open>lib/rbtree.c\<close>, which is not part of this repository. Its functions are the
  fields of \<open>rb_lib\<close>; \<open>rb_lib_ok\<close> states what its header documents: rebalancing keeps the order of the nodes,
  erasing removes one node and \<open>rb_next\<close> and \<open>rb_last\<close> follow the order.
\<close>

section \<open>The tree library\<close>

record rb_lib =
  rb_insert_color :: "tid \<Rightarrow> tid tree \<Rightarrow> tid tree"
  rb_erase :: "tid \<Rightarrow> tid tree \<Rightarrow> tid tree"
  rb_next :: "tid \<Rightarrow> tid tree \<Rightarrow> tid option"
  rb_last :: "tid tree \<Rightarrow> tid option"

fun successor :: "'a \<Rightarrow> 'a list \<Rightarrow> 'a option" where
  "successor x (y # z # zs) = (if x = y then Some z else successor x (z # zs))"
| "successor x _ = None"

definition hd_opt :: "'a list \<Rightarrow> 'a option" where
  "hd_opt xs = (case xs of [] \<Rightarrow> None | x # _ \<Rightarrow> Some x)"

definition last_opt :: "'a list \<Rightarrow> 'a option" where
  "last_opt xs = (if xs = [] then None else Some (last xs))"

definition rb_lib_ok :: "rb_lib \<Rightarrow> bool" where
  "rb_lib_ok L \<longleftrightarrow>
     (\<forall>x t. inorder (rb_insert_color L x t) = inorder t)
   \<and> (\<forall>x t. distinct (inorder t) \<longrightarrow> inorder (rb_erase L x t) = remove1 x (inorder t))
   \<and> (\<forall>x t. distinct (inorder t) \<longrightarrow> rb_next L x t = successor x (inorder t))
   \<and> (\<forall>t. rb_last L t = last_opt (inorder t))"

lemma hd_opt_simps [simp]: "hd_opt [] = None" "hd_opt (x # xs) = Some x"
  by (simp_all add: hd_opt_def)

lemma hd_opt_None [simp]: "hd_opt xs = None \<longleftrightarrow> xs = []"
  by (cases xs) simp_all

lemma hd_opt_Some: "hd_opt xs = Some x \<longleftrightarrow> (\<exists>ys. xs = x # ys)"
  by (cases xs) auto

lemma successor_hd: "distinct xs \<Longrightarrow> hd_opt xs = Some x \<Longrightarrow> successor x xs = hd_opt (tl xs)"
  by (cases xs rule: successor.cases [of "(x, _)", simplified]) auto

lemma successor_set: "successor x xs = Some y \<Longrightarrow> y \<in> set xs"
  by (induction x xs rule: successor.induct) (auto split: if_splits)

section \<open>Operations\<close>

text \<open>The descent of \<open>__enqueue_entity\<close>; the flag tells whether it only turned left.\<close>

fun link_entity :: "(tid \<Rightarrow> sched_entity) \<Rightarrow> tid \<Rightarrow> tid tree \<Rightarrow> tid tree \<times> bool" where
  "link_entity E x \<langle>\<rangle> = (\<langle>\<langle>\<rangle>, x, \<langle>\<rangle>\<rangle>, True)"
| "link_entity E x \<langle>l, y, r\<rangle> =
    (if entity_before (E x) (E y)
     then let (l', leftmost) = link_entity E x l in (\<langle>l', y, r\<rangle>, leftmost)
     else let (r', leftmost) = link_entity E x r in (\<langle>l, y, r'\<rangle>, False))"

definition enqueue_entity' :: "rb_lib \<Rightarrow> tid \<Rightarrow> sched \<Rightarrow> sched" where
  "enqueue_entity' L x s =
    (let (t, leftmost) = link_entity (ent s) x (tasks_timeline (cfsq s))
     in upd_cfs (\<lambda>q. q\<lparr>rb_leftmost := if leftmost then Some x else rb_leftmost q,
                       tasks_timeline := rb_insert_color L x t\<rparr>) s)"

definition dequeue_entity' :: "rb_lib \<Rightarrow> tid \<Rightarrow> sched \<Rightarrow> sched" where
  "dequeue_entity' L x =
    upd_cfs (\<lambda>q. q\<lparr>rb_leftmost := if rb_leftmost q = Some x then rb_next L x (tasks_timeline q) else rb_leftmost q,
                   tasks_timeline := rb_erase L x (tasks_timeline q)\<rparr>)"

definition pick_first_entity :: "sched \<Rightarrow> tid option" where
  "pick_first_entity s = rb_leftmost (cfsq s)"

definition pick_next_entity' :: "rb_lib \<Rightarrow> tid \<Rightarrow> sched \<Rightarrow> tid option" where
  "pick_next_entity' L x s = rb_next L x (tasks_timeline (cfsq s))"

definition pick_last_entity :: "rb_lib \<Rightarrow> sched \<Rightarrow> tid option" where
  "pick_last_entity L s = rb_last L (tasks_timeline (cfsq s))"

definition update_min_vruntime :: "sched \<Rightarrow> sched" where
  "update_min_vruntime s =
    (let q = cfsq s;
         v0 = (case cfs_curr q of Some c \<Rightarrow> vrt s c | None \<Rightarrow> min_vruntime q);
         v = (case rb_leftmost q of
                None \<Rightarrow> v0
              | Some x \<Rightarrow> if cfs_curr q = None then vrt s x else min_vruntime' v0 (vrt s x));
         m = max_vruntime (min_vruntime q) v
     in upd_cfs (\<lambda>q. q\<lparr>min_vruntime := m, min_vruntime_copy := m\<rparr>) s)"

section \<open>Order of the timeline\<close>

text \<open>
  \<open>queue s\<close> is the abstract timeline, the waiting entities in order. \<open>windowed\<close> is the condition under which
  comparison by signed difference is an order: the virtual run times lie within half the range of \<open>u64\<close>
  (at the weight of the lowest priority, 15, this is four years of run time).
\<close>

abbreviation queue :: "sched \<Rightarrow> tid list" where
  "queue s \<equiv> inorder (tasks_timeline (cfsq s))"

definition not_after :: "(tid \<Rightarrow> sched_entity) \<Rightarrow> tid \<Rightarrow> tid \<Rightarrow> bool" where
  "not_after E x y \<longleftrightarrow> \<not> entity_before (E y) (E x)"

definition windowed :: "(tid \<Rightarrow> sched_entity) \<Rightarrow> tid set \<Rightarrow> bool" where
  "windowed E A \<longleftrightarrow> (\<exists>b. \<forall>x \<in> A. in_window b (vruntime (E x)))"

definition timeline_ok :: "sched \<Rightarrow> bool" where
  "timeline_ok s \<longleftrightarrow> distinct (queue s) \<and> sorted_wrt (not_after (ent s)) (queue s)
     \<and> rb_leftmost (cfsq s) = hd_opt (queue s)"

definition insert_after :: "(tid \<Rightarrow> sched_entity) \<Rightarrow> tid \<Rightarrow> tid list \<Rightarrow> tid list" where
  "insert_after E x xs = takeWhile (\<lambda>y. not_after E y x) xs @ x # dropWhile (\<lambda>y. not_after E y x) xs"

lemma windowed_subset: "windowed E A \<Longrightarrow> B \<subseteq> A \<Longrightarrow> windowed E B"
  by (auto simp: windowed_def)

lemma windowed_key:
  assumes "windowed E A"
  obtains k :: "tid \<Rightarrow> nat" where "\<And>x y. x \<in> A \<Longrightarrow> y \<in> A \<Longrightarrow> entity_before (E x) (E y) \<longleftrightarrow> k x < k y"
proof -
  from assms obtain b where "\<And>x. x \<in> A \<Longrightarrow> in_window b (vruntime (E x))" by (auto simp: windowed_def)
  then show thesis
    by (intro that [of "\<lambda>x. offset b (vruntime (E x))"] entity_before_window) simp_all
qed

lemma set_insert_after [simp]: "set (insert_after E x xs) = insert x (set xs)"
  unfolding insert_after_def
  by (metis Un_insert_right list.simps(15) set_append takeWhile_dropWhile_id)

lemma length_insert_after [simp]: "length (insert_after E x xs) = Suc (length xs)"
  unfolding insert_after_def
  by (metis add_Suc_right length_Cons length_append takeWhile_dropWhile_id)

lemma distinct_insert_after: "distinct xs \<Longrightarrow> x \<notin> set xs \<Longrightarrow> distinct (insert_after E x xs)"
  unfolding insert_after_def
  by (metis distinct.simps(2) distinct_append disjoint_insert(1) list.simps(15) set_append takeWhile_dropWhile_id Un_iff)

lemma insert_after_turn:
  assumes "sorted_wrt (not_after E) (l @ y # r)" "windowed E (insert x (set (l @ y # r)))"
  shows "entity_before (E x) (E y) \<Longrightarrow> insert_after E x (l @ y # r) = insert_after E x l @ y # r"
    and "\<not> entity_before (E x) (E y) \<Longrightarrow> insert_after E x (l @ y # r) = l @ y # insert_after E x r"
proof -
  show "insert_after E x (l @ y # r) = insert_after E x l @ y # r" if "entity_before (E x) (E y)"
    using that by (simp add: insert_after_def not_after_def takeWhile_tail dropWhile_append3)
  show "insert_after E x (l @ y # r) = l @ y # insert_after E x r" if "\<not> entity_before (E x) (E y)"
  proof -
    obtain k where k: "\<And>u v. u \<in> insert x (set (l @ y # r)) \<Longrightarrow> v \<in> insert x (set (l @ y # r))
        \<Longrightarrow> entity_before (E u) (E v) \<longleftrightarrow> k u < (k v :: nat)"
      using windowed_key [OF assms(2)] by metis
    have "not_after E z x" if "z \<in> set (l @ [y])" for z
      using that assms(1) \<open>\<not> entity_before (E x) (E y)\<close> k
      by (auto simp: not_after_def sorted_wrt_append)
    then show ?thesis by (simp add: insert_after_def)
  qed
qed

lemma link_entity_inorder:
  assumes "sorted_wrt (not_after E) (inorder t)" "windowed E (insert x (set_tree t))"
  shows "inorder (fst (link_entity E x t)) = insert_after E x (inorder t)"
  using assms
proof (induction t)
  case Leaf
  show ?case by (simp add: insert_after_def)
next
  case (Node l y r)
  have "windowed E (insert x (set_tree l))" "windowed E (insert x (set_tree r))"
    using Node.prems(2) by (auto elim: windowed_subset)
  with Node show ?case
    using insert_after_turn [of E "inorder l" y "inorder r" x]
    by (auto simp: split_def Let_def sorted_wrt_append)
qed

lemma link_entity_leftmost:
  assumes "sorted_wrt (not_after E) (inorder t)" "windowed E (insert x (set_tree t))"
  shows "snd (link_entity E x t) \<longleftrightarrow> (case inorder t of [] \<Rightarrow> True | y # _ \<Rightarrow> entity_before (E x) (E y))"
  using assms
proof (induction t)
  case (Node l y r)
  obtain k where k: "\<And>u v. u \<in> insert x (set_tree \<langle>l, y, r\<rangle>) \<Longrightarrow> v \<in> insert x (set_tree \<langle>l, y, r\<rangle>)
      \<Longrightarrow> entity_before (E u) (E v) \<longleftrightarrow> k u < (k v :: nat)"
    using windowed_key [OF Node.prems(2)] by metis
  have w: "windowed E (insert x (set_tree l))" using Node.prems(2) by (auto elim: windowed_subset)
  have IH: "snd (link_entity E x l) \<longleftrightarrow> (case inorder l of [] \<Rightarrow> True | y # _ \<Rightarrow> entity_before (E x) (E y))"
    by (rule Node.IH(1) [OF _ w]) (use Node.prems(1) in \<open>simp add: sorted_wrt_append\<close>)
  show ?case
  proof (cases "inorder l")
    case Nil
    with IH show ?thesis by (simp add: split_def Let_def)
  next
    case (Cons z zs)
    have "z \<in> set_tree l" by (metis Cons list.set_intros(1) set_inorder)
    moreover have "not_after E z y" using Node.prems(1) Cons by (auto simp: sorted_wrt_append)
    ultimately show ?thesis
      using IH Cons k by (auto simp: split_def Let_def not_after_def)
  qed
qed simp

lemma sorted_insert_after:
  assumes "sorted_wrt (not_after E) xs" "windowed E (insert x (set xs))"
  shows "sorted_wrt (not_after E) (insert_after E x xs)"
  using assms
proof (induction xs)
  case Nil
  show ?case by (simp add: insert_after_def)
next
  case (Cons y ys)
  obtain k where k: "\<And>u v. u \<in> insert x (set (y # ys)) \<Longrightarrow> v \<in> insert x (set (y # ys))
      \<Longrightarrow> entity_before (E u) (E v) \<longleftrightarrow> k u < (k v :: nat)"
    using windowed_key [OF Cons.prems(2)] by metis
  have "windowed E (insert x (set ys))" using Cons.prems(2) by (auto elim: windowed_subset)
  with Cons have IH: "sorted_wrt (not_after E) (insert_after E x ys)" by simp
  show ?case
  proof (cases "not_after E y x")
    case True
    then have "insert_after E x (y # ys) = y # insert_after E x ys" by (simp add: insert_after_def)
    with True Cons.prems(1) IH show ?thesis by auto
  next
    case False
    then have "insert_after E x (y # ys) = x # y # ys" by (simp add: insert_after_def)
    moreover have "not_after E x z" if "z \<in> set (y # ys)" for z
      using that False Cons.prems(1) k by (auto simp: not_after_def)
    ultimately show ?thesis using Cons.prems(1) by simp
  qed
qed

lemma hd_opt_insert_after:
  "hd_opt (insert_after E x xs)
    = (if (case xs of [] \<Rightarrow> True | y # _ \<Rightarrow> entity_before (E x) (E y)) then Some x else hd_opt xs)"
  by (cases xs) (auto simp: insert_after_def not_after_def)

section \<open>Correctness of the operations\<close>

lemma enqueue_entity'_frame [frame_simps]:
  "tsk (enqueue_entity' L x s) = tsk s"
  "rq (enqueue_entity' L x s) = (rq s)\<lparr>cfs := (cfsq s)
     \<lparr>rb_leftmost := rb_leftmost (cfsq (enqueue_entity' L x s)),
      tasks_timeline := tasks_timeline (cfsq (enqueue_entity' L x s))\<rparr>\<rparr>"
  by (simp_all add: enqueue_entity'_def split_def Let_def)

lemma dequeue_entity'_frame [frame_simps]:
  "tsk (dequeue_entity' L x s) = tsk s"
  "rq (dequeue_entity' L x s) = (rq s)\<lparr>cfs := (cfsq s)
     \<lparr>rb_leftmost := rb_leftmost (cfsq (dequeue_entity' L x s)),
      tasks_timeline := tasks_timeline (cfsq (dequeue_entity' L x s))\<rparr>\<rparr>"
  by (simp_all add: dequeue_entity'_def)

lemma enqueue_entity'_full:
  assumes "rb_lib_ok L" "timeline_ok s" "x \<notin> set (queue s)" "windowed (ent s) (insert x (set (queue s)))"
  shows "timeline_ok (enqueue_entity' L x s)"
    and "queue (enqueue_entity' L x s) = insert_after (ent s) x (queue s)"
proof -
  let ?t = "tasks_timeline (cfsq s)"
  have t: "distinct (queue s)" "sorted_wrt (not_after (ent s)) (queue s)" "rb_leftmost (cfsq s) = hd_opt (queue s)"
    using assms(2) by (simp_all add: timeline_ok_def)
  have w: "windowed (ent s) (insert x (set_tree ?t))" using assms(4) by (simp add: set_inorder)
  have ins: "inorder (rb_insert_color L x u) = inorder u" for u using assms(1) by (simp add: rb_lib_ok_def)
  show q: "queue (enqueue_entity' L x s) = insert_after (ent s) x (queue s)"
    by (simp add: enqueue_entity'_def split_def Let_def ins link_entity_inorder [OF t(2) w])
  have "rb_leftmost (cfsq (enqueue_entity' L x s)) = hd_opt (insert_after (ent s) x (queue s))"
    by (simp add: enqueue_entity'_def split_def Let_def hd_opt_insert_after t(3) link_entity_leftmost [OF t(2) w])
  then show "timeline_ok (enqueue_entity' L x s)"
    using t assms(3) sorted_insert_after [OF t(2) assms(4)]
    by (simp only: timeline_ok_def q enqueue_entity'_frame(1) distinct_insert_after simp_thms)
qed

lemma sorted_wrt_remove1: "sorted_wrt P xs \<Longrightarrow> sorted_wrt P (remove1 x xs)"
  by (induction xs) (auto dest: set_remove1_subset [THEN subsetD])

lemma dequeue_entity'_full:
  assumes "rb_lib_ok L" "timeline_ok s"
  shows "timeline_ok (dequeue_entity' L x s)"
    and "queue (dequeue_entity' L x s) = remove1 x (queue s)"
proof -
  have t: "distinct (queue s)" "sorted_wrt (not_after (ent s)) (queue s)" "rb_leftmost (cfsq s) = hd_opt (queue s)"
    using assms(2) by (simp_all add: timeline_ok_def)
  show q: "queue (dequeue_entity' L x s) = remove1 x (queue s)"
    using assms(1) t(1) by (simp add: dequeue_entity'_def rb_lib_ok_def)
  have "rb_next L x (tasks_timeline (cfsq s)) = successor x (queue s)"
    using assms(1) t(1) by (simp add: rb_lib_ok_def)
  then have "rb_leftmost (cfsq (dequeue_entity' L x s)) = hd_opt (remove1 x (queue s))"
    using successor_hd [OF t(1), of x] t(1,3) by (cases "queue s") (auto simp: dequeue_entity'_def)
  then show "timeline_ok (dequeue_entity' L x s)"
    using t by (simp only: timeline_ok_def q dequeue_entity'_frame(1) distinct_remove1 sorted_wrt_remove1 simp_thms)
qed

lemma pick_first_minimal:
  assumes "timeline_ok s" "pick_first_entity s = Some x" "y \<in> set (queue s)"
  shows "y = x \<or> not_after (ent s) x y"
  using assms by (auto simp: timeline_ok_def pick_first_entity_def hd_opt_Some simp del: set_inorder)

lemma pick_first_in_queue: "timeline_ok s \<Longrightarrow> pick_first_entity s = Some x \<Longrightarrow> x \<in> set (queue s)"
  by (simp add: timeline_ok_def pick_first_entity_def hd_opt_def split: list.splits del: set_inorder)

lemma pick_first_None: "timeline_ok s \<Longrightarrow> pick_first_entity s = None \<longleftrightarrow> queue s = []"
  by (simp add: timeline_ok_def pick_first_entity_def)

text \<open>
  C11. The timeline implements an ordered queue: an entity is queued behind all entities that are not
  after it and before the others, the cached leftmost entity is the first of the queue (an entity
  that none is before, absent only when nothing waits), and taking the entity out again restores the queue.
\<close>
theorem timeline_refines_queue:
  assumes "rb_lib_ok L" and "timeline_ok s" and "x \<notin> set (queue s)"
    and "windowed (ent s) (insert x (set (queue s)))" and "s' = enqueue_entity' L x s"
  shows "timeline_ok s' \<and> queue s' = insert_after (ent s) x (queue s)
    \<and> timeline_ok (dequeue_entity' L x s') \<and> queue (dequeue_entity' L x s') = queue s
    \<and> (\<exists>y. pick_first_entity s' = Some y \<and> y \<in> set (queue s')
         \<and> (\<forall>z \<in> set (queue s'). z = y \<or> \<not> entity_before (ent s z) (ent s y)))"
proof -
  note e = enqueue_entity'_full [OF assms(1-4), folded assms(5)]
  note d = dequeue_entity'_full [OF assms(1) e(1), of x]
  have "x \<notin> set (takeWhile (\<lambda>y. not_after (ent s) y x) (queue s))"
    using assms(3) by (meson set_takeWhileD)
  then have "remove1 x (insert_after (ent s) x (queue s)) = queue s"
    by (simp add: insert_after_def remove1_append)
  with d(2) e(2) have "queue (dequeue_entity' L x s') = queue s" by simp
  moreover have "queue s' \<noteq> []" using e(2) by (metis insert_not_empty list.set(1) set_insert_after)
  with pick_first_None [OF e(1)] obtain y where y: "pick_first_entity s' = Some y" by (cases "pick_first_entity s'") auto
  moreover have "y \<in> set (queue s')" by (rule pick_first_in_queue [OF e(1) y])
  moreover have "\<forall>z \<in> set (queue s'). z = y \<or> \<not> entity_before (ent s z) (ent s y)"
    using pick_first_minimal [OF e(1) y] by (auto simp: not_after_def assms(5) enqueue_entity'_frame(1))
  ultimately show ?thesis using d(1) e by blast
qed

text \<open>
  \<open>update_min_vruntime\<close> moves the base of the run queue only forward, and never past an entity that is
  running or waiting and was not already behind it.
\<close>
theorem min_vruntime_monotone:
  assumes "timeline_ok s"
    and "\<exists>b. in_window b (min_vruntime (cfsq s)) \<and> (\<forall>x \<in> set (queue s) \<union> set_option (cfs_curr (cfsq s)). in_window b (vrt s x))"
    and "s' = update_min_vruntime s"
  shows "0 \<le> sint (min_vruntime (cfsq s') - min_vruntime (cfsq s))
    \<and> (\<forall>x \<in> set (queue s) \<union> set_option (cfs_curr (cfsq s)).
         sint (min_vruntime (cfsq s') - vrt s x) \<le> max 0 (sint (min_vruntime (cfsq s) - vrt s x)))
    \<and> tsk s' = tsk s \<and> queue s' = queue s \<and> timeline_ok s'"
proof -
  let ?m = "min_vruntime (cfsq s)" and ?A = "set (queue s) \<union> set_option (cfs_curr (cfsq s))"
  from assms(2) obtain b where b: "in_window b ?m" "\<And>x. x \<in> ?A \<Longrightarrow> in_window b (vrt s x)" by blast
  define v0 where "v0 = (case cfs_curr (cfsq s) of Some c \<Rightarrow> vrt s c | None \<Rightarrow> ?m)"
  define v where "v = (case rb_leftmost (cfsq s) of None \<Rightarrow> v0
      | Some x \<Rightarrow> if cfs_curr (cfsq s) = None then vrt s x else min_vruntime' v0 (vrt s x))"
  have m': "min_vruntime (cfsq s') = max_vruntime ?m v"
    unfolding assms(3) update_min_vruntime_def Let_def v_def v0_def by simp
  have fr: "tsk s' = tsk s" "tasks_timeline (cfsq s') = tasks_timeline (cfsq s)" "rb_leftmost (cfsq s') = rb_leftmost (cfsq s)"
    by (simp_all add: assms(3) update_min_vruntime_def Let_def)
  have lm: "rb_leftmost (cfsq s) = hd_opt (queue s)" using assms(1) by (simp add: timeline_ok_def)
  have v0: "in_window b v0" "cfs_curr (cfsq s) = Some c \<Longrightarrow> offset b v0 = offset b (vrt s c)" for c
    using b by (auto simp: v0_def split: option.splits)
  have first: "offset b (vrt s y) \<le> offset b (vrt s x)"
    if "rb_leftmost (cfsq s) = Some y" "x \<in> set (queue s)" for x y
    using pick_first_minimal [OF assms(1), of y x] pick_first_in_queue [OF assms(1), of y] that b entity_before_window [of b "ent s x" "ent s y"]
    by (auto simp: pick_first_entity_def not_after_def not_less)
  have v: "in_window b v \<and> (\<forall>x \<in> ?A. offset b v \<le> max (offset b ?m) (offset b (vrt s x)))"
  proof (cases "rb_leftmost (cfsq s)")
    case None
    then have "queue s = []" using lm by simp
    with None v0 b show ?thesis by (auto simp: v_def v0_def)
  next
    case (Some y)
    then have y: "y \<in> ?A" using lm by (auto simp: hd_opt_Some simp del: set_inorder)
    show ?thesis
    proof (cases "cfs_curr (cfsq s)")
      case None
      with Some b(2) [OF y] first [OF Some] show ?thesis by (auto simp: v_def le_max_iff_disj)
    next
      case (Some c)
      note w = min_vruntime_window [OF v0(1) b(2) [OF y]]
      show ?thesis
        using \<open>rb_leftmost (cfsq s) = Some y\<close> Some w first v0(2) [OF Some]
        by (auto simp: v_def le_max_iff_disj min_le_iff_disj)
    qed
  qed
  note mv = max_vruntime_window [OF b(1) conjunct1 [OF v]]
  have "\<forall>x \<in> ?A. sint (max_vruntime ?m v - vrt s x) \<le> max 0 (sint (?m - vrt s x))"
  proof
    fix x assume x: "x \<in> ?A"
    show "sint (max_vruntime ?m v - vrt s x) \<le> max 0 (sint (?m - vrt s x))"
      unfolding sint_diff_window [OF mv(1) b(2) [OF x]] sint_diff_window [OF b(1) b(2) [OF x]] mv(2)
      using bspec [OF conjunct2 [OF v] x] by (simp add: max_def split: if_splits)
  qed
  moreover have "0 \<le> sint (max_vruntime ?m v - ?m)"
    using sint_diff_window [OF mv(1) b(1)] mv(2) by simp
  ultimately show ?thesis using assms(1) fr by (simp add: m' timeline_ok_def)
qed

section \<open>A concrete tree library\<close>

text \<open>An unbalanced tree shows that the hypothesis on the library can be met.\<close>

fun spine :: "tid list \<Rightarrow> tid tree" where
  "spine [] = \<langle>\<rangle>"
| "spine (x # xs) = \<langle>\<langle>\<rangle>, x, spine xs\<rangle>"

lemma inorder_spine [simp]: "inorder (spine xs) = xs"
  by (induction xs) simp_all

definition plain_rb :: rb_lib where
  "plain_rb = \<lparr>rb_insert_color = (\<lambda>x t. t), rb_erase = (\<lambda>x t. spine (remove1 x (inorder t))),
     rb_next = (\<lambda>x t. successor x (inorder t)), rb_last = (\<lambda>t. last_opt (inorder t))\<rparr>"

lemma plain_rb_ok: "rb_lib_ok plain_rb"
  by (simp add: rb_lib_ok_def plain_rb_def)

text \<open>Two waiting tasks around the wrap of the clock, a third one running.\<close>

definition ent0 :: "bool \<Rightarrow> u64 \<Rightarrow> sched_entity" where
  "ent0 b v = \<lparr>load = \<lparr>weight = 1024, inv_weight = 0\<rparr>, se_on_rq = b, exec_start = 0,
     sum_exec_runtime = 0, vruntime = v, prev_sum_exec_runtime = 0\<rparr>"

definition task0 :: "bool \<Rightarrow> u64 \<Rightarrow> task_struct" where
  "task0 b v = \<lparr>state = 0, on_rq = b, prio = 120, static_prio = 120, normal_prio = 120, rt_priority = 0,
     policy = 0, sched_class = Fair_class, sched_reset_on_fork = False, has_mm = True, se = ent0 b v,
     need_resched = False, pf_frozen = False, nvcsw = 0, nivcsw = 0\<rparr>"

definition cfs0 :: cfs_rq where
  "cfs0 = \<lparr>cfs_load = \<lparr>weight = 3072, inv_weight = 0\<rparr>, cfs_nr_running = 3, h_nr_running = 3,
     min_vruntime = -10, min_vruntime_copy = -10, tasks_timeline = \<langle>\<langle>\<langle>\<rangle>, 2, \<langle>\<rangle>\<rangle>, 1, \<langle>\<rangle>\<rangle>, rb_leftmost = Some 2,
     cfs_curr = Some 3, next_buddy = None, last_buddy = None, skip_buddy = None\<rparr>"

definition sched0 :: sched where
  "sched0 = \<lparr>rq = \<lparr>nr_running = 3, skip_clock_update = 0, rq_load = \<lparr>weight = 3072, inv_weight = 0\<rparr>,
     nr_switches = 0, cfs = cfs0,
     mycfs = \<lparr>mycfs_min_vruntime = 0, mycfs_min_vruntime_copy = 0, mycfs_timeline = \<langle>\<rangle>\<rparr>,
     nr_uninterruptible = 0, curr = 3, idle = 0, stop = None, clock = 5000, clock_task = 5000\<rparr>,
   tsk = (\<lambda>p. if p = 1 then task0 True 20 else if p = 2 then task0 True (-5) else if p = 3 then task0 True 8
                 else task0 False 0)\<rparr>"

lemmas sched0_defs = sched0_def cfs0_def task0_def ent0_def

lemma sched0_timeline: "timeline_ok sched0"
  by (simp add: timeline_ok_def not_after_def entity_before_def sched0_defs)

lemma sched0_window: "in_window (-10) (vrt sched0 p)"
  by (simp add: in_window_def offset_def sched0_defs)

theorem timeline_refines_queue_witness:
  "timeline_ok (enqueue_entity' plain_rb 3 sched0)
   \<and> queue (enqueue_entity' plain_rb 3 sched0) = insert_after (ent sched0) 3 (queue sched0)
   \<and> queue (dequeue_entity' plain_rb 3 (enqueue_entity' plain_rb 3 sched0)) = queue sched0"
proof -
  have "(3::nat) \<notin> set (queue sched0)" by (simp add: sched0_defs)
  moreover have "windowed (ent sched0) (insert 3 (set (queue sched0)))"
    unfolding windowed_def using sched0_window by blast
  ultimately show ?thesis
    using timeline_refines_queue [OF plain_rb_ok sched0_timeline, of 3] by blast
qed

theorem min_vruntime_monotone_witness:
  "0 \<le> sint (min_vruntime (cfsq (update_min_vruntime sched0)) - min_vruntime (cfsq sched0))
   \<and> sint (min_vruntime (cfsq (update_min_vruntime sched0)) - vrt sched0 3) \<le> max 0 (sint (min_vruntime (cfsq sched0) - vrt sched0 3))"
proof -
  have "in_window (-10) (min_vruntime (cfsq sched0))" by (simp add: in_window_def offset_def sched0_defs)
  then have "\<exists>b. in_window b (min_vruntime (cfsq sched0))
      \<and> (\<forall>x \<in> set (queue sched0) \<union> set_option (cfs_curr (cfsq sched0)). in_window b (vrt sched0 x))"
    using sched0_window by blast
  moreover have "3 \<in> set_option (cfs_curr (cfsq sched0))" by (simp add: sched0_defs)
  ultimately show ?thesis using min_vruntime_monotone [OF sched0_timeline _ refl] by blast
qed

end
