(* ===== verification/Cfs_Entity.thy ===== *)
theory Cfs_Entity
  imports Cfs_Timeline
begin

unbundle bit_operations_syntax

text \<open>
  Scheduling entities of the fair class (\<open>hw4/kernel/sched/fair.c\<close>): time slices, the accounting of run time,
  the placement of new and woken entities, enqueueing and dequeueing with the load of the run
  queue, the choice of the next entity with its buddies and the check of the tick. \<open>cfs_inv\<close> ties the
  counters, the load, the buddies and the timeline together, and every operation is shown to keep it.

  The tunables and the feature bits (\<open>features.h\<close>, which is not in the repository) are fields of \<open>fair_env\<close>,
  together with the tree library.
\<close>

section \<open>Tunables\<close>

record fair_env =
  rb :: rb_lib
  sysctl_sched_latency :: u32
  sysctl_sched_min_granularity :: u32
  sysctl_sched_wakeup_granularity :: u32
  sched_nr_latency :: nat
  sysctl_sched_child_runs_first :: bool
  START_DEBIT :: bool
  GENTLE_FAIR_SLEEPERS :: bool
  NEXT_BUDDY :: bool
  LAST_BUDDY :: bool

section \<open>Time slices\<close>

definition sched_period :: "fair_env \<Rightarrow> nat \<Rightarrow> u64" where
  "sched_period env nr =
    (if sched_nr_latency env < nr then ucast (sysctl_sched_min_granularity env) * of_nat nr
     else ucast (sysctl_sched_latency env))"

text \<open>The load of the run queue caches its inverse, so computing a slice can change the state.\<close>

definition sched_slice :: "fair_env \<Rightarrow> tid \<Rightarrow> sched \<Rightarrow> u64 \<times> sched" where
  "sched_slice env p s =
    (let e = ent s p; q = cfsq s;
         slice = sched_period env (cfs_nr_running q + (if se_on_rq e then 0 else 1))
     in if se_on_rq e
        then let (d, lw) = calc_delta_mine (ucast slice) (weight (load e)) (cfs_load q)
             in (ucast d, upd_cfs (\<lambda>q. q\<lparr>cfs_load := lw\<rparr>) s)
        else let (d, lw) = calc_delta_mine (ucast slice) (weight (load e))
                             (update_load_add (cfs_load q) (weight (load e)))
             in (ucast d, s))"

definition fair_delta :: "ulong \<Rightarrow> tid \<Rightarrow> sched \<Rightarrow> ulong \<times> sched" where
  "fair_delta d p s = (let (d', e) = calc_delta_fair d (ent s p) in (d', upd_se p (\<lambda>_. e) s))"

definition sched_vslice :: "fair_env \<Rightarrow> tid \<Rightarrow> sched \<Rightarrow> u64 \<times> sched" where
  "sched_vslice env p s =
    (let (sl, s1) = sched_slice env p s; (d, s2) = fair_delta (ucast sl) p s1 in (ucast d, s2))"

section \<open>Run time of the current entity\<close>

definition update_curr' :: "tid \<Rightarrow> ulong \<Rightarrow> sched \<Rightarrow> sched" where
  "update_curr' c delta_exec s =
    (let s1 = upd_se c (\<lambda>e. e\<lparr>sum_exec_runtime := sum_exec_runtime e + ucast delta_exec\<rparr>) s;
         (d, s2) = fair_delta delta_exec c s1;
         s3 = upd_se c (\<lambda>e. e\<lparr>vruntime := vruntime e + ucast d\<rparr>) s2
     in update_min_vruntime s3)"

definition update_curr :: "sched \<Rightarrow> sched" where
  "update_curr s =
    (case cfs_curr (cfsq s) of
       None \<Rightarrow> s
     | Some c \<Rightarrow>
         (let now = clock_task (rq s); delta_exec = ucast (now - exec_start (ent s c)) :: ulong
          in if delta_exec = 0 then s
             else upd_se c (\<lambda>e. e\<lparr>exec_start := now\<rparr>) (update_curr' c delta_exec s)))"

section \<open>Queueing\<close>

definition account_entity_enqueue :: "tid \<Rightarrow> sched \<Rightarrow> sched" where
  "account_entity_enqueue p s =
    upd_rq (\<lambda>r. r\<lparr>rq_load := update_load_add (rq_load r) (weight (load (ent s p)))\<rparr>)
      (upd_cfs (\<lambda>q. q\<lparr>cfs_load := update_load_add (cfs_load q) (weight (load (ent s p))),
                      cfs_nr_running := cfs_nr_running q + 1\<rparr>) s)"

definition account_entity_dequeue :: "tid \<Rightarrow> sched \<Rightarrow> sched" where
  "account_entity_dequeue p s =
    upd_rq (\<lambda>r. r\<lparr>rq_load := update_load_sub (rq_load r) (weight (load (ent s p)))\<rparr>)
      (upd_cfs (\<lambda>q. q\<lparr>cfs_load := update_load_sub (cfs_load q) (weight (load (ent s p))),
                      cfs_nr_running := cfs_nr_running q - 1\<rparr>) s)"

definition place_entity :: "fair_env \<Rightarrow> tid \<Rightarrow> bool \<Rightarrow> sched \<Rightarrow> sched" where
  "place_entity env p initial s =
    (let v0 = min_vruntime (cfsq s);
         (v1, s1) = (if initial \<and> START_DEBIT env
                     then let (vs, s1) = sched_vslice env p s in (v0 + vs, s1) else (v0, s));
         thresh = (if GENTLE_FAIR_SLEEPERS env then drop_bit 1 (sysctl_sched_latency env)
                   else sysctl_sched_latency env);
         v2 = (if initial then v1 else v1 - ucast thresh)
     in upd_se p (\<lambda>e. e\<lparr>vruntime := max_vruntime (vruntime e) v2\<rparr>) s1)"

definition enqueue_entity :: "fair_env \<Rightarrow> tid \<Rightarrow> u32 \<Rightarrow> sched \<Rightarrow> sched" where
  "enqueue_entity env p flags s =
    (let s1 = (if flags AND ENQUEUE_WAKEUP = 0 \<or> flags AND ENQUEUE_WAKING \<noteq> 0
               then upd_se p (\<lambda>e. e\<lparr>vruntime := vruntime e + min_vruntime (cfsq s)\<rparr>) s else s);
         s2 = account_entity_enqueue p (update_curr s1);
         s3 = (if flags AND ENQUEUE_WAKEUP \<noteq> 0 then place_entity env p False s2 else s2);
         s4 = (if cfs_curr (cfsq s3) \<noteq> Some p then enqueue_entity' (rb env) p s3 else s3)
     in upd_se p (\<lambda>e. e\<lparr>se_on_rq := True\<rparr>) s4)"

definition clear_buddies :: "tid option \<Rightarrow> sched \<Rightarrow> sched" where
  "clear_buddies x = upd_cfs (\<lambda>q. q
     \<lparr>last_buddy := if last_buddy q = x then None else last_buddy q,
      next_buddy := if next_buddy q = x then None else next_buddy q,
      skip_buddy := if skip_buddy q = x then None else skip_buddy q\<rparr>)"

definition dequeue_entity :: "fair_env \<Rightarrow> tid \<Rightarrow> u32 \<Rightarrow> sched \<Rightarrow> sched" where
  "dequeue_entity env p flags s =
    (let s1 = clear_buddies (Some p) (update_curr s);
         s2 = (if cfs_curr (cfsq s1) \<noteq> Some p then dequeue_entity' (rb env) p s1 else s1);
         s3 = account_entity_dequeue p (upd_se p (\<lambda>e. e\<lparr>se_on_rq := False\<rparr>) s2);
         s4 = (if flags AND DEQUEUE_SLEEP = 0
               then upd_se p (\<lambda>e. e\<lparr>vruntime := vruntime e - min_vruntime (cfsq s3)\<rparr>) s3 else s3)
     in update_min_vruntime s4)"

section \<open>Preemption and the next entity\<close>

definition resched_task :: "tid \<Rightarrow> sched \<Rightarrow> sched" where
  "resched_task p = upd_task p (\<lambda>t. t\<lparr>need_resched := True\<rparr>)"

definition check_preempt_tick :: "fair_env \<Rightarrow> tid \<Rightarrow> sched \<Rightarrow> sched result" where
  "check_preempt_tick env c s =
    (let (sl, s1) = sched_slice env c s;
         ideal_runtime = ucast sl :: ulong;
         delta_exec = ucast (sum_exec_runtime (ent s1 c) - prev_sum_exec_runtime (ent s1 c)) :: ulong
     in if ideal_runtime < delta_exec then Inr (clear_buddies (Some c) (resched_task (curr (rq s1)) s1))
        else if delta_exec < sysctl_sched_min_granularity env then Inr s1
        else (case pick_first_entity s1 of
                None \<Rightarrow> Inl NullDeref
              | Some x \<Rightarrow>
                  (let delta = sint (vrt s1 c - vrt s1 x)
                   in if delta < 0 then Inr s1
                      else if int (unat ideal_runtime) < delta then Inr (resched_task (curr (rq s1)) s1)
                      else Inr s1)))"

definition set_next_entity :: "fair_env \<Rightarrow> tid \<Rightarrow> sched \<Rightarrow> sched" where
  "set_next_entity env p s =
    (let s1 = (if se_on_rq (ent s p) then dequeue_entity' (rb env) p s else s)
     in upd_cfs (\<lambda>q. q\<lparr>cfs_curr := Some p\<rparr>)
          (upd_se p (\<lambda>e. e\<lparr>exec_start := clock_task (rq s), prev_sum_exec_runtime := sum_exec_runtime e\<rparr>) s1))"

definition wakeup_gran :: "fair_env \<Rightarrow> tid \<Rightarrow> sched \<Rightarrow> ulong \<times> sched" where
  "wakeup_gran env p = fair_delta (sysctl_sched_wakeup_granularity env) p"

definition wakeup_preempt_entity :: "fair_env \<Rightarrow> tid \<Rightarrow> tid \<Rightarrow> sched \<Rightarrow> int \<times> sched" where
  "wakeup_preempt_entity env c p s =
    (let vdiff = sint (vrt s c - vrt s p)
     in if vdiff \<le> 0 then (- 1, s)
        else let (gran, s1) = wakeup_gran env p s
             in (if int (unat gran) < vdiff then 1 else 0, s1))"

text \<open>\<open>lft\<close> (\<open>left\<close> in the code) is null when nothing waits; the code reads its virtual run time all the same.\<close>

definition prefer_buddy ::
    "fair_env \<Rightarrow> tid option \<Rightarrow> tid option \<Rightarrow> tid option \<times> sched \<Rightarrow> (tid option \<times> sched) result" where
  "prefer_buddy env buddy lft pick =
    (case buddy of
       None \<Rightarrow> Inr pick
     | Some n \<Rightarrow>
         (case lft of
            None \<Rightarrow> Inl NullDeref
          | Some l \<Rightarrow> (let (w, s1) = wakeup_preempt_entity env n l (snd pick)
                       in Inr (if w < 1 then Some n else fst pick, s1))))"

definition pick_next_entity :: "fair_env \<Rightarrow> sched \<Rightarrow> (tid option \<times> sched) result" where
  "pick_next_entity env s =
    (let lft = pick_first_entity s
     in rbind (if skip_buddy (cfsq s) = lft
               then (case lft of
                       None \<Rightarrow> Inl NullDeref
                     | Some l \<Rightarrow> prefer_buddy env (pick_next_entity' (rb env) l s) lft (lft, s))
               else Inr (lft, s))
          (\<lambda>p1. rbind (prefer_buddy env (last_buddy (cfsq (snd p1))) lft p1)
          (\<lambda>p2. rbind (prefer_buddy env (next_buddy (cfsq (snd p2))) lft p2)
          (\<lambda>p3. Inr (fst p3, clear_buddies (fst p3) (snd p3))))))"

definition put_prev_entity :: "fair_env \<Rightarrow> tid \<Rightarrow> sched \<Rightarrow> sched" where
  "put_prev_entity env p s =
    (let s1 = (if se_on_rq (ent s p) then update_curr s else s);
         s2 = (if se_on_rq (ent s1 p) then enqueue_entity' (rb env) p s1 else s1)
     in upd_cfs (\<lambda>q. q\<lparr>cfs_curr := None\<rparr>) s2)"

definition entity_tick :: "fair_env \<Rightarrow> tid \<Rightarrow> sched \<Rightarrow> sched result" where
  "entity_tick env p s =
    (let s1 = update_curr s
     in if 1 < cfs_nr_running (cfsq s1) then check_preempt_tick env p s1 else Inr s1)"

section \<open>The invariant of the fair run queue\<close>

definition runnable :: "sched \<Rightarrow> tid set" where
  "runnable s = {p. se_on_rq (ent s p)}"

definition buddies :: "sched \<Rightarrow> tid set" where
  "buddies s = set_option (next_buddy (cfsq s)) \<union> set_option (last_buddy (cfsq s)) \<union> set_option (skip_buddy (cfsq s))"

definition cfs_inv :: "sched \<Rightarrow> bool" where
  "cfs_inv s \<longleftrightarrow> timeline_ok s
     \<and> set (queue s) \<subseteq> runnable s \<and> runnable s \<subseteq> set (queue s) \<union> set_option (cfs_curr (cfsq s))
     \<and> set_option (cfs_curr (cfsq s)) \<inter> set (queue s) = {}
     \<and> cfs_nr_running (cfsq s) = card (runnable s)
     \<and> weight (cfs_load (cfsq s)) = (\<Sum>p \<in> runnable s. weight (load (ent s p)))
     \<and> buddies s \<subseteq> runnable s"

lemma cfs_invD:
  assumes "cfs_inv s"
  shows "timeline_ok s" "set (queue s) \<subseteq> runnable s" "runnable s \<subseteq> set (queue s) \<union> set_option (cfs_curr (cfsq s))"
    "set_option (cfs_curr (cfsq s)) \<inter> set (queue s) = {}" "cfs_nr_running (cfsq s) = card (runnable s)" "buddies s \<subseteq> runnable s"
  using assms unfolding cfs_inv_def by blast+

lemma finite_runnable: "cfs_inv s \<Longrightarrow> finite (runnable s)"
  unfolding cfs_inv_def by (auto elim: finite_subset)

text \<open>A step that only charges run time: the queue, the counters and the weights stay.\<close>

definition quiet :: "sched \<Rightarrow> sched \<Rightarrow> bool" where
  "quiet s s' \<longleftrightarrow> tasks_timeline (cfsq s') = tasks_timeline (cfsq s) \<and> rb_leftmost (cfsq s') = rb_leftmost (cfsq s)
     \<and> cfs_curr (cfsq s') = cfs_curr (cfsq s) \<and> next_buddy (cfsq s') = next_buddy (cfsq s)
     \<and> last_buddy (cfsq s') = last_buddy (cfsq s) \<and> skip_buddy (cfsq s') = skip_buddy (cfsq s)
     \<and> cfs_nr_running (cfsq s') = cfs_nr_running (cfsq s) \<and> h_nr_running (cfsq s') = h_nr_running (cfsq s)
     \<and> weight (cfs_load (cfsq s')) = weight (cfs_load (cfsq s))
     \<and> nr_running (rq s') = nr_running (rq s) \<and> curr (rq s') = curr (rq s)
     \<and> (\<forall>p. se_on_rq (ent s' p) = se_on_rq (ent s p) \<and> weight (load (ent s' p)) = weight (load (ent s p))
          \<and> (cfs_curr (cfsq s) \<noteq> Some p \<longrightarrow> vrt s' p = vrt s p))"

lemma quiet_refl [simp]: "quiet s s"
  by (simp add: quiet_def)

lemma quiet_trans: "quiet s s' \<Longrightarrow> quiet s' s'' \<Longrightarrow> quiet s s''"
  by (simp add: quiet_def)

lemma quiet_cfs_curr: "quiet s s' \<Longrightarrow> cfs_curr (cfsq s') = cfs_curr (cfsq s)"
  by (simp add: quiet_def)

lemma sorted_wrt_cong: "(\<And>x y. x \<in> set xs \<Longrightarrow> y \<in> set xs \<Longrightarrow> P x y = Q x y) \<Longrightarrow> sorted_wrt P xs = sorted_wrt Q xs"
  by (induction xs) auto

lemma timeline_ok_cong:
  assumes "tasks_timeline (cfsq s') = tasks_timeline (cfsq s)" "rb_leftmost (cfsq s') = rb_leftmost (cfsq s)"
    "\<And>p. p \<in> set (queue s) \<Longrightarrow> vrt s' p = vrt s p"
  shows "timeline_ok s' = timeline_ok s"
  using assms sorted_wrt_cong [of "queue s" "not_after (ent s')" "not_after (ent s)"]
  by (simp add: timeline_ok_def not_after_def entity_before_def)

lemma quiet_runnable: "quiet s s' \<Longrightarrow> runnable s' = runnable s"
  by (simp add: quiet_def runnable_def)

lemma cfs_inv_quiet:
  assumes "cfs_inv s" "quiet s s'"
  shows "cfs_inv s'"
proof -
  have "timeline_ok s' = timeline_ok s"
    using assms unfolding cfs_inv_def quiet_def by (intro timeline_ok_cong) auto
  with assms show ?thesis
    unfolding cfs_inv_def quiet_runnable [OF assms(2)] by (simp add: quiet_def buddies_def)
qed

lemma quiet_update_min_vruntime [simp]: "quiet s (update_min_vruntime s)"
  by (simp add: quiet_def update_min_vruntime_def Let_def)

lemma weight_calc_delta [simp]: "weight (snd (calc_delta_mine d w lw)) = weight lw"
  by (simp add: calc_delta_mine_def Let_def)

lemma quiet_sched_slice: "quiet s (snd (sched_slice env p s))"
  by (simp add: quiet_def sched_slice_def split_def Let_def)

lemma calc_delta_fair_frame [simp]:
  "se_on_rq (snd (calc_delta_fair d e)) = se_on_rq e"
  "weight (load (snd (calc_delta_fair d e))) = weight (load e)"
  "vruntime (snd (calc_delta_fair d e)) = vruntime e"
  "exec_start (snd (calc_delta_fair d e)) = exec_start e"
  "sum_exec_runtime (snd (calc_delta_fair d e)) = sum_exec_runtime e"
  "prev_sum_exec_runtime (snd (calc_delta_fair d e)) = prev_sum_exec_runtime e"
  by (simp_all add: calc_delta_fair_def split_def Let_def)

lemma quiet_fair_delta: "quiet s (snd (fair_delta d p s))"
  by (simp add: quiet_def fair_delta_def split_def Let_def)

lemma quiet_sched_vslice: "quiet s (snd (sched_vslice env p s))"
  unfolding sched_vslice_def split_def Let_def snd_conv
  by (rule quiet_trans [OF quiet_sched_slice quiet_fair_delta])

lemma quiet_upd_curr_se:
  assumes "cfs_curr (cfsq s) = Some c" "\<And>e. se_on_rq (f e) = se_on_rq e" "\<And>e. weight (load (f e)) = weight (load e)"
  shows "quiet s (upd_se c f s)"
  using assms by (simp add: quiet_def)

lemma quiet_update_curr': "cfs_curr (cfsq s) = Some c \<Longrightarrow> quiet s (update_curr' c d s)"
proof -
  assume c: "cfs_curr (cfsq s) = Some c"
  let ?s1 = "upd_se c (\<lambda>e. e\<lparr>sum_exec_runtime := sum_exec_runtime e + ucast d\<rparr>) s"
  let ?s2 = "snd (fair_delta d c ?s1)"
  have 1: "quiet s ?s1" using c by (rule quiet_upd_curr_se) simp_all
  have 2: "quiet s ?s2" by (rule quiet_trans [OF 1 quiet_fair_delta])
  then have "cfs_curr (cfsq ?s2) = Some c" using c by (simp add: quiet_def)
  then have "quiet s (upd_se c (\<lambda>e. e\<lparr>vruntime := vruntime e + ucast (fst (fair_delta d c ?s1))\<rparr>) ?s2)"
    by (intro quiet_trans [OF 2] quiet_upd_curr_se) simp_all
  then show ?thesis
    unfolding update_curr'_def Let_def split_def by (rule quiet_trans [OF _ quiet_update_min_vruntime])
qed

lemma quiet_update_curr [simp]: "quiet s (update_curr s)"
proof (cases "cfs_curr (cfsq s)")
  case (Some c)
  have "quiet s (upd_se c (\<lambda>e. e\<lparr>exec_start := clock_task (rq s)\<rparr>) (update_curr' c d s))" for d
    by (rule quiet_trans [OF quiet_update_curr' [OF Some, of d]], rule quiet_upd_curr_se)
      (simp_all add: quiet_cfs_curr [OF quiet_update_curr' [OF Some]] Some)
  with Some show ?thesis by (simp add: update_curr_def Let_def)
qed (simp add: update_curr_def)

lemma quiet_wakeup_preempt: "quiet s (snd (wakeup_preempt_entity env c p s))"
  by (simp add: wakeup_preempt_entity_def wakeup_gran_def Let_def split_def quiet_fair_delta)

lemma quiet_resched [simp]: "quiet s (resched_task p s)"
  by (simp add: quiet_def resched_task_def)

section \<open>Every operation keeps the invariant\<close>

lemma cfs_inv_addI:
  assumes "cfs_inv t" "p \<notin> runnable t" "timeline_ok s"
    "set (queue s) = (if cfs_curr (cfsq t) = Some p then set (queue t) else insert p (set (queue t)))"
    "cfs_curr (cfsq s) = cfs_curr (cfsq t)" "runnable s = insert p (runnable t)"
    "cfs_nr_running (cfsq s) = Suc (cfs_nr_running (cfsq t))"
    "weight (cfs_load (cfsq s)) = weight (cfs_load (cfsq t)) + weight (load (ent t p))"
    "\<And>q. weight (load (ent s q)) = weight (load (ent t q))" "buddies s = buddies t"
  shows "cfs_inv s"
  using assms finite_runnable [OF assms(1)] unfolding cfs_inv_def
  by (auto simp: add.commute split: if_splits)

lemma cfs_inv_delI:
  assumes "cfs_inv t" "p \<in> runnable t" "timeline_ok s" "set (queue s) = set (queue t) - {p}"
    "cfs_curr (cfsq s) = cfs_curr (cfsq t)" "runnable s = runnable t - {p}"
    "cfs_nr_running (cfsq s) = cfs_nr_running (cfsq t) - 1"
    "weight (cfs_load (cfsq s)) = weight (cfs_load (cfsq t)) - weight (load (ent t p))"
    "\<And>q. weight (load (ent s q)) = weight (load (ent t q))" "buddies s = buddies t - {p}"
  shows "cfs_inv s"
proof -
  have "(\<Sum>q \<in> runnable t - {p}. weight (load (ent t q))) = (\<Sum>q \<in> runnable t. weight (load (ent t q))) - weight (load (ent t p))"
    using finite_runnable [OF assms(1)] assms(2) by (simp add: sum_diff1)
  with assms finite_runnable [OF assms(1)] show ?thesis
    unfolding cfs_inv_def by (auto simp: card_Diff_singleton)
qed

lemma cfs_inv_upd_waiting:
  assumes "cfs_inv s" "p \<notin> runnable s" "\<And>e. se_on_rq (f e) = se_on_rq e"
  shows "cfs_inv (upd_se p f s)"
proof -
  have r: "runnable (upd_se p f s) = runnable s" using assms(3) by (auto simp: runnable_def)
  have "p \<notin> set (queue s)" using assms by (auto simp: cfs_inv_def)
  then have "timeline_ok (upd_se p f s) = timeline_ok s" by (intro timeline_ok_cong) auto
  moreover have "(\<Sum>q \<in> runnable s. weight (load (ent (upd_se p f s) q))) = (\<Sum>q \<in> runnable s. weight (load (ent s q)))"
    by (rule sum.cong) (use assms(2) in auto)
  ultimately show ?thesis using assms(1) by (simp add: cfs_inv_def r buddies_def)
qed

lemma upd_se_vruntime:
  "upd_se p (\<lambda>e. e\<lparr>vruntime := g (vruntime e)\<rparr>) s = upd_se p (\<lambda>e. e\<lparr>vruntime := g (vrt s p)\<rparr>) s"
  by (simp add: upd_se_def upd_task_def)

lemma place_entity_cases:
  obtains s1 v where "quiet s s1" "place_entity env p i s = upd_se p (\<lambda>e. e\<lparr>vruntime := v\<rparr>) s1"
proof (cases "i \<and> START_DEBIT env")
  case True
  show thesis
    by (rule that [OF quiet_sched_vslice [of s env p]], simp only: place_entity_def Let_def split_def True simp_thms if_True fst_conv snd_conv,
        rule upd_se_vruntime)
next
  case False
  show thesis
    by (rule that [OF quiet_refl], simp only: place_entity_def Let_def split_def False simp_thms if_False fst_conv snd_conv,
        rule upd_se_vruntime)
qed

text \<open>
  What \<open>enqueue_entity\<close> has done before it links the entity into the timeline: the load and the counter
  include it, and of the waiting entities only its own virtual run time has changed.
\<close>

definition accounted :: "tid \<Rightarrow> sched \<Rightarrow> sched \<Rightarrow> bool" where
  "accounted p t s \<longleftrightarrow> tasks_timeline (cfsq s) = tasks_timeline (cfsq t) \<and> rb_leftmost (cfsq s) = rb_leftmost (cfsq t)
     \<and> cfs_curr (cfsq s) = cfs_curr (cfsq t) \<and> buddies s = buddies t
     \<and> cfs_nr_running (cfsq s) = Suc (cfs_nr_running (cfsq t)) \<and> h_nr_running (cfsq s) = h_nr_running (cfsq t)
     \<and> weight (cfs_load (cfsq s)) = weight (cfs_load (cfsq t)) + weight (load (ent t p))
     \<and> nr_running (rq s) = nr_running (rq t) \<and> curr (rq s) = curr (rq t)
     \<and> (\<forall>q. se_on_rq (ent s q) = se_on_rq (ent t q) \<and> weight (load (ent s q)) = weight (load (ent t q))
          \<and> (q \<noteq> p \<longrightarrow> cfs_curr (cfsq t) \<noteq> Some q \<longrightarrow> vrt s q = vrt t q))"

lemma accounted_account: "accounted p t (account_entity_enqueue p t)"
  by (simp add: accounted_def account_entity_enqueue_def buddies_def)

lemma accounted_place: "accounted p t (place_entity env p i (account_entity_enqueue p t))"
  by (rule place_entity_cases [of "account_entity_enqueue p t" env p i])
    (simp add: accounted_def account_entity_enqueue_def buddies_def quiet_def)

definition enqueue_prepare :: "fair_env \<Rightarrow> tid \<Rightarrow> u32 \<Rightarrow> sched \<Rightarrow> sched" where
  "enqueue_prepare env p flags s =
    (let s1 = (if flags AND ENQUEUE_WAKEUP = 0 \<or> flags AND ENQUEUE_WAKING \<noteq> 0
               then upd_se p (\<lambda>e. e\<lparr>vruntime := vruntime e + min_vruntime (cfsq s)\<rparr>) s else s);
         s2 = account_entity_enqueue p (update_curr s1)
     in if flags AND ENQUEUE_WAKEUP \<noteq> 0 then place_entity env p False s2 else s2)"

lemma enqueue_entity_split:
  "enqueue_entity env p flags s =
    (let s3 = enqueue_prepare env p flags s
     in upd_se p (\<lambda>e. e\<lparr>se_on_rq := True\<rparr>) (if cfs_curr (cfsq s3) \<noteq> Some p then enqueue_entity' (rb env) p s3 else s3))"
  by (simp add: enqueue_entity_def enqueue_prepare_def Let_def)

lemma enqueue_prepare_accounted:
  assumes "cfs_inv s" "p \<notin> runnable s"
  obtains t where "cfs_inv t" "runnable t = runnable s" "queue t = queue s" "cfs_curr (cfsq t) = cfs_curr (cfsq s)"
    "h_nr_running (cfsq t) = h_nr_running (cfsq s)" "nr_running (rq t) = nr_running (rq s)" "curr (rq t) = curr (rq s)"
    "accounted p t (enqueue_prepare env p flags s)"
proof -
  define s1 where "s1 = (if flags AND ENQUEUE_WAKEUP = 0 \<or> flags AND ENQUEUE_WAKING \<noteq> 0
               then upd_se p (\<lambda>e. e\<lparr>vruntime := vruntime e + min_vruntime (cfsq s)\<rparr>) s else s)"
  have i: "cfs_inv s1" using assms cfs_inv_upd_waiting [OF assms] by (simp add: s1_def)
  have r: "runnable s1 = runnable s" "rq s1 = rq s" by (auto simp: s1_def runnable_def)
  have "accounted p (update_curr s1) (enqueue_prepare env p flags s)"
    using accounted_account accounted_place by (simp add: enqueue_prepare_def Let_def flip: s1_def)
  moreover have "quiet s1 (update_curr s1)" by simp
  ultimately show thesis
    using that [of "update_curr s1"] cfs_inv_quiet [OF i] quiet_runnable [of s1 "update_curr s1"] r
    by (simp add: quiet_def)
qed

lemma enqueue_entity_inv:
  assumes "rb_lib_ok (rb env)" "cfs_inv s" "p \<notin> runnable s"
    and s': "s' = enqueue_entity env p flags s"
    and "windowed (ent s') (insert p (set (queue s)))"
  shows "cfs_inv s'" "runnable s' = insert p (runnable s)" "cfs_curr (cfsq s') = cfs_curr (cfsq s)"
    "h_nr_running (cfsq s') = h_nr_running (cfsq s)" "nr_running (rq s') = nr_running (rq s)" "curr (rq s') = curr (rq s)"
proof -
  let ?u = "enqueue_prepare env p flags s"
  obtain t where t: "cfs_inv t" "runnable t = runnable s" "queue t = queue s" "cfs_curr (cfsq t) = cfs_curr (cfsq s)"
    "h_nr_running (cfsq t) = h_nr_running (cfsq s)" "nr_running (rq t) = nr_running (rq s)" "curr (rq t) = curr (rq s)"
    and a: "accounted p t ?u"
    by (rule enqueue_prepare_accounted [OF assms(2,3)])
  define w where "w = (if cfs_curr (cfsq ?u) \<noteq> Some p then enqueue_entity' (rb env) p ?u else ?u)"
  have s'w: "s' = upd_se p (\<lambda>e. e\<lparr>se_on_rq := True\<rparr>) w"
    by (simp add: s' enqueue_entity_split w_def Let_def)
  have tw: "tsk w = tsk ?u" by (simp add: w_def enqueue_entity'_frame)
  have fw: "cfs_curr (cfsq w) = cfs_curr (cfsq ?u)" "buddies w = buddies ?u"
    "cfs_nr_running (cfsq w) = cfs_nr_running (cfsq ?u)" "h_nr_running (cfsq w) = h_nr_running (cfsq ?u)"
    "weight (cfs_load (cfsq w)) = weight (cfs_load (cfsq ?u))" "nr_running (rq w) = nr_running (rq ?u)" "curr (rq w) = curr (rq ?u)"
    by (simp_all add: w_def enqueue_entity'_def split_def Let_def buddies_def)
  have pq: "p \<notin> set (queue s)" using assms(2,3) by (auto simp: cfs_inv_def)
  have qu: "queue ?u = queue s" using a t(3) by (simp add: accounted_def)
  have cq: "set_option (cfs_curr (cfsq t)) \<inter> set (queue s) = {}" using t(1,3) by (simp add: cfs_inv_def)
  have tu: "timeline_ok ?u"
    using t(1) a pq t(3) cq by (subst timeline_ok_cong [of ?u t]) (auto simp: accounted_def cfs_inv_def)
  have v: "vrt s' q = vrt ?u q" for q by (simp add: s'w tw)
  have win: "windowed (ent ?u) (insert p (set (queue ?u)))"
    using assms(5) unfolding qu by (simp add: windowed_def v)
  have W: "timeline_ok w" "set (queue w) = (if cfs_curr (cfsq t) = Some p then set (queue t) else insert p (set (queue t)))"
    using enqueue_entity'_full [OF assms(1) tu _ win] tu pq a t(3) qu
    by (auto simp: w_def accounted_def simp del: set_inorder)
  have "timeline_ok s'" using W(1) by (subst timeline_ok_cong [of s' w]) (simp_all add: s'w)
  moreover have r: "runnable s' = insert p (runnable t)"
    using a by (auto simp: runnable_def s'w tw accounted_def)
  ultimately show "cfs_inv s'"
    using a W(2) t assms(3) fw
    by (intro cfs_inv_addI [OF t(1)]) (simp_all add: s'w tw accounted_def buddies_def)
  show "runnable s' = insert p (runnable s)" "cfs_curr (cfsq s') = cfs_curr (cfsq s)"
    "h_nr_running (cfsq s') = h_nr_running (cfsq s)" "nr_running (rq s') = nr_running (rq s)" "curr (rq s') = curr (rq s)"
    using r t fw a by (simp_all add: s'w accounted_def)
qed

lemma dequeue_entity_inv:
  assumes "rb_lib_ok (rb env)" "cfs_inv s" "p \<in> runnable s" and s': "s' = dequeue_entity env p flags s"
  shows "cfs_inv s'" "runnable s' = runnable s - {p}" "queue s' = remove1 p (queue s)" "cfs_curr (cfsq s') = cfs_curr (cfsq s)"
    "h_nr_running (cfsq s') = h_nr_running (cfsq s)" "nr_running (rq s') = nr_running (rq s)" "curr (rq s') = curr (rq s)"
proof -
  define t where "t = update_curr s"
  have t: "cfs_inv t" "quiet s t" using cfs_inv_quiet [OF assms(2)] by (simp_all add: t_def)
  have pt: "p \<in> runnable t" using assms(3) quiet_runnable [OF t(2)] by simp
  define s1 where "s1 = clear_buddies (Some p) t"
  define s2 where "s2 = (if cfs_curr (cfsq s1) \<noteq> Some p then dequeue_entity' (rb env) p s1 else s1)"
  define s3 where "s3 = account_entity_dequeue p (upd_se p (\<lambda>e. e\<lparr>se_on_rq := False\<rparr>) s2)"
  define s4 where "s4 = (if flags AND DEQUEUE_SLEEP = 0
               then upd_se p (\<lambda>e. e\<lparr>vruntime := vruntime e - min_vruntime (cfsq s3)\<rparr>) s3 else s3)"
  have s's4: "s' = update_min_vruntime s4"
    unfolding s' dequeue_entity_def Let_def t_def [symmetric] s1_def [symmetric] s2_def [symmetric] s3_def [symmetric]
      s4_def [symmetric] ..
  have f1: "tsk s1 = tsk t" "tasks_timeline (cfsq s1) = tasks_timeline (cfsq t)" "rb_leftmost (cfsq s1) = rb_leftmost (cfsq t)"
    "cfs_curr (cfsq s1) = cfs_curr (cfsq t)" "buddies s1 = buddies t - {p}"
    "cfs_nr_running (cfsq s1) = cfs_nr_running (cfsq t)" "h_nr_running (cfsq s1) = h_nr_running (cfsq t)"
    "cfs_load (cfsq s1) = cfs_load (cfsq t)" "nr_running (rq s1) = nr_running (rq t)" "curr (rq s1) = curr (rq t)"
    by (auto simp: s1_def clear_buddies_def buddies_def)
  have tl1: "timeline_ok s1" using t(1) by (subst timeline_ok_cong [of s1 t]) (simp_all add: f1 cfs_inv_def)
  have f2: "tsk s2 = tsk t" "cfs_curr (cfsq s2) = cfs_curr (cfsq t)" "buddies s2 = buddies s1"
    "cfs_nr_running (cfsq s2) = cfs_nr_running (cfsq t)" "h_nr_running (cfsq s2) = h_nr_running (cfsq t)"
    "cfs_load (cfsq s2) = cfs_load (cfsq t)" "nr_running (rq s2) = nr_running (rq t)" "curr (rq s2) = curr (rq t)"
    using f1 by (simp_all add: s2_def dequeue_entity'_def buddies_def)
  have "cfs_curr (cfsq t) = Some p \<Longrightarrow> p \<notin> set (queue t)" using t(1) by (auto simp: cfs_inv_def)
  then have q2: "queue s2 = remove1 p (queue t)" and tl2: "timeline_ok s2"
    using dequeue_entity'_full [OF assms(1) tl1, of p] tl1 f1
    by (auto simp: s2_def remove1_idem simp del: set_inorder)
  have sq: "set (queue s2) = set (queue t) - {p}"
    using q2 t(1) by (simp add: cfs_inv_def timeline_ok_def set_remove1_eq)
  have f4: "tasks_timeline (cfsq s4) = tasks_timeline (cfsq s2)" "rb_leftmost (cfsq s4) = rb_leftmost (cfsq s2)"
    "cfs_curr (cfsq s4) = cfs_curr (cfsq t)" "buddies s4 = buddies t - {p}"
    "cfs_nr_running (cfsq s4) = cfs_nr_running (cfsq t) - 1" "h_nr_running (cfsq s4) = h_nr_running (cfsq t)"
    "weight (cfs_load (cfsq s4)) = weight (cfs_load (cfsq t)) - weight (load (ent t p))"
    "nr_running (rq s4) = nr_running (rq t)" "curr (rq s4) = curr (rq t)"
    "\<And>q. weight (load (ent s4 q)) = weight (load (ent t q))" "\<And>q. q \<noteq> p \<Longrightarrow> vrt s4 q = vrt s2 q"
    using f1 f2 by (simp_all add: s4_def s3_def account_entity_dequeue_def buddies_def)
  have r4: "runnable s4 = runnable t - {p}"
    by (auto simp: s4_def s3_def account_entity_dequeue_def runnable_def f2)
  have "timeline_ok s4" using tl2 sq by (subst timeline_ok_cong [of s4 s2]) (auto simp: f4 simp del: set_inorder)
  then have i4: "cfs_inv s4"
    using sq by (intro cfs_inv_delI [OF t(1) pt]) (simp_all only: f4 r4)
  show "cfs_inv s'" unfolding s's4 by (rule cfs_inv_quiet [OF i4 quiet_update_min_vruntime])
  have q: "quiet s4 s'" by (simp add: s's4)
  show "runnable s' = runnable s - {p}" using quiet_runnable [OF q] quiet_runnable [OF t(2)] r4 by simp
  show "queue s' = remove1 p (queue s)" "cfs_curr (cfsq s') = cfs_curr (cfsq s)"
    "h_nr_running (cfsq s') = h_nr_running (cfsq s)" "nr_running (rq s') = nr_running (rq s)" "curr (rq s') = curr (rq s)"
    using q t(2) f4 q2 by (simp_all add: quiet_def)
qed

lemma put_prev_entity_inv:
  assumes "rb_lib_ok (rb env)" "cfs_inv s" "cfs_curr (cfsq s) = Some p" and s': "s' = put_prev_entity env p s"
    and "se_on_rq (ent s p) \<Longrightarrow> windowed (ent s') (insert p (set (queue s)))"
  shows "cfs_inv s'" "runnable s' = runnable s" "cfs_curr (cfsq s') = None" "cfs_nr_running (cfsq s') = cfs_nr_running (cfsq s)"
    "h_nr_running (cfsq s') = h_nr_running (cfsq s)" "nr_running (rq s') = nr_running (rq s)" "curr (rq s') = curr (rq s)"
proof -
  define t where "t = (if se_on_rq (ent s p) then update_curr s else s)"
  have t: "quiet s t" by (simp add: t_def)
  have it: "cfs_inv t" by (rule cfs_inv_quiet [OF assms(2) t])
  define u where "u = (if se_on_rq (ent t p) then enqueue_entity' (rb env) p t else t)"
  have s'u: "s' = upd_cfs (\<lambda>q. q\<lparr>cfs_curr := None\<rparr>) u" by (simp add: s' put_prev_entity_def t_def u_def Let_def)
  have ct: "cfs_curr (cfsq t) = Some p" "p \<notin> set (queue t)" using t assms(3) it by (auto simp: quiet_def cfs_inv_def)
  have fu: "tsk u = tsk t" "buddies u = buddies t" "cfs_nr_running (cfsq u) = cfs_nr_running (cfsq t)"
    "h_nr_running (cfsq u) = h_nr_running (cfsq t)" "cfs_load (cfsq u) = cfs_load (cfsq t)"
    "nr_running (rq u) = nr_running (rq t)" "curr (rq u) = curr (rq t)"
    by (simp_all add: u_def enqueue_entity'_def split_def Let_def buddies_def)
  have "windowed (ent t) (insert p (set (queue t)))" if "se_on_rq (ent t p)"
    using assms(5) that t fu(1) by (simp add: s'u quiet_def)
  then have "timeline_ok u" "set (queue u) = (if se_on_rq (ent t p) then insert p (set (queue t)) else set (queue t))"
    using enqueue_entity'_full [OF assms(1), of t p] it ct(2) by (auto simp: u_def cfs_inv_def simp del: set_inorder)
  moreover have "timeline_ok s' = timeline_ok u" by (rule timeline_ok_cong) (simp_all add: s'u)
  moreover have r: "runnable s' = runnable t" by (simp add: runnable_def s'u fu)
  moreover have "runnable t \<subseteq> set (queue t) \<union> {p}" "set (queue t) \<subseteq> runnable t"
    using it ct(1) by (auto simp: cfs_inv_def simp del: set_inorder)
  moreover have "p \<in> runnable t \<longleftrightarrow> se_on_rq (ent t p)" by (simp add: runnable_def)
  ultimately show "cfs_inv s'"
    using it fu unfolding cfs_inv_def
    by (auto simp: s'u buddies_def simp del: set_inorder)
  show "runnable s' = runnable s" using r quiet_runnable [OF t] by simp
  show "cfs_curr (cfsq s') = None" "cfs_nr_running (cfsq s') = cfs_nr_running (cfsq s)"
    "h_nr_running (cfsq s') = h_nr_running (cfsq s)" "nr_running (rq s') = nr_running (rq s)" "curr (rq s') = curr (rq s)"
    using t fu by (simp_all add: s'u quiet_def)
qed

lemma set_next_entity_inv:
  assumes "rb_lib_ok (rb env)" "cfs_inv s" "cfs_curr (cfsq s) = None" and s': "s' = set_next_entity env p s"
  shows "cfs_inv s'" "runnable s' = runnable s" "cfs_curr (cfsq s') = Some p" "queue s' = remove1 p (queue s)"
    "cfs_nr_running (cfsq s') = cfs_nr_running (cfsq s)"
    "h_nr_running (cfsq s') = h_nr_running (cfsq s)" "nr_running (rq s') = nr_running (rq s)" "curr (rq s') = curr (rq s)"
proof -
  define t where "t = (if se_on_rq (ent s p) then dequeue_entity' (rb env) p s else s)"
  have s't: "s' = upd_cfs (\<lambda>q. q\<lparr>cfs_curr := Some p\<rparr>)
      (upd_se p (\<lambda>e. e\<lparr>exec_start := clock_task (rq s), prev_sum_exec_runtime := sum_exec_runtime e\<rparr>) t)"
    by (simp add: s' set_next_entity_def t_def Let_def)
  have i: "timeline_ok s" "runnable s = set (queue s)" using assms(2,3) by (auto simp: cfs_inv_def simp del: set_inorder)
  have ft: "tsk t = tsk s" "buddies t = buddies s" "cfs_nr_running (cfsq t) = cfs_nr_running (cfsq s)"
    "h_nr_running (cfsq t) = h_nr_running (cfsq s)" "cfs_load (cfsq t) = cfs_load (cfsq s)"
    "nr_running (rq t) = nr_running (rq s)" "curr (rq t) = curr (rq s)"
    by (simp_all add: t_def dequeue_entity'_def buddies_def)
  have "p \<notin> set (queue s) \<Longrightarrow> \<not> se_on_rq (ent s p)" using i(2) by (auto simp: runnable_def)
  then have q: "queue t = remove1 p (queue s)" and "timeline_ok t"
    using dequeue_entity'_full [OF assms(1) i(1), of p] i by (auto simp: t_def remove1_idem runnable_def simp del: set_inorder)
  moreover have "timeline_ok s' = timeline_ok t" by (rule timeline_ok_cong) (simp_all add: s't)
  moreover have r: "runnable s' = runnable s" by (auto simp: runnable_def s't ft)
  moreover have "set (queue s') = set (queue s) - {p}"
    using q i(1) by (simp add: s't timeline_ok_def set_remove1_eq)
  moreover have "weight (load (ent s' q)) = weight (load (ent s q))" for q by (simp add: s't ft)
  moreover have "cfs_curr (cfsq s') = Some p" "buddies s' = buddies s" "cfs_nr_running (cfsq s') = cfs_nr_running (cfsq s)"
    "cfs_load (cfsq s') = cfs_load (cfsq s)"
    using ft by (simp_all add: s't buddies_def)
  ultimately show "cfs_inv s'"
    using assms(2) i(2) unfolding cfs_inv_def r by (auto simp del: set_inorder)
  show "runnable s' = runnable s" by (rule r)
  show "cfs_curr (cfsq s') = Some p" "queue s' = remove1 p (queue s)" "cfs_nr_running (cfsq s') = cfs_nr_running (cfsq s)"
    "h_nr_running (cfsq s') = h_nr_running (cfsq s)" "nr_running (rq s') = nr_running (rq s)" "curr (rq s') = curr (rq s)"
    using q ft by (simp_all add: s't)
qed

lemma cfs_inv_clear_buddies:
  assumes "cfs_inv s"
  shows "cfs_inv (clear_buddies x s)"
proof -
  have "timeline_ok (clear_buddies x s) = timeline_ok s" by (rule timeline_ok_cong) (simp_all add: clear_buddies_def)
  moreover have "buddies (clear_buddies x s) \<subseteq> buddies s" "runnable (clear_buddies x s) = runnable s"
    by (auto simp: clear_buddies_def buddies_def runnable_def)
  ultimately show ?thesis using assms by (auto simp: cfs_inv_def clear_buddies_def)
qed

section \<open>The choice of the next entity\<close>

definition gran :: "fair_env \<Rightarrow> sched \<Rightarrow> tid \<Rightarrow> int" where
  "gran env s p = int (unat (fst (wakeup_gran env p s)))"

lemma fill_inv_weight_idem [simp]: "fill_inv_weight (fill_inv_weight lw) = fill_inv_weight lw"
  by (auto simp: fill_inv_weight_def)

lemma calc_delta_fair_fill:
  assumes "fill_inv_weight (load e) = fill_inv_weight (load e')"
  shows "fst (calc_delta_fair d e) = fst (calc_delta_fair d e')"
proof -
  have "weight (load e) = weight (load e')" using assms by (metis fill_inv_weight_weight)
  with assms show ?thesis by (simp add: calc_delta_fair_def calc_delta_mine_def Let_def split_def)
qed

lemma fill_calc_delta_fair [simp]:
  "fill_inv_weight (load (snd (calc_delta_fair d e))) = fill_inv_weight (load e)"
  by (simp add: calc_delta_fair_def calc_delta_mine_def Let_def split_def)

lemma fill_wakeup_preempt [simp]:
  "fill_inv_weight (load (ent (snd (wakeup_preempt_entity env c p s)) q)) = fill_inv_weight (load (ent s q))"
  by (simp add: wakeup_preempt_entity_def wakeup_gran_def fair_delta_def Let_def split_def)

lemma wakeup_preempt_small:
  "fst (wakeup_preempt_entity env c p s) < 1 \<longleftrightarrow> sint (vrt s c - vrt s p) \<le> 0 \<or> sint (vrt s c - vrt s p) \<le> gran env s p"
  by (auto simp: wakeup_preempt_entity_def gran_def Let_def split_def)

lemma gran_nonneg: "0 \<le> gran env s p"
  by (simp add: gran_def)

text \<open>Which entities the run queue may run next, when \<open>l\<close> has the smallest virtual run time.\<close>

definition fair_choice :: "fair_env \<Rightarrow> sched \<Rightarrow> tid \<Rightarrow> tid \<Rightarrow> bool" where
  "fair_choice env s l p \<longleftrightarrow> p \<in> set (queue s) \<and> (p = l \<or> sint (vrt s p - vrt s l) \<le> gran env s l)"

text \<open>A state of the search: only inverses of weights were filled in since \<open>s\<close>.\<close>

definition search_state :: "sched \<Rightarrow> sched \<Rightarrow> bool" where
  "search_state s t \<longleftrightarrow> quiet s t \<and> (\<forall>q. fill_inv_weight (load (ent t q)) = fill_inv_weight (load (ent s q)))"

lemma prefer_buddy_fair:
  assumes "cfs_curr (cfsq s) = None" "search_state s t" "fair_choice env s l x" "set_option b \<subseteq> set (queue s)"
  shows "\<exists>y t'. prefer_buddy env b (Some l) (Some x, t) = Inr (Some y, t') \<and> fair_choice env s l y \<and> search_state s t'"
proof (cases b)
  case None
  with assms show ?thesis by (simp add: prefer_buddy_def)
next
  case (Some n)
  let ?r = "wakeup_preempt_entity env n l t"
  have q: "quiet s t" and f: "\<And>q. fill_inv_weight (load (ent t q)) = fill_inv_weight (load (ent s q))"
    using assms(2) by (simp_all add: search_state_def)
  have v: "vrt t q = vrt s q" for q using assms(1) q by (simp add: quiet_def)
  have g: "gran env t l = gran env s l"
    unfolding gran_def wakeup_gran_def fair_delta_def split_def Let_def fst_conv
    by (simp only: calc_delta_fair_fill [OF f])
  have "fair_choice env s l (if fst ?r < 1 then n else x)"
    using assms(3,4) Some gran_nonneg [of env s l] by (auto simp: fair_choice_def wakeup_preempt_small v g)
  moreover have "search_state s (snd ?r)"
    using quiet_trans [OF q quiet_wakeup_preempt] f by (simp add: search_state_def)
  ultimately show ?thesis
    using Some by (auto simp: prefer_buddy_def Let_def split_def split: if_splits)
qed

lemma quiet_buddy: "quiet s t \<Longrightarrow> last_buddy (cfsq t) = last_buddy (cfsq s)" "quiet s t \<Longrightarrow> next_buddy (cfsq t) = next_buddy (cfsq s)"
  by (simp_all add: quiet_def)

lemma pick_next_entity_full:
  assumes "rb_lib_ok (rb env)" "cfs_inv s" "cfs_curr (cfsq s) = None" "pick_first_entity s = Some l"
  obtains p t where "pick_next_entity env s = Inr (Some p, clear_buddies (Some p) t)" "fair_choice env s l p" "quiet s t"
proof -
  have i: "timeline_ok s" "runnable s = set (queue s)" "buddies s \<subseteq> set (queue s)"
    using assms(2,3) by (auto simp: cfs_inv_def simp del: set_inorder)
  have b: "set_option (last_buddy (cfsq s)) \<subseteq> set (queue s)" "set_option (next_buddy (cfsq s)) \<subseteq> set (queue s)"
    using i(3) by (simp_all add: buddies_def)
  have l: "fair_choice env s l l"
    using pick_first_in_queue [OF i(1) assms(4)] by (simp add: fair_choice_def)
  have n: "set_option (pick_next_entity' (rb env) l s) \<subseteq> set (queue s)"
    using assms(1) i(1) successor_set [of l "queue s"]
    by (auto simp: pick_next_entity'_def rb_lib_ok_def timeline_ok_def simp del: set_inorder)
  have q: "search_state s s" by (simp add: search_state_def)
  note step = prefer_buddy_fair [OF assms(3)]
  from step [OF q l n] q l obtain x1 t1 where
    1: "(if skip_buddy (cfsq s) = Some l then prefer_buddy env (pick_next_entity' (rb env) l s) (Some l) (Some l, s)
        else Inr (Some l, s)) = Inr (Some x1, t1)" "fair_choice env s l x1" "search_state s t1"
    by (cases "skip_buddy (cfsq s) = Some l") auto
  from step [OF 1(3,2) b(1)] obtain x2 t2 where
    2: "prefer_buddy env (last_buddy (cfsq s)) (Some l) (Some x1, t1) = Inr (Some x2, t2)"
      "fair_choice env s l x2" "search_state s t2"
    by blast
  from step [OF 2(3,2) b(2)] obtain x3 t3 where
    3: "prefer_buddy env (next_buddy (cfsq s)) (Some l) (Some x2, t2) = Inr (Some x3, t3)"
      "fair_choice env s l x3" "search_state s t3"
    by blast
  have q3: "quiet s t1" "quiet s t2" "quiet s t3" using 1(3) 2(3) 3(3) by (simp_all add: search_state_def)
  have "pick_next_entity env s = Inr (Some x3, clear_buddies (Some x3) t3)"
    unfolding pick_next_entity_def Let_def assms(4) option.case
    by (simp add: 1(1) 2(1) 3(1) quiet_buddy [OF q3(1)] quiet_buddy [OF q3(2)])
  with 3 q3 that show thesis by blast
qed

text \<open>
  C14. When something waits, \<open>pick_next_entity\<close> touches no null pointer and returns a waiting entity whose virtual
  run time is ahead of the smallest one by at most the wakeup granularity in the time of the leftmost
  entity: the buddies never cost more fairness than that.
\<close>
theorem pick_next_entity_fair:
  assumes "rb_lib_ok (rb env)" and "cfs_inv s" and "cfs_curr (cfsq s) = None" and "0 < cfs_nr_running (cfsq s)"
  shows "\<exists>l p s'. pick_first_entity s = Some l \<and> pick_next_entity env s = Inr (Some p, s')
      \<and> (\<forall>q \<in> set (queue s). q = l \<or> \<not> entity_before (ent s q) (ent s l))
      \<and> p \<in> set (queue s) \<and> (p = l \<or> sint (vrt s p - vrt s l) \<le> gran env s l)
      \<and> cfs_inv s' \<and> queue s' = queue s \<and> p \<notin> buddies s'"
proof -
  have i: "timeline_ok s" "runnable s = set (queue s)" "cfs_nr_running (cfsq s) = card (runnable s)"
    using assms(2,3) by (auto simp: cfs_inv_def simp del: set_inorder)
  with assms(4) have "queue s \<noteq> []" by (metis card.empty less_numeral_extra(3) list.set(1))
  with pick_first_None [OF i(1)] obtain l where l: "pick_first_entity s = Some l" by (cases "pick_first_entity s") auto
  obtain p t where p: "pick_next_entity env s = Inr (Some p, clear_buddies (Some p) t)" "fair_choice env s l p" "quiet s t"
    by (rule pick_next_entity_full [OF assms(1-3) l])
  let ?s' = "clear_buddies (Some p) t"
  have "cfs_inv ?s'" by (rule cfs_inv_clear_buddies [OF cfs_inv_quiet [OF assms(2) p(3)]])
  moreover have "p \<notin> buddies ?s'" by (auto simp: clear_buddies_def buddies_def)
  moreover have "queue ?s' = queue s" using p(3) by (simp add: clear_buddies_def quiet_def)
  ultimately show ?thesis
    using p(1,2) l pick_first_minimal [OF i(1) l] unfolding fair_choice_def not_after_def by blast
qed

lemma waiting_if_two:
  assumes "cfs_inv s" "1 < cfs_nr_running (cfsq s)"
  shows "pick_first_entity s \<noteq> None"
proof
  assume "pick_first_entity s = None"
  then have "queue s = []" using pick_first_None assms(1) by (simp add: cfs_inv_def)
  then have "runnable s \<subseteq> set_option (cfs_curr (cfsq s))" using assms(1) by (simp add: cfs_inv_def)
  then have "card (runnable s) \<le> card (set_option (cfs_curr (cfsq s)))" by (rule card_mono [rotated]) simp
  also have "\<dots> \<le> 1" by (cases "cfs_curr (cfsq s)") simp_all
  finally show False using assms by (simp add: cfs_inv_def)
qed

definition slice_used :: "fair_env \<Rightarrow> tid \<Rightarrow> sched \<Rightarrow> bool" where
  "slice_used env p s \<longleftrightarrow> (ucast (fst (sched_slice env p s)) :: ulong)
     < ucast (sum_exec_runtime (ent s p) - prev_sum_exec_runtime (ent s p))"

lemma sched_slice_ent [simp]: "tsk (snd (sched_slice env p s)) = tsk s"
  by (simp add: sched_slice_def Let_def split_def)

lemma check_preempt_tick_cases:
  assumes "t = snd (sched_slice env p s)" "r = resched_task (curr (rq t)) t" "pick_first_entity t \<noteq> None"
  shows "\<exists>s'. check_preempt_tick env p s = Inr s' \<and> (s' = clear_buddies (Some p) r \<or> \<not> slice_used env p s \<and> (s' = r \<or> s' = t))"
proof -
  obtain x where x: "pick_first_entity t = Some x" using assms(3) by auto
  have e: "sched_slice env p s = (fst (sched_slice env p s), t)" by (simp add: assms(1))
  have ts: "tsk t = tsk s" by (simp add: assms(1))
  show ?thesis
    unfolding check_preempt_tick_def slice_used_def Let_def
    by (subst e, subst e, unfold prod.case, unfold x ts option.case fst_conv assms(2) [symmetric]) auto
qed

lemma entity_tick_full:
  assumes "cfs_inv s" and "cfs_curr (cfsq s) = Some p"
  shows "\<exists>s'. entity_tick env p s = Inr s' \<and> cfs_inv s' \<and> queue s' = queue s
    \<and> cfs_nr_running (cfsq s') = cfs_nr_running (cfsq s) \<and> h_nr_running (cfsq s') = h_nr_running (cfsq s)
    \<and> nr_running (rq s') = nr_running (rq s)
    \<and> (1 < cfs_nr_running (cfsq s) \<and> slice_used env p (update_curr s) \<longrightarrow> need_resched (tsk s' (curr (rq s))))"
proof -
  define t where "t = update_curr s"
  define t1 where "t1 = snd (sched_slice env p t)"
  have q: "quiet s t" by (simp add: t_def)
  have q1: "quiet s t1" unfolding t1_def by (rule quiet_trans [OF q quiet_sched_slice])
  have i1: "cfs_inv t1" by (rule cfs_inv_quiet [OF assms(1) q1])
  have c: "curr (rq t1) = curr (rq s)" "queue t1 = queue s" using q1 by (simp_all add: quiet_def)
  have n: "cfs_nr_running (cfsq t) = cfs_nr_running (cfsq s)" using q by (simp add: quiet_def)
  show ?thesis
  proof (cases "1 < cfs_nr_running (cfsq s)")
    case False
    then have "entity_tick env p s = Inr t" using n by (simp add: entity_tick_def Let_def t_def)
    with False q cfs_inv_quiet [OF assms(1) q] show ?thesis by (simp add: quiet_def)
  next
    case True
    then have e: "entity_tick env p s = check_preempt_tick env p t" using n by (simp add: entity_tick_def Let_def t_def)
    have "pick_first_entity t1 \<noteq> None" using waiting_if_two [OF i1] True q1 by (simp add: quiet_def)
    from check_preempt_tick_cases [OF t1_def refl this] obtain s' where s': "check_preempt_tick env p t = Inr s'"
      "s' = clear_buddies (Some p) (resched_task (curr (rq t1)) t1)
        \<or> \<not> slice_used env p t \<and> (s' = resched_task (curr (rq t1)) t1 \<or> s' = t1)"
      by blast
    have "cfs_inv s'"
      using s'(2) i1 cfs_inv_quiet [OF i1 quiet_resched] cfs_inv_clear_buddies by blast
    moreover have "queue s' = queue s" "cfs_nr_running (cfsq s') = cfs_nr_running (cfsq s)"
      "h_nr_running (cfsq s') = h_nr_running (cfsq s)" "nr_running (rq s') = nr_running (rq s)"
      using s'(2) c(2) q1 by (auto simp: clear_buddies_def resched_task_def quiet_def)
    moreover have "need_resched (tsk s' (curr (rq s)))" if "slice_used env p t"
      using s'(2) that c(1) by (auto simp: clear_buddies_def resched_task_def)
    ultimately show ?thesis unfolding t_def [symmetric] e s'(1) by blast
  qed
qed

text \<open>
  The tick of a running entity touches no null pointer and keeps the invariant; a current task
  that has used up its slice while others wait is marked for rescheduling.
\<close>
theorem entity_tick_correct:
  assumes "cfs_inv s" and "cfs_curr (cfsq s) = Some p"
  shows "\<exists>s'. entity_tick env p s = Inr s' \<and> cfs_inv s' \<and> queue s' = queue s
    \<and> (1 < cfs_nr_running (cfsq s) \<and> slice_used env p (update_curr s) \<longrightarrow> need_resched (tsk s' (curr (rq s))))"
  using entity_tick_full [OF assms] by blast

section \<open>Witnesses\<close>

definition env0 :: fair_env where
  "env0 = \<lparr>rb = plain_rb, sysctl_sched_latency = 6000000, sysctl_sched_min_granularity = 750000,
     sysctl_sched_wakeup_granularity = 1000000, sched_nr_latency = 8, sysctl_sched_child_runs_first = False,
     START_DEBIT = True, GENTLE_FAIR_SLEEPERS = True, NEXT_BUDDY = False, LAST_BUDDY = True\<rparr>"

lemma env0_rb: "rb_lib_ok (rb env0)"
  by (simp add: env0_def plain_rb_ok)

lemma sched0_runnable: "runnable sched0 = {1, 2, 3}"
  by (auto simp: runnable_def sched0_defs)

lemma sched0_inv: "cfs_inv sched0"
  using sched0_timeline by (simp add: cfs_inv_def sched0_runnable buddies_def) (simp add: sched0_defs)

lemma sched0_curr: "cfs_curr (cfsq sched0) = Some 3"
  by (simp add: sched0_defs)

text \<open>The run queue after the running task was put back.\<close>

definition sched1 :: sched where
  "sched1 = put_prev_entity env0 3 sched0"

lemma sched1_facts: "cfs_inv sched1" "cfs_curr (cfsq sched1) = None" "0 < cfs_nr_running (cfsq sched1)"
proof -
  have "vrt sched1 q = vrt (update_curr sched0) q" for q
    by (simp add: sched1_def put_prev_entity_def Let_def enqueue_entity'_frame) (simp add: sched0_defs)
  moreover have "vrt (update_curr sched0) 3 = 5008"
    by (simp add: update_curr_def update_curr'_def update_min_vruntime_def fair_delta_def calc_delta_fair_def
        sched0_defs sched_const_defs Let_def)
  moreover have "vrt (update_curr sched0) q = vrt sched0 q" if "q \<noteq> 3" for q
    using quiet_update_curr [of sched0] that by (simp add: quiet_def sched0_curr)
  ultimately have "in_window (-10) (vrt sched1 q)" for q
    using sched0_window [of q] by (cases "q = 3") (simp_all add: in_window_def offset_def)
  then have "windowed (ent sched1) (insert 3 (set (queue sched0)))" unfolding windowed_def by blast
  from put_prev_entity_inv [OF env0_rb sched0_inv sched0_curr sched1_def this]
  show "cfs_inv sched1" "cfs_curr (cfsq sched1) = None" "0 < cfs_nr_running (cfsq sched1)"
    by (simp_all add: sched0_defs)
qed

theorem pick_next_entity_fair_witness:
  "\<exists>l p s'. pick_next_entity env0 sched1 = Inr (Some p, s') \<and> pick_first_entity sched1 = Some l
    \<and> p \<in> set (queue sched1) \<and> (p = l \<or> sint (vrt sched1 p - vrt sched1 l) \<le> gran env0 sched1 l) \<and> cfs_inv s'"
  using pick_next_entity_fair [OF env0_rb sched1_facts] by blast

theorem entity_tick_correct_witness:
  "\<exists>s'. entity_tick env0 3 sched0 = Inr s' \<and> cfs_inv s' \<and> queue s' = queue sched0"
  using entity_tick_correct [OF sched0_inv sched0_curr, of env0] by blast

end
