(* ===== verification/Cfs_Class.thy ===== *)
theory Cfs_Class
  imports Cfs_Entity
begin

unbundle bit_operations_syntax

text \<open>
  The methods of \<open>fair_sched_class\<close> (\<open>hw4/kernel/sched/fair.c\<close>) on tasks, and the life of a fair run queue as
  a step relation: from the empty queue of \<open>init_cfs_rq\<close>, through any sequence of wakeups, sleeps,
  picks, ticks, yields and preemption checks, the invariant of \<open>Cfs_Entity\<close> holds and the counters
  agree.
\<close>

section \<open>Clock and counters of the run queue\<close>

text \<open>\<open>now\<close> is what \<open>sched_clock_cpu\<close> returns.\<close>

definition update_rq_clock :: "u64 \<Rightarrow> sched \<Rightarrow> sched" where
  "update_rq_clock now s =
    (if 0 < skip_clock_update (rq s) then s
     else let delta = now - clock (rq s)
          in upd_rq (\<lambda>r. r\<lparr>clock := clock r + delta, clock_task := clock_task r + delta\<rparr>) s)"

definition inc_nr_running :: "sched \<Rightarrow> sched" where
  "inc_nr_running = upd_rq (\<lambda>r. r\<lparr>nr_running := nr_running r + 1\<rparr>)"

definition dec_nr_running :: "sched \<Rightarrow> sched" where
  "dec_nr_running = upd_rq (\<lambda>r. r\<lparr>nr_running := nr_running r - 1\<rparr>)"

section \<open>Methods of the class\<close>

text \<open>
  With one level of entities the second loop of \<open>enqueue_task_fair\<close> runs only for a task that was already
  queued; either way each counter grows by one.
\<close>

definition enqueue_task_fair :: "fair_env \<Rightarrow> tid \<Rightarrow> u32 \<Rightarrow> sched \<Rightarrow> sched" where
  "enqueue_task_fair env p flags s =
    (let s1 = (if se_on_rq (ent s p) then s else enqueue_entity env p flags s)
     in inc_nr_running (upd_cfs (\<lambda>q. q\<lparr>h_nr_running := h_nr_running q + 1\<rparr>) s1))"

definition dequeue_task_fair :: "fair_env \<Rightarrow> tid \<Rightarrow> u32 \<Rightarrow> sched \<Rightarrow> sched" where
  "dequeue_task_fair env p flags s =
    dec_nr_running (upd_cfs (\<lambda>q. q\<lparr>h_nr_running := h_nr_running q - 1\<rparr>) (dequeue_entity env p flags s))"

definition set_last_buddy :: "tid \<Rightarrow> sched \<Rightarrow> sched" where
  "set_last_buddy p s = (if policy (tsk s p) = SCHED_IDLE then s else upd_cfs (\<lambda>q. q\<lparr>last_buddy := Some p\<rparr>) s)"

definition set_next_buddy :: "tid \<Rightarrow> sched \<Rightarrow> sched" where
  "set_next_buddy p s = (if policy (tsk s p) = SCHED_IDLE then s else upd_cfs (\<lambda>q. q\<lparr>next_buddy := Some p\<rparr>) s)"

definition set_skip_buddy :: "tid \<Rightarrow> sched \<Rightarrow> sched" where
  "set_skip_buddy p = upd_cfs (\<lambda>q. q\<lparr>skip_buddy := Some p\<rparr>)"

text \<open>The code after the label \<open>preempt\<close>.\<close>

definition preempt_curr :: "fair_env \<Rightarrow> bool \<Rightarrow> sched \<Rightarrow> sched" where
  "preempt_curr env scale s =
    (let c = curr (rq s); s1 = resched_task c s
     in if \<not> se_on_rq (ent s1 c) \<or> c = idle (rq s1) then s1
        else if LAST_BUDDY env \<and> scale then set_last_buddy c s1 else s1)"

definition check_preempt_wakeup :: "fair_env \<Rightarrow> tid \<Rightarrow> u32 \<Rightarrow> sched \<Rightarrow> sched" where
  "check_preempt_wakeup env p wake_flags s =
    (let c = curr (rq s); scale = sched_nr_latency env \<le> cfs_nr_running (cfsq s)
     in if c = p then s
        else let marked = NEXT_BUDDY env \<and> scale \<and> wake_flags AND WF_FORK = 0;
                 s1 = (if marked then set_next_buddy p s else s)
             in if need_resched (tsk s1 c) then s1
                else if policy (tsk s1 c) = SCHED_IDLE \<and> policy (tsk s1 p) \<noteq> SCHED_IDLE then preempt_curr env scale s1
                else if policy (tsk s1 p) \<noteq> SCHED_NORMAL then s1
                else let (w, s2) = wakeup_preempt_entity env c p (update_curr s1)
                     in if w = 1 then preempt_curr env scale (if marked then s2 else set_next_buddy p s2) else s2)"

definition pick_next_task_fair :: "fair_env \<Rightarrow> sched \<Rightarrow> (tid option \<times> sched) result" where
  "pick_next_task_fair env s =
    (if cfs_nr_running (cfsq s) = 0 then Inr (None, s)
     else rbind (pick_next_entity env s)
       (\<lambda>(x, s1). case x of None \<Rightarrow> Inl NullDeref | Some p \<Rightarrow> Inr (Some p, set_next_entity env p s1)))"

definition put_prev_task_fair :: "fair_env \<Rightarrow> tid \<Rightarrow> sched \<Rightarrow> sched" where
  "put_prev_task_fair = put_prev_entity"

definition yield_task_fair :: "u64 \<Rightarrow> sched \<Rightarrow> sched" where
  "yield_task_fair now s =
    (let c = curr (rq s)
     in if nr_running (rq s) = 1 then s
        else let s1 = clear_buddies (Some c) s;
                 s2 = (if policy (tsk s1 c) \<noteq> SCHED_BATCH
                       then upd_rq (\<lambda>r. r\<lparr>skip_clock_update := 1\<rparr>) (update_curr (update_rq_clock now s1)) else s1)
             in set_skip_buddy c s2)"

definition yield_to_task_fair :: "u64 \<Rightarrow> tid \<Rightarrow> sched \<Rightarrow> bool \<times> sched" where
  "yield_to_task_fair now p s =
    (if \<not> se_on_rq (ent s p) then (False, s) else (True, yield_task_fair now (set_next_buddy p s)))"

definition task_tick_fair :: "fair_env \<Rightarrow> tid \<Rightarrow> sched \<Rightarrow> sched result" where
  "task_tick_fair = entity_tick"

definition task_fork_fair :: "fair_env \<Rightarrow> u64 \<Rightarrow> tid \<Rightarrow> sched \<Rightarrow> sched" where
  "task_fork_fair env now p s =
    (let s1 = update_curr (update_rq_clock now s);
         s2 = (case cfs_curr (cfsq s1) of Some c \<Rightarrow> upd_se p (\<lambda>e. e\<lparr>vruntime := vrt s1 c\<rparr>) s1 | None \<Rightarrow> s1);
         s3 = place_entity env p True s2;
         s4 = (case cfs_curr (cfsq s3) of
                 None \<Rightarrow> s3
               | Some c \<Rightarrow> if sysctl_sched_child_runs_first env \<and> entity_before (ent s3 c) (ent s3 p)
                   then resched_task (curr (rq s3))
                     (upd_se p (\<lambda>e. e\<lparr>vruntime := vrt s3 c\<rparr>) (upd_se c (\<lambda>e. e\<lparr>vruntime := vrt s3 p\<rparr>) s3))
                   else s3)
     in upd_se p (\<lambda>e. e\<lparr>vruntime := vruntime e - min_vruntime (cfsq s4)\<rparr>) s4)"

definition switched_from_fair :: "fair_env \<Rightarrow> tid \<Rightarrow> sched \<Rightarrow> sched" where
  "switched_from_fair env p s =
    (if \<not> se_on_rq (ent s p) \<and> state (tsk s p) \<noteq> 0
     then let s1 = place_entity env p False s
          in upd_se p (\<lambda>e. e\<lparr>vruntime := vruntime e - min_vruntime (cfsq s1)\<rparr>) s1
     else s)"

definition set_curr_task_fair :: "fair_env \<Rightarrow> sched \<Rightarrow> sched" where
  "set_curr_task_fair env s = set_next_entity env (curr (rq s)) s"

definition get_rr_interval_fair :: "fair_env \<Rightarrow> nat \<Rightarrow> tid \<Rightarrow> sched \<Rightarrow> nat \<times> sched" where
  "get_rr_interval_fair env HZ p s =
    (if weight (cfs_load (cfsq s)) \<noteq> 0
     then let (sl, s1) = sched_slice env p s in (unat (ucast sl :: ulong) div (1000000000 div HZ), s1)
     else (0, s))"

definition init_cfs_rq :: "cfs_rq \<Rightarrow> cfs_rq" where
  "init_cfs_rq q = q\<lparr>tasks_timeline := \<langle>\<rangle>, min_vruntime := - (2 ^ 20), min_vruntime_copy := - (2 ^ 20)\<rparr>"

section \<open>The run queue in operation\<close>

text \<open>
  \<open>fair_inv\<close> adds the task counters. A step is one call of a method by the core scheduler, in the states in
  which the core calls it. \<open>windowed\<close> is required of the virtual run times at the moment a task is
  put on the timeline.
\<close>

definition fair_inv :: "sched \<Rightarrow> bool" where
  "fair_inv s \<longleftrightarrow> cfs_inv s \<and> h_nr_running (cfsq s) = cfs_nr_running (cfsq s) \<and> h_nr_running (cfsq s) \<le> nr_running (rq s)"

inductive fair_step :: "fair_env \<Rightarrow> sched \<Rightarrow> sched \<Rightarrow> bool" for env where
  step_clock: "fair_step env s (update_rq_clock now s)"
| step_enqueue: "p \<notin> runnable s \<Longrightarrow> s' = enqueue_task_fair env p flags s
    \<Longrightarrow> windowed (ent s') (insert p (set (queue s))) \<Longrightarrow> fair_step env s s'"
| step_dequeue: "p \<in> runnable s \<Longrightarrow> fair_step env s (dequeue_task_fair env p flags s)"
| step_wakeup: "p \<in> runnable s \<Longrightarrow> fair_step env s (check_preempt_wakeup env p flags s)"
| step_pick: "cfs_curr (cfsq s) = None \<Longrightarrow> pick_next_task_fair env s = Inr (x, s') \<Longrightarrow> fair_step env s s'"
| step_put: "cfs_curr (cfsq s) = Some p \<Longrightarrow> s' = put_prev_task_fair env p s
    \<Longrightarrow> p \<in> runnable s \<longrightarrow> windowed (ent s') (insert p (set (queue s))) \<Longrightarrow> fair_step env s s'"
| step_tick: "cfs_curr (cfsq s) = Some p \<Longrightarrow> task_tick_fair env p s = Inr s' \<Longrightarrow> fair_step env s s'"
| step_yield: "curr (rq s) \<in> runnable s \<Longrightarrow> fair_step env s (yield_task_fair now s)"
| step_set_curr: "cfs_curr (cfsq s) = None \<Longrightarrow> fair_step env s (set_curr_task_fair env s)"
| step_reweight: "p \<notin> runnable s \<Longrightarrow> fair_step env s (upd_se p (\<lambda>e. e\<lparr>load := lw\<rparr>) s)"
| step_switched_from: "fair_step env s (switched_from_fair env p s)"

inductive fair_reach :: "fair_env \<Rightarrow> sched \<Rightarrow> bool" for env where
  fair_reach_init: "cfsq s = init_cfs_rq q \<Longrightarrow> rb_leftmost q = None \<Longrightarrow> cfs_curr q = None \<Longrightarrow> next_buddy q = None
    \<Longrightarrow> last_buddy q = None \<Longrightarrow> skip_buddy q = None \<Longrightarrow> cfs_nr_running q = 0 \<Longrightarrow> h_nr_running q = 0
    \<Longrightarrow> weight (cfs_load q) = 0 \<Longrightarrow> runnable s = {} \<Longrightarrow> fair_reach env s"
| fair_reach_step: "fair_reach env s \<Longrightarrow> fair_step env s s' \<Longrightarrow> fair_reach env s'"

text \<open>Steps that keep the queue.\<close>

lemma fair_inv_quiet: "fair_inv s \<Longrightarrow> quiet s s' \<Longrightarrow> fair_inv s'"
  using cfs_inv_quiet by (auto simp: fair_inv_def quiet_def)

lemma quiet_update_rq_clock [simp]: "quiet s (update_rq_clock now s)"
  by (simp add: update_rq_clock_def quiet_def Let_def)

lemma cfs_inv_set_buddy:
  assumes "cfs_inv s" "p \<in> runnable s" "rq s' = (rq s)\<lparr>cfs := q\<rparr>" "tsk s' = tsk s"
    "q \<in> {(cfsq s)\<lparr>last_buddy := Some p\<rparr>, (cfsq s)\<lparr>next_buddy := Some p\<rparr>, (cfsq s)\<lparr>skip_buddy := Some p\<rparr>}"
  shows "cfs_inv s'"
proof -
  have q: "tasks_timeline q = tasks_timeline (cfsq s)" "rb_leftmost q = rb_leftmost (cfsq s)" "cfs_curr q = cfs_curr (cfsq s)"
    "cfs_nr_running q = cfs_nr_running (cfsq s)" "cfs_load q = cfs_load (cfsq s)"
    using assms(5) by auto
  then have t: "timeline_ok s' = timeline_ok s" by (intro timeline_ok_cong) (simp_all add: assms(3,4))
  have b: "buddies s' \<subseteq> insert p (buddies s)" and r: "runnable s' = runnable s"
    using assms(3-5) by (auto simp: buddies_def runnable_def)
  have "buddies s' \<subseteq> runnable s" using b assms(1,2) by (auto simp: cfs_inv_def)
  with assms(1) show ?thesis unfolding cfs_inv_def r t by (simp add: assms(3,4) q del: set_inorder)
qed

lemma cfs_inv_buddies:
  assumes "cfs_inv s" "p \<in> runnable s"
  shows "cfs_inv (set_last_buddy p s)" "cfs_inv (set_next_buddy p s)" "cfs_inv (set_skip_buddy p s)"
proof -
  note b = cfs_inv_set_buddy [OF assms]
  have "cfs_inv (upd_cfs (\<lambda>q. q\<lparr>last_buddy := Some p\<rparr>) s)" "cfs_inv (upd_cfs (\<lambda>q. q\<lparr>next_buddy := Some p\<rparr>) s)"
    "cfs_inv (upd_cfs (\<lambda>q. q\<lparr>skip_buddy := Some p\<rparr>) s)"
    by (rule b [OF upd_cfs_simps], simp)+
  with assms(1) show "cfs_inv (set_last_buddy p s)" "cfs_inv (set_next_buddy p s)" "cfs_inv (set_skip_buddy p s)"
    by (simp_all only: set_last_buddy_def set_next_buddy_def set_skip_buddy_def split: if_split) blast+
qed

lemma nr_frames [simp]:
  "cfs_nr_running (cfsq (set_last_buddy p s)) = cfs_nr_running (cfsq s)" "cfs_nr_running (cfsq (set_next_buddy p s)) = cfs_nr_running (cfsq s)"
  "cfs_nr_running (cfsq (set_skip_buddy p s)) = cfs_nr_running (cfsq s)" "cfs_nr_running (cfsq (clear_buddies x s)) = cfs_nr_running (cfsq s)"
  "h_nr_running (cfsq (set_last_buddy p s)) = h_nr_running (cfsq s)" "h_nr_running (cfsq (set_next_buddy p s)) = h_nr_running (cfsq s)"
  "h_nr_running (cfsq (set_skip_buddy p s)) = h_nr_running (cfsq s)" "h_nr_running (cfsq (clear_buddies x s)) = h_nr_running (cfsq s)"
  "nr_running (rq (set_last_buddy p s)) = nr_running (rq s)" "nr_running (rq (set_next_buddy p s)) = nr_running (rq s)"
  "nr_running (rq (set_skip_buddy p s)) = nr_running (rq s)" "nr_running (rq (clear_buddies x s)) = nr_running (rq s)"
  by (simp_all add: set_last_buddy_def set_next_buddy_def set_skip_buddy_def clear_buddies_def)

lemma fair_inv_buddies:
  assumes "fair_inv s"
  shows "p \<in> runnable s \<Longrightarrow> fair_inv (set_last_buddy p s)" "p \<in> runnable s \<Longrightarrow> fair_inv (set_next_buddy p s)"
    "p \<in> runnable s \<Longrightarrow> fair_inv (set_skip_buddy p s)" "fair_inv (clear_buddies x s)"
  using assms cfs_inv_buddies [of s p] cfs_inv_clear_buddies [of s x] unfolding fair_inv_def by simp_all

lemma runnable_frames [simp]:
  "runnable (set_last_buddy p s) = runnable s" "runnable (set_next_buddy p s) = runnable s"
  "runnable (clear_buddies x s) = runnable s" "runnable (resched_task p s) = runnable s"
  by (auto simp: runnable_def set_last_buddy_def set_next_buddy_def clear_buddies_def resched_task_def)

lemma curr_frames [simp]:
  "curr (rq (set_last_buddy p s)) = curr (rq s)" "curr (rq (set_next_buddy p s)) = curr (rq s)"
  "curr (rq (clear_buddies x s)) = curr (rq s)"
  by (simp_all add: set_last_buddy_def set_next_buddy_def clear_buddies_def)

lemma fair_inv_preempt_curr: "fair_inv s \<Longrightarrow> fair_inv (preempt_curr env scale s)"
proof -
  assume "fair_inv s"
  then have r: "fair_inv (resched_task (curr (rq s)) s)" by (rule fair_inv_quiet) simp
  have "se_on_rq (ent s c) \<Longrightarrow> c \<in> runnable s" for c by (simp add: runnable_def)
  then have "se_on_rq (ent (resched_task (curr (rq s)) s) (curr (rq s))) \<Longrightarrow> curr (rq s) \<in> runnable (resched_task (curr (rq s)) s)"
    by (simp add: resched_task_def runnable_def)
  with r fair_inv_buddies(1) [OF r] show ?thesis by (simp add: preempt_curr_def Let_def)
qed

lemma fair_inv_check_preempt_wakeup:
  assumes "fair_inv s" "p \<in> runnable s"
  shows "fair_inv (check_preempt_wakeup env p flags s)"
proof -
  define scale where "scale = (sched_nr_latency env \<le> cfs_nr_running (cfsq s))"
  define marked where "marked = (NEXT_BUDDY env \<and> scale \<and> flags AND WF_FORK = 0)"
  define s1 where "s1 = (if marked then set_next_buddy p s else s)"
  have s1: "fair_inv s1" "runnable s1 = runnable s" using assms fair_inv_buddies(2) by (simp_all add: s1_def)
  define r where "r = wakeup_preempt_entity env (curr (rq s)) p (update_curr s1)"
  have q: "quiet s1 (snd r)" unfolding r_def by (rule quiet_trans [OF quiet_update_curr quiet_wakeup_preempt])
  have r: "fair_inv (snd r)" "runnable (snd r) = runnable s"
    using fair_inv_quiet [OF s1(1) q] quiet_runnable [OF q] s1(2) by simp_all
  then have "fair_inv (preempt_curr env scale (if marked then snd r else set_next_buddy p (snd r)))"
    using assms(2) by (intro fair_inv_preempt_curr) (simp add: fair_inv_buddies(2))
  with s1(1) r(1) assms(1) show ?thesis
    unfolding check_preempt_wakeup_def Let_def split_def scale_def [symmetric] marked_def [symmetric] s1_def [symmetric] r_def [symmetric]
    by (simp add: fair_inv_preempt_curr)
qed

lemma fair_inv_yield:
  assumes "fair_inv s" "curr (rq s) \<in> runnable s"
  shows "fair_inv (yield_task_fair now s)"
proof -
  let ?c = "curr (rq s)"
  let ?s1 = "clear_buddies (Some ?c) s"
  let ?t = "update_curr (update_rq_clock now ?s1)"
  have q: "quiet ?s1 (upd_rq (\<lambda>r. r\<lparr>skip_clock_update := 1\<rparr>) ?t)"
    using quiet_trans [OF quiet_update_rq_clock quiet_update_curr, of ?s1 now] by (simp add: quiet_def)
  have i: "fair_inv ?s1" by (rule fair_inv_buddies(4) [OF assms(1)])
  show ?thesis
    using assms fair_inv_buddies(3) [OF i, of ?c] fair_inv_buddies(3) [OF fair_inv_quiet [OF i q], of ?c] quiet_runnable [OF q]
    by (simp add: yield_task_fair_def Let_def)
qed

lemma fair_inv_switched_from:
  assumes "fair_inv s"
  shows "fair_inv (switched_from_fair env p s)"
proof (cases "\<not> se_on_rq (ent s p) \<and> state (tsk s p) \<noteq> 0")
  case True
  obtain s1 v where q: "quiet s s1" and e: "place_entity env p False s = upd_se p (\<lambda>e. e\<lparr>vruntime := v\<rparr>) s1"
    by (rule place_entity_cases)
  have s1: "fair_inv s1" by (rule fair_inv_quiet [OF assms q])
  have "p \<notin> runnable s1" using True quiet_runnable [OF q] by (simp add: runnable_def)
  then have "cfs_inv (upd_se p f s1)" if "\<And>e. se_on_rq (f e) = se_on_rq e" for f
    using cfs_inv_upd_waiting [of s1 p f] s1 that by (simp add: fair_inv_def)
  then have "fair_inv (upd_se p (\<lambda>e. e\<lparr>vruntime := w\<rparr>) s1)" for w using s1 by (simp add: fair_inv_def)
  then have "fair_inv (upd_se p (\<lambda>e. e\<lparr>vruntime := vruntime e - m\<rparr>) (upd_se p (\<lambda>e. e\<lparr>vruntime := v\<rparr>) s1))" for m
    by (simp add: upd_se_def upd_task_def)
  with True e show ?thesis by (simp add: switched_from_fair_def Let_def)
qed (auto simp: switched_from_fair_def assms)

section \<open>Steps that move tasks\<close>

lemma fair_inv_enqueue:
  assumes "rb_lib_ok (rb env)" "fair_inv s" "p \<notin> runnable s" "s' = enqueue_task_fair env p flags s"
    "windowed (ent s') (insert p (set (queue s)))"
  shows "fair_inv s'" "runnable s' = insert p (runnable s)"
proof -
  let ?t = "enqueue_entity env p flags s"
  have s': "s' = inc_nr_running (upd_cfs (\<lambda>q. q\<lparr>h_nr_running := h_nr_running q + 1\<rparr>) ?t)"
    using assms(3,4) by (simp add: enqueue_task_fair_def Let_def runnable_def)
  have w: "windowed (ent ?t) (insert p (set (queue s)))" using assms(5) by (simp add: s' inc_nr_running_def)
  note e = enqueue_entity_inv [OF assms(1) _ assms(3) refl w]
  have i: "cfs_inv s" using assms(2) by (simp add: fair_inv_def)
  have "cfs_nr_running (cfsq ?t) = Suc (cfs_nr_running (cfsq s))"
    using e(1,2) [OF i] i assms(3) finite_runnable [OF i] by (simp add: cfs_inv_def)
  moreover have "timeline_ok s' = timeline_ok ?t" by (rule timeline_ok_cong) (simp_all add: s' inc_nr_running_def)
  moreover have "runnable s' = runnable ?t" "buddies s' = buddies ?t" by (simp_all add: runnable_def buddies_def s' inc_nr_running_def)
  ultimately show "fair_inv s'" "runnable s' = insert p (runnable s)"
    using e [OF i] assms(2) unfolding fair_inv_def cfs_inv_def by (simp_all add: s' inc_nr_running_def)
qed

lemma fair_inv_dequeue:
  assumes "rb_lib_ok (rb env)" "fair_inv s" "p \<in> runnable s" "s' = dequeue_task_fair env p flags s"
  shows "fair_inv s'" "runnable s' = runnable s - {p}"
proof -
  let ?t = "dequeue_entity env p flags s"
  have s': "s' = dec_nr_running (upd_cfs (\<lambda>q. q\<lparr>h_nr_running := h_nr_running q - 1\<rparr>) ?t)"
    using assms(4) by (simp add: dequeue_task_fair_def)
  have i: "cfs_inv s" using assms(2) by (simp add: fair_inv_def)
  note e = dequeue_entity_inv [OF assms(1) i assms(3) refl, of flags]
  have "cfs_nr_running (cfsq ?t) = cfs_nr_running (cfsq s) - 1"
    using e(1,2) i assms(3) finite_runnable [OF i] by (simp add: cfs_inv_def card_Diff_singleton)
  moreover have "timeline_ok s' = timeline_ok ?t" by (rule timeline_ok_cong) (simp_all add: s' dec_nr_running_def)
  moreover have "runnable s' = runnable ?t" "buddies s' = buddies ?t" by (simp_all add: runnable_def buddies_def s' dec_nr_running_def)
  ultimately show "fair_inv s'" "runnable s' = runnable s - {p}"
    using e assms(2) unfolding fair_inv_def cfs_inv_def by (simp_all add: s' dec_nr_running_def) linarith
qed

lemma pick_next_task_fair_full:
  assumes "rb_lib_ok (rb env)" "fair_inv s" "cfs_curr (cfsq s) = None"
  shows "pick_next_task_fair env s = Inr (None, s) \<and> queue s = [] \<or>
    (\<exists>l p s'. pick_next_task_fair env s = Inr (Some p, s') \<and> pick_first_entity s = Some l \<and> fair_choice env s l p
       \<and> fair_inv s' \<and> cfs_curr (cfsq s') = Some p \<and> runnable s' = runnable s \<and> queue s' = remove1 p (queue s)
       \<and> curr (rq s') = curr (rq s) \<and> nr_running (rq s') = nr_running (rq s))"
proof (cases "cfs_nr_running (cfsq s) = 0")
  case True
  have i: "cfs_inv s" using assms(2) by (simp add: fair_inv_def)
  have "runnable s = {}" using cfs_invD(5) [OF i] finite_runnable [OF i] True by simp
  then have "queue s = []" using cfs_invD(2) [OF i] by simp
  with True show ?thesis by (simp add: pick_next_task_fair_def)
next
  case False
  have i: "cfs_inv s" using assms(2) by (simp add: fair_inv_def)
  have r: "runnable s = set (queue s)" using cfs_invD(2,3) [OF i] assms(3) by (simp del: set_inorder)
  have "queue s \<noteq> []" using False cfs_invD(5) [OF i] r by (auto simp del: set_inorder)
  then obtain l where l: "pick_first_entity s = Some l"
    using pick_first_None [OF cfs_invD(1) [OF i]] by (cases "pick_first_entity s") simp_all
  obtain p t where p: "pick_next_entity env s = Inr (Some p, clear_buddies (Some p) t)" "fair_choice env s l p" "quiet s t"
    by (rule pick_next_entity_full [OF assms(1) i assms(3) l])
  let ?u = "clear_buddies (Some p) t"
  have u: "cfs_inv ?u" "cfs_curr (cfsq ?u) = None" "runnable ?u = runnable s" "queue ?u = queue s"
    "h_nr_running (cfsq ?u) = h_nr_running (cfsq s)" "cfs_nr_running (cfsq ?u) = cfs_nr_running (cfsq s)"
    "nr_running (rq ?u) = nr_running (rq s)" "curr (rq ?u) = curr (rq s)"
    using cfs_inv_clear_buddies [OF cfs_inv_quiet [OF i p(3)]] quiet_runnable [OF p(3)] p(3) assms(3)
    by (simp_all add: clear_buddies_def quiet_def runnable_def)
  note n = set_next_entity_inv [OF assms(1) u(1,2) refl, of p]
  have "fair_inv (set_next_entity env p ?u)" using assms(2) n u by (simp add: fair_inv_def)
  moreover have "pick_next_task_fair env s = Inr (Some p, set_next_entity env p ?u)"
    using False p(1) by (simp add: pick_next_task_fair_def)
  ultimately show ?thesis
    using l p(2)
    by - (rule disjI2, rule exI [of _ l], rule exI [of _ p], rule exI [of _ "set_next_entity env p ?u"], simp only: n u)
qed

lemma fair_inv_put_prev:
  assumes "rb_lib_ok (rb env)" "fair_inv s" "cfs_curr (cfsq s) = Some p" "s' = put_prev_task_fair env p s"
    "p \<in> runnable s \<longrightarrow> windowed (ent s') (insert p (set (queue s)))"
  shows "fair_inv s'" "runnable s' = runnable s"
proof -
  have i: "cfs_inv s" using assms(2) by (simp add: fair_inv_def)
  have s': "s' = put_prev_entity env p s" using assms(4) by (simp add: put_prev_task_fair_def)
  have w: "se_on_rq (ent s p) \<Longrightarrow> windowed (ent s') (insert p (set (queue s)))" using assms(5) by (simp add: runnable_def)
  note e = put_prev_entity_inv [OF assms(1) i assms(3) s' w]
  show "fair_inv s'" "runnable s' = runnable s" using assms(2) e unfolding fair_inv_def by simp_all
qed

lemma fair_inv_tick:
  assumes "fair_inv s" "cfs_curr (cfsq s) = Some p"
  shows "\<exists>s'. task_tick_fair env p s = Inr s' \<and> fair_inv s'"
proof -
  have i: "cfs_inv s" using assms(1) by (simp add: fair_inv_def)
  have q: "quiet s (update_curr s)" by simp
  from entity_tick_full [OF i assms(2), of env] obtain s' where s': "entity_tick env p s = Inr s'" "cfs_inv s'"
    "cfs_nr_running (cfsq s') = cfs_nr_running (cfsq s)" "h_nr_running (cfsq s') = h_nr_running (cfsq s)" "nr_running (rq s') = nr_running (rq s)"
    by blast
  with assms(1) show ?thesis by (simp add: task_tick_fair_def fair_inv_def)
qed

lemma fair_step_inv:
  assumes "rb_lib_ok (rb env)" "fair_step env s s'" "fair_inv s"
  shows "fair_inv s'"
  using assms(2,3)
proof (induction rule: fair_step.induct)
  case (step_clock s now)
  then show ?case by (rule fair_inv_quiet) simp
next
  case (step_enqueue p s s' flags)
  show ?case by (rule fair_inv_enqueue(1) [OF assms(1) step_enqueue(4,1,2,3)])
next
  case (step_dequeue p s flags)
  show ?case by (rule fair_inv_dequeue(1) [OF assms(1) step_dequeue(2,1) refl])
next
  case (step_wakeup p s flags)
  show ?case by (rule fair_inv_check_preempt_wakeup [OF step_wakeup(2,1)])
next
  case (step_pick s x s')
  from pick_next_task_fair_full [OF assms(1) step_pick(3,1)] step_pick(2,3) show ?case
    by (elim disjE conjE exE) (simp_all only: sum.inject prod.inject)
next
  case (step_put s p s')
  show ?case by (rule fair_inv_put_prev(1) [OF assms(1) step_put(4,1,2,3)])
next
  case (step_tick s p s')
  then show ?case using fair_inv_tick [of s p env] by auto
next
  case (step_yield s now)
  show ?case by (rule fair_inv_yield [OF step_yield(2,1)])
next
  case (step_set_curr s)
  then have i: "cfs_inv s" by (simp add: fair_inv_def)
  show ?case
    using step_set_curr(2) set_next_entity_inv [OF assms(1) i step_set_curr(1) refl, of "curr (rq s)"]
    unfolding set_curr_task_fair_def fair_inv_def by simp
next
  case (step_reweight p s lw)
  then show ?case using cfs_inv_upd_waiting [of s p "\<lambda>e. e\<lparr>load := lw\<rparr>"] by (simp add: fair_inv_def)
next
  case (step_switched_from s p)
  then show ?case by (rule fair_inv_switched_from)
qed


text \<open>A run queue on which a task has just woken up.\<close>

definition fresh_cfs :: cfs_rq where
  "fresh_cfs = \<lparr>cfs_load = \<lparr>weight = 0, inv_weight = 0\<rparr>, cfs_nr_running = 0, h_nr_running = 0,
     min_vruntime = 0, min_vruntime_copy = 0, tasks_timeline = \<langle>\<rangle>, rb_leftmost = None,
     cfs_curr = None, next_buddy = None, last_buddy = None, skip_buddy = None\<rparr>"

definition fresh :: sched where
  "fresh = \<lparr>rq = (rq sched0)\<lparr>cfs := init_cfs_rq fresh_cfs, nr_running := 0\<rparr>, tsk = (\<lambda>p. task0 False 0)\<rparr>"

definition woken :: sched where
  "woken = enqueue_task_fair env0 1 0 fresh"

lemma fresh_reach: "fair_reach env0 fresh"
  by (rule fair_reach_init [of _ fresh_cfs]) (simp_all add: fresh_def fresh_cfs_def runnable_def task0_def ent0_def)

lemma woken_facts: "fair_reach env0 woken" "cfs_curr (cfsq woken) = None" "1 \<in> runnable woken"
proof -
  have q: "queue fresh = []" "1 \<notin> runnable fresh" "cfs_curr (cfsq fresh) = None"
    by (simp_all add: fresh_def fresh_cfs_def init_cfs_rq_def runnable_def task0_def ent0_def)
  have "windowed E {x}" for E x unfolding windowed_def in_window_def offset_def
    by (intro exI [of _ "vruntime (E x)"]) simp
  then have w: "windowed (ent woken) (insert 1 (set (queue fresh)))" using q(1) by simp
  show "fair_reach env0 woken"
    by (rule fair_reach_step [OF fresh_reach step_enqueue [OF q(2) woken_def w]])
  have i: "fair_inv fresh"
    by (simp add: fair_inv_def cfs_inv_def timeline_ok_def buddies_def runnable_def fresh_def fresh_cfs_def init_cfs_rq_def task0_def ent0_def)
  show "1 \<in> runnable woken" using fair_inv_enqueue(2) [OF env0_rb i q(2) woken_def w] by simp
  have "windowed (ent (enqueue_entity env0 1 0 fresh)) (insert 1 (set (queue fresh)))" using q(1) \<open>\<And>E x. windowed E {x}\<close> by simp
  from enqueue_entity_inv(3) [OF env0_rb _ q(2) refl this] i q show "cfs_curr (cfsq woken) = None"
    by (simp add: woken_def enqueue_task_fair_def Let_def runnable_def inc_nr_running_def fair_inv_def)
qed


end
