(* ===== verification/Sched_Core.thy ===== *)
theory Sched_Core
  imports Cfs_Class
begin

unbundle bit_operations_syntax

text \<open>
  The core of the scheduler (\<open>hw4/kernel/sched/core.c\<close>) and the class \<open>mycfs_sched_class\<close> that homework 4 adds
  between the fair and the idle class (\<open>hw4/kernel/sched/mycfs.c\<close>): priorities and weights, the dispatch of
  the class methods, wakeup, \<open>__schedule\<close>, fork, nice values and the system calls that set the policy.

  The stop, real-time and idle classes live in files that are not in the repository; their methods
  are the fields of \<open>ext_class\<close>. Other functions of the kernel that the code calls (the clock, the
  priority inheritance of mutexes, capabilities, security hooks, resource limits, the pid table) are fields
  of \<open>sched_env\<close>. A system call runs with the run-queue lock held, so it is one step; the retry of
  \<open>__sched_setscheduler\<close> for a policy that changed before the lock was taken cannot occur in it.
\<close>

section \<open>Environment\<close>

record ext_class =
  x_enqueue :: "tid \<Rightarrow> u32 \<Rightarrow> sched \<Rightarrow> sched"
  x_dequeue :: "tid \<Rightarrow> u32 \<Rightarrow> sched \<Rightarrow> sched"
  x_yield :: "sched \<Rightarrow> sched"
  x_check_preempt :: "tid \<Rightarrow> u32 \<Rightarrow> sched \<Rightarrow> sched"
  x_pick :: "sched \<Rightarrow> tid option \<times> sched"
  x_put :: "tid \<Rightarrow> sched \<Rightarrow> sched"
  x_set_curr :: "sched \<Rightarrow> sched"
  x_tick :: "tid \<Rightarrow> sched \<Rightarrow> sched"
  x_switched_from :: "tid \<Rightarrow> sched \<Rightarrow> sched"
  x_switched_to :: "tid \<Rightarrow> sched \<Rightarrow> sched"
  x_prio_changed :: "tid \<Rightarrow> int \<Rightarrow> sched \<Rightarrow> sched"
  x_task_fork :: "(tid \<Rightarrow> sched \<Rightarrow> sched) option"

record cred =
  cred_ns :: nat
  euid :: nat
  uid :: nat

record sched_env =
  fair :: fair_env
  stop_ops :: ext_class
  rt_ops :: ext_class
  idle_ops :: ext_class
  sched_clock :: "sched \<Rightarrow> u64"
  rt_mutex_getprio :: "tid \<Rightarrow> sched \<Rightarrow> int"
  rt_mutex_adjust_pi :: "tid \<Rightarrow> sched \<Rightarrow> sched"
  in_interrupt :: bool
  capable_sys_nice :: bool
  rlimit_rtprio :: "tid \<Rightarrow> int"
  rlimit_nice :: "tid \<Rightarrow> int"
  current_cred :: cred
  task_cred :: "tid \<Rightarrow> cred"
  security_setscheduler :: "tid \<Rightarrow> int"
  security_getscheduler :: "tid \<Rightarrow> int"
  security_setnice :: "tid \<Rightarrow> int \<Rightarrow> int"
  find_task_by_vpid :: "int \<Rightarrow> tid option"
  signal_pending_state :: "int \<Rightarrow> tid \<Rightarrow> bool"

section \<open>Priorities and weights\<close>

definition set_load_weight :: "tid \<Rightarrow> sched \<Rightarrow> sched" where
  "set_load_weight p s =
    (let t = tsk s p; i = nat (static_prio t - MAX_RT_PRIO)
     in upd_se p (\<lambda>e. e\<lparr>load :=
          if policy t = SCHED_IDLE then \<lparr>weight = WEIGHT_IDLEPRIO, inv_weight = WMULT_IDLEPRIO\<rparr>
          else \<lparr>weight = prio_to_weight ! i, inv_weight = prio_to_wmult ! i\<rparr>\<rparr>) s)"

definition normal_prio' :: "task_struct \<Rightarrow> int" where
  "normal_prio' t = (if task_has_rt_policy t then MAX_RT_PRIO - 1 - rt_priority t else static_prio t)"

text \<open>\<open>effective_prio\<close> stores the normal priority and returns the priority to use.\<close>

definition effective_prio :: "tid \<Rightarrow> sched \<Rightarrow> int \<times> sched" where
  "effective_prio p s =
    (let s1 = upd_task p (\<lambda>t. t\<lparr>normal_prio := normal_prio' t\<rparr>) s; t = tsk s1 p
     in (if \<not> rt_prio (prio t) then normal_prio t else prio t, s1))"

definition task_prio :: "task_struct \<Rightarrow> int" where
  "task_prio t = prio t - MAX_RT_PRIO"

definition task_nice :: "task_struct \<Rightarrow> int" where
  "task_nice t = PRIO_TO_NICE (static_prio t)"

definition can_nice :: "sched_env \<Rightarrow> tid \<Rightarrow> int \<Rightarrow> bool" where
  "can_nice env p nice \<longleftrightarrow> 20 - nice \<le> rlimit_nice env p \<or> capable_sys_nice env"

section \<open>The class of homework 4\<close>

definition enqueue_task_mycfs :: "tid \<Rightarrow> sched \<Rightarrow> sched" where
  "enqueue_task_mycfs p = upd_task p (\<lambda>t. t\<lparr>on_rq := True\<rparr>)"

definition dequeue_task_mycfs :: "tid \<Rightarrow> sched \<Rightarrow> sched" where
  "dequeue_task_mycfs p = upd_task p (\<lambda>t. t\<lparr>on_rq := False\<rparr>)"

definition pick_next_task_mycfs :: "sched \<Rightarrow> tid option" where
  "pick_next_task_mycfs s = (let c = curr (rq s) in if on_rq (tsk s c) then Some c else None)"

definition init_mycfs_rq :: "mycfs_rq \<Rightarrow> mycfs_rq" where
  "init_mycfs_rq q = q\<lparr>mycfs_timeline := \<langle>\<rangle>, mycfs_min_vruntime := - (2 ^ 20), mycfs_min_vruntime_copy := - (2 ^ 20)\<rparr>"

section \<open>Dispatch of the class methods\<close>

definition ext_of :: "sched_env \<Rightarrow> sched_class \<Rightarrow> ext_class" where
  "ext_of env c = (case c of Stop_class \<Rightarrow> stop_ops env | Rt_class \<Rightarrow> rt_ops env | _ \<Rightarrow> idle_ops env)"

definition class_enqueue :: "sched_env \<Rightarrow> tid \<Rightarrow> u32 \<Rightarrow> sched \<Rightarrow> sched" where
  "class_enqueue env p flags s =
    (case sched_class (tsk s p) of
       Fair_class \<Rightarrow> enqueue_task_fair (fair env) p flags s
     | Mycfs_class \<Rightarrow> enqueue_task_mycfs p s
     | c \<Rightarrow> x_enqueue (ext_of env c) p flags s)"

definition class_dequeue :: "sched_env \<Rightarrow> tid \<Rightarrow> u32 \<Rightarrow> sched \<Rightarrow> sched" where
  "class_dequeue env p flags s =
    (case sched_class (tsk s p) of
       Fair_class \<Rightarrow> dequeue_task_fair (fair env) p flags s
     | Mycfs_class \<Rightarrow> dequeue_task_mycfs p s
     | c \<Rightarrow> x_dequeue (ext_of env c) p flags s)"

definition class_put :: "sched_env \<Rightarrow> tid \<Rightarrow> sched \<Rightarrow> sched" where
  "class_put env p s =
    (case sched_class (tsk s p) of
       Fair_class \<Rightarrow> put_prev_task_fair (fair env) p s
     | Mycfs_class \<Rightarrow> s
     | c \<Rightarrow> x_put (ext_of env c) p s)"

definition class_set_curr :: "sched_env \<Rightarrow> sched_class \<Rightarrow> sched \<Rightarrow> sched" where
  "class_set_curr env c s =
    (case c of Fair_class \<Rightarrow> set_curr_task_fair (fair env) s | Mycfs_class \<Rightarrow> s | c \<Rightarrow> x_set_curr (ext_of env c) s)"

definition class_tick :: "sched_env \<Rightarrow> tid \<Rightarrow> sched \<Rightarrow> sched result" where
  "class_tick env p s =
    (case sched_class (tsk s p) of
       Fair_class \<Rightarrow> task_tick_fair (fair env) p s
     | Mycfs_class \<Rightarrow> Inr s
     | c \<Rightarrow> Inr (x_tick (ext_of env c) p s))"

definition class_yield :: "sched_env \<Rightarrow> sched \<Rightarrow> sched" where
  "class_yield env s =
    (case sched_class (tsk s (curr (rq s))) of
       Fair_class \<Rightarrow> yield_task_fair (sched_clock env s) s
     | Mycfs_class \<Rightarrow> s
     | c \<Rightarrow> x_yield (ext_of env c) s)"

definition class_check_preempt :: "sched_env \<Rightarrow> sched_class \<Rightarrow> tid \<Rightarrow> u32 \<Rightarrow> sched \<Rightarrow> sched" where
  "class_check_preempt env c p flags s =
    (case c of
       Fair_class \<Rightarrow> check_preempt_wakeup (fair env) p flags s
     | Mycfs_class \<Rightarrow> s
     | c \<Rightarrow> x_check_preempt (ext_of env c) p flags s)"

definition class_pick :: "sched_env \<Rightarrow> sched_class \<Rightarrow> sched \<Rightarrow> (tid option \<times> sched) result" where
  "class_pick env c s =
    (case c of
       Fair_class \<Rightarrow> pick_next_task_fair (fair env) s
     | Mycfs_class \<Rightarrow> Inr (pick_next_task_mycfs s, s)
     | c \<Rightarrow> Inr (x_pick (ext_of env c) s))"

text \<open>\<open>for_each_class\<close>: from \<open>stop_sched_class\<close> along the \<open>next\<close> pointers.\<close>

definition all_classes :: "sched_class list" where
  "all_classes = [Stop_class, Rt_class, Fair_class, Mycfs_class, Idle_class]"

definition task_contributes_to_load :: "task_struct \<Rightarrow> bool" where
  "task_contributes_to_load t \<longleftrightarrow> state t AND 2 \<noteq> 0 \<and> \<not> pf_frozen t"

definition enqueue_task :: "sched_env \<Rightarrow> tid \<Rightarrow> u32 \<Rightarrow> sched \<Rightarrow> sched" where
  "enqueue_task env p flags s = class_enqueue env p flags (update_rq_clock (sched_clock env s) s)"

definition dequeue_task :: "sched_env \<Rightarrow> tid \<Rightarrow> u32 \<Rightarrow> sched \<Rightarrow> sched" where
  "dequeue_task env p flags s = class_dequeue env p flags (update_rq_clock (sched_clock env s) s)"

definition activate_task :: "sched_env \<Rightarrow> tid \<Rightarrow> u32 \<Rightarrow> sched \<Rightarrow> sched" where
  "activate_task env p flags s =
    enqueue_task env p flags
      (if task_contributes_to_load (tsk s p) then upd_rq (\<lambda>r. r\<lparr>nr_uninterruptible := nr_uninterruptible r - 1\<rparr>) s else s)"

definition deactivate_task :: "sched_env \<Rightarrow> tid \<Rightarrow> u32 \<Rightarrow> sched \<Rightarrow> sched" where
  "deactivate_task env p flags s =
    dequeue_task env p flags
      (if task_contributes_to_load (tsk s p) then upd_rq (\<lambda>r. r\<lparr>nr_uninterruptible := nr_uninterruptible r + 1\<rparr>) s else s)"

section \<open>Preemption and class changes\<close>

fun preempts_class :: "sched_class list \<Rightarrow> sched_class \<Rightarrow> sched_class \<Rightarrow> bool" where
  "preempts_class [] p c = False"
| "preempts_class (k # ks) p c = (if k = c then False else if k = p then True else preempts_class ks p c)"

definition check_preempt_curr :: "sched_env \<Rightarrow> tid \<Rightarrow> u32 \<Rightarrow> sched \<Rightarrow> sched" where
  "check_preempt_curr env p flags s =
    (let c = curr (rq s); pc = sched_class (tsk s p); cc = sched_class (tsk s c);
         s1 = (if pc = cc then class_check_preempt env cc p flags s
               else if preempts_class all_classes pc cc then resched_task c s else s);
         c1 = tsk s1 (curr (rq s1))
     in if on_rq c1 \<and> need_resched c1 then upd_rq (\<lambda>r. r\<lparr>skip_clock_update := 1\<rparr>) s1 else s1)"

definition prio_changed_fair :: "sched_env \<Rightarrow> tid \<Rightarrow> int \<Rightarrow> sched \<Rightarrow> sched" where
  "prio_changed_fair env p oldprio s =
    (if \<not> se_on_rq (ent s p) then s
     else if curr (rq s) = p then (if oldprio < prio (tsk s p) then resched_task (curr (rq s)) s else s)
     else check_preempt_curr env p 0 s)"

definition switched_to_fair :: "sched_env \<Rightarrow> tid \<Rightarrow> sched \<Rightarrow> sched" where
  "switched_to_fair env p s =
    (if \<not> se_on_rq (ent s p) then s
     else if curr (rq s) = p then resched_task (curr (rq s)) s
     else check_preempt_curr env p 0 s)"

text \<open>
  \<open>check_class_changed\<close> tests \<open>switched_from\<close> for null but not \<open>switched_to\<close>; \<open>mycfs_sched_class\<close> defines neither.
\<close>

definition check_class_changed :: "sched_env \<Rightarrow> tid \<Rightarrow> sched_class \<Rightarrow> int \<Rightarrow> sched \<Rightarrow> sched result" where
  "check_class_changed env p prev_class oldprio s =
    (let c = sched_class (tsk s p)
     in if prev_class \<noteq> c
        then let s1 = (case prev_class of
                         Fair_class \<Rightarrow> switched_from_fair (fair env) p s
                       | Mycfs_class \<Rightarrow> s
                       | k \<Rightarrow> x_switched_from (ext_of env k) p s)
             in (case c of
                   Fair_class \<Rightarrow> Inr (switched_to_fair env p s1)
                 | Mycfs_class \<Rightarrow> Inl NullDeref
                 | k \<Rightarrow> Inr (x_switched_to (ext_of env k) p s1))
        else if oldprio \<noteq> prio (tsk s p)
        then (case c of
                Fair_class \<Rightarrow> Inr (prio_changed_fair env p oldprio s)
              | Mycfs_class \<Rightarrow> Inr s
              | k \<Rightarrow> Inr (x_prio_changed (ext_of env k) p oldprio s))
        else Inr s)"

section \<open>Scheduling\<close>

fun pick_from :: "sched_env \<Rightarrow> sched_class list \<Rightarrow> sched \<Rightarrow> (tid \<times> sched) result" where
  "pick_from env [] s = Inl Bug"
| "pick_from env (k # ks) s =
    rbind (class_pick env k s) (\<lambda>(x, s1). case x of Some p \<Rightarrow> Inr (p, s1) | None \<Rightarrow> pick_from env ks s1)"

definition pick_next_task :: "sched_env \<Rightarrow> sched \<Rightarrow> (tid \<times> sched) result" where
  "pick_next_task env s =
    (if nr_running (rq s) = h_nr_running (cfsq s)
     then rbind (pick_next_task_fair (fair env) s)
            (\<lambda>(x, s1). case x of Some p \<Rightarrow> Inr (p, s1) | None \<Rightarrow> pick_from env all_classes s1)
     else pick_from env all_classes s)"

definition put_prev_task :: "sched_env \<Rightarrow> tid \<Rightarrow> sched \<Rightarrow> sched" where
  "put_prev_task env p s =
    class_put env p
      (if on_rq (tsk s p) \<or> skip_clock_update (rq s) < 0 then update_rq_clock (sched_clock env s) s else s)"

text \<open>
  One pass of \<open>__schedule\<close>; \<open>preempted\<close> is \<open>PREEMPT_ACTIVE\<close>. (The notification of the workqueue code when a worker
  goes to sleep is left out.)
\<close>

definition schedule :: "sched_env \<Rightarrow> bool \<Rightarrow> sched \<Rightarrow> sched result" where
  "schedule env preempted s =
    (let prev = curr (rq s);
         voluntary = (state (tsk s prev) \<noteq> 0 \<and> \<not> preempted);
         s1 = (if \<not> voluntary then s
               else if signal_pending_state env (state (tsk s prev)) prev then upd_task prev (\<lambda>t. t\<lparr>state := 0\<rparr>) s
               else upd_task prev (\<lambda>t. t\<lparr>on_rq := False\<rparr>) (deactivate_task env prev DEQUEUE_SLEEP s))
     in rbind (pick_next_task env (put_prev_task env prev s1))
       (\<lambda>(nxt, s2).
         let s3 = upd_rq (\<lambda>r. r\<lparr>skip_clock_update := 0\<rparr>) (upd_task prev (\<lambda>t. t\<lparr>need_resched := False\<rparr>) s2)
         in if prev \<noteq> nxt
            then Inr (upd_task prev (\<lambda>t. if voluntary then t\<lparr>nvcsw := nvcsw t + 1\<rparr> else t\<lparr>nivcsw := nivcsw t + 1\<rparr>)
                   (upd_rq (\<lambda>r. r\<lparr>nr_switches := nr_switches r + 1, curr := nxt\<rparr>) s3))
            else Inr s3))"

definition scheduler_tick :: "sched_env \<Rightarrow> sched \<Rightarrow> sched result" where
  "scheduler_tick env s =
    (let s1 = update_rq_clock (sched_clock env s) s in class_tick env (curr (rq s1)) s1)"

definition sched_yield :: "sched_env \<Rightarrow> sched \<Rightarrow> sched result" where
  "sched_yield env s = schedule env False (class_yield env s)"

section \<open>Wakeup\<close>

definition ttwu_activate :: "sched_env \<Rightarrow> tid \<Rightarrow> u32 \<Rightarrow> sched \<Rightarrow> sched" where
  "ttwu_activate env p en_flags s = upd_task p (\<lambda>t. t\<lparr>on_rq := True\<rparr>) (activate_task env p en_flags s)"

definition ttwu_do_wakeup :: "sched_env \<Rightarrow> tid \<Rightarrow> u32 \<Rightarrow> sched \<Rightarrow> sched" where
  "ttwu_do_wakeup env p wake_flags s = upd_task p (\<lambda>t. t\<lparr>state := 0\<rparr>) (check_preempt_curr env p wake_flags s)"

definition ttwu_do_activate :: "sched_env \<Rightarrow> tid \<Rightarrow> u32 \<Rightarrow> sched \<Rightarrow> sched" where
  "ttwu_do_activate env p wake_flags s =
    ttwu_do_wakeup env p wake_flags (ttwu_activate env p (ENQUEUE_WAKEUP OR ENQUEUE_WAKING) s)"

definition try_to_wake_up :: "sched_env \<Rightarrow> tid \<Rightarrow> int \<Rightarrow> u32 \<Rightarrow> sched \<Rightarrow> bool \<times> sched" where
  "try_to_wake_up env p st wake_flags s =
    (if state (tsk s p) AND st = 0 then (False, s)
     else if on_rq (tsk s p) then (True, ttwu_do_wakeup env p wake_flags s)
     else (True, ttwu_do_activate env p 0 s))"

definition wake_up_process :: "sched_env \<Rightarrow> tid \<Rightarrow> sched \<Rightarrow> bool \<times> sched" where
  "wake_up_process env p = try_to_wake_up env p 3 0"

section \<open>What the fair class leaves alone\<close>

text \<open>The methods of the fair class change a task only in its entity and in the flag \<open>need_resched\<close>.\<close>

definition attrs :: "task_struct \<Rightarrow> int \<times> bool \<times> int \<times> int \<times> int \<times> int \<times> int \<times> sched_class \<times> bool" where
  "attrs t = (state t, on_rq t, prio t, static_prio t, normal_prio t, rt_priority t, policy t, sched_class t, sched_reset_on_fork t)"

named_theorems attrs_simps \<open>operations of the fair class keep the attributes of tasks\<close>

lemma attrs_upd_se [attrs_simps]: "attrs (tsk (upd_se p f s) q) = attrs (tsk s q)"
  by (simp add: attrs_def)

lemma attrs_basic [attrs_simps]:
  "attrs (tsk (upd_cfs f s) q) = attrs (tsk s q)" "attrs (tsk (upd_rq g s) q) = attrs (tsk s q)"
  "attrs (tsk (update_min_vruntime s) q) = attrs (tsk s q)" "attrs (tsk (resched_task p s) q) = attrs (tsk s q)"
  "attrs (tsk (enqueue_entity' L p s) q) = attrs (tsk s q)" "attrs (tsk (dequeue_entity' L p s) q) = attrs (tsk s q)"
  "attrs (tsk (update_rq_clock now s) q) = attrs (tsk s q)" "attrs (tsk (clear_buddies x s) q) = attrs (tsk s q)"
  by (simp_all add: attrs_def update_min_vruntime_def resched_task_def enqueue_entity'_frame dequeue_entity'_frame
      update_rq_clock_def clear_buddies_def Let_def)

lemma attrs_update_curr [attrs_simps]: "attrs (tsk (update_curr s) q) = attrs (tsk s q)"
  by (simp add: update_curr_def update_curr'_def fair_delta_def attrs_simps Let_def split_def split: option.split del: upd_se_simps upd_cfs_simps upd_rq_simps)

lemma attrs_dequeue_task_fair [attrs_simps]: "attrs (tsk (dequeue_task_fair env p flags s) q) = attrs (tsk s q)"
  by (simp add: dequeue_task_fair_def dec_nr_running_def dequeue_entity_def account_entity_dequeue_def attrs_simps Let_def del: upd_se_simps upd_cfs_simps upd_rq_simps)

lemma attrs_put_prev_task_fair [attrs_simps]: "attrs (tsk (put_prev_task_fair env p s) q) = attrs (tsk s q)"
  by (simp add: put_prev_task_fair_def put_prev_entity_def attrs_simps Let_def del: upd_se_simps upd_cfs_simps upd_rq_simps)

lemma attrs_place_entity [attrs_simps]: "attrs (tsk (place_entity env p i s) q) = attrs (tsk s q)"
  by (simp add: place_entity_def sched_vslice_def sched_slice_def fair_delta_def attrs_simps Let_def split_def
      del: upd_se_simps upd_cfs_simps upd_rq_simps)

lemma attrs_enqueue_task_fair [attrs_simps]: "attrs (tsk (enqueue_task_fair env p flags s) q) = attrs (tsk s q)"
  by (simp add: enqueue_task_fair_def inc_nr_running_def enqueue_entity_def account_entity_enqueue_def attrs_simps Let_def
      del: upd_se_simps upd_cfs_simps upd_rq_simps)

lemma attrs_task_fork_fair [attrs_simps]: "attrs (tsk (task_fork_fair env now p s) q) = attrs (tsk s q)"
proof -
  define s1 where "s1 = update_curr (update_rq_clock now s)"
  define s2 where "s2 = (case cfs_curr (cfsq s1) of Some c \<Rightarrow> upd_se p (\<lambda>e. e\<lparr>vruntime := vrt s1 c\<rparr>) s1 | None \<Rightarrow> s1)"
  define s3 where "s3 = place_entity env p True s2"
  define s4 where "s4 = (case cfs_curr (cfsq s3) of
                 None \<Rightarrow> s3
               | Some c \<Rightarrow> if sysctl_sched_child_runs_first env \<and> entity_before (ent s3 c) (ent s3 p)
                   then resched_task (curr (rq s3))
                     (upd_se p (\<lambda>e. e\<lparr>vruntime := vrt s3 c\<rparr>) (upd_se c (\<lambda>e. e\<lparr>vruntime := vrt s3 p\<rparr>) s3))
                   else s3)"
  have "attrs (tsk s2 q) = attrs (tsk s q)"
    by (cases "cfs_curr (cfsq s1)") (simp_all add: s2_def s1_def attrs_simps del: upd_se_simps)
  then have "attrs (tsk s3 q) = attrs (tsk s q)" by (simp add: s3_def attrs_simps)
  then have "attrs (tsk s4 q) = attrs (tsk s q)"
    by (cases "cfs_curr (cfsq s3)") (simp_all add: s4_def attrs_simps del: upd_se_simps)
  then show ?thesis
    unfolding task_fork_fair_def Let_def s1_def [symmetric] s2_def [symmetric] s3_def [symmetric] s4_def [symmetric]
    by (simp only: attrs_simps)
qed

lemma attrsD:
  assumes "attrs t = attrs u"
  shows "state t = state u" "on_rq t = on_rq u" "prio t = prio u" "static_prio t = static_prio u"
    "policy t = policy u" "sched_class t = sched_class u"
  using assms by (simp_all add: attrs_def)

section \<open>The choice of the next task\<close>

text \<open>
  What the other classes promise: a class picks tasks of its own, and finding none it changes nothing.
\<close>

definition ext_pick_ok :: "sched_env \<Rightarrow> bool" where
  "ext_pick_ok env \<longleftrightarrow> (\<forall>c \<in> {Stop_class, Rt_class, Idle_class}. \<forall>s.
     case x_pick (ext_of env c) s of (Some q, s') \<Rightarrow> sched_class (tsk s q) = c | (None, s') \<Rightarrow> s' = s)"

lemma ext_pickD:
  assumes "ext_pick_ok env" "c \<in> {Stop_class, Rt_class, Idle_class}" "x_pick (ext_of env c) s = (x, s')"
  shows "x = Some q \<Longrightarrow> sched_class (tsk s q) = c" "x = None \<Longrightarrow> s' = s"
proof -
  have "case x_pick (ext_of env c) s of (Some q, s') \<Rightarrow> sched_class (tsk s q) = c | (None, s') \<Rightarrow> s' = s"
    using assms(1,2) by (simp only: ext_pick_ok_def)
  with assms(3) show "x = Some q \<Longrightarrow> sched_class (tsk s q) = c" "x = None \<Longrightarrow> s' = s" by simp_all
qed

lemma fair_pickD:
  assumes "rb_lib_ok (rb env)" "fair_inv s" "cfs_curr (cfsq s) = None" "pick_next_task_fair env s = Inr (x, s')"
  shows "x = Some q \<Longrightarrow> q \<in> runnable s" "x = None \<Longrightarrow> s' = s"
proof -
  have c: "cfs_inv s" using assms(2) by (simp add: fair_inv_def)
  show "x = Some q \<Longrightarrow> q \<in> runnable s" "x = None \<Longrightarrow> s' = s"
    using pick_next_task_fair_full [OF assms(1-3)] assms(4) cfs_invD(2) [OF c] by (auto simp: fair_choice_def)
qed

text \<open>
  The class of homework 4 considers only the task that is already running: a task with policy
  \<open>SCHED_MYCFS\<close> that waits on the run queue is never picked, however long the processor is idle.
\<close>
theorem mycfs_waiter_never_picked:
  assumes "rb_lib_ok (rb (fair env))" and "ext_pick_ok env" and "fair_inv s" and "cfs_curr (cfsq s) = None"
    and "\<forall>q \<in> runnable s. sched_class (tsk s q) = Fair_class"
    and "sched_class (tsk s p) = Mycfs_class" and "p \<noteq> curr (rq s)"
  shows "\<nexists>s'. pick_next_task env s = Inr (p, s')"
proof -
  have ext: "(case x_pick (ext_of env c) s of (x, s1) \<Rightarrow> x \<noteq> Some p \<and> (x = None \<longrightarrow> s1 = s))"
    if "c \<in> {Stop_class, Rt_class, Idle_class}" for c
    using ext_pickD [OF assms(2) that] assms(6) that by (cases "x_pick (ext_of env c) s") fastforce
  have fair: "x \<noteq> Some p \<and> (x = None \<longrightarrow> s1 = s)" if "pick_next_task_fair (fair env) s = Inr (x, s1)" for x s1
    using fair_pickD [OF assms(1,3,4) that] assms(5,6) by fastforce
  have my: "pick_next_task_mycfs s \<noteq> Some p" using assms(7) by (simp add: pick_next_task_mycfs_def Let_def)
  have "pick_from env [Idle_class] s \<noteq> Inr (p, s')" for s'
    using ext [of Idle_class] by (auto simp: class_pick_def split: option.splits)
  then have "pick_from env [Mycfs_class, Idle_class] s \<noteq> Inr (p, s')" for s'
    using my by (auto simp: class_pick_def split: option.splits)
  then have "pick_from env [Fair_class, Mycfs_class, Idle_class] s \<noteq> Inr (p, s')" for s'
    using fair by (cases "pick_next_task_fair (fair env) s") (auto simp: class_pick_def split: option.splits)
  then have "pick_from env [Rt_class, Fair_class, Mycfs_class, Idle_class] s \<noteq> Inr (p, s')" for s'
    using ext [of Rt_class] by (auto simp: class_pick_def split: option.splits)
  then have all: "pick_from env all_classes s \<noteq> Inr (p, s')" for s'
    using ext [of Stop_class] by (auto simp: all_classes_def class_pick_def split: option.splits)
  show ?thesis
    using fair all by (cases "pick_next_task_fair (fair env) s") (auto simp: pick_next_task_def split: option.splits)
qed

end
