(* ===== verification/Sched_Policy.thy ===== *)
theory Sched_Policy
  imports Sched_Core
begin

unbundle bit_operations_syntax

text \<open>
  The system calls of \<open>hw4/kernel/sched/core.c\<close> that set priorities and policies, and fork. The properties
  show what a successful \<open>sched_setscheduler\<close> establishes, that every refusal leaves the state alone, that
  changing the nice value keeps the fair run queue consistent, and how the policy of homework 4 behaves.
\<close>

section \<open>Nice values\<close>

definition set_user_nice :: "sched_env \<Rightarrow> tid \<Rightarrow> int \<Rightarrow> sched \<Rightarrow> sched" where
  "set_user_nice env p nice s =
    (if task_nice (tsk s p) = nice \<or> nice < - 20 \<or> 19 < nice then s
     else if task_has_rt_policy (tsk s p) then upd_task p (\<lambda>t. t\<lparr>static_prio := NICE_TO_PRIO nice\<rparr>) s
     else let queued = on_rq (tsk s p);
              s1 = (if queued then dequeue_task env p 0 s else s);
              s2 = set_load_weight p (upd_task p (\<lambda>t. t\<lparr>static_prio := NICE_TO_PRIO nice\<rparr>) s1);
              old_prio = prio (tsk s2 p);
              (np, s3) = effective_prio p s2;
              s4 = upd_task p (\<lambda>t. t\<lparr>prio := np\<rparr>) s3;
              delta = np - old_prio
          in if queued
             then let s5 = enqueue_task env p 0 s4
                  in if delta < 0 \<or> 0 < delta \<and> curr (rq s5) = p then resched_task (curr (rq s5)) s5 else s5
             else s4)"

definition sys_nice :: "sched_env \<Rightarrow> int \<Rightarrow> sched \<Rightarrow> int \<times> sched" where
  "sys_nice env increment s =
    (let c = curr (rq s);
         inc1 = (if increment < - 40 then - 40 else increment);
         inc2 = (if 40 < inc1 then 40 else inc1);
         n0 = task_nice (tsk s c) + inc2;
         n1 = (if n0 < - 20 then - 20 else n0);
         nice = (if 19 < n1 then 19 else n1)
     in if inc2 < 0 \<and> \<not> can_nice env c nice then (- EPERM, s)
        else let retval = security_setnice env c nice
             in if retval \<noteq> 0 then (retval, s) else (0, set_user_nice env c nice s))"

section \<open>Policies\<close>

definition check_same_owner :: "sched_env \<Rightarrow> tid \<Rightarrow> bool" where
  "check_same_owner env p =
    (let c = current_cred env; pc = task_cred env p
     in if cred_ns c = cred_ns pc then euid c = euid pc \<or> euid c = uid pc else False)"

definition setscheduler :: "sched_env \<Rightarrow> tid \<Rightarrow> int \<Rightarrow> int \<Rightarrow> sched \<Rightarrow> sched" where
  "setscheduler env p pol pr s =
    (let s1 = upd_task p (\<lambda>t. t\<lparr>policy := pol, rt_priority := pr\<rparr>) s;
         s2 = upd_task p (\<lambda>t. t\<lparr>normal_prio := normal_prio' t\<rparr>) s1;
         s3 = upd_task p (\<lambda>t. t\<lparr>prio := rt_mutex_getprio env p s2\<rparr>) s2;
         s4 = upd_task p (\<lambda>t. t\<lparr>sched_class := if rt_prio (prio t) then Rt_class else Fair_class\<rparr>) s3;
         s5 = (if pol = SCHED_MYCFS then upd_task p (\<lambda>t. t\<lparr>sched_class := Mycfs_class\<rparr>) s4 else s4)
     in set_load_weight p s5)"

definition valid_policy :: "int \<Rightarrow> bool" where
  "valid_policy pol \<longleftrightarrow> pol = SCHED_FIFO \<or> pol = SCHED_RR \<or> pol = SCHED_NORMAL \<or> pol = SCHED_BATCH
     \<or> pol = SCHED_IDLE \<or> pol = SCHED_MYCFS"

text \<open>The checks that need no privilege, and those for a caller without \<open>CAP_SYS_NICE\<close>.\<close>

definition check_param :: "task_struct \<Rightarrow> int \<Rightarrow> int \<Rightarrow> bool" where
  "check_param t pol pr \<longleftrightarrow>
     \<not> (pr < 0 \<or> has_mm t \<and> 99 < pr \<or> \<not> has_mm t \<and> MAX_RT_PRIO - 1 < pr) \<and> rt_policy pol = (pr \<noteq> 0)"

definition check_unprivileged :: "sched_env \<Rightarrow> tid \<Rightarrow> int \<Rightarrow> int \<Rightarrow> bool \<Rightarrow> sched \<Rightarrow> bool" where
  "check_unprivileged env p pol pr reset s =
    (let t = tsk s p
     in \<not> (rt_policy pol \<and> (pol \<noteq> policy t \<and> rlimit_rtprio env p = 0
                              \<or> rt_priority t < pr \<and> rlimit_rtprio env p < pr))
        \<and> \<not> (policy t = SCHED_IDLE \<and> pol \<noteq> SCHED_IDLE \<and> \<not> can_nice env p (task_nice t))
        \<and> check_same_owner env p
        \<and> \<not> (sched_reset_on_fork t \<and> \<not> reset))"

text \<open>The change itself, after all checks.\<close>

definition apply_policy :: "sched_env \<Rightarrow> tid \<Rightarrow> int \<Rightarrow> int \<Rightarrow> bool \<Rightarrow> sched \<Rightarrow> sched result" where
  "apply_policy env p pol pr reset s =
    (let queued = on_rq (tsk s p); running = (curr (rq s) = p);
         s1 = (if queued then dequeue_task env p 0 s else s);
         s2 = (if running then class_put env p s1 else s1);
         s3 = upd_task p (\<lambda>t. t\<lparr>sched_reset_on_fork := reset\<rparr>) s2;
         oldprio = prio (tsk s3 p); prev_class = sched_class (tsk s3 p);
         s4 = setscheduler env p pol pr s3;
         s5 = (if running then class_set_curr env (sched_class (tsk s4 p)) s4 else s4);
         s6 = (if queued then enqueue_task env p 0 s5 else s5)
     in rbind (check_class_changed env p prev_class oldprio s6) (\<lambda>s7. Inr (rt_mutex_adjust_pi env p s7)))"

definition sched_setscheduler' :: "sched_env \<Rightarrow> tid \<Rightarrow> int \<Rightarrow> int \<Rightarrow> bool \<Rightarrow> sched \<Rightarrow> (int \<times> sched) result" where
  "sched_setscheduler' env p policy_arg pr user_call s =
    (if in_interrupt env then Inl Bug
     else
      let t = tsk s p;
          reset = (if policy_arg < 0 then sched_reset_on_fork t else policy_arg AND SCHED_RESET_ON_FORK \<noteq> 0);
          pol = (if policy_arg < 0 then policy t else policy_arg AND NOT SCHED_RESET_ON_FORK)
      in if 0 \<le> policy_arg \<and> \<not> valid_policy pol then Inr (- EINVAL, s)
         else if \<not> check_param t pol pr then Inr (- EINVAL, s)
         else if user_call \<and> \<not> capable_sys_nice env \<and> \<not> check_unprivileged env p pol pr reset s then Inr (- EPERM, s)
         else if user_call \<and> security_setscheduler env p \<noteq> 0 then Inr (security_setscheduler env p, s)
         else if stop (rq s) = Some p then Inr (- EINVAL, s)
         else if pol = policy t \<and> (\<not> rt_policy pol \<or> pr = rt_priority t) then Inr (0, s)
         else rbind (apply_policy env p pol pr reset s) (\<lambda>s'. Inr (0, s')))"

definition sched_setscheduler :: "sched_env \<Rightarrow> tid \<Rightarrow> int \<Rightarrow> int \<Rightarrow> sched \<Rightarrow> (int \<times> sched) result" where
  "sched_setscheduler env p pol pr = sched_setscheduler' env p pol pr True"

definition sched_setscheduler_nocheck :: "sched_env \<Rightarrow> tid \<Rightarrow> int \<Rightarrow> int \<Rightarrow> sched \<Rightarrow> (int \<times> sched) result" where
  "sched_setscheduler_nocheck env p pol pr = sched_setscheduler' env p pol pr False"

definition find_process_by_pid :: "sched_env \<Rightarrow> int \<Rightarrow> sched \<Rightarrow> tid option" where
  "find_process_by_pid env pid s = (if pid \<noteq> 0 then find_task_by_vpid env pid else Some (curr (rq s)))"

text \<open>\<open>param\<close> is \<open>None\<close> for a null pointer and \<open>Some None\<close> for memory that cannot be read.\<close>

definition do_sched_setscheduler :: "sched_env \<Rightarrow> int \<Rightarrow> int \<Rightarrow> int option option \<Rightarrow> sched \<Rightarrow> (int \<times> sched) result" where
  "do_sched_setscheduler env pid pol param s =
    (case param of
       None \<Rightarrow> Inr (- EINVAL, s)
     | Some mem \<Rightarrow>
         if pid < 0 then Inr (- EINVAL, s)
         else case mem of
           None \<Rightarrow> Inr (- EFAULT, s)
         | Some pr \<Rightarrow>
             (case find_process_by_pid env pid s of
                None \<Rightarrow> Inr (- ESRCH, s)
              | Some p \<Rightarrow> sched_setscheduler env p pol pr s))"

definition sys_sched_setscheduler :: "sched_env \<Rightarrow> int \<Rightarrow> int \<Rightarrow> int option option \<Rightarrow> sched \<Rightarrow> (int \<times> sched) result" where
  "sys_sched_setscheduler env pid pol param s =
    (if pol < 0 then Inr (- EINVAL, s) else do_sched_setscheduler env pid pol param s)"

definition sys_sched_setparam :: "sched_env \<Rightarrow> int \<Rightarrow> int option option \<Rightarrow> sched \<Rightarrow> (int \<times> sched) result" where
  "sys_sched_setparam env pid = do_sched_setscheduler env pid (- 1)"

definition sys_sched_getscheduler :: "sched_env \<Rightarrow> int \<Rightarrow> sched \<Rightarrow> int" where
  "sys_sched_getscheduler env pid s =
    (if pid < 0 then - EINVAL
     else case find_process_by_pid env pid s of
       None \<Rightarrow> - ESRCH
     | Some p \<Rightarrow>
         if security_getscheduler env p \<noteq> 0 then security_getscheduler env p
         else policy (tsk s p) OR (if sched_reset_on_fork (tsk s p) then SCHED_RESET_ON_FORK else 0))"

definition sys_sched_getparam :: "sched_env \<Rightarrow> int \<Rightarrow> bool \<Rightarrow> bool \<Rightarrow> sched \<Rightarrow> int \<times> int option" where
  "sys_sched_getparam env pid param_null writable s =
    (if param_null \<or> pid < 0 then (- EINVAL, None)
     else case find_process_by_pid env pid s of
       None \<Rightarrow> (- ESRCH, None)
     | Some p \<Rightarrow>
         if security_getscheduler env p \<noteq> 0 then (security_getscheduler env p, None)
         else if writable then (0, Some (rt_priority (tsk s p))) else (- EFAULT, None))"

definition sys_sched_get_priority_max :: "int \<Rightarrow> int" where
  "sys_sched_get_priority_max pol =
    (if pol = SCHED_FIFO \<or> pol = SCHED_RR then 99
     else if pol = SCHED_NORMAL \<or> pol = SCHED_MYCFS \<or> pol = SCHED_BATCH \<or> pol = SCHED_IDLE then 0
     else - EINVAL)"

definition sys_sched_get_priority_min :: "int \<Rightarrow> int" where
  "sys_sched_get_priority_min pol =
    (if pol = SCHED_FIFO \<or> pol = SCHED_MYCFS \<or> pol = SCHED_RR then 1
     else if pol = SCHED_NORMAL \<or> pol = SCHED_BATCH \<or> pol = SCHED_IDLE then 0
     else - EINVAL)"

section \<open>Priority inheritance and fork\<close>

definition rt_mutex_setprio :: "sched_env \<Rightarrow> tid \<Rightarrow> int \<Rightarrow> sched \<Rightarrow> sched result" where
  "rt_mutex_setprio env p pr s =
    (if pr < 0 \<or> MAX_PRIO < pr then Inl Bug
     else if p = idle (rq s) then Inr s
     else
      let oldprio = prio (tsk s p); prev_class = sched_class (tsk s p);
          queued = on_rq (tsk s p); running = (curr (rq s) = p);
          s1 = (if queued then dequeue_task env p 0 s else s);
          s2 = (if running then class_put env p s1 else s1);
          s3 = upd_task p (\<lambda>t. t\<lparr>sched_class := if rt_prio pr then Rt_class else Fair_class, prio := pr\<rparr>) s2;
          s4 = (if running then class_set_curr env (sched_class (tsk s3 p)) s3 else s3);
          s5 = (if queued then enqueue_task env p (if oldprio < pr then ENQUEUE_HEAD else 0) s4 else s4)
      in check_class_changed env p prev_class oldprio s5)"

definition sched_fork' :: "tid \<Rightarrow> sched \<Rightarrow> sched" where
  "sched_fork' p = upd_task p (\<lambda>t. t\<lparr>on_rq := False, se := (se t)\<lparr>se_on_rq := False, exec_start := 0, sum_exec_runtime := 0,
     prev_sum_exec_runtime := 0, vruntime := 0\<rparr>\<rparr>)"

definition sched_fork :: "sched_env \<Rightarrow> tid \<Rightarrow> sched \<Rightarrow> sched" where
  "sched_fork env p s =
    (let s1 = upd_task p (\<lambda>t. t\<lparr>state := 0, prio := normal_prio (tsk s (curr (rq s)))\<rparr>) (sched_fork' p s);
         s2 = (if sched_reset_on_fork (tsk s1 p)
               then let s2a = upd_task p (\<lambda>t. if task_has_rt_policy t
                            then t\<lparr>policy := SCHED_NORMAL, static_prio := NICE_TO_PRIO 0, rt_priority := 0\<rparr>
                            else if PRIO_TO_NICE (static_prio t) < 0 then t\<lparr>static_prio := NICE_TO_PRIO 0\<rparr> else t) s1;
                        s2b = upd_task p (\<lambda>t. t\<lparr>normal_prio := static_prio t, prio := static_prio t\<rparr>) s2a
                    in upd_task p (\<lambda>t. t\<lparr>sched_reset_on_fork := False\<rparr>) (set_load_weight p s2b)
               else s1);
         s3 = (if \<not> rt_prio (prio (tsk s2 p)) then upd_task p (\<lambda>t. t\<lparr>sched_class := Fair_class\<rparr>) s2 else s2)
     in case sched_class (tsk s3 p) of
          Fair_class \<Rightarrow> task_fork_fair (fair env) (sched_clock env s3) p s3
        | Mycfs_class \<Rightarrow> s3
        | c \<Rightarrow> (case x_task_fork (ext_of env c) of None \<Rightarrow> s3 | Some f \<Rightarrow> f p s3))"

definition wake_up_new_task :: "sched_env \<Rightarrow> tid \<Rightarrow> sched \<Rightarrow> sched" where
  "wake_up_new_task env p s =
    check_preempt_curr env p WF_FORK (upd_task p (\<lambda>t. t\<lparr>on_rq := True\<rparr>) (activate_task env p 0 s))"

section \<open>Properties of the policy calls\<close>

text \<open>
  A refused \<open>sched_setscheduler\<close> changes nothing, and it is refused with \<open>-EINVAL\<close> for an unknown policy, a
  priority that does not fit the policy or a stop task, with \<open>-EPERM\<close> for a caller without the right.
\<close>
theorem setscheduler_refusals:
  assumes "sched_setscheduler' env p pol pr u s = Inr (e, s')" and "e \<noteq> 0"
  shows "s' = s \<and> (e = - EINVAL \<or> e = - EPERM \<or> u \<and> e = security_setscheduler env p)
    \<and> (e = - EPERM \<and> security_setscheduler env p \<noteq> - EPERM \<longrightarrow> u \<and> \<not> capable_sys_nice env)"
proof -
  define reset where "reset = (if pol < 0 then sched_reset_on_fork (tsk s p) else pol AND SCHED_RESET_ON_FORK \<noteq> 0)"
  define pol' where "pol' = (if pol < 0 then policy (tsk s p) else pol AND NOT SCHED_RESET_ON_FORK)"
  define b1 where "b1 = (0 \<le> pol \<and> \<not> valid_policy pol')"
  define b2 where "b2 = (\<not> check_param (tsk s p) pol' pr)"
  define b3 where "b3 = (u \<and> \<not> capable_sys_nice env \<and> \<not> check_unprivileged env p pol' pr reset s)"
  define b5 where "b5 = (pol' = policy (tsk s p) \<and> (\<not> rt_policy pol' \<or> pr = rt_priority (tsk s p)))"
  define r where "r = apply_policy env p pol' pr reset s"
  have eq: "sched_setscheduler' env p pol pr u s =
    (if in_interrupt env then Inl Bug else if b1 then Inr (- EINVAL, s) else if b2 then Inr (- EINVAL, s)
     else if b3 then Inr (- EPERM, s)
     else if u \<and> security_setscheduler env p \<noteq> 0 then Inr (security_setscheduler env p, s)
     else if stop (rq s) = Some p then Inr (- EINVAL, s)
     else if b5 then Inr (0, s) else rbind r (\<lambda>s'. Inr (0, s')))"
    unfolding sched_setscheduler'_def Let_def pol'_def [symmetric] reset_def [symmetric] b1_def b2_def b3_def b5_def r_def ..
  have r: "rbind r (\<lambda>s'. Inr (0, s')) = Inr (e, s') \<Longrightarrow> e = 0" by (cases r) simp_all
  from assms(1) consider "e = - EINVAL" "s' = s" | "b3" "e = - EPERM" "s' = s" | "u" "e = security_setscheduler env p" "s' = s" | "e = 0"
    unfolding eq using r by (simp only: split: if_split_asm) (simp_all only: sum.inject prod.inject sum.distinct)
  then show ?thesis
  proof cases
    case 1
    then show ?thesis by (simp add: errno_defs)
  next
    case 2
    then show ?thesis by (simp add: b3_def)
  next
    case 3
    then show ?thesis by auto
  next
    case 4
    with assms(2) show ?thesis by simp
  qed
qed

text \<open>
  For the policy of homework 4 the two calls that report the priority range contradict each other:
  the smallest priority is above the largest, and \<open>sched_setscheduler\<close> rejects every priority in between
  and at the reported minimum.
\<close>
theorem mycfs_priority_range_empty:
  assumes "sys_sched_get_priority_min SCHED_MYCFS \<le> pr" and "\<not> in_interrupt env"
  shows "sys_sched_get_priority_max SCHED_MYCFS < pr
    \<and> sched_setscheduler env p SCHED_MYCFS pr s = Inr (- EINVAL, s)"
proof -
  have pr: "1 \<le> pr" using assms(1) by (simp add: sys_sched_get_priority_min_def)
  have m: "SCHED_MYCFS AND NOT SCHED_RESET_ON_FORK = SCHED_MYCFS" "\<not> SCHED_MYCFS < 0" by (simp_all add: sched_const_defs)
  have c: "\<not> check_param t SCHED_MYCFS pr" for t
    using pr by (simp add: check_param_def rt_policy_def sched_const_defs)
  have "sys_sched_get_priority_max SCHED_MYCFS = 0" by (simp add: sys_sched_get_priority_max_def sched_const_defs)
  moreover have "sched_setscheduler env p SCHED_MYCFS pr s = Inr (- EINVAL, s)"
    unfolding sched_setscheduler_def sched_setscheduler'_def Let_def
    by (simp only: m c assms(2) if_False simp_thms if_True if_cancel)
  ultimately show ?thesis using pr by simp
qed

lemma setscheduler_class: "sched_class (tsk (setscheduler env p SCHED_MYCFS pr s) p) = Mycfs_class"
  by (simp add: setscheduler_def set_load_weight_def Let_def)

lemma fair_class_dequeue:
  assumes "sched_class (tsk s p) = Fair_class"
  shows "sched_class (tsk (dequeue_task env p flags s) p) = Fair_class" "sched_class (tsk (class_put env p s) p) = Fair_class"
proof -
  let ?t = "update_rq_clock (sched_clock env s) s"
  have t: "sched_class (tsk ?t p) = Fair_class" using assms attrsD(6) [OF attrs_basic(7)] by metis
  have "attrs (tsk (dequeue_task env p flags s) p) = attrs (tsk ?t p)"
    using t by (simp add: dequeue_task_def class_dequeue_def attrs_simps)
  with t show "sched_class (tsk (dequeue_task env p flags s) p) = Fair_class" using attrsD(6) by metis
  have "attrs (tsk (class_put env p s) p) = attrs (tsk s p)" using assms by (simp add: class_put_def attrs_simps)
  with assms show "sched_class (tsk (class_put env p s) p) = Fair_class" using attrsD(6) by metis
qed

lemma mycfs_enqueue_class:
  "sched_class (tsk s p) = Mycfs_class \<Longrightarrow> sched_class (tsk (enqueue_task env p flags s) p) = Mycfs_class"
  by (simp add: enqueue_task_def class_enqueue_def update_rq_clock_def enqueue_task_mycfs_def Let_def)

lemma apply_policy_mycfs_faults:
  assumes "sched_class (tsk s p) = Fair_class"
  shows "apply_policy env p SCHED_MYCFS pr reset s = Inl NullDeref"
proof -
  define s1 where "s1 = (if on_rq (tsk s p) then dequeue_task env p 0 s else s)"
  define s2 where "s2 = (if curr (rq s) = p then class_put env p s1 else s1)"
  define s3 where "s3 = upd_task p (\<lambda>t. t\<lparr>sched_reset_on_fork := reset\<rparr>) s2"
  define s4 where "s4 = setscheduler env p SCHED_MYCFS pr s3"
  define s5 where "s5 = (if curr (rq s) = p then class_set_curr env (sched_class (tsk s4 p)) s4 else s4)"
  define s6 where "s6 = (if on_rq (tsk s p) then enqueue_task env p 0 s5 else s5)"
  have 1: "sched_class (tsk s1 p) = Fair_class" using assms fair_class_dequeue(1) by (simp add: s1_def)
  then have "sched_class (tsk s2 p) = Fair_class" using fair_class_dequeue(2) by (simp add: s2_def)
  then have 3: "sched_class (tsk s3 p) = Fair_class" by (simp add: s3_def)
  have 4: "sched_class (tsk s4 p) = Mycfs_class" by (simp add: s4_def setscheduler_class)
  then have "sched_class (tsk s5 p) = Mycfs_class" by (simp add: s5_def class_set_curr_def)
  then have 6: "sched_class (tsk s6 p) = Mycfs_class" by (simp add: s6_def mycfs_enqueue_class)
  have "check_class_changed env p (sched_class (tsk s3 p)) (prio (tsk s3 p)) s6 = Inl NullDeref"
    using 3 6 by (simp add: check_class_changed_def Let_def)
  then show ?thesis
    unfolding apply_policy_def Let_def s1_def [symmetric] s2_def [symmetric] s3_def [symmetric] s4_def [symmetric]
      s5_def [symmetric] s6_def [symmetric] by simp
qed

text \<open>
  C40. A permitted \<open>sched_setscheduler\<close> that moves a task of the fair class to \<open>SCHED_MYCFS\<close> calls a null pointer:
  \<open>mycfs_sched_class\<close> has no \<open>switched_to\<close> method and \<open>check_class_changed\<close> calls it without a test.
\<close>
theorem setscheduler_mycfs_faults:
  assumes "sched_class (tsk s p) = Fair_class" and "policy (tsk s p) \<noteq> SCHED_MYCFS" and "stop (rq s) \<noteq> Some p"
    and "\<not> in_interrupt env" and "security_setscheduler env p = 0"
    and "capable_sys_nice env \<or> check_unprivileged env p SCHED_MYCFS 0 False s"
  shows "sched_setscheduler env p SCHED_MYCFS 0 s = Inl NullDeref"
proof -
  have m: "SCHED_MYCFS AND NOT SCHED_RESET_ON_FORK = SCHED_MYCFS" "SCHED_MYCFS AND SCHED_RESET_ON_FORK = 0"
    "\<not> SCHED_MYCFS < 0" by (simp_all add: sched_const_defs)
  have v: "valid_policy SCHED_MYCFS" by (simp add: valid_policy_def)
  have c: "check_param (tsk s p) SCHED_MYCFS 0" by (simp add: check_param_def rt_policy_def sched_const_defs)
  have "apply_policy env p SCHED_MYCFS 0 False s = Inl NullDeref" by (rule apply_policy_mycfs_faults [OF assms(1)])
  with assms(2-6) m v c show ?thesis
    by (auto simp: sched_setscheduler_def sched_setscheduler'_def Let_def)
qed

text \<open>
  A child keeps the policy \<open>SCHED_MYCFS\<close> of its parent but is put into the fair class, because
  \<open>sched_fork\<close> assigns the class by priority only.
\<close>
theorem fork_leaves_mycfs_class:
  assumes "policy (tsk s p) = SCHED_MYCFS" and "normal_prio (tsk s (curr (rq s))) \<ge> MAX_RT_PRIO"
    and "\<not> sched_reset_on_fork (tsk s p)"
  shows "policy (tsk (sched_fork env p s) p) = SCHED_MYCFS \<and> sched_class (tsk (sched_fork env p s) p) = Fair_class"
proof -
  define s3 where "s3 = upd_task p (\<lambda>t. t\<lparr>sched_class := Fair_class\<rparr>)
    (upd_task p (\<lambda>t. t\<lparr>state := 0, prio := normal_prio (tsk s (curr (rq s)))\<rparr>) (sched_fork' p s))"
  have r: "\<not> rt_prio (normal_prio (tsk s (curr (rq s))))" using assms(2) by (simp add: rt_prio_def)
  have "sched_fork env p s = task_fork_fair (fair env) (sched_clock env s3) p s3"
    using assms(3) r unfolding sched_fork_def s3_def Let_def by (simp add: sched_fork'_def)
  moreover have "policy (tsk s3 p) = SCHED_MYCFS" "sched_class (tsk s3 p) = Fair_class"
    using assms(1) by (simp_all add: s3_def sched_fork'_def)
  ultimately show ?thesis using attrsD(5,6) [OF attrs_task_fork_fair] by metis
qed

section \<open>Nice values and the fair run queue\<close>

lemma quiet_upd_task: "(\<And>t. se (f t) = se t) \<Longrightarrow> quiet s (upd_task p f s)"
  by (simp add: quiet_def)

lemma runnable_upd_task: "(\<And>t. se (f t) = se t) \<Longrightarrow> runnable (upd_task p f s) = runnable s"
  by (simp add: quiet_runnable [OF quiet_upd_task])

lemma fair_inv_set_load_weight:
  assumes "fair_inv s" "p \<notin> runnable s"
  shows "fair_inv (set_load_weight p s)" "runnable (set_load_weight p s) = runnable s"
    "queue (set_load_weight p s) = queue s" "cfs_curr (cfsq (set_load_weight p s)) = cfs_curr (cfsq s)"
proof -
  have "cfs_inv (set_load_weight p s)"
    using assms unfolding set_load_weight_def Let_def fair_inv_def by (intro cfs_inv_upd_waiting) simp_all
  with assms show "fair_inv (set_load_weight p s)" by (simp add: fair_inv_def set_load_weight_def Let_def)
  show "runnable (set_load_weight p s) = runnable s" "queue (set_load_weight p s) = queue s"
    "cfs_curr (cfsq (set_load_weight p s)) = cfs_curr (cfsq s)"
    by (auto simp: set_load_weight_def Let_def runnable_def)
qed

text \<open>The part of \<open>set_user_nice\<close> between dequeueing and enqueueing.\<close>

definition renice :: "tid \<Rightarrow> int \<Rightarrow> sched \<Rightarrow> sched" where
  "renice p nice s1 =
    (let s2 = set_load_weight p (upd_task p (\<lambda>t. t\<lparr>static_prio := NICE_TO_PRIO nice\<rparr>) s1);
         (np, s3) = effective_prio p s2
     in upd_task p (\<lambda>t. t\<lparr>prio := np\<rparr>) s3)"

lemma renice_inv:
  assumes "fair_inv s" "p \<notin> runnable s"
  shows "fair_inv (renice p nice s)" "runnable (renice p nice s) = runnable s" "queue (renice p nice s) = queue s"
    "cfs_curr (cfsq (renice p nice s)) = cfs_curr (cfsq s)" "curr (rq (renice p nice s)) = curr (rq s)"
proof -
  let ?s1 = "upd_task p (\<lambda>t. t\<lparr>static_prio := NICE_TO_PRIO nice\<rparr>) s"
  let ?s2 = "set_load_weight p ?s1"
  have q1: "quiet s ?s1" by (rule quiet_upd_task) simp
  note w = fair_inv_set_load_weight [OF fair_inv_quiet [OF assms(1) q1], of p]
  have p1: "p \<notin> runnable ?s1" using assms(2) quiet_runnable [OF q1] by simp
  have q3: "quiet ?s2 (renice p nice s)"
    unfolding renice_def effective_prio_def Let_def split_def fst_conv snd_conv
    by (rule quiet_trans [OF quiet_upd_task quiet_upd_task]) simp_all
  show "fair_inv (renice p nice s)" by (rule fair_inv_quiet [OF w(1) [OF p1] q3])
  show "runnable (renice p nice s) = runnable s" "queue (renice p nice s) = queue s"
    "cfs_curr (cfsq (renice p nice s)) = cfs_curr (cfsq s)" "curr (rq (renice p nice s)) = curr (rq s)"
    using quiet_runnable [OF q3] quiet_runnable [OF q1] w(2-4) [OF p1] q3
    by (simp_all add: quiet_def) (simp add: set_load_weight_def Let_def)
qed

lemma renice_task:
  assumes "policy (tsk s p) \<noteq> SCHED_IDLE" "- 20 \<le> nice"
  shows "task_nice (tsk (renice p nice s) p) = nice"
    "weight (load (ent (renice p nice s) p)) = prio_to_weight ! nat (nice + 20)"
    "sched_class (tsk (renice p nice s) p) = sched_class (tsk s p)" "on_rq (tsk (renice p nice s) p) = on_rq (tsk s p)"
    "policy (tsk (renice p nice s) p) = policy (tsk s p)"
  using assms
  by (simp_all add: renice_def effective_prio_def set_load_weight_def task_nice_def NICE_TO_PRIO_def PRIO_TO_NICE_def Let_def split_def
      add.commute)

lemma enqueue_task_fair_weight:
  "weight (load (ent (enqueue_task_fair env p flags s) q)) = weight (load (ent s q))"
proof (cases "se_on_rq (ent s p)")
  case True
  then show ?thesis by (simp add: enqueue_task_fair_def inc_nr_running_def)
next
  case False
  have q: "weight (load (ent (update_curr t) q)) = weight (load (ent t q))" for t
    using quiet_update_curr [of t] by (simp add: quiet_def)
  have "weight (load (ent (place_entity env p i t) q)) = weight (load (ent t q))" for i t
    by (rule place_entity_cases [of t env p i]) (simp add: quiet_def)
  with q have "weight (load (ent (enqueue_prepare env p flags s) q)) = weight (load (ent s q))"
    by (simp add: enqueue_prepare_def account_entity_enqueue_def Let_def)
  with False show ?thesis
    by (auto simp: enqueue_task_fair_def inc_nr_running_def enqueue_entity_split Let_def enqueue_entity'_frame)
qed

text \<open>
  Changing the nice value of a task of the fair class gives it the weight of the new level in the table
  and keeps the run queue consistent: the same tasks are runnable and the load of the queue is
  the sum of the new weights.
\<close>
theorem set_user_nice_correct:
  assumes "rb_lib_ok (rb (fair env))" and "fair_inv s" and "sched_class (tsk s p) = Fair_class"
    and "\<not> task_has_rt_policy (tsk s p)" and "policy (tsk s p) \<noteq> SCHED_IDLE" and "on_rq (tsk s p) \<longleftrightarrow> p \<in> runnable s"
    and "- 20 \<le> nice" and "nice \<le> 19" and "task_nice (tsk s p) \<noteq> nice"
    and "s' = set_user_nice env p nice s" and "windowed (ent s') (insert p (set (queue s)))"
  shows "fair_inv s' \<and> runnable s' = runnable s \<and> task_nice (tsk s' p) = nice
    \<and> weight (load (ent s' p)) = prio_to_weight ! nat (nice + 20)"
proof (cases "on_rq (tsk s p)")
  case False
  then have "s' = renice p nice s"
    using assms(4,7-10) by (simp add: set_user_nice_def renice_def Let_def split_def)
  with False assms renice_inv [OF assms(2), of p nice] renice_task [OF assms(5,7)] show ?thesis by simp
next
  case True
  let ?t = "update_rq_clock (sched_clock env s) s"
  let ?d = "dequeue_task env p 0 s"
  have c: "sched_class (tsk ?t p) = Fair_class" using assms(3) attrsD(6) [OF attrs_basic(7)] by metis
  have pr: "p \<in> runnable ?t" "fair_inv ?t" "queue ?t = queue s"
    using True assms(2,6) fair_inv_quiet quiet_runnable [OF quiet_update_rq_clock] quiet_update_rq_clock [of s "sched_clock env s"]
    by (auto simp: quiet_def)
  have d: "?d = dequeue_task_fair (fair env) p 0 ?t" using c by (simp add: dequeue_task_def class_dequeue_def)
  have di: "fair_inv ?d" "runnable ?d = runnable s - {p}"
    using fair_inv_dequeue [OF assms(1) pr(2,1) d] quiet_runnable [OF quiet_update_rq_clock] by simp_all
  have dq: "set (queue ?d) \<subseteq> set (queue s)"
    using dequeue_entity_inv(3) [OF assms(1) _ pr(1) refl, of 0] pr(2,3) set_remove1_subset
    by (simp add: d dequeue_task_fair_def dec_nr_running_def fair_inv_def del: set_inorder)
  have da: "policy (tsk ?d p) = policy (tsk s p)" "sched_class (tsk ?d p) = Fair_class"
    using attrsD(5,6) [OF attrs_dequeue_task_fair] attrsD(5,6) [OF attrs_basic(7)] assms(3) by (metis d)+
  let ?r = "renice p nice ?d"
  have r: "fair_inv ?r" "runnable ?r = runnable s - {p}" "queue ?r = queue ?d"
    using renice_inv [OF di(1), of p nice] di(2) by simp_all
  note rt = renice_task [of ?d p nice, unfolded da, OF assms(5,7)]
  let ?u = "update_rq_clock (sched_clock env ?r) ?r"
  let ?e = "enqueue_task env p 0 ?r"
  have uq: "quiet ?r ?u" by simp
  have e: "?e = enqueue_task_fair (fair env) p 0 ?u"
    using rt(3) da(2) attrsD(6) [OF attrs_basic(7)] by (simp add: enqueue_task_def class_enqueue_def attrs_basic)
  have s'e: "s' = ?e \<or> s' = resched_task (curr (rq ?e)) ?e"
    using True assms(4,7-10) by (simp add: set_user_nice_def renice_def Let_def split_def)
  then have q': "quiet ?e s'" by auto
  have v: "vrt s' x = vrt ?e x" for x using s'e by (auto simp: resched_task_def)
  have "windowed (ent ?e) (insert p (set (queue ?u)))"
    using assms(11) dq r(3) uq unfolding windowed_def v by (auto simp: quiet_def simp del: set_inorder)
  moreover have ru: "runnable ?u = runnable s - {p}" "p \<notin> runnable ?u" using r(2) quiet_runnable [OF uq] by simp_all
  ultimately have ei: "fair_inv ?e" "runnable ?e = insert p (runnable ?u)"
    using fair_inv_enqueue [OF assms(1) fair_inv_quiet [OF r(1) uq] _ e] by blast+
  have re: "runnable ?e = runnable s" using ei(2) ru(1) True assms(6) by (simp add: insert_absorb)
  have "attrs (tsk s' p) = attrs (tsk ?r p)" using s'e by (auto simp: e attrs_simps)
  from attrsD(4) [OF this] rt(1) have "task_nice (tsk s' p) = nice" by (simp add: task_nice_def)
  moreover have "weight (load (ent s' p)) = weight (load (ent ?r p))"
    using q' uq by (simp add: quiet_def e enqueue_task_fair_weight)
  ultimately show ?thesis
    using fair_inv_quiet [OF ei(1) q'] quiet_runnable [OF q'] re rt(2) by simp
qed

section \<open>Witnesses\<close>

definition null_class :: ext_class where
  "null_class = \<lparr>x_enqueue = (\<lambda>p f s. s), x_dequeue = (\<lambda>p f s. s), x_yield = (\<lambda>s. s), x_check_preempt = (\<lambda>p f s. s),
     x_pick = (\<lambda>s. (None, s)), x_put = (\<lambda>p s. s), x_set_curr = (\<lambda>s. s), x_tick = (\<lambda>p s. s), x_switched_from = (\<lambda>p s. s),
     x_switched_to = (\<lambda>p s. s), x_prio_changed = (\<lambda>p old s. s), x_task_fork = None\<rparr>"

definition idle_class0 :: ext_class where
  "idle_class0 = null_class\<lparr>x_pick := (\<lambda>s. (if sched_class (tsk s (idle (rq s))) = Idle_class then Some (idle (rq s)) else None, s))\<rparr>"

definition senv0 :: sched_env where
  "senv0 = \<lparr>fair = env0, stop_ops = null_class, rt_ops = null_class, idle_ops = idle_class0, sched_clock = (\<lambda>s. 9000),
     rt_mutex_getprio = (\<lambda>p s. normal_prio (tsk s p)), rt_mutex_adjust_pi = (\<lambda>p s. s), in_interrupt = False,
     capable_sys_nice = True, rlimit_rtprio = (\<lambda>p. 0), rlimit_nice = (\<lambda>p. 0),
     current_cred = \<lparr>cred_ns = 0, euid = 0, uid = 0\<rparr>, task_cred = (\<lambda>p. \<lparr>cred_ns = 0, euid = 0, uid = 0\<rparr>),
     security_setscheduler = (\<lambda>p. 0), security_getscheduler = (\<lambda>p. 0), security_setnice = (\<lambda>p n. 0),
     find_task_by_vpid = (\<lambda>i. Some (nat i)), signal_pending_state = (\<lambda>st p. False)\<rparr>"

lemma senv0_rb: "rb_lib_ok (rb (fair senv0))"
  by (simp add: senv0_def env0_rb)

lemma senv0_ext: "ext_pick_ok senv0"
  by (simp add: ext_pick_ok_def ext_of_def senv0_def null_class_def idle_class0_def)

lemma fair_inv_sched0: "fair_inv sched0"
  using sched0_inv by (simp add: fair_inv_def) (simp add: sched0_defs)

theorem setscheduler_refusals_witness:
  "sched_setscheduler' senv0 1 4 0 True sched0 = Inr (- EINVAL, sched0)
    \<and> (- EINVAL = - EINVAL \<or> - EINVAL = - EPERM \<or> True \<and> - EINVAL = security_setscheduler senv0 1)"
proof -
  have "sched_setscheduler' senv0 1 4 0 True sched0 = Inr (- EINVAL, sched0)"
    by (simp add: sched_setscheduler'_def senv0_def valid_policy_def sched_const_defs)
  with setscheduler_refusals [OF this] show ?thesis by (simp add: errno_defs)
qed

theorem mycfs_priority_range_empty_witness:
  "sys_sched_get_priority_max SCHED_MYCFS < 1 \<and> sched_setscheduler senv0 1 SCHED_MYCFS 1 sched0 = Inr (- EINVAL, sched0)"
  by (rule mycfs_priority_range_empty) (simp_all add: sys_sched_get_priority_min_def senv0_def)

theorem setscheduler_mycfs_faults_witness: "sched_setscheduler senv0 1 SCHED_MYCFS 0 sched0 = Inl NullDeref"
  by (rule setscheduler_mycfs_faults) (simp_all add: sched0_defs senv0_def sched_const_defs)

definition mycfs_parent :: sched where
  "mycfs_parent = upd_task 5 (\<lambda>t. t\<lparr>policy := SCHED_MYCFS, sched_class := Mycfs_class\<rparr>) sched0"

theorem fork_leaves_mycfs_class_witness:
  "policy (tsk (sched_fork senv0 5 mycfs_parent) 5) = SCHED_MYCFS \<and> sched_class (tsk (sched_fork senv0 5 mycfs_parent) 5) = Fair_class"
  by (rule fork_leaves_mycfs_class) (simp_all add: mycfs_parent_def sched0_defs sched_const_defs)

text \<open>One waiting task of the new class, and nothing else to run.\<close>

definition mycfs_waiting :: sched where
  "mycfs_waiting = upd_task 7 (\<lambda>t. t\<lparr>policy := SCHED_MYCFS, sched_class := Mycfs_class, on_rq := True\<rparr>) fresh"

theorem mycfs_waiter_never_picked_witness:
  "on_rq (tsk mycfs_waiting 7) \<and> (\<nexists>s'. pick_next_task senv0 mycfs_waiting = Inr (7, s'))"
proof -
  have "\<nexists>s'. pick_next_task senv0 mycfs_waiting = Inr (7, s')"
    by (rule mycfs_waiter_never_picked [OF senv0_rb senv0_ext])
      (auto simp: mycfs_waiting_def fair_inv_def cfs_inv_def timeline_ok_def buddies_def runnable_def fresh_def fresh_cfs_def
        init_cfs_rq_def task0_def ent0_def sched0_def)
  then show ?thesis by (simp add: mycfs_waiting_def)
qed

text \<open>A sleeping task is reniced.\<close>

theorem set_user_nice_correct_witness:
  "fair_inv (set_user_nice senv0 4 5 sched0) \<and> task_nice (tsk (set_user_nice senv0 4 5 sched0) 4) = 5
    \<and> weight (load (ent (set_user_nice senv0 4 5 sched0) 4)) = prio_to_weight ! 25"
proof -
  have p: "sched_class (tsk sched0 4) = Fair_class" "\<not> task_has_rt_policy (tsk sched0 4)" "policy (tsk sched0 4) \<noteq> SCHED_IDLE"
    "on_rq (tsk sched0 4) = (4 \<in> runnable sched0)" "task_nice (tsk sched0 4) \<noteq> 5"
    by (simp_all add: sched0_defs task_has_rt_policy_def rt_policy_def sched_const_defs runnable_def task_nice_def PRIO_TO_NICE_def)
  have e: "set_user_nice senv0 4 5 sched0 = renice 4 5 sched0"
    using p(2,5) by (simp add: set_user_nice_def renice_def Let_def split_def) (simp add: sched0_defs)
  have "vrt (renice 4 5 sched0) q = vrt sched0 q" for q
    by (simp add: renice_def effective_prio_def set_load_weight_def Let_def split_def)
  then have "windowed (ent (set_user_nice senv0 4 5 sched0)) (insert 4 (set (queue sched0)))"
    unfolding windowed_def e using sched0_window by auto
  from set_user_nice_correct [OF senv0_rb fair_inv_sched0 p(1-4) _ _ p(5) refl this] show ?thesis by simp
qed

end
