(* ===== verification/Sched_Load.thy ===== *)
theory Sched_Load
  imports Complex_Main Prelude
begin

unbundle bit_operations_syntax

text \<open>
  Load averages of the scheduler (\<open>hw4/kernel/sched/core.c\<close>): the global averages in fixed-point arithmetic
  with their catch-up after idle periods, the folding of per-processor counts into the global count, and
  the decaying load of each processor.

  All quantities are machine words: a \<open>long\<close> is the signed reading of a word. \<open>jiffies\<close> and the clock rate
  \<open>HZ\<close> are parameters. The per-processor data that these functions read is the record \<open>lrq\<close>.
\<close>

section \<open>State\<close>

record lrq =
  l_nr_running :: ulong
  l_nr_uninterruptible :: ulong
  calc_load_active :: ulong
  l_calc_load_update :: ulong
  l_weight :: ulong
  cpu_load :: "ulong list"
  last_load_update_tick :: ulong
  nr_load_updates :: ulong

record loadsys =
  lrqs :: "nat \<Rightarrow> lrq"
  calc_load_tasks :: ulong
  calc_load_tasks_idle :: ulong
  calc_load_update :: ulong
  avenrun :: "ulong \<times> ulong \<times> ulong"

definition FSHIFT :: nat where "FSHIFT = 11"
definition FIXED_1 :: ulong where "FIXED_1 = 2048"
definition EXP_1 :: ulong where "EXP_1 = 1884"
definition EXP_5 :: ulong where "EXP_5 = 2014"
definition EXP_15 :: ulong where "EXP_15 = 2037"

definition LOAD_FREQ :: "ulong \<Rightarrow> ulong" where
  "LOAD_FREQ HZ = 5 * HZ + 1"

definition time_before :: "ulong \<Rightarrow> ulong \<Rightarrow> bool" where
  "time_before a b \<longleftrightarrow> sint (a - b) < 0"

section \<open>Counting active tasks\<close>

definition calc_load_fold_active :: "lrq \<Rightarrow> ulong \<times> lrq" where
  "calc_load_fold_active r =
    (let nr_active = l_nr_running r + l_nr_uninterruptible r
     in if nr_active \<noteq> calc_load_active r
        then (nr_active - calc_load_active r, r\<lparr>calc_load_active := nr_active\<rparr>) else (0, r))"

definition upd_lrq :: "nat \<Rightarrow> (lrq \<Rightarrow> lrq) \<Rightarrow> loadsys \<Rightarrow> loadsys" where
  "upd_lrq c f s = s\<lparr>lrqs := (lrqs s)(c := f (lrqs s c))\<rparr>"

definition calc_load_account_idle :: "nat \<Rightarrow> loadsys \<Rightarrow> loadsys" where
  "calc_load_account_idle c s =
    (let (delta, r) = calc_load_fold_active (lrqs s c); s1 = upd_lrq c (\<lambda>_. r) s
     in if delta \<noteq> 0 then s1\<lparr>calc_load_tasks_idle := calc_load_tasks_idle s1 + delta\<rparr> else s1)"

definition calc_load_fold_idle :: "loadsys \<Rightarrow> ulong \<times> loadsys" where
  "calc_load_fold_idle s =
    (if calc_load_tasks_idle s \<noteq> 0 then (calc_load_tasks_idle s, s\<lparr>calc_load_tasks_idle := 0\<rparr>) else (0, s))"

definition calc_load_account_active :: "ulong \<Rightarrow> ulong \<Rightarrow> nat \<Rightarrow> loadsys \<Rightarrow> loadsys" where
  "calc_load_account_active HZ jiffies c s =
    (if time_before jiffies (l_calc_load_update (lrqs s c)) then s
     else let (d1, r) = calc_load_fold_active (lrqs s c);
              (d2, s1) = calc_load_fold_idle (upd_lrq c (\<lambda>_. r) s);
              delta = d1 + d2;
              s2 = (if delta \<noteq> 0 then s1\<lparr>calc_load_tasks := calc_load_tasks s1 + delta\<rparr> else s1)
          in upd_lrq c (\<lambda>r. r\<lparr>l_calc_load_update := l_calc_load_update r + LOAD_FREQ HZ\<rparr>) s2)"

definition calc_global_load_remove :: "nat \<Rightarrow> loadsys \<Rightarrow> loadsys" where
  "calc_global_load_remove c s =
    upd_lrq c (\<lambda>r. r\<lparr>calc_load_active := 0\<rparr>) (s\<lparr>calc_load_tasks := calc_load_tasks s - calc_load_active (lrqs s c)\<rparr>)"

definition migrate_nr_uninterruptible :: "nat \<Rightarrow> nat \<Rightarrow> loadsys \<Rightarrow> loadsys" where
  "migrate_nr_uninterruptible src dest s =
    upd_lrq src (\<lambda>r. r\<lparr>l_nr_uninterruptible := 0\<rparr>)
      (upd_lrq dest (\<lambda>r. r\<lparr>l_nr_uninterruptible := l_nr_uninterruptible r + l_nr_uninterruptible (lrqs s src)\<rparr>) s)"

definition nr_uninterruptible_sum :: "nat list \<Rightarrow> loadsys \<Rightarrow> ulong" where
  "nr_uninterruptible_sum cpus s =
    (let n = sum_list (map (\<lambda>c. l_nr_uninterruptible (lrqs s c)) cpus) in if sint n < 0 then 0 else n)"

section \<open>Fixed-point averages\<close>

definition calc_load :: "ulong \<Rightarrow> ulong \<Rightarrow> ulong \<Rightarrow> ulong" where
  "calc_load load ex active =
    drop_bit FSHIFT (load * ex + active * (FIXED_1 - ex) + push_bit (FSHIFT - 1) 1)"

definition fixed_mult :: "nat \<Rightarrow> ulong \<Rightarrow> ulong \<Rightarrow> ulong" where
  "fixed_mult frac_bits a b = drop_bit frac_bits (a * b + push_bit (frac_bits - 1) 1)"

text \<open>The loop of \<open>fixed_power_int\<close>; the power \<open>n\<close> is halved in each round.\<close>

fun fixed_power_loop :: "nat \<Rightarrow> ulong \<Rightarrow> nat \<Rightarrow> ulong \<Rightarrow> ulong" where
  "fixed_power_loop frac_bits x n result =
    (let result' = (if odd n then fixed_mult frac_bits result x else result); n' = n div 2
     in if n' = 0 then result' else fixed_power_loop frac_bits (fixed_mult frac_bits x x) n' result')"

declare fixed_power_loop.simps [simp del]

definition fixed_power_int :: "ulong \<Rightarrow> nat \<Rightarrow> nat \<Rightarrow> ulong" where
  "fixed_power_int x frac_bits n =
    (let result = push_bit frac_bits 1 in if n \<noteq> 0 then fixed_power_loop frac_bits x n result else result)"

definition calc_load_n :: "ulong \<Rightarrow> ulong \<Rightarrow> ulong \<Rightarrow> nat \<Rightarrow> ulong" where
  "calc_load_n load ex active n = calc_load load (fixed_power_int ex FSHIFT n) active"

definition active_fixed :: "loadsys \<Rightarrow> ulong" where
  "active_fixed s = (if 0 < sint (calc_load_tasks s) then calc_load_tasks s * FIXED_1 else 0)"

definition calc_global_nohz :: "ulong \<Rightarrow> ulong \<Rightarrow> loadsys \<Rightarrow> loadsys" where
  "calc_global_nohz HZ jiffies s =
    (let (delta, s1) = calc_load_fold_idle s;
         s2 = (if delta \<noteq> 0 then s1\<lparr>calc_load_tasks := calc_load_tasks s1 + delta\<rparr> else s1)
     in if time_before jiffies (calc_load_update s2 + 10) then s2
        else let n = 1 + (jiffies - calc_load_update s2 - 10) div LOAD_FREQ HZ;
                 active = active_fixed s2;
                 (a, b, c) = avenrun s2
             in s2\<lparr>avenrun := (calc_load_n a EXP_1 active (unat n), calc_load_n b EXP_5 active (unat n),
                               calc_load_n c EXP_15 active (unat n)),
                   calc_load_update := calc_load_update s2 + n * LOAD_FREQ HZ\<rparr>)"

definition calc_global_load :: "ulong \<Rightarrow> ulong \<Rightarrow> loadsys \<Rightarrow> loadsys" where
  "calc_global_load HZ jiffies s =
    (if time_before jiffies (calc_load_update s + 10) then s
     else let active = active_fixed s; (a, b, c) = avenrun s;
              s1 = s\<lparr>avenrun := (calc_load a EXP_1 active, calc_load b EXP_5 active, calc_load c EXP_15 active),
                     calc_load_update := calc_load_update s + LOAD_FREQ HZ\<rparr>
          in calc_global_nohz HZ jiffies s1)"

definition get_avenrun :: "ulong \<Rightarrow> nat \<Rightarrow> loadsys \<Rightarrow> ulong \<times> ulong \<times> ulong" where
  "get_avenrun off sh s =
    (let (a, b, c) = avenrun s in (push_bit sh (a + off), push_bit sh (b + off), push_bit sh (c + off)))"

section \<open>Load of a processor\<close>

definition degrade_zero_ticks :: "nat list" where
  "degrade_zero_ticks = [0, 8, 32, 64, 128]"

definition degrade_factor :: "ulong list list" where
  "degrade_factor = [
    [0, 0, 0, 0, 0, 0, 0, 0],
    [64, 32, 8, 0, 0, 0, 0, 0],
    [96, 72, 40, 12, 1, 0, 0, 0],
    [112, 98, 75, 43, 15, 1, 0, 0],
    [120, 112, 98, 76, 45, 16, 2, 0]]"

fun decay_loop :: "nat \<Rightarrow> nat \<Rightarrow> nat \<Rightarrow> ulong \<Rightarrow> ulong" where
  "decay_loop idx j missed ld =
    (if missed = 0 then ld
     else decay_loop idx (j + 1) (missed div 2)
            (if odd missed then drop_bit 7 (ld * degrade_factor ! idx ! j) else ld))"

declare decay_loop.simps [simp del]

definition decay_load_missed :: "ulong \<Rightarrow> nat \<Rightarrow> nat \<Rightarrow> ulong" where
  "decay_load_missed ld missed idx =
    (if missed = 0 then ld
     else if degrade_zero_ticks ! idx \<le> missed then 0
     else if idx = 1 then drop_bit missed ld
     else decay_loop idx 0 missed ld)"

definition new_cpu_load :: "ulong \<Rightarrow> nat \<Rightarrow> nat \<Rightarrow> ulong \<Rightarrow> ulong" where
  "new_cpu_load this_load pending i old =
    (let old_load = decay_load_missed old (pending - 1) i; scale = 2 ^ i :: ulong;
         new_load = (if old_load < this_load then this_load + (scale - 1) else this_load)
     in drop_bit i (old_load * (scale - 1) + new_load))"

definition update_cpu_load :: "ulong \<Rightarrow> lrq \<Rightarrow> lrq" where
  "update_cpu_load jiffies r0 =
    (let r = r0\<lparr>nr_load_updates := nr_load_updates r0 + 1\<rparr>
     in if jiffies = last_load_update_tick r then r
        else let pending = unat (jiffies - last_load_update_tick r); ld = l_weight r
             in r\<lparr>last_load_update_tick := jiffies,
                  cpu_load := ld # map (\<lambda>i. new_cpu_load ld pending i (cpu_load r ! i)) [1, 2, 3, 4]\<rparr>)"

definition update_cpu_load_active :: "ulong \<Rightarrow> ulong \<Rightarrow> nat \<Rightarrow> loadsys \<Rightarrow> loadsys" where
  "update_cpu_load_active HZ jiffies c s =
    calc_load_account_active HZ jiffies c (upd_lrq c (update_cpu_load jiffies) s)"

section \<open>Conservation of the task count\<close>

text \<open>
  Events on a set \<open>C\<close> of processors: tasks start and stop, processors fold their counts on the tick or when
  they go idle, the timer updates the averages, a processor is taken down.
\<close>

inductive load_step :: "nat set \<Rightarrow> loadsys \<Rightarrow> loadsys \<Rightarrow> bool" for C where
  l_tasks: "c \<in> C \<Longrightarrow> load_step C s (upd_lrq c (\<lambda>r. r\<lparr>l_nr_running := n, l_nr_uninterruptible := u\<rparr>) s)"
| l_idle: "c \<in> C \<Longrightarrow> load_step C s (calc_load_account_idle c s)"
| l_tick: "c \<in> C \<Longrightarrow> load_step C s (update_cpu_load_active HZ jiffies c s)"
| l_global: "load_step C s (calc_global_load HZ jiffies s)"
| l_remove: "c \<in> C \<Longrightarrow> load_step C s (calc_global_load_remove c s)"
| l_migrate: "c \<in> C \<Longrightarrow> d \<in> C \<Longrightarrow> load_step C s (migrate_nr_uninterruptible c d s)"

definition counted :: "nat set \<Rightarrow> loadsys \<Rightarrow> bool" where
  "counted C s \<longleftrightarrow> calc_load_tasks s + calc_load_tasks_idle s = (\<Sum>c \<in> C. calc_load_active (lrqs s c))"

lemma counted_upd_lrq:
  assumes "finite C" "c \<in> C"
  shows "(\<Sum>d \<in> C. calc_load_active (lrqs (upd_lrq c f s) d))
    = (\<Sum>d \<in> C. calc_load_active (lrqs s d)) + (calc_load_active (f (lrqs s c)) - calc_load_active (lrqs s c))"
proof -
  have "(\<Sum>d \<in> C - {c}. calc_load_active (lrqs (upd_lrq c f s) d)) = (\<Sum>d \<in> C - {c}. calc_load_active (lrqs s d))"
    by (rule sum.cong) (auto simp: upd_lrq_def)
  then show ?thesis
    using sum.remove [OF assms, of "\<lambda>d. calc_load_active (lrqs (upd_lrq c f s) d)"] sum.remove [OF assms, of "\<lambda>d. calc_load_active (lrqs s d)"]
    by (simp add: upd_lrq_def)
qed

lemma upd_lrq_frame [simp]:
  "calc_load_tasks (upd_lrq c f s) = calc_load_tasks s" "calc_load_tasks_idle (upd_lrq c f s) = calc_load_tasks_idle s"
  by (simp_all add: upd_lrq_def)

lemma fold_active_delta:
  "calc_load_active (snd (calc_load_fold_active r)) - calc_load_active r = fst (calc_load_fold_active r)"
  by (simp add: calc_load_fold_active_def Let_def)

lemma fold_idle_frame [simp]:
  "lrqs (snd (calc_load_fold_idle s)) = lrqs s"
  "calc_load_tasks (snd (calc_load_fold_idle s)) + fst (calc_load_fold_idle s) + calc_load_tasks_idle (snd (calc_load_fold_idle s))
    = calc_load_tasks s + calc_load_tasks_idle s"
  by (simp_all add: calc_load_fold_idle_def)

lemma counted_upd_same:
  assumes "finite C" "c \<in> C" "counted C s" "\<And>r. calc_load_active (f r) = calc_load_active r"
  shows "counted C (upd_lrq c f s)"
  using assms(3) counted_upd_lrq [OF assms(1,2), of f s] assms(4) by (simp add: counted_def)

lemma counted_account_active:
  assumes "finite C" "c \<in> C" "counted C s"
  shows "counted C (calc_load_account_active HZ jiffies c s)"
proof (cases "time_before jiffies (l_calc_load_update (lrqs s c))")
  case True
  with assms show ?thesis by (simp add: calc_load_account_active_def)
next
  case False
  define f where "f = calc_load_fold_active (lrqs s c)"
  define t where "t = upd_lrq c (\<lambda>_. snd f) s"
  define g where "g = calc_load_fold_idle t"
  define u where "u = (if fst f + fst g \<noteq> 0 then (snd g)\<lparr>calc_load_tasks := calc_load_tasks (snd g) + (fst f + fst g)\<rparr> else snd g)"
  have "(\<Sum>d \<in> C. calc_load_active (lrqs t d)) = (\<Sum>d \<in> C. calc_load_active (lrqs s d)) + fst f"
    unfolding t_def counted_upd_lrq [OF assms(1,2)] f_def fold_active_delta ..
  moreover have "lrqs u = lrqs t" by (simp add: u_def g_def)
  moreover have "calc_load_tasks u + calc_load_tasks_idle u = calc_load_tasks (snd g) + fst g + calc_load_tasks_idle (snd g) + fst f"
    by (auto simp: u_def algebra_simps)
  moreover have "calc_load_tasks (snd g) + fst g + calc_load_tasks_idle (snd g) = calc_load_tasks s + calc_load_tasks_idle s"
    unfolding g_def fold_idle_frame by (simp add: t_def)
  ultimately have "counted C u" using assms(3) by (simp add: counted_def)
  then have "counted C (upd_lrq c (\<lambda>r. r\<lparr>l_calc_load_update := l_calc_load_update r + LOAD_FREQ HZ\<rparr>) u)"
    by (intro counted_upd_same [OF assms(1,2)]) simp_all
  with False show ?thesis
    unfolding calc_load_account_active_def Let_def split_def f_def [symmetric] t_def [symmetric] g_def [symmetric] u_def [symmetric]
    by simp
qed

lemma counted_global:
  assumes "counted C s"
  shows "counted C (calc_global_load HZ jiffies s)"
proof -
  have n: "counted C (calc_global_nohz HZ jiffies t)" if "counted C t" for t
  proof -
    define g where "g = calc_load_fold_idle t"
    define u where "u = (if fst g \<noteq> 0 then (snd g)\<lparr>calc_load_tasks := calc_load_tasks (snd g) + fst g\<rparr> else snd g)"
    have "lrqs u = lrqs t" by (simp add: u_def g_def)
    moreover have "calc_load_tasks u + calc_load_tasks_idle u = calc_load_tasks (snd g) + fst g + calc_load_tasks_idle (snd g)"
      by (simp add: u_def)
    ultimately have "counted C u" using that unfolding counted_def g_def by simp
    then show ?thesis
      unfolding calc_global_nohz_def Let_def split_def g_def [symmetric] u_def [symmetric]
      by (simp add: counted_def)
  qed
  have "counted C (s\<lparr>avenrun := a, calc_load_update := b\<rparr>)" for a b using assms by (simp add: counted_def)
  with assms n show ?thesis unfolding calc_global_load_def Let_def split_def by simp
qed

text \<open>
  C32. No active task is lost or counted twice: the global count plus the count that idle processors still
  owe is at every moment the sum of what the processors have reported, through any sequence of
  ticks, idle periods, timer updates and processors going down.
\<close>
theorem load_count_conserved:
  assumes "finite C" and "(load_step C)\<^sup>*\<^sup>* s s'"
    and "calc_load_tasks s + calc_load_tasks_idle s = (\<Sum>c \<in> C. calc_load_active (lrqs s c))"
  shows "calc_load_tasks s' + calc_load_tasks_idle s' = (\<Sum>c \<in> C. calc_load_active (lrqs s' c))"
proof -
  have step: "counted C t'" if "load_step C t t'" "counted C t" for t t'
    using that
  proof (induction rule: load_step.induct)
    case (l_tasks c s n u)
    then show ?case by (intro counted_upd_same [OF assms(1)]) simp_all
  next
    case (l_idle c s)
    then show ?case
      using counted_upd_lrq [OF assms(1) l_idle(1), of "\<lambda>_. snd (calc_load_fold_active (lrqs s c))" s]
      by (simp add: counted_def calc_load_account_idle_def Let_def split_def fold_active_delta add.assoc)
  next
    case (l_tick c s HZ jiffies)
    have "calc_load_active (update_cpu_load jiffies r) = calc_load_active r" for r
      by (simp add: update_cpu_load_def Let_def)
    then have "counted C (upd_lrq c (update_cpu_load jiffies) s)"
      by (intro counted_upd_same [OF assms(1) l_tick(1,2)])
    then show ?case unfolding update_cpu_load_active_def by (rule counted_account_active [OF assms(1) l_tick(1)])
  next
    case (l_global s HZ jiffies)
    then show ?case by (rule counted_global)
  next
    case (l_remove c s)
    then show ?case
      using counted_upd_lrq [OF assms(1) l_remove(1), of "\<lambda>r. r\<lparr>calc_load_active := 0\<rparr>" "s\<lparr>calc_load_tasks := calc_load_tasks s - calc_load_active (lrqs s c)\<rparr>"]
      by (simp add: counted_def calc_global_load_remove_def)
  next
    case (l_migrate c d s)
    then show ?case unfolding migrate_nr_uninterruptible_def by (intro counted_upd_same [OF assms(1)]) simp_all
  qed
  from assms(2) have "counted C s \<Longrightarrow> counted C s'"
    by (induction rule: rtranclp_induct) (auto intro: step)
  with assms(3) show ?thesis by (simp add: counted_def)
qed

section \<open>Bounds of the averages\<close>

lemma weighted_sum_bounds:
  fixes l a w :: nat
  assumes "w \<le> 2048" "l \<le> B" "a \<le> B"
  shows "l * w + a * (2048 - w) \<le> B * 2048" "min l a * 2048 \<le> l * w + a * (2048 - w)"
proof -
  have "l * w + a * (2048 - w) \<le> B * w + B * (2048 - w)" using assms by (intro add_mono mult_right_mono) auto
  also have "\<dots> = B * 2048" using assms(1) by (simp flip: distrib_left)
  finally show "l * w + a * (2048 - w) \<le> B * 2048" .
  have "min l a * 2048 = min l a * w + min l a * (2048 - w)" using assms(1) by (simp flip: distrib_left)
  also have "\<dots> \<le> l * w + a * (2048 - w)" by (intro add_mono mult_right_mono) auto
  finally show "min l a * 2048 \<le> l * w + a * (2048 - w)" .
qed

lemma calc_load_nat:
  assumes "unat ex \<le> 2048" "unat l \<le> B" "unat a \<le> B" "B < 2 ^ 20"
  shows "unat (calc_load l ex a) = (unat l * unat ex + unat a * (2048 - unat ex) + 1024) div 2048"
proof -
  have B: "B * 2048 + 1024 < 2 ^ 32" using assms(4) by simp
  note w = weighted_sum_bounds [OF assms(1-3)]
  have f: "unat (FIXED_1 - ex) = 2048 - unat ex"
    using assms(1) by (simp add: FIXED_1_def unat_sub word_le_nat_alt)
  have 1: "unat (l * ex) = unat l * unat ex" using w(1) B by (intro unat_mult_small) linarith
  have 2: "unat (a * (FIXED_1 - ex)) = unat a * (2048 - unat ex)"
    using unat_mult_small [of a "FIXED_1 - ex"] w(1) B unfolding f by linarith
  have 3: "unat (l * ex + a * (FIXED_1 - ex)) = unat l * unat ex + unat a * (2048 - unat ex)"
    using unat_add_small [of "l * ex" "a * (FIXED_1 - ex)"] w(1) B unfolding 1 2 by linarith
  have "unat (l * ex + a * (FIXED_1 - ex) + 1024) = unat l * unat ex + unat a * (2048 - unat ex) + 1024"
    using w(1) B by (subst unat_add_small) (simp_all add: 3)
  then show ?thesis by (simp add: calc_load_def FSHIFT_def drop_bit_eq_div unat_div)
qed

text \<open>
  One update of a load average does not overflow and lands between the old average and the number of
  active tasks, for any decay factor up to one and averages below 512 tasks (in fixed-point:
  \<open>2 ^ 20\<close>), however many periods were missed.
\<close>
theorem calc_load_between:
  assumes "unat ex \<le> 2048" and "unat l < 2 ^ 20" and "unat a < 2 ^ 20"
  shows "min (unat l) (unat a) \<le> unat (calc_load l ex a) \<and> unat (calc_load l ex a) \<le> max (unat l) (unat a)"
proof -
  let ?B = "max (unat l) (unat a)"
  have B: "?B < 2 ^ 20" using assms by simp
  note w = weighted_sum_bounds [OF assms(1), of "unat l" ?B "unat a"]
  have e: "unat (calc_load l ex a) = (unat l * unat ex + unat a * (2048 - unat ex) + 1024) div 2048"
    by (rule calc_load_nat [OF assms(1) _ _ B]) simp_all
  have "(unat l * unat ex + unat a * (2048 - unat ex) + 1024) div 2048 \<le> (?B * 2048 + 1024) div 2048"
    using w(1) by (intro div_le_mono) simp
  moreover have "min (unat l) (unat a) * 2048 div 2048 \<le> (unat l * unat ex + unat a * (2048 - unat ex) + 1024) div 2048"
    using w(2) by (intro div_le_mono) simp
  ultimately show ?thesis unfolding e by simp
qed

theorem calc_load_between_witness:
  "unat (5000 :: ulong) < 2 ^ 20 \<and> 2048 \<le> unat (calc_load 5000 EXP_1 2048) \<and> unat (calc_load 5000 EXP_1 2048) \<le> 5000"
  using calc_load_between [of EXP_1 5000 2048] by (simp add: EXP_1_def)

section \<open>Powers in fixed-point arithmetic\<close>

lemma unat_two_power: "k < 32 \<Longrightarrow> unat (2 ^ k :: ulong) = 2 ^ k"
proof -
  assume "k < 32"
  then have "take_bit 32 ((2 :: nat) ^ k) = 2 ^ k"
    by (intro take_bit_nat_eq_self power_strict_increasing) auto
  then have "unat (of_nat (2 ^ k) :: ulong) = 2 ^ k" by (simp only: unsigned_of_nat) simp
  then show ?thesis by simp
qed

lemma fixed_mult_nat:
  assumes "1 \<le> f" "f \<le> 15" "unat a \<le> 2 ^ f" "unat b \<le> 2 ^ f"
  shows "unat (fixed_mult f a b) = (unat a * unat b + 2 ^ (f - 1)) div 2 ^ f" "unat (fixed_mult f a b) \<le> 2 ^ f"
proof -
  have "unat a * unat b \<le> 2 ^ f * 2 ^ f" by (rule mult_mono) (use assms in auto)
  also have "(2 :: nat) ^ f * 2 ^ f \<le> 2 ^ 15 * 2 ^ 15" using assms(2) by (intro mult_mono power_increasing) auto
  finally have ab: "unat a * unat b \<le> 2 ^ 30" "unat a * unat b \<le> 2 ^ f * 2 ^ f" using \<open>unat a * unat b \<le> 2 ^ f * 2 ^ f\<close> by simp_all
  have p: "unat (push_bit (f - 1) 1 :: ulong) = 2 ^ (f - 1)" and pf: "unat (2 ^ f :: ulong) = 2 ^ f"
    using assms(1,2) by (simp_all add: push_bit_eq_mult unat_two_power)
  have "(2 :: nat) ^ (f - 1) \<le> 2 ^ 15" using assms(2) by (intro power_increasing) auto
  with ab(1) have s: "unat (a * b + push_bit (f - 1) 1) = unat a * unat b + 2 ^ (f - 1)"
    using unat_mult_small [of a b] unat_add_small [of "a * b" "push_bit (f - 1) 1"] unfolding p by simp
  show e: "unat (fixed_mult f a b) = (unat a * unat b + 2 ^ (f - 1)) div 2 ^ f"
    unfolding fixed_mult_def drop_bit_eq_div unat_div s pf ..
  have "(2 :: nat) ^ (f - 1) < 2 ^ f" using assms(1) by (intro power_strict_increasing) auto
  then have "unat a * unat b + 2 ^ (f - 1) < 2 ^ f * 2 ^ f + 2 ^ f" using ab(2) by linarith
  then have "unat a * unat b + 2 ^ (f - 1) < (2 ^ f + 1) * 2 ^ f" by (simp only: distrib_right mult_1)
  then show "unat (fixed_mult f a b) \<le> 2 ^ f" unfolding e by (simp add: less_mult_imp_div_less flip: less_Suc_eq_le)
qed

lemma fixed_mult_real:
  assumes "1 \<le> f" "f \<le> 15" "unat a \<le> 2 ^ f" "unat b \<le> 2 ^ f"
  shows "\<bar>real (unat (fixed_mult f a b)) - real (unat a) * real (unat b) / 2 ^ f\<bar> \<le> 1 / 2"
proof -
  let ?n = "unat a * unat b + 2 ^ (f - 1)" and ?F = "2 ^ f :: nat"
  let ?v = "unat (fixed_mult f a b)"
  have F: "real ?F = 2 * 2 ^ (f - 1)" "0 < real ?F" using assms(1) by (cases f; simp)+
  have v: "?v = ?n div ?F" by (rule fixed_mult_nat(1) [OF assms])
  have "?v * ?F \<le> ?n" "?n < (?v + 1) * ?F" unfolding v by (simp, metis div_less_iff_less_mult less_add_one pos2 zero_less_power)
  then have "real ?v * real ?F \<le> real ?n" "real ?n < (real ?v + 1) * real ?F"
    by (metis of_nat_le_iff of_nat_mult, metis of_nat_less_iff of_nat_mult of_nat_add of_nat_1)
  moreover have "real ?n = real (unat a) * real (unat b) + real ?F / 2" using F by simp
  ultimately have "real ?v \<le> real (unat a) * real (unat b) / real ?F + 1 / 2"
    "real (unat a) * real (unat b) / real ?F + 1 / 2 < real ?v + 1"
    using F(2) by (simp_all add: field_simps)
  then show ?thesis unfolding of_nat_power of_nat_numeral by linarith
qed

lemma product_error:
  fixes F :: real
  assumes "0 < F" "0 \<le> x" "x \<le> F" "0 \<le> R" "R \<le> F" "\<bar>r - R\<bar> \<le> e" "\<bar>x - X\<bar> \<le> d"
  shows "\<bar>r * x / F - R * X / F\<bar> \<le> e + d"
proof -
  have "r * x - R * X = (r - R) * x + R * (x - X)" by (simp add: algebra_simps)
  then have "\<bar>r * x - R * X\<bar> \<le> \<bar>r - R\<bar> * x + R * \<bar>x - X\<bar>"
    using assms abs_triangle_ineq [of "(r - R) * x" "R * (x - X)"] by (simp add: abs_mult)
  also have "\<dots> \<le> e * F + F * d" using assms by (intro add_mono mult_mono) auto
  finally have "\<bar>r * x - R * X\<bar> \<le> (e + d) * F" by (simp add: algebra_simps)
  then have "\<bar>r * x - R * X\<bar> / F \<le> e + d" using assms(1) by (simp only: pos_divide_le_eq)
  moreover have "\<bar>r * x / F - R * X / F\<bar> = \<bar>r * x - R * X\<bar> / F"
    using assms(1) by (simp add: abs_divide flip: diff_divide_distrib)
  ultimately show ?thesis by simp
qed

lemma fixed_power_loop_error:
  assumes "1 \<le> f" "f \<le> 15" "0 < n" "unat x \<le> 2 ^ f" "unat r \<le> 2 ^ f" "0 \<le> R" "R \<le> 2 ^ f" "0 \<le> X" "X \<le> 2 ^ f"
    "\<bar>real (unat x) - X\<bar> \<le> d" "\<bar>real (unat r) - R\<bar> \<le> e"
  shows "\<bar>real (unat (fixed_power_loop f x n r)) - R * (X / 2 ^ f) ^ n\<bar> \<le> e + n * d + n / 2"
  using assms(3-11)
proof (induction n arbitrary: x r R X d e rule: less_induct)
  case (less n)
  let ?F = "2 ^ f :: real"
  define r' where "r' = (if odd n then fixed_mult f r x else r)"
  define R' where "R' = (if odd n then R * (X / ?F) else R)"
  define e' where "e' = (if odd n then e + d + 1 / 2 else e)"
  have xF: "real (unat x) \<le> ?F" using less.prems(2) by (metis of_nat_le_iff of_nat_numeral of_nat_power)
  have x0: "0 \<le> real (unat x)" by (rule of_nat_0_le_iff)
  have XF: "0 \<le> X / ?F" "X / ?F \<le> 1" using less.prems(6,7) by (simp_all add: divide_simps)
  have r': "unat r' \<le> 2 ^ f" using fixed_mult_nat(2) [OF assms(1,2) less.prems(3,2)] less.prems(3) by (simp add: r'_def)
  have R': "0 \<le> R'" "R' \<le> ?F"
    using less.prems(4,5) XF mult_mono [of R ?F "X / ?F" 1] mult_nonneg_nonneg [of R "X / ?F"] by (auto simp: R'_def)
  have "\<bar>real (unat r) * real (unat x) / ?F - R * X / ?F\<bar> \<le> e + d"
    by (rule product_error) (use less.prems xF x0 in auto)
  then have e': "\<bar>real (unat r') - R'\<bar> \<le> e'"
    using fixed_mult_real [OF assms(1,2) less.prems(3,2)] less.prems(9) unfolding r'_def R'_def e'_def
    by (cases "odd n"; (simp only: if_True if_False times_divide_eq_right simp_thms)?; linarith?)
  have pow: "R' * (X / ?F) ^ (2 * (n div 2)) = R * (X / ?F) ^ n"
    by (cases "even n") (auto simp: R'_def elim!: evenE oddE)
  show ?case
  proof (cases "n div 2 = 0")
    case True
    then have n: "n = 1" using less.prems(1) by linarith
    then have "fixed_power_loop f x n r = r'" by (subst fixed_power_loop.simps) (simp add: r'_def)
    with n e' show ?thesis by (simp add: R'_def e'_def)
  next
    case False
    let ?x = "fixed_mult f x x" and ?X = "X * X / ?F" and ?m = "n div 2"
    have "\<bar>real (unat x) * real (unat x) / ?F - X * X / ?F\<bar> \<le> d + d"
      by (rule product_error) (use less.prems xF x0 in auto)
    then have d': "\<bar>real (unat ?x) - ?X\<bar> \<le> 2 * d + 1 / 2"
      using fixed_mult_real [OF assms(1,2) less.prems(2,2)] by linarith
    have X': "0 \<le> ?X" "?X \<le> ?F" using less.prems(6,7) mult_mono [of X ?F X ?F] by (simp_all add: divide_simps)
    have "fixed_power_loop f x n r = fixed_power_loop f ?x ?m r'"
      using False by (subst fixed_power_loop.simps) (simp add: r'_def Let_def)
    moreover have "\<bar>real (unat (fixed_power_loop f ?x ?m r')) - R' * (?X / ?F) ^ ?m\<bar> \<le> e' + real ?m * (2 * d + 1 / 2) + real ?m / 2"
      by (rule less.IH) (use False less.prems(1) fixed_mult_nat(2) [OF assms(1,2) less.prems(2,2)] r' R' X' d' e' in auto)
    moreover have "R' * (?X / ?F) ^ ?m = R * (X / ?F) ^ n"
      unfolding pow [symmetric] power_mult by (simp add: power2_eq_square)
    moreover have "e' + real ?m * (2 * d + 1 / 2) + real ?m / 2 = e + n * d + n / 2"
      by (cases "even n") (auto simp: e'_def algebra_simps elim!: evenE oddE)
    ultimately show ?thesis by simp
  qed
qed

text \<open>
  \<open>fixed_power_int\<close> computes a power of a fixed-point number not above one in a logarithmic number of
  rounds, with an absolute error of at most \<open>n / 2\<close> units in the last place and no overflow, for up to 15
  fractional bits.
\<close>
theorem fixed_power_int_accurate:
  assumes "1 \<le> f" and "f \<le> 15" and "unat x \<le> 2 ^ f"
  shows "\<bar>real (unat (fixed_power_int x f n)) - 2 ^ f * (real (unat x) / 2 ^ f) ^ n\<bar> \<le> real n / 2"
proof (cases "n = 0")
  case True
  then show ?thesis using assms(2) by (simp add: fixed_power_int_def push_bit_eq_mult unat_two_power)
next
  case False
  have r: "unat (push_bit f 1 :: ulong) = 2 ^ f" using assms(2) by (simp add: push_bit_eq_mult unat_two_power)
  have "\<bar>real (unat (fixed_power_loop f x n (push_bit f 1))) - 2 ^ f * (real (unat x) / 2 ^ f) ^ n\<bar> \<le> 0 + real n * 0 + real n / 2"
  proof (rule fixed_power_loop_error [OF assms(1,2)])
    show "real (unat x) \<le> 2 ^ f" using assms(3) by (metis of_nat_le_iff of_nat_numeral of_nat_power)
    show "\<bar>real (unat (push_bit f 1 :: ulong)) - 2 ^ f\<bar> \<le> 0" unfolding r by simp
    show "unat (push_bit f 1 :: ulong) \<le> 2 ^ f" unfolding r ..
    show "0 \<le> real (unat x)" by (rule of_nat_0_le_iff)
  qed (use False assms(3) in simp_all)
  with False show ?thesis by (simp add: fixed_power_int_def Let_def)
qed

theorem fixed_power_int_accurate_witness:
  "\<bar>real (unat (fixed_power_int EXP_1 11 12)) - 2 ^ 11 * (1884 / 2 ^ 11) ^ 12\<bar> \<le> real 12 / 2"
  using fixed_power_int_accurate [of 11 EXP_1 12] by (simp add: EXP_1_def)

section \<open>Bounds of the processor load\<close>

lemma degrade_factor_bound: "idx < 5 \<Longrightarrow> j < 8 \<Longrightarrow> unat (degrade_factor ! idx ! j) \<le> 128"
proof -
  have "list_all (list_all (\<lambda>x. unat x \<le> 128)) degrade_factor" "list_all (\<lambda>r. length r = 8) degrade_factor" "length degrade_factor = 5"
    by (simp_all add: degrade_factor_def)
  then show "idx < 5 \<Longrightarrow> j < 8 \<Longrightarrow> ?thesis" by (simp add: list_all_length)
qed

lemma scale_128_le: "unat (l :: ulong) < 2 ^ 24 \<Longrightarrow> unat f \<le> 128 \<Longrightarrow> unat (drop_bit 7 (l * f)) \<le> unat l"
proof -
  assume a: "unat l < 2 ^ 24" "unat f \<le> 128"
  have "unat l * unat f \<le> unat l * 128" using a(2) by simp
  moreover have "unat l * 128 < 2 ^ 32" using a(1) by simp
  ultimately have "unat (l * f) \<le> unat l * 128" by (subst unat_mult_small) linarith+
  then have "unat (l * f) div 128 \<le> unat l" by (simp add: div_le_mono [of _ "unat l * 128" 128, simplified])
  then show ?thesis by (simp add: drop_bit_eq_div unat_div)
qed

lemma decay_loop_le: "idx < 5 \<Longrightarrow> missed < 2 ^ (8 - j) \<Longrightarrow> j \<le> 8 \<Longrightarrow> unat l < 2 ^ 24 \<Longrightarrow> unat (decay_loop idx j missed l) \<le> unat l"
proof (induction idx j missed l rule: decay_loop.induct)
  case (1 idx j missed l)
  show ?case
  proof (cases "missed = 0")
    case True
    then show ?thesis by (subst decay_loop.simps) simp
  next
    case False
    let ?l = "if odd missed then drop_bit 7 (l * degrade_factor ! idx ! j) else l"
    have j: "j < 8" using False 1(3,4) by (cases "j = 8") auto
    then have l: "unat ?l \<le> unat l" using scale_128_le [OF 1(5) degrade_factor_bound] 1(2) by simp
    have "8 - j = Suc (8 - (j + 1))" using j by simp
    then have "missed div 2 < 2 ^ (8 - (j + 1))" using 1(3) by (simp add: less_mult_imp_div_less mult.commute)
    then have "unat (decay_loop idx (j + 1) (missed div 2) ?l) \<le> unat ?l" using 1(1) [OF False] 1(2,5) j l by auto
    with l False show ?thesis by (subst decay_loop.simps) (simp only: if_False)
  qed
qed

lemma decay_load_missed_le:
  assumes "idx < 5" "unat l < 2 ^ 24"
  shows "unat (decay_load_missed l missed idx) \<le> unat l"
proof -
  have "missed < 2 ^ 8" if "missed < degrade_zero_ticks ! idx"
  proof -
    have "list_all (\<lambda>x. x \<le> 128) degrade_zero_ticks" "length degrade_zero_ticks = 5" by (simp_all add: degrade_zero_ticks_def)
    then have "degrade_zero_ticks ! idx \<le> 128" using assms(1) by (simp add: list_all_length)
    with that show ?thesis by simp
  qed
  moreover have "unat (drop_bit k l) \<le> unat l" for k by (simp add: drop_bit_eq_div unat_div)
  ultimately show ?thesis
    using decay_loop_le [OF assms(1), of missed 0 l] assms(2) by (auto simp: decay_load_missed_def not_le)
qed

text \<open>
  The load of a processor at each time scale never overflows and stays within the largest load seen: a new value
  is at most the larger of the old value and the current load, whatever number of ticks was missed.
\<close>
theorem cpu_load_bounded:
  assumes "i \<in> {1, 2, 3, 4}" and "unat old < 2 ^ 24" and "unat this_load < 2 ^ 24"
  shows "unat (new_cpu_load this_load pending i old) \<le> max (unat old) (unat this_load)"
proof -
  define od where "od = decay_load_missed old (pending - 1) i"
  have od: "unat od \<le> unat old" unfolding od_def by (rule decay_load_missed_le) (use assms in auto)
  define sc where "sc = (2 :: nat) ^ i"
  have sc: "unat (2 ^ i - 1 :: ulong) = sc - 1" "2 \<le> sc" "sc \<le> 16" "unat (2 ^ i :: ulong) = sc" using assms(1) by (auto simp: sc_def)
  define nl where "nl = (if od < this_load then this_load + (2 ^ i - 1) else this_load)"
  have nl: "unat nl = (if unat od < unat this_load then unat this_load + (sc - 1) else unat this_load)"
    using assms(3) sc by (auto simp: nl_def word_less_nat_alt unat_add_small)
  have bound: "unat od * (sc - 1) + unat nl \<le> max (unat od) (unat this_load) * sc"
  proof (cases "unat od < unat this_load")
    case True
    then have "unat od * (sc - 1) \<le> (unat this_load - 1) * (sc - 1)" by (intro mult_right_mono) auto
    moreover have "(unat this_load - 1) * (sc - 1) + (unat this_load + (sc - 1)) = unat this_load * sc"
      using True sc(2) by (cases "unat this_load"; cases sc) (auto simp: algebra_simps)
    moreover have "unat nl = unat this_load + (sc - 1)" using True nl by simp
    moreover have "max (unat od) (unat this_load) = unat this_load" using True by simp
    ultimately show ?thesis by linarith
  next
    case False
    then have "unat od * (sc - 1) + unat this_load \<le> unat od * (sc - 1) + unat od" by simp
    also have "\<dots> = unat od * sc" using sc(2) by (cases sc) auto
    finally show ?thesis using False nl by (simp add: max_def)
  qed
  have M: "max (unat od) (unat this_load) * sc < 2 ^ 32"
  proof -
    have "max (unat od) (unat this_load) * sc \<le> (2 ^ 24 - 1) * 16"
      using od assms(2,3) sc(3) by (intro mult_mono) auto
    then show ?thesis by simp
  qed
  have m: "unat (od * (2 ^ i - 1)) = unat od * (sc - 1)"
    using unat_mult_small [of od "2 ^ i - 1"] bound M unfolding sc(1) by linarith
  have "unat (od * (2 ^ i - 1) + nl) = unat od * (sc - 1) + unat nl"
    using unat_add_small [of "od * (2 ^ i - 1)" nl] bound M unfolding m by linarith
  then have "unat (new_cpu_load this_load pending i old) = (unat od * (sc - 1) + unat nl) div sc"
    unfolding new_cpu_load_def Let_def od_def [symmetric] nl_def [symmetric] by (simp add: drop_bit_eq_div unat_div sc(4))
  also have "\<dots> \<le> max (unat od) (unat this_load) * sc div sc" using bound by (rule div_le_mono)
  also have "\<dots> \<le> max (unat old) (unat this_load)" using od sc(2) by simp
  finally show ?thesis .
qed

theorem cpu_load_bounded_witness:
  "unat (new_cpu_load 1024 5 3 2048) \<le> max (unat (2048 :: ulong)) (unat (1024 :: ulong))"
  by (rule cpu_load_bounded) simp_all

section \<open>A witness for the conservation of counts\<close>

definition lrq0 :: lrq where
  "lrq0 = \<lparr>l_nr_running = 2, l_nr_uninterruptible = 1, calc_load_active = 0, l_calc_load_update = 0, l_weight = 1024,
     cpu_load = [0, 0, 0, 0, 0], last_load_update_tick = 0, nr_load_updates = 0\<rparr>"

definition load0 :: loadsys where
  "load0 = \<lparr>lrqs = (\<lambda>c. lrq0), calc_load_tasks = 0, calc_load_tasks_idle = 0, calc_load_update = 500, avenrun = (0, 0, 0)\<rparr>"

theorem load_count_conserved_witness:
  "calc_load_tasks (calc_global_load 100 600 (calc_load_account_idle 1 load0))
     + calc_load_tasks_idle (calc_global_load 100 600 (calc_load_account_idle 1 load0))
   = (\<Sum>c \<in> {0, 1}. calc_load_active (lrqs (calc_global_load 100 600 (calc_load_account_idle 1 load0)) c))"
proof (rule load_count_conserved [of "{0, 1}" load0])
  have "load_step {0, 1} load0 (calc_load_account_idle 1 load0)" by (rule l_idle) simp
  moreover have "load_step {0, 1} (calc_load_account_idle 1 load0) (calc_global_load 100 600 (calc_load_account_idle 1 load0))"
    by (rule l_global)
  ultimately show "(load_step {0, 1})\<^sup>*\<^sup>* load0 (calc_global_load 100 600 (calc_load_account_idle 1 load0))"
    by (meson converse_rtranclp_into_rtranclp r_into_rtranclp)
qed (simp_all add: load0_def lrq0_def)

end
