(* ===== verification/Transition.thy ===== *)
theory Transition
  imports Prelude
begin

text \<open>
  Step relations and their invariants. A component that runs concurrently is a relation on states; the
  locale \<open>step_invariant\<close> is the contract that its operations keep an invariant, with the lemmas that every
  component needs of it, and \<open>step_refinement\<close> the contract that every step is a step, or no change, of an
  abstract specification.
\<close>

locale step_invariant =
  fixes step :: "'s \<Rightarrow> 's \<Rightarrow> bool" and inv :: "'s \<Rightarrow> bool"
  assumes step_inv: "inv s \<Longrightarrow> step s s' \<Longrightarrow> inv s'"
begin

lemma steps_inv: "step\<^sup>*\<^sup>* s s' \<Longrightarrow> inv s \<Longrightarrow> inv s'"
  by (induction rule: rtranclp_induct) (auto intro: step_inv)

lemma steps_measure:
  assumes "step\<^sup>*\<^sup>* s s'" and "inv s" and "\<And>t t'. inv t \<Longrightarrow> step t t' \<Longrightarrow> (f t :: 'a :: preorder) \<le> f t'"
  shows "f s \<le> f s'"
  using assms(1,2)
proof (induction rule: rtranclp_induct)
  case (step t t')
  then have "inv t" by (blast intro: steps_inv)
  with step assms(3) show ?case by (blast intro: order_trans)
qed simp

end

locale step_refinement = step_invariant step inv
  for step :: "'s \<Rightarrow> 's \<Rightarrow> bool" and inv :: "'s \<Rightarrow> bool" +
  fixes spec :: "'a \<Rightarrow> 'a \<Rightarrow> bool" and abs :: "'s \<Rightarrow> 'a"
  assumes step_spec: "inv s \<Longrightarrow> step s s' \<Longrightarrow> abs s' = abs s \<or> spec (abs s) (abs s')"
begin

lemma steps_spec: "step\<^sup>*\<^sup>* s s' \<Longrightarrow> inv s \<Longrightarrow> spec\<^sup>*\<^sup>* (abs s) (abs s')"
proof (induction rule: rtranclp_induct)
  case (step t t')
  then have "inv t" by (blast intro: steps_inv)
  with step show ?case using step_spec [of t t'] by (metis rtranclp.rtrancl_into_rtrancl)
qed simp

end

end
