(* ===== verification/Netlock.thy ===== *)
theory Netlock
  imports Transition
begin

text \<open>
  The network lock of homework 3 (\<open>hw3/netlock.c\<close>): two system calls that share the variables
  \<open>read_lock_available\<close>, \<open>write_lock_available\<close> and \<open>reader_count\<close> under a spin lock.

  Both calls declare their own \<open>wait_queue\<close> with \<open>DEFINE_WAIT\<close>, which hides the global of that name: an entry
  whose list is initialised to be empty. The branch of \<open>netlock_release\<close> that walks over waiting
  tasks is therefore dead code; it is the parameter \<open>wake_branch\<close>, and the result does not depend on it.
  A request that has to wait calls \<open>schedule\<close> without having changed the state of the task, so
  \<open>schedule\<close> returns as soon as the task is picked again and the call goes on to return 0.

  \<open>kmalloc\<close> and \<open>add_wait_queue\<close> belong to the kernel outside this repository: \<open>kmalloc_ok\<close> says whether memory was
  available, and \<open>add_wait_queue\<close> is applied to a queue head that was never initialised, so it may fail.
\<close>

section \<open>The system calls\<close>

definition NET_LOCK_N :: int where "NET_LOCK_N = 0"
definition NET_LOCK_R :: int where "NET_LOCK_R = 1"
definition NET_LOCK_E :: int where "NET_LOCK_E = 2"

lemmas net_lock_defs = NET_LOCK_N_def NET_LOCK_R_def NET_LOCK_E_def

record netlock =
  read_lock_available :: int
  write_lock_available :: int
  reader_count :: int
  spin :: bool

definition netlock_init :: netlock where
  "netlock_init = \<lparr>read_lock_available = 1, write_lock_available = 1, reader_count = 0, spin = False\<rparr>"

record net_env =
  kmalloc_ok :: bool
  add_wait_queue :: "int \<Rightarrow> netlock \<Rightarrow> netlock result"
  wake_branch :: "netlock \<Rightarrow> netlock result"

text \<open>How a call ends: with the lock, after waiting in \<open>schedule\<close>, or with an error.\<close>

datatype passage = Straight | Slept | Refused | Leaked

definition wait_netlock :: "net_env \<Rightarrow> int \<Rightarrow> netlock \<Rightarrow> (int \<times> passage \<times> netlock) result" where
  "wait_netlock env netlock_flag s =
    (if \<not> kmalloc_ok env then Inl NullDeref
     else rbind (add_wait_queue env netlock_flag s) (\<lambda>s. Inr (0, Slept, s\<lparr>spin := False\<rparr>)))"

text \<open>\<open>None\<close>: the call spins on a lock that is held.\<close>

definition netlock_acquire :: "net_env \<Rightarrow> int \<Rightarrow> netlock \<Rightarrow> (int \<times> passage \<times> netlock) result option" where
  "netlock_acquire env ty s =
    (if spin s then None
     else let s = s\<lparr>spin := True\<rparr>
          in Some
           (if ty = NET_LOCK_R then
              if write_lock_available s = 1
              then Inr (0, Straight, s\<lparr>reader_count := wrap_s32 (reader_count s + 1), spin := False\<rparr>)
              else wait_netlock env 0 s
            else if ty = NET_LOCK_E then
              if write_lock_available s = 1 \<and> read_lock_available s = 1
              then Inr (0, Straight, s\<lparr>write_lock_available := 0, spin := False\<rparr>)
              else wait_netlock env 1 s
            else if ty = NET_LOCK_N then Inr (- 1, Refused, s\<lparr>spin := False\<rparr>)
            else Inr (0, Leaked, s)))"

text \<open>The list head that \<open>DEFINE_WAIT\<close> initialises points to itself; it is at address \<open>a\<close>.\<close>

definition DEFINE_WAIT :: "addr \<Rightarrow> addr \<times> addr" where
  "DEFINE_WAIT a = (a, a)"

definition list_empty :: "addr \<Rightarrow> addr \<times> addr \<Rightarrow> bool" where
  "list_empty a head \<longleftrightarrow> fst head = a"

definition netlock_release :: "net_env \<Rightarrow> addr \<Rightarrow> netlock \<Rightarrow> (int \<times> netlock) result option" where
  "netlock_release env a s =
    (let task_list = DEFINE_WAIT a
     in if spin s then None
        else let s = s\<lparr>spin := True\<rparr>
             in Some
              (if list_empty a task_list then
                 let s = (if reader_count s \<le> 1
                          then s\<lparr>reader_count := 0, read_lock_available := 1, write_lock_available := 1\<rparr>
                          else s\<lparr>reader_count := reader_count s - 1\<rparr>)
                 in Inr (0, s\<lparr>spin := False\<rparr>)
               else rbind (wake_branch env s) (\<lambda>s. Inr (0, s))))"

lemma release_eq:
  "netlock_release env a s =
    (if spin s then None
     else Some (Inr (0, if reader_count s \<le> 1
       then s\<lparr>reader_count := 0, read_lock_available := 1, write_lock_available := 1, spin := False\<rparr>
       else s\<lparr>reader_count := reader_count s - 1, spin := False\<rparr>)))"
  by (simp add: netlock_release_def DEFINE_WAIT_def list_empty_def Let_def)

section \<open>Tasks that use the lock\<close>

text \<open>
  A task that got the lock in the mode \<open>m\<close> holds it until it calls \<open>netlock_release\<close>. A task whose request had to
  wait holds nothing. \<open>add_wait_queue\<close> changes only the queue it is given, not the variables of the lock.
\<close>

record net_sys =
  nl :: netlock
  holds :: "nat \<Rightarrow> int option"

definition wait_queue_ok :: "net_env \<Rightarrow> bool" where
  "wait_queue_ok env \<longleftrightarrow> (\<forall>f s s'. add_wait_queue env f s = Inr s' \<longrightarrow> s' = s)"

text \<open>Tasks are named by their process identifiers, which are below \<open>PID_MAX\<close>.\<close>

definition PID_MAX :: nat where
  "PID_MAX = 32768"

inductive net_step :: "net_env \<Rightarrow> int set \<Rightarrow> net_sys \<Rightarrow> net_sys \<Rightarrow> bool" for env M where
  net_acquire: "m \<in> M \<Longrightarrow> t < PID_MAX \<Longrightarrow> holds s t = None \<Longrightarrow>
    netlock_acquire env m (nl s) = Some (Inr (r, Straight, n)) \<Longrightarrow>
    net_step env M s (s\<lparr>nl := n, holds := (holds s)(t := Some m)\<rparr>)"
| net_wait: "m \<in> M \<Longrightarrow> holds s t = None \<Longrightarrow> netlock_acquire env m (nl s) = Some (Inr (r, Slept, n)) \<Longrightarrow>
    net_step env M s (s\<lparr>nl := n\<rparr>)"
| net_release: "holds s t \<noteq> None \<Longrightarrow> netlock_release env a (nl s) = Some (Inr (r, n)) \<Longrightarrow>
    net_step env M s (s\<lparr>nl := n, holds := (holds s)(t := None)\<rparr>)"

definition net_start :: net_sys where
  "net_start = \<lparr>nl = netlock_init, holds = (\<lambda>_. None)\<rparr>"

definition holders :: "net_sys \<Rightarrow> nat set" where
  "holders s = {t. holds s t \<noteq> None}"

lemma holders_simps [simp]:
  "holders (s\<lparr>nl := n\<rparr>) = holders s"
  "holders (s\<lparr>nl := n, holds := (holds s)(t := Some m)\<rparr>) = insert t (holders s)"
  "holders (s\<lparr>nl := n, holds := (holds s)(t := None)\<rparr>) = holders s - {t}"
  by (auto simp: holders_def)

lemma acquire_straight:
  assumes "netlock_acquire env m n = Some (Inr (r, Straight, n'))"
  shows "r = 0 \<and> \<not> spin n \<and> write_lock_available n = 1 \<and>
    (m = NET_LOCK_R \<and> n' = n\<lparr>reader_count := wrap_s32 (reader_count n + 1), spin := False\<rparr>
     \<or> m = NET_LOCK_E \<and> read_lock_available n = 1 \<and> n' = n\<lparr>write_lock_available := 0, spin := False\<rparr>)"
  using assms by (cases "add_wait_queue env 0 (n\<lparr>spin := True\<rparr>)"; cases "add_wait_queue env 1 (n\<lparr>spin := True\<rparr>)")
    (auto simp: netlock_acquire_def wait_netlock_def Let_def split: if_splits)

lemma wait_netlock_unchanged:
  "wait_queue_ok env \<Longrightarrow> wait_netlock env f (n\<lparr>spin := True\<rparr>) = Inr (r, p, n') \<Longrightarrow> r = 0 \<and> n' = n\<lparr>spin := False\<rparr>"
  by (cases "add_wait_queue env f (n\<lparr>spin := True\<rparr>)") (fastforce simp: wait_netlock_def wait_queue_ok_def split: if_splits)+

lemma acquire_slept:
  assumes "wait_queue_ok env" "netlock_acquire env m n = Some (Inr (r, Slept, n'))"
  shows "r = 0 \<and> \<not> spin n \<and> n' = n"
proof -
  from assms(2) have "\<not> spin n" "wait_netlock env 0 (n\<lparr>spin := True\<rparr>) = Inr (r, Slept, n') \<or> wait_netlock env 1 (n\<lparr>spin := True\<rparr>) = Inr (r, Slept, n')"
    by (auto simp: netlock_acquire_def Let_def split: if_splits)
  moreover have "\<not> spin n \<Longrightarrow> n\<lparr>spin := False\<rparr> = n" by (cases n) simp
  ultimately show ?thesis using wait_netlock_unchanged [OF assms(1)] by metis
qed

section \<open>Uniform use\<close>

definition excl_inv :: "net_sys \<Rightarrow> bool" where
  "excl_inv s \<longleftrightarrow> reader_count (nl s) = 0 \<and> read_lock_available (nl s) = 1 \<and> \<not> spin (nl s)
     \<and> write_lock_available (nl s) = (if holders s = {} then 1 else 0) \<and> (\<forall>t \<in> holders s. holders s = {t})"

definition read_inv :: "net_sys \<Rightarrow> bool" where
  "read_inv s \<longleftrightarrow> write_lock_available (nl s) = 1 \<and> read_lock_available (nl s) = 1 \<and> \<not> spin (nl s)
     \<and> holders s \<subseteq> {..<PID_MAX} \<and> reader_count (nl s) = int (card (holders s))"

lemma excl_step:
  assumes "wait_queue_ok env" "excl_inv s" "net_step env {NET_LOCK_E} s s'"
  shows "excl_inv s'"
  using assms(3)
proof cases
  case (net_acquire m t r n)
  then show ?thesis
    using assms(2) acquire_straight [OF net_acquire(5)] by (auto simp: excl_inv_def net_lock_defs split: if_splits)
next
  case (net_wait m t r n)
  then show ?thesis using assms(2) acquire_slept [OF assms(1) net_wait(4)] by simp
next
  case (net_release t a r n)
  then have "t \<in> holders s" by (simp add: holders_def)
  with net_release assms(2) show ?thesis by (auto simp: excl_inv_def release_eq)
qed

lemma read_step:
  assumes "wait_queue_ok env" "read_inv s" "net_step env {NET_LOCK_R} s s'"
  shows "read_inv s'"
  using assms(3)
proof cases
  case (net_acquire m t r n)
  have f: "finite (holders s)" "card (holders s) \<le> PID_MAX"
    using assms(2) finite_subset card_mono [of "{..<PID_MAX}" "holders s"] by (auto simp: read_inv_def)
  have "t \<notin> holders s" using net_acquire(4) by (simp add: holders_def)
  moreover have "wrap_s32 (int (card (holders s)) + 1) = int (card (holders s)) + 1"
    using f by (intro wrap_s32_id) (simp_all add: PID_MAX_def)
  ultimately show ?thesis
    using net_acquire assms(2) f acquire_straight [OF net_acquire(5)] by (auto simp: read_inv_def net_lock_defs)
next
  case (net_wait m t r n)
  then show ?thesis using assms(2) acquire_slept [OF assms(1) net_wait(4)] by simp
next
  case (net_release t a r n)
  then have t: "t \<in> holders s" by (simp add: holders_def)
  have f: "finite (holders s)" using assms(2) finite_subset by (auto simp: read_inv_def)
  have "card (holders s - {t}) = card (holders s) - 1" "0 < card (holders s)"
    using t f by (auto simp: card_gt_0_iff)
  with net_release assms(2) show ?thesis by (auto simp: read_inv_def release_eq split: if_splits)
qed

interpretation net_excl: step_invariant "net_step env {NET_LOCK_E}" "\<lambda>s. wait_queue_ok env \<longrightarrow> excl_inv s"
  by unfold_locales (use excl_step in blast)

interpretation net_read: step_invariant "net_step env {NET_LOCK_R}" "\<lambda>s. wait_queue_ok env \<longrightarrow> read_inv s"
  by unfold_locales (use read_step in blast)


text \<open>
  Used for regular locks only, no request waits and the counter is the number of holders in every interleaving.
\<close>
theorem netlock_regular_use:
  assumes "wait_queue_ok env" and "(net_step env {NET_LOCK_R})\<^sup>*\<^sup>* net_start s"
  shows "reader_count (nl s) = int (card {t. holds s t \<noteq> None}) \<and> write_lock_available (nl s) = 1
    \<and> (\<forall>env'. \<exists>n. netlock_acquire env' NET_LOCK_R (nl s) = Some (Inr (0, Straight, n)))"
proof -
  have "read_inv net_start" by (simp add: read_inv_def net_start_def netlock_init_def holders_def)
  with net_read.steps_inv [OF assms(2)] assms(1) have "read_inv s" by blast
  then show ?thesis by (simp add: read_inv_def holders_def netlock_acquire_def net_lock_defs Let_def)
qed

section \<open>Mixed use\<close>

definition net_inv :: "net_sys \<Rightarrow> bool" where
  "net_inv s \<longleftrightarrow> read_lock_available (nl s) = 1 \<and> \<not> spin (nl s)"

lemma net_inv_step:
  assumes "wait_queue_ok env" "net_inv s" "net_step env M s s'"
  shows "net_inv s'"
  using assms(3)
proof cases
  case (net_acquire m t r n)
  then show ?thesis using assms(2) acquire_straight [OF net_acquire(5)] by (auto simp: net_inv_def)
next
  case (net_wait m t r n)
  then show ?thesis using assms(2) acquire_slept [OF assms(1) net_wait(4)] by simp
next
  case (net_release t a r n)
  then show ?thesis using assms(2) by (auto simp: net_inv_def release_eq split: if_splits)
qed

interpretation net_mixed: step_invariant "net_step env M" "\<lambda>s. wait_queue_ok env \<longrightarrow> net_inv s"
  by unfold_locales (use net_inv_step in blast)

text \<open>
  A regular lock does not keep an exclusive one out: nothing ever clears \<open>read_lock_available\<close>, so while tasks hold the
  regular lock any other task that asks for the exclusive one gets it at once.
\<close>
theorem netlock_writer_joins_readers:
  assumes "wait_queue_ok env" and "(net_step env {NET_LOCK_R, NET_LOCK_E})\<^sup>*\<^sup>* net_start s"
    and "holds s t = Some NET_LOCK_R" and "write_lock_available (nl s) = 1" and "holds s u = None" and "u < PID_MAX"
  shows "\<exists>s'. net_step env {NET_LOCK_R, NET_LOCK_E} s s' \<and> holds s' t = Some NET_LOCK_R \<and> holds s' u = Some NET_LOCK_E"
proof -
  have "net_inv net_start" by (simp add: net_inv_def net_start_def netlock_init_def)
  with net_mixed.steps_inv [OF assms(2)] assms(1) have i: "net_inv s" by blast
  have "netlock_acquire env NET_LOCK_E (nl s) = Some (Inr (0, Straight, (nl s)\<lparr>write_lock_available := 0, spin := False\<rparr>))"
    using i assms(4) by (simp add: netlock_acquire_def net_inv_def net_lock_defs Let_def)
  from net_acquire [of NET_LOCK_E "{NET_LOCK_R, NET_LOCK_E}" u s env, OF _ assms(6,5) this] assms(3,5) show ?thesis
    by (intro exI [of _ "s\<lparr>nl := (nl s)\<lparr>write_lock_available := 0, spin := False\<rparr>, holds := (holds s)(u := Some NET_LOCK_E)\<rparr>"]) auto
qed

text \<open>
  A request that finds the lock taken returns success without it: it leaves every variable of the lock as it was.
  A request of an unknown kind also returns success, with the spin lock held, and from then on every
  call spins forever.
\<close>
theorem netlock_false_success:
  assumes "\<not> spin n"
  shows "(write_lock_available n \<noteq> 1 \<and> ty \<in> {NET_LOCK_R, NET_LOCK_E} \<and> kmalloc_ok env
      \<and> (\<forall>f. add_wait_queue env f (n\<lparr>spin := True\<rparr>) = Inr (n\<lparr>spin := True\<rparr>))
      \<longrightarrow> netlock_acquire env ty n = Some (Inr (0, Slept, n)))
    \<and> (ty \<notin> {NET_LOCK_N, NET_LOCK_R, NET_LOCK_E} \<longrightarrow>
      (\<exists>n'. netlock_acquire env ty n = Some (Inr (0, Leaked, n'))
        \<and> (\<forall>env' ty' a. netlock_acquire env' ty' n' = None \<and> netlock_release env' a n' = None)))"
  using assms by (auto simp: netlock_acquire_def wait_netlock_def netlock_release_def net_lock_defs Let_def)

section \<open>Witnesses\<close>

definition net_env0 :: net_env where
  "net_env0 = \<lparr>kmalloc_ok = True, add_wait_queue = (\<lambda>f. Inr), wake_branch = Inr\<rparr>"

lemma net_env0_ok: "wait_queue_ok net_env0"
  by (simp add: wait_queue_ok_def net_env0_def)

definition net_held :: "int \<Rightarrow> net_sys" where
  "net_held m = \<lparr>nl = (if m = NET_LOCK_R then netlock_init\<lparr>reader_count := 1\<rparr> else netlock_init\<lparr>write_lock_available := 0\<rparr>),
     holds = (\<lambda>_. None)(1 := Some m)\<rparr>"

lemma net_held_step:
  assumes "m \<in> M" "m \<in> {NET_LOCK_R, NET_LOCK_E}"
  shows "net_step net_env0 M net_start (net_held m)"
proof -
  have "netlock_acquire net_env0 m (nl net_start) = Some (Inr (0, Straight, nl (net_held m)))"
    using assms(2) by (auto simp: netlock_acquire_def net_start_def netlock_init_def net_held_def net_lock_defs Let_def wrap_s32_def)
  from net_acquire [OF assms(1) _ _ this, of 1] show ?thesis
    by (simp add: net_start_def PID_MAX_def net_held_def)
qed


theorem netlock_regular_use_witness:
  "reader_count (nl (net_held NET_LOCK_R)) = int (card {t. holds (net_held NET_LOCK_R) t \<noteq> None})"
proof -
  have "(net_step net_env0 {NET_LOCK_R})\<^sup>*\<^sup>* net_start (net_held NET_LOCK_R)" using net_held_step by auto
  from netlock_regular_use [OF net_env0_ok this] show ?thesis by blast
qed

theorem netlock_writer_joins_readers_witness:
  "\<exists>s'. net_step net_env0 {NET_LOCK_R, NET_LOCK_E} (net_held NET_LOCK_R) s' \<and> holds s' 1 = Some NET_LOCK_R \<and> holds s' 2 = Some NET_LOCK_E"
proof -
  have "(net_step net_env0 {NET_LOCK_R, NET_LOCK_E})\<^sup>*\<^sup>* net_start (net_held NET_LOCK_R)" using net_held_step by auto
  from netlock_writer_joins_readers [OF net_env0_ok this, of 1 2] show ?thesis
    by (simp add: net_held_def netlock_init_def PID_MAX_def)
qed

theorem netlock_false_success_witness:
  "netlock_acquire net_env0 NET_LOCK_R (nl (net_held NET_LOCK_E)) = Some (Inr (0, Slept, nl (net_held NET_LOCK_E)))"
  using netlock_false_success [of "nl (net_held NET_LOCK_E)" NET_LOCK_R net_env0]
  by (simp add: net_held_def netlock_init_def net_env0_def net_lock_defs)

end
