(* ===== verification/Sthread.thy ===== *)
theory Sthread
  imports Transition "HOL-Library.Disjoint_Sets"
begin

text \<open>
  The thread library of homework 3 (\<open>hw3/sthread.c\<close>): the linked list of thread structures with its lock,
  the manager thread that creates and reaps threads on request, and the calls that clients make.

  The thread structures are cells of a C heap; the structures of the main and of the manager thread
  are static. What the operating system answers (\<open>mmap\<close>, \<open>pipe\<close>, \<open>malloc\<close>, \<open>clone\<close>, \<open>waitpid\<close>) is an argument of the
  operations; what the calls do to the process is kept as the sets of mapped stacks, malloc blocks,
  open descriptors and children, the number of wake-up messages in each pipe and the signals
  sent. An operation that spins on the list lock is \<open>None\<close>.
\<close>

section \<open>State\<close>

record sthread_struct =
  t_pid :: int
  t_main :: nat
  t_running :: int
  t_status :: int
  t_err :: int
  t_pipe :: "int \<times> int"
  t_stacksize :: nat
  t_stack :: "addr option"
  t_next :: "addr option"

record sthreads =
  threads :: "addr \<rightharpoonup> sthread_struct"
  list_hd :: "addr option"
  list_lock :: bool
  mapped :: "addr set"
  mallocs :: "addr set"
  fds :: "int set"
  children :: "int set"
  wakeups :: "int \<Rightarrow> nat"
  signals :: "(int \<times> int) list"

definition main_thread :: addr where "main_thread = 0"
definition manager_thread :: addr where "manager_thread = 1"
definition DEF_STACK_SIZE :: nat where "DEF_STACK_SIZE = 4194304"
definition UTIL_STACK_SIZE :: nat where "UTIL_STACK_SIZE = 65536"
definition SIGUSR2 :: int where "SIGUSR2 = 12"

definition robind :: "'a result option \<Rightarrow> ('a \<Rightarrow> 'b result option) \<Rightarrow> 'b result option" where
  "robind m f = (case m of None \<Rightarrow> None | Some (Inl e) \<Rightarrow> Some (Inl e) | Some (Inr x) \<Rightarrow> f x)"

lemma robind_simps [simp]:
  "robind None f = None" "robind (Some (Inl e)) f = Some (Inl e)" "robind (Some (Inr x)) f = f x"
  by (simp_all add: robind_def)

definition thr :: "addr \<Rightarrow> sthreads \<Rightarrow> sthread_struct result option" where
  "thr a s = Some (case threads s a of None \<Rightarrow> Inl UseAfterFree | Some t \<Rightarrow> Inr t)"

definition upd_thr :: "addr \<Rightarrow> (sthread_struct \<Rightarrow> sthread_struct) \<Rightarrow> sthreads \<Rightarrow> sthreads result option" where
  "upd_thr a f s = robind (thr a s) (\<lambda>t. Some (Inr (s\<lparr>threads := (threads s)(a \<mapsto> f t)\<rparr>)))"

definition c_free :: "addr option \<Rightarrow> sthreads \<Rightarrow> sthreads result option" where
  "c_free p s = Some (case p of None \<Rightarrow> Inr s
     | Some a \<Rightarrow> if a \<in> mallocs s then Inr (s\<lparr>mallocs := mallocs s - {a}\<rparr>) else Inl BadFree)"

definition close_pipe :: "int \<times> int \<Rightarrow> sthreads \<Rightarrow> sthreads" where
  "close_pipe p s = s\<lparr>fds := fds s - {fst p, snd p}\<rparr>"

section \<open>The list of threads\<close>

definition threadlist_lock :: "sthreads \<Rightarrow> sthreads result option" where
  "threadlist_lock s = (if list_lock s then None else Some (Inr (s\<lparr>list_lock := True\<rparr>)))"

definition threadlist_unlock :: "sthreads \<Rightarrow> sthreads" where
  "threadlist_unlock s = s\<lparr>list_lock := False\<rparr>"

partial_function (option) find_loop :: "(addr \<rightharpoonup> sthread_struct) \<Rightarrow> int \<Rightarrow> addr option \<Rightarrow> addr option result option" where
  [code]: "find_loop T pd p =
    (case p of
       None \<Rightarrow> Some (Inr None)
     | Some a \<Rightarrow>
         (case T a of
            None \<Rightarrow> Some (Inl UseAfterFree)
          | Some c \<Rightarrow> if t_pid c = pd then Some (Inr (Some a)) else find_loop T pd (t_next c)))"

definition threadlist_findbypid :: "int \<Rightarrow> sthreads \<Rightarrow> (addr option \<times> sthreads) result option" where
  "threadlist_findbypid pd s =
    robind (threadlist_lock s) (\<lambda>s.
    robind (find_loop (threads s) pd (list_hd s)) (\<lambda>p. Some (Inr (p, threadlist_unlock s))))"

definition threadlist_add :: "addr \<Rightarrow> sthreads \<Rightarrow> (int \<times> sthreads) result option" where
  "threadlist_add t s =
    robind (threadlist_lock s) (\<lambda>s.
    robind (upd_thr t (\<lambda>c. c\<lparr>t_next := list_hd s\<rparr>) s) (\<lambda>s.
    Some (Inr (0, threadlist_unlock (s\<lparr>list_hd := Some t\<rparr>)))))"

partial_function (option) del_loop ::
  "(addr \<rightharpoonup> sthread_struct) \<Rightarrow> int \<Rightarrow> addr option \<Rightarrow> addr option \<Rightarrow> (addr option \<times> addr) result option" where
  [code]: "del_loop T pd prev p =
    (case p of
       None \<Rightarrow> Some (Inl NullDeref)
     | Some a \<Rightarrow>
         (case T a of
            None \<Rightarrow> if a = manager_thread then Some (Inr (prev, a)) else Some (Inl UseAfterFree)
          | Some c \<Rightarrow>
              if a = manager_thread \<or> t_pid c = pd then Some (Inr (prev, a)) else del_loop T pd p (t_next c)))"

definition threadlist_del :: "addr \<Rightarrow> sthreads \<Rightarrow> (int \<times> sthreads) result option" where
  "threadlist_del t s =
    robind (threadlist_lock s) (\<lambda>s.
    robind (thr t s) (\<lambda>c.
    robind (del_loop (threads s) (t_pid c) None (list_hd s)) (\<lambda>(prev, p).
    if p = manager_thread then Some (Inl Abort)
    else robind (thr p s) (\<lambda>d.
      robind (case prev of
          Some q \<Rightarrow> upd_thr q (\<lambda>c. c\<lparr>t_next := t_next d\<rparr>) s
        | None \<Rightarrow> Some (Inr (s\<lparr>list_hd := t_next d\<rparr>))) (\<lambda>s.
      Some (Inr (0, threadlist_unlock s)))))))"

section \<open>The manager\<close>

definition sthread_wake :: "addr \<Rightarrow> sthreads \<Rightarrow> sthreads result option" where
  "sthread_wake t s = robind (thr t s) (\<lambda>c. Some (Inr (s\<lparr>wakeups := (wakeups s)(snd (t_pipe c) := wakeups s (snd (t_pipe c)) + 1)\<rparr>)))"

definition thread_dealloc :: "addr \<Rightarrow> sthreads \<Rightarrow> sthreads result option" where
  "thread_dealloc t s =
    robind (threadlist_del t s) (\<lambda>(_, s).
    robind (thr t s) (\<lambda>c.
    let s = close_pipe (t_pipe c) (s\<lparr>mapped := mapped s - set_option (t_stack c)\<rparr>)
    in robind (c_free (Some t) s) (\<lambda>s. Some (Inr (s\<lparr>threads := (threads s)(t := None)\<rparr>)))))"

text \<open>The signals sent to the list up to the manager, and to all but the manager and \<open>t\<close>.\<close>

partial_function (option) kill_threads :: "int \<Rightarrow> addr option \<Rightarrow> sthreads \<Rightarrow> sthreads result option" where
  [code]: "kill_threads sig p s =
    (case p of
       None \<Rightarrow> Some (Inr s)
     | Some a \<Rightarrow>
         (case threads s a of
            None \<Rightarrow> if a = manager_thread then Some (Inr s) else Some (Inl UseAfterFree)
          | Some c \<Rightarrow>
              if a = manager_thread then Some (Inr s)
              else kill_threads sig (t_next c) (s\<lparr>signals := signals s @ [(t_pid c, sig)]\<rparr>)))"

partial_function (option) kill_others :: "addr \<Rightarrow> addr option \<Rightarrow> sthreads \<Rightarrow> sthreads result option" where
  [code]: "kill_others t p s =
    (case p of
       None \<Rightarrow> Some (Inr s)
     | Some a \<Rightarrow>
         (case threads s a of
            None \<Rightarrow> Some (Inl UseAfterFree)
          | Some c \<Rightarrow> kill_others t (t_next c)
              (if a \<noteq> manager_thread \<and> a \<noteq> t then s\<lparr>signals := signals s @ [(t_pid c, SIGUSR2)]\<rparr> else s)))"

text \<open>
  \<open>waited\<close> is what the calls of \<open>waitpid\<close> return, a process and the signal that ended it. The result tells
  whether the manager has ended the program.
\<close>

fun reap_children :: "(int \<times> int option) list \<Rightarrow> sthreads \<Rightarrow> (bool \<times> sthreads) result option" where
  "reap_children [] s = Some (Inr (False, s))"
| "reap_children ((pd, sig) # waited) s =
    robind (threadlist_findbypid pd (s\<lparr>children := children s - {pd}\<rparr>)) (\<lambda>(p, s).
    case p of
      None \<Rightarrow> Some (Inl Abort)
    | Some a \<Rightarrow>
        robind (thread_dealloc a s) (\<lambda>s.
        case sig of
          None \<Rightarrow> reap_children waited s
        | Some g \<Rightarrow>
            robind (kill_threads g (list_hd s) s) (\<lambda>s.
            robind (thr main_thread s) (\<lambda>m.
            robind (thr manager_thread s) (\<lambda>n.
            Some (Inr (True, s\<lparr>signals := signals s @ [(t_pid m, g), (t_pid n, g)]\<rparr>)))))))"

record create_calls =
  mmap_ret :: "addr option"
  pipe_ret :: "(int \<times> int) option"
  malloc_ret :: "addr option"
  clone_ret :: int
  errno_ret :: int

text \<open>A failing call stores \<open>errno\<close> in the structure of the manager, from where it is copied to the caller.\<close>

definition copy_err :: "create_calls \<Rightarrow> addr \<Rightarrow> sthreads \<Rightarrow> sthreads result option" where
  "copy_err os caller s =
    robind (upd_thr manager_thread (\<lambda>c. c\<lparr>t_err := errno_ret os\<rparr>) s) (\<lambda>s.
    robind (thr manager_thread s) (\<lambda>m. upd_thr caller (\<lambda>c. c\<lparr>t_err := t_err m\<rparr>) s))"

definition create_out :: "addr \<Rightarrow> sthreads \<Rightarrow> sthreads result option" where
  "create_out caller = upd_thr caller (\<lambda>c. c\<lparr>t_status := - 1\<rparr>)"

definition create_freestack :: "addr \<Rightarrow> addr \<Rightarrow> sthreads \<Rightarrow> sthreads result option" where
  "create_freestack caller t s = robind (thr t s) (\<lambda>c. robind (c_free (t_stack c) s) (create_out caller))"

definition create_closepipe :: "addr \<Rightarrow> addr \<Rightarrow> sthreads \<Rightarrow> sthreads result option" where
  "create_closepipe caller t s = robind (thr t s) (\<lambda>c. create_freestack caller t (close_pipe (t_pipe c) s))"

definition create_listdel :: "addr \<Rightarrow> addr \<Rightarrow> addr \<Rightarrow> sthreads \<Rightarrow> sthreads result option" where
  "create_listdel caller t ss s =
    robind (threadlist_del t s) (\<lambda>(_, s). robind (c_free (Some ss) s) (create_closepipe caller t))"

text \<open>The start of \<open>do_create\<close>: the structures of the caller and of the new thread are reset.\<close>

definition create_reset :: "create_calls \<Rightarrow> addr \<Rightarrow> addr \<Rightarrow> nat \<Rightarrow> sthreads \<Rightarrow> sthreads result option" where
  "create_reset os caller t mainr s =
    robind (upd_thr caller (\<lambda>c. c\<lparr>t_status := 0, t_err := 0\<rparr>) s)
      (upd_thr t (\<lambda>c. c\<lparr>t_main := mainr, t_running := 0, t_status := 0, t_stacksize := DEF_STACK_SIZE, t_stack := mmap_ret os\<rparr>))"

text \<open>\<open>clone\<close> with the list lock held, and the assignment of its result.\<close>

definition create_clone :: "create_calls \<Rightarrow> addr \<Rightarrow> sthreads \<Rightarrow> sthreads result option" where
  "create_clone os t s =
    robind (threadlist_lock s) (\<lambda>s.
    robind (upd_thr t (\<lambda>c. c\<lparr>t_pid := clone_ret os\<rparr>) s) (\<lambda>s.
    Some (Inr (threadlist_unlock
      (if clone_ret os = - 1 then s else s\<lparr>children := insert (clone_ret os) (children s)\<rparr>)))))"

definition do_create :: "create_calls \<Rightarrow> addr \<Rightarrow> addr \<Rightarrow> nat \<Rightarrow> sthreads \<Rightarrow> sthreads result option" where
  "do_create os caller t mainr s =
    robind (create_reset os caller t mainr s) (\<lambda>s.
    case mmap_ret os of
      None \<Rightarrow> robind (copy_err os caller s) (create_out caller)
    | Some stk \<Rightarrow>
        let s = s\<lparr>mapped := insert stk (mapped s)\<rparr>
        in case pipe_ret os of
             None \<Rightarrow> robind (copy_err os caller s) (create_freestack caller t)
           | Some pp \<Rightarrow>
               robind (upd_thr t (\<lambda>c. c\<lparr>t_pipe := pp\<rparr>) (s\<lparr>fds := {fst pp, snd pp} \<union> fds s\<rparr>)) (\<lambda>s.
               case malloc_ret os of
                 None \<Rightarrow> robind (copy_err os caller s) (create_closepipe caller t)
               | Some ss \<Rightarrow>
                   robind (threadlist_add t (s\<lparr>mallocs := insert ss (mallocs s)\<rparr>)) (\<lambda>(_, s).
                   robind (create_clone os t s) (\<lambda>s.
                   if clone_ret os = - 1 then robind (copy_err os caller s) (create_listdel caller t ss)
                   else Some (Inr s)))))"

datatype manager_msg = MSG_CREATE addr nat addr | MSG_THREAD_EXIT addr | MSG_ALL_EXIT addr

text \<open>The second loop of \<open>MSG_ALL_EXIT\<close>: after \<open>thread_dealloc (p)\<close> it reads \<open>p->next\<close>.\<close>

partial_function (option) dealloc_others :: "addr \<Rightarrow> addr option \<Rightarrow> sthreads \<Rightarrow> sthreads result option" where
  [code]: "dealloc_others t p s =
    (case p of
       None \<Rightarrow> Some (Inr s)
     | Some a \<Rightarrow>
         (case (if a \<noteq> manager_thread \<and> a \<noteq> t
                then robind (thr a s) (\<lambda>c. thread_dealloc a (s\<lparr>children := children s - {t_pid c}\<rparr>)) else Some (Inr s)) of
            None \<Rightarrow> None
          | Some (Inl e) \<Rightarrow> Some (Inl e)
          | Some (Inr s') \<Rightarrow>
              (case threads s' a of
                 None \<Rightarrow> Some (Inl UseAfterFree)
               | Some c \<Rightarrow> dealloc_others t (t_next c) s')))"

fun manager_handle :: "create_calls \<Rightarrow> manager_msg \<Rightarrow> sthreads \<Rightarrow> sthreads result option" where
  "manager_handle os (MSG_CREATE caller mainr t) s = robind (do_create os caller t mainr s) (sthread_wake caller)"
| "manager_handle os (MSG_THREAD_EXIT t) s =
    robind (sthread_wake t s) (\<lambda>s.
    robind (thr t s) (\<lambda>c. thread_dealloc t (s\<lparr>children := children s - {t_pid c}\<rparr>)))"
| "manager_handle os (MSG_ALL_EXIT t) s =
    robind (sthread_wake t s) (\<lambda>s.
    robind (kill_others t (list_hd s) s) (\<lambda>s.
    robind (dealloc_others t (list_hd s) s) (upd_thr manager_thread (\<lambda>c. c\<lparr>t_running := 0\<rparr>))))"

section \<open>Calls of the clients\<close>

definition sthread_self :: "int \<Rightarrow> sthreads \<Rightarrow> (addr option \<times> sthreads) result option" where
  "sthread_self getpid = threadlist_findbypid getpid"

text \<open>Reading from an empty pipe blocks; the other end sends one message per wake-up.\<close>

definition self_suspend :: "addr option \<Rightarrow> sthreads \<Rightarrow> sthreads result option" where
  "self_suspend self s =
    (case self of
       None \<Rightarrow> Some (Inl Abort)
     | Some a \<Rightarrow> robind (thr a s) (\<lambda>c. let w = wakeups s (snd (t_pipe c))
         in if w = 0 then None else Some (Inr (s\<lparr>wakeups := (wakeups s)(snd (t_pipe c) := w - 1)\<rparr>))))"

text \<open>
  A client asks the manager and waits for its answer. \<open>newthr\<close> is what \<open>malloc\<close> returns and \<open>junk\<close> the content of that
  memory; a null \<open>self\<close> is dereferenced by the manager.
\<close>

definition sthread_create ::
    "create_calls \<Rightarrow> addr option \<Rightarrow> sthread_struct \<Rightarrow> int \<Rightarrow> nat \<Rightarrow> sthreads \<Rightarrow> (int \<times> addr option \<times> sthreads) result option" where
  "sthread_create os newthr junk getpid mainr s =
    robind (sthread_self getpid s) (\<lambda>(self, s).
    case newthr of
      None \<Rightarrow> Some (Inr (- 1, None, s))
    | Some nt \<Rightarrow>
        let s = s\<lparr>threads := (threads s)(nt \<mapsto> junk), mallocs := insert nt (mallocs s)\<rparr>
        in case self of
             None \<Rightarrow> Some (Inl NullDeref)
           | Some a \<Rightarrow>
               robind (manager_handle os (MSG_CREATE a mainr nt) s) (\<lambda>s.
               robind (self_suspend self s) (\<lambda>s.
               robind (thr a s) (\<lambda>c.
               if t_status c \<noteq> 0
               then robind (c_free (Some nt) s) (\<lambda>s. Some (Inr (t_status c, None, s\<lparr>threads := (threads s)(nt := None)\<rparr>)))
               else Some (Inr (t_status c, Some nt, s))))))"

text \<open>The new thread before and after it runs its main routine.\<close>

definition start_thread_enter :: "addr \<Rightarrow> addr \<Rightarrow> sthreads \<Rightarrow> sthreads result option" where
  "start_thread_enter ss self s = robind (c_free (Some ss) s) (upd_thr self (\<lambda>c. c\<lparr>t_running := 1\<rparr>))"

definition start_thread_leave :: "int \<Rightarrow> addr \<Rightarrow> sthreads \<Rightarrow> sthreads result option" where
  "start_thread_leave retval self = upd_thr self (\<lambda>c. c\<lparr>t_running := 0, t_status := retval\<rparr>)"

definition init_main_thread :: "int \<Rightarrow> (int \<times> int) option \<Rightarrow> sthreads \<Rightarrow> (int \<times> sthreads) result option" where
  "init_main_thread getpid pp s =
    robind (upd_thr main_thread (\<lambda>c. c\<lparr>t_pid := getpid\<rparr>) s) (\<lambda>s.
    case pp of
      None \<Rightarrow> Some (Inr (- 1, s))
    | Some p \<Rightarrow> robind (upd_thr main_thread (\<lambda>c. c\<lparr>t_pipe := p\<rparr>) (s\<lparr>fds := {fst p, snd p} \<union> fds s\<rparr>)) (\<lambda>s. Some (Inr (0, s))))"

definition init_manager_thread :: "create_calls \<Rightarrow> sthreads \<Rightarrow> (int \<times> sthreads) result option" where
  "init_manager_thread os s =
    robind (upd_thr manager_thread (\<lambda>c. c\<lparr>t_main := 0, t_running := 1, t_status := 0, t_stacksize := UTIL_STACK_SIZE, t_stack := mmap_ret os\<rparr>) s) (\<lambda>s.
    case mmap_ret os of
      None \<Rightarrow> Some (Inr (- 1, s))
    | Some stk \<Rightarrow>
        let s = s\<lparr>mapped := insert stk (mapped s)\<rparr>
        in case pipe_ret os of
             None \<Rightarrow> robind (c_free (Some stk) s) (\<lambda>s. Some (Inr (- 1, s)))
           | Some p \<Rightarrow>
               robind (upd_thr manager_thread (\<lambda>c. c\<lparr>t_pipe := p, t_pid := clone_ret os\<rparr>) (s\<lparr>fds := {fst p, snd p} \<union> fds s\<rparr>)) (\<lambda>s.
               if clone_ret os = - 1
               then robind (c_free (Some stk) (close_pipe p s)) (\<lambda>s. Some (Inr (- 1, s)))
               else Some (Inr (0, s))))"

definition sthread_init :: "int \<Rightarrow> (int \<times> int) option \<Rightarrow> create_calls \<Rightarrow> sthreads \<Rightarrow> (int \<times> sthreads) result option" where
  "sthread_init getpid pp os s =
    robind (init_main_thread getpid pp s) (\<lambda>(r, s).
    if r = - 1 then Some (Inr (- 1, s))
    else robind (init_manager_thread os s) (\<lambda>(r, s). if r = - 1 then Some (Inr (- 1, s)) else Some (Inr (0, s))))"

text \<open>The static initialisers.\<close>

definition sthread_static :: sthreads where
  "sthread_static =
    (let c = \<lparr>t_pid = 0, t_main = 0, t_running = 1, t_status = 0, t_err = 0, t_pipe = (- 1, - 1), t_stacksize = 0,
              t_stack = None, t_next = None\<rparr>
     in \<lparr>threads = [main_thread \<mapsto> c, manager_thread \<mapsto> c\<lparr>t_running := 0, t_next := Some main_thread\<rparr>],
         list_hd = Some manager_thread, list_lock = False, mapped = {}, mallocs = {}, fds = {}, children = {},
         wakeups = (\<lambda>_. 0), signals = []\<rparr>)"

section \<open>The list as a sequence of threads\<close>

lemma static_distinct [simp]: "main_thread \<noteq> manager_thread" "manager_thread \<noteq> main_thread"
  by (simp_all add: main_thread_def manager_thread_def)

definition nxt_thr :: "(addr \<rightharpoonup> sthread_struct) \<Rightarrow> addr \<Rightarrow> addr option option" where
  "nxt_thr T a = map_option t_next (T a)"

lemma nxt_thr_Some: "nxt_thr T a = Some n \<longleftrightarrow> (\<exists>c. T a = Some c \<and> t_next c = n)"
  by (auto simp: nxt_thr_def)

definition pid_of :: "sthreads \<Rightarrow> addr \<Rightarrow> int" where
  "pid_of s a = t_pid (the (threads s a))"

definition thread_list :: "sthreads \<Rightarrow> addr list \<Rightarrow> bool" where
  "thread_list s ths \<longleftrightarrow> chain (nxt_thr (threads s)) (list_hd s) (ths @ [manager_thread, main_thread]) None \<and> \<not> list_lock s"

lemma thread_list_distinct: "thread_list s ths \<Longrightarrow> distinct (ths @ [manager_thread, main_thread])"
  unfolding thread_list_def by (blast intro: chain_distinct)

lemma thread_list_alloc: "thread_list s ths \<Longrightarrow> a \<in> set ths \<union> {manager_thread, main_thread} \<Longrightarrow> \<exists>c. threads s a = Some c"
  using chain_dom [of "nxt_thr (threads s)" "list_hd s" "ths @ [manager_thread, main_thread]" None a]
  by (auto simp: thread_list_def nxt_thr_def)

lemma find_loop_chain:
  "chain (nxt_thr T) p as None \<Longrightarrow> find_loop T pd p = Some (Inr (List.find (\<lambda>a. t_pid (the (T a)) = pd) as))"
proof (induction as arbitrary: p)
  case Nil
  then show ?case by (subst find_loop.simps) simp
next
  case (Cons a as)
  then obtain c where c: "p = Some a" "T a = Some c" "chain (nxt_thr T) (t_next c) as None" by (auto simp: nxt_thr_Some)
  with Cons.IH [OF c(3)] show ?case by (subst find_loop.simps) simp
qed

lemma del_loop_finds:
  assumes "chain (nxt_thr T) p (us @ a # vs) None" "\<forall>u \<in> set us. t_pid (the (T u)) \<noteq> pd \<and> u \<noteq> manager_thread"
    and "a = manager_thread \<or> t_pid (the (T a)) = pd"
  shows "del_loop T pd prev p = Some (Inr (if us = [] then prev else Some (last us), a))"
  using assms
proof (induction us arbitrary: p prev)
  case Nil
  then show ?case by (subst del_loop.simps) (auto simp: nxt_thr_Some)
next
  case (Cons u us)
  then obtain c where c: "p = Some u" "T u = Some c" "chain (nxt_thr T) (t_next c) (us @ a # vs) None" by (auto simp: nxt_thr_Some)
  with Cons.IH [OF c(3), of p] Cons.prems show ?case by (subst del_loop.simps) auto
qed

text \<open>Only the links of the list differ.\<close>

definition relinked :: "sthreads \<Rightarrow> sthreads \<Rightarrow> bool" where
  "relinked s s' \<longleftrightarrow> s' = s\<lparr>threads := threads s', list_hd := list_hd s'\<rparr>
     \<and> (\<forall>a. map_option (t_next_update (\<lambda>_. None)) (threads s' a) = map_option (t_next_update (\<lambda>_. None)) (threads s a))"

lemma threadlist_add_list:
  assumes "thread_list s ths" "threads s t = Some c" "t \<notin> set ths \<union> {manager_thread, main_thread}"
  shows "threadlist_add t s = Some (Inr (0, s\<lparr>threads := (threads s)(t \<mapsto> c\<lparr>t_next := list_hd s\<rparr>), list_hd := Some t\<rparr>))"
    and "thread_list (s\<lparr>threads := (threads s)(t \<mapsto> c\<lparr>t_next := list_hd s\<rparr>), list_hd := Some t\<rparr>) (t # ths)"
proof -
  have "chain (nxt_thr ((threads s)(t \<mapsto> c\<lparr>t_next := list_hd s\<rparr>))) (list_hd s) (ths @ [manager_thread, main_thread]) None"
    using assms by (subst chain_cong [of _ _ "nxt_thr (threads s)"]) (auto simp: thread_list_def nxt_thr_def)
  then show "thread_list (s\<lparr>threads := (threads s)(t \<mapsto> c\<lparr>t_next := list_hd s\<rparr>), list_hd := Some t\<rparr>) (t # ths)"
    using assms(1) by (simp add: thread_list_def nxt_thr_def)
qed (use assms in \<open>simp add: threadlist_add_def threadlist_lock_def threadlist_unlock_def upd_thr_def thr_def thread_list_def\<close>)

lemma chain_relink:
  assumes "chain nxt p (us @ a # vs) q" "us \<noteq> []" "nxt a = Some n" "distinct (us @ a # vs)"
  shows "chain (nxt(last us := Some n)) p (us @ vs) q"
proof -
  obtain r where r: "chain nxt p us r" "chain nxt r (a # vs) q" using assms(1) by (auto simp: chain_append)
  obtain ws u where us: "us = ws @ [u]" using assms(2) by (cases us rule: rev_cases) auto
  have 1: "chain (nxt(u := Some n)) n vs q"
    using r(2) assms(3,4) us by (subst chain_cong [of _ _ nxt]) auto
  have "chain (nxt(u := Some n)) p ws (Some u)"
    using r(1) assms(4) us by (subst chain_cong [of _ _ nxt]) (auto simp: chain_append)
  with 1 show ?thesis by (auto simp: us chain_append)
qed

lemma threadlist_del_list:
  assumes l: "thread_list s ths" and t: "t \<in> set ths" and p: "inj_on (pid_of s) (set ths)"
  shows "\<exists>s'. threadlist_del t s = Some (Inr (0, s')) \<and> thread_list s' (remove1 t ths) \<and> relinked s s'
    \<and> threads s' t = threads s t"
proof -
  obtain us vs where ths: "ths = us @ t # vs" "t \<notin> set us" using split_list_first [OF t] by blast
  let ?T = "threads s" and ?vs = "vs @ [manager_thread, main_thread]"
  have ch: "chain (nxt_thr ?T) (list_hd s) (us @ t # ?vs) None" and u: "\<not> list_lock s"
    using l by (simp_all add: thread_list_def ths)
  note d = thread_list_distinct [OF l]
  obtain c where c: "?T t = Some c" using thread_list_alloc [OF l] t by blast
  have "\<forall>u \<in> set us. t_pid (the (?T u)) \<noteq> t_pid c \<and> u \<noteq> manager_thread"
    using p d c ths by (fastforce simp: inj_on_def pid_of_def)
  from del_loop_finds [OF ch this] c
  have del: "del_loop ?T (t_pid c) None (list_hd s) = Some (Inr (if us = [] then None else Some (last us), t))" by simp
  have nm: "t \<noteq> manager_thread" using d t by auto
  show ?thesis
  proof (cases "us = []")
    case True
    then have "threadlist_del t s = Some (Inr (0, s\<lparr>list_hd := t_next c\<rparr>))"
      using c u del nm by (simp add: threadlist_del_def threadlist_lock_def threadlist_unlock_def thr_def)
    moreover have "thread_list (s\<lparr>list_hd := t_next c\<rparr>) vs"
      using ch True c u by (simp add: thread_list_def nxt_thr_def)
    ultimately show ?thesis using True ths by (auto simp: relinked_def)
  next
    case False
    define w where "w = last us"
    have w: "w \<in> set us" "w \<noteq> t" using False ths by (auto simp: w_def)
    obtain e where e: "?T w = Some e" using thread_list_alloc [OF l] w ths by auto
    let ?s = "s\<lparr>threads := ?T(w \<mapsto> e\<lparr>t_next := t_next c\<rparr>)\<rparr>"
    have "threadlist_del t s = Some (Inr (0, ?s))"
      using c u del nm False e
      by (simp add: threadlist_del_def threadlist_lock_def threadlist_unlock_def thr_def upd_thr_def flip: w_def)
    moreover have "nxt_thr (threads ?s) = (nxt_thr ?T)(w := Some (t_next c))" by (auto simp: nxt_thr_def)
    then have "thread_list ?s (us @ vs)"
      using chain_relink [OF ch False, of "t_next c"] c u d ths by (simp add: thread_list_def nxt_thr_def w_def)
    moreover have "remove1 t ths = us @ vs" using ths by (simp add: remove1_append)
    ultimately show ?thesis using e w by (auto simp: relinked_def)
  qed
qed

lemma threadlist_findbypid_list:
  "thread_list s ths \<Longrightarrow> threadlist_findbypid pd s
    = Some (Inr (List.find (\<lambda>a. pid_of s a = pd) (ths @ [manager_thread, main_thread]), s))"
  using find_loop_chain [of "threads s" "list_hd s" "ths @ [manager_thread, main_thread]" pd]
  by (simp add: threadlist_findbypid_def threadlist_lock_def threadlist_unlock_def thread_list_def pid_of_def)

text \<open>
  The linked list implements a sequence of threads: adding puts a thread in front, deleting takes out exactly the given
  thread (identifiers of listed threads are distinct), finding returns the first thread with the identifier or
  nothing, none of them touches anything but the links, and the lock is free again.
\<close>
theorem threadlist_refines_sequence:
  assumes "thread_list s ths" and "t \<in> set ths" and "inj_on (pid_of s) (set ths)"
    and "threads s u \<noteq> None" and "u \<notin> set ths \<union> {manager_thread, main_thread}"
  shows "(\<exists>s'. threadlist_add u s = Some (Inr (0, s')) \<and> thread_list s' (u # ths) \<and> relinked s s')
    \<and> (\<exists>s'. threadlist_del t s = Some (Inr (0, s')) \<and> thread_list s' (remove1 t ths) \<and> relinked s s')
    \<and> threadlist_findbypid pd s
        = Some (Inr (List.find (\<lambda>a. pid_of s a = pd) (ths @ [manager_thread, main_thread]), s))"
proof -
  from assms(4) obtain c where c: "threads s u = Some c" by blast
  note a = threadlist_add_list [OF assms(1) c assms(5)]
  have "relinked s (s\<lparr>threads := (threads s)(u \<mapsto> c\<lparr>t_next := list_hd s\<rparr>), list_hd := Some u\<rparr>)"
    using c by (auto simp: relinked_def)
  then show ?thesis using a threadlist_del_list [OF assms(1-3)] threadlist_findbypid_list [OF assms(1)] by blast
qed

section \<open>Creating a thread\<close>

text \<open>
  What the operating system promises of its answers: new memory, descriptors and processes are not in use. The
  stack comes from \<open>mmap\<close> and is therefore no block of \<open>malloc\<close>.
\<close>

definition calls_ok :: "create_calls \<Rightarrow> addr \<Rightarrow> sthreads \<Rightarrow> bool" where
  "calls_ok os nt s \<longleftrightarrow> threads s nt = None \<and> nt \<notin> mallocs s
     \<and> (\<forall>k \<in> set_option (mmap_ret os). k \<notin> mapped s \<and> k \<notin> mallocs s \<and> k \<noteq> nt \<and> malloc_ret os \<noteq> Some k)
     \<and> (\<forall>pp \<in> set_option (pipe_ret os). fst pp \<notin> fds s \<and> snd pp \<notin> fds s)
     \<and> (\<forall>ss \<in> set_option (malloc_ret os). ss \<notin> mallocs s \<and> ss \<noteq> nt \<and> threads s ss = None)
     \<and> clone_ret os \<notin> children s"

lemmas thr_op_defs = thr_def upd_thr_def threadlist_lock_def threadlist_unlock_def threadlist_add_def sthread_wake_def
  self_suspend_def c_free_def close_pipe_def copy_err_def create_out_def create_freestack_def create_closepipe_def
  create_reset_def create_clone_def

definition created :: "create_calls \<Rightarrow> nat \<Rightarrow> addr option \<Rightarrow> sthread_struct \<Rightarrow> sthread_struct" where
  "created os mainr nx c = c\<lparr>t_main := mainr, t_running := 0, t_status := 0, t_stacksize := DEF_STACK_SIZE,
     t_stack := mmap_ret os, t_pipe := the (pipe_ret os), t_next := nx, t_pid := clone_ret os\<rparr>"

definition after_create :: "create_calls \<Rightarrow> addr \<Rightarrow> addr \<Rightarrow> sthread_struct \<Rightarrow> nat \<Rightarrow> sthreads \<Rightarrow> sthreads" where
  "after_create os a nt junk mainr s =
    s\<lparr>threads := (threads s)(a \<mapsto> (the (threads s a))\<lparr>t_status := 0, t_err := 0\<rparr>, nt \<mapsto> created os mainr (list_hd s) junk),
      list_hd := Some nt, mapped := insert (the (mmap_ret os)) (mapped s),
      mallocs := insert (the (malloc_ret os)) (insert nt (mallocs s)),
      fds := {fst (the (pipe_ret os)), snd (the (pipe_ret os))} \<union> fds s, children := insert (clone_ret os) (children s)\<rparr>"

definition after_refusal :: "create_calls \<Rightarrow> addr \<Rightarrow> sthreads \<Rightarrow> sthreads" where
  "after_refusal os a s =
    s\<lparr>threads := (threads s)(manager_thread \<mapsto> (the (threads s manager_thread))\<lparr>t_err := errno_ret os\<rparr>,
        a \<mapsto> (the (threads s a))\<lparr>t_err := errno_ret os, t_status := - 1\<rparr>)\<rparr>"

lemma self_found:
  assumes "thread_list s ths" "List.find (\<lambda>b. pid_of s b = me) (ths @ [manager_thread, main_thread]) = Some a"
  shows "sthread_self me s = Some (Inr (Some a, s))" "a \<in> set ths \<union> {manager_thread, main_thread}"
proof -
  show "sthread_self me s = Some (Inr (Some a, s))"
    using threadlist_findbypid_list [OF assms(1), of me] assms(2) by (simp add: sthread_self_def)
  have "a \<in> set (ths @ [manager_thread, main_thread])" using assms(2) by (metis find_Some_iff nth_mem)
  then show "a \<in> set ths \<union> {manager_thread, main_thread}" by auto
qed

lemma threadlist_del_first:
  assumes "list_hd s = Some t" "threads s t = Some c" "t \<noteq> manager_thread" "\<not> list_lock s"
  shows "threadlist_del t s = Some (Inr (0, s\<lparr>list_hd := t_next c\<rparr>))"
proof -
  have "del_loop (threads s) (t_pid c) None (Some t) = Some (Inr (None, t))"
    using assms(2,3) by (subst del_loop.simps) simp
  with assms show ?thesis by (simp add: threadlist_del_def threadlist_lock_def threadlist_unlock_def thr_def)
qed

text \<open>
  The three ways in which \<open>sthread_create\<close> can end for a caller in the list: with the new thread in front of the list;
  with \<open>-1\<close> and nothing changed but the error fields when no stack could be mapped; and, when a later call
  fails, in the \<open>free\<close> of a stack that came from \<open>mmap\<close>.
\<close>
lemma sthread_create_cases:
  assumes l: "thread_list s ths" and f: "List.find (\<lambda>b. pid_of s b = me) (ths @ [manager_thread, main_thread]) = Some a"
    and nm: "a \<noteq> manager_thread" and ok: "calls_ok os nt s"
  shows "mmap_ret os = None \<Longrightarrow> sthread_create os (Some nt) junk me mainr s = Some (Inr (- 1, None, after_refusal os a s))"
    and "mmap_ret os = Some k \<Longrightarrow> pipe_ret os = Some pp \<Longrightarrow> malloc_ret os = Some ss \<Longrightarrow> clone_ret os \<noteq> - 1 \<Longrightarrow>
      sthread_create os (Some nt) junk me mainr s = Some (Inr (0, Some nt, after_create os a nt junk mainr s))"
    and "mmap_ret os = Some k \<Longrightarrow> pipe_ret os = None \<or> malloc_ret os = None \<or> clone_ret os = - 1 \<Longrightarrow>
      sthread_create os (Some nt) junk me mainr s = Some (Inl BadFree)"
proof -
  note self = self_found [OF l f]
  obtain c where c: "threads s a = Some c" using thread_list_alloc [OF l self(2)] by blast
  obtain m where m: "threads s manager_thread = Some m" using thread_list_alloc [OF l] by blast
  have u: "\<not> list_lock s" using l by (simp add: thread_list_def)
  have nt: "threads s nt = None" "nt \<notin> mallocs s" using ok by (simp_all add: calls_ok_def)
  have na: "a \<noteq> nt" "nt \<noteq> manager_thread" using c m nt by auto
  have bk: "(threads s)(nt := None) = threads s" using nt by (simp add: fun_upd_idem)
  show "mmap_ret os = None \<Longrightarrow> sthread_create os (Some nt) junk me mainr s = Some (Inr (- 1, None, after_refusal os a s))"
    using c m na u nt nm self by (simp add: sthread_create_def do_create_def thr_op_defs after_refusal_def fun_upd_twist bk Let_def)
  show "mmap_ret os = Some k \<Longrightarrow> pipe_ret os = Some pp \<Longrightarrow> malloc_ret os = Some ss \<Longrightarrow> clone_ret os \<noteq> - 1 \<Longrightarrow>
      sthread_create os (Some nt) junk me mainr s = Some (Inr (0, Some nt, after_create os a nt junk mainr s))"
    using c m na u nt nm self by (simp add: sthread_create_def do_create_def thr_op_defs after_create_def created_def Let_def)
  show "sthread_create os (Some nt) junk me mainr s = Some (Inl BadFree)"
    if k: "mmap_ret os = Some k" and e: "pipe_ret os = None \<or> malloc_ret os = None \<or> clone_ret os = - 1"
  proof -
    have kk: "k \<notin> mallocs s" "k \<noteq> nt" "malloc_ret os \<noteq> Some k" using ok k by (simp_all add: calls_ok_def)
    consider "pipe_ret os = None" | pp where "pipe_ret os = Some pp" "malloc_ret os = None"
      | pp ss where "pipe_ret os = Some pp" "malloc_ret os = Some ss" "clone_ret os = - 1"
      using e by (cases "pipe_ret os"; cases "malloc_ret os") auto
    then show ?thesis
      by cases (use c m na u nt nm self k kk in
        \<open>simp_all add: sthread_create_def do_create_def thr_op_defs create_listdel_def threadlist_del_first Let_def\<close>)
  qed
qed

section \<open>Resources of threads\<close>

definition stack_of :: "sthreads \<Rightarrow> addr \<Rightarrow> addr set" where
  "stack_of s a = set_option (t_stack (the (threads s a)))"

definition ends_of :: "sthreads \<Rightarrow> addr \<Rightarrow> int set" where
  "ends_of s a = {fst (t_pipe (the (threads s a))), snd (t_pipe (the (threads s a)))}"

definition listed :: "addr list \<Rightarrow> addr set" where
  "listed ths = set ths \<union> {manager_thread, main_thread}"

definition sth_inv :: "sthreads \<Rightarrow> addr list \<Rightarrow> bool" where
  "sth_inv s ths \<longleftrightarrow> thread_list s ths \<and> dom (threads s) = listed ths \<and> set ths \<subseteq> mallocs s
     \<and> inj_on (pid_of s) (set ths) \<and> children s = pid_of s ` set ths
     \<and> mapped s = (\<Union>a \<in> listed ths. stack_of s a) \<and> fds s = (\<Union>a \<in> listed ths. ends_of s a)
     \<and> disjoint_family_on (stack_of s) (listed ths) \<and> disjoint_family_on (ends_of s) (listed ths)"

text \<open>The fields that the invariant reads.\<close>

definition core_of :: "sthread_struct \<Rightarrow> int \<times> (int \<times> int) \<times> addr option \<times> addr option" where
  "core_of c = (t_pid c, t_pipe c, t_stack c, t_next c)"

definition mild :: "sthreads \<Rightarrow> sthreads \<Rightarrow> bool" where
  "mild s s' \<longleftrightarrow> (\<forall>a. map_option core_of (threads s' a) = map_option core_of (threads s a))
     \<and> list_hd s' = list_hd s \<and> list_lock s' = list_lock s \<and> mapped s' = mapped s \<and> fds s' = fds s \<and> children s' = children s"

lemma mildD:
  assumes "mild s s'" "threads s a = Some c"
  obtains c' where "threads s' a = Some c'" "core_of c' = core_of c"
  using assms by (auto simp: mild_def dest!: spec [of _ a])

lemma mild_None: "mild s s' \<Longrightarrow> threads s' a = None \<longleftrightarrow> threads s a = None"
  by (auto simp: mild_def dest!: spec [of _ a])

lemma mild_views:
  assumes "mild s s'"
  shows "dom (threads s') = dom (threads s)" "nxt_thr (threads s') = nxt_thr (threads s)"
    and "a \<in> dom (threads s) \<Longrightarrow> pid_of s' a = pid_of s a \<and> stack_of s' a = stack_of s a \<and> ends_of s' a = ends_of s a"
proof -
  show "dom (threads s') = dom (threads s)" using mild_None [OF assms] by (auto simp: dom_def)
  show "nxt_thr (threads s') = nxt_thr (threads s)"
  proof
    fix b
    show "nxt_thr (threads s') b = nxt_thr (threads s) b"
      using mild_None [OF assms, of b] mildD [OF assms, of b]
      by (cases "threads s b") (auto simp: nxt_thr_def core_of_def)
  qed
  show "pid_of s' a = pid_of s a \<and> stack_of s' a = stack_of s a \<and> ends_of s' a = ends_of s a" if "a \<in> dom (threads s)"
  proof -
    obtain c where c: "threads s a = Some c" using \<open>a \<in> dom (threads s)\<close> by blast
    obtain c' where "threads s' a = Some c'" "core_of c' = core_of c" by (rule mildD [OF assms c])
    with c show ?thesis by (simp add: pid_of_def stack_of_def ends_of_def core_of_def)
  qed
qed

lemma sth_inv_mild:
  assumes "sth_inv s ths" "mild s s'" "set ths \<subseteq> mallocs s'"
  shows "sth_inv s' ths"
proof -
  have d: "dom (threads s) = listed ths" using assms(1) by (simp add: sth_inv_def)
  have v: "pid_of s' a = pid_of s a" "stack_of s' a = stack_of s a" "ends_of s' a = ends_of s a" if "a \<in> listed ths" for a
    using mild_views(3) [OF assms(2)] that d by blast+
  have sub: "set ths \<subseteq> listed ths" by (auto simp: listed_def)
  have t: "thread_list s' ths" using assms(1,2) mild_views(2) [OF assms(2)] by (simp add: sth_inv_def thread_list_def mild_def)
  have p: "inj_on (pid_of s') (set ths)" "pid_of s' ` set ths = pid_of s ` set ths"
    using assms(1) v(1) sub by (auto simp: sth_inv_def subset_iff cong: inj_on_cong image_cong)
  have f: "disjoint_family_on (stack_of s') (listed ths)" "disjoint_family_on (ends_of s') (listed ths)"
    using assms(1) v(2,3) by (auto simp: sth_inv_def disjoint_family_on_def)
  have u: "(\<Union>a \<in> listed ths. stack_of s' a) = (\<Union>a \<in> listed ths. stack_of s a)"
    "(\<Union>a \<in> listed ths. ends_of s' a) = (\<Union>a \<in> listed ths. ends_of s a)"
    using v(2,3) by simp_all
  show ?thesis
    using assms t p f u mild_views(1) [OF assms(2)] unfolding sth_inv_def mild_def by simp
qed

lemma disjoint_family_insert:
  "disjoint_family_on F A \<Longrightarrow> (\<And>a. a \<in> A \<Longrightarrow> F x \<inter> F a = {}) \<Longrightarrow> disjoint_family_on F (insert x A)"
  by (auto simp: disjoint_family_on_def)

lemma disjoint_family_cong:
  "(\<And>a. a \<in> A \<Longrightarrow> F a = G a) \<Longrightarrow> disjoint_family_on F A \<longleftrightarrow> disjoint_family_on G A"
  by (auto simp: disjoint_family_on_def)

lemma sth_inv_create:
  assumes i: "sth_inv s ths" and a: "a \<in> listed ths" and ok: "calls_ok os nt s"
    and os: "mmap_ret os = Some k" "pipe_ret os = Some pp" "malloc_ret os = Some ss"
  shows "sth_inv (after_create os a nt junk mainr s) (nt # ths)"
proof -
  let ?s = "after_create os a nt junk mainr s" and ?L = "listed ths"
  have d: "dom (threads s) = ?L" using i by (simp add: sth_inv_def)
  have nt: "nt \<notin> ?L" using ok d by (auto simp: calls_ok_def)
  obtain c where c: "threads s a = Some c" using a d by auto
  have L: "listed (nt # ths) = insert nt ?L" by (auto simp: listed_def)
  have v: "pid_of ?s b = pid_of s b" "stack_of ?s b = stack_of s b" "ends_of ?s b = ends_of s b" if "b \<in> ?L" for b
    using that nt c by (auto simp: after_create_def pid_of_def stack_of_def ends_of_def)
  have n: "pid_of ?s nt = clone_ret os" "stack_of ?s nt = {k}" "ends_of ?s nt = {fst pp, snd pp}"
    using os by (simp_all add: after_create_def created_def pid_of_def stack_of_def ends_of_def)
  have sub: "set ths \<subseteq> ?L" by (auto simp: listed_def)
  have "nxt_thr (threads ?s) b = nxt_thr (threads s) b" if "b \<in> ?L" for b
    using that nt c by (auto simp: after_create_def nxt_thr_def)
  then have "chain (nxt_thr (threads ?s)) (list_hd s) (ths @ [manager_thread, main_thread]) None"
    using i by (subst chain_cong [of _ _ "nxt_thr (threads s)"]) (auto simp: sth_inv_def thread_list_def listed_def)
  then have "thread_list ?s (nt # ths)"
    using i by (simp add: thread_list_def sth_inv_def after_create_def created_def nxt_thr_def)
  moreover have "dom (threads ?s) = listed (nt # ths)" using d a L by (auto simp: after_create_def)
  moreover have "set (nt # ths) \<subseteq> mallocs ?s" using i by (auto simp: after_create_def sth_inv_def)
  moreover have "inj_on (pid_of ?s) (set ths)" "pid_of ?s ` set ths = pid_of s ` set ths"
    using i v(1) sub by (auto simp: sth_inv_def subset_iff cong: inj_on_cong image_cong)
  then have "inj_on (pid_of ?s) (set (nt # ths))" "children ?s = pid_of ?s ` set (nt # ths)"
    using i ok n(1) by (auto simp: sth_inv_def calls_ok_def after_create_def)
  moreover have "mapped ?s = (\<Union>b \<in> listed (nt # ths). stack_of ?s b)" "fds ?s = (\<Union>b \<in> listed (nt # ths). ends_of ?s b)"
    using i os v n unfolding L by (auto simp: sth_inv_def after_create_def)
  moreover have "disjoint_family_on (stack_of ?s) (listed (nt # ths))"
    unfolding L by (rule disjoint_family_insert) (use i ok os v n in \<open>auto simp: sth_inv_def calls_ok_def disjoint_family_cong [OF v(2)]\<close>)
  moreover have "disjoint_family_on (ends_of ?s) (listed (nt # ths))"
    unfolding L by (rule disjoint_family_insert) (use i ok os v n in \<open>auto simp: sth_inv_def calls_ok_def disjoint_family_cong [OF v(3)]\<close>)
  ultimately show ?thesis unfolding sth_inv_def by blast
qed

lemma mild_refusal:
  assumes "threads s a \<noteq> None" "threads s manager_thread \<noteq> None" "a \<noteq> manager_thread"
  shows "mild s (after_refusal os a s)"
  using assms by (auto simp: mild_def after_refusal_def core_of_def)

lemma mild_upd:
  assumes "upd_thr a f s = Some (Inr s')" "\<And>c. core_of (f c) = core_of c"
  shows "mild s s'"
  using assms by (cases "threads s a") (auto simp: upd_thr_def thr_def mild_def)

section \<open>The end of a thread\<close>

lemma relinked_views:
  assumes "relinked s s'"
  shows "threads s' a = None \<longleftrightarrow> threads s a = None"
    and "pid_of s' a = pid_of s a" "stack_of s' a = stack_of s a" "ends_of s' a = ends_of s a"
proof -
  have e: "map_option (t_next_update (\<lambda>_. None)) (threads s' a) = map_option (t_next_update (\<lambda>_. None)) (threads s a)"
    using assms by (simp add: relinked_def)
  then show n: "threads s' a = None \<longleftrightarrow> threads s a = None" by (metis map_option_is_None)
  have "pid_of s' a = pid_of s a \<and> stack_of s' a = stack_of s a \<and> ends_of s' a = ends_of s a"
  proof (cases "threads s a")
    case None
    with n have "threads s' a = None" by simp
    with None show ?thesis by (simp add: pid_of_def stack_of_def ends_of_def)
  next
    case (Some c)
    then obtain c' where c': "threads s' a = Some c'" using n by (cases "threads s' a") simp_all
    have "t_pid c' = t_pid c \<and> t_stack c' = t_stack c \<and> t_pipe c' = t_pipe c"
      using e Some c' by (cases c; cases c') simp
    with Some c' show ?thesis by (simp add: pid_of_def stack_of_def ends_of_def)
  qed
  then show "pid_of s' a = pid_of s a" "stack_of s' a = stack_of s a" "ends_of s' a = ends_of s a" by simp_all
qed

lemma relinked_frame:
  assumes "relinked s s'"
  shows "mapped s' = mapped s" "fds s' = fds s" "mallocs s' = mallocs s" "children s' = children s"
    "dom (threads s') = dom (threads s)"
proof -
  obtain T h where e: "s' = s\<lparr>threads := T, list_hd := h\<rparr>" using assms unfolding relinked_def by blast
  show "mapped s' = mapped s" "fds s' = fds s" "mallocs s' = mallocs s" "children s' = children s" by (simp_all add: e)
  show "dom (threads s') = dom (threads s)" using relinked_views(1) [OF assms] by (simp add: domIff set_eq_iff del: not_None_eq)
qed

lemma Union_minus_disjoint:
  "disjoint_family_on F A \<Longrightarrow> t \<in> A \<Longrightarrow> (\<Union>a \<in> A. F a) - F t = (\<Union>a \<in> A - {t}. F a)"
  by (auto simp: disjoint_family_on_def)

lemma sth_inv_dealloc:
  assumes i: "sth_inv (s\<lparr>children := C\<rparr>) ths" and t: "t \<in> set ths" and s: "children s = C - {pid_of s t}"
  shows "\<exists>s'. thread_dealloc t s = Some (Inr s') \<and> sth_inv s' (remove1 t ths)"
proof -
  have l: "thread_list s ths" and p: "inj_on (pid_of s) (set ths)" and m: "set ths \<subseteq> mallocs s"
    and d: "dom (threads s) = listed ths" and C: "C = pid_of s ` set ths"
    and M: "mapped s = (\<Union>a \<in> listed ths. stack_of s a)" and F: "fds s = (\<Union>a \<in> listed ths. ends_of s a)"
    and D: "disjoint_family_on (stack_of s) (listed ths)" "disjoint_family_on (ends_of s) (listed ths)"
    using i by (simp_all add: sth_inv_def thread_list_def pid_of_def [abs_def] stack_of_def [abs_def] ends_of_def [abs_def])
  obtain s1 where s1: "threadlist_del t s = Some (Inr (0, s1))" "thread_list s1 (remove1 t ths)" "relinked s s1" "threads s1 t = threads s t"
    using threadlist_del_list [OF l t p] by blast
  note f = relinked_frame [OF s1(3)]
  obtain c where c: "threads s t = Some c" using thread_list_alloc [OF l] t by blast
  let ?s = "s1\<lparr>mapped := mapped s - stack_of s t, fds := fds s - ends_of s t, mallocs := mallocs s - {t}, threads := (threads s1)(t := None)\<rparr>"
  have "thread_dealloc t s = Some (Inr ?s)"
    using s1(1,4) c m t f by (auto simp: thread_dealloc_def thr_def close_pipe_def c_free_def stack_of_def ends_of_def Let_def)
  moreover have "sth_inv ?s (remove1 t ths)"
  proof -
    have dist: "distinct ths" "manager_thread \<notin> set ths" "main_thread \<notin> set ths" using thread_list_distinct [OF l] by auto
    have L: "listed (remove1 t ths) = listed ths - {t}" and S: "set (remove1 t ths) = set ths - {t}"
      using dist t by (auto simp: listed_def)
    have v: "pid_of ?s a = pid_of s a" "stack_of ?s a = stack_of s a" "ends_of ?s a = ends_of s a" if "a \<noteq> t" for a
      using relinked_views(2-4) [OF s1(3), of a] that by (simp_all add: pid_of_def stack_of_def ends_of_def)
    have "chain (nxt_thr ((threads s1)(t := None))) (list_hd s1) (remove1 t ths @ [manager_thread, main_thread]) None"
      using s1(2) dist t by (subst chain_cong [of _ _ "nxt_thr (threads s1)"]) (auto simp: thread_list_def nxt_thr_def)
    then have "thread_list ?s (remove1 t ths)" using s1(2) by (simp add: thread_list_def)
    moreover have "dom (threads ?s) = listed (remove1 t ths)"
      using f(5) d unfolding L by simp
    moreover have "set (remove1 t ths) \<subseteq> mallocs ?s" using m S by auto
    moreover have "inj_on (pid_of ?s) (set ths - {t}) \<longleftrightarrow> inj_on (pid_of s) (set ths - {t})" by (rule inj_on_cong) (simp add: v(1))
    then have "inj_on (pid_of ?s) (set ths - {t})" using p by (simp add: inj_on_diff)
    moreover have "pid_of ?s ` (set ths - {t}) = pid_of s ` (set ths - {t})" by (rule image_cong) (simp_all add: v(1))
    moreover have "children ?s = pid_of s ` (set ths - {t})"
      using f(4) s C t by (simp add: inj_on_image_set_diff [OF p])
    moreover have "mapped ?s = (\<Union>a \<in> listed ths - {t}. stack_of ?s a)" "fds ?s = (\<Union>a \<in> listed ths - {t}. ends_of ?s a)"
      using M F Union_minus_disjoint [OF D(1), of t] Union_minus_disjoint [OF D(2), of t] t v by (simp_all add: listed_def)
    moreover have "disjoint_family_on (stack_of ?s) (listed ths - {t})" "disjoint_family_on (ends_of ?s) (listed ths - {t})"
      using D v by (auto simp: disjoint_family_on_def)
    ultimately show ?thesis unfolding sth_inv_def L S by simp
  qed
  ultimately show ?thesis by blast
qed

lemma wake_eq: "threads s t = Some c \<Longrightarrow>
    sthread_wake t s = Some (Inr (s\<lparr>wakeups := (wakeups s)(snd (t_pipe c) := wakeups s (snd (t_pipe c)) + 1)\<rparr>))"
  by (simp add: sthread_wake_def thr_def)

lemma sth_inv_exit:
  assumes i: "sth_inv s ths" and t: "t \<in> set ths"
  shows "\<exists>s'. manager_handle os (MSG_THREAD_EXIT t) s = Some (Inr s') \<and> sth_inv s' (remove1 t ths)"
proof -
  have l: "thread_list s ths" using i by (simp add: sth_inv_def)
  obtain c where c: "threads s t = Some c" using thread_list_alloc [OF l] t by blast
  define s1 where "s1 = s\<lparr>wakeups := (wakeups s)(snd (t_pipe c) := wakeups s (snd (t_pipe c)) + 1)\<rparr>"
  let ?s = "s1\<lparr>children := children s1 - {t_pid c}\<rparr>"
  have "mild s s1" by (simp add: mild_def s1_def)
  then have "sth_inv s1 ths" by (rule sth_inv_mild [OF i]) (use i in \<open>simp add: sth_inv_def s1_def\<close>)
  moreover have "?s\<lparr>children := children s1\<rparr> = s1" by simp
  ultimately have "\<exists>s'. thread_dealloc t ?s = Some (Inr s') \<and> sth_inv s' (remove1 t ths)"
    using t c by (intro sth_inv_dealloc [where C = "children s1"]) (simp_all add: pid_of_def s1_def)
  moreover have "manager_handle os (MSG_THREAD_EXIT t) s = thread_dealloc t ?s"
    using c by (simp add: wake_eq thr_def flip: s1_def) (simp add: s1_def)
  ultimately show ?thesis by simp
qed

section \<open>Every life of the library\<close>

text \<open>
  Threads other than the manager create threads, start and end them, suspend themselves and wake others; the manager
  takes away threads that have ended, on their message or when it finds them gone. The block \<open>ss\<close> that a new thread frees is not a thread structure.
\<close>

inductive life_step :: "sthreads \<Rightarrow> sthreads \<Rightarrow> bool" where
  life_create: "calls_ok os nt s \<Longrightarrow> me \<noteq> pid_of s manager_thread \<Longrightarrow>
    sthread_create os (Some nt) junk me mainr s = Some (Inr (r, t, s')) \<Longrightarrow> life_step s s'"
| life_nomem: "sthread_create os None junk me mainr s = Some (Inr (r, t, s')) \<Longrightarrow> life_step s s'"
| life_start: "threads s ss = None \<Longrightarrow> start_thread_enter ss t s = Some (Inr s') \<Longrightarrow> life_step s s'"
| life_leave: "start_thread_leave retval t s = Some (Inr s') \<Longrightarrow> life_step s s'"
| life_suspend: "self_suspend p s = Some (Inr s') \<Longrightarrow> life_step s s'"
| life_wake: "sthread_wake t s = Some (Inr s') \<Longrightarrow> life_step s s'"
| life_exit: "threads s t \<noteq> None \<Longrightarrow> t \<notin> {manager_thread, main_thread} \<Longrightarrow>
    manager_handle os (MSG_THREAD_EXIT t) s = Some (Inr s') \<Longrightarrow> life_step s s'"
| life_reap: "pd \<in> children s \<Longrightarrow> reap_children [(pd, None)] s = Some (Inr (r, s')) \<Longrightarrow> life_step s s'"

lemma find_by_pid:
  assumes "a \<in> set ths" "inj_on (pid_of s) (set ths)" "pid_of s a = me"
  shows "List.find (\<lambda>b. pid_of s b = me) (ths @ rest) = Some a"
proof -
  obtain us vs where ths: "ths = us @ a # vs" "a \<notin> set us" using split_list_first [OF assms(1)] by blast
  have "\<forall>u \<in> set us. pid_of s u \<noteq> me"
  proof
    fix u
    assume "u \<in> set us"
    then show "pid_of s u \<noteq> me" using inj_onD [OF assms(2), of u a] ths assms(3) by auto
  qed
  then show ?thesis using assms(3) unfolding ths(1) by (induction us) simp_all
qed

lemma sth_inv_reap:
  assumes i: "sth_inv s ths" and pd: "pd \<in> children s"
  shows "\<exists>s' ths'. reap_children [(pd, None)] s = Some (Inr (False, s')) \<and> sth_inv s' ths'"
proof -
  let ?s = "s\<lparr>children := children s - {pd}\<rparr>"
  obtain a where a: "a \<in> set ths" "pid_of s a = pd" using i pd by (auto simp: sth_inv_def)
  have l: "thread_list ?s ths" using i by (simp add: sth_inv_def thread_list_def)
  have "List.find (\<lambda>b. pid_of ?s b = pd) (ths @ [manager_thread, main_thread]) = Some a"
    by (rule find_by_pid) (use i a in \<open>simp_all add: sth_inv_def pid_of_def [abs_def]\<close>)
  then have f: "threadlist_findbypid pd ?s = Some (Inr (Some a, ?s))" using threadlist_findbypid_list [OF l, of pd] by simp
  have "?s\<lparr>children := children s\<rparr> = s" by simp
  then obtain s' where "thread_dealloc a ?s = Some (Inr s')" "sth_inv s' (remove1 a ths)"
    using sth_inv_dealloc [where s = ?s and C = "children s" and ths = ths and t = a] i a by (auto simp: pid_of_def)
  with f show ?thesis by auto
qed

lemma life_step_create:
  assumes i: "sth_inv s ths" and ok: "calls_ok os nt s" and me: "me \<noteq> pid_of s manager_thread"
    and r: "sthread_create os (Some nt) junk me mainr s = Some (Inr (r, t, s'))"
  shows "\<exists>ths'. sth_inv s' ths'"
proof -
  have l: "thread_list s ths" using i by (simp add: sth_inv_def)
  show ?thesis
  proof (cases "List.find (\<lambda>b. pid_of s b = me) (ths @ [manager_thread, main_thread])")
    case None
    then have "sthread_self me s = Some (Inr (None, s))"
      using threadlist_findbypid_list [OF l, of me] by (simp add: sthread_self_def)
    with r show ?thesis by (simp add: sthread_create_def Let_def)
  next
    case (Some a)
    note a = self_found(2) [OF l Some]
    have "pid_of s a = me" using Some by (metis (mono_tags, lifting) find_Some_iff)
    with me have nm: "a \<noteq> manager_thread" by blast
    note c = sthread_create_cases [OF l Some nm ok, where junk = junk and mainr = mainr]
    consider "mmap_ret os = None" | k pp ss where "mmap_ret os = Some k" "pipe_ret os = Some pp" "malloc_ret os = Some ss" "clone_ret os \<noteq> - 1"
      | k where "mmap_ret os = Some k" "pipe_ret os = None \<or> malloc_ret os = None \<or> clone_ret os = - 1"
      by (cases "mmap_ret os"; cases "pipe_ret os"; cases "malloc_ret os") blast+
    then show ?thesis
    proof cases
      case 1
      then have s': "s' = after_refusal os a s" using c(1) r by simp
      have "mild s s'" unfolding s' using thread_list_alloc [OF l] a nm by (intro mild_refusal) auto
      with i have "sth_inv s' ths" by (rule sth_inv_mild) (use i in \<open>simp add: s' after_refusal_def sth_inv_def\<close>)
      then show ?thesis ..
    next
      case (2 k pp ss)
      then have s': "s' = after_create os a nt junk mainr s" using c(2) r by simp
      show ?thesis unfolding s' using sth_inv_create [OF i _ ok 2(1-3)] a by (auto simp: listed_def)
    next
      case (3 k)
      then show ?thesis using c(3) r by simp
    qed
  qed
qed

lemma life_step_inv:
  assumes "\<exists>ths. sth_inv s ths" and "life_step s s'"
  shows "\<exists>ths. sth_inv s' ths"
proof -
  from assms(1) obtain ths where i: "sth_inv s ths" by blast
  have mild: "\<exists>ths. sth_inv s' ths" if "mild s s'" "mallocs s' = mallocs s" for s'
    using sth_inv_mild [OF i that(1)] that(2) i by (auto simp: sth_inv_def)
  from assms(2) show ?thesis
  proof cases
    case (life_create os nt me junk mainr r t)
    then show ?thesis by (rule life_step_create [OF i])
  next
    case (life_nomem os junk me mainr r t)
    then have "s' = s"
      using threadlist_findbypid_list [of s ths me] i by (simp add: sthread_create_def sthread_self_def sth_inv_def)
    with i show ?thesis by blast
  next
    case (life_start ss t)
    have "ss \<notin> set ths" using i life_start(1) by (auto simp: sth_inv_def listed_def)
    from life_start(2) have s: "ss \<in> mallocs s" "upd_thr t (\<lambda>c. c\<lparr>t_running := 1\<rparr>) (s\<lparr>mallocs := mallocs s - {ss}\<rparr>) = Some (Inr s')"
      by (auto simp: start_thread_enter_def c_free_def split: if_splits)
    have "mild (s\<lparr>mallocs := mallocs s - {ss}\<rparr>) s'" by (rule mild_upd [OF s(2)]) (simp add: core_of_def)
    then have m: "mild s s'" by (simp add: mild_def)
    have "mallocs s' = mallocs s - {ss}" using s(2) by (cases "threads s t") (auto simp: upd_thr_def thr_def)
    moreover have "set ths \<subseteq> mallocs s" using i by (simp add: sth_inv_def)
    ultimately have "set ths \<subseteq> mallocs s'" using \<open>ss \<notin> set ths\<close> by blast
    with sth_inv_mild [OF i m] show ?thesis by blast
  next
    case (life_leave retval t)
    then have u: "upd_thr t (\<lambda>c. c\<lparr>t_running := 0, t_status := retval\<rparr>) s = Some (Inr s')" by (simp add: start_thread_leave_def)
    have "mild s s'" by (rule mild_upd [OF u]) (simp add: core_of_def)
    moreover have "mallocs s' = mallocs s" using u by (cases "threads s t") (auto simp: upd_thr_def thr_def)
    ultimately show ?thesis by (rule mild)
  next
    case (life_suspend p)
    then show ?thesis
      by (intro mild) (auto simp: self_suspend_def thr_def mild_def Let_def split: option.splits if_splits)
  next
    case (life_wake t)
    then show ?thesis
      by (intro mild) (auto simp: sthread_wake_def thr_def mild_def split: option.splits)
  next
    case (life_exit t os)
    then have "t \<in> set ths" using i by (auto simp: sth_inv_def listed_def)
    from sth_inv_exit [OF i this, of os] life_exit(3) show ?thesis by auto
  next
    case (life_reap pd r)
    from sth_inv_reap [OF i this(1)] life_reap(2) show ?thesis by auto
  qed
qed

interpretation sthread_life: step_invariant life_step "\<lambda>s. \<exists>ths. sth_inv s ths"
  by unfold_locales (rule life_step_inv)

text \<open>The answers of the system to \<open>sthread_init\<close>: two pipes without a common descriptor and a stack.\<close>

definition init_ok :: "(int \<times> int) option \<Rightarrow> create_calls \<Rightarrow> bool" where
  "init_ok pp os \<longleftrightarrow> (\<forall>p \<in> set_option pp. \<forall>q \<in> set_option (pipe_ret os). {fst p, snd p} \<inter> {fst q, snd q} = {})"

lemma sthread_init_inv:
  assumes "init_ok pp os" "sthread_init me pp os sthread_static = Some (Inr (0, s))"
  shows "sth_inv s []"
proof -
  obtain p where p: "pp = Some p"
    using assms(2) by (cases pp) (simp_all add: sthread_init_def init_main_thread_def thr_op_defs sthread_static_def Let_def)
  obtain k where k: "mmap_ret os = Some k"
    using assms(2) p by (cases "mmap_ret os")
      (simp_all add: sthread_init_def init_main_thread_def init_manager_thread_def thr_op_defs sthread_static_def Let_def)
  obtain q where q: "pipe_ret os = Some q"
    using assms(2) p k by (cases "pipe_ret os")
      (simp_all add: sthread_init_def init_main_thread_def init_manager_thread_def thr_op_defs sthread_static_def Let_def)
  have c: "clone_ret os \<noteq> - 1"
    using assms(2) p k q
    by (auto simp: sthread_init_def init_main_thread_def init_manager_thread_def thr_op_defs sthread_static_def Let_def)
  have d: "{fst p, snd p} \<inter> {fst q, snd q} = {}" using assms(1) p q by (simp add: init_ok_def)
  have s: "s = sthread_static\<lparr>threads := (threads sthread_static)
      (main_thread \<mapsto> (the (threads sthread_static main_thread))\<lparr>t_pid := me, t_pipe := p\<rparr>,
       manager_thread \<mapsto> (the (threads sthread_static manager_thread))\<lparr>t_main := 0, t_running := 1, t_status := 0,
          t_stacksize := UTIL_STACK_SIZE, t_stack := Some k, t_pipe := q, t_pid := clone_ret os\<rparr>),
      mapped := {k}, fds := {fst q, snd q} \<union> {fst p, snd p}\<rparr>"
    using assms(2) p k q c
    by (auto simp: sthread_init_def init_main_thread_def init_manager_thread_def thr_op_defs sthread_static_def Let_def fun_upd_twist)
  have v: "stack_of s main_thread = {}" "stack_of s manager_thread = {k}" "ends_of s main_thread = {fst p, snd p}"
    "ends_of s manager_thread = {fst q, snd q}" "dom (threads s) = {manager_thread, main_thread}"
    by (auto simp: s stack_of_def ends_of_def sthread_static_def Let_def)
  have "thread_list s []" by (simp add: s thread_list_def nxt_thr_def sthread_static_def Let_def)
  moreover have "disjoint_family_on (stack_of s) {manager_thread, main_thread}" "disjoint_family_on (ends_of s) {manager_thread, main_thread}"
    using d v by (auto simp: disjoint_family_on_def)
  moreover have "children s = {}" "mapped s = {k}" "fds s = {fst q, snd q} \<union> {fst p, snd p}" by (simp_all add: s sthread_static_def Let_def)
  ultimately show ?thesis using v by (simp add: sth_inv_def listed_def)
qed



lemma kill_others_chain:
  "chain (nxt_thr (threads s)) p as None \<Longrightarrow> \<exists>sg. kill_others t p s = Some (Inr (s\<lparr>signals := sg\<rparr>))"
proof (induction as arbitrary: p s)
  case Nil
  then show ?case by (subst kill_others.simps) (auto intro: exI [of _ "signals s"])
next
  case (Cons a as)
  then obtain c where c: "p = Some a" "threads s a = Some c" "chain (nxt_thr (threads s)) (t_next c) as None"
    by (auto simp: nxt_thr_Some)
  let ?s = "if a \<noteq> manager_thread \<and> a \<noteq> t then s\<lparr>signals := signals s @ [(t_pid c, SIGUSR2)]\<rparr> else s"
  have "kill_others t p s = kill_others t (t_next c) ?s" using c by (subst kill_others.simps) simp
  moreover have "chain (nxt_thr (threads ?s)) (t_next c) as None" using c(3) by simp
  from Cons.IH [OF this] obtain sg where "kill_others t (t_next c) ?s = Some (Inr (?s\<lparr>signals := sg\<rparr>))" by blast
  ultimately show ?case by (intro exI [of _ sg]) simp
qed

lemma dealloc_others_faults:
  assumes i: "sth_inv s ths" and a: "a \<in> set ths" and "a \<noteq> t"
  shows "dealloc_others t (Some a) s = Some (Inl UseAfterFree)"
proof -
  have l: "thread_list s ths" using i by (simp add: sth_inv_def)
  obtain c where c: "threads s a = Some c" using thread_list_alloc [OF l] a by blast
  have am: "a \<noteq> manager_thread" "a \<noteq> main_thread" using thread_list_distinct [OF l] a by auto
  let ?s = "s\<lparr>children := children s - {t_pid c}\<rparr>"
  have "?s\<lparr>children := children s\<rparr> = s" by simp
  then obtain s' where s': "thread_dealloc a ?s = Some (Inr s')" "sth_inv s' (remove1 a ths)"
    using sth_inv_dealloc [where s = ?s and C = "children s" and ths = ths and t = a] i a c by (auto simp: pid_of_def)
  have "threads s' a = None"
    using s'(2) thread_list_distinct [OF l] am by (auto simp: sth_inv_def listed_def domIff set_eq_iff)
  with s'(1) c am assms(3) show ?thesis by (subst dealloc_others.simps) (auto simp: thr_def)
qed

text \<open>
  Ending the program while other threads exist makes the manager read the structure of a thread after it has freed it:
  the loop over the list goes on from \<open>p->next\<close> after \<open>thread_dealloc (p)\<close>.
\<close>
theorem all_exit_use_after_free:
  assumes "sth_inv s ths" and "ths \<noteq> []"
  shows "manager_handle os (MSG_ALL_EXIT main_thread) s = Some (Inl UseAfterFree)"
proof -
  have l: "thread_list s ths" using assms(1) by (simp add: sth_inv_def)
  obtain a as where ths: "ths = a # as" using assms(2) by (cases ths) auto
  have ch: "chain (nxt_thr (threads s)) (list_hd s) (ths @ [manager_thread, main_thread]) None" using l by (simp add: thread_list_def)
  then have hd: "list_hd s = Some a" by (simp add: ths)
  obtain c where c: "threads s main_thread = Some c" using thread_list_alloc [OF l] by blast
  define s1 where "s1 = s\<lparr>wakeups := (wakeups s)(snd (t_pipe c) := wakeups s (snd (t_pipe c)) + 1)\<rparr>"
  obtain sg where k: "kill_others main_thread (list_hd s1) s1 = Some (Inr (s1\<lparr>signals := sg\<rparr>))"
    using kill_others_chain [of s1 "list_hd s1"] ch by (auto simp: s1_def)
  have "mild s (s1\<lparr>signals := sg\<rparr>)" by (simp add: mild_def s1_def)
  then have "sth_inv (s1\<lparr>signals := sg\<rparr>) ths"
    by (rule sth_inv_mild [OF assms(1)]) (use assms(1) in \<open>simp add: sth_inv_def s1_def\<close>)
  moreover have "a \<noteq> main_thread" using thread_list_distinct [OF l] ths by auto
  ultimately have "dealloc_others main_thread (Some a) (s1\<lparr>signals := sg\<rparr>) = Some (Inl UseAfterFree)"
    using ths by (intro dealloc_others_faults) auto
  then show ?thesis using c k hd by (simp add: wake_eq flip: s1_def) (simp add: s1_def)
qed

section \<open>Witnesses\<close>

definition os_ok :: "addr \<Rightarrow> int \<Rightarrow> create_calls" where
  "os_ok k n = \<lparr>mmap_ret = Some k, pipe_ret = Some (n, n + 1), malloc_ret = Some (k + 1), clone_ret = n + 100, errno_ret = 0\<rparr>"

definition junk0 :: sthread_struct where
  "junk0 = \<lparr>t_pid = 7, t_main = 0, t_running = 0, t_status = 0, t_err = 0, t_pipe = (0, 0), t_stacksize = 0, t_stack = None, t_next = None\<rparr>"

definition sth0 :: sthreads where
  "sth0 = projr (map_sum id snd (the (sthread_init 10 (Some (3, 4)) (os_ok 100 5) sthread_static)))"

lemma sthread_init_eq:
  "sthread_init 10 (Some (3, 4)) (os_ok 100 5) sthread_static = Some (Inr (0, sth0))"
  "threads sth0 main_thread = Some \<lparr>t_pid = 10, t_main = 0, t_running = 1, t_status = 0, t_err = 0, t_pipe = (3, 4),
     t_stacksize = 0, t_stack = None, t_next = None\<rparr>"
  "threads sth0 manager_thread = Some \<lparr>t_pid = 105, t_main = 0, t_running = 1, t_status = 0, t_err = 0, t_pipe = (5, 6),
     t_stacksize = UTIL_STACK_SIZE, t_stack = Some 100, t_next = Some main_thread\<rparr>"
  "mallocs sth0 = {}"
  by (simp_all add: sth0_def sthread_init_def init_main_thread_def init_manager_thread_def thr_op_defs sthread_static_def os_ok_def Let_def)

lemma init_ok0: "init_ok (Some (3, 4)) (os_ok 100 5)"
  by (simp add: init_ok_def os_ok_def)

lemmas sth0_inv = sthread_init_inv [OF init_ok0 sthread_init_eq(1)]

definition sth1 :: sthreads where
  "sth1 = after_create (os_ok 200 7) main_thread 50 junk0 0 sth0"

lemma sth0_sets: "mapped sth0 = {100}" "fds sth0 = {3, 4, 5, 6}" "children sth0 = {}" "dom (threads sth0) = {manager_thread, main_thread}"
  using sth0_inv by (auto simp: sth_inv_def listed_def stack_of_def ends_of_def sthread_init_eq)

lemma calls_ok0: "calls_ok (os_ok 200 7) 50 sth0"
proof -
  have "threads sth0 50 = None" "threads sth0 201 = None"
    using sth0_sets(4) domIff [of 50 "threads sth0"] domIff [of 201 "threads sth0"] by (simp_all add: manager_thread_def main_thread_def)
  then show ?thesis using sth0_sets sthread_init_eq(4) by (simp add: calls_ok_def os_ok_def)
qed

lemma sth1_inv: "sth_inv sth1 [50]"
  unfolding sth1_def
  by (rule sth_inv_create [OF sth0_inv _ calls_ok0]) (simp_all add: listed_def os_ok_def)

lemma sth1_step: "life_step sth0 sth1"
proof -
  have l: "thread_list sth0 []" using sth0_inv by (simp add: sth_inv_def)
  have f: "List.find (\<lambda>b. pid_of sth0 b = 10) ([] @ [manager_thread, main_thread]) = Some main_thread"
    by (simp add: pid_of_def sthread_init_eq)
  have "sthread_create (os_ok 200 7) (Some 50) junk0 10 0 sth0 = Some (Inr (0, Some 50, sth1))"
    unfolding sth1_def by (rule sthread_create_cases(2) [OF l f _ calls_ok0]) (simp_all add: os_ok_def)
  then show ?thesis by (rule life_create [OF calls_ok0, rotated]) (simp add: pid_of_def sthread_init_eq)
qed



theorem all_exit_use_after_free_witness:
  "manager_handle (os_ok 300 9) (MSG_ALL_EXIT main_thread) sth1 = Some (Inl UseAfterFree)"
  by (rule all_exit_use_after_free [OF sth1_inv]) simp

theorem threadlist_refines_sequence_witness:
  "\<exists>s'. threadlist_del 50 (sth1\<lparr>threads := (threads sth1)(60 \<mapsto> junk0)\<rparr>) = Some (Inr (0, s')) \<and> thread_list s' []"
proof -
  let ?s = "sth1\<lparr>threads := (threads sth1)(60 \<mapsto> junk0)\<rparr>"
  have n: "60 \<notin> {50, manager_thread, main_thread}" by (simp add: manager_thread_def main_thread_def)
  have "chain (nxt_thr (threads ?s)) (list_hd sth1) [50, manager_thread, main_thread] None"
    using sth1_inv n by (subst chain_cong [of _ _ "nxt_thr (threads sth1)"]) (auto simp: sth_inv_def thread_list_def nxt_thr_def)
  then have t: "thread_list ?s [50]" using sth1_inv by (simp add: sth_inv_def thread_list_def)
  have p: "50 \<in> set [50 :: addr]" "inj_on (pid_of ?s) (set [50])" "threads ?s 60 \<noteq> None" "60 \<notin> set [50] \<union> {manager_thread, main_thread}"
    using n by simp_all
  from conjunct1 [OF conjunct2 [OF threadlist_refines_sequence [OF t p]]] show ?thesis by auto
qed

end
