(* ===== verification/Completion.thy ===== *)
theory Completion
  imports Transition
begin

unbundle bit_operations_syntax

text \<open>
  Wait queues and completions (\<open>hw4/kernel/sched/core.c\<close>): the wake-up loop over a wait queue, \<open>complete\<close>,
  \<open>complete_all\<close> and the family of \<open>wait_for_completion\<close>.

  Every operation holds the lock of the wait queue except while a waiting task sleeps in
  \<open>schedule_timeout\<close>, so a wait is modelled by the two stretches of code around the sleep: \<open>wait_enter\<close> up to the
  sleep and \<open>wait_resume\<close> after it. \<open>schedule_timeout\<close> returns when the task is runnable again, with the time that is
  left. Waking a task is \<open>try_to_wake_up\<close> reduced to what these loops observe, the state of the task.
\<close>

section \<open>The operations\<close>

definition TASK_RUNNING :: u32 where "TASK_RUNNING = 0"
definition TASK_INTERRUPTIBLE :: u32 where "TASK_INTERRUPTIBLE = 1"
definition TASK_UNINTERRUPTIBLE :: u32 where "TASK_UNINTERRUPTIBLE = 2"
definition TASK_WAKEKILL :: u32 where "TASK_WAKEKILL = 128"
definition TASK_KILLABLE :: u32 where "TASK_KILLABLE = TASK_WAKEKILL OR TASK_UNINTERRUPTIBLE"
definition TASK_NORMAL :: u32 where "TASK_NORMAL = TASK_INTERRUPTIBLE OR TASK_UNINTERRUPTIBLE"
definition MAX_SCHEDULE_TIMEOUT :: int where "MAX_SCHEDULE_TIMEOUT = 2 ^ 31 - 1"
definition ERESTARTSYS :: int where "ERESTARTSYS = 512"

lemmas task_state_defs = TASK_RUNNING_def TASK_INTERRUPTIBLE_def TASK_UNINTERRUPTIBLE_def TASK_WAKEKILL_def
  TASK_KILLABLE_def TASK_NORMAL_def

type_synonym task = nat

text \<open>The entries of a wait queue are a task and the flag \<open>WQ_FLAG_EXCLUSIVE\<close>.\<close>

record completion =
  done_count :: u32
  wait_list :: "(task \<times> bool) list"
  task_state :: "task \<Rightarrow> u32"

definition default_wake_function :: "u32 \<Rightarrow> task \<Rightarrow> (task \<Rightarrow> u32) \<Rightarrow> bool \<times> (task \<Rightarrow> u32)" where
  "default_wake_function mode t st =
    (if st t AND mode = 0 then (False, st) else (True, st(t := TASK_RUNNING)))"

fun wake_up_common :: "(task \<times> bool) list \<Rightarrow> u32 \<Rightarrow> int \<Rightarrow> (task \<Rightarrow> u32) \<Rightarrow> task \<Rightarrow> u32" where
  "wake_up_common [] mode nr_exclusive st = st"
| "wake_up_common ((t, excl) # q) mode nr_exclusive st =
    (let (woken, st) = default_wake_function mode t st
     in if woken \<and> excl
        then (if nr_exclusive - 1 = 0 then st else wake_up_common q mode (nr_exclusive - 1) st)
        else wake_up_common q mode nr_exclusive st)"

definition wake_up :: "u32 \<Rightarrow> int \<Rightarrow> completion \<Rightarrow> completion" where
  "wake_up mode nr_exclusive x = x\<lparr>task_state := wake_up_common (wait_list x) mode nr_exclusive (task_state x)\<rparr>"

definition complete :: "completion \<Rightarrow> completion" where
  "complete x = wake_up TASK_NORMAL 1 (x\<lparr>done_count := done_count x + 1\<rparr>)"

definition complete_all :: "completion \<Rightarrow> completion" where
  "complete_all x = wake_up TASK_NORMAL 0 (x\<lparr>done_count := done_count x + 0xFFFFFFFF div 2\<rparr>)"

record sigs =
  sig_pending :: bool
  sig_fatal :: bool

definition signal_pending_state :: "u32 \<Rightarrow> sigs \<Rightarrow> bool" where
  "signal_pending_state state g =
    (if state AND (TASK_INTERRUPTIBLE OR TASK_WAKEKILL) = 0 then False
     else if \<not> sig_pending g then False
     else state AND TASK_INTERRUPTIBLE \<noteq> 0 \<or> sig_fatal g)"

text \<open>The last lines of \<open>do_wait_for_common\<close>: one completion is consumed.\<close>

definition wait_take :: "int \<Rightarrow> completion \<Rightarrow> int option \<times> completion" where
  "wait_take timeout x = (Some (if timeout = 0 then 1 else timeout), x\<lparr>done_count := done_count x - 1\<rparr>)"

definition wait_leave :: "task \<Rightarrow> int \<Rightarrow> completion \<Rightarrow> int option \<times> completion" where
  "wait_leave t timeout x =
    (let x = x\<lparr>wait_list := filter (\<lambda>e. fst e \<noteq> t) (wait_list x)\<rparr>
     in if done_count x = 0 then (Some timeout, x) else wait_take timeout x)"

text \<open>The loop body up to the sleep, which is the result \<open>None\<close>.\<close>

definition wait_body :: "task \<Rightarrow> sigs \<Rightarrow> u32 \<Rightarrow> completion \<Rightarrow> int option \<times> completion" where
  "wait_body t g state x =
    (if signal_pending_state state g then wait_leave t (- ERESTARTSYS) x
     else (None, x\<lparr>task_state := (task_state x)(t := state)\<rparr>))"

definition wait_enter :: "task \<Rightarrow> sigs \<Rightarrow> u32 \<Rightarrow> int \<Rightarrow> completion \<Rightarrow> int option \<times> completion" where
  "wait_enter t g state timeout x =
    (if done_count x = 0 then wait_body t g state (x\<lparr>wait_list := wait_list x @ [(t, True)]\<rparr>)
     else wait_take timeout x)"

definition wait_resume :: "task \<Rightarrow> sigs \<Rightarrow> u32 \<Rightarrow> int \<Rightarrow> completion \<Rightarrow> int option \<times> completion" where
  "wait_resume t g state timeout x =
    (if done_count x = 0 \<and> timeout \<noteq> 0 then wait_body t g state x else wait_leave t timeout x)"

text \<open>The return value of the variants without a timeout.\<close>

definition wait_result :: "int \<Rightarrow> int" where
  "wait_result t = (if t = - ERESTARTSYS then t else 0)"

definition try_wait_for_completion :: "completion \<Rightarrow> bool \<times> completion" where
  "try_wait_for_completion x =
    (if done_count x = 0 then (False, x) else (True, x\<lparr>done_count := done_count x - 1\<rparr>))"

definition completion_done :: "completion \<Rightarrow> bool" where
  "completion_done x \<longleftrightarrow> done_count x \<noteq> 0"

definition init_completion :: "(task \<Rightarrow> u32) \<Rightarrow> completion" where
  "init_completion st = \<lparr>done_count = 0, wait_list = [], task_state = st\<rparr>"

section \<open>Tasks that wait\<close>

text \<open>
  \<open>waiting t\<close> is the state and the timeout of a task that sleeps in a wait; \<open>completed\<close> and \<open>consumed\<close> count the
  completions that were signalled and those that a wait or a try consumed. A sleeping task can
  become runnable at any time, by its timer, a signal or another wake-up; \<open>c_wake\<close> covers them all. A completion is
  signalled only while the counter cannot overflow.
\<close>

record csys =
  comp :: completion
  waiting :: "task \<Rightarrow> (u32 \<times> int) option"
  completed :: nat
  consumed :: nat

definition wait_states :: "u32 set" where
  "wait_states = {TASK_INTERRUPTIBLE, TASK_UNINTERRUPTIBLE, TASK_KILLABLE}"

fun wait_effect :: "task \<Rightarrow> u32 \<Rightarrow> int \<Rightarrow> int option \<times> completion \<Rightarrow> csys \<Rightarrow> csys" where
  "wait_effect t state timeout (None, x) s = s\<lparr>comp := x, waiting := (waiting s)(t \<mapsto> (state, timeout))\<rparr>"
| "wait_effect t state timeout (Some r, x) s =
    s\<lparr>comp := x, waiting := (waiting s)(t := None), consumed := consumed s + (if 0 < r then 1 else 0)\<rparr>"

inductive comp_step :: "csys \<Rightarrow> csys \<Rightarrow> bool" where
  c_enter: "waiting s t = None \<Longrightarrow> state \<in> wait_states \<Longrightarrow> 0 \<le> timeout \<Longrightarrow>
    comp_step s (wait_effect t state timeout (wait_enter t g state timeout (comp s)) s)"
| c_resume: "waiting s t = Some (state, timeout) \<Longrightarrow> task_state (comp s) t = TASK_RUNNING \<Longrightarrow> 0 \<le> timeout' \<Longrightarrow> timeout' \<le> timeout \<Longrightarrow>
    comp_step s (wait_effect t state timeout' (wait_resume t g state timeout' (comp s)) s)"
| c_wake: "waiting s t \<noteq> None \<Longrightarrow>
    comp_step s (s\<lparr>comp := (comp s)\<lparr>task_state := (task_state (comp s))(t := TASK_RUNNING)\<rparr>\<rparr>)"
| c_complete: "unat (done_count (comp s)) + 1 < 2 ^ 32 \<Longrightarrow>
    comp_step s (s\<lparr>comp := complete (comp s), completed := completed s + 1\<rparr>)"
| c_complete_all: "unat (done_count (comp s)) + (2 ^ 32 - 1) div 2 < 2 ^ 32 \<Longrightarrow>
    comp_step s (s\<lparr>comp := complete_all (comp s), completed := completed s + (2 ^ 32 - 1) div 2\<rparr>)"
| c_try: "try_wait_for_completion (comp s) = (r, x) \<Longrightarrow>
    comp_step s (s\<lparr>comp := x, consumed := consumed s + (if r then 1 else 0)\<rparr>)"

definition comp_start :: "(task \<Rightarrow> u32) \<Rightarrow> csys" where
  "comp_start st = \<lparr>comp = init_completion st, waiting = (\<lambda>_. None), completed = 0, consumed = 0\<rparr>"

section \<open>Wake-ups\<close>

definition queued :: "completion \<Rightarrow> task set" where
  "queued x = fst ` set (wait_list x)"

definition awake :: "completion \<Rightarrow> task set" where
  "awake x = {t \<in> queued x. task_state x t = TASK_RUNNING}"

lemma queued_simps [simp]:
  "queued (x\<lparr>done_count := d\<rparr>) = queued x" "queued (x\<lparr>task_state := f\<rparr>) = queued x"
  "awake (x\<lparr>done_count := d\<rparr>) = awake x"
  by (simp_all add: queued_def awake_def)

lemma finite_awake [simp]: "finite (awake x)"
  by (simp add: awake_def queued_def)

lemma wake_up_common_one:
  "list_all snd q \<Longrightarrow> wake_up_common q mode 1 st =
    (case List.find (\<lambda>t. st t AND mode \<noteq> 0) (map fst q) of None \<Rightarrow> st | Some t \<Rightarrow> st(t := TASK_RUNNING))"
  by (induction q) (auto simp: default_wake_function_def)

lemma wake_up_common_all:
  assumes "n \<le> 0"
  shows "wake_up_common q mode n st = (\<lambda>t. if t \<in> fst ` set q \<and> st t AND mode \<noteq> 0 then TASK_RUNNING else st t)"
  using assms
proof (induction q arbitrary: n st)
  case (Cons e q)
  obtain t excl where e: "e = (t, excl)" by fastforce
  have "n - 1 \<noteq> 0" "n - 1 \<le> 0" using Cons.prems by auto
  with Cons.IH [of "n - 1"] Cons.IH [of n] Cons.prems show ?case
    by (intro ext) (auto simp: e default_wake_function_def TASK_RUNNING_def)
qed simp

section \<open>The invariant\<close>

definition comp_inv :: "csys \<Rightarrow> bool" where
  "comp_inv s \<longleftrightarrow> distinct (map fst (wait_list (comp s))) \<and> list_all snd (wait_list (comp s))
     \<and> queued (comp s) = {t. waiting s t \<noteq> None}
     \<and> (\<forall>t \<in> queued (comp s). task_state (comp s) t = TASK_RUNNING \<or> task_state (comp s) t AND TASK_NORMAL \<noteq> 0)
     \<and> (\<forall>t st n. waiting s t = Some (st, n) \<longrightarrow> st \<in> wait_states)
     \<and> (unat (done_count (comp s)) \<le> card (awake (comp s)) \<or> awake (comp s) = queued (comp s))
     \<and> completed s = consumed s + unat (done_count (comp s))"

lemma wait_states_normal: "st \<in> wait_states \<Longrightarrow> st AND TASK_NORMAL \<noteq> 0"
  by (auto simp: wait_states_def task_state_defs)

lemma unat_dec: "(d :: u32) \<noteq> 0 \<Longrightarrow> unat (d - 1) = unat d - 1"
  by (simp add: unat_minus_one)

lemma comp_inv_take:
  assumes "comp_inv s" "done_count (comp s) \<noteq> 0"
  shows "comp_inv (s\<lparr>comp := (comp s)\<lparr>done_count := done_count (comp s) - 1\<rparr>, consumed := consumed s + 1\<rparr>)"
  using assms unat_gt_0 [of "done_count (comp s)"] by (auto simp: comp_inv_def unat_dec)

lemma comp_inv_same: "comp_inv s \<Longrightarrow> comp_inv (s\<lparr>comp := comp s\<rparr>)"
  by simp

lemma comp_inv_enter:
  assumes i: "comp_inv s" and t: "waiting s t = None" and st: "state \<in> wait_states" and n: "0 \<le> timeout"
  shows "comp_inv (wait_effect t state timeout (wait_enter t g state timeout (comp s)) s)"
proof (cases "done_count (comp s) = 0")
  case False
  have "(waiting s)(t := None) = waiting s" using t by (simp add: fun_upd_idem)
  with comp_inv_take [OF i False] False n show ?thesis by (auto simp: wait_enter_def wait_take_def)
next
  case True
  have nq: "t \<notin> queued (comp s)" using i t by (simp add: comp_inv_def)
  then have f: "filter (\<lambda>e. fst e \<noteq> t) (wait_list (comp s)) = wait_list (comp s)"
    by (auto simp: queued_def filter_id_conv)
  show ?thesis
  proof (cases "signal_pending_state state g")
    case sig: True
    have "(waiting s)(t := None) = waiting s" using t by (simp add: fun_upd_idem)
    with i True sig f show ?thesis by (simp add: wait_enter_def wait_body_def wait_leave_def ERESTARTSYS_def)
  next
    case False
    let ?x = "(comp s)\<lparr>wait_list := wait_list (comp s) @ [(t, True)], task_state := (task_state (comp s))(t := state)\<rparr>"
    have e: "wait_effect t state timeout (wait_enter t g state timeout (comp s)) s
      = s\<lparr>comp := ?x, waiting := (waiting s)(t \<mapsto> (state, timeout))\<rparr>"
      using True False by (simp add: wait_enter_def wait_body_def)
    have q: "queued ?x = insert t (queued (comp s))" by (simp add: queued_def)
    have d: "distinct (map fst (wait_list ?x))" "list_all snd (wait_list ?x)"
      using i nq by (auto simp: comp_inv_def queued_def)
    have S: "\<forall>u \<in> queued ?x. task_state ?x u = TASK_RUNNING \<or> task_state ?x u AND TASK_NORMAL \<noteq> 0"
      using i st unfolding q by (simp add: comp_inv_def wait_states_normal)
    have W: "\<forall>u v n. ((waiting s)(t \<mapsto> (state, timeout))) u = Some (v, n) \<longrightarrow> v \<in> wait_states"
      using i st by (simp add: comp_inv_def)
    have Q: "queued ?x = {u. ((waiting s)(t \<mapsto> (state, timeout))) u \<noteq> None}" using i unfolding q comp_inv_def by auto
    show ?thesis unfolding e comp_inv_def using d S W Q i True by (simp add: comp_inv_def)
  qed
qed

lemma comp_inv_leave:
  assumes i: "comp_inv s" and w: "waiting s t = Some (state, timeout)" and r: "task_state (comp s) t = TASK_RUNNING"
    and n: "done_count (comp s) = 0 \<Longrightarrow> n \<le> 0" "done_count (comp s) \<noteq> 0 \<Longrightarrow> 0 \<le> n"
  shows "comp_inv (wait_effect t state m (wait_leave t n (comp s)) s)"
proof -
  let ?q = "filter (\<lambda>e. fst e \<noteq> t) (wait_list (comp s))"
  define s1 where "s1 = s\<lparr>comp := (comp s)\<lparr>wait_list := ?q\<rparr>, waiting := (waiting s)(t := None)\<rparr>"
  have q: "queued (comp s1) = queued (comp s) - {t}" "awake (comp s1) = awake (comp s) - {t}" by (auto simp: s1_def queued_def awake_def)
  have t: "t \<in> awake (comp s)" using i w r by (auto simp: comp_inv_def awake_def)
  have D: "done_count (comp s1) = done_count (comp s)" by (simp add: s1_def)
  have base: "distinct (map fst ?q)" "list_all snd ?q" using i by (auto simp: comp_inv_def distinct_map_filter list_all_iff)
  show ?thesis
  proof (cases "done_count (comp s) = 0")
    case True
    then have "comp_inv s1" using i base q by (auto simp: comp_inv_def s1_def)
    with True n(1) show ?thesis by (simp add: wait_leave_def s1_def Let_def)
  next
    case False
    have "card (awake (comp s1)) = card (awake (comp s)) - 1" using q(2) t by simp
    then have a: "unat (done_count (comp s) - 1) \<le> card (awake (comp s1)) \<or> awake (comp s1) = queued (comp s1)"
      using i q by (auto simp: comp_inv_def unat_dec [OF False])
    have "0 < unat (done_count (comp s))" using False by (simp add: unat_gt_0)
    then have "comp_inv (s\<lparr>comp := (comp s)\<lparr>wait_list := ?q, done_count := done_count (comp s) - 1\<rparr>,
        waiting := (waiting s)(t := None), consumed := consumed s + 1\<rparr>)"
      using i base q a unfolding comp_inv_def by (auto simp: s1_def unat_dec [OF False])
    with False n(2) show ?thesis by (auto simp: wait_leave_def wait_take_def Let_def)
  qed
qed

lemma comp_inv_resume:
  assumes i: "comp_inv s" and w: "waiting s t = Some (state, timeout)" and r: "task_state (comp s) t = TASK_RUNNING" and n: "0 \<le> n"
  shows "comp_inv (wait_effect t state n (wait_resume t g state n (comp s)) s)"
proof (cases "done_count (comp s) = 0 \<and> n \<noteq> 0")
  case False
  then show ?thesis using comp_inv_leave [OF i w r, of n n] n by (auto simp: wait_resume_def)
next
  case True
  show ?thesis
  proof (cases "signal_pending_state state g")
    case sig: True
    with True show ?thesis
      using comp_inv_leave [OF i w r, of "- ERESTARTSYS" n] by (auto simp: wait_resume_def wait_body_def ERESTARTSYS_def)
  next
    case False
    let ?x = "(comp s)\<lparr>task_state := (task_state (comp s))(t := state)\<rparr>"
    have "state \<in> wait_states" using i w by (simp add: comp_inv_def) blast
    then have "\<forall>u \<in> queued ?x. task_state ?x u = TASK_RUNNING \<or> task_state ?x u AND TASK_NORMAL \<noteq> 0"
      using i by (simp add: comp_inv_def wait_states_normal)
    moreover have "{u. ((waiting s)(t \<mapsto> (state, n))) u \<noteq> None} = {u. waiting s u \<noteq> None}" using w by auto
    moreover have "\<forall>u v m. ((waiting s)(t \<mapsto> (state, n))) u = Some (v, m) \<longrightarrow> v \<in> wait_states"
      using i \<open>state \<in> wait_states\<close> by (simp add: comp_inv_def)
    ultimately have "comp_inv (s\<lparr>comp := ?x, waiting := (waiting s)(t \<mapsto> (state, n))\<rparr>)"
      using i True by (simp add: comp_inv_def)
    with True False show ?thesis by (simp add: wait_resume_def wait_body_def)
  qed
qed

text \<open>What a set of wake-ups, one or many, does to the invariant.\<close>

lemma comp_inv_woken:
  assumes i: "comp_inv s" and st: "\<And>t. st t = task_state (comp s) t \<or> st t = TASK_RUNNING"
    and d: "completed s + k = consumed s + unat d"
    and a: "unat d \<le> card {t \<in> queued (comp s). st t = TASK_RUNNING} \<or> (\<forall>t \<in> queued (comp s). st t = TASK_RUNNING)"
  shows "comp_inv (s\<lparr>comp := (comp s)\<lparr>done_count := d, task_state := st\<rparr>, completed := completed s + k\<rparr>)"
proof -
  let ?x = "(comp s)\<lparr>done_count := d, task_state := st\<rparr>"
  have "awake ?x = {t \<in> queued (comp s). st t = TASK_RUNNING}" by (simp add: awake_def)
  moreover have "\<forall>t \<in> queued (comp s). st t = TASK_RUNNING \<or> st t AND TASK_NORMAL \<noteq> 0"
  proof
    fix t
    assume "t \<in> queued (comp s)"
    then show "st t = TASK_RUNNING \<or> st t AND TASK_NORMAL \<noteq> 0" using i st [of t] by (auto simp: comp_inv_def)
  qed
  ultimately show ?thesis using i d a unfolding comp_inv_def by auto
qed

lemma asleep_normal: "comp_inv s \<Longrightarrow> t \<in> queued (comp s) \<Longrightarrow> task_state (comp s) t AND TASK_NORMAL = 0 \<longleftrightarrow> task_state (comp s) t = TASK_RUNNING"
  by (auto simp: comp_inv_def TASK_RUNNING_def)

lemma comp_inv_complete:
  assumes i: "comp_inv s" and u: "unat (done_count (comp s)) + 1 < 2 ^ 32"
  shows "comp_inv (s\<lparr>comp := complete (comp s), completed := completed s + 1\<rparr>)"
proof -
  define st where "st = wake_up_common (wait_list (comp s)) TASK_NORMAL 1 (task_state (comp s))"
  let ?P = "\<lambda>t. task_state (comp s) t AND TASK_NORMAL \<noteq> 0" and ?q = "map fst (wait_list (comp s))"
  have l: "list_all snd (wait_list (comp s))" using i by (simp add: comp_inv_def)
  have st': "st = (case List.find ?P ?q of None \<Rightarrow> task_state (comp s) | Some t \<Rightarrow> (task_state (comp s))(t := TASK_RUNNING))"
    unfolding st_def by (rule wake_up_common_one [OF l])
  have d: "unat (done_count (comp s) + 1) = unat (done_count (comp s)) + 1" using u by (simp add: unat_add_small)
  have c: "complete (comp s) = (comp s)\<lparr>done_count := done_count (comp s) + 1, task_state := st\<rparr>"
    by (simp add: complete_def wake_up_def st_def)
  have qs: "set ?q = queued (comp s)" by (simp add: queued_def)
  show ?thesis unfolding c
  proof (rule comp_inv_woken [OF i])
    show "st t = task_state (comp s) t \<or> st t = TASK_RUNNING" for t by (auto simp: st' split: option.splits)
    show "completed s + 1 = consumed s + unat (done_count (comp s) + 1)" using i d by (simp add: comp_inv_def)
    show "unat (done_count (comp s) + 1) \<le> card {t \<in> queued (comp s). st t = TASK_RUNNING} \<or> (\<forall>t \<in> queued (comp s). st t = TASK_RUNNING)"
    proof (cases "List.find ?P ?q")
      case None
      then have "\<forall>t \<in> queued (comp s). \<not> ?P t" unfolding find_None_iff qs by blast
      then show ?thesis using asleep_normal [OF i] None by (auto simp: st')
    next
      case (Some t)
      then obtain j where "j < length ?q" "?P (?q ! j)" "t = ?q ! j" unfolding find_Some_iff by blast
      then have t: "t \<in> queued (comp s)" "?P t" unfolding qs [symmetric] using nth_mem [of j ?q] by simp_all
      have "{u \<in> queued (comp s). st u = TASK_RUNNING} = insert t (awake (comp s))" using t Some by (auto simp: st' awake_def)
      moreover have "t \<notin> awake (comp s)" using t by (auto simp: awake_def TASK_RUNNING_def)
      ultimately have "card {u \<in> queued (comp s). st u = TASK_RUNNING} = card (awake (comp s)) + 1" by simp
      moreover have "{u \<in> queued (comp s). st u = TASK_RUNNING} = queued (comp s)" if "awake (comp s) = queued (comp s)"
        using that \<open>_ = insert t (awake (comp s))\<close> t(1) by auto
      ultimately show ?thesis using i d by (auto simp: comp_inv_def)
    qed
  qed
qed

lemma comp_inv_complete_all:
  assumes i: "comp_inv s" and u: "unat (done_count (comp s)) + (2 ^ 32 - 1) div 2 < 2 ^ 32"
  shows "comp_inv (s\<lparr>comp := complete_all (comp s), completed := completed s + (2 ^ 32 - 1) div 2\<rparr>)"
proof -
  define st where "st = wake_up_common (wait_list (comp s)) TASK_NORMAL 0 (task_state (comp s))"
  have st': "st = (\<lambda>t. if t \<in> queued (comp s) \<and> task_state (comp s) t AND TASK_NORMAL \<noteq> 0 then TASK_RUNNING else task_state (comp s) t)"
    unfolding st_def queued_def by (rule wake_up_common_all) simp
  have d: "unat (done_count (comp s) + 0xFFFFFFFF div 2) = unat (done_count (comp s)) + (2 ^ 32 - 1) div 2"
    using u by (subst unat_add_small) simp_all
  have c: "complete_all (comp s) = (comp s)\<lparr>done_count := done_count (comp s) + 0xFFFFFFFF div 2, task_state := st\<rparr>"
    by (simp only: complete_all_def wake_up_def st_def) simp
  show ?thesis unfolding c
  proof (rule comp_inv_woken [OF i])
    show "st t = task_state (comp s) t \<or> st t = TASK_RUNNING" for t by (simp add: st')
    show "completed s + (2 ^ 32 - 1) div 2 = consumed s + unat (done_count (comp s) + 0xFFFFFFFF div 2)"
      unfolding d using i by (simp add: comp_inv_def)
    have "\<forall>t \<in> queued (comp s). st t = TASK_RUNNING" using asleep_normal [OF i] by (auto simp: st')
    then show "unat (done_count (comp s) + 0xFFFFFFFF div 2) \<le> card {t \<in> queued (comp s). st t = TASK_RUNNING}
        \<or> (\<forall>t \<in> queued (comp s). st t = TASK_RUNNING)" ..
  qed
qed

lemma comp_inv_wake:
  assumes i: "comp_inv s"
  shows "comp_inv (s\<lparr>comp := (comp s)\<lparr>task_state := (task_state (comp s))(t := TASK_RUNNING)\<rparr>\<rparr>)"
proof -
  define st where "st = (task_state (comp s))(t := TASK_RUNNING)"
  have sub: "awake (comp s) \<subseteq> {u \<in> queued (comp s). st u = TASK_RUNNING}" by (auto simp: awake_def st_def)
  then have c: "card (awake (comp s)) \<le> card {u \<in> queued (comp s). st u = TASK_RUNNING}"
    by (rule card_mono [rotated]) (simp add: queued_def)
  have "unat (done_count (comp s)) \<le> card (awake (comp s)) \<or> awake (comp s) = queued (comp s)"
    using i unfolding comp_inv_def by blast
  then have "unat (done_count (comp s)) \<le> card {u \<in> queued (comp s). st u = TASK_RUNNING} \<or> (\<forall>u \<in> queued (comp s). st u = TASK_RUNNING)"
    using c sub by auto
  then have "comp_inv (s\<lparr>comp := (comp s)\<lparr>done_count := done_count (comp s), task_state := st\<rparr>, completed := completed s + 0\<rparr>)"
    using i by (intro comp_inv_woken) (auto simp: st_def comp_inv_def)
  then show ?thesis by (simp add: st_def)
qed

lemma comp_step_inv:
  assumes i: "comp_inv s" and "comp_step s s'"
  shows "comp_inv s'"
  using assms(2)
proof cases
  case (c_try r x)
  then show ?thesis using i comp_inv_take [OF i] by (auto simp: try_wait_for_completion_def split: if_splits)
next
  case c_complete
  show ?thesis unfolding c_complete(1) by (rule comp_inv_complete [OF i c_complete(2)])
next
  case c_complete_all
  show ?thesis unfolding c_complete_all(1) by (rule comp_inv_complete_all [OF i c_complete_all(2)])
qed (use i in \<open>auto intro: comp_inv_enter comp_inv_resume comp_inv_wake\<close>)

interpretation completion_sys: step_invariant comp_step comp_inv
  by unfold_locales (rule comp_step_inv)

text \<open>The specification: a counter of signalled and one of consumed events; an event is consumed only after it was signalled.\<close>

fun event_spec :: "nat \<times> nat \<Rightarrow> nat \<times> nat \<Rightarrow> bool" where
  "event_spec (a, c) (a', c') \<longleftrightarrow> a < a' \<and> c' = c \<or> a' = a \<and> c' = c + 1 \<and> c < a"

lemma wait_effect_events:
  "completed (wait_effect t state timeout rx s) = completed s"
  "consumed (wait_effect t state timeout rx s) = consumed s \<or> consumed (wait_effect t state timeout rx s) = consumed s + 1"
  by (cases "(t, state, timeout, rx, s)" rule: wait_effect.cases; simp)+

lemma comp_step_events:
  assumes "comp_inv s" "comp_step s s'"
  shows "(completed s', consumed s') = (completed s, consumed s) \<or> event_spec (completed s, consumed s) (completed s', consumed s')"
proof -
  have "consumed s' \<le> completed s'" using comp_step_inv [OF assms] by (simp add: comp_inv_def)
  with assms(2) show ?thesis
  proof cases
    case (c_enter t state timeout g)
    then show ?thesis using wait_effect_events [of t state timeout "wait_enter t g state timeout (comp s)" s] \<open>consumed s' \<le> completed s'\<close> by auto
  next
    case (c_resume t state timeout timeout' g)
    then show ?thesis using wait_effect_events [of t state timeout' "wait_resume t g state timeout' (comp s)" s] \<open>consumed s' \<le> completed s'\<close> by auto
  qed auto
qed

interpretation completion_events: step_refinement comp_step comp_inv event_spec "\<lambda>s. (completed s, consumed s)"
  by unfold_locales (rule comp_step_events)

lemma comp_start_inv: "comp_inv (comp_start st)"
  by (simp add: comp_inv_def comp_start_def init_completion_def queued_def awake_def)


text \<open>
  A completion implements a pair of event counters: every run of waits, tries, wake-ups and \<open>complete\<close>s is, seen through the numbers of signalled and
  consumed completions, a run of the specification, which consumes one event at a time and only after it was signalled.
\<close>
theorem completion_refines_events:
  assumes "comp_step\<^sup>*\<^sup>* (comp_start st) s"
  shows "event_spec\<^sup>*\<^sup>* (0, 0) (completed s, consumed s) \<and> unat (done_count (comp s)) = completed s - consumed s"
proof -
  have "event_spec\<^sup>*\<^sup>* (0, 0) (completed s, consumed s)"
    using completion_events.steps_spec [OF assms comp_start_inv] by (simp add: comp_start_def)
  moreover have "comp_inv s" by (rule completion_sys.steps_inv [OF assms comp_start_inv])
  ultimately show ?thesis by (simp add: comp_inv_def)
qed

text \<open>
  A wait whose timeout is not negative returns a positive number exactly when it consumed one completion, which it does whenever one is there;
  otherwise it consumed none, has left the queue, and returns 0 only when its time is over.
\<close>
theorem wait_result_correct:
  assumes "wait_resume t g state timeout x = (Some r, x')" and "0 \<le> timeout"
  shows "t \<notin> queued x' \<and> (0 < r \<longleftrightarrow> done_count x \<noteq> 0) \<and> (r = 0 \<longrightarrow> timeout = 0)
    \<and> done_count x' = (if 0 < r then done_count x - 1 else done_count x) \<and> (r < 0 \<longrightarrow> r = - ERESTARTSYS \<and> signal_pending_state state g)"
  using assms
  by (auto simp: wait_resume_def wait_body_def wait_leave_def wait_take_def queued_def ERESTARTSYS_def Let_def split: if_splits)

text \<open>
  \<open>complete\<close> wakes the task that has waited longest among those that sleep, and no other.
\<close>
theorem complete_wakes_first:
  assumes "list_all snd (wait_list x)"
  shows "task_state (complete x) = (case List.find (\<lambda>t. task_state x t AND TASK_NORMAL \<noteq> 0) (map fst (wait_list x)) of
      None \<Rightarrow> task_state x | Some t \<Rightarrow> (task_state x)(t := TASK_RUNNING))
    \<and> wait_list (complete x) = wait_list x \<and> done_count (complete x) = done_count x + 1"
  using wake_up_common_one [OF assms, of TASK_NORMAL "task_state x"] by (simp add: complete_def wake_up_def)

section \<open>Witnesses\<close>

definition two_waiting :: completion where
  "two_waiting = \<lparr>done_count = 0, wait_list = [(1, True), (2, True)], task_state = (\<lambda>_. TASK_UNINTERRUPTIBLE)\<rparr>"

definition no_sigs :: sigs where
  "no_sigs = \<lparr>sig_pending = False, sig_fatal = False\<rparr>"


theorem completion_refines_events_witness:
  "event_spec\<^sup>*\<^sup>* (0, 0) (1, 0) \<and> unat (done_count (complete (init_completion (\<lambda>_. 0)))) = 1"
proof -
  let ?s = "comp_start (\<lambda>_. 0)"
  have "comp_step ?s (?s\<lparr>comp := complete (comp ?s), completed := completed ?s + 1\<rparr>)"
    by (rule c_complete) (simp add: comp_start_def init_completion_def)
  then have "comp_step\<^sup>*\<^sup>* ?s (?s\<lparr>comp := complete (comp ?s), completed := completed ?s + 1\<rparr>)" by (rule r_into_rtranclp)
  from completion_refines_events [OF this] show ?thesis by (simp add: comp_start_def)
qed

theorem wait_result_correct_witness:
  "case wait_resume 1 no_sigs TASK_UNINTERRUPTIBLE 5 (complete two_waiting) of
     (r, x') \<Rightarrow> r = Some 5 \<and> 1 \<notin> queued x' \<and> done_count x' = 0"
proof -
  have "wait_resume 1 no_sigs TASK_UNINTERRUPTIBLE 5 (complete two_waiting)
      = (Some 5, snd (wait_resume 1 no_sigs TASK_UNINTERRUPTIBLE 5 (complete two_waiting)))"
    by (simp add: wait_resume_def wait_leave_def wait_take_def complete_def wake_up_def two_waiting_def default_wake_function_def task_state_defs)
  from wait_result_correct [OF this] this show ?thesis
    by (auto simp: complete_def wake_up_def two_waiting_def split: prod.splits)
qed

theorem complete_wakes_first_witness:
  "task_state (complete two_waiting) 1 = TASK_RUNNING \<and> task_state (complete two_waiting) 2 = TASK_UNINTERRUPTIBLE"
proof -
  have "list_all snd (wait_list two_waiting)" by (simp add: two_waiting_def)
  from complete_wakes_first [OF this] show ?thesis by (simp add: two_waiting_def task_state_defs)
qed

end
