(* ===== verification/Cfs_Bandwidth.thy ===== *)
theory Cfs_Bandwidth
  imports Transition
begin

text \<open>
  Bandwidth control of task groups (\<open>hw4/kernel/sched/fair.c\<close> and \<open>core.c\<close>): a group has a quota of run time per period
  in a global pool; its run queues on the processors take slices from the pool, are throttled when
  they cannot, and are given new run time when the period timer refills the pool.

  The model is one group with its pool and its run queues, named by their processor, with the
  fields that bandwidth control reads. The locks make each function one step. Amounts of
  run time are integers: they are nanoseconds held in 64 bits; where the code stores a
  difference in an unsigned variable the reduction modulo \<open>2 ^ 64\<close> is written out. Points in time
  are 64-bit words compared by the sign of their difference. What the high-resolution timers
  answer (is a refresh about to occur) and the clock are arguments. The run queues above a group on a
  processor, up to that of the root group, are the list \<open>above\<close>: its elements pair the entity of one
  group with the run queue it is queued on, with the counts that throttling changes. What taking
  an entity off its run queue does to the timeline is the subject of the theories on entities.
\<close>

section \<open>State\<close>

definition RUNTIME_INF :: int where "RUNTIME_INF = 2 ^ 64 - 1"

definition to_u64 :: "int \<Rightarrow> int" where
  "to_u64 x = x mod 2 ^ 64"

record cfs_bandwidth =
  period :: u64
  quota :: int
  runtime :: int
  runtime_expires :: u64
  idle :: bool
  timer_active :: bool
  throttled_cfs_rq :: "nat list"
  nr_periods :: int
  nr_throttled :: int
  throttled_time :: u64

record level =
  lv_on_rq :: bool
  lv_weight :: ulong
  lv_load :: ulong
  lv_nr_running :: ulong
  lv_h_nr_running :: u32
  lv_throttled :: bool

record brq =
  runtime_enabled :: bool
  runtime_remaining :: int
  local_expires :: u64
  throttled :: bool
  throttled_timestamp :: u64
  rq_clock :: u64
  has_curr :: bool
  brq_nr_running :: nat
  resched :: bool
  own_load :: ulong
  h_nr_running :: u32
  throttle_counts :: "nat list"
  above :: "level list"
  rq_nr_running :: ulong
  curr_is_idle :: bool
  sched_clock :: u64

record bsys =
  cfs_b :: cfs_bandwidth
  brqs :: "nat \<Rightarrow> brq"

record bw_env =
  bandwidth_slice :: int
  TICK_NSEC :: u64

definition upd_b :: "(cfs_bandwidth \<Rightarrow> cfs_bandwidth) \<Rightarrow> bsys \<Rightarrow> bsys" where
  "upd_b f s = s\<lparr>cfs_b := f (cfs_b s)\<rparr>"

definition upd_brq :: "nat \<Rightarrow> (brq \<Rightarrow> brq) \<Rightarrow> bsys \<Rightarrow> bsys" where
  "upd_brq c f s = s\<lparr>brqs := (brqs s)(c := f (brqs s c))\<rparr>"

lemma upd_simps [simp]:
  "cfs_b (upd_b f s) = f (cfs_b s)" "brqs (upd_b f s) = brqs s" "cfs_b (upd_brq c g s) = cfs_b s"
  "brqs (upd_brq c g s) d = (if d = c then g (brqs s c) else brqs s d)"
  by (simp_all add: upd_b_def upd_brq_def)

section \<open>The pool and the slices\<close>

definition refill_cfs_bandwidth_runtime :: "u64 \<Rightarrow> cfs_bandwidth \<Rightarrow> cfs_bandwidth" where
  "refill_cfs_bandwidth_runtime now b =
    (if quota b = RUNTIME_INF then b else b\<lparr>runtime := quota b, runtime_expires := now + period b\<rparr>)"

definition start_cfs_bandwidth :: "cfs_bandwidth \<Rightarrow> cfs_bandwidth" where
  "start_cfs_bandwidth b = b\<lparr>timer_active := True\<rparr>"

definition assign_cfs_rq_runtime :: "bw_env \<Rightarrow> u64 \<Rightarrow> nat \<Rightarrow> bsys \<Rightarrow> bool \<times> bsys" where
  "assign_cfs_rq_runtime env now c s =
    (let min_amount = to_u64 (bandwidth_slice env - runtime_remaining (brqs s c));
         b = cfs_b s;
         (amount, b) =
           (if quota b = RUNTIME_INF then (min_amount, b)
            else let b = (if \<not> timer_active b then start_cfs_bandwidth (refill_cfs_bandwidth_runtime now b) else b)
                 in if 0 < runtime b
                    then let amount = min (runtime b) min_amount
                         in (amount, b\<lparr>runtime := runtime b - amount, idle := False\<rparr>)
                    else (0, b));
         expires = runtime_expires b;
         s = upd_brq c (\<lambda>r. r\<lparr>runtime_remaining := runtime_remaining r + amount,
               local_expires := if 0 < sint (expires - local_expires r) then expires else local_expires r\<rparr>) (upd_b (\<lambda>_. b) s)
     in (0 < runtime_remaining (brqs s c), s))"

definition expire_cfs_rq_runtime :: "bw_env \<Rightarrow> nat \<Rightarrow> bsys \<Rightarrow> bsys" where
  "expire_cfs_rq_runtime env c s =
    (let r = brqs s c
     in if sint (rq_clock r - local_expires r) < 0 then s
        else if runtime_remaining r < 0 then s
        else if 0 \<le> sint (local_expires r - runtime_expires (cfs_b s))
        then upd_brq c (\<lambda>r. r\<lparr>local_expires := local_expires r + TICK_NSEC env\<rparr>) s
        else upd_brq c (\<lambda>r. r\<lparr>runtime_remaining := 0\<rparr>) s)"

definition account_cfs_rq_runtime' :: "bw_env \<Rightarrow> u64 \<Rightarrow> nat \<Rightarrow> int \<Rightarrow> bsys \<Rightarrow> bsys" where
  "account_cfs_rq_runtime' env now c delta_exec s =
    (let s = expire_cfs_rq_runtime env c (upd_brq c (\<lambda>r. r\<lparr>runtime_remaining := runtime_remaining r - delta_exec\<rparr>) s)
     in if 0 < runtime_remaining (brqs s c) then s
        else let (ok, s) = assign_cfs_rq_runtime env now c s
             in if \<not> ok \<and> has_curr (brqs s c) then upd_brq c (\<lambda>r. r\<lparr>resched := True\<rparr>) s else s)"

definition account_cfs_rq_runtime :: "bw_env \<Rightarrow> u64 \<Rightarrow> nat \<Rightarrow> int \<Rightarrow> bsys \<Rightarrow> bsys" where
  "account_cfs_rq_runtime env now c delta_exec s =
    (if \<not> runtime_enabled (brqs s c) then s else account_cfs_rq_runtime' env now c delta_exec s)"

section \<open>Throttling\<close>

definition dequeue_level :: "level \<Rightarrow> level" where
  "dequeue_level l = l\<lparr>lv_on_rq := False, lv_load := lv_load l - lv_weight l, lv_nr_running := lv_nr_running l - 1\<rparr>"

definition enqueue_level :: "level \<Rightarrow> level" where
  "enqueue_level l = l\<lparr>lv_on_rq := True, lv_load := lv_load l + lv_weight l, lv_nr_running := lv_nr_running l + 1\<rparr>"

text \<open>
  The loops over the ancestors; the second result says that the loop ran to the end. The counts of
  throttled ancestors (\<open>throttle_counts\<close>) are those of the group and of every group below it on this
  processor, which \<open>walk_tg_tree_from\<close> visits.
\<close>

fun throttle_up :: "bool \<Rightarrow> u32 \<Rightarrow> level list \<Rightarrow> level list \<times> bool" where
  "throttle_up deq task_delta [] = ([], True)"
| "throttle_up deq task_delta (l # ls) =
    (if \<not> lv_on_rq l then (l # ls, False)
     else let l = (if deq then dequeue_level l else l);
              l = l\<lparr>lv_h_nr_running := lv_h_nr_running l - task_delta\<rparr>;
              (ls, done) = throttle_up (deq \<and> lv_load l = 0) task_delta ls
          in (l # ls, done))"

fun unthrottle_up :: "bool \<Rightarrow> u32 \<Rightarrow> level list \<Rightarrow> level list \<times> bool" where
  "unthrottle_up enq task_delta [] = ([], True)"
| "unthrottle_up enq task_delta (l # ls) =
    (let enq = (enq \<and> \<not> lv_on_rq l);
         l = (if enq then enqueue_level l else l);
         l = l\<lparr>lv_h_nr_running := lv_h_nr_running l + task_delta\<rparr>
     in if lv_throttled l then (l # ls, False)
        else let (ls, done) = unthrottle_up enq task_delta ls in (l # ls, done))"

definition tg_throttle_down :: "brq \<Rightarrow> brq" where
  "tg_throttle_down r = r\<lparr>throttle_counts := map Suc (throttle_counts r)\<rparr>"

definition tg_unthrottle_up :: "brq \<Rightarrow> brq" where
  "tg_unthrottle_up r = r\<lparr>throttle_counts := map (\<lambda>n. n - 1) (throttle_counts r)\<rparr>"

definition throttle_chain :: "brq \<Rightarrow> brq" where
  "throttle_chain r =
    (let (ls, done) = throttle_up True (h_nr_running r) (above r)
     in r\<lparr>above := ls, rq_nr_running := if done then rq_nr_running r - h_nr_running r else rq_nr_running r\<rparr>)"

definition unthrottle_chain :: "brq \<Rightarrow> brq" where
  "unthrottle_chain r =
    (if own_load r = 0 then r
     else let (ls, done) = unthrottle_up True (h_nr_running r) (above r);
              r = r\<lparr>above := ls, rq_nr_running := if done then rq_nr_running r + h_nr_running r else rq_nr_running r\<rparr>
          in if curr_is_idle r \<and> ls \<noteq> [] \<and> lv_nr_running (last ls) \<noteq> 0 then r\<lparr>resched := True\<rparr> else r)"

definition throttle_cfs_rq :: "nat \<Rightarrow> bsys \<Rightarrow> bsys" where
  "throttle_cfs_rq c s =
    upd_b (\<lambda>b. b\<lparr>throttled_cfs_rq := throttled_cfs_rq b @ [c]\<rparr>)
      (upd_brq c (\<lambda>r. (throttle_chain (tg_throttle_down r))\<lparr>throttled := True, throttled_timestamp := rq_clock r\<rparr>) s)"

definition unthrottle_cfs_rq :: "nat \<Rightarrow> bsys \<Rightarrow> bsys" where
  "unthrottle_cfs_rq c s =
    (let r = brqs s c
     in upd_brq c (\<lambda>r. unthrottle_chain (tg_unthrottle_up (r\<lparr>throttled := False, throttled_timestamp := 0, rq_clock := sched_clock r\<rparr>)))
          (upd_b (\<lambda>b. b\<lparr>throttled_time := throttled_time b + (rq_clock r - throttled_timestamp r),
                        throttled_cfs_rq := remove1 c (throttled_cfs_rq b)\<rparr>) s))"

lemma throttle_walk_props [simp]:
  "runtime_remaining (throttle_chain r) = runtime_remaining r" "throttled (throttle_chain r) = throttled r"
  "runtime_remaining (unthrottle_chain r) = runtime_remaining r" "throttled (unthrottle_chain r) = throttled r"
  "runtime_remaining (tg_throttle_down r) = runtime_remaining r" "throttled (tg_throttle_down r) = throttled r"
  "runtime_remaining (tg_unthrottle_up r) = runtime_remaining r" "throttled (tg_unthrottle_up r) = throttled r"
  by (simp_all add: throttle_chain_def unthrottle_chain_def tg_throttle_down_def tg_unthrottle_up_def Let_def split_beta)

fun distribute_loop :: "nat list \<Rightarrow> int \<Rightarrow> u64 \<Rightarrow> bsys \<Rightarrow> int \<times> bsys" where
  "distribute_loop [] remaining expires s = (remaining, s)"
| "distribute_loop (c # cs) remaining expires s =
    (let (remaining, s) =
       (if \<not> throttled (brqs s c) then (remaining, s)
        else let rt = to_u64 (- runtime_remaining (brqs s c) + 1);
                 rt = (if rt > remaining then remaining else rt);
                 s = upd_brq c (\<lambda>r. r\<lparr>runtime_remaining := runtime_remaining r + rt, local_expires := expires\<rparr>) s;
                 s = (if 0 < runtime_remaining (brqs s c) then unthrottle_cfs_rq c s else s)
             in (remaining - rt, s))
     in if remaining = 0 then (remaining, s) else distribute_loop cs remaining expires s)"

definition distribute_cfs_runtime :: "int \<Rightarrow> u64 \<Rightarrow> bsys \<Rightarrow> int \<times> bsys" where
  "distribute_cfs_runtime remaining expires s = distribute_loop (throttled_cfs_rq (cfs_b s)) remaining expires s"

partial_function (option) period_loop :: "int \<Rightarrow> u64 \<Rightarrow> bsys \<Rightarrow> (int \<times> bsys) option" where
  [code]: "period_loop rt expires s =
    (if throttled_cfs_rq (cfs_b s) \<noteq> [] \<and> 0 < rt
     then period_loop (fst (distribute_cfs_runtime rt expires s)) expires (snd (distribute_cfs_runtime rt expires s))
     else Some (rt, s))"

definition do_sched_cfs_period_timer :: "u64 \<Rightarrow> int \<Rightarrow> bsys \<Rightarrow> (bool \<times> bsys) option" where
  "do_sched_cfs_period_timer now overrun s =
    (if quota (cfs_b s) = RUNTIME_INF then Some (True, upd_b (\<lambda>b. b\<lparr>timer_active := False\<rparr>) s)
     else let thr = throttled_cfs_rq (cfs_b s) \<noteq> [];
              idl = idle (cfs_b s) \<and> \<not> thr;
              s = upd_b (\<lambda>b. b\<lparr>nr_periods := nr_periods b + overrun\<rparr>) s
          in if idl then Some (True, upd_b (\<lambda>b. b\<lparr>timer_active := False\<rparr>) s)
             else let s = upd_b (refill_cfs_bandwidth_runtime now) s
                  in if \<not> thr then Some (False, upd_b (\<lambda>b. b\<lparr>idle := True\<rparr>) s)
                     else let rt = runtime (cfs_b s); ex = runtime_expires (cfs_b s);
                              s = upd_b (\<lambda>b. b\<lparr>nr_throttled := nr_throttled b + overrun, runtime := 0\<rparr>) s
                          in map_option (\<lambda>(rt, s). (False, upd_b (\<lambda>b. b\<lparr>runtime := rt, idle := False\<rparr>) s)) (period_loop rt ex s))"

section \<open>Returning slack\<close>

definition min_cfs_rq_runtime :: int where "min_cfs_rq_runtime = 1000000"

text \<open>The slack timer that the code may start here is not part of the state.\<close>

definition return_cfs_rq_runtime :: "nat \<Rightarrow> bsys \<Rightarrow> bsys" where
  "return_cfs_rq_runtime c s =
    (let r = brqs s c; slack_runtime = runtime_remaining r - min_cfs_rq_runtime
     in if \<not> runtime_enabled r \<or> brq_nr_running r \<noteq> 0 then s
        else if slack_runtime \<le> 0 then s
        else upd_brq c (\<lambda>r. r\<lparr>runtime_remaining := runtime_remaining r - slack_runtime\<rparr>)
               (if quota (cfs_b s) \<noteq> RUNTIME_INF \<and> local_expires r = runtime_expires (cfs_b s)
                then upd_b (\<lambda>b. b\<lparr>runtime := runtime b + slack_runtime\<rparr>) s else s))"

definition do_sched_cfs_slack_timer :: "bw_env \<Rightarrow> bool \<Rightarrow> bsys \<Rightarrow> bsys" where
  "do_sched_cfs_slack_timer env refresh_soon s =
    (if refresh_soon then s
     else let b = cfs_b s; ex = runtime_expires b
          in if quota b \<noteq> RUNTIME_INF \<and> bandwidth_slice env < runtime b
             then let (rt, s) = distribute_cfs_runtime (runtime b) ex (upd_b (\<lambda>b. b\<lparr>runtime := 0\<rparr>) s)
                  in if ex = runtime_expires (cfs_b s) then upd_b (\<lambda>b. b\<lparr>runtime := rt\<rparr>) s else s
             else s)"

definition check_enqueue_throttle :: "bw_env \<Rightarrow> u64 \<Rightarrow> nat \<Rightarrow> bsys \<Rightarrow> bsys" where
  "check_enqueue_throttle env now c s =
    (if \<not> runtime_enabled (brqs s c) \<or> has_curr (brqs s c) then s
     else if throttled (brqs s c) then s
     else let s = account_cfs_rq_runtime env now c 0 s
          in if runtime_remaining (brqs s c) \<le> 0 then throttle_cfs_rq c s else s)"

definition check_cfs_rq_runtime :: "nat \<Rightarrow> bsys \<Rightarrow> bsys" where
  "check_cfs_rq_runtime c s =
    (if \<not> runtime_enabled (brqs s c) \<or> 0 < runtime_remaining (brqs s c) then s
     else if throttled (brqs s c) then s
     else throttle_cfs_rq c s)"

definition init_cfs_bandwidth :: "cfs_bandwidth \<Rightarrow> cfs_bandwidth" where
  "init_cfs_bandwidth b = b\<lparr>runtime := 0, quota := RUNTIME_INF, period := 100000000, throttled_cfs_rq := []\<rparr>"

definition init_cfs_rq_runtime :: "brq \<Rightarrow> brq" where
  "init_cfs_rq_runtime r = r\<lparr>runtime_enabled := False\<rparr>"

section \<open>Conservation of run time\<close>

definition funds :: "nat set \<Rightarrow> bsys \<Rightarrow> int" where
  "funds C s = runtime (cfs_b s) + (\<Sum>c \<in> C. runtime_remaining (brqs s c))"

definition bw_pool_ok :: "nat set \<Rightarrow> int \<Rightarrow> bsys \<Rightarrow> bool" where
  "bw_pool_ok C Q s \<longleftrightarrow> quota (cfs_b s) = Q \<and> 0 \<le> runtime (cfs_b s) \<and> set (throttled_cfs_rq (cfs_b s)) \<subseteq> C"

lemma to_u64_bounds: "0 \<le> to_u64 x" "to_u64 x < 2 ^ 64"
  by (simp_all add: to_u64_def)

lemma sum_upd_brq:
  assumes "finite C" "c \<in> C"
  shows "(\<Sum>d \<in> C. runtime_remaining (brqs (upd_brq c f s) d))
    = (\<Sum>d \<in> C. runtime_remaining (brqs s d)) + (runtime_remaining (f (brqs s c)) - runtime_remaining (brqs s c))"
proof -
  have "(\<Sum>d \<in> C - {c}. runtime_remaining (brqs (upd_brq c f s) d)) = (\<Sum>d \<in> C - {c}. runtime_remaining (brqs s d))"
    by (rule sum.cong) auto
  then show ?thesis
    using sum.remove [OF assms, of "\<lambda>d. runtime_remaining (brqs (upd_brq c f s) d)"] sum.remove [OF assms, of "\<lambda>d. runtime_remaining (brqs s d)"]
    by simp
qed

lemma funds_upd [simp]:
  "finite C \<Longrightarrow> c \<in> C \<Longrightarrow> funds C (upd_brq c f s) = funds C s + (runtime_remaining (f (brqs s c)) - runtime_remaining (brqs s c))"
  "funds C (upd_b g s) = funds C s + (runtime (g (cfs_b s)) - runtime (cfs_b s))"
  by (simp_all add: funds_def sum_upd_brq del: upd_simps(4))

lemma bw_pool_ok_upd [simp]:
  "bw_pool_ok C Q (upd_brq c f s) \<longleftrightarrow> bw_pool_ok C Q s"
  by (simp add: bw_pool_ok_def)

text \<open>What the operations do to the funds; a refill, which starts the timer, adds at most the quota.\<close>

definition refilled :: "bsys \<Rightarrow> bsys \<Rightarrow> int" where
  "refilled s s' = (if \<not> timer_active (cfs_b s) \<and> timer_active (cfs_b s') then 1 else 0)"

lemma assign_funds:
  assumes "finite C" "c \<in> C" "Q \<noteq> RUNTIME_INF" "0 \<le> Q" "bw_pool_ok C Q s" "assign_cfs_rq_runtime env now c s = (ok, s')"
  shows "bw_pool_ok C Q s' \<and> funds C s' \<le> funds C s + refilled s s' * Q \<and> (ok \<longleftrightarrow> 0 < runtime_remaining (brqs s' c))"
proof -
  let ?m = "to_u64 (bandwidth_slice env - runtime_remaining (brqs s c))"
  define b where "b = (if \<not> timer_active (cfs_b s) then start_cfs_bandwidth (refill_cfs_bandwidth_runtime now (cfs_b s)) else cfs_b s)"
  have q: "quota (cfs_b s) = Q" "0 \<le> runtime (cfs_b s)" "set (throttled_cfs_rq (cfs_b s)) \<subseteq> C" using assms(5) by (simp_all add: bw_pool_ok_def)
  have b: "quota b = Q" "0 \<le> runtime b" "throttled_cfs_rq b = throttled_cfs_rq (cfs_b s)" "timer_active b"
    "runtime b \<le> runtime (cfs_b s) + (if timer_active (cfs_b s) then 0 else Q)"
    using q assms(3,4) by (simp_all add: b_def start_cfs_bandwidth_def refill_cfs_bandwidth_runtime_def)
  define amt where "amt = (if 0 < runtime b then min (runtime b) ?m else 0)"
  have amt: "0 \<le> amt" "amt \<le> runtime b" using b(2) to_u64_bounds(1) by (auto simp: amt_def)
  define b' where "b' = (if 0 < runtime b then b\<lparr>runtime := runtime b - amt, idle := False\<rparr> else b)"
  have b': "quota b' = Q" "runtime b' = runtime b - amt" "throttled_cfs_rq b' = throttled_cfs_rq (cfs_b s)" "timer_active b'"
    using b amt by (auto simp: b'_def amt_def)
  have s': "s' = upd_brq c (\<lambda>r. r\<lparr>runtime_remaining := runtime_remaining r + amt,
        local_expires := if 0 < sint (runtime_expires b' - local_expires r) then runtime_expires b' else local_expires r\<rparr>) (upd_b (\<lambda>_. b') s)"
    and ok: "ok = (0 < runtime_remaining (brqs s' c))"
    using assms(6) q(1) assms(3) unfolding assign_cfs_rq_runtime_def Let_def b_def [symmetric] b'_def amt_def by (auto split: if_splits)
  have f: "funds C s' = funds C s + (runtime b - runtime (cfs_b s))" using assms(1,2) b'(2) by (simp add: s')
  have "refilled s s' = (if timer_active (cfs_b s) then 0 else 1)" using b'(4) by (simp add: s' refilled_def)
  with f b(5) have "funds C s' \<le> funds C s + refilled s s' * Q" by (cases "timer_active (cfs_b s)") simp_all
  moreover have "bw_pool_ok C Q s'" using b' amt q(3) by (simp add: s' bw_pool_ok_def)
  ultimately show ?thesis using ok by blast
qed

lemma expire_funds:
  assumes "finite C" "c \<in> C" "bw_pool_ok C Q s"
  shows "bw_pool_ok C Q (expire_cfs_rq_runtime env c s) \<and> funds C (expire_cfs_rq_runtime env c s) \<le> funds C s
    \<and> cfs_b (expire_cfs_rq_runtime env c s) = cfs_b s"
  using assms by (simp add: expire_cfs_rq_runtime_def Let_def)

lemma account_funds:
  assumes "finite C" "c \<in> C" "Q \<noteq> RUNTIME_INF" "0 \<le> Q" "bw_pool_ok C Q s" "runtime_enabled (brqs s c)"
    and s': "s' = account_cfs_rq_runtime env now c delta s"
  shows "bw_pool_ok C Q s' \<and> funds C s' + delta \<le> funds C s + refilled s s' * Q"
proof -
  define s1 where "s1 = upd_brq c (\<lambda>r. r\<lparr>runtime_remaining := runtime_remaining r - delta\<rparr>) s"
  define s2 where "s2 = expire_cfs_rq_runtime env c s1"
  obtain ok s3 where a: "assign_cfs_rq_runtime env now c s2 = (ok, s3)" by fastforce
  have s': "s' = (if 0 < runtime_remaining (brqs s2 c) then s2
      else if \<not> ok \<and> has_curr (brqs s3 c) then upd_brq c (\<lambda>r. r\<lparr>resched := True\<rparr>) s3 else s3)"
    using a assms(6) by (simp add: s' account_cfs_rq_runtime_def account_cfs_rq_runtime'_def Let_def flip: s1_def s2_def)
  have 1: "bw_pool_ok C Q s1" "funds C s1 = funds C s - delta" "cfs_b s1 = cfs_b s"
    using assms(1,2,5) by (simp_all add: s1_def)
  have 2: "bw_pool_ok C Q s2" "funds C s2 \<le> funds C s - delta" "cfs_b s2 = cfs_b s"
    using expire_funds [OF assms(1,2) 1(1), of env] 1 by (simp_all add: s2_def)
  have 3: "bw_pool_ok C Q s3" "funds C s3 \<le> funds C s2 + refilled s2 s3 * Q"
    using assign_funds [OF assms(1-4) 2(1) a] by blast+
  have "refilled s2 s3 = refilled s s3" by (simp add: refilled_def 2(3))
  moreover have "refilled s s' = refilled s s3" if "\<not> 0 < runtime_remaining (brqs s2 c)" using that by (simp add: s' refilled_def)
  moreover have "0 \<le> refilled s s' * Q" using assms(4) by (simp add: refilled_def)
  ultimately show ?thesis
    using 2 3 assms(1,2) by (cases "0 < runtime_remaining (brqs s2 c)") (simp_all add: s')
qed

lemma unthrottle_props [simp]:
  "runtime_remaining (brqs (unthrottle_cfs_rq c s) d) = runtime_remaining (brqs s d)"
  "quota (cfs_b (unthrottle_cfs_rq c s)) = quota (cfs_b s)" "runtime (cfs_b (unthrottle_cfs_rq c s)) = runtime (cfs_b s)"
  "timer_active (cfs_b (unthrottle_cfs_rq c s)) = timer_active (cfs_b s)"
  "runtime_expires (cfs_b (unthrottle_cfs_rq c s)) = runtime_expires (cfs_b s)"
  "throttled_cfs_rq (cfs_b (unthrottle_cfs_rq c s)) = remove1 c (throttled_cfs_rq (cfs_b s))"
  "throttled (brqs (unthrottle_cfs_rq c s) d) \<longleftrightarrow> d \<noteq> c \<and> throttled (brqs s d)"
  by (simp_all add: unthrottle_cfs_rq_def Let_def)

lemma unthrottle_funds [simp]: "funds C (unthrottle_cfs_rq c s) = funds C s"
  by (simp add: funds_def)

text \<open>One round of the loop of \<open>distribute_cfs_runtime\<close>.\<close>

definition pay :: "nat \<Rightarrow> u64 \<Rightarrow> int \<times> bsys \<Rightarrow> int \<times> bsys" where
  "pay c expires rs = (case rs of (remaining, s) \<Rightarrow>
     if \<not> throttled (brqs s c) then (remaining, s)
     else let rt = to_u64 (- runtime_remaining (brqs s c) + 1);
              rt = (if rt > remaining then remaining else rt);
              s = upd_brq c (\<lambda>r. r\<lparr>runtime_remaining := runtime_remaining r + rt, local_expires := expires\<rparr>) s;
              s = (if 0 < runtime_remaining (brqs s c) then unthrottle_cfs_rq c s else s)
          in (remaining - rt, s))"

lemma distribute_loop_pay:
  "distribute_loop (c # cs) remaining expires s =
    (let (remaining, s) = pay c expires (remaining, s)
     in if remaining = 0 then (remaining, s) else distribute_loop cs remaining expires s)"
  by (simp add: pay_def)

lemma pay_funds:
  assumes "finite C" "c \<in> C" "0 \<le> r" "pay c ex (r, s) = (r', s')"
  shows "0 \<le> r'" "funds C s' + r' = funds C s + r" "bw_pool_ok C Q s \<Longrightarrow> bw_pool_ok C Q s'"
    "timer_active (cfs_b s') = timer_active (cfs_b s)" "runtime (cfs_b s') = runtime (cfs_b s)"
    "runtime_expires (cfs_b s') = runtime_expires (cfs_b s)"
  using assms to_u64_bounds(1) [of "- runtime_remaining (brqs s c) + 1"]
  by (auto simp: pay_def Let_def bw_pool_ok_def funds_upd(1) [OF assms(1,2)] dest!: set_mp [OF set_remove1_subset] split: if_splits)

lemma distribute_funds:
  assumes "finite C" "set cs \<subseteq> C" "0 \<le> r" "distribute_loop cs r ex s = (r', s')"
  shows "0 \<le> r' \<and> funds C s' + r' = funds C s + r \<and> (bw_pool_ok C Q s \<longrightarrow> bw_pool_ok C Q s')
    \<and> timer_active (cfs_b s') = timer_active (cfs_b s) \<and> runtime (cfs_b s') = runtime (cfs_b s)
    \<and> runtime_expires (cfs_b s') = runtime_expires (cfs_b s)"
  using assms(2-4)
proof (induction cs arbitrary: r s)
  case (Cons c cs)
  obtain r1 s1 where p: "pay c ex (r, s) = (r1, s1)" by fastforce
  have c: "c \<in> C" using Cons.prems(1) by simp
  note 1 = pay_funds [OF assms(1) c Cons.prems(2) p]
  show ?case
  proof (cases "r1 = 0")
    case True
    then have "r' = r1" "s' = s1" using Cons.prems(3) p by (simp_all add: distribute_loop_pay del: distribute_loop.simps)
    with 1 show ?thesis by simp
  next
    case False
    then have "distribute_loop cs r1 ex s1 = (r', s')" using Cons.prems(3) p by (simp add: distribute_loop_pay del: distribute_loop.simps)
    from Cons.IH [OF _ 1(1) this] Cons.prems(1) 1 show ?thesis by auto
  qed
qed simp

section \<open>The period timer\<close>

definition throttle_list_ok :: "bsys \<Rightarrow> bool" where
  "throttle_list_ok s \<longleftrightarrow> distinct (throttled_cfs_rq (cfs_b s))
     \<and> (\<forall>c. throttled (brqs s c) \<longleftrightarrow> c \<in> set (throttled_cfs_rq (cfs_b s)))"

definition throttle_ok :: "bsys \<Rightarrow> bool" where
  "throttle_ok s \<longleftrightarrow> throttle_list_ok s \<and> (\<forall>c. - (2 ^ 63) \<le> runtime_remaining (brqs s c))"

lemma throttle_list_ok_upd:
  "(\<And>r. throttled (f r) = throttled r) \<Longrightarrow> throttle_list_ok (upd_brq c f s) = throttle_list_ok s"
  "(\<And>b. throttled_cfs_rq (g b) = throttled_cfs_rq b) \<Longrightarrow> throttle_list_ok (upd_b g s) = throttle_list_ok s"
  by (auto simp: throttle_list_ok_def)

lemma throttle_list_ok_throttle: "throttle_list_ok s \<Longrightarrow> \<not> throttled (brqs s c) \<Longrightarrow> throttle_list_ok (throttle_cfs_rq c s)"
  by (auto simp: throttle_list_ok_def throttle_cfs_rq_def)

lemma throttle_list_ok_unthrottle: "throttle_list_ok s \<Longrightarrow> throttle_list_ok (unthrottle_cfs_rq c s)"
  by (auto simp: throttle_list_ok_def)

text \<open>One round: the head of the list is paid off, or the money is gone.\<close>

lemma pay_form:
  assumes "throttled (brqs s c)" and "pay c ex (r, s) = (r', s')" and "0 < r"
  obtains rt s1 where "0 \<le> rt" "r' = r - rt" "s1 = upd_brq c (\<lambda>x. x\<lparr>runtime_remaining := runtime_remaining x + rt, local_expires := ex\<rparr>) s"
    "s' = (if 0 < runtime_remaining (brqs s c) + rt then unthrottle_cfs_rq c s1 else s1)"
    "- (2 ^ 63) \<le> runtime_remaining (brqs s c) \<Longrightarrow> r' = 0 \<or> 0 < runtime_remaining (brqs s c) + rt"
proof -
  let ?m = "runtime_remaining (brqs s c)"
  define u where "u = to_u64 (- ?m + 1)"
  define rt where "rt = (if u > r then r else u)"
  define s1 where "s1 = upd_brq c (\<lambda>x. x\<lparr>runtime_remaining := runtime_remaining x + rt, local_expires := ex\<rparr>) s"
  have "r' = r - rt" "s' = (if 0 < runtime_remaining (brqs s1 c) then unthrottle_cfs_rq c s1 else s1)"
    using assms(1,2) unfolding pay_def prod.case Let_def u_def [symmetric] rt_def [symmetric] s1_def [symmetric]
    by (simp_all only: simp_thms if_False prod.inject)
  then have e: "r' = r - rt" "s' = (if 0 < ?m + rt then unthrottle_cfs_rq c s1 else s1)" by (simp_all add: s1_def)
  have rt: "0 \<le> rt" using assms(3) to_u64_bounds(1) by (simp add: rt_def u_def)
  have "r' = 0 \<or> 0 < ?m + rt" if "- (2 ^ 63) \<le> ?m"
  proof (cases "?m \<le> 0")
    case True
    then have "u = - ?m + 1" using that by (simp add: u_def to_u64_def)
    then show ?thesis by (simp add: e rt_def)
  qed (use rt in simp)
  from that [OF rt e(1) s1_def e(2) this] show thesis .
qed

lemma pay_list_ok:
  assumes "throttle_list_ok s" "0 < r" "pay c ex (r, s) = (r', s')"
  shows "throttle_list_ok s'"
proof (cases "throttled (brqs s c)")
  case True
  from pay_form [OF True assms(3,2)] obtain rt s1 where
    1: "s1 = upd_brq c (\<lambda>x. x\<lparr>runtime_remaining := runtime_remaining x + rt, local_expires := ex\<rparr>) s"
       "s' = (if 0 < runtime_remaining (brqs s c) + rt then unthrottle_cfs_rq c s1 else s1)" .
  have "throttle_list_ok s1" using assms(1) unfolding 1(1) by (simp add: throttle_list_ok_upd)
  then show ?thesis by (simp add: 1(2) throttle_list_ok_unthrottle)
qed (use assms in \<open>simp add: pay_def\<close>)

lemma pay_settles:
  assumes t: "throttle_ok s" and l: "throttled_cfs_rq (cfs_b s) = c # cs" and r: "0 < r" and p: "pay c ex (r, s) = (r', s')"
  shows "throttle_ok s'" "r' = 0 \<or> throttled_cfs_rq (cfs_b s') = cs"
proof -
  let ?m = "runtime_remaining (brqs s c)"
  have m: "- (2 ^ 63) \<le> ?m" and th: "throttled (brqs s c)" using t l by (simp_all add: throttle_ok_def throttle_list_ok_def)
  from pay_form [OF th p r] obtain rt s1 where
    e: "0 \<le> rt" "r' = r - rt" "s1 = upd_brq c (\<lambda>x. x\<lparr>runtime_remaining := runtime_remaining x + rt, local_expires := ex\<rparr>) s"
       "s' = (if 0 < ?m + rt then unthrottle_cfs_rq c s1 else s1)" "r' = 0 \<or> 0 < ?m + rt" using m by blast
  have s1: "throttled_cfs_rq (cfs_b s1) = c # cs" "\<And>d. runtime_remaining (brqs s1 d) = (if d = c then ?m + rt else runtime_remaining (brqs s d))"
    by (simp_all add: e(3) l)
  show "r' = 0 \<or> throttled_cfs_rq (cfs_b s') = cs" using e(4,5) s1(1) by auto
  have "- (2 ^ 63) \<le> runtime_remaining (brqs s' d)" for d
  proof -
    have "runtime_remaining (brqs s d) \<le> runtime_remaining (brqs s' d)" using e(1) by (simp add: e(4) s1(2))
    moreover have "- (2 ^ 63) \<le> runtime_remaining (brqs s d)" using t by (simp add: throttle_ok_def)
    ultimately show ?thesis by simp
  qed
  with pay_list_ok [OF _ r p] t show "throttle_ok s'" by (simp add: throttle_ok_def)
qed

lemma distribute_settles:
  assumes "throttle_ok s" "throttled_cfs_rq (cfs_b s) = cs" "0 < r" "distribute_loop cs r ex s = (r', s')"
    and "finite C" "set cs \<subseteq> C"
  shows "throttle_ok s' \<and> (r' = 0 \<or> throttled_cfs_rq (cfs_b s') = [])"
  using assms(1-4,6)
proof (induction cs arbitrary: r s)
  case (Cons c cs)
  obtain r1 s1 where p: "pay c ex (r, s) = (r1, s1)" by fastforce
  note 1 = pay_settles [OF Cons.prems(1-3) p]
  have r1: "0 \<le> r1" using pay_funds(1) [OF assms(5) _ _ p] Cons.prems(3,5) by simp
  show ?case
  proof (cases "r1 = 0")
    case True
    then have "r' = r1" "s' = s1" using Cons.prems(4) p by (simp_all add: distribute_loop_pay del: distribute_loop.simps)
    with 1 True show ?thesis by simp
  next
    case False
    then have d: "distribute_loop cs r1 ex s1 = (r', s')" using Cons.prems(4) p by (simp add: distribute_loop_pay del: distribute_loop.simps)
    have "throttled_cfs_rq (cfs_b s1) = cs" "0 < r1" using 1(2) False r1 by simp_all
    from Cons.IH [OF 1(1) this d] Cons.prems(5) show ?thesis by simp
  qed
qed simp

lemma period_loop_settles:
  assumes "throttle_ok s" "finite C" "set (throttled_cfs_rq (cfs_b s)) \<subseteq> C" "0 \<le> r"
  shows "\<exists>r' s'. period_loop r ex s = Some (r', s') \<and> throttle_ok s' \<and> (r' = 0 \<or> throttled_cfs_rq (cfs_b s') = [])
    \<and> 0 \<le> r' \<and> funds C s' + r' = funds C s + r \<and> (bw_pool_ok C Q s \<longrightarrow> bw_pool_ok C Q s') \<and> runtime (cfs_b s') = runtime (cfs_b s)
    \<and> timer_active (cfs_b s') = timer_active (cfs_b s)"
proof (cases "throttled_cfs_rq (cfs_b s) \<noteq> [] \<and> 0 < r")
  case False
  then have "period_loop r ex s = Some (r, s)" by (subst period_loop.simps) auto
  with False assms(1,4) show ?thesis by auto
next
  case True
  obtain r1 s1 where d: "distribute_loop (throttled_cfs_rq (cfs_b s)) r ex s = (r1, s1)" by fastforce
  have s: "throttle_ok s1" "r1 = 0 \<or> throttled_cfs_rq (cfs_b s1) = []"
    using distribute_settles [OF assms(1) refl _ d assms(2,3)] True by blast+
  note f = distribute_funds [OF assms(2,3,4) d, of Q]
  have "period_loop r ex s = period_loop r1 ex s1" using True d by (subst period_loop.simps) (simp add: distribute_cfs_runtime_def)
  also have "\<dots> = Some (r1, s1)" using s(2) by (subst period_loop.simps) auto
  finally show ?thesis using s f by auto
qed

lemma refill_eq: "quota b \<noteq> RUNTIME_INF \<Longrightarrow> refill_cfs_bandwidth_runtime now b = b\<lparr>runtime := quota b, runtime_expires := now + period b\<rparr>"
  by (simp add: refill_cfs_bandwidth_runtime_def)

lemma refill_list [simp]: "throttled_cfs_rq (refill_cfs_bandwidth_runtime now b) = throttled_cfs_rq b"
  by (simp add: refill_cfs_bandwidth_runtime_def)

lemma throttle_ok_upd:
  "(\<And>b. throttled_cfs_rq (g b) = throttled_cfs_rq b) \<Longrightarrow> throttle_ok (upd_b g s) = throttle_ok s"
  by (simp add: throttle_ok_def throttle_list_ok_upd)

lemma period_timer_full:
  assumes "finite C" "Q \<noteq> RUNTIME_INF" "0 \<le> Q" "bw_pool_ok C Q s" "throttle_ok s"
  shows "\<exists>i s'. do_sched_cfs_period_timer now overrun s = Some (i, s') \<and> bw_pool_ok C Q s' \<and> throttle_ok s'
    \<and> funds C s' \<le> funds C s + (if i then 0 else Q) \<and> (throttled_cfs_rq (cfs_b s') = [] \<or> runtime (cfs_b s') = 0)
    \<and> (i \<longleftrightarrow> idle (cfs_b s) \<and> throttled_cfs_rq (cfs_b s) = []) \<and> timer_active (cfs_b s') = (\<not> i \<and> timer_active (cfs_b s))"
proof -
  have q: "quota (cfs_b s) = Q" "0 \<le> runtime (cfs_b s)" "set (throttled_cfs_rq (cfs_b s)) \<subseteq> C" using assms(4) by (simp_all add: bw_pool_ok_def)
  show ?thesis
  proof (cases "throttled_cfs_rq (cfs_b s) = []")
    case True
    then show ?thesis
      using assms q by (cases "idle (cfs_b s)")
        (auto simp: do_sched_cfs_period_timer_def Let_def refill_eq bw_pool_ok_def throttle_ok_upd)
  next
    case False
    define s1 where "s1 = upd_b (\<lambda>b. b\<lparr>nr_throttled := nr_throttled b + overrun, runtime := 0\<rparr>)
      (upd_b (refill_cfs_bandwidth_runtime now) (upd_b (\<lambda>b. b\<lparr>nr_periods := nr_periods b + overrun\<rparr>) s))"
    have 1: "throttle_ok s1" "set (throttled_cfs_rq (cfs_b s1)) \<subseteq> C" "bw_pool_ok C Q s1" "runtime (cfs_b s1) = 0"
      "funds C s1 = funds C s - runtime (cfs_b s)" "timer_active (cfs_b s1) = timer_active (cfs_b s)"
      using q assms(2,5) by (simp_all add: s1_def refill_eq throttle_ok_upd bw_pool_ok_def)
    have e: "do_sched_cfs_period_timer now overrun s
      = map_option (\<lambda>(rt, s). (False, upd_b (\<lambda>b. b\<lparr>runtime := rt, idle := False\<rparr>) s)) (period_loop Q (now + period (cfs_b s)) s1)"
      using False q assms(2) by (simp add: do_sched_cfs_period_timer_def Let_def refill_eq s1_def)
    from period_loop_settles [OF 1(1) assms(1) 1(2) assms(3), of "now + period (cfs_b s)" Q]
    obtain r' s' where p: "period_loop Q (now + period (cfs_b s)) s1 = Some (r', s')" "throttle_ok s'"
      "r' = 0 \<or> throttled_cfs_rq (cfs_b s') = []" "0 \<le> r'" "funds C s' + r' = funds C s1 + Q" "bw_pool_ok C Q s'" "runtime (cfs_b s') = 0"
      "timer_active (cfs_b s') = timer_active (cfs_b s)"
      using 1 by auto
    show ?thesis
      using p 1 q False unfolding e
      by (intro exI [of _ False] exI [of _ "upd_b (\<lambda>b. b\<lparr>runtime := r', idle := False\<rparr>) s'"]) (auto simp: bw_pool_ok_def throttle_ok_upd)
  qed
qed


definition idle_brq :: brq where
  "idle_brq = \<lparr>runtime_enabled = True, runtime_remaining = 0, local_expires = 0, throttled = False, throttled_timestamp = 0,
    rq_clock = 0, has_curr = False, brq_nr_running = 1, resched = False, own_load = 1024, h_nr_running = 1, throttle_counts = [0],
    above = [\<lparr>lv_on_rq = True, lv_weight = 1024, lv_load = 2048, lv_nr_running = 2, lv_h_nr_running = 2, lv_throttled = False\<rparr>],
    rq_nr_running = 2, curr_is_idle = False, sched_clock = 0\<rparr>"

definition sample_pool :: cfs_bandwidth where
  "sample_pool = \<lparr>period = 100, quota = 10, runtime = 0, runtime_expires = 0, idle = False, timer_active = False,
    throttled_cfs_rq = [], nr_periods = 0, nr_throttled = 0, throttled_time = 0\<rparr>"

definition debt_sample :: bsys where
  "debt_sample = \<lparr>cfs_b = sample_pool\<lparr>timer_active := True, throttled_cfs_rq := [0]\<rparr>,
    brqs = (\<lambda>c. if c = 0 then idle_brq\<lparr>runtime_remaining := - 3, throttled := True\<rparr> else idle_brq)\<rparr>"


section \<open>The group never exceeds its bandwidth\<close>

lemma distribute_list_ok:
  assumes "throttle_list_ok s" "0 < r" "distribute_loop cs r ex s = (r', s')"
  shows "throttle_list_ok s'"
  using assms
proof (induction cs arbitrary: r s)
  case (Cons c cs)
  obtain r1 s1 where p: "pay c ex (r, s) = (r1, s1)" by fastforce
  have s1: "throttle_list_ok s1" by (rule pay_list_ok [OF Cons.prems(1,2) p])
  have "0 \<le> r1" by (rule pay_funds(1) [of "{c}", OF _ _ _ p]) (use Cons.prems(2) in simp_all)
  then show ?case
    using Cons.IH [OF s1, of r1] Cons.prems(3) p s1
    by (cases "r1 = 0") (simp_all add: distribute_loop_pay del: distribute_loop.simps)
qed simp

text \<open>The loop of the period timer, if it returns, without any assumption on the debts.\<close>

lemma period_loop_partial:
  assumes "period_loop r ex s = Some y" "finite C" "0 \<le> r" "bw_pool_ok C Q s" "throttle_list_ok s"
  shows "0 \<le> fst y \<and> funds C (snd y) + fst y = funds C s + r \<and> bw_pool_ok C Q (snd y) \<and> throttle_list_ok (snd y)
    \<and> runtime (cfs_b (snd y)) = runtime (cfs_b s)"
  using assms(3-5)
proof (induction rule: period_loop.raw_induct [OF _ assms(1)])
  case (1 loop r ex s y)
  show ?case
  proof (cases "throttled_cfs_rq (cfs_b s) \<noteq> [] \<and> 0 < r")
    case True
    obtain r1 s1 where d: "distribute_loop (throttled_cfs_rq (cfs_b s)) r ex s = (r1, s1)" by fastforce
    have sub: "set (throttled_cfs_rq (cfs_b s)) \<subseteq> C" using "1.prems"(2) by (simp add: bw_pool_ok_def)
    note f = distribute_funds [OF assms(2) sub "1.prems"(1) d, of Q]
    have "throttle_list_ok s1" by (rule distribute_list_ok [OF "1.prems"(3) _ d]) (use True in simp)
    moreover have "loop r1 ex s1 = Some y" using "1.hyps" True d by (simp add: distribute_cfs_runtime_def)
    ultimately show ?thesis using "1.IH" [of r1 ex s1 y] f "1.prems"(2) by auto
  qed (use 1 in auto)
qed

lemma period_timer_partial:
  assumes "do_sched_cfs_period_timer now overrun s = Some (i, s')" "finite C" "Q \<noteq> RUNTIME_INF" "0 \<le> Q" "bw_pool_ok C Q s" "throttle_list_ok s"
  shows "bw_pool_ok C Q s' \<and> throttle_list_ok s' \<and> funds C s' \<le> funds C s + (if i then 0 else Q)"
proof (cases "throttled_cfs_rq (cfs_b s) = []")
  case True
  then show ?thesis
    using assms by (cases "idle (cfs_b s)")
      (auto simp: do_sched_cfs_period_timer_def Let_def refill_eq bw_pool_ok_def throttle_list_ok_upd)
next
  case False
  have q: "quota (cfs_b s) = Q" "0 \<le> runtime (cfs_b s)" using assms(5) by (simp_all add: bw_pool_ok_def)
  define s1 where "s1 = upd_b (\<lambda>b. b\<lparr>nr_throttled := nr_throttled b + overrun, runtime := 0\<rparr>)
    (upd_b (refill_cfs_bandwidth_runtime now) (upd_b (\<lambda>b. b\<lparr>nr_periods := nr_periods b + overrun\<rparr>) s))"
  have 1: "throttle_list_ok s1" "bw_pool_ok C Q s1" "runtime (cfs_b s1) = 0" "funds C s1 = funds C s - runtime (cfs_b s)"
    using q assms(3,5,6) by (simp_all add: s1_def refill_eq throttle_list_ok_upd bw_pool_ok_def)
  have "do_sched_cfs_period_timer now overrun s
    = map_option (\<lambda>(rt, s). (False, upd_b (\<lambda>b. b\<lparr>runtime := rt, idle := False\<rparr>) s)) (period_loop Q (now + period (cfs_b s)) s1)"
    using False q assms(3) by (simp add: do_sched_cfs_period_timer_def Let_def refill_eq s1_def)
  then obtain rt s2 where p: "period_loop Q (now + period (cfs_b s)) s1 = Some (rt, s2)"
    "i = False" "s' = upd_b (\<lambda>b. b\<lparr>runtime := rt, idle := False\<rparr>) s2"
    using assms(1) by (cases "period_loop Q (now + period (cfs_b s)) s1") auto
  have "0 \<le> rt" "funds C s2 + rt = funds C s1 + Q" "bw_pool_ok C Q s2" "throttle_list_ok s2" "runtime (cfs_b s2) = 0"
    using period_loop_partial [OF p(1) assms(2,4) 1(2,1)] 1(3) by simp_all
  with p q 1 show ?thesis by (auto simp: throttle_list_ok_upd bw_pool_ok_def)
qed

text \<open>The list of throttled run queues through the operations.\<close>

lemma assign_list_ok: "assign_cfs_rq_runtime env now c s = (ok, s') \<Longrightarrow> throttle_list_ok s' = throttle_list_ok s"
  by (auto simp: assign_cfs_rq_runtime_def start_cfs_bandwidth_def Let_def throttle_list_ok_def split_beta split: if_splits)

lemma account_list_ok: "throttle_list_ok (account_cfs_rq_runtime env now c delta s) = throttle_list_ok s"
proof -
  define s1 where "s1 = expire_cfs_rq_runtime env c (upd_brq c (\<lambda>r. r\<lparr>runtime_remaining := runtime_remaining r - delta\<rparr>) s)"
  obtain ok s2 where a: "assign_cfs_rq_runtime env now c s1 = (ok, s2)" by fastforce
  have "throttle_list_ok s1 = throttle_list_ok s" by (simp add: s1_def expire_cfs_rq_runtime_def Let_def throttle_list_ok_upd)
  with assign_list_ok [OF a] a show ?thesis
    by (simp add: account_cfs_rq_runtime_def account_cfs_rq_runtime'_def Let_def throttle_list_ok_upd flip: s1_def)
qed

lemma assign_throttled: "assign_cfs_rq_runtime env now c s = (ok, s') \<Longrightarrow> throttled (brqs s' d) = throttled (brqs s d)"
  by (auto simp: assign_cfs_rq_runtime_def Let_def split_beta split: if_splits)

lemma account_throttled: "throttled (brqs (account_cfs_rq_runtime env now c delta s) d) = throttled (brqs s d)"
proof -
  define s1 where "s1 = expire_cfs_rq_runtime env c (upd_brq c (\<lambda>r. r\<lparr>runtime_remaining := runtime_remaining r - delta\<rparr>) s)"
  obtain ok s2 where a: "assign_cfs_rq_runtime env now c s1 = (ok, s2)" by fastforce
  have "throttled (brqs s1 d) = throttled (brqs s d)" for d by (simp add: s1_def expire_cfs_rq_runtime_def Let_def)
  with assign_throttled [OF a] a show ?thesis
    by (simp add: account_cfs_rq_runtime_def account_cfs_rq_runtime'_def Let_def flip: s1_def)
qed

lemma check_list_ok:
  assumes "throttle_list_ok s"
  shows "throttle_list_ok (check_cfs_rq_runtime c s)" "throttle_list_ok (check_enqueue_throttle env now c s)"
    "throttle_list_ok (return_cfs_rq_runtime c s)"
  using assms
  by (auto simp: check_cfs_rq_runtime_def check_enqueue_throttle_def return_cfs_rq_runtime_def Let_def account_list_ok throttle_list_ok_upd
      account_throttled intro: throttle_list_ok_throttle)

lemma slack_list_ok:
  assumes "throttle_list_ok s" "0 \<le> bandwidth_slice env"
  shows "throttle_list_ok (do_sched_cfs_slack_timer env soon s)"
proof -
  obtain rt s2 where d: "distribute_loop (throttled_cfs_rq (cfs_b s)) (runtime (cfs_b s)) (runtime_expires (cfs_b s))
      (upd_b (\<lambda>b. b\<lparr>runtime := 0\<rparr>) s) = (rt, s2)" by fastforce
  have "throttle_list_ok s2" if "0 < runtime (cfs_b s)"
    by (rule distribute_list_ok [OF _ that d]) (use assms in \<open>simp add: throttle_list_ok_upd\<close>)
  with d assms show ?thesis
    by (auto simp: do_sched_cfs_slack_timer_def distribute_cfs_runtime_def Let_def throttle_list_ok_upd)
qed

lemma return_funds:
  assumes "finite C" "c \<in> C" "bw_pool_ok C Q s"
  shows "bw_pool_ok C Q (return_cfs_rq_runtime c s) \<and> funds C (return_cfs_rq_runtime c s) \<le> funds C s
    \<and> timer_active (cfs_b (return_cfs_rq_runtime c s)) = timer_active (cfs_b s)"
  using assms by (auto simp: return_cfs_rq_runtime_def Let_def bw_pool_ok_def)

lemma slack_funds:
  assumes "finite C" "bw_pool_ok C Q s"
  shows "bw_pool_ok C Q (do_sched_cfs_slack_timer env soon s) \<and> funds C (do_sched_cfs_slack_timer env soon s) = funds C s"
proof (cases "soon \<or> quota (cfs_b s) = RUNTIME_INF \<or> runtime (cfs_b s) \<le> bandwidth_slice env")
  case True
  then show ?thesis using assms by (auto simp: do_sched_cfs_slack_timer_def Let_def)
next
  case False
  define s1 where "s1 = upd_b (\<lambda>b. b\<lparr>runtime := 0\<rparr>) s"
  have 1: "bw_pool_ok C Q s1" "set (throttled_cfs_rq (cfs_b s1)) \<subseteq> C" "0 \<le> runtime (cfs_b s)"
    "funds C s1 = funds C s - runtime (cfs_b s)" "runtime (cfs_b s1) = 0" "runtime_expires (cfs_b s1) = runtime_expires (cfs_b s)"
    using assms by (simp_all add: s1_def bw_pool_ok_def)
  obtain rt s2 where d: "distribute_loop (throttled_cfs_rq (cfs_b s1)) (runtime (cfs_b s)) (runtime_expires (cfs_b s)) s1 = (rt, s2)"
    by fastforce
  note f = distribute_funds [OF assms(1) 1(2,3) d, of Q]
  have "do_sched_cfs_slack_timer env soon s = upd_b (\<lambda>b. b\<lparr>runtime := rt\<rparr>) s2"
    using False d f 1(6) by (simp add: do_sched_cfs_slack_timer_def distribute_cfs_runtime_def Let_def flip: s1_def)
  then show ?thesis using f 1 by (simp add: bw_pool_ok_def)
qed

lemma throttle_funds:
  assumes "c \<in> C" "bw_pool_ok C Q s"
  shows "bw_pool_ok C Q (throttle_cfs_rq c s)" "funds C (throttle_cfs_rq c s) = funds C s"
    "timer_active (cfs_b (throttle_cfs_rq c s)) = timer_active (cfs_b s)"
proof -
  have "runtime_remaining (brqs (throttle_cfs_rq c s) d) = runtime_remaining (brqs s d)" for d by (simp add: throttle_cfs_rq_def)
  then show "funds C (throttle_cfs_rq c s) = funds C s" by (simp add: funds_def throttle_cfs_rq_def)
qed (use assms in \<open>auto simp: throttle_cfs_rq_def bw_pool_ok_def\<close>)

text \<open>
  A run of the group with two ghost counters: \<open>used\<close>, the run time that \<open>update_curr\<close> has charged to its run queues, and
  \<open>refills\<close>, how often the pool was refilled. The rest of the scheduler moves the clocks and changes
  what runs.
\<close>

record bw_run =
  bw :: bsys
  used :: int
  refills :: int

definition bw_move :: "bsys \<Rightarrow> int \<Rightarrow> int \<Rightarrow> bw_run \<Rightarrow> bw_run" where
  "bw_move s' d k r = \<lparr>bw = s', used = used r + d, refills = refills r + k\<rparr>"

inductive bw_step :: "bw_env \<Rightarrow> nat set \<Rightarrow> bw_run \<Rightarrow> bw_run \<Rightarrow> bool" for env C where
  bw_account: "c \<in> C \<Longrightarrow> runtime_enabled (brqs (bw r) c) \<Longrightarrow> s' = account_cfs_rq_runtime env now c delta (bw r) \<Longrightarrow>
    bw_step env C r (bw_move s' delta (refilled (bw r) s') r)"
| bw_check: "c \<in> C \<Longrightarrow> bw_step env C r (bw_move (check_cfs_rq_runtime c (bw r)) 0 0 r)"
| bw_enqueue: "c \<in> C \<Longrightarrow> s' = check_enqueue_throttle env now c (bw r) \<Longrightarrow>
    bw_step env C r (bw_move s' 0 (refilled (bw r) s') r)"
| bw_return: "c \<in> C \<Longrightarrow> bw_step env C r (bw_move (return_cfs_rq_runtime c (bw r)) 0 0 r)"
| bw_slack: "bw_step env C r (bw_move (do_sched_cfs_slack_timer env soon (bw r)) 0 0 r)"
| bw_period: "do_sched_cfs_period_timer now overrun (bw r) = Some (i, s') \<Longrightarrow>
    bw_step env C r (bw_move s' 0 (if i then 0 else 1) r)"
| bw_other: "c \<in> C \<Longrightarrow> (\<And>q. runtime_remaining (f q) = runtime_remaining q) \<Longrightarrow> (\<And>q. throttled (f q) = throttled q) \<Longrightarrow>
    bw_step env C r (bw_move (upd_brq c f (bw r)) 0 0 r)"

definition bw_inv :: "nat set \<Rightarrow> int \<Rightarrow> bw_run \<Rightarrow> bool" where
  "bw_inv C Q r \<longleftrightarrow> bw_pool_ok C Q (bw r) \<and> throttle_list_ok (bw r) \<and> used r + funds C (bw r) \<le> refills r * Q"

lemma bw_move_inv:
  assumes "bw_inv C Q r" "bw_pool_ok C Q s'" "throttle_list_ok s'" "funds C s' + d \<le> funds C (bw r) + k * Q"
  shows "bw_inv C Q (bw_move s' d k r)"
  using assms by (simp add: bw_inv_def bw_move_def distrib_right)

lemma bw_step_inv:
  assumes "finite C" "Q \<noteq> RUNTIME_INF" "0 \<le> Q" "0 \<le> bandwidth_slice env" "bw_inv C Q r" "bw_step env C r r'"
  shows "bw_inv C Q r'"
proof -
  have p: "bw_pool_ok C Q (bw r)" and l: "throttle_list_ok (bw r)" using assms(5) by (simp_all add: bw_inv_def)
  from assms(6) show ?thesis
  proof cases
    case (bw_account c s' now delta)
    have "throttle_list_ok s'" using l by (simp add: bw_account(4) account_list_ok)
    with account_funds [OF assms(1) bw_account(2) assms(2,3) p bw_account(3,4)] show ?thesis
      unfolding bw_account(1) by (intro bw_move_inv [OF assms(5)]) blast+
  next
    case (bw_check c)
    show ?thesis unfolding bw_check(1)
      by (rule bw_move_inv [OF assms(5) _ check_list_ok(1) [OF l]])
        (use throttle_funds [OF bw_check(2) p] p in \<open>simp_all add: check_cfs_rq_runtime_def\<close>)
  next
    case (bw_enqueue c s' now)
    define a where "a = account_cfs_rq_runtime env now c 0 (bw r)"
    have s': "s' = bw r \<or> runtime_enabled (brqs (bw r) c) \<and> (s' = a \<or> s' = throttle_cfs_rq c a)"
      unfolding bw_enqueue(3) check_enqueue_throttle_def Let_def a_def [symmetric] by simp
    have a: "bw_pool_ok C Q a" "funds C a \<le> funds C (bw r) + refilled (bw r) a * Q" if "runtime_enabled (brqs (bw r) c)"
      using account_funds [OF assms(1) bw_enqueue(2) assms(2,3) p that a_def] by simp_all
    have "refilled (bw r) (throttle_cfs_rq c a) = refilled (bw r) a" by (simp add: refilled_def throttle_cfs_rq_def)
    moreover have "throttle_list_ok s'" unfolding bw_enqueue(3) by (rule check_list_ok(2) [OF l])
    ultimately show ?thesis unfolding bw_enqueue(1)
      using s' a p throttle_funds [OF bw_enqueue(2) a(1)] by (intro bw_move_inv [OF assms(5)]) (auto simp: refilled_def)
  next
    case (bw_return c)
    show ?thesis unfolding bw_return(1)
      by (rule bw_move_inv [OF assms(5) _ check_list_ok(3) [OF l]]) (use return_funds [OF assms(1) bw_return(2) p] in simp_all)
  next
    case (bw_slack soon)
    show ?thesis unfolding bw_slack
      by (rule bw_move_inv [OF assms(5) _ slack_list_ok [OF l assms(4)]]) (use slack_funds [OF assms(1) p] in simp_all)
  next
    case (bw_period now overrun i s')
    show ?thesis unfolding bw_period(1)
      using period_timer_partial [OF bw_period(2) assms(1-3) p l] by (intro bw_move_inv [OF assms(5)]) auto
  next
    case (bw_other c f)
    show ?thesis unfolding bw_other(1)
      by (rule bw_move_inv [OF assms(5)]) (use p l assms(1) bw_other(2-) in \<open>simp_all add: throttle_list_ok_upd\<close>)
  qed
qed

interpretation bandwidth: step_invariant "bw_step env C" "\<lambda>r. finite C \<and> Q \<noteq> RUNTIME_INF \<and> 0 \<le> Q \<and> 0 \<le> bandwidth_slice env \<longrightarrow> bw_inv C Q r"
  by unfold_locales (use bw_step_inv in blast)

text \<open>
  C4. A group with a quota never runs longer than the quota times the number of refills, plus the debt that its run queues
  still have to pay, through any sequence of ticks, wake-ups, throttlings, returns of slack and timer expiries on any number
  of processors.
\<close>
theorem bandwidth_respected:
  assumes "finite C" and "Q \<noteq> RUNTIME_INF" and "0 \<le> Q" and "0 \<le> bandwidth_slice env" and "(bw_step env C)\<^sup>*\<^sup>* r r'"
    and "quota (cfs_b (bw r)) = Q" and "runtime (cfs_b (bw r)) = 0" and "throttled_cfs_rq (cfs_b (bw r)) = []"
    and "\<And>c. \<not> throttled (brqs (bw r) c)" and "\<And>c. c \<in> C \<Longrightarrow> runtime_remaining (brqs (bw r) c) = 0"
    and "used r = 0" and "refills r = 0"
  shows "used r' \<le> refills r' * Q + (\<Sum>c \<in> C. max 0 (- runtime_remaining (brqs (bw r') c)))
    \<and> distinct (throttled_cfs_rq (cfs_b (bw r')))
    \<and> {c. throttled (brqs (bw r') c)} = set (throttled_cfs_rq (cfs_b (bw r')))"
proof -
  have "bw_inv C Q r" using assms(6-12) by (simp add: bw_inv_def bw_pool_ok_def funds_def throttle_list_ok_def)
  with bandwidth.steps_inv [OF assms(5), of Q] assms(1-4) have i: "bw_inv C Q r'" by blast
  then have "used r' + funds C (bw r') \<le> refills r' * Q" "0 \<le> runtime (cfs_b (bw r'))" by (simp_all add: bw_inv_def bw_pool_ok_def)
  moreover have "(\<Sum>c \<in> C. - runtime_remaining (brqs (bw r') c)) \<le> (\<Sum>c \<in> C. max 0 (- runtime_remaining (brqs (bw r') c)))"
    by (rule sum_mono) simp
  ultimately have "used r' \<le> refills r' * Q + (\<Sum>c \<in> C. max 0 (- runtime_remaining (brqs (bw r') c)))" by (simp add: funds_def sum_negf)
  with i show ?thesis by (auto simp: bw_inv_def throttle_list_ok_def)
qed

definition fresh_run :: bw_run where
  "fresh_run = \<lparr>bw = \<lparr>cfs_b = sample_pool, brqs = (\<lambda>_. idle_brq)\<rparr>, used = 0, refills = 0\<rparr>"

definition sample_env :: bw_env where
  "sample_env = \<lparr>bandwidth_slice = 5, TICK_NSEC = 10000000\<rparr>"

definition charged_run :: bw_run where
  "charged_run = bw_move (account_cfs_rq_runtime sample_env 0 0 7 (bw fresh_run)) 7 1 fresh_run"

lemma charged_step: "bw_step sample_env {0} fresh_run charged_run"
proof -
  have "refilled (bw fresh_run) (account_cfs_rq_runtime sample_env 0 0 7 (bw fresh_run)) = 1" by code_simp
  moreover have "runtime_enabled (brqs (bw fresh_run) 0)" by (simp add: fresh_run_def idle_brq_def)
  ultimately show ?thesis using bw_account [of 0 "{0}" fresh_run _ sample_env 0 7, OF _ _ refl] by (simp add: charged_run_def)
qed

theorem bandwidth_respected_witness:
  "used charged_run = 7 \<and> used charged_run \<le> refills charged_run * 10 + (\<Sum>c \<in> {0}. max 0 (- runtime_remaining (brqs (bw charged_run) c)))
    \<and> distinct (throttled_cfs_rq (cfs_b (bw charged_run)))
    \<and> {c. throttled (brqs (bw charged_run) c)} = set (throttled_cfs_rq (cfs_b (bw charged_run)))"
proof
  show "used charged_run = 7" by code_simp
  show "used charged_run \<le> refills charged_run * 10 + (\<Sum>c \<in> {0}. max 0 (- runtime_remaining (brqs (bw charged_run) c)))
    \<and> distinct (throttled_cfs_rq (cfs_b (bw charged_run)))
    \<and> {c. throttled (brqs (bw charged_run) c)} = set (throttled_cfs_rq (cfs_b (bw charged_run)))"
    by (rule bandwidth_respected [OF _ _ _ _ r_into_rtranclp [where r = "bw_step sample_env {0}", OF charged_step]])
      (simp_all add: fresh_run_def sample_pool_def sample_env_def idle_brq_def RUNTIME_INF_def)
qed

section \<open>Counts above a throttled group\<close>

text \<open>
  The run queues above a group are consistent when an entity is queued exactly if the run queue of
  its group has load and is not throttled; the run queue of the root group, the last one, is never throttled.
\<close>

fun chain_ok :: "bool \<Rightarrow> level list \<Rightarrow> bool" where
  "chain_ok on [] \<longleftrightarrow> True"
| "chain_ok on (l # ls) \<longleftrightarrow> lv_on_rq l = on \<and> 0 < lv_weight l \<and> (on \<longrightarrow> lv_weight l \<le> lv_load l)
     \<and> (ls = [] \<longrightarrow> \<not> lv_throttled l) \<and> chain_ok (lv_load l \<noteq> 0 \<and> \<not> lv_throttled l) ls"

lemma enqueue_dequeue_level: "lv_on_rq l \<Longrightarrow> enqueue_level (dequeue_level l) = l"
  by (simp add: enqueue_level_def dequeue_level_def)

lemma level_h_nr:
  "enqueue_level (l\<lparr>lv_h_nr_running := n\<rparr>) = (enqueue_level l)\<lparr>lv_h_nr_running := n\<rparr>"
  "dequeue_level (l\<lparr>lv_h_nr_running := n\<rparr>) = (dequeue_level l)\<lparr>lv_h_nr_running := n\<rparr>"
  "lv_h_nr_running (enqueue_level l) = lv_h_nr_running l" "lv_h_nr_running (dequeue_level l) = lv_h_nr_running l"
  "lv_throttled (enqueue_level l) = lv_throttled l" "lv_throttled (dequeue_level l) = lv_throttled l"
  "\<not> lv_on_rq (dequeue_level l)"
  by (simp_all add: enqueue_level_def dequeue_level_def)

lemma unthrottle_throttle_up:
  assumes "chain_ok True ls" and "deq \<Longrightarrow> enq" and "throttle_up deq d ls = (ls', e)"
  shows "unthrottle_up enq d ls' = (ls, e)"
  using assms
proof (induction ls arbitrary: deq enq ls')
  case (Cons l ls)
  define m where "m = (if deq then dequeue_level l else l)"
  obtain ls1 where t: "throttle_up (deq \<and> lv_load m = 0) d ls = (ls1, e)" and ls': "ls' = m\<lparr>lv_h_nr_running := lv_h_nr_running m - d\<rparr> # ls1"
  proof -
    obtain ls1 e1 where t: "throttle_up (deq \<and> lv_load m = 0) d ls = (ls1, e1)" by fastforce
    moreover have "lv_load (m\<lparr>lv_h_nr_running := lv_h_nr_running m - d\<rparr>) = lv_load m" by simp
    ultimately have "throttle_up deq d (l # ls) = (m\<lparr>lv_h_nr_running := lv_h_nr_running m - d\<rparr> # ls1, e1)"
      using Cons.prems(1) unfolding m_def by (simp add: Let_def)
    with Cons.prems(3) t that show thesis by simp
  qed
  have on: "lv_on_rq l" using Cons.prems(1) by simp
  have m: "(if enq \<and> \<not> lv_on_rq m then enqueue_level m else m) = l" "lv_h_nr_running m = lv_h_nr_running l" "lv_throttled m = lv_throttled l"
    using on Cons.prems(2) by (cases deq; simp add: m_def level_h_nr enqueue_dequeue_level)+
  have head: "unthrottle_up enq d ls' = (if lv_throttled l then (l # ls1, False)
      else let (ls, done) = unthrottle_up (enq \<and> \<not> lv_on_rq m) d ls1 in (l # ls, done))"
  proof (cases "enq \<and> \<not> lv_on_rq m")
    case True
    then have "enqueue_level m = l" using m(1) by simp
    with True m(2,3) show ?thesis by (simp add: ls' level_h_nr Let_def)
  next
    case False
    then have "m = l" using m(1) by argo
    with on show ?thesis by (simp add: ls' Let_def)
  qed
  show ?case
  proof (cases "lv_throttled l")
    case True
    then have "ls1 = ls" "e = False" using Cons.prems(1) t by (cases ls; auto)+
    then show ?thesis using True by (simp add: head)
  next
    case False
    moreover have "lv_load l \<noteq> 0" using Cons.prems(1) by auto
    ultimately have ok: "chain_ok True ls" using Cons.prems(1) by simp
    have "unthrottle_up (enq \<and> \<not> lv_on_rq m) d ls1 = (ls, e)"
      by (rule Cons.IH [OF ok _ t]) (use Cons.prems(2) in \<open>simp add: m_def level_h_nr\<close>)
    then show ?thesis using False by (simp add: head)
  qed
qed simp

text \<open>
  Throttling a group takes its tasks out of the counts of every run queue above it, up to the first
  throttled ancestor or the run queue of the processor; unthrottling it puts back exactly the same
  counts, loads and queued entities, whatever nesting of throttled groups lies above.
\<close>
theorem throttle_unthrottle_roundtrip:
  assumes "above (brqs s c) \<noteq> []" and "chain_ok (own_load (brqs s c) \<noteq> 0) (above (brqs s c))" and "\<not> throttled (brqs s c)" and "throttle_list_ok s"
  shows "above (brqs (unthrottle_cfs_rq c (throttle_cfs_rq c s)) c) = above (brqs s c)
    \<and> rq_nr_running (brqs (unthrottle_cfs_rq c (throttle_cfs_rq c s)) c) = rq_nr_running (brqs s c)
    \<and> throttle_counts (brqs (unthrottle_cfs_rq c (throttle_cfs_rq c s)) c) = throttle_counts (brqs s c)
    \<and> throttled_cfs_rq (cfs_b (unthrottle_cfs_rq c (throttle_cfs_rq c s))) = throttled_cfs_rq (cfs_b s)
    \<and> \<not> throttled (brqs (unthrottle_cfs_rq c (throttle_cfs_rq c s)) c)
    \<and> runtime_remaining (brqs (unthrottle_cfs_rq c (throttle_cfs_rq c s)) c) = runtime_remaining (brqs s c)"
proof -
  let ?r = "brqs s c"
  obtain ls e where t: "throttle_up True (h_nr_running ?r) (above ?r) = (ls, e)" by fastforce
  have u: "unthrottle_up True (h_nr_running ?r) ls = (above ?r, e)" if "own_load ?r \<noteq> 0"
    by (rule unthrottle_throttle_up [OF _ _ t]) (use assms(2) that in simp_all)
  have z: "ls = above ?r \<and> e = False" if "own_load ?r = 0"
    using assms(1,2) t that by (cases "above ?r") auto
  have "remove1 c (throttled_cfs_rq (cfs_b s) @ [c]) = throttled_cfs_rq (cfs_b s)"
    using assms(3,4) by (simp add: throttle_list_ok_def remove1_append)
  moreover have "map (\<lambda>n. n - 1) (map Suc ns) = ns" for ns by (induction ns) auto
  ultimately show ?thesis
    using t u z
    by (cases "own_load ?r = 0")
      (simp_all add: unthrottle_cfs_rq_def throttle_cfs_rq_def throttle_chain_def unthrottle_chain_def tg_throttle_down_def tg_unthrottle_up_def Let_def)
qed

theorem throttle_unthrottle_roundtrip_witness:
  "above (brqs (unthrottle_cfs_rq 1 (throttle_cfs_rq 1 debt_sample)) 1) = above (brqs debt_sample 1)
    \<and> rq_nr_running (brqs (unthrottle_cfs_rq 1 (throttle_cfs_rq 1 debt_sample)) 1) = rq_nr_running (brqs debt_sample 1)
    \<and> throttle_counts (brqs (unthrottle_cfs_rq 1 (throttle_cfs_rq 1 debt_sample)) 1) = throttle_counts (brqs debt_sample 1)
    \<and> throttled_cfs_rq (cfs_b (unthrottle_cfs_rq 1 (throttle_cfs_rq 1 debt_sample))) = throttled_cfs_rq (cfs_b debt_sample)
    \<and> \<not> throttled (brqs (unthrottle_cfs_rq 1 (throttle_cfs_rq 1 debt_sample)) 1)
    \<and> runtime_remaining (brqs (unthrottle_cfs_rq 1 (throttle_cfs_rq 1 debt_sample)) 1) = runtime_remaining (brqs debt_sample 1)"
  by (rule throttle_unthrottle_roundtrip) (simp_all add: debt_sample_def sample_pool_def idle_brq_def throttle_list_ok_def)

end
