(* ===== verification/Task_Group.thy ===== *)
theory Task_Group
  imports Cfs_Bandwidth
begin

text \<open>
  Task groups (\<open>hw4/kernel/sched/core.c\<close> and \<open>sched.h\<close>): the tree of groups and the walk over it, the creation and removal of
  groups, the limits of the fair class (quota and period) and of the real-time class (run time and
  period) with the checks that a configuration can be scheduled, and the control files that set them.

  The groups are records in a store, linked by \<open>parent\<close> and by the list of \<open>children\<close> as in the code, so that the walk follows
  the same pointers. The mutexes make each call atomic. The memory allocator and the real-time
  class (\<open>rt.c\<close>, which is not part of the repository) are arguments.
\<close>

section \<open>The walk over the tree\<close>

text \<open>
  \<open>Down\<close> enters a group; \<open>Up c\<close> is the jump to the label \<open>up\<close> with \<open>c\<close> the child that was left: the loop over the
  children continues behind it.
\<close>

datatype walk_pc = Down | Up nat

definition rest_after :: "walk_pc \<Rightarrow> nat list \<Rightarrow> nat list" where
  "rest_after pc cs = (case pc of Down \<Rightarrow> cs | Up c \<Rightarrow> tl (dropWhile (\<lambda>x. x \<noteq> c) cs))"

partial_function (option) walk_loop ::
  "(nat \<Rightarrow> nat list) \<Rightarrow> (nat \<Rightarrow> nat option) \<Rightarrow> nat \<Rightarrow> (nat \<Rightarrow> 's \<Rightarrow> int \<times> 's) \<Rightarrow> (nat \<Rightarrow> 's \<Rightarrow> int \<times> 's) \<Rightarrow> walk_pc \<Rightarrow> nat \<Rightarrow> 's \<Rightarrow> (int \<times> 's) option"
where
  [code]: "walk_loop children parent from down up pc p s =
    (let (ret, s) = (case pc of Down \<Rightarrow> down p s | Up c \<Rightarrow> (0, s))
     in if ret \<noteq> 0 then Some (ret, s)
        else (case rest_after pc (children p) of
            c # cs \<Rightarrow> walk_loop children parent from down up Down c s
          | [] \<Rightarrow> (let (ret, s) = up p s
                   in if ret \<noteq> 0 \<or> p = from then Some (ret, s)
                      else (case parent p of
                          None \<Rightarrow> Some (ret, s)
                        | Some q \<Rightarrow> walk_loop children parent from down up (Up p) q s))))"

definition walk_tg_tree_from ::
  "(nat \<Rightarrow> nat list) \<Rightarrow> (nat \<Rightarrow> nat option) \<Rightarrow> nat \<Rightarrow> (nat \<Rightarrow> 's \<Rightarrow> int \<times> 's) \<Rightarrow> (nat \<Rightarrow> 's \<Rightarrow> int \<times> 's) \<Rightarrow> 's \<Rightarrow> (int \<times> 's) option"
where
  "walk_tg_tree_from children parent from down up s = walk_loop children parent from down up Down from s"

definition tg_nop :: "nat \<Rightarrow> 's \<Rightarrow> int \<times> 's" where
  "tg_nop g s = (0, s)"

lemma tg_nop_apply: "tg_nop g s = (0, s)"
  by (simp add: tg_nop_def)

text \<open>The reference: a recursive traversal of the tree.\<close>

datatype tgtree = Group (tg_root: nat) (tg_subs: "tgtree list")

fun tg_ids :: "tgtree \<Rightarrow> nat list" where
  "tg_ids (Group g ts) = g # concat (map tg_ids ts)"

fun in_store :: "(nat \<Rightarrow> nat list) \<Rightarrow> (nat \<Rightarrow> nat option) \<Rightarrow> tgtree \<Rightarrow> bool" where
  "in_store children parent (Group g ts) \<longleftrightarrow>
     children g = map tg_root ts \<and> (\<forall>t \<in> set ts. parent (tg_root t) = Some g \<and> in_store children parent t)"

fun visit :: "(nat \<Rightarrow> 's \<Rightarrow> int \<times> 's) \<Rightarrow> (nat \<Rightarrow> 's \<Rightarrow> int \<times> 's) \<Rightarrow> tgtree \<Rightarrow> 's \<Rightarrow> int \<times> 's"
  and visits :: "(nat \<Rightarrow> 's \<Rightarrow> int \<times> 's) \<Rightarrow> (nat \<Rightarrow> 's \<Rightarrow> int \<times> 's) \<Rightarrow> tgtree list \<Rightarrow> 's \<Rightarrow> int \<times> 's"
where
  "visit down up (Group g ts) s =
     (let (ret, s) = down g s
      in if ret \<noteq> 0 then (ret, s)
         else let (ret, s) = visits down up ts s in if ret \<noteq> 0 then (ret, s) else up g s)"
| "visits down up [] s = (0, s)"
| "visits down up (t # ts) s = (let (ret, s) = visit down up t s in if ret \<noteq> 0 then (ret, s) else visits down up ts s)"

lemma tg_root_in [simp]: "tg_root t \<in> set (tg_ids t)"
  by (cases t) simp

lemma rest_after_Up: "distinct (xs @ c # ys) \<Longrightarrow> rest_after (Up c) (xs @ c # ys) = ys"
  by (induction xs) (auto simp: rest_after_def)

lemma distinct_roots: "distinct (concat (map tg_ids ts)) \<Longrightarrow> distinct (map tg_root ts)"
proof (induction ts)
  case (Cons t ts)
  have "tg_root t \<noteq> tg_root u" if "u \<in> set ts" for u
  proof
    assume "tg_root t = tg_root u"
    then have "tg_root t \<in> set (tg_ids t) \<inter> set (tg_ids u)" by (simp del: tg_root_in) (metis tg_root_in)
    moreover have "set (tg_ids t) \<inter> set (tg_ids u) = {}" using Cons.prems that by auto
    ultimately show False by blast
  qed
  then have "tg_root t \<notin> tg_root ` set ts" by auto
  with Cons show ?case by simp
qed simp

definition walk_leave ::
  "(nat \<Rightarrow> nat list) \<Rightarrow> (nat \<Rightarrow> nat option) \<Rightarrow> nat \<Rightarrow> (nat \<Rightarrow> 's \<Rightarrow> int \<times> 's) \<Rightarrow> (nat \<Rightarrow> 's \<Rightarrow> int \<times> 's) \<Rightarrow> nat \<Rightarrow> 's \<Rightarrow> (int \<times> 's) option"
where
  "walk_leave children parent from down up p s =
    (let (ret, s) = up p s
     in if ret \<noteq> 0 \<or> p = from then Some (ret, s)
        else (case parent p of None \<Rightarrow> Some (ret, s) | Some q \<Rightarrow> walk_loop children parent from down up (Up p) q s))"

definition walk_children ::
  "(nat \<Rightarrow> nat list) \<Rightarrow> (nat \<Rightarrow> nat option) \<Rightarrow> nat \<Rightarrow> (nat \<Rightarrow> 's \<Rightarrow> int \<times> 's) \<Rightarrow> (nat \<Rightarrow> 's \<Rightarrow> int \<times> 's) \<Rightarrow> walk_pc \<Rightarrow> nat \<Rightarrow> 's \<Rightarrow> (int \<times> 's) option"
where
  "walk_children children parent from down up pc p s =
    (case rest_after pc (children p) of
       c # cs \<Rightarrow> walk_loop children parent from down up Down c s
     | [] \<Rightarrow> walk_leave children parent from down up p s)"

lemma walk_Down:
  "walk_loop children parent from down up Down p s =
    (let (ret, s) = down p s in if ret \<noteq> 0 then Some (ret, s) else walk_children children parent from down up Down p s)"
  by (subst walk_loop.simps) (simp add: walk_children_def walk_leave_def split_beta Let_def cong: list.case_cong option.case_cong if_cong)

lemma walk_Up: "walk_loop children parent from down up (Up c) p s = walk_children children parent from down up (Up c) p s"
  by (subst walk_loop.simps) (simp add: walk_children_def walk_leave_def split_beta Let_def cong: list.case_cong option.case_cong if_cong)

text \<open>The loop below a group that is not the start of the walk, by induction on the tree.\<close>

lemma walk_siblings:
  assumes "\<And>t s. t \<in> set ts \<Longrightarrow> walk_loop children parent from down up Down (tg_root t) s =
      (let (ret, s) = visit down up t s in if ret \<noteq> 0 then Some (ret, s) else walk_loop children parent from down up (Up (tg_root t)) p s)"
    and "children p = pre @ map tg_root ts" and "distinct (children p)" and "rest_after pc (children p) = map tg_root ts"
  shows "walk_children children parent from down up pc p s =
    (let (ret, s) = visits down up ts s in if ret \<noteq> 0 then Some (ret, s) else walk_leave children parent from down up p s)"
  using assms
proof (induction ts arbitrary: pre pc s)
  case (Cons t ts)
  have r: "rest_after (Up (tg_root t)) (children p) = map tg_root ts"
    using rest_after_Up [of pre "tg_root t" "map tg_root ts"] Cons.prems(2,3) by simp
  have "walk_children children parent from down up pc p s = walk_loop children parent from down up Down (tg_root t) s"
    using Cons.prems(4) by (simp add: walk_children_def)
  also have "\<dots> = (let (ret, s) = visit down up t s in if ret \<noteq> 0 then Some (ret, s)
      else walk_children children parent from down up (Up (tg_root t)) p s)"
    using Cons.prems(1) [of t s] by (simp add: walk_Up split_beta Let_def)
  also have "\<dots> = (let (ret, s) = visit down up t s in if ret \<noteq> 0 then Some (ret, s)
      else let (ret, s) = visits down up ts s in if ret \<noteq> 0 then Some (ret, s) else walk_leave children parent from down up p s)"
    using Cons.IH [of "pre @ [tg_root t]" "Up (tg_root t)"] Cons.prems(1-3) r by (simp cong: if_cong)
  finally show ?case by (simp add: Let_def split_beta)
qed (simp add: walk_children_def)

lemma walk_subtree:
  assumes "in_store children parent t" "distinct (tg_ids t)" "from \<notin> set (tg_ids t)" "parent (tg_root t) = Some q"
  shows "walk_loop children parent from down up Down (tg_root t) s =
    (let (ret, s) = visit down up t s in if ret \<noteq> 0 then Some (ret, s) else walk_loop children parent from down up (Up (tg_root t)) q s)"
  using assms
proof (induction t arbitrary: q s)
  case (Group g ts)
  have sub: "walk_loop children parent from down up Down (tg_root t) s =
      (let (ret, s) = visit down up t s in if ret \<noteq> 0 then Some (ret, s) else walk_loop children parent from down up (Up (tg_root t)) g s)"
    if "t \<in> set ts" for t s
    by (rule Group.IH [OF that]) (use that Group.prems in \<open>auto simp: distinct_concat_iff\<close>)
  have c: "walk_children children parent from down up Down g s =
    (let (ret, s) = visits down up ts s in if ret \<noteq> 0 then Some (ret, s) else walk_leave children parent from down up g s)" for s
    by (rule walk_siblings [where pre = "[]", OF sub]) (use Group.prems distinct_roots [of ts] in \<open>auto simp: rest_after_def\<close>)
  show ?case using Group.prems(3,4) by (auto simp: walk_Down c walk_leave_def Let_def split_beta)
qed

lemma walk_visit:
  assumes "in_store children parent t" and "distinct (tg_ids t)"
  shows "walk_tg_tree_from children parent (tg_root t) down up s = Some (visit down up t s)"
proof (cases t)
  case (Group g ts)
  have sub: "walk_loop children parent g down up Down (tg_root t) s =
      (let (ret, s) = visit down up t s in if ret \<noteq> 0 then Some (ret, s) else walk_loop children parent g down up (Up (tg_root t)) g s)"
    if "t \<in> set ts" for t s
    by (rule walk_subtree) (use that assms Group in \<open>auto simp: distinct_concat_iff\<close>)
  have "walk_children children parent g down up Down g s =
    (let (ret, s) = visits down up ts s in if ret \<noteq> 0 then Some (ret, s) else walk_leave children parent g down up g s)" for s
    by (rule walk_siblings [where pre = "[]", OF sub]) (use assms Group distinct_roots [of ts] in \<open>auto simp: rest_after_def\<close>)
  then show ?thesis by (simp add: Group walk_tg_tree_from_def walk_Down walk_leave_def Let_def split_beta)
qed

text \<open>
  C13. The iterative walk over the tree of groups, with its jumps between parent and sibling pointers, visits the groups as the
  recursive traversal does: each group is entered before and left after all groups below it, in the
  order of the sibling lists, and the walk stops at the first visit that returns an error. It always returns.
\<close>
theorem walk_tg_tree_equals_recursion:
  assumes "in_store children parent t" and "distinct (tg_ids t)"
  shows "walk_tg_tree_from children parent (tg_root t) down up s = Some (visit down up t s)"
  by (rule walk_visit [OF assms])

definition sample_tree :: tgtree where
  "sample_tree = Group 0 [Group 1 [Group 2 []], Group 3 []]"

definition sample_children :: "nat \<Rightarrow> nat list" where
  "sample_children g = (if g = 0 then [1, 3] else if g = 1 then [2] else [])"

definition sample_parent :: "nat \<Rightarrow> nat option" where
  "sample_parent g = (if g = 0 then None else if g = 2 then Some 1 else Some 0)"

theorem walk_tg_tree_equals_recursion_witness:
  "walk_tg_tree_from sample_children sample_parent 0 (\<lambda>g s. (0, s @ [g])) (\<lambda>g s. (0, s @ [100 + g])) []
    = Some (0, [0, 1, 2, 102, 101, 3, 103, 100])"
proof -
  have "in_store sample_children sample_parent sample_tree" "distinct (tg_ids sample_tree)"
    by (simp_all add: sample_tree_def sample_children_def sample_parent_def)
  from walk_tg_tree_equals_recursion [OF this, of "\<lambda>g s. (0, s @ [g])" "\<lambda>g s. (0, s @ [100 + g])" "[]"]
  show ?thesis by (simp add: sample_tree_def)
qed

section \<open>Groups\<close>

record task_group =
  tg_parent :: "nat option"
  tg_children :: "nat list"
  shares :: ulong
  bandwidth :: bsys
  hierarchal_quota :: int
  rt_period :: int
  rt_runtime :: int
  rt_rq_runtime :: "nat \<Rightarrow> int"

record groups =
  tgs :: "nat \<Rightarrow> task_group"
  task_groups :: "nat list"

definition root_task_group :: nat where "root_task_group = 0"

definition NSEC_PER_USEC :: int where "NSEC_PER_USEC = 1000"

definition upd_tg :: "nat \<Rightarrow> (task_group \<Rightarrow> task_group) \<Rightarrow> groups \<Rightarrow> groups" where
  "upd_tg g f s = s\<lparr>tgs := (tgs s)(g := f (tgs s g))\<rparr>"

lemma upd_tg_simps [simp]:
  "tgs (upd_tg g f s) h = (if h = g then f (tgs s g) else tgs s h)" "task_groups (upd_tg g f s) = task_groups s"
  by (simp_all add: upd_tg_def)

definition walk_tg_tree :: "(nat \<Rightarrow> groups \<Rightarrow> int \<times> groups) \<Rightarrow> (nat \<Rightarrow> groups \<Rightarrow> int \<times> groups) \<Rightarrow> groups \<Rightarrow> (int \<times> groups) option" where
  "walk_tg_tree down up s =
    walk_tg_tree_from (\<lambda>g. tg_children (tgs s g)) (\<lambda>g. tg_parent (tgs s g)) root_task_group down up s"

definition to_s64 :: "int \<Rightarrow> int" where
  "to_s64 x = signed_take_bit 63 x"

text \<open>The share of a period, in units of \<open>2 ^ -20\<close>; an \<open>unsigned long\<close>. Callers pass periods other than 0.\<close>

definition to_ratio :: "int \<Rightarrow> int \<Rightarrow> int" where
  "to_ratio prd rt = (if rt = RUNTIME_INF then 2 ^ 20 else (to_u64 (rt * 2 ^ 20) div prd) mod 2 ^ 32)"

section \<open>Limits of the fair class\<close>

definition tg_get_cfs_quota :: "task_group \<Rightarrow> int" where
  "tg_get_cfs_quota tg =
    (if quota (cfs_b (bandwidth tg)) = RUNTIME_INF then - 1 else wrap_s32 (quota (cfs_b (bandwidth tg)) div NSEC_PER_USEC))"

definition tg_get_cfs_period :: "task_group \<Rightarrow> int" where
  "tg_get_cfs_period tg = wrap_s32 (uint (period (cfs_b (bandwidth tg))) div NSEC_PER_USEC)"

record cfs_schedulable_data =
  d_tg :: nat
  d_period :: int
  d_quota :: int

definition normalize_cfs_quota :: "cfs_schedulable_data \<Rightarrow> nat \<Rightarrow> groups \<Rightarrow> int" where
  "normalize_cfs_quota d g s =
    (let (prd, qta) = (if g = d_tg d then (d_period d, d_quota d)
                       else (to_u64 (tg_get_cfs_period (tgs s g)), to_u64 (tg_get_cfs_quota (tgs s g))))
     in if qta = RUNTIME_INF then RUNTIME_INF else to_ratio prd qta)"

definition tg_cfs_schedulable_down :: "cfs_schedulable_data \<Rightarrow> nat \<Rightarrow> groups \<Rightarrow> int \<times> groups" where
  "tg_cfs_schedulable_down d g s =
    (case tg_parent (tgs s g) of
       None \<Rightarrow> (0, upd_tg g (\<lambda>tg. tg\<lparr>hierarchal_quota := to_s64 RUNTIME_INF\<rparr>) s)
     | Some p \<Rightarrow>
         (let qta = to_s64 (normalize_cfs_quota d g s); parent_quota = hierarchal_quota (tgs s p)
          in if to_u64 qta = RUNTIME_INF then (0, upd_tg g (\<lambda>tg. tg\<lparr>hierarchal_quota := parent_quota\<rparr>) s)
             else if to_u64 parent_quota \<noteq> RUNTIME_INF \<and> qta > parent_quota then (- EINVAL, s)
             else (0, upd_tg g (\<lambda>tg. tg\<lparr>hierarchal_quota := qta\<rparr>) s)))"

definition cfs_schedulable :: "nat \<Rightarrow> int \<Rightarrow> int \<Rightarrow> groups \<Rightarrow> (int \<times> groups) option" where
  "cfs_schedulable g prd qta s =
    (let d = (if qta \<noteq> RUNTIME_INF then \<lparr>d_tg = g, d_period = prd div NSEC_PER_USEC, d_quota = qta div NSEC_PER_USEC\<rparr>
              else \<lparr>d_tg = g, d_period = prd, d_quota = qta\<rparr>)
     in walk_tg_tree (tg_cfs_schedulable_down d) tg_nop s)"

definition max_cfs_quota_period :: int where "max_cfs_quota_period = 1000000000"
definition min_cfs_quota_period :: int where "min_cfs_quota_period = 1000000"

fun reset_cfs_rqs :: "bool \<Rightarrow> nat list \<Rightarrow> bsys \<Rightarrow> bsys" where
  "reset_cfs_rqs enabled [] s = s"
| "reset_cfs_rqs enabled (c # cs) s =
    (let s = upd_brq c (\<lambda>r. r\<lparr>runtime_enabled := enabled, runtime_remaining := 0\<rparr>) s;
         s = (if throttled (brqs s c) then unthrottle_cfs_rq c s else s)
     in reset_cfs_rqs enabled cs s)"

definition set_bandwidth :: "nat list \<Rightarrow> u64 \<Rightarrow> int \<Rightarrow> int \<Rightarrow> bsys \<Rightarrow> bsys" where
  "set_bandwidth cpus now prd qta s =
    (let enabled = (qta \<noteq> RUNTIME_INF);
         s = upd_b (\<lambda>b. refill_cfs_bandwidth_runtime now (b\<lparr>period := word_of_int prd, quota := qta\<rparr>)) s;
         s = (if enabled \<and> timer_active (cfs_b s) then upd_b (\<lambda>b. start_cfs_bandwidth (b\<lparr>timer_active := False\<rparr>)) s else s)
     in reset_cfs_rqs enabled cpus s)"

definition tg_set_cfs_bandwidth :: "nat list \<Rightarrow> u64 \<Rightarrow> nat \<Rightarrow> int \<Rightarrow> int \<Rightarrow> groups \<Rightarrow> (int \<times> groups) option" where
  "tg_set_cfs_bandwidth cpus now g prd qta s =
    (if g = root_task_group then Some (- EINVAL, s)
     else if qta < min_cfs_quota_period \<or> prd < min_cfs_quota_period then Some (- EINVAL, s)
     else if prd > max_cfs_quota_period then Some (- EINVAL, s)
     else (case cfs_schedulable g prd qta s of
         None \<Rightarrow> None
       | Some (ret, s) \<Rightarrow>
           if ret \<noteq> 0 then Some (ret, s)
           else Some (0, upd_tg g (\<lambda>tg. tg\<lparr>bandwidth := set_bandwidth cpus now prd qta (bandwidth tg)\<rparr>) s)))"

definition tg_set_cfs_quota :: "nat list \<Rightarrow> u64 \<Rightarrow> nat \<Rightarrow> int \<Rightarrow> groups \<Rightarrow> (int \<times> groups) option" where
  "tg_set_cfs_quota cpus now g cfs_quota_us s =
    tg_set_cfs_bandwidth cpus now g (uint (period (cfs_b (bandwidth (tgs s g)))))
      (if cfs_quota_us < 0 then RUNTIME_INF else to_u64 (cfs_quota_us * NSEC_PER_USEC)) s"

definition tg_set_cfs_period :: "nat list \<Rightarrow> u64 \<Rightarrow> nat \<Rightarrow> int \<Rightarrow> groups \<Rightarrow> (int \<times> groups) option" where
  "tg_set_cfs_period cpus now g cfs_period_us s =
    tg_set_cfs_bandwidth cpus now g (to_u64 (cfs_period_us * NSEC_PER_USEC)) (quota (cfs_b (bandwidth (tgs s g)))) s"

text \<open>The specification: no group has a larger share than the nearest limited group above it.\<close>

definition limit_of :: "cfs_schedulable_data \<Rightarrow> groups \<Rightarrow> nat \<Rightarrow> int option" where
  "limit_of d s g = (if normalize_cfs_quota d g s = RUNTIME_INF then None else Some (normalize_cfs_quota d g s))"

fun group_fits :: "(nat \<Rightarrow> int option) \<Rightarrow> int option \<Rightarrow> tgtree \<Rightarrow> bool" where
  "group_fits lim L (Group g ts) \<longleftrightarrow>
     (case lim g of
        None \<Rightarrow> (\<forall>t \<in> set ts. group_fits lim L t)
      | Some r \<Rightarrow> (case L of None \<Rightarrow> True | Some a \<Rightarrow> r \<le> a) \<and> (\<forall>t \<in> set ts. group_fits lim (Some r) t))"

definition enc_limit :: "int option \<Rightarrow> int" where
  "enc_limit L = (case L of None \<Rightarrow> - 1 | Some r \<Rightarrow> r)"

lemma to_ratio_range: "0 \<le> to_ratio p r \<and> to_ratio p r < 2 ^ 32"
  by (simp add: to_ratio_def)

lemma normalize_range: "normalize_cfs_quota d g s = RUNTIME_INF \<or> 0 \<le> normalize_cfs_quota d g s \<and> normalize_cfs_quota d g s < 2 ^ 32"
  using to_ratio_range by (simp add: normalize_cfs_quota_def split_beta Let_def)

lemma to_s64_id: "- (2 ^ 63) \<le> x \<Longrightarrow> x < 2 ^ 63 \<Longrightarrow> to_s64 x = x"
  by (simp add: to_s64_def signed_take_bit_int_eq_self)

lemma to_s64_INF: "to_s64 RUNTIME_INF = - 1"
  by (simp add: to_s64_def RUNTIME_INF_def)

definition with_hq :: "(nat \<Rightarrow> int) \<Rightarrow> groups \<Rightarrow> groups" where
  "with_hq h s = s\<lparr>tgs := (\<lambda>g. (tgs s g)\<lparr>hierarchal_quota := h g\<rparr>)\<rparr>"

lemma with_hq_simps [simp]:
  "tgs (with_hq h s) g = (tgs s g)\<lparr>hierarchal_quota := h g\<rparr>" "task_groups (with_hq h s) = task_groups s"
  "with_hq h (with_hq k s) = with_hq h s" "normalize_cfs_quota d g (with_hq h s) = normalize_cfs_quota d g s"
  "limit_of d (with_hq h s) = limit_of d s"
  by (simp_all add: with_hq_def normalize_cfs_quota_def limit_of_def tg_get_cfs_period_def tg_get_cfs_quota_def fun_eq_iff)

lemma with_hq_self: "with_hq (\<lambda>g. hierarchal_quota (tgs s g)) s = s"
  by (simp add: with_hq_def)

lemma upd_tg_with_hq: "upd_tg g (\<lambda>tg. tg\<lparr>hierarchal_quota := q\<rparr>) (with_hq h s) = with_hq (h(g := q)) s"
  by (auto simp: upd_tg_def with_hq_def fun_eq_iff)

lemma schedulable_down_child:
  assumes "tg_parent (tgs s g) = Some p" "h p = enc_limit L" "\<And>r. L = Some r \<Longrightarrow> 0 \<le> r \<and> r < 2 ^ 32"
  shows "tg_cfs_schedulable_down d g (with_hq h s) =
    (case limit_of d s g of
       None \<Rightarrow> (0, with_hq (h(g := enc_limit L)) s)
     | Some r \<Rightarrow> if (case L of None \<Rightarrow> True | Some a \<Rightarrow> r \<le> a) then (0, with_hq (h(g := r)) s) else (- EINVAL, with_hq h s))"
proof -
  have u: "to_u64 x = RUNTIME_INF \<longleftrightarrow> x = - 1" if "x = - 1 \<or> 0 \<le> x \<and> x < 2 ^ 32" for x
    using that by (auto simp: to_u64_def RUNTIME_INF_def)
  have e: "enc_limit L = - 1 \<or> 0 \<le> enc_limit L \<and> enc_limit L < 2 ^ 32" "enc_limit L = - 1 \<longleftrightarrow> L = None"
    using assms(3) by (cases L; force simp: enc_limit_def)+
  show ?thesis
  proof (cases "normalize_cfs_quota d g s = RUNTIME_INF")
    case True
    then show ?thesis using assms(1,2) u [of "- 1"]
      by (simp add: tg_cfs_schedulable_down_def limit_of_def to_s64_INF upd_tg_with_hq)
  next
    case False
    let ?q = "normalize_cfs_quota d g s"
    have q: "0 \<le> ?q" "?q < 2 ^ 32" using normalize_range [of d g s] False by auto
    then have s: "to_s64 ?q = ?q" "to_u64 ?q \<noteq> RUNTIME_INF" using to_s64_id [of ?q] u [of ?q] by auto
    show ?thesis
      using assms(1,2) s False e u [OF e(1)]
      by (cases L) (auto simp: tg_cfs_schedulable_down_def limit_of_def upd_tg_with_hq enc_limit_def Let_def)
  qed
qed

definition group_tree :: "groups \<Rightarrow> tgtree \<Rightarrow> bool" where
  "group_tree s t \<longleftrightarrow> in_store (\<lambda>g. tg_children (tgs s g)) (\<lambda>g. tg_parent (tgs s g)) t \<and> distinct (tg_ids t)
     \<and> tg_root t = root_task_group \<and> tg_parent (tgs s root_task_group) = None"

definition visit_result :: "groups \<Rightarrow> (nat \<Rightarrow> int) \<Rightarrow> nat set \<Rightarrow> bool \<Rightarrow> int \<times> groups \<Rightarrow> bool" where
  "visit_result s h G ok res \<longleftrightarrow> (\<exists>h'. res = (if ok then 0 else - EINVAL, with_hq h' s) \<and> (\<forall>g. g \<notin> G \<longrightarrow> h' g = h g))"

lemma visits_children:
  assumes "\<And>t h. t \<in> set ts \<Longrightarrow> h p = e \<Longrightarrow> visit_result s h (set (tg_ids t)) (P t) (visit down tg_nop t (with_hq h s))"
    and "\<And>t. t \<in> set ts \<Longrightarrow> p \<notin> set (tg_ids t)" and "h p = e"
  shows "visit_result s h (\<Union>t \<in> set ts. set (tg_ids t)) (\<forall>t \<in> set ts. P t) (visits down tg_nop ts (with_hq h s))"
  using assms
proof (induction ts arbitrary: h)
  case (Cons t ts)
  from Cons.prems(1) [of t h] Cons.prems(3) obtain h1 where
    1: "visit down tg_nop t (with_hq h s) = (if P t then 0 else - EINVAL, with_hq h1 s)" "\<forall>g. g \<notin> set (tg_ids t) \<longrightarrow> h1 g = h g"
    by (auto simp: visit_result_def)
  show ?case
  proof (cases "P t")
    case True
    have "h1 p = e" using 1(2) Cons.prems(2,3) by simp
    have "visit_result s h1 (\<Union>t \<in> set ts. set (tg_ids t)) (\<forall>t \<in> set ts. P t) (visits down tg_nop ts (with_hq h1 s))"
      by (rule Cons.IH) (use Cons.prems(1,2) \<open>h1 p = e\<close> in simp_all)
    then obtain h2 where
      2: "visits down tg_nop ts (with_hq h1 s) = (if \<forall>t \<in> set ts. P t then 0 else - EINVAL, with_hq h2 s)"
         "\<forall>g. g \<notin> (\<Union>t \<in> set ts. set (tg_ids t)) \<longrightarrow> h2 g = h1 g"
      by (auto simp: visit_result_def)
    show ?thesis unfolding visit_result_def by (rule exI [of _ h2]) (use 1 2 True in auto)
  next
    case False
    show ?thesis unfolding visit_result_def by (rule exI [of _ h1]) (use 1 False in \<open>auto simp: EINVAL_def\<close>)
  qed
qed (auto simp: visit_result_def)

lemma schedulable_visit:
  assumes "in_store (\<lambda>g. tg_children (tgs s g)) (\<lambda>g. tg_parent (tgs s g)) t" "distinct (tg_ids t)"
    "tg_parent (tgs s (tg_root t)) = Some p" "p \<notin> set (tg_ids t)" "h p = enc_limit L" "\<And>r. L = Some r \<Longrightarrow> 0 \<le> r \<and> r < 2 ^ 32"
  shows "visit_result s h (set (tg_ids t)) (group_fits (limit_of d s) L t) (visit (tg_cfs_schedulable_down d) tg_nop t (with_hq h s))"
  using assms
proof (induction t arbitrary: p h L)
  case (Group g ts)
  have sub: "visit_result s k (set (tg_ids t)) (group_fits (limit_of d s) K t) (visit (tg_cfs_schedulable_down d) tg_nop t (with_hq k s))"
    if "t \<in> set ts" "k g = enc_limit K" "\<And>r. K = Some r \<Longrightarrow> 0 \<le> r \<and> r < 2 ^ 32" for t k K
    by (rule Group.IH [where p = g]) (use that Group.prems(1,2) in \<open>auto simp: distinct_concat_iff\<close>)
  note down = schedulable_down_child [where d = d and h = h and s = s, OF Group.prems(3) [simplified] Group.prems(5,6)]
  have go: ?case if v: "tg_cfs_schedulable_down d g (with_hq h s) = (0, with_hq (h(g := enc_limit K)) s)"
    "\<And>r. K = Some r \<Longrightarrow> 0 \<le> r \<and> r < 2 ^ 32"
    "group_fits (limit_of d s) L (Group g ts) \<longleftrightarrow> (\<forall>t \<in> set ts. group_fits (limit_of d s) K t)" for K
  proof -
    have "visit_result s (h(g := enc_limit K)) (\<Union>t \<in> set ts. set (tg_ids t)) (\<forall>t \<in> set ts. group_fits (limit_of d s) K t)
        (visits (tg_cfs_schedulable_down d) tg_nop ts (with_hq (h(g := enc_limit K)) s))"
      by (rule visits_children [where p = g and e = "enc_limit K", OF sub]) (use Group.prems(2) v(2) in auto)
    then obtain h' where h': "visits (tg_cfs_schedulable_down d) tg_nop ts (with_hq (h(g := enc_limit K)) s)
        = (if \<forall>t \<in> set ts. group_fits (limit_of d s) K t then 0 else - EINVAL, with_hq h' s)"
      "\<forall>x. x \<notin> (\<Union>t \<in> set ts. set (tg_ids t)) \<longrightarrow> h' x = (h(g := enc_limit K)) x" by (auto simp: visit_result_def)
    show ?thesis unfolding visit_result_def v(3)
      by (rule exI [of _ h']) (use h' in \<open>auto simp: v(1) EINVAL_def tg_nop_apply [of g "with_hq h' s"]\<close>)
  qed
  show ?case
  proof (cases "limit_of d s g")
    case None
    show ?thesis by (rule go [of L]) (use None down Group.prems(6) in simp_all)
  next
    case (Some r)
    then have r: "0 \<le> r \<and> r < 2 ^ 32" using normalize_range [of d g s] by (auto simp: limit_of_def split: if_splits)
    show ?thesis
    proof (cases "case L of None \<Rightarrow> True | Some a \<Rightarrow> r \<le> a")
      case True
      show ?thesis by (rule go [of "Some r"]) (use Some r True down in \<open>simp_all add: enc_limit_def\<close>)
    next
      case False
      have "\<not> group_fits (limit_of d s) L (Group g ts)" using Some False by simp
      moreover have "tg_cfs_schedulable_down d g (with_hq h s) = (- EINVAL, with_hq h s)" using down Some False by simp
      ultimately show ?thesis by (auto simp: visit_result_def EINVAL_def)
    qed
  qed
qed

text \<open>
  \<open>__cfs_schedulable\<close> returns, and it accepts exactly the configurations in which no group, with the new setting of the
  one that changes, is given a larger share of its period than the nearest limited group above it; else it returns \<open>-EINVAL\<close>. Whatever it
  answers, only the cached \<open>hierarchal_quota\<close> of groups changes.
\<close>
lemma cfs_schedulable_full:
  assumes "group_tree s t" and d: "d = (if qta \<noteq> RUNTIME_INF then \<lparr>d_tg = g, d_period = prd div NSEC_PER_USEC, d_quota = qta div NSEC_PER_USEC\<rparr>
      else \<lparr>d_tg = g, d_period = prd, d_quota = qta\<rparr>)"
  shows "\<exists>h. cfs_schedulable g prd qta s
    = Some (if \<forall>u \<in> set (tg_subs t). group_fits (limit_of d s) None u then 0 else - EINVAL, with_hq h s)"
proof -
  let ?hq = "\<lambda>g. hierarchal_quota (tgs s g)"
  obtain ts where t: "t = Group root_task_group ts" using assms(1) by (cases t) (simp add: group_tree_def)
  have i: "in_store (\<lambda>g. tg_children (tgs s g)) (\<lambda>g. tg_parent (tgs s g)) t" "distinct (tg_ids t)" "tg_parent (tgs s root_task_group) = None"
    using assms(1) by (simp_all add: group_tree_def)
  have "visit_result s (?hq(root_task_group := - 1)) (\<Union>t \<in> set ts. set (tg_ids t)) (\<forall>t \<in> set ts. group_fits (limit_of d s) None t)
      (visits (tg_cfs_schedulable_down d) tg_nop ts (with_hq (?hq(root_task_group := - 1)) s))"
    by (rule visits_children [where p = root_task_group and e = "- 1"], rule schedulable_visit [where p = root_task_group])
      (use i t in \<open>auto simp: distinct_concat_iff enc_limit_def\<close>)
  moreover have "tg_cfs_schedulable_down d root_task_group s = (0, with_hq (?hq(root_task_group := - 1)) s)"
    using upd_tg_with_hq [of root_task_group "- 1" ?hq s] i(3) by (simp add: tg_cfs_schedulable_down_def to_s64_INF with_hq_self)
  moreover have "cfs_schedulable g prd qta s = Some (visit (tg_cfs_schedulable_down d) tg_nop t s)"
    using walk_visit [OF i(1,2), of "tg_cfs_schedulable_down d" tg_nop s] t d
    by (simp add: cfs_schedulable_def walk_tg_tree_def)
  ultimately obtain h' where "cfs_schedulable g prd qta s = Some (visit (tg_cfs_schedulable_down d) tg_nop t s)"
    "tg_cfs_schedulable_down d root_task_group s = (0, with_hq (?hq(root_task_group := - 1)) s)"
    "visits (tg_cfs_schedulable_down d) tg_nop ts (with_hq (?hq(root_task_group := - 1)) s)
      = (if \<forall>t \<in> set ts. group_fits (limit_of d s) None t then 0 else - EINVAL, with_hq h' s)"
    by (auto simp: visit_result_def)
  then show ?thesis by (intro exI [of _ h']) (auto simp: t EINVAL_def tg_nop_apply [of root_task_group "with_hq h' s"])
qed

definition stored_limit :: "groups \<Rightarrow> nat \<Rightarrow> int option" where
  "stored_limit s g =
    (if to_u64 (tg_get_cfs_quota (tgs s g)) = RUNTIME_INF then None
     else Some (to_ratio (to_u64 (tg_get_cfs_period (tgs s g))) (to_u64 (tg_get_cfs_quota (tgs s g)))))"

definition limits_fit :: "groups \<Rightarrow> tgtree \<Rightarrow> bool" where
  "limits_fit s t \<longleftrightarrow> (\<forall>u \<in> set (tg_subs t). group_fits (stored_limit s) None u)"

lemma to_ratio_not_INF: "to_ratio p r \<noteq> RUNTIME_INF"
  using to_ratio_range [of p r] by (auto simp: RUNTIME_INF_def)

lemma limit_of_other: "g \<noteq> d_tg d \<Longrightarrow> limit_of d s g = stored_limit s g"
  by (simp add: limit_of_def stored_limit_def normalize_cfs_quota_def to_ratio_not_INF)

lemma reset_cfs_rqs_props:
  "quota (cfs_b (reset_cfs_rqs en cs s)) = quota (cfs_b s)" "period (cfs_b (reset_cfs_rqs en cs s)) = period (cfs_b s)"
  by (induction cs arbitrary: s) (simp_all add: Let_def unthrottle_cfs_rq_def)

lemma set_bandwidth_stored:
  "quota (cfs_b (set_bandwidth cpus now prd qta s)) = qta" "period (cfs_b (set_bandwidth cpus now prd qta s)) = word_of_int prd"
  by (simp_all add: set_bandwidth_def Let_def reset_cfs_rqs_props refill_cfs_bandwidth_runtime_def start_cfs_bandwidth_def)

lemma group_fits_cong: "(\<And>g. g \<in> set (tg_ids t) \<Longrightarrow> lim g = lim' g) \<Longrightarrow> group_fits lim L t = group_fits lim' L t"
  by (induction t arbitrary: L) (auto split: option.splits)

lemma set_bandwidth_full:
  assumes t: "group_tree s t" and q: "qta = RUNTIME_INF \<or> 0 \<le> qta \<and> qta div NSEC_PER_USEC < 2 ^ 31"
  shows "(\<exists>h. tg_set_cfs_bandwidth cpus now g prd qta s = Some (- EINVAL, with_hq h s))
    \<or> (\<exists>h s'. tg_set_cfs_bandwidth cpus now g prd qta s = Some (0, s') \<and> g \<noteq> root_task_group \<and> limits_fit s' t
        \<and> min_cfs_quota_period \<le> prd \<and> prd \<le> max_cfs_quota_period
        \<and> s' = upd_tg g (\<lambda>tg. tg\<lparr>bandwidth := set_bandwidth cpus now prd qta (bandwidth tg)\<rparr>) (with_hq h s))"
proof (cases "g = root_task_group \<or> qta < min_cfs_quota_period \<or> prd < min_cfs_quota_period \<or> prd > max_cfs_quota_period")
  case True
  then have "tg_set_cfs_bandwidth cpus now g prd qta s = Some (- EINVAL, s)" by (auto simp: tg_set_cfs_bandwidth_def)
  then show ?thesis by (metis with_hq_self)
next
  case False
  define d where "d = (if qta \<noteq> RUNTIME_INF then \<lparr>d_tg = g, d_period = prd div NSEC_PER_USEC, d_quota = qta div NSEC_PER_USEC\<rparr>
      else \<lparr>d_tg = g, d_period = prd, d_quota = qta\<rparr>)"
  from cfs_schedulable_full [OF t d_def] obtain h where
    h: "cfs_schedulable g prd qta s = Some (if \<forall>u \<in> set (tg_subs t). group_fits (limit_of d s) None u then 0 else - EINVAL, with_hq h s)" by blast
  define s' where "s' = upd_tg g (\<lambda>tg. tg\<lparr>bandwidth := set_bandwidth cpus now prd qta (bandwidth tg)\<rparr>) (with_hq h s)"
  have p: "0 \<le> prd" "prd \<le> 1000000000" using False by (simp_all add: min_cfs_quota_period_def max_cfs_quota_period_def)
  have "stored_limit s' x = limit_of d s x" for x
  proof (cases "x = g")
    case False
    then show ?thesis
      by (subst limit_of_other) (simp_all add: d_def s'_def stored_limit_def tg_get_cfs_quota_def tg_get_cfs_period_def)
  next
    case True
    have "uint (word_of_int prd :: u64) = prd" using p by (simp add: uint_word_of_int_eq take_bit_int_eq_self)
    moreover have "wrap_s32 (prd div 1000) = prd div 1000" using p by (intro wrap_s32_id) auto
    moreover have "wrap_s32 (qta div 1000) = qta div 1000" "0 \<le> qta div 1000" "qta div 1000 < 2 ^ 31" if "qta \<noteq> RUNTIME_INF"
      using q that by (auto intro: wrap_s32_id simp: NSEC_PER_USEC_def)
    moreover have "to_u64 x = x" if "0 \<le> x" "x < 2 ^ 31" for x using that by (simp add: to_u64_def)
    moreover have "to_u64 (- 1) = RUNTIME_INF" by (simp add: to_u64_def RUNTIME_INF_def)
    ultimately show ?thesis
      using True p
      by (cases "qta = RUNTIME_INF")
        (auto simp: s'_def stored_limit_def limit_of_def normalize_cfs_quota_def d_def tg_get_cfs_quota_def tg_get_cfs_period_def
          set_bandwidth_stored NSEC_PER_USEC_def to_ratio_not_INF [unfolded RUNTIME_INF_def, simplified] RUNTIME_INF_def)
  qed
  then have "limits_fit s' t \<longleftrightarrow> (\<forall>u \<in> set (tg_subs t). group_fits (limit_of d s) None u)"
    by (auto simp: limits_fit_def cong: group_fits_cong)
  with h False show ?thesis
    by (cases "limits_fit s' t") (auto simp: tg_set_cfs_bandwidth_def s'_def EINVAL_def)
qed

text \<open>What the setting does to the run queues of the group.\<close>

lemma reset_cfs_rqs_clean:
  "throttle_list_ok s \<Longrightarrow> throttle_list_ok (reset_cfs_rqs en cs s) \<and>
    (\<forall>c. c \<in> set cs \<or> \<not> throttled (brqs s c) \<and> runtime_remaining (brqs s c) = 0 \<longrightarrow>
      \<not> throttled (brqs (reset_cfs_rqs en cs s) c) \<and> runtime_remaining (brqs (reset_cfs_rqs en cs s) c) = 0)"
proof (induction cs arbitrary: s)
  case (Cons c cs)
  define s1 where "s1 = upd_brq c (\<lambda>r. r\<lparr>runtime_enabled := en, runtime_remaining := 0\<rparr>) s"
  define s2 where "s2 = (if throttled (brqs s1 c) then unthrottle_cfs_rq c s1 else s1)"
  have 1: "throttle_list_ok s1" using Cons.prems by (simp add: s1_def throttle_list_ok_upd)
  then have 2: "throttle_list_ok s2" by (simp add: s2_def throttle_list_ok_unthrottle)
  have c: "\<not> throttled (brqs s2 c)" "runtime_remaining (brqs s2 c) = 0" by (simp_all add: s2_def s1_def)
  have o: "\<not> throttled (brqs s2 d) \<and> runtime_remaining (brqs s2 d) = 0"
    if "\<not> throttled (brqs s d)" "runtime_remaining (brqs s d) = 0" for d
    using that by (simp add: s2_def s1_def)
  have "reset_cfs_rqs en (c # cs) s = reset_cfs_rqs en cs s2" by (simp add: s1_def s2_def Let_def)
  with Cons.IH [OF 2] c o show ?case by auto
qed simp

text \<open>
  The limits of the fair class stay consistent: \<open>tg_set_cfs_quota\<close> returns; it either refuses with \<open>-EINVAL\<close> and
  leaves quotas, periods and run queues as they were, or stores a quota that \<open>tg_get_cfs_quota\<close> reads back, after which no group has a
  larger share than the limited groups above it, and every run queue of the group starts
  afresh, unthrottled.
\<close>
theorem cfs_quota_set_get:
  assumes "group_tree s t" and "- (2 ^ 31) \<le> q" and "q < 2 ^ 31" and "throttle_list_ok (bandwidth (tgs s g))"
  shows "\<exists>ret s'. tg_set_cfs_quota cpus now g q s = Some (ret, s') \<and> (ret = 0 \<or> ret = - EINVAL)
    \<and> (if ret = 0 then limits_fit s' t \<and> tg_get_cfs_quota (tgs s' g) = (if q < 0 then - 1 else q)
          \<and> tg_get_cfs_period (tgs s' g) = tg_get_cfs_period (tgs s g)
          \<and> list_all (\<lambda>c. \<not> throttled (brqs (bandwidth (tgs s' g)) c) \<and> runtime_remaining (brqs (bandwidth (tgs s' g)) c) = 0) cpus
        else \<forall>h. (tgs s' h)\<lparr>hierarchal_quota := 0\<rparr> = (tgs s h)\<lparr>hierarchal_quota := 0\<rparr>)"
proof -
  let ?p = "uint (period (cfs_b (bandwidth (tgs s g))))"
  let ?q = "if q < 0 then RUNTIME_INF else to_u64 (q * NSEC_PER_USEC)"
  have u: "to_u64 (q * 1000) = q * 1000" if "\<not> q < 0" using assms(3) that by (simp add: to_u64_def)
  then have q: "?q = (if q < 0 then RUNTIME_INF else q * 1000)" by (simp add: NSEC_PER_USEC_def)
  have "?q = RUNTIME_INF \<or> 0 \<le> ?q \<and> ?q div NSEC_PER_USEC < 2 ^ 31"
    using assms(2,3) unfolding q by (simp add: NSEC_PER_USEC_def)
  from set_bandwidth_full [OF assms(1) this, of cpus now g ?p]
  consider h where "tg_set_cfs_bandwidth cpus now g ?p ?q s = Some (- EINVAL, with_hq h s)"
    | h s' where "tg_set_cfs_bandwidth cpus now g ?p ?q s = Some (0, s')" "limits_fit s' t"
        "s' = upd_tg g (\<lambda>tg. tg\<lparr>bandwidth := set_bandwidth cpus now ?p ?q (bandwidth tg)\<rparr>) (with_hq h s)" by blast
  then show ?thesis
  proof cases
    case 1
    then show ?thesis by (intro exI [of _ "- EINVAL"] exI [of _ "with_hq h s"]) (simp add: tg_set_cfs_quota_def EINVAL_def)
  next
    case 2
    let ?b = "set_bandwidth cpus now ?p ?q (bandwidth (tgs s g))"
    have b: "bandwidth (tgs s' g) = ?b" by (simp add: 2(3))
    have "q < 0 \<or> q * 1000 \<noteq> RUNTIME_INF" using assms(3) by (simp add: RUNTIME_INF_def)
    then have "tg_get_cfs_quota (tgs s' g) = (if q < 0 then - 1 else q)"
      using assms(2,3) by (auto simp: tg_get_cfs_quota_def b set_bandwidth_stored u NSEC_PER_USEC_def wrap_s32_id)
    moreover have "tg_get_cfs_period (tgs s' g) = tg_get_cfs_period (tgs s g)"
      by (simp add: tg_get_cfs_period_def b set_bandwidth_stored)
    moreover obtain s1 where s1: "?b = reset_cfs_rqs (?q \<noteq> RUNTIME_INF) cpus s1" "throttle_list_ok s1"
      using assms(4) by (auto simp: set_bandwidth_def Let_def throttle_list_ok_upd start_cfs_bandwidth_def)
    ultimately show ?thesis
      using 2 reset_cfs_rqs_clean [OF s1(2)] by (intro exI [of _ 0] exI [of _ s']) (simp add: tg_set_cfs_quota_def b s1(1) list_all_iff)
  qed
qed

definition sample_groups :: groups where
  "sample_groups = \<lparr>tgs = (\<lambda>g. \<lparr>tg_parent = sample_parent g, tg_children = sample_children g, shares = 1024,
     bandwidth = \<lparr>cfs_b = sample_pool\<lparr>period := 100000000, quota := if g = 1 then 50000000 else RUNTIME_INF\<rparr>, brqs = (\<lambda>_. idle_brq)\<rparr>,
     hierarchal_quota = 0, rt_period = 1000000000, rt_runtime = 0, rt_rq_runtime = (\<lambda>_. 0)\<rparr>), task_groups = [3, 2, 1, 0]\<rparr>"

lemma sample_group_tree: "group_tree sample_groups sample_tree"
  by (simp add: group_tree_def sample_groups_def sample_tree_def sample_children_def sample_parent_def root_task_group_def)

text \<open>In the sample, with half of the period for group 1, its child 2 may have a fifth of the period.\<close>

theorem cfs_quota_set_get_witness:
  "\<exists>ret s'. tg_set_cfs_quota [0, 1] 0 2 20000 sample_groups = Some (ret, s') \<and> (ret = 0 \<or> ret = - EINVAL)
    \<and> (if ret = 0 then limits_fit s' sample_tree \<and> tg_get_cfs_quota (tgs s' 2) = (if 20000 < (0 :: int) then - 1 else 20000)
          \<and> tg_get_cfs_period (tgs s' 2) = tg_get_cfs_period (tgs sample_groups 2)
          \<and> list_all (\<lambda>c. \<not> throttled (brqs (bandwidth (tgs s' 2)) c) \<and> runtime_remaining (brqs (bandwidth (tgs s' 2)) c) = 0) [0, 1]
        else \<forall>h. (tgs s' h)\<lparr>hierarchal_quota := 0\<rparr> = (tgs sample_groups h)\<lparr>hierarchal_quota := 0\<rparr>)"
  by (rule cfs_quota_set_get [OF sample_group_tree])
    (simp_all add: sample_groups_def sample_pool_def idle_brq_def throttle_list_ok_def)

lemma sample_quota_accepted:
  "map_option fst (tg_set_cfs_quota [0, 1] 0 2 20000 sample_groups) = Some 0"
  "map_option fst (tg_set_cfs_quota [0, 1] 0 2 70000 sample_groups) = Some (- EINVAL)"
  by code_simp+

section \<open>Creating and removing groups\<close>

definition ENOMEM :: int where [errno_defs]: "ENOMEM = 12"

definition NICE_0_SHARES :: ulong where "NICE_0_SHARES = 1024"

text \<open>
  \<open>alloc_fair_sched_group\<close> gives the group default shares and no limit; the pool and the run queues come zeroed from the
  allocator (\<open>zeroed\<close>), and \<open>init_cfs_rq_runtime\<close> sets up each run queue. \<open>mem\<close> says which of the three allocations succeed; the real-time
  part of the new group (\<open>rt.c\<close>) is the argument \<open>rt_init\<close>.
\<close>

definition alloc_fair_sched_group :: "bsys \<Rightarrow> task_group \<Rightarrow> task_group" where
  "alloc_fair_sched_group zeroed tg =
    tg\<lparr>shares := NICE_0_SHARES,
       bandwidth := \<lparr>cfs_b = init_cfs_bandwidth (cfs_b zeroed), brqs = (\<lambda>c. init_cfs_rq_runtime (brqs zeroed c))\<rparr>\<rparr>"

definition sched_create_group ::
  "bool \<times> bool \<times> bool \<Rightarrow> bsys \<Rightarrow> (task_group \<Rightarrow> task_group) \<Rightarrow> nat \<Rightarrow> nat \<Rightarrow> groups \<Rightarrow> (int + nat) \<times> groups"
where
  "sched_create_group mem zeroed rt_init new parent s =
    (case mem of (have_tg, have_fair, have_rt) \<Rightarrow>
       if \<not> have_tg then (Inl (- ENOMEM), s)
       else if \<not> have_fair then (Inl (- ENOMEM), s)
       else if \<not> have_rt then (Inl (- ENOMEM), s)
       else let s = upd_tg new (\<lambda>tg. rt_init (alloc_fair_sched_group zeroed tg)) s;
                s = s\<lparr>task_groups := new # task_groups s\<rparr>;
                s = upd_tg new (\<lambda>tg. tg\<lparr>tg_parent := Some parent, tg_children := []\<rparr>) s
            in (Inr new, upd_tg parent (\<lambda>tg. tg\<lparr>tg_children := new # tg_children tg\<rparr>) s))"

definition sched_destroy_group :: "nat \<Rightarrow> groups \<Rightarrow> groups" where
  "sched_destroy_group g s =
    (let s = s\<lparr>task_groups := remove1 g (task_groups s)\<rparr>
     in case tg_parent (tgs s g) of
          None \<Rightarrow> s
        | Some p \<Rightarrow> upd_tg p (\<lambda>tg. tg\<lparr>tg_children := remove1 g (tg_children tg)\<rparr>) s)"

fun insert_group :: "nat \<Rightarrow> nat \<Rightarrow> tgtree \<Rightarrow> tgtree" where
  "insert_group p n (Group g ts) = Group g ((if g = p then [Group n []] else []) @ map (insert_group p n) ts)"

fun remove_group :: "nat \<Rightarrow> tgtree \<Rightarrow> tgtree" where
  "remove_group n (Group g ts) = Group g (filter (\<lambda>t. tg_root t \<noteq> n) (map (remove_group n) ts))"

lemma tg_root_edit [simp]: "tg_root (insert_group p n t) = tg_root t" "tg_root (remove_group n t) = tg_root t"
  by (cases t; simp)+

lemma insert_group_ids:
  "distinct (tg_ids t) \<Longrightarrow> n \<notin> set (tg_ids t) \<Longrightarrow> distinct (tg_ids (insert_group p n t))
    \<and> set (tg_ids (insert_group p n t)) = set (tg_ids t) \<union> (if p \<in> set (tg_ids t) then {n} else {})"
proof (induction t)
  case (Group g ts)
  have "distinct (concat (map tg_ids (map (insert_group p n) ts)))
      \<and> set (concat (map tg_ids (map (insert_group p n) ts)))
        = set (concat (map tg_ids ts)) \<union> (if p \<in> set (concat (map tg_ids ts)) then {n} else {})"
    using Group by (induction ts) (auto split: if_splits)
  then show ?case using Group.prems by (auto split: if_splits)
qed

lemma insert_group_store:
  assumes "in_store ch pa t" "n \<notin> set (tg_ids t)" "\<And>x. x \<noteq> n \<Longrightarrow> ch' x = (if x = p then n # ch x else ch x)" "ch' n = []"
    "\<And>x. x \<noteq> n \<Longrightarrow> pa' x = pa x" "pa' n = Some p"
  shows "in_store ch' pa' (insert_group p n t)"
  using assms(1,2)
proof (induction t)
  case (Group g ts)
  have "in_store ch' pa' (insert_group p n t)" "pa' (tg_root t) = Some g" if "t \<in> set ts" for t
  proof -
    have "tg_root t \<noteq> n" using that Group.prems(2) tg_root_in [of t] by (auto simp del: tg_root_in)
    then show "pa' (tg_root t) = Some g" using that Group.prems(1) by (simp add: assms(5))
    show "in_store ch' pa' (insert_group p n t)" by (rule Group.IH [OF that]) (use that Group.prems in auto)
  qed
  with Group.prems assms(3) [of g] show ?case by (auto simp: assms(4,6))
qed

lemma insert_group_fits:
  assumes "lim' n = None" "\<And>g. g \<noteq> n \<Longrightarrow> lim' g = lim g" "n \<notin> set (tg_ids t)" "group_fits lim L t"
  shows "group_fits lim' L (insert_group p n t)"
  using assms(3,4)
proof (induction t arbitrary: L)
  case (Group g ts)
  then show ?case using assms(1,2) by (auto split: option.splits)
qed

lemma remove_group_same: "n \<notin> set (tg_ids t) \<Longrightarrow> remove_group n t = t"
proof (induction t)
  case (Group g ts)
  have "map (remove_group n) ts = ts" by (rule map_idI) (use Group in auto)
  moreover have "filter (\<lambda>t. tg_root t \<noteq> n) ts = ts"
    by (rule filter_True) (use Group.prems tg_root_in in \<open>auto simp del: tg_root_in\<close>)
  ultimately show ?case by simp
qed

lemma remove_group_ids: "set (tg_ids (remove_group n t)) \<subseteq> set (tg_ids t) \<and> (distinct (tg_ids t) \<longrightarrow> distinct (tg_ids (remove_group n t)))"
proof (induction t)
  case (Group g ts)
  define us where "us = concat (map tg_ids (filter (\<lambda>t. tg_root t \<noteq> n) (map (remove_group n) ts)))"
  define vs where "vs = concat (map tg_ids ts)"
  have e: "tg_ids (remove_group n (Group g ts)) = g # us" "tg_ids (Group g ts) = g # vs" by (simp_all add: us_def vs_def)
  have "set us \<subseteq> set vs \<and> (distinct vs \<longrightarrow> distinct us)"
    unfolding us_def vs_def using Group by (induction ts) (simp_all, blast+)
  then show ?case unfolding e by auto
qed

lemma remove_group_store:
  assumes "in_store ch pa t" "distinct (tg_ids t)" "pa n = Some p" "ch n = []"
    and "\<And>x. x \<noteq> p \<Longrightarrow> ch' x = ch x" "ch' p = remove1 n (ch p)"
  shows "in_store ch' pa (remove_group n t)"
  using assms(1,2)
proof (induction t)
  case (Group g ts)
  have d: "distinct (map tg_root ts)" using distinct_roots [of ts] Group.prems(2) by simp
  have sub: "in_store ch' pa (remove_group n t)" "pa (tg_root t) = Some g" if "t \<in> set ts" for t
    using Group.IH [OF that] that Group.prems by (auto simp: distinct_concat_iff)
  have "map tg_root (filter (\<lambda>t. tg_root t \<noteq> n) (map (remove_group n) ts)) = filter (\<lambda>x. x \<noteq> n) (map tg_root ts)"
    by (induction ts) auto
  moreover have "ch' g = filter (\<lambda>x. x \<noteq> n) (ch g)"
  proof (cases "g = p")
    case True
    then show ?thesis using d Group.prems(1) by (simp add: assms(6) filter_remove1_distinct)
  next
    case False
    then have "n \<notin> tg_root ` set ts" using sub(2) assms(3) by auto
    then show ?thesis using False Group.prems(1) by (subst filter_True) (auto simp: assms(5))
  qed
  ultimately show ?case using Group.prems(1) sub by auto
qed

lemma remove_group_fits: "group_fits lim L t \<Longrightarrow> group_fits lim L (remove_group n t)"
  by (induction t arbitrary: L) (auto split: option.splits)

lemma in_store_parent: "in_store ch pa t \<Longrightarrow> x \<in> set (tg_ids t) \<Longrightarrow> x = tg_root t \<or> (\<exists>q \<in> set (tg_ids t). pa x = Some q)"
proof (induction t)
  case (Group g ts)
  then show ?case by auto
qed

lemma create_group_full:
  assumes "group_tree s t" "limits_fit s t" "new \<notin> set (tg_ids t)" "p \<in> set (tg_ids t)" "\<And>tg. bandwidth (rt_init tg) = bandwidth tg"
  shows "case sched_create_group mem zeroed rt_init new p s of
      (Inl e, s') \<Rightarrow> e = - ENOMEM \<and> s' = s
    | (Inr g, s') \<Rightarrow> g = new \<and> group_tree s' (insert_group p new t) \<and> limits_fit s' (insert_group p new t)"
proof (cases "mem = (True, True, True)")
  case False
  then show ?thesis by (auto simp: sched_create_group_def split: prod.splits)
next
  case True
  have i: "in_store (\<lambda>g. tg_children (tgs s g)) (\<lambda>g. tg_parent (tgs s g)) t" "distinct (tg_ids t)" "tg_root t = root_task_group"
    "tg_parent (tgs s root_task_group) = None" using assms(1) by (simp_all add: group_tree_def)
  have n: "p \<noteq> new" "root_task_group \<noteq> new" using assms(3,4) i(3) tg_root_in [of t] by auto
  obtain s' where s': "sched_create_group mem zeroed rt_init new p s = (Inr new, s')" using True by (auto simp: sched_create_group_def Let_def)
  have new: "tg_children (tgs s' new) = []" "tg_parent (tgs s' new) = Some p" "quota (cfs_b (bandwidth (tgs s' new))) = RUNTIME_INF"
    using s' True n assms(5)
    by (auto simp: sched_create_group_def Let_def alloc_fair_sched_group_def init_cfs_bandwidth_def)
  have old: "tg_children (tgs s' x) = (if x = p then new # tg_children (tgs s x) else tg_children (tgs s x))"
    "tg_parent (tgs s' x) = tg_parent (tgs s x)" "bandwidth (tgs s' x) = bandwidth (tgs s x)" if "x \<noteq> new" for x
    using s' True n that by (auto simp: sched_create_group_def Let_def)
  have "in_store (\<lambda>g. tg_children (tgs s' g)) (\<lambda>g. tg_parent (tgs s' g)) (insert_group p new t)"
    by (rule insert_group_store [OF i(1) assms(3)]) (simp_all add: old new)
  then have tree: "group_tree s' (insert_group p new t)"
    using insert_group_ids [OF i(2) assms(3)] i(3,4) n(2) by (simp add: group_tree_def old(2))
  have lim: "stored_limit s' new = None" "\<And>g. g \<noteq> new \<Longrightarrow> stored_limit s' g = stored_limit s g"
    using new(3) old(3) by (simp_all add: stored_limit_def tg_get_cfs_quota_def tg_get_cfs_period_def to_u64_def RUNTIME_INF_def)
  have "group_fits (stored_limit s') None (insert_group p new u)" if "u \<in> set (tg_subs t)" for u
    by (rule insert_group_fits [where lim = "stored_limit s"]) (use lim that assms(2,3) in \<open>cases t; auto simp: limits_fit_def\<close>)+
  then have "limits_fit s' (insert_group p new t)" using lim(1) by (cases t) (auto simp: limits_fit_def)
  with tree s' show ?thesis by simp
qed

lemma destroy_group_full:
  assumes "group_tree s t" "limits_fit s t" "leaf \<noteq> root_task_group" "tg_children (tgs s leaf) = []" "leaf \<in> set (tg_ids t)"
  shows "group_tree (sched_destroy_group leaf s) (remove_group leaf t) \<and> limits_fit (sched_destroy_group leaf s) (remove_group leaf t)"
proof -
  have i: "in_store (\<lambda>g. tg_children (tgs s g)) (\<lambda>g. tg_parent (tgs s g)) t" "distinct (tg_ids t)" "tg_root t = root_task_group"
    "tg_parent (tgs s root_task_group) = None" using assms(1) by (simp_all add: group_tree_def)
  obtain q where q: "tg_parent (tgs s leaf) = Some q" using in_store_parent [OF i(1) assms(5)] i(3) assms(3) by auto
  define s' where "s' = sched_destroy_group leaf s"
  have old: "tg_children (tgs s' x) = (if x = q then remove1 leaf (tg_children (tgs s q)) else tg_children (tgs s x))"
    "tg_parent (tgs s' x) = tg_parent (tgs s x)" "stored_limit s' x = stored_limit s x" for x
    using q by (simp_all add: s'_def sched_destroy_group_def stored_limit_def tg_get_cfs_quota_def tg_get_cfs_period_def)
  have "in_store (\<lambda>g. tg_children (tgs s' g)) (\<lambda>g. tg_parent (tgs s g)) (remove_group leaf t)"
    by (rule remove_group_store [OF i(1,2) q]) (simp_all add: assms(4) old)
  then have "group_tree s' (remove_group leaf t)"
    using remove_group_ids [of leaf t] i(2,3,4) by (simp add: group_tree_def old(2))
  moreover have "stored_limit s' = stored_limit s" using old(3) by blast
  then have "limits_fit s' (remove_group leaf t)"
    using assms(2) remove_group_fits by (cases t) (auto simp: limits_fit_def)
  ultimately show ?thesis by (simp add: s'_def)
qed



end
