(* ===== verification/Rt_Group.thy ===== *)
theory Rt_Group
  imports Task_Group
begin

text \<open>
  Limits of the real-time class (\<open>hw4/kernel/sched/core.c\<close>, \<open>CONFIG_RT_GROUP_SCHED\<close>): the system-wide limit on real-time run time, the
  limits of the groups, the test that a configuration can be scheduled, and the calls that change it.
  Which groups have real-time tasks is an argument, as \<open>rt.c\<close>, which queues them, is not part of the repository.
\<close>

section \<open>State and tests\<close>

record rtsys =
  gs :: groups
  sysctl_sched_rt_period :: int
  sysctl_sched_rt_runtime :: int
  def_rt_period :: int
  def_rt_runtime :: int

definition global_rt_period :: "rtsys \<Rightarrow> int" where
  "global_rt_period s = to_u64 (sysctl_sched_rt_period s * NSEC_PER_USEC)"

definition global_rt_runtime :: "rtsys \<Rightarrow> int" where
  "global_rt_runtime s = (if sysctl_sched_rt_runtime s < 0 then RUNTIME_INF else to_u64 (sysctl_sched_rt_runtime s * NSEC_PER_USEC))"

definition rt_bandwidth_enabled :: "rtsys \<Rightarrow> bool" where
  "rt_bandwidth_enabled s \<longleftrightarrow> 0 \<le> sysctl_sched_rt_runtime s"

record rt_schedulable_data =
  rd_tg :: "nat option"
  rd_period :: int
  rd_runtime :: int

definition rt_setting :: "rt_schedulable_data \<Rightarrow> rtsys \<Rightarrow> nat \<Rightarrow> int \<times> int" where
  "rt_setting d s g =
    (if rd_tg d = Some g then (rd_period d, rd_runtime d) else (rt_period (tgs (gs s) g), rt_runtime (tgs (gs s) g)))"

fun rt_sum :: "rt_schedulable_data \<Rightarrow> rtsys \<Rightarrow> nat list \<Rightarrow> int \<Rightarrow> int" where
  "rt_sum d s [] acc = acc"
| "rt_sum d s (c # cs) acc = rt_sum d s cs ((acc + (case rt_setting d s c of (prd, rt) \<Rightarrow> to_ratio prd rt)) mod 2 ^ 32)"

definition tg_rt_schedulable :: "(nat \<Rightarrow> bool) \<Rightarrow> rt_schedulable_data \<Rightarrow> nat \<Rightarrow> rtsys \<Rightarrow> int \<times> rtsys" where
  "tg_rt_schedulable has_rt_tasks d g s =
    (let (prd, rt) = rt_setting d s g
     in if rt > prd \<and> rt \<noteq> RUNTIME_INF then (- EINVAL, s)
        else if rt_bandwidth_enabled s \<and> rt = 0 \<and> has_rt_tasks g then (- EBUSY, s)
        else let total = to_ratio prd rt
             in if total > to_ratio (global_rt_period s) (global_rt_runtime s) then (- EINVAL, s)
                else if rt_sum d s (tg_children (tgs (gs s) g)) 0 > total then (- EINVAL, s)
                else (0, s))"

definition rt_schedulable :: "(nat \<Rightarrow> bool) \<Rightarrow> nat option \<Rightarrow> int \<Rightarrow> int \<Rightarrow> rtsys \<Rightarrow> (int \<times> rtsys) option" where
  "rt_schedulable has_rt_tasks tg prd rt s =
    walk_tg_tree_from (\<lambda>g. tg_children (tgs (gs s) g)) (\<lambda>g. tg_parent (tgs (gs s) g)) root_task_group
      (tg_rt_schedulable has_rt_tasks \<lparr>rd_tg = tg, rd_period = prd, rd_runtime = rt\<rparr>) tg_nop s"

section \<open>Calls\<close>

fun set_rt_rqs :: "int \<Rightarrow> nat list \<Rightarrow> (nat \<Rightarrow> int) \<Rightarrow> (nat \<Rightarrow> int)" where
  "set_rt_rqs rt [] f = f"
| "set_rt_rqs rt (c # cs) f = set_rt_rqs rt cs (f(c := rt))"

definition tg_set_rt_bandwidth :: "nat list \<Rightarrow> (nat \<Rightarrow> bool) \<Rightarrow> nat \<Rightarrow> int \<Rightarrow> int \<Rightarrow> rtsys \<Rightarrow> (int \<times> rtsys) option" where
  "tg_set_rt_bandwidth cpus has_rt_tasks g prd rt s =
    (case rt_schedulable has_rt_tasks (Some g) prd rt s of
       None \<Rightarrow> None
     | Some (err, s) \<Rightarrow>
         if err \<noteq> 0 then Some (err, s)
         else Some (0, s\<lparr>gs := upd_tg g (\<lambda>tg. tg\<lparr>rt_period := prd, rt_runtime := rt,
                                rt_rq_runtime := set_rt_rqs rt cpus (rt_rq_runtime tg)\<rparr>) (gs s)\<rparr>))"

definition sched_group_set_rt_runtime :: "nat list \<Rightarrow> (nat \<Rightarrow> bool) \<Rightarrow> nat \<Rightarrow> int \<Rightarrow> rtsys \<Rightarrow> (int \<times> rtsys) option" where
  "sched_group_set_rt_runtime cpus has_rt_tasks g rt_runtime_us s =
    tg_set_rt_bandwidth cpus has_rt_tasks g (rt_period (tgs (gs s) g))
      (if rt_runtime_us < 0 then RUNTIME_INF else to_u64 (rt_runtime_us * NSEC_PER_USEC)) s"

definition sched_group_rt_runtime :: "task_group \<Rightarrow> int" where
  "sched_group_rt_runtime tg = (if rt_runtime tg = RUNTIME_INF then - 1 else wrap_s32 (rt_runtime tg div NSEC_PER_USEC))"

definition sched_group_set_rt_period :: "nat list \<Rightarrow> (nat \<Rightarrow> bool) \<Rightarrow> nat \<Rightarrow> int \<Rightarrow> rtsys \<Rightarrow> (int \<times> rtsys) option" where
  "sched_group_set_rt_period cpus has_rt_tasks g rt_period_us s =
    (let prd = to_u64 (rt_period_us * NSEC_PER_USEC); rt = rt_runtime (tgs (gs s) g)
     in if prd = 0 then Some (- EINVAL, s) else tg_set_rt_bandwidth cpus has_rt_tasks g prd rt s)"

definition sched_group_rt_period :: "task_group \<Rightarrow> int" where
  "sched_group_rt_period tg = wrap_s32 (rt_period tg div NSEC_PER_USEC)"

definition sched_rt_global_constraints :: "(nat \<Rightarrow> bool) \<Rightarrow> rtsys \<Rightarrow> (int \<times> rtsys) option" where
  "sched_rt_global_constraints has_rt_tasks s =
    (if sysctl_sched_rt_period s \<le> 0 then Some (- EINVAL, s)
     else if global_rt_runtime s > global_rt_period s \<and> global_rt_runtime s \<noteq> RUNTIME_INF then Some (- EINVAL, s)
     else rt_schedulable has_rt_tasks None 0 0 s)"

definition sched_rt_can_attach :: "task_group \<Rightarrow> bool \<Rightarrow> bool" where
  "sched_rt_can_attach tg is_rt_task \<longleftrightarrow> \<not> (is_rt_task \<and> rt_runtime tg = 0)"

text \<open>
  A write to the control files of the system-wide limit: \<open>proc\<close> is the outcome of \<open>proc_dointvec\<close>, with the values it stored when it
  succeeded.
\<close>

definition sched_rt_handler :: "(nat \<Rightarrow> bool) \<Rightarrow> int \<times> int \<times> int \<Rightarrow> bool \<Rightarrow> rtsys \<Rightarrow> (int \<times> rtsys) option" where
  "sched_rt_handler has_rt_tasks proc wr s =
    (case proc of (ret, prd, rt) \<Rightarrow>
       let old_period = sysctl_sched_rt_period s; old_runtime = sysctl_sched_rt_runtime s;
           s = s\<lparr>sysctl_sched_rt_period := prd, sysctl_sched_rt_runtime := rt\<rparr>
       in if ret = 0 \<and> wr
          then (case sched_rt_global_constraints has_rt_tasks s of
              None \<Rightarrow> None
            | Some (ret, s) \<Rightarrow>
                if ret \<noteq> 0 then Some (ret, s\<lparr>sysctl_sched_rt_period := old_period, sysctl_sched_rt_runtime := old_runtime\<rparr>)
                else Some (0, s\<lparr>def_rt_runtime := global_rt_runtime s, def_rt_period := global_rt_period s\<rparr>))
          else Some (ret, s))"

section \<open>The test accepts exactly the schedulable configurations\<close>

text \<open>The specification of one group, with the sum of the children's shares as the code computes it.\<close>

definition rt_ratio :: "rt_schedulable_data \<Rightarrow> rtsys \<Rightarrow> nat \<Rightarrow> int" where
  "rt_ratio d s g = (case rt_setting d s g of (prd, rt) \<Rightarrow> to_ratio prd rt)"

definition rt_group_ok :: "(nat \<Rightarrow> bool) \<Rightarrow> rt_schedulable_data \<Rightarrow> rtsys \<Rightarrow> nat \<Rightarrow> bool" where
  "rt_group_ok has_rt_tasks d s g \<longleftrightarrow>
    (case rt_setting d s g of (prd, rt) \<Rightarrow> (rt \<le> prd \<or> rt = RUNTIME_INF) \<and> \<not> (rt_bandwidth_enabled s \<and> rt = 0 \<and> has_rt_tasks g))
    \<and> rt_ratio d s g \<le> to_ratio (global_rt_period s) (global_rt_runtime s)
    \<and> (\<Sum>c \<leftarrow> tg_children (tgs (gs s) g). rt_ratio d s c) mod 2 ^ 32 \<le> rt_ratio d s g"

lemma rt_sum_eq: "rt_sum d s cs x mod 2 ^ 32 = (x + (\<Sum>c \<leftarrow> cs. rt_ratio d s c)) mod 2 ^ 32"
proof (induction cs arbitrary: x)
  case (Cons c cs)
  then show ?case by (simp add: rt_ratio_def add.assoc mod_add_left_eq)
qed simp

lemma rt_sum_range: "0 \<le> x \<Longrightarrow> x < 2 ^ 32 \<Longrightarrow> 0 \<le> rt_sum d s cs x \<and> rt_sum d s cs x < 2 ^ 32"
  by (induction cs arbitrary: x) simp_all

lemma rt_sum_0: "rt_sum d s cs 0 = (\<Sum>c \<leftarrow> cs. rt_ratio d s c) mod 2 ^ 32"
  using rt_sum_eq [of d s cs 0] rt_sum_range [of 0 d s cs] by simp

lemma tg_rt_schedulable_iff:
  "tg_rt_schedulable hrt d g s = (ret, s') \<Longrightarrow> s' = s \<and> (ret = 0 \<longleftrightarrow> rt_group_ok hrt d s g) \<and> ret \<in> {0, - EINVAL, - EBUSY}"
  by (auto simp: tg_rt_schedulable_def rt_group_ok_def rt_ratio_def rt_sum_0 Let_def errno_defs split: prod.splits if_splits)

lemma rt_visit:
  "visit (tg_rt_schedulable hrt d) tg_nop t s = (ret, s') \<Longrightarrow>
     s' = s \<and> (ret = 0 \<longleftrightarrow> (\<forall>g \<in> set (tg_ids t). rt_group_ok hrt d s g)) \<and> ret \<in> {0, - EINVAL, - EBUSY}"
proof (induction t arbitrary: ret s')
  case (Group g ts)
  have ts: "snd (visits (tg_rt_schedulable hrt d) tg_nop ts s) = s
    \<and> (fst (visits (tg_rt_schedulable hrt d) tg_nop ts s) = 0 \<longleftrightarrow> (\<forall>t \<in> set ts. \<forall>g \<in> set (tg_ids t). rt_group_ok hrt d s g))
    \<and> fst (visits (tg_rt_schedulable hrt d) tg_nop ts s) \<in> {0, - EINVAL, - EBUSY}"
    using Group.IH
  proof (induction ts)
    case (Cons t ts)
    obtain r1 s1 where v: "visit (tg_rt_schedulable hrt d) tg_nop t s = (r1, s1)" by fastforce
    from Cons.prems [OF _ this] Cons.IH [OF Cons.prems] v show ?case by (auto simp: Let_def)
  qed simp
  obtain r1 s1 where d: "tg_rt_schedulable hrt d g s = (r1, s1)" by fastforce
  obtain r2 s2 where v: "visits (tg_rt_schedulable hrt d) tg_nop ts s = (r2, s2)" by fastforce
  note 1 = tg_rt_schedulable_iff [OF d]
  show ?case
  proof (cases "r1 = 0")
    case True
    have "s1 = s" "s2 = s" using 1 ts v by simp_all
    then have "(ret, s') = (if r2 \<noteq> 0 then (r2, s) else (0, s))"
      using Group.prems d v True by (auto simp: tg_nop_apply [of g s])
    then show ?thesis using True 1 ts v by (auto split: if_splits)
  next
    case False
    then have "(ret, s') = (r1, s1)" using Group.prems d by simp
    then show ?thesis using False 1 by auto
  qed
qed

lemma rt_schedulable_full:
  assumes "group_tree (gs s) t"
  shows "\<exists>ret. rt_schedulable hrt tg prd rt s = Some (ret, s) \<and> ret \<in> {0, - EINVAL, - EBUSY}
    \<and> (ret = 0 \<longleftrightarrow> (\<forall>g \<in> set (tg_ids t). rt_group_ok hrt \<lparr>rd_tg = tg, rd_period = prd, rd_runtime = rt\<rparr> s g))"
proof -
  let ?d = "\<lparr>rd_tg = tg, rd_period = prd, rd_runtime = rt\<rparr>"
  have t: "in_store (\<lambda>g. tg_children (tgs (gs s) g)) (\<lambda>g. tg_parent (tgs (gs s) g)) t" "distinct (tg_ids t)" "tg_root t = root_task_group"
    using assms by (simp_all add: group_tree_def)
  obtain ret s' where v: "visit (tg_rt_schedulable hrt ?d) tg_nop t s = (ret, s')" by fastforce
  have "rt_schedulable hrt tg prd rt s = Some (ret, s')"
    using walk_visit [OF t(1,2), of "tg_rt_schedulable hrt ?d" tg_nop s] v t(3) by (simp add: rt_schedulable_def)
  with rt_visit [OF v] show ?thesis by auto
qed

lemma to_ratio_le: "0 \<le> rt \<Longrightarrow> rt \<le> prd \<or> rt = RUNTIME_INF \<Longrightarrow> to_ratio prd rt \<le> 2 ^ 20"
proof -
  assume r: "0 \<le> rt" "rt \<le> prd \<or> rt = RUNTIME_INF"
  show ?thesis
  proof (cases "rt = RUNTIME_INF \<or> prd = 0")
    case False
    then have p: "0 < prd" "rt \<le> prd" using r by auto
    have "to_u64 (rt * 2 ^ 20) \<le> rt * 2 ^ 20" using r(1) by (simp add: to_u64_def zmod_le_nonneg_dividend)
    also have "\<dots> \<le> 2 ^ 20 * prd" using p(2) by simp
    finally have "to_u64 (rt * 2 ^ 20) div prd \<le> 2 ^ 20 * prd div prd" using p(1) by (rule zdiv_mono1)
    then have q: "to_u64 (rt * 2 ^ 20) div prd \<le> 2 ^ 20" using p(1) by simp
    moreover have "0 \<le> to_u64 (rt * 2 ^ 20) div prd" using p(1) to_u64_bounds(1) by (simp add: pos_imp_zdiv_nonneg_iff)
    ultimately show ?thesis using False by (simp add: to_ratio_def)
  qed (auto simp: to_ratio_def RUNTIME_INF_def)
qed

section \<open>Limits hold in every reachable configuration\<close>

definition stored :: rt_schedulable_data where
  "stored = \<lparr>rd_tg = None, rd_period = 0, rd_runtime = 0\<rparr>"

definition rt_inv :: "tgtree \<Rightarrow> rtsys \<Rightarrow> bool" where
  "rt_inv t s \<longleftrightarrow> group_tree (gs s) t \<and> (\<forall>g \<in> set (tg_ids t). rt_group_ok (\<lambda>_. False) stored s g)
     \<and> (\<forall>g. 0 \<le> rt_period (tgs (gs s) g) \<and> 0 \<le> rt_runtime (tgs (gs s) g))"

inductive rt_step :: "rtsys \<Rightarrow> rtsys \<Rightarrow> bool" where
  rt_set_runtime: "sched_group_set_rt_runtime cpus hrt g us s = Some (ret, s') \<Longrightarrow> rt_step s s'"
| rt_set_period: "sched_group_set_rt_period cpus hrt g us s = Some (ret, s') \<Longrightarrow> rt_step s s'"
| rt_sysctl: "ret = 0 \<and> wr \<or> prd = sysctl_sched_rt_period s \<and> rt = sysctl_sched_rt_runtime s \<Longrightarrow>
    sched_rt_handler hrt (ret, prd, rt) wr s = Some (ret', s') \<Longrightarrow> rt_step s s'"

lemma rt_group_ok_mono: "rt_group_ok hrt d s g \<Longrightarrow> rt_group_ok (\<lambda>_. False) d s g"
  by (auto simp: rt_group_ok_def split: prod.splits)

lemma rt_group_ok_cong:
  assumes "\<And>g. rt_setting d' s' g = rt_setting d s g" "\<And>g. tg_children (tgs (gs s') g) = tg_children (tgs (gs s) g)"
    "sysctl_sched_rt_period s' = sysctl_sched_rt_period s" "sysctl_sched_rt_runtime s' = sysctl_sched_rt_runtime s"
  shows "rt_group_ok hrt d' s' g = rt_group_ok hrt d s g"
proof -
  have "rt_ratio d' s' = rt_ratio d s" by (rule ext) (simp add: rt_ratio_def assms)
  then show ?thesis using assms by (simp add: rt_group_ok_def global_rt_period_def global_rt_runtime_def rt_bandwidth_enabled_def)
qed

lemma group_tree_cong:
  "(\<And>g. tg_children (tgs s' g) = tg_children (tgs s g)) \<Longrightarrow> (\<And>g. tg_parent (tgs s' g) = tg_parent (tgs s g)) \<Longrightarrow> group_tree s' t = group_tree s t"
  by (simp add: group_tree_def)

lemma set_rt_bandwidth_inv:
  assumes "rt_inv t s" "0 \<le> prd" "0 \<le> rt" "tg_set_rt_bandwidth cpus hrt g prd rt s = Some (ret, s')"
  shows "rt_inv t s'" "ret \<noteq> 0 \<Longrightarrow> s' = s" "ret = 0 \<Longrightarrow> rt_period (tgs (gs s') g) = prd \<and> rt_runtime (tgs (gs s') g) = rt"
proof -
  let ?d = "\<lparr>rd_tg = Some g, rd_period = prd, rd_runtime = rt\<rparr>"
  have tree: "group_tree (gs s) t" and nn: "\<And>g. 0 \<le> rt_period (tgs (gs s) g) \<and> 0 \<le> rt_runtime (tgs (gs s) g)"
    using assms(1) by (simp_all add: rt_inv_def)
  from rt_schedulable_full [OF tree, of hrt "Some g" prd rt] obtain e where
    e: "rt_schedulable hrt (Some g) prd rt s = Some (e, s)" "e = 0 \<longleftrightarrow> (\<forall>g \<in> set (tg_ids t). rt_group_ok hrt ?d s g)" by blast
  define s1 where "s1 = s\<lparr>gs := upd_tg g (\<lambda>tg. tg\<lparr>rt_period := prd, rt_runtime := rt,
      rt_rq_runtime := set_rt_rqs rt cpus (rt_rq_runtime tg)\<rparr>) (gs s)\<rparr>"
  have r: "ret = e" "s' = (if e \<noteq> 0 then s else s1)"
    using assms(4) e(1) by (auto simp: tg_set_rt_bandwidth_def s1_def split: if_splits)
  show "ret \<noteq> 0 \<Longrightarrow> s' = s" "ret = 0 \<Longrightarrow> rt_period (tgs (gs s') g) = prd \<and> rt_runtime (tgs (gs s') g) = rt"
    using r by (simp_all add: s1_def)
  show "rt_inv t s'"
  proof (cases "e = 0")
    case True
    have "rt_group_ok (\<lambda>_. False) stored s1 x = rt_group_ok (\<lambda>_. False) ?d s x" for x
      by (rule rt_group_ok_cong) (auto simp: rt_setting_def stored_def s1_def)
    moreover have "group_tree (gs s1) t = group_tree (gs s) t" by (rule group_tree_cong) (simp_all add: s1_def)
    ultimately have "rt_inv t s1" using True e(2) tree nn assms(2,3) rt_group_ok_mono by (auto simp: rt_inv_def s1_def)
    with True r show ?thesis by simp
  qed (use r assms(1) in simp)
qed

lemma sysctl_inv:
  assumes "rt_inv t s" "ret = 0 \<and> wr \<or> prd = sysctl_sched_rt_period s \<and> rt = sysctl_sched_rt_runtime s"
    and "sched_rt_handler hrt (ret, prd, rt) wr s = Some (ret', s')"
  shows "rt_inv t s'"
proof (cases "ret = 0 \<and> wr")
  case False
  then have "prd = sysctl_sched_rt_period s" "rt = sysctl_sched_rt_runtime s" using assms(2) by blast+
  with False have "s' = s" using assms(3) unfolding sched_rt_handler_def prod.case Let_def by (simp only: if_False) simp
  with assms(1) show ?thesis by simp
next
  case True
  define s1 where "s1 = s\<lparr>sysctl_sched_rt_period := prd, sysctl_sched_rt_runtime := rt\<rparr>"
  have tree: "group_tree (gs s1) t" and nn: "\<And>g. 0 \<le> rt_period (tgs (gs s1) g) \<and> 0 \<le> rt_runtime (tgs (gs s1) g)"
    using assms(1) by (simp_all add: rt_inv_def s1_def)
  from rt_schedulable_full [OF tree, of hrt None 0 0] obtain e where
    e: "rt_schedulable hrt None 0 0 s1 = Some (e, s1)" "e = 0 \<longleftrightarrow> (\<forall>g \<in> set (tg_ids t). rt_group_ok hrt stored s1 g)"
    unfolding stored_def by blast
  have "\<exists>c. sched_rt_global_constraints hrt s1 = Some (c, s1) \<and> (c = 0 \<longrightarrow> e = 0)"
    unfolding sched_rt_global_constraints_def e(1) by (simp add: EINVAL_def)
  then obtain c where c: "sched_rt_global_constraints hrt s1 = Some (c, s1)" "c = 0 \<Longrightarrow> e = 0" by blast
  have s': "s' = (if c \<noteq> 0 then s1\<lparr>sysctl_sched_rt_period := sysctl_sched_rt_period s, sysctl_sched_rt_runtime := sysctl_sched_rt_runtime s\<rparr>
      else s1\<lparr>def_rt_runtime := global_rt_runtime s1, def_rt_period := global_rt_period s1\<rparr>)"
    using assms(3) True c(1) by (simp add: sched_rt_handler_def s1_def [symmetric] Let_def split: if_splits)
  show ?thesis
  proof (cases "c = 0")
    case False
    then have "s' = s" using s' by (simp add: s1_def)
    with assms(1) show ?thesis by simp
  next
    case True
    then have s': "s' = s1\<lparr>def_rt_runtime := global_rt_runtime s1, def_rt_period := global_rt_period s1\<rparr>" using s' by simp
    have "rt_group_ok (\<lambda>_. False) stored s' x = rt_group_ok (\<lambda>_. False) stored s1 x" for x
      by (rule rt_group_ok_cong) (simp_all add: s' rt_setting_def)
    then show ?thesis using True c(2) e(2) tree nn rt_group_ok_mono by (auto simp: rt_inv_def s')
  qed
qed

lemma rt_step_inv:
  assumes "rt_inv t s" "rt_step s s'"
  shows "rt_inv t s'"
  using assms(2)
proof cases
  case (rt_set_runtime cpus hrt g us ret)
  have "0 \<le> rt_period (tgs (gs s) g)" using assms(1) by (simp add: rt_inv_def)
  moreover have "0 \<le> (if us < 0 then RUNTIME_INF else to_u64 (us * NSEC_PER_USEC))" using to_u64_bounds(1) by (simp add: RUNTIME_INF_def)
  ultimately show ?thesis
    by (rule set_rt_bandwidth_inv(1) [OF assms(1) _ _ rt_set_runtime [unfolded sched_group_set_rt_runtime_def]])
next
  case (rt_set_period cpus hrt g us ret)
  show ?thesis
  proof (cases "to_u64 (us * NSEC_PER_USEC) = 0")
    case True
    then have "s' = s" using rt_set_period by (simp add: sched_group_set_rt_period_def)
    with assms(1) show ?thesis by simp
  next
    case False
    then have "tg_set_rt_bandwidth cpus hrt g (to_u64 (us * NSEC_PER_USEC)) (rt_runtime (tgs (gs s) g)) s = Some (ret, s')"
      using rt_set_period by (simp add: sched_group_set_rt_period_def Let_def)
    moreover have "0 \<le> rt_runtime (tgs (gs s) g)" using assms(1) by (simp add: rt_inv_def)
    ultimately show ?thesis using set_rt_bandwidth_inv(1) [OF assms(1) to_u64_bounds(1)] by blast
  qed
next
  case (rt_sysctl ret wr prd rt hrt ret')
  then show ?thesis using sysctl_inv [OF assms(1)] by blast
qed

interpretation rt_limits: step_invariant rt_step "rt_inv t"
  by unfold_locales (rule rt_step_inv)

lemma in_store_children: "in_store ch pa t \<Longrightarrow> g \<in> set (tg_ids t) \<Longrightarrow> c \<in> set (ch g) \<Longrightarrow> c \<in> set (tg_ids t)"
proof (induction t)
  case (Group h ts)
  show ?case
  proof (cases "g = h")
    case True
    then obtain u where "u \<in> set ts" "c = tg_root u" using Group.prems by auto
    then show ?thesis using tg_root_in [of u] by (auto simp del: tg_root_in)
  qed (use Group in auto)
qed

text \<open>
  C15. Through any sequence of changes to the limits of groups and to the system-wide limit, accepted or refused, every group
  has at most its period as run time unless it is unlimited, no group has a larger share than the system-wide
  limit allows, and the shares of the children of a group (fewer than 4096) add up to at most its own.
\<close>
theorem rt_limits_hold:
  assumes "rt_inv t s" and "rt_step\<^sup>*\<^sup>* s s'" and "g \<in> set (tg_ids t)"
  shows "(rt_runtime (tgs (gs s') g) \<le> rt_period (tgs (gs s') g) \<or> rt_runtime (tgs (gs s') g) = RUNTIME_INF)
    \<and> to_ratio (rt_period (tgs (gs s') g)) (rt_runtime (tgs (gs s') g)) \<le> to_ratio (global_rt_period s') (global_rt_runtime s')
    \<and> (length (tg_children (tgs (gs s') g)) < 4096 \<longrightarrow>
        (\<Sum>c \<leftarrow> tg_children (tgs (gs s') g). to_ratio (rt_period (tgs (gs s') c)) (rt_runtime (tgs (gs s') c)))
          \<le> to_ratio (rt_period (tgs (gs s') g)) (rt_runtime (tgs (gs s') g)))"
proof -
  let ?r = "\<lambda>c. to_ratio (rt_period (tgs (gs s') c)) (rt_runtime (tgs (gs s') c))"
  have inv: "rt_inv t s'" by (rule rt_limits.steps_inv [OF assms(2,1)])
  have set: "rt_setting stored s' c = (rt_period (tgs (gs s') c), rt_runtime (tgs (gs s') c))" for c by (simp add: rt_setting_def stored_def)
  have r: "rt_ratio stored s' = ?r" by (rule ext) (simp add: rt_ratio_def set)
  have ok: "rt_runtime (tgs (gs s') x) \<le> rt_period (tgs (gs s') x) \<or> rt_runtime (tgs (gs s') x) = RUNTIME_INF"
    "?r x \<le> to_ratio (global_rt_period s') (global_rt_runtime s')" "(\<Sum>c \<leftarrow> tg_children (tgs (gs s') x). ?r c) mod 2 ^ 32 \<le> ?r x"
    if "x \<in> set (tg_ids t)" for x
    using inv that by (auto simp: rt_inv_def rt_group_ok_def set r)
  have "?r c \<le> 2 ^ 20" if "c \<in> set (tg_children (tgs (gs s') g))" for c
  proof -
    have "c \<in> set (tg_ids t)" using in_store_children [of _ _ t g c] inv assms(3) that by (auto simp: rt_inv_def group_tree_def)
    then show ?thesis using ok(1) [of c] inv by (intro to_ratio_le) (auto simp: rt_inv_def)
  qed
  then have le: "(\<Sum>c \<leftarrow> tg_children (tgs (gs s') g). ?r c) \<le> (\<Sum>c \<leftarrow> tg_children (tgs (gs s') g). 2 ^ 20)"
    by (intro sum_list_mono) simp
  have ge: "0 \<le> (\<Sum>c \<leftarrow> tg_children (tgs (gs s') g). ?r c)" using to_ratio_range by (intro sum_list_nonneg) auto
  have "(\<Sum>c \<leftarrow> tg_children (tgs (gs s') g). ?r c) mod 2 ^ 32 = (\<Sum>c \<leftarrow> tg_children (tgs (gs s') g). ?r c)"
    if "length (tg_children (tgs (gs s') g)) < 4096"
    using le ge that by (intro mod_pos_pos_trivial) (auto simp: sum_list_triv)
  with ok [OF assms(3)] show ?thesis by auto
qed

definition rt_sample :: rtsys where
  "rt_sample = \<lparr>gs = upd_tg 0 (\<lambda>tg. tg\<lparr>rt_runtime := 950000000\<rparr>) sample_groups,
    sysctl_sched_rt_period = 1000000, sysctl_sched_rt_runtime = 950000, def_rt_period = 1000000000, def_rt_runtime = 950000000\<rparr>"

definition rt_sample_after :: rtsys where
  "rt_sample_after = snd (the (sched_group_set_rt_runtime [0] (\<lambda>_. False) 3 100000 rt_sample))"

lemma rt_sample_step: "rt_step rt_sample rt_sample_after"
proof -
  have "map_option fst (sched_group_set_rt_runtime [0] (\<lambda>_. False) 3 100000 rt_sample) = Some 0" by code_simp
  then show ?thesis unfolding rt_sample_after_def by (intro rt_set_runtime [where ret = 0]) auto
qed

lemma rt_sample_inv: "rt_inv sample_tree rt_sample"
proof -
  have "group_tree (gs rt_sample) sample_tree"
    by (simp add: rt_sample_def group_tree_def sample_groups_def sample_tree_def sample_children_def sample_parent_def root_task_group_def)
  moreover have "\<forall>g \<in> set (tg_ids sample_tree). rt_group_ok (\<lambda>_. False) stored rt_sample g" by code_simp
  moreover have "0 \<le> rt_period (tgs (gs rt_sample) g) \<and> 0 \<le> rt_runtime (tgs (gs rt_sample) g)" for g
    by (simp add: rt_sample_def sample_groups_def)
  ultimately show ?thesis by (simp add: rt_inv_def)
qed

theorem rt_limits_hold_witness:
  "rt_step\<^sup>*\<^sup>* rt_sample rt_sample_after \<and> length (tg_children (tgs (gs rt_sample_after) 0)) = 2
    \<and> (\<Sum>c \<leftarrow> tg_children (tgs (gs rt_sample_after) 0). to_ratio (rt_period (tgs (gs rt_sample_after) c)) (rt_runtime (tgs (gs rt_sample_after) c)))
          \<le> to_ratio (rt_period (tgs (gs rt_sample_after) 0)) (rt_runtime (tgs (gs rt_sample_after) 0))"
proof -
  have steps: "rt_step\<^sup>*\<^sup>* rt_sample rt_sample_after" using rt_sample_step by (rule r_into_rtranclp)
  moreover have len: "length (tg_children (tgs (gs rt_sample_after) 0)) = 2" by code_simp
  moreover have "0 \<in> set (tg_ids sample_tree)" by (simp add: sample_tree_def)
  from rt_limits_hold [OF rt_sample_inv steps this] len
  have "(\<Sum>c \<leftarrow> tg_children (tgs (gs rt_sample_after) 0). to_ratio (rt_period (tgs (gs rt_sample_after) c)) (rt_runtime (tgs (gs rt_sample_after) c)))
          \<le> to_ratio (rt_period (tgs (gs rt_sample_after) 0)) (rt_runtime (tgs (gs rt_sample_after) 0))" by simp
  ultimately show ?thesis by blast
qed

text \<open>
  Setting the run time of a group always returns: accepted, it reads back; refused, with \<open>-EINVAL\<close> or
  \<open>-EBUSY\<close>, nothing changed.
\<close>
theorem rt_runtime_set_get:
  assumes "rt_inv t s" and "- (2 ^ 31) \<le> us" and "us < 2 ^ 31"
  shows "\<exists>ret s'. sched_group_set_rt_runtime cpus hrt g us s = Some (ret, s') \<and> ret \<in> {0, - EINVAL, - EBUSY}
    \<and> (if ret = 0 then sched_group_rt_runtime (tgs (gs s') g) = (if us < 0 then - 1 else us)
          \<and> sched_group_rt_period (tgs (gs s') g) = sched_group_rt_period (tgs (gs s) g) else s' = s)"
proof -
  let ?rt = "if us < 0 then RUNTIME_INF else to_u64 (us * NSEC_PER_USEC)"
  have nn: "0 \<le> rt_period (tgs (gs s) g)" "0 \<le> ?rt" using assms(1) to_u64_bounds(1) by (simp_all add: rt_inv_def RUNTIME_INF_def)
  have "group_tree (gs s) t" using assms(1) by (simp add: rt_inv_def)
  from rt_schedulable_full [OF this, of hrt "Some g" "rt_period (tgs (gs s) g)" ?rt] obtain ret s' where
    r: "sched_group_set_rt_runtime cpus hrt g us s = Some (ret, s')" "ret \<in> {0, - EINVAL, - EBUSY}"
    by (auto simp: sched_group_set_rt_runtime_def tg_set_rt_bandwidth_def)
  note set = set_rt_bandwidth_inv [OF assms(1) nn r(1) [unfolded sched_group_set_rt_runtime_def]]
  have u: "to_u64 (us * NSEC_PER_USEC) = us * 1000" if "\<not> us < 0" using assms(3) that by (simp add: to_u64_def NSEC_PER_USEC_def)
  have "sched_group_rt_runtime (tgs (gs s') g) = (if us < 0 then - 1 else us)" if "ret = 0"
  proof (cases "us < 0")
    case False
    then have "rt_runtime (tgs (gs s') g) = us * 1000" using set(3) that u by simp
    then show ?thesis using False assms(3) by (simp add: sched_group_rt_runtime_def RUNTIME_INF_def NSEC_PER_USEC_def wrap_s32_id)
  qed (use set(3) that in \<open>simp add: sched_group_rt_runtime_def\<close>)
  with r set(2,3) show ?thesis
    by (intro exI [of _ ret] exI [of _ s']) (auto simp: sched_group_rt_period_def split: if_splits)
qed

theorem rt_runtime_set_get_witness:
  "\<exists>ret s'. sched_group_set_rt_runtime [0] (\<lambda>_. False) 3 100000 rt_sample = Some (ret, s') \<and> ret \<in> {0, - EINVAL, - EBUSY}
    \<and> (if ret = 0 then sched_group_rt_runtime (tgs (gs s') 3) = (if 100000 < (0 :: int) then - 1 else 100000)
          \<and> sched_group_rt_period (tgs (gs s') 3) = sched_group_rt_period (tgs (gs rt_sample) 3) else s' = rt_sample)"
  by (rule rt_runtime_set_get [OF rt_sample_inv]) simp_all

section \<open>Many children\<close>

definition crowd :: rtsys where
  "crowd = \<lparr>gs = \<lparr>tgs = (\<lambda>g. (tgs sample_groups 0)\<lparr>tg_parent := if g = 0 then None else Some 0,
      tg_children := if g = 0 then [1..<4097] else [], rt_runtime := RUNTIME_INF\<rparr>), task_groups = [0..<4097]\<rparr>,
    sysctl_sched_rt_period = 1000000, sysctl_sched_rt_runtime = - 1, def_rt_period = 1000000000, def_rt_runtime = RUNTIME_INF\<rparr>"

definition crowd_tree :: tgtree where
  "crowd_tree = Group 0 (map (\<lambda>g. Group g []) [1..<4097])"

text \<open>
  The shares of the children are added up in an \<open>unsigned long\<close>. With 4096 children that each take the whole processor the sum
  is \<open>2 ^ 32\<close>, which wraps to 0, and the test accepts the configuration, although it refuses two such children.
\<close>
theorem rt_sum_wraps:
  "group_tree (gs crowd) crowd_tree
    \<and> rt_schedulable (\<lambda>_. False) None 0 0 crowd = Some (0, crowd)
    \<and> (\<Sum>c \<leftarrow> tg_children (tgs (gs crowd) 0). to_ratio (rt_period (tgs (gs crowd) c)) (rt_runtime (tgs (gs crowd) c)))
        = 4096 * to_ratio (rt_period (tgs (gs crowd) 0)) (rt_runtime (tgs (gs crowd) 0))
    \<and> to_ratio (rt_period (tgs (gs crowd) 0)) (rt_runtime (tgs (gs crowd) 0)) = 2 ^ 20"
proof -
  have ids: "tg_ids crowd_tree = 0 # [1..<4097]" by (simp add: crowd_tree_def comp_def del: upt_conv_Cons upt_rec)
  have tree: "group_tree (gs crowd) crowd_tree"
    unfolding group_tree_def ids by (simp add: crowd_def crowd_tree_def root_task_group_def comp_def del: upt_rec)
  have ratio: "rt_ratio stored crowd = (\<lambda>g. 2 ^ 20)" by (simp add: fun_eq_iff rt_ratio_def rt_setting_def stored_def crowd_def to_ratio_def)
  have ch: "tg_children (tgs (gs crowd) g) = (if g = 0 then [1..<4097] else [])" for g by (simp add: crowd_def del: upt_rec)
  have "rt_group_ok (\<lambda>_. False) stored crowd g" for g
  proof -
    have "(\<Sum>c \<leftarrow> tg_children (tgs (gs crowd) g). rt_ratio stored crowd c) mod 2 ^ 32 \<le> 2 ^ 20"
      by (simp add: ratio ch sum_list_triv del: upt_rec)
    moreover have "to_ratio (global_rt_period crowd) (global_rt_runtime crowd) = 2 ^ 20"
      by (simp add: crowd_def global_rt_runtime_def to_ratio_def)
    moreover have "rt_setting stored crowd g = (1000000000, RUNTIME_INF)" "rt_bandwidth_enabled crowd = False"
      by (simp_all add: crowd_def rt_setting_def stored_def sample_groups_def rt_bandwidth_enabled_def)
    ultimately show ?thesis by (simp add: rt_group_ok_def ratio)
  qed
  with rt_schedulable_full [OF tree, of "\<lambda>_. False" None 0 0]
  have "rt_schedulable (\<lambda>_. False) None 0 0 crowd = Some (0, crowd)" by (auto simp: stored_def)
  with tree show ?thesis by (simp add: crowd_def to_ratio_def sum_list_triv del: upt_rec)
qed

end
