(* ===== verification/Cputime.thy ===== *)
theory Cputime
  imports Transition
begin

text \<open>
  Accounting of processor time (\<open>hw4/kernel/sched/core.c\<close>): what a timer tick adds to the statistics of the processor, to the task and to
  the accounting groups above it, the time spent in interrupts, the run time charged to
  accounting groups, and the user and system times reported for a task.

  Configuration: \<open>CONFIG_IRQ_TIME_ACCOUNTING\<close> and \<open>CONFIG_CGROUP_CPUACCT\<close> on, \<open>CONFIG_SMP\<close> (so \<open>sched_rt_avg_update\<close> is empty),
  \<open>CONFIG_PARAVIRT\<close> and \<open>CONFIG_VIRT_CPU_ACCOUNTING\<close> off. The totals of the
  signal structure and the accounting integrals, which other files keep, are an opaque part of the state that the functions in the
  environment change; unit conversions are arguments too. \<open>cputime_t\<close> is an \<open>unsigned long\<close>.
\<close>

section \<open>State\<close>

datatype cpu_index = CPUTIME_USER | CPUTIME_NICE | CPUTIME_SYSTEM | CPUTIME_SOFTIRQ | CPUTIME_IRQ | CPUTIME_IDLE
  | CPUTIME_IOWAIT | CPUTIME_STEAL | CPUTIME_GUEST | CPUTIME_GUEST_NICE

record 'e cacct =
  cpustat :: "nat \<Rightarrow> cpu_index \<Rightarrow> u64"
  ca_cpustat :: "nat \<Rightarrow> nat \<Rightarrow> cpu_index \<Rightarrow> u64"
  ca_cpuusage :: "nat \<Rightarrow> nat \<Rightarrow> u64"
  ca_parent :: "nat \<Rightarrow> nat option"
  cpuacct_active :: bool
  task_ca :: "nat \<Rightarrow> nat"
  utime :: "nat \<Rightarrow> ulong"
  stime :: "nat \<Rightarrow> ulong"
  utimescaled :: "nat \<Rightarrow> ulong"
  stimescaled :: "nat \<Rightarrow> ulong"
  gtime :: "nat \<Rightarrow> ulong"
  group_totals :: 'e
  cpu_hardirq_time :: "nat \<Rightarrow> u64"
  cpu_softirq_time :: "nat \<Rightarrow> u64"
  irq_start_time :: "nat \<Rightarrow> u64"

record irqctx =
  hardirq_count :: int
  irq_count :: int
  in_serving_softirq :: bool

record 'e acct_env =
  account_group_user_time :: "nat \<Rightarrow> ulong \<Rightarrow> 'e \<Rightarrow> 'e"
  account_group_system_time :: "nat \<Rightarrow> ulong \<Rightarrow> 'e \<Rightarrow> 'e"
  acct_update_integrals :: "nat \<Rightarrow> 'e \<Rightarrow> 'e"
  cputime_one_jiffy :: ulong
  cputime_to_scaled :: "ulong \<Rightarrow> ulong"
  jiffies_to_cputime :: "ulong \<Rightarrow> ulong"
  nsecs_to_cputime64 :: "u64 \<Rightarrow> u64"
  TASK_NICE :: "nat \<Rightarrow> int"
  PF_VCPU :: "nat \<Rightarrow> bool"
  idle_task :: "nat \<Rightarrow> nat"
  ksoftirqd :: "nat \<Rightarrow> nat"
  nr_iowait :: "nat \<Rightarrow> int"
  sched_clock_irqtime :: bool
  HARDIRQ_OFFSET :: int

definition root_cpuacct :: nat where "root_cpuacct = 0"

definition add_stat :: "nat \<Rightarrow> cpu_index \<Rightarrow> ulong \<Rightarrow> 'e cacct \<Rightarrow> 'e cacct" where
  "add_stat cpu idx t s = s\<lparr>cpustat := (cpustat s)(cpu := (cpustat s cpu)(idx := cpustat s cpu idx + ucast t))\<rparr>"

definition add_ca_stat :: "nat \<Rightarrow> nat \<Rightarrow> cpu_index \<Rightarrow> ulong \<Rightarrow> 'e cacct \<Rightarrow> 'e cacct" where
  "add_ca_stat ca cpu idx t s =
    s\<lparr>ca_cpustat := (ca_cpustat s)(ca := (ca_cpustat s ca)(cpu := (ca_cpustat s ca cpu)(idx := ca_cpustat s ca cpu idx + ucast t)))\<rparr>"

section \<open>Accounting a span of time\<close>

partial_function (option) account_groups :: "nat \<Rightarrow> cpu_index \<Rightarrow> ulong \<Rightarrow> nat option \<Rightarrow> 'e cacct \<Rightarrow> 'e cacct option" where
  [code]: "account_groups cpu idx t p s =
    (case p of
       None \<Rightarrow> Some s
     | Some ca \<Rightarrow>
         if ca = root_cpuacct then Some s
         else account_groups cpu idx t (ca_parent s ca) (add_ca_stat ca cpu idx t s))"

definition task_group_account_field :: "nat \<Rightarrow> nat \<Rightarrow> cpu_index \<Rightarrow> ulong \<Rightarrow> 'e cacct \<Rightarrow> 'e cacct option" where
  "task_group_account_field cpu p idx t s =
    (let s = add_stat cpu idx t s
     in if \<not> cpuacct_active s then Some s else account_groups cpu idx t (Some (task_ca s p)) s)"

definition account_user_time :: "'e acct_env \<Rightarrow> nat \<Rightarrow> nat \<Rightarrow> ulong \<Rightarrow> ulong \<Rightarrow> 'e cacct \<Rightarrow> 'e cacct option" where
  "account_user_time env cpu p t scaled s =
    (let s = s\<lparr>utime := (utime s)(p := utime s p + t), utimescaled := (utimescaled s)(p := utimescaled s p + scaled),
               group_totals := account_group_user_time env p t (group_totals s)\<rparr>;
         idx = (if TASK_NICE env p > 0 then CPUTIME_NICE else CPUTIME_USER)
     in map_option (\<lambda>s. s\<lparr>group_totals := acct_update_integrals env p (group_totals s)\<rparr>) (task_group_account_field cpu p idx t s))"

definition account_guest_time :: "'e acct_env \<Rightarrow> nat \<Rightarrow> nat \<Rightarrow> ulong \<Rightarrow> ulong \<Rightarrow> 'e cacct \<Rightarrow> 'e cacct" where
  "account_guest_time env cpu p t scaled s =
    (let s = s\<lparr>utime := (utime s)(p := utime s p + t), utimescaled := (utimescaled s)(p := utimescaled s p + scaled),
               group_totals := account_group_user_time env p t (group_totals s), gtime := (gtime s)(p := gtime s p + t)\<rparr>
     in if TASK_NICE env p > 0 then add_stat cpu CPUTIME_GUEST_NICE t (add_stat cpu CPUTIME_NICE t s)
        else add_stat cpu CPUTIME_GUEST t (add_stat cpu CPUTIME_USER t s))"

definition account_system_time' :: "'e acct_env \<Rightarrow> nat \<Rightarrow> nat \<Rightarrow> ulong \<Rightarrow> ulong \<Rightarrow> cpu_index \<Rightarrow> 'e cacct \<Rightarrow> 'e cacct option" where
  "account_system_time' env cpu p t scaled idx s =
    (let s = s\<lparr>stime := (stime s)(p := stime s p + t), stimescaled := (stimescaled s)(p := stimescaled s p + scaled),
               group_totals := account_group_system_time env p t (group_totals s)\<rparr>
     in map_option (\<lambda>s. s\<lparr>group_totals := acct_update_integrals env p (group_totals s)\<rparr>) (task_group_account_field cpu p idx t s))"

definition account_system_time :: "'e acct_env \<Rightarrow> irqctx \<Rightarrow> nat \<Rightarrow> nat \<Rightarrow> int \<Rightarrow> ulong \<Rightarrow> ulong \<Rightarrow> 'e cacct \<Rightarrow> 'e cacct option" where
  "account_system_time env c cpu p hardirq_offset t scaled s =
    (if PF_VCPU env p \<and> irq_count c - hardirq_offset = 0 then Some (account_guest_time env cpu p t scaled s)
     else account_system_time' env cpu p t scaled
       (if hardirq_count c - hardirq_offset \<noteq> 0 then CPUTIME_IRQ
        else if in_serving_softirq c then CPUTIME_SOFTIRQ else CPUTIME_SYSTEM) s)"

definition account_steal_time :: "nat \<Rightarrow> ulong \<Rightarrow> 'e cacct \<Rightarrow> 'e cacct" where
  "account_steal_time cpu t s = add_stat cpu CPUTIME_STEAL t s"

definition account_idle_time :: "'e acct_env \<Rightarrow> nat \<Rightarrow> ulong \<Rightarrow> 'e cacct \<Rightarrow> 'e cacct" where
  "account_idle_time env cpu t s = add_stat cpu (if nr_iowait env cpu > 0 then CPUTIME_IOWAIT else CPUTIME_IDLE) t s"

section \<open>Ticks\<close>

definition irqtime_account_hi_update :: "'e acct_env \<Rightarrow> nat \<Rightarrow> 'e cacct \<Rightarrow> bool" where
  "irqtime_account_hi_update env cpu s \<longleftrightarrow> nsecs_to_cputime64 env (cpu_hardirq_time s cpu) > cpustat s cpu CPUTIME_IRQ"

definition irqtime_account_si_update :: "'e acct_env \<Rightarrow> nat \<Rightarrow> 'e cacct \<Rightarrow> bool" where
  "irqtime_account_si_update env cpu s \<longleftrightarrow> nsecs_to_cputime64 env (cpu_softirq_time s cpu) > cpustat s cpu CPUTIME_SOFTIRQ"

definition irqtime_account_process_tick :: "'e acct_env \<Rightarrow> nat \<Rightarrow> nat \<Rightarrow> bool \<Rightarrow> 'e cacct \<Rightarrow> 'e cacct option" where
  "irqtime_account_process_tick env cpu p user_tick s =
    (let t = cputime_one_jiffy env; scaled = cputime_to_scaled env t
     in if irqtime_account_hi_update env cpu s then Some (add_stat cpu CPUTIME_IRQ t s)
        else if irqtime_account_si_update env cpu s then Some (add_stat cpu CPUTIME_SOFTIRQ t s)
        else if ksoftirqd env cpu = p then account_system_time' env cpu p t scaled CPUTIME_SOFTIRQ s
        else if user_tick then account_user_time env cpu p t scaled s
        else if p = idle_task env cpu then Some (account_idle_time env cpu t s)
        else if PF_VCPU env p then Some (account_guest_time env cpu p t scaled s)
        else account_system_time' env cpu p t scaled CPUTIME_SYSTEM s)"

fun irqtime_account_idle_ticks :: "'e acct_env \<Rightarrow> nat \<Rightarrow> nat \<Rightarrow> nat \<Rightarrow> 'e cacct \<Rightarrow> 'e cacct option" where
  "irqtime_account_idle_ticks env cpu cur 0 s = Some s"
| "irqtime_account_idle_ticks env cpu cur (Suc n) s =
    (case irqtime_account_process_tick env cpu cur False s of None \<Rightarrow> None | Some s \<Rightarrow> irqtime_account_idle_ticks env cpu cur n s)"

definition account_process_tick :: "'e acct_env \<Rightarrow> irqctx \<Rightarrow> nat \<Rightarrow> nat \<Rightarrow> bool \<Rightarrow> 'e cacct \<Rightarrow> 'e cacct option" where
  "account_process_tick env c cpu p user_tick s =
    (let t = cputime_one_jiffy env; scaled = cputime_to_scaled env t
     in if sched_clock_irqtime env then irqtime_account_process_tick env cpu p user_tick s
        else if user_tick then account_user_time env cpu p t scaled s
        else if p \<noteq> idle_task env cpu \<or> irq_count c \<noteq> HARDIRQ_OFFSET env
        then account_system_time env c cpu p (HARDIRQ_OFFSET env) t scaled s
        else Some (account_idle_time env cpu t s))"

definition account_steal_ticks :: "'e acct_env \<Rightarrow> nat \<Rightarrow> ulong \<Rightarrow> 'e cacct \<Rightarrow> 'e cacct" where
  "account_steal_ticks env cpu ticks s = account_steal_time cpu (jiffies_to_cputime env ticks) s"

definition account_idle_ticks :: "'e acct_env \<Rightarrow> nat \<Rightarrow> nat \<Rightarrow> ulong \<Rightarrow> 'e cacct \<Rightarrow> 'e cacct option" where
  "account_idle_ticks env cpu cur ticks s =
    (if sched_clock_irqtime env then irqtime_account_idle_ticks env cpu cur (unat ticks) s
     else Some (account_idle_time env cpu (jiffies_to_cputime env ticks) s))"

section \<open>Time in interrupts\<close>

definition account_system_vtime :: "'e acct_env \<Rightarrow> irqctx \<Rightarrow> nat \<Rightarrow> u64 \<Rightarrow> nat \<Rightarrow> 'e cacct \<Rightarrow> 'e cacct" where
  "account_system_vtime env c cpu now cur s =
    (if \<not> sched_clock_irqtime env then s
     else let delta = now - irq_start_time s cpu;
              s = s\<lparr>irq_start_time := (irq_start_time s)(cpu := irq_start_time s cpu + delta)\<rparr>
          in if hardirq_count c \<noteq> 0 then s\<lparr>cpu_hardirq_time := (cpu_hardirq_time s)(cpu := cpu_hardirq_time s cpu + delta)\<rparr>
             else if in_serving_softirq c \<and> cur \<noteq> ksoftirqd env cpu
             then s\<lparr>cpu_softirq_time := (cpu_softirq_time s)(cpu := cpu_softirq_time s cpu + delta)\<rparr>
             else s)"

definition irq_time_read :: "nat \<Rightarrow> 'e cacct \<Rightarrow> u64" where
  "irq_time_read cpu s = cpu_softirq_time s cpu + cpu_hardirq_time s cpu"

record rq_clocks =
  clock_task :: u64
  prev_irq_time :: u64

definition update_rq_clock_task :: "u64 \<Rightarrow> int \<Rightarrow> rq_clocks \<Rightarrow> rq_clocks" where
  "update_rq_clock_task irq_time delta r =
    (let irq_delta = sint (irq_time - prev_irq_time r);
         irq_delta = (if irq_delta > delta then delta else irq_delta)
     in r\<lparr>prev_irq_time := prev_irq_time r + word_of_int irq_delta, clock_task := clock_task r + word_of_int (delta - irq_delta)\<rparr>)"

section \<open>Accounting groups\<close>

partial_function (option) charge_groups :: "nat \<Rightarrow> u64 \<Rightarrow> nat option \<Rightarrow> 'e cacct \<Rightarrow> 'e cacct option" where
  [code]: "charge_groups cpu t p s =
    (case p of
       None \<Rightarrow> Some s
     | Some ca \<Rightarrow>
         charge_groups cpu t (ca_parent s ca)
           (s\<lparr>ca_cpuusage := (ca_cpuusage s)(ca := (ca_cpuusage s ca)(cpu := ca_cpuusage s ca cpu + t))\<rparr>))"

definition cpuacct_charge :: "nat \<Rightarrow> nat \<Rightarrow> u64 \<Rightarrow> 'e cacct \<Rightarrow> 'e cacct option" where
  "cpuacct_charge cpu p t s = (if \<not> cpuacct_active s then Some s else charge_groups cpu t (Some (task_ca s p)) s)"

fun cpuusage_read :: "nat list \<Rightarrow> nat \<Rightarrow> 'e cacct \<Rightarrow> u64" where
  "cpuusage_read [] ca s = 0"
| "cpuusage_read (c # cs) ca s = ca_cpuusage s ca c + cpuusage_read cs ca s"

fun cpuusage_clear :: "nat list \<Rightarrow> nat \<Rightarrow> 'e cacct \<Rightarrow> 'e cacct" where
  "cpuusage_clear [] ca s = s"
| "cpuusage_clear (c # cs) ca s = cpuusage_clear cs ca (s\<lparr>ca_cpuusage := (ca_cpuusage s)(ca := (ca_cpuusage s ca)(c := 0))\<rparr>)"

definition cpuusage_write :: "nat list \<Rightarrow> nat \<Rightarrow> u64 \<Rightarrow> 'e cacct \<Rightarrow> int \<times> 'e cacct" where
  "cpuusage_write cpus ca rst s = (if rst \<noteq> 0 then (- EINVAL, s) else (0, cpuusage_clear cpus ca s))"

section \<open>Reported times\<close>

record times =
  prev_utime :: ulong
  prev_stime :: ulong

text \<open>
  \<open>task_times\<close> and \<open>thread_group_times\<close> compute the same from the task's and the thread group's totals; \<open>rtime\<close> is the precise run time in
  units of \<open>cputime_t\<close>.
\<close>

definition scaled_utime :: "ulong \<Rightarrow> ulong \<Rightarrow> ulong \<Rightarrow> ulong" where
  "scaled_utime ut st rtime =
    (let total = ut + st in if total \<noteq> 0 then ucast ((ucast rtime * ucast ut :: u64) div ucast total) else rtime)"

definition task_times :: "ulong \<Rightarrow> ulong \<Rightarrow> ulong \<Rightarrow> times \<Rightarrow> (ulong \<times> ulong) \<times> times" where
  "task_times ut st rtime p =
    (let p = p\<lparr>prev_utime := max (prev_utime p) (scaled_utime ut st rtime)\<rparr>;
         p = p\<lparr>prev_stime := max (prev_stime p) (rtime - prev_utime p)\<rparr>
     in ((prev_utime p, prev_stime p), p))"

definition do_task_delta_exec :: "bool \<Rightarrow> u64 \<Rightarrow> u64 \<Rightarrow> u64" where
  "do_task_delta_exec running clk exec_start =
    (if running then let ns = clk - exec_start in if sint ns < 0 then 0 else ns else 0)"

definition task_sched_runtime :: "bool \<Rightarrow> u64 \<Rightarrow> u64 \<Rightarrow> u64 \<Rightarrow> u64" where
  "task_sched_runtime running clk exec_start sum_exec_runtime = sum_exec_runtime + do_task_delta_exec running clk exec_start"

section \<open>A tick is accounted exactly once\<close>

abbreviation up_path :: "'e cacct \<Rightarrow> nat option \<Rightarrow> nat list \<Rightarrow> bool" where
  "up_path s p cas \<equiv> chain (\<lambda>a. Some (ca_parent s a)) p cas None"

definition busy_time :: "nat \<Rightarrow> 'e cacct \<Rightarrow> u64" where
  "busy_time cpu s = cpustat s cpu CPUTIME_USER + cpustat s cpu CPUTIME_NICE + cpustat s cpu CPUTIME_SYSTEM + cpustat s cpu CPUTIME_SOFTIRQ
    + cpustat s cpu CPUTIME_IRQ + cpustat s cpu CPUTIME_IDLE + cpustat s cpu CPUTIME_IOWAIT + cpustat s cpu CPUTIME_STEAL"

lemma add_stat_frame [simp]:
  "utime (add_stat cpu idx t s) = utime s" "stime (add_stat cpu idx t s) = stime s" "ca_parent (add_stat cpu idx t s) = ca_parent s"
  "task_ca (add_stat cpu idx t s) = task_ca s" "cpuacct_active (add_stat cpu idx t s) = cpuacct_active s"
  "d \<noteq> cpu \<Longrightarrow> cpustat (add_stat cpu idx t s) d = cpustat s d"
  by (simp_all add: add_stat_def)

lemma busy_add_stat [simp]:
  "busy_time cpu (add_stat cpu idx t s) = busy_time cpu s + (if idx \<in> {CPUTIME_GUEST, CPUTIME_GUEST_NICE} then 0 else ucast t)"
  by (cases idx) (simp_all add: busy_time_def add_stat_def)

definition add_path :: "nat \<Rightarrow> cpu_index \<Rightarrow> ulong \<Rightarrow> nat set \<Rightarrow> 'e cacct \<Rightarrow> 'e cacct" where
  "add_path cpu idx t G s = s\<lparr>ca_cpustat := (\<lambda>g. if g \<in> G
     then (ca_cpustat s g)(cpu := (ca_cpustat s g cpu)(idx := ca_cpustat s g cpu idx + ucast t)) else ca_cpustat s g)\<rparr>"

lemma account_groups_path:
  "up_path s p cas \<Longrightarrow> account_groups cpu idx t p s = Some (add_path cpu idx t (set (takeWhile (\<lambda>a. a \<noteq> root_cpuacct) cas)) s)"
proof (induction cas arbitrary: p s)
  case Nil
  then show ?case by (subst account_groups.simps) (simp add: add_path_def)
next
  case (Cons a cas)
  then have p: "p = Some a" "up_path s (ca_parent s a) cas" by simp_all
  show ?case
  proof (cases "a = root_cpuacct")
    case True
    then show ?thesis using p by (subst account_groups.simps) (simp add: add_path_def)
  next
    case False
    have "a \<notin> set cas" using chain_distinct [OF Cons.prems] by simp
    then have n: "a \<notin> set (takeWhile (\<lambda>a. a \<noteq> root_cpuacct) cas)" by (meson set_takeWhileD)
    have "up_path (add_ca_stat a cpu idx t s) (ca_parent s a) cas" using p(2) by (simp add: add_ca_stat_def)
    from Cons.IH [OF this] False p(1) n show ?thesis
      by (subst account_groups.simps) (auto simp: add_path_def add_ca_stat_def fun_eq_iff)
  qed
qed

text \<open>What accounting to a task changes of the processor's statistics and of the task.\<close>

definition tick_effect :: "nat \<Rightarrow> nat \<Rightarrow> ulong \<Rightarrow> 'e cacct \<Rightarrow> 'e cacct \<Rightarrow> bool" where
  "tick_effect cpu p t s s' \<longleftrightarrow> busy_time cpu s' = busy_time cpu s + ucast t \<and> (\<forall>d. d \<noteq> cpu \<longrightarrow> cpustat s' d = cpustat s d)
     \<and> (utime s' p + stime s' p = utime s p + stime s p + t \<or> utime s' p = utime s p \<and> stime s' p = stime s p)
     \<and> (\<forall>q. q \<noteq> p \<longrightarrow> utime s' q = utime s q \<and> stime s' q = stime s q) \<and> ca_parent s' = ca_parent s \<and> task_ca s' = task_ca s"

lemma account_field_path:
  assumes "up_path s (Some (task_ca s p)) cas"
  shows "\<exists>G. task_group_account_field cpu p idx t s = Some (add_path cpu idx t G (add_stat cpu idx t s))"
proof (cases "cpuacct_active s")
  case True
  have "up_path (add_stat cpu idx t s) (Some (task_ca s p)) cas" using assms by simp
  from account_groups_path [OF this] True show ?thesis by (auto simp: task_group_account_field_def)
next
  case False
  then have "task_group_account_field cpu p idx t s = Some (add_path cpu idx t {} (add_stat cpu idx t s))"
    by (simp add: task_group_account_field_def add_path_def)
  then show ?thesis ..
qed

lemma user_time_effect:
  assumes "up_path s (Some (task_ca s p)) cas"
  shows "\<exists>s'. account_user_time env cpu p t scaled s = Some s' \<and> tick_effect cpu p t s s'"
proof -
  define s1 where "s1 = s\<lparr>utime := (utime s)(p := utime s p + t), utimescaled := (utimescaled s)(p := utimescaled s p + scaled),
      group_totals := account_group_user_time env p t (group_totals s)\<rparr>"
  let ?i = "if TASK_NICE env p > 0 then CPUTIME_NICE else CPUTIME_USER"
  have "up_path s1 (Some (task_ca s1 p)) cas" using assms by (simp add: s1_def)
  from account_field_path [OF this, of cpu ?i t] obtain G where
    "task_group_account_field cpu p ?i t s1 = Some (add_path cpu ?i t G (add_stat cpu ?i t s1))" by blast
  then have "account_user_time env cpu p t scaled s
      = Some ((add_path cpu ?i t G (add_stat cpu ?i t s1))\<lparr>group_totals := acct_update_integrals env p (group_totals (add_path cpu ?i t G (add_stat cpu ?i t s1)))\<rparr>)"
    unfolding account_user_time_def Let_def s1_def [symmetric] by simp
  then show ?thesis
    by (auto simp: tick_effect_def add_path_def s1_def busy_time_def add_stat_def)
qed

lemma system_time_effect:
  assumes "up_path s (Some (task_ca s p)) cas" "idx \<in> {CPUTIME_SYSTEM, CPUTIME_IRQ, CPUTIME_SOFTIRQ}"
  shows "\<exists>s'. account_system_time' env cpu p t scaled idx s = Some s' \<and> tick_effect cpu p t s s'"
proof -
  define s1 where "s1 = s\<lparr>stime := (stime s)(p := stime s p + t), stimescaled := (stimescaled s)(p := stimescaled s p + scaled),
      group_totals := account_group_system_time env p t (group_totals s)\<rparr>"
  have "up_path s1 (Some (task_ca s1 p)) cas" using assms by (simp add: s1_def)
  from account_field_path [OF this, of cpu idx t] obtain G where
    "task_group_account_field cpu p idx t s1 = Some (add_path cpu idx t G (add_stat cpu idx t s1))" by blast
  then have "account_system_time' env cpu p t scaled idx s
      = Some ((add_path cpu idx t G (add_stat cpu idx t s1))\<lparr>group_totals := acct_update_integrals env p (group_totals (add_path cpu idx t G (add_stat cpu idx t s1)))\<rparr>)"
    unfolding account_system_time'_def Let_def s1_def [symmetric] by simp
  with assms(2) show ?thesis
    by (auto simp: tick_effect_def add_path_def s1_def busy_time_def add_stat_def)
qed

lemma guest_time_effect: "tick_effect cpu p t s (account_guest_time env cpu p t scaled s)"
  by (auto simp: tick_effect_def account_guest_time_def Let_def busy_time_def add_stat_def)

lemma plain_stat_effect: "idx \<notin> {CPUTIME_GUEST, CPUTIME_GUEST_NICE} \<Longrightarrow> tick_effect cpu p t s (add_stat cpu idx t s)"
  by (auto simp: tick_effect_def)

lemma irqtime_tick_effect:
  assumes "up_path s (Some (task_ca s p)) cas"
  shows "\<exists>s'. irqtime_account_process_tick env cpu p user_tick s = Some s' \<and> tick_effect cpu p (cputime_one_jiffy env) s s'"
  using user_time_effect [OF assms] system_time_effect [OF assms]
  by (simp add: guest_time_effect irqtime_account_process_tick_def Let_def plain_stat_effect account_idle_time_def)


section \<open>Run time charged to accounting groups\<close>

lemma charge_groups_path:
  "up_path s p cas \<Longrightarrow> charge_groups cpu t p s
     = Some (s\<lparr>ca_cpuusage := (\<lambda>g c. ca_cpuusage s g c + (if g \<in> set cas \<and> c = cpu then t else 0))\<rparr>)"
proof (induction cas arbitrary: p s)
  case Nil
  then show ?case by (subst charge_groups.simps) simp
next
  case (Cons a cas)
  then have p: "p = Some a" "up_path s (ca_parent s a) cas" by simp_all
  have n: "a \<notin> set cas" using chain_distinct [OF Cons.prems] by simp
  define s1 where "s1 = s\<lparr>ca_cpuusage := (ca_cpuusage s)(a := (ca_cpuusage s a)(cpu := ca_cpuusage s a cpu + t))\<rparr>"
  have "up_path s1 (ca_parent s a) cas" using p(2) by (simp add: s1_def)
  from Cons.IH [OF this] have "charge_groups cpu t (ca_parent s a) s1
      = Some (s1\<lparr>ca_cpuusage := (\<lambda>g c. ca_cpuusage s1 g c + (if g \<in> set cas \<and> c = cpu then t else 0))\<rparr>)" .
  moreover have "(\<lambda>g c. ca_cpuusage s1 g c + (if g \<in> set cas \<and> c = cpu then t else 0))
      = (\<lambda>g c. ca_cpuusage s g c + (if g \<in> set (a # cas) \<and> c = cpu then t else 0))"
    using n by (auto simp: s1_def fun_eq_iff)
  ultimately show ?case using p(1) by (subst charge_groups.simps) (simp add: s1_def)
qed

text \<open>On a path upwards every group but the first is the parent of exactly one group of the path.\<close>

lemma path_children:
  "up_path s p cas \<Longrightarrow> card {h \<in> set cas. ca_parent s h = Some g} = (if g \<in> set cas \<and> p \<noteq> Some g then 1 else 0)"
proof (induction cas arbitrary: p)
  case (Cons a cas)
  then have p: "p = Some a" "up_path s (ca_parent s a) cas" by simp_all
  have n: "a \<notin> set cas" using chain_distinct [OF Cons.prems] by simp
  have up: "ca_parent s a = Some g \<Longrightarrow> g \<in> set cas" using p(2) by (cases cas) auto
  have "{h \<in> set (a # cas). ca_parent s h = Some g} = (if ca_parent s a = Some g then insert a {h \<in> set cas. ca_parent s h = Some g}
      else {h \<in> set cas. ca_parent s h = Some g})" by auto
  then have "card {h \<in> set (a # cas). ca_parent s h = Some g} = (if ca_parent s a = Some g then 1 else 0) + card {h \<in> set cas. ca_parent s h = Some g}"
    using n by simp
  with Cons.IH [OF p(2)] up p(1) n show ?case by auto
qed simp

text \<open>
  The usage of a group is the run time charged to its own tasks plus the usage of its child groups.
\<close>

definition usage_consistent :: "nat set \<Rightarrow> (nat \<Rightarrow> nat \<Rightarrow> u64) \<Rightarrow> 'e cacct \<Rightarrow> bool" where
  "usage_consistent G own s \<longleftrightarrow> (\<forall>g c. ca_cpuusage s g c = own g c + (\<Sum>h \<in> {h \<in> G. ca_parent s h = Some g}. ca_cpuusage s h c))"

lemma charge_consistent:
  assumes "finite G" "usage_consistent G own s" "up_path s (Some ca) cas" "set cas \<subseteq> G"
    and s': "s' = s\<lparr>ca_cpuusage := (\<lambda>g c. ca_cpuusage s g c + (if g \<in> set cas \<and> c = cpu then t else 0))\<rparr>"
  shows "usage_consistent G (\<lambda>g c. own g c + (if g = ca \<and> c = cpu then t else 0)) s'"
  unfolding usage_consistent_def
proof (intro allI)
  fix g c
  let ?H = "{h \<in> G. ca_parent s h = Some g}"
  have "(\<Sum>h \<in> ?H. if h \<in> set cas \<and> c = cpu then t else 0) = (\<Sum>h \<in> ?H. if h \<in> set cas then if c = cpu then t else 0 else 0)"
    by (rule sum.cong) auto
  also have "\<dots> = (\<Sum>h \<in> ?H \<inter> set cas. if c = cpu then t else 0)"
    by (rule sum.inter_restrict [symmetric]) (use assms(1) in simp)
  also have "?H \<inter> set cas = {h \<in> set cas. ca_parent s h = Some g}" using assms(4) by auto
  finally have "(\<Sum>h \<in> ?H. if h \<in> set cas \<and> c = cpu then t else 0) = (if g \<in> set cas \<and> g \<noteq> ca \<and> c = cpu then t else 0)"
    using path_children [OF assms(3), of g] by auto
  moreover have "ca \<in> set cas" using assms(3) by (cases cas) auto
  ultimately have e: "(if g \<in> set cas \<and> c = cpu then t else 0)
      = (if g = ca \<and> c = cpu then t else 0) + (\<Sum>h \<in> ?H. if h \<in> set cas \<and> c = cpu then t else 0)" by auto
  have "ca_cpuusage s g c = own g c + (\<Sum>h \<in> ?H. ca_cpuusage s h c)" using assms(2) unfolding usage_consistent_def by blast
  moreover have u: "ca_cpuusage s' g c = ca_cpuusage s g c + (if g \<in> set cas \<and> c = cpu then t else 0)" for g by (simp add: s')
  moreover have par: "ca_parent s' = ca_parent s" by (simp add: s')
  ultimately show "ca_cpuusage s' g c = own g c + (if g = ca \<and> c = cpu then t else 0) + (\<Sum>h \<in> {h \<in> G. ca_parent s' h = Some g}. ca_cpuusage s' h c)"
    by (simp only: u par sum.distrib e add.assoc)
      (simp only: add_ac)
qed

text \<open>
  Charging run time to a task ends and keeps the accounting of groups consistent on every processor: the usage of a
  group stays the time charged to its own tasks plus the usage of its children, so that the usage of a group is the time of all
  tasks below it, and the total that \<open>cpuusage_read\<close> reports grows by the charge exactly for the
  groups above the task.
\<close>
theorem cpuacct_charge_consistent:
  assumes "finite G" and "usage_consistent G own s" and "up_path s (Some (task_ca s p)) cas" and "set cas \<subseteq> G" and "cpuacct_active s"
    and "distinct cpus" and "cpu \<in> set cpus"
  shows "\<exists>s'. cpuacct_charge cpu p t s = Some s'
    \<and> usage_consistent G (\<lambda>g c. own g c + (if g = task_ca s p \<and> c = cpu then t else 0)) s'
    \<and> (\<forall>g. cpuusage_read cpus g s' = cpuusage_read cpus g s + (if g \<in> set cas then t else 0))"
proof -
  define s' where "s' = s\<lparr>ca_cpuusage := (\<lambda>g c. ca_cpuusage s g c + (if g \<in> set cas \<and> c = cpu then t else 0))\<rparr>"
  have "cpuacct_charge cpu p t s = Some s'" using charge_groups_path [OF assms(3)] assms(5) by (simp add: cpuacct_charge_def s'_def)
  moreover have "cpuusage_read cs g s' = cpuusage_read cs g s + (if g \<in> set cas \<and> cpu \<in> set cs then t else 0)" if "distinct cs" for cs g
    using that by (induction cs) (auto simp: s'_def)
  ultimately show ?thesis using charge_consistent [OF assms(1-4) s'_def] assms(6,7) by auto
qed

section \<open>Interrupt time\<close>

text \<open>
  The clock of tasks and the interrupt time taken out of it add up to the clock of the processor: every update
  splits the elapsed time between them, the task clock never runs backwards, and never more interrupt time
  is taken out than has passed.
\<close>
theorem clock_task_split:
  assumes "0 \<le> delta" and "0 \<le> sint (irq_time - prev_irq_time r)"
  shows "clock_task (update_rq_clock_task irq_time delta r) + prev_irq_time (update_rq_clock_task irq_time delta r)
      = clock_task r + prev_irq_time r + word_of_int delta
    \<and> clock_task (update_rq_clock_task irq_time delta r) = clock_task r + word_of_int (max 0 (delta - sint (irq_time - prev_irq_time r)))
    \<and> sint (irq_time - prev_irq_time (update_rq_clock_task irq_time delta r)) = max 0 (sint (irq_time - prev_irq_time r) - delta)"
proof -
  let ?p = "sint (irq_time - prev_irq_time r)"
  define m where "m = (if ?p > delta then delta else ?p)"
  have r: "update_rq_clock_task irq_time delta r
      = r\<lparr>prev_irq_time := prev_irq_time r + word_of_int m, clock_task := clock_task r + word_of_int (delta - m)\<rparr>"
    by (simp only: update_rq_clock_task_def m_def Let_def)
  have "irq_time - (prev_irq_time r + word_of_int m) = word_of_int (?p - m)" by (simp add: algebra_simps)
  moreover have "sint (word_of_int (?p - m) :: u64) = ?p - m"
  proof -
    have "0 \<le> ?p - m" "?p - m \<le> ?p" using assms by (simp_all add: m_def)
    moreover have "?p < 2 ^ 63" using sint_lt [of "irq_time - prev_irq_time r"] by simp
    ultimately show ?thesis by (simp add: sint_sbintrunc' signed_take_bit_int_eq_self del: of_int_diff)
  qed
  moreover have "delta - m = max 0 (delta - ?p)" "?p - m = max 0 (?p - delta)" by (simp_all add: m_def)
  moreover have "word_of_int delta = (word_of_int m + word_of_int (delta - m) :: u64)" by simp
  moreover have "clock_task (update_rq_clock_task irq_time delta r) = clock_task r + word_of_int (delta - m)"
    "prev_irq_time (update_rq_clock_task irq_time delta r) = prev_irq_time r + word_of_int m" by (simp_all add: r)
  ultimately show ?thesis by (simp only: add_ac)
qed

section \<open>Reported times\<close>

lemma scaled_utime_le:
  assumes "unat ut + unat st < 2 ^ 32"
  shows "unat (scaled_utime ut st rtime) = (if ut + st = 0 then unat rtime else unat rtime * unat ut div (unat ut + unat st))"
    and "scaled_utime ut st rtime \<le> rtime"
proof -
  have t: "unat (ut + st) = unat ut + unat st" by (rule unat_add_small [OF assms])
  have m: "unat (ucast rtime * ucast ut :: u64) = unat rtime * unat ut" by (rule unat_ulong_product)
  have le: "unat rtime * unat ut div (unat ut + unat st) \<le> unat rtime"
  proof (cases "unat ut + unat st = 0")
    case False
    have "unat rtime * unat ut \<le> unat rtime * (unat ut + unat st)" by simp
    then have "unat rtime * unat ut div (unat ut + unat st) \<le> unat rtime * (unat ut + unat st) div (unat ut + unat st)" by (rule div_le_mono)
    then show ?thesis using False by (simp split: if_splits)
  qed simp
  show 1: "unat (scaled_utime ut st rtime) = (if ut + st = 0 then unat rtime else unat rtime * unat ut div (unat ut + unat st))"
  proof (cases "ut + st = 0")
    case False
    have "unat ((ucast rtime * ucast ut :: u64) div ucast (ut + st)) = unat rtime * unat ut div (unat ut + unat st)"
      by (simp add: unat_div m unat_ucast_u64 t)
    moreover have "\<dots> < 2 ^ 32" using le ulong_less [of rtime] by simp
    ultimately show ?thesis using False by (simp add: scaled_utime_def Let_def unsigned_ucast_eq take_bit_nat_eq_self)
  qed (simp add: scaled_utime_def)
  show "scaled_utime ut st rtime \<le> rtime" using 1 le by (simp add: word_le_nat_alt)
qed

text \<open>
  The user and system times reported for a task never decrease from one report to the next, the user time never exceeds the
  precise run time, and together they cover it: as long as the precise run time only grows and the tick counts have not
  wrapped around. When the user time need not be kept from falling it is the run time split in the proportion of
  the ticks, rounded down.
\<close>
theorem task_times_monotone:
  assumes "unat ut + unat st < 2 ^ 32" and "prev_utime p \<le> rtime" and "task_times ut st rtime p = ((u, s), p')"
  shows "prev_utime p \<le> u \<and> prev_stime p \<le> s \<and> u \<le> rtime \<and> unat rtime \<le> unat u + unat s \<and> p' = \<lparr>prev_utime = u, prev_stime = s\<rparr>
    \<and> (prev_utime p \<le> scaled_utime ut st rtime \<and> ut + st \<noteq> 0 \<longrightarrow> unat u = unat rtime * unat ut div (unat ut + unat st))"
proof -
  let ?x = "scaled_utime ut st rtime"
  have u: "u = max (prev_utime p) ?x" "s = max (prev_stime p) (rtime - u)" "p' = \<lparr>prev_utime = u, prev_stime = s\<rparr>"
    using assms(3) by (auto simp: task_times_def Let_def)
  have r: "u \<le> rtime" using assms(2) scaled_utime_le(2) [OF assms(1), of rtime] by (simp add: u(1))
  then have "unat (rtime - u) = unat rtime - unat u" by (rule unat_sub)
  moreover have "unat (rtime - u) \<le> unat s" using word_le_nat_alt [of "rtime - u" s] by (simp add: u(2))
  ultimately have "unat rtime \<le> unat u + unat s" by simp
  moreover have "unat u = unat rtime * unat ut div (unat ut + unat st)" if "prev_utime p \<le> ?x" "ut + st \<noteq> 0"
    using that scaled_utime_le(1) [OF assms(1), of rtime] by (simp add: u(1) max_def)
  ultimately show ?thesis using r u by auto
qed

section \<open>Witnesses\<close>

definition acct_env0 :: "unit acct_env" where
  "acct_env0 = \<lparr>account_group_user_time = (\<lambda>_ _ u. u), account_group_system_time = (\<lambda>_ _ u. u), acct_update_integrals = (\<lambda>_ u. u),
    cputime_one_jiffy = 1, cputime_to_scaled = (\<lambda>t. t), jiffies_to_cputime = (\<lambda>t. t), nsecs_to_cputime64 = (\<lambda>n. n div 10000000),
    TASK_NICE = (\<lambda>_. 0), PF_VCPU = (\<lambda>_. False), idle_task = (\<lambda>_. 0), ksoftirqd = (\<lambda>_. 1), nr_iowait = (\<lambda>_. 0),
    sched_clock_irqtime = False, HARDIRQ_OFFSET = 65536\<rparr>"

definition acct0 :: "unit cacct" where
  "acct0 = \<lparr>cpustat = (\<lambda>_ _. 0), ca_cpustat = (\<lambda>_ _ _. 0), ca_cpuusage = (\<lambda>_ _. 0), ca_parent = (\<lambda>g. if g = 0 then None else Some (g - 1)),
    cpuacct_active = True, task_ca = (\<lambda>_. 2), utime = (\<lambda>_. 0), stime = (\<lambda>_. 0), utimescaled = (\<lambda>_. 0), stimescaled = (\<lambda>_. 0),
    gtime = (\<lambda>_. 0), group_totals = (), cpu_hardirq_time = (\<lambda>_. 0), cpu_softirq_time = (\<lambda>_. 0), irq_start_time = (\<lambda>_. 0)\<rparr>"

lemma acct0_path: "up_path acct0 (Some (task_ca acct0 7)) [2, 1, 0]"
  by (simp add: acct0_def)


theorem cpuacct_charge_consistent_witness:
  "\<exists>s'. cpuacct_charge 0 7 500 acct0 = Some s'
    \<and> usage_consistent {0, 1, 2, 3} (\<lambda>g c. 0 + (if g = 2 \<and> c = 0 then 500 else 0)) s'
    \<and> cpuusage_read [0, 1] 0 s' = 500 \<and> cpuusage_read [0, 1] 3 s' = 0"
proof -
  have "usage_consistent {0, 1, 2, 3} (\<lambda>_ _. 0) acct0" by (simp add: usage_consistent_def acct0_def)
  from cpuacct_charge_consistent [OF _ this acct0_path, of "[0, 1]" 0 500]
  obtain s' where s': "cpuacct_charge 0 7 500 acct0 = Some s'"
    "usage_consistent {0, 1, 2, 3} (\<lambda>g c. 0 + (if g = task_ca acct0 7 \<and> c = 0 then 500 else 0)) s'"
    "\<forall>g. cpuusage_read [0, 1] g s' = cpuusage_read [0, 1] g acct0 + (if g \<in> set [2, 1, 0] then 500 else 0)"
    by (auto simp: acct0_def)
  have "cpuusage_read [0, 1] g acct0 = 0" "task_ca acct0 7 = 2" for g by (simp_all add: acct0_def)
  with s' show ?thesis by (intro exI [of _ s']) simp
qed

theorem clock_task_split_witness:
  "clock_task (update_rq_clock_task 30 100 \<lparr>clock_task = 5, prev_irq_time = 10\<rparr>) = 85
    \<and> prev_irq_time (update_rq_clock_task 30 100 \<lparr>clock_task = 5, prev_irq_time = 10\<rparr>) = 30"
proof -
  have "sint ((30 :: u64) - 10) = 20" by (simp add: sint_numeral)
  then show ?thesis
    using clock_task_split [of 100 30 "\<lparr>clock_task = 5, prev_irq_time = 10\<rparr>"] by (simp add: update_rq_clock_task_def)
qed

theorem task_times_monotone_witness:
  "fst (task_times 30 10 100 \<lparr>prev_utime = 60, prev_stime = 20\<rparr>) = (75, 25)"
proof -
  have "unat (30 :: ulong) + unat (10 :: ulong) < 2 ^ 32" "prev_utime \<lparr>prev_utime = 60, prev_stime = 20\<rparr> \<le> 100" by simp_all
  from task_times_monotone [OF this, of "fst (fst (task_times 30 10 100 \<lparr>prev_utime = 60, prev_stime = 20\<rparr>))"
      "snd (fst (task_times 30 10 100 \<lparr>prev_utime = 60, prev_stime = 20\<rparr>))" "snd (task_times 30 10 100 \<lparr>prev_utime = 60, prev_stime = 20\<rparr>)"]
  have "unat (fst (fst (task_times 30 10 100 \<lparr>prev_utime = 60, prev_stime = 20\<rparr>))) \<le> 100" by (simp add: word_le_nat_alt)
  moreover have "fst (task_times 30 10 100 \<lparr>prev_utime = 60, prev_stime = 20\<rparr>) = (75, 25)" by code_simp
  ultimately show ?thesis by simp
qed

end
