(* ===== verification/Lb_State.thy ===== *)
theory Lb_State
  imports Transition
begin

text \<open>
  Load balancing between processors (\<open>hw4/kernel/sched/fair.c\<close>, \<open>CONFIG_SMP\<close>), first part: the run queues as the balancer sees
  them, and the migration of tasks from one to another.

  Configuration: no group scheduling and no bandwidth control (so \<open>task_h_load\<close> is the weight of the task and
  \<open>throttled_lb_pair\<close> is always false), no power savings (\<open>CONFIG_SCHED_MC\<close> and \<open>CONFIG_SCHED_SMT\<close> off), no statistics. Of a run queue only what the
  balancer reads or changes is kept: a dequeue takes the task off \<open>cfs_tasks\<close>, its weight off the load and one off the
  number of running tasks, an enqueue does the reverse and puts the task in front of the list. Loads are machine words: on the 32-bit target a division by
  zero yields zero, as it does for words in HOL, and sums wrap around.
\<close>

section \<open>Run queues and tasks\<close>

datatype cpu_idle_type = CPU_IDLE | CPU_NOT_IDLE | CPU_NEWLY_IDLE

record lb_rq =
  nr_running :: ulong
  load :: ulong
  cpu_load :: "nat \<Rightarrow> ulong"
  cfs_tasks :: "nat list"
  rq_curr :: nat
  rq_idle :: nat
  rq_stop :: nat \<comment> \<open>the stopper thread\<close>
  wake_list :: "nat list"
  cpu_power :: ulong
  clock :: u64
  clock_task :: u64
  age_stamp :: u64
  rt_avg :: u64
  next_buddy :: "nat option"
  last_buddy :: "nat option"
  active_balance :: bool
  push_cpu :: nat
  idle_stamp :: u64
  avg_idle :: u64
  next_balance :: ulong
  rq_idle_balance :: bool
  NOHZ_TICK_STOPPED :: bool
  NOHZ_BALANCE_KICK :: bool
  NOHZ_IDLE :: bool

text \<open>
  A scheduling domain is a level of the hierarchy of processors, its groups are the parts that are balanced
  against each other. Groups of several domains may share one \<open>sched_group_power\<close>, so groups refer to it by address.
\<close>

record sched_group_power =
  sgp_power :: u32
  power_orig :: u32
  next_update :: ulong
  nr_busy_cpus :: int

record sched_group =
  group_weight :: u32
  sgp_ref :: nat
  sched_group_cpus :: "nat list" \<comment> \<open>in increasing order\<close>

record sched_domain =
  groups :: "sched_group list" \<comment> \<open>the circular list, \<open>sd->groups\<close> first\<close>
  span :: "nat list"
  span_weight :: u32
  min_interval :: ulong
  max_interval :: ulong
  busy_factor :: u32
  imbalance_pct :: u32
  cache_nice_tries :: u32
  busy_idx :: nat
  idle_idx :: nat
  newidle_idx :: nat
  smt_gain :: u32
  wake_idx :: nat
  forkexec_idx :: nat
  SD_LOAD_BALANCE :: bool
  SD_BALANCE_NEWIDLE :: bool
  SD_SHARE_CPUPOWER :: bool
  SD_ASYM_PACKING :: bool
  SD_PREFER_SIBLING :: bool
  SD_SERIALIZE :: bool
  SD_SHARE_PKG_RESOURCES :: bool
  SD_WAKE_AFFINE :: bool
  SD_PREFER_LOCAL :: bool
  SD_POWERSAVINGS_BALANCE :: bool
  SD_BALANCE_EXEC :: bool
  SD_BALANCE_FORK :: bool
  SD_BALANCE_WAKE :: bool
  last_balance :: ulong
  balance_interval :: u32
  nr_balance_failed :: u32

record lb_sys =
  rqs :: "nat \<Rightarrow> lb_rq"
  weight :: "nat \<Rightarrow> ulong" \<comment> \<open>\<open>se.load.weight\<close>\<close>
  cpus_allowed :: "nat \<Rightarrow> nat \<Rightarrow> bool"
  nr_cpus_allowed :: "nat \<Rightarrow> nat"
  task_cpu :: "nat \<Rightarrow> nat"
  fair_class :: "nat \<Rightarrow> bool"
  idle_policy :: "nat \<Rightarrow> bool"
  exec_start :: "nat \<Rightarrow> u64"
  notify_on_migrate :: "nat \<Rightarrow> bool"
  dbs_boost_needed :: "nat \<Rightarrow> bool"
  need_resched :: "nat \<Rightarrow> bool"
  domains :: "nat \<Rightarrow> sched_domain list" \<comment> \<open>of each processor, the base domain first\<close>
  sgps :: "nat \<Rightarrow> sched_group_power"
  notified :: "(nat \<times> nat) list" \<comment> \<open>calls of the migration notifier, the last first\<close>
  stop_works :: "nat list" \<comment> \<open>processors whose stopper thread was asked to push a task, the last first\<close>
  nohz_idle_cpus_mask :: "nat list" \<comment> \<open>in increasing order\<close>
  nohz_nr_cpus :: int
  nohz_next_balance :: ulong
  reschedule_ipis :: "nat list" \<comment> \<open>processors that were sent a reschedule interrupt\<close>
  softirqs :: "nat list" \<comment> \<open>processors that raised \<open>SCHED_SOFTIRQ\<close>\<close>

text \<open>Tunables, features and the facts about the machine that do not change while balancing.\<close>

record lb_conf =
  LB_MIN :: bool
  LB_BIAS :: bool
  CACHE_HOT_BUDDY :: bool
  ARCH_POWER :: bool
  CONFIG_PREEMPT :: bool
  sysctl_sched_migration_cost :: u32
  sysctl_sched_nr_migrate :: nat
  sched_avg_period :: u64
  max_load_balance_interval :: ulong
  msecs_to_jiffies :: "ulong \<Rightarrow> ulong"
  arch_scale_smt_power :: "sched_domain \<Rightarrow> nat \<Rightarrow> ulong"
  arch_scale_freq_power :: "sched_domain \<Rightarrow> nat \<Rightarrow> ulong"
  HZ :: ulong
  jiffies :: ulong
  smp_processor_id :: nat
  cpu_active_mask :: "nat list"
  nr_cpu_ids :: nat
  sched_mc_power_savings :: int
  rq_trylock :: "nat \<Rightarrow> bool" \<comment> \<open>whether the lock of a queue is free when it is tried\<close>
  balancing_trylock :: "nat \<Rightarrow> bool" \<comment> \<open>the same for the lock of the serialised domains, by level\<close>
  refreshed :: "nat \<Rightarrow> lb_rq \<Rightarrow> u64 \<times> u64 \<times> (nat \<Rightarrow> ulong)" \<comment> \<open>clocks and load averages after \<open>update_rq_clock\<close> and \<open>update_cpu_load\<close>\<close>
  check_preempt :: "nat \<Rightarrow> nat \<Rightarrow> lb_sys \<Rightarrow> bool" \<comment> \<open>the decision of \<open>check_preempt_curr\<close> of the class\<close>

definition upd_lb_rq :: "nat \<Rightarrow> (lb_rq \<Rightarrow> lb_rq) \<Rightarrow> lb_sys \<Rightarrow> lb_sys" where
  "upd_lb_rq c f s = s\<lparr>rqs := (rqs s)(c := f (rqs s c))\<rparr>"

definition idle_cpu :: "lb_sys \<Rightarrow> nat \<Rightarrow> bool" where
  "idle_cpu s c \<longleftrightarrow> rq_curr (rqs s c) = rq_idle (rqs s c) \<and> nr_running (rqs s c) = 0 \<and> wake_list (rqs s c) = []"

definition weighted_cpuload :: "lb_sys \<Rightarrow> nat \<Rightarrow> ulong" where
  "weighted_cpuload s c = load (rqs s c)"

definition source_load :: "lb_conf \<Rightarrow> lb_sys \<Rightarrow> nat \<Rightarrow> nat \<Rightarrow> ulong" where
  "source_load K s c type =
    (let total = weighted_cpuload s c
     in if type = 0 \<or> \<not> LB_BIAS K then total else min (cpu_load (rqs s c) (type - 1)) total)"

definition target_load :: "lb_conf \<Rightarrow> lb_sys \<Rightarrow> nat \<Rightarrow> nat \<Rightarrow> ulong" where
  "target_load K s c type =
    (let total = weighted_cpuload s c
     in if type = 0 \<or> \<not> LB_BIAS K then total else max (cpu_load (rqs s c) (type - 1)) total)"

definition power_of :: "lb_sys \<Rightarrow> nat \<Rightarrow> ulong" where
  "power_of s c = cpu_power (rqs s c)"

definition cpu_avg_load_per_task :: "lb_sys \<Rightarrow> nat \<Rightarrow> ulong" where
  "cpu_avg_load_per_task s c = (if nr_running (rqs s c) \<noteq> 0 then load (rqs s c) div nr_running (rqs s c) else 0)"

definition task_h_load :: "lb_sys \<Rightarrow> nat \<Rightarrow> ulong" where
  "task_h_load s p = weight s p"

section \<open>Moving a task\<close>

definition lb_dequeue :: "nat \<Rightarrow> nat \<Rightarrow> lb_sys \<Rightarrow> lb_sys" where
  "lb_dequeue c p s = upd_lb_rq c (\<lambda>q. q\<lparr>cfs_tasks := remove1 p (cfs_tasks q), load := load q - weight s p, nr_running := nr_running q - 1\<rparr>) s"

definition lb_enqueue :: "nat \<Rightarrow> nat \<Rightarrow> lb_sys \<Rightarrow> lb_sys" where
  "lb_enqueue c p s = upd_lb_rq c (\<lambda>q. q\<lparr>cfs_tasks := p # cfs_tasks q, load := load q + weight s p, nr_running := nr_running q + 1\<rparr>) s"

definition LBF_BREAK :: nat where "LBF_BREAK = 32" \<comment> \<open>\<open>sched_nr_migrate_break\<close>\<close>

record lb_env =
  src_cpu :: nat
  dst_cpu :: nat
  env_idle :: cpu_idle_type
  load_move :: ulong \<comment> \<open>a \<open>long\<close>\<close>
  LBF_ALL_PINNED :: bool
  LBF_NEED_BREAK :: bool
  loop :: nat
  loop_break :: nat
  loop_max :: nat
  sd_balance_failed :: u32 \<comment> \<open>\<open>nr_balance_failed\<close> and \<open>cache_nice_tries\<close> of \<open>env->sd\<close>\<close>
  sd_nice_tries :: u32

definition move_task :: "lb_conf \<Rightarrow> nat \<Rightarrow> lb_env \<Rightarrow> lb_sys \<Rightarrow> lb_sys" where
  "move_task K p e s =
    (let s = lb_dequeue (src_cpu e) p s;
         s = s\<lparr>task_cpu := (task_cpu s)(p := dst_cpu e)\<rparr>;
         s = lb_enqueue (dst_cpu e) p s;
         s = (if check_preempt K (dst_cpu e) p s then s\<lparr>need_resched := (need_resched s)(dst_cpu e := True)\<rparr> else s)
     in if notify_on_migrate s p then s\<lparr>dbs_boost_needed := (dbs_boost_needed s)(dst_cpu e := True)\<rparr> else s)"

definition task_hot :: "lb_conf \<Rightarrow> nat \<Rightarrow> u64 \<Rightarrow> lb_sys \<Rightarrow> bool" where
  "task_hot K p now s =
    (if \<not> fair_class s p then False
     else if idle_policy s p then False
     else if CACHE_HOT_BUDDY K \<and> nr_running (rqs s (smp_processor_id K)) \<noteq> 0
       \<and> (next_buddy (rqs s (task_cpu s p)) = Some p \<or> last_buddy (rqs s (task_cpu s p)) = Some p) then True
     else if sysctl_sched_migration_cost K = - 1 then True
     else if sysctl_sched_migration_cost K = 0 then False
     else sint (now - exec_start s p) < uint (sysctl_sched_migration_cost K))"

text \<open>The result and the flags of the environment.\<close>

definition can_migrate_task :: "lb_conf \<Rightarrow> nat \<Rightarrow> lb_env \<Rightarrow> lb_sys \<Rightarrow> bool \<times> lb_env" where
  "can_migrate_task K p e s =
    (if \<not> cpus_allowed s p (dst_cpu e) then (False, e)
     else
       let e = e\<lparr>LBF_ALL_PINNED := False\<rparr>
       in if rq_curr (rqs s (src_cpu e)) = p then (False, e)
          else (\<not> task_hot K p (clock_task (rqs s (src_cpu e))) s \<or> sd_balance_failed e > sd_nice_tries e, e))"

fun move_first :: "lb_conf \<Rightarrow> nat list \<Rightarrow> lb_env \<Rightarrow> lb_sys \<Rightarrow> bool \<times> lb_env \<times> lb_sys" where
  "move_first K [] e s = (False, e, s)"
| "move_first K (p # ps) e s =
    (case can_migrate_task K p e s of
       (False, e) \<Rightarrow> move_first K ps e s
     | (True, e) \<Rightarrow> (True, e, move_task K p e s))"

definition move_one_task :: "lb_conf \<Rightarrow> lb_env \<Rightarrow> lb_sys \<Rightarrow> bool \<times> lb_env \<times> lb_sys" where
  "move_one_task K e s = move_first K (cfs_tasks (rqs s (src_cpu e))) e s"

definition list_move_tail :: "nat \<Rightarrow> nat \<Rightarrow> lb_sys \<Rightarrow> lb_sys" where
  "list_move_tail c p s = upd_lb_rq c (\<lambda>q. q\<lparr>cfs_tasks := remove1 p (cfs_tasks q) @ [p]\<rparr>) s"

lemma can_migrate_env [simp]:
  "loop (snd (can_migrate_task K p e s)) = loop e" "loop_max (snd (can_migrate_task K p e s)) = loop_max e"
  "loop_break (snd (can_migrate_task K p e s)) = loop_break e" "load_move (snd (can_migrate_task K p e s)) = load_move e"
  "src_cpu (snd (can_migrate_task K p e s)) = src_cpu e" "dst_cpu (snd (can_migrate_task K p e s)) = dst_cpu e"
  "env_idle (snd (can_migrate_task K p e s)) = env_idle e" "sd_balance_failed (snd (can_migrate_task K p e s)) = sd_balance_failed e"
  "LBF_NEED_BREAK (snd (can_migrate_task K p e s)) = LBF_NEED_BREAK e"
  by (simp_all add: can_migrate_task_def Let_def)

function move_loop :: "lb_conf \<Rightarrow> nat \<Rightarrow> lb_env \<Rightarrow> lb_sys \<Rightarrow> nat \<times> lb_env \<times> lb_sys" where
  "move_loop K pulled e s =
    (case cfs_tasks (rqs s (src_cpu e)) of
       [] \<Rightarrow> (pulled, e, s)
     | p # _ \<Rightarrow>
         let e = e\<lparr>loop := loop e + 1\<rparr>
         in if loop e > loop_max e then (pulled, e, s)
            else if loop e > loop_break e then (pulled, e\<lparr>loop_break := loop_break e + LBF_BREAK, LBF_NEED_BREAK := True\<rparr>, s)
            else
              let ld = task_h_load s p
              in if LB_MIN K \<and> ld < 16 \<and> sd_balance_failed e = 0 then move_loop K pulled e (list_move_tail (src_cpu e) p s)
                 else if ld div 2 > load_move e then move_loop K pulled e (list_move_tail (src_cpu e) p s)
                 else if \<not> fst (can_migrate_task K p e s)
                 then move_loop K pulled (snd (can_migrate_task K p e s)) (list_move_tail (src_cpu e) p s)
                 else
                   let e = snd (can_migrate_task K p e s); s = move_task K p e s; e = e\<lparr>load_move := load_move e - ld\<rparr>
                   in if CONFIG_PREEMPT K \<and> env_idle e = CPU_NEWLY_IDLE then (pulled + 1, e, s)
                      else if sint (load_move e) \<le> 0 then (pulled + 1, e, s)
                      else move_loop K (pulled + 1) e s)"
  by pat_completeness auto

termination
  by (relation "measure (\<lambda>(K, pulled, e, s). Suc (loop_max e) - loop e)") (auto simp: Let_def)

declare move_loop.simps [simp del]

definition move_tasks :: "lb_conf \<Rightarrow> lb_env \<Rightarrow> lb_sys \<Rightarrow> nat \<times> lb_env \<times> lb_sys" where
  "move_tasks K e s = (if sint (load_move e) \<le> 0 then (0, e, s) else move_loop K 0 e s)"

section \<open>A machine with three processors\<close>

text \<open>Processor 0 is idle; the five tasks of processor 1 are pinned to it, the four of processor 2 may run anywhere.\<close>

definition idle_rq :: lb_rq where
  "idle_rq = \<lparr>nr_running = 0, load = 0, cpu_load = (\<lambda>_. 0), cfs_tasks = [], rq_curr = 0, rq_idle = 0, rq_stop = 1, wake_list = [], cpu_power = 1024, clock = 0,
    clock_task = 0, age_stamp = 0, rt_avg = 0, next_buddy = None, last_buddy = None, active_balance = False, push_cpu = 0, idle_stamp = 0,
    avg_idle = 1000000, next_balance = 0, rq_idle_balance = True, NOHZ_TICK_STOPPED = False, NOHZ_BALANCE_KICK = False, NOHZ_IDLE = False\<rparr>"

definition conf3 :: lb_conf where
  "conf3 = \<lparr>LB_MIN = False, LB_BIAS = True, CACHE_HOT_BUDDY = True, ARCH_POWER = False, CONFIG_PREEMPT = True, sysctl_sched_migration_cost = 500000,
    sysctl_sched_nr_migrate = 32, sched_avg_period = 500000000, max_load_balance_interval = 10, msecs_to_jiffies = (\<lambda>x. x div 10),
    arch_scale_smt_power = (\<lambda>_ _. 1024), arch_scale_freq_power = (\<lambda>_ _. 1024), HZ = 100, jiffies = 1000, smp_processor_id = 0,
    cpu_active_mask = [0, 1, 2], nr_cpu_ids = 3, sched_mc_power_savings = 0, rq_trylock = (\<lambda>_. True), balancing_trylock = (\<lambda>_. True),
    refreshed = (\<lambda>_ q. (clock q, clock_task q, cpu_load q)), check_preempt = (\<lambda>_ _ _. True)\<rparr>"

definition sd3 :: sched_domain where
  "sd3 = \<lparr>groups = [\<lparr>group_weight = 1, sgp_ref = 0, sched_group_cpus = [0]\<rparr>, \<lparr>group_weight = 2, sgp_ref = 1, sched_group_cpus = [1, 2]\<rparr>],
    span = [0, 1, 2], span_weight = 3, min_interval = 8, max_interval = 32, busy_factor = 32, imbalance_pct = 125, cache_nice_tries = 1, busy_idx = 2,
    idle_idx = 1, newidle_idx = 0, smt_gain = 0, wake_idx = 0, forkexec_idx = 0, SD_LOAD_BALANCE = True, SD_BALANCE_NEWIDLE = True, SD_SHARE_CPUPOWER = False, SD_ASYM_PACKING = False,
    SD_PREFER_SIBLING = False, SD_SERIALIZE = False, SD_SHARE_PKG_RESOURCES = False, SD_WAKE_AFFINE = True, SD_PREFER_LOCAL = False,
    SD_POWERSAVINGS_BALANCE = False, SD_BALANCE_EXEC = True, SD_BALANCE_FORK = True, SD_BALANCE_WAKE = False, last_balance = 0, balance_interval = 8, nr_balance_failed = 0\<rparr>"

definition sys3 :: lb_sys where
  "sys3 = \<lparr>rqs = (\<lambda>c. if c = 1 then idle_rq\<lparr>nr_running := 5, load := 5120, cpu_load := (\<lambda>_. 5120), cfs_tasks := [11, 12, 13, 14, 15], rq_curr := 11, clock_task := 10000000\<rparr>
                   else if c = 2 then idle_rq\<lparr>nr_running := 4, load := 4096, cpu_load := (\<lambda>_. 4096), cfs_tasks := [21, 22, 23, 24], rq_curr := 21, clock_task := 10000000\<rparr> else idle_rq),
    weight = (\<lambda>p. 1024), cpus_allowed = (\<lambda>p c. p > 20 \<or> c = 1), nr_cpus_allowed = (\<lambda>p. if p > 20 then 3 else 1), task_cpu = (\<lambda>p. if p > 20 then 2 else 1), fair_class = (\<lambda>_. True),
    idle_policy = (\<lambda>_. False), exec_start = (\<lambda>_. 0), notify_on_migrate = (\<lambda>_. False), dbs_boost_needed = (\<lambda>_. False), need_resched = (\<lambda>_. False),
    domains = (\<lambda>c. if c = 0 then [sd3] else []), sgps = (\<lambda>a. \<lparr>sgp_power = (if a = 1 then 2048 else 1024), power_orig = 1024, next_update = 0, nr_busy_cpus = 0\<rparr>),
    notified = [], stop_works = [], nohz_idle_cpus_mask = [], nohz_nr_cpus = 0, nohz_next_balance = 0, reschedule_ipis = [], softirqs = []\<rparr>"

definition env3 :: lb_env where
  "env3 = \<lparr>src_cpu = 2, dst_cpu = 0, env_idle = CPU_IDLE, load_move = 2000, LBF_ALL_PINNED = False, LBF_NEED_BREAK = False,
     loop = 0, loop_break = LBF_BREAK, loop_max = 4, sd_balance_failed = 0, sd_nice_tries = 1\<rparr>"

end
