(* ===== verification/Lb_Steps.thy ===== *)
theory Lb_Steps
  imports Lb_State
begin

text \<open>
  The steps of the load balancer on the run queues: a queue is rotated, a task that does not run goes to the end of a
  migration, or only the bookkeeping changes. The lemmas on every sequence of such steps are proved here once, and the operations
  of \<open>Lb_State\<close> are shown to be such sequences.
\<close>

text \<open>The records of which processors are idle.\<close>

definition same_nohz :: "lb_sys \<Rightarrow> lb_sys \<Rightarrow> bool" where
  "same_nohz s s' \<longleftrightarrow>
    (\<forall>c. NOHZ_TICK_STOPPED (rqs s' c) = NOHZ_TICK_STOPPED (rqs s c) \<and> NOHZ_IDLE (rqs s' c) = NOHZ_IDLE (rqs s c))
    \<and> nohz_idle_cpus_mask s' = nohz_idle_cpus_mask s \<and> nohz_nr_cpus s' = nohz_nr_cpus s \<and> (\<forall>a. nr_busy_cpus (sgps s' a) = nr_busy_cpus (sgps s a))"

definition same_queues :: "lb_sys \<Rightarrow> lb_sys \<Rightarrow> bool" where
  "same_queues s s' \<longleftrightarrow>
    (\<forall>c. cfs_tasks (rqs s' c) = cfs_tasks (rqs s c) \<and> load (rqs s' c) = load (rqs s c)
      \<and> nr_running (rqs s' c) = nr_running (rqs s c) \<and> rq_curr (rqs s' c) = rq_curr (rqs s c))
    \<and> weight s' = weight s \<and> cpus_allowed s' = cpus_allowed s \<and> task_cpu s' = task_cpu s \<and> same_nohz s s'"

definition transfer :: "nat \<Rightarrow> nat \<Rightarrow> nat \<Rightarrow> lb_sys \<Rightarrow> lb_sys" where
  "transfer src dst p s = (let s = lb_dequeue src p s in lb_enqueue dst p (s\<lparr>task_cpu := (task_cpu s)(p := dst)\<rparr>))"

inductive lb_step :: "nat \<Rightarrow> lb_sys \<Rightarrow> lb_sys \<Rightarrow> bool" for dst where
  quiet: "same_queues s s' \<Longrightarrow> lb_step dst s s'"
| rotate: "p \<in> set (cfs_tasks (rqs s c)) \<Longrightarrow> lb_step dst s (list_move_tail c p s)"
| move: "p \<in> set (cfs_tasks (rqs s src)) \<Longrightarrow> p \<noteq> rq_curr (rqs s src) \<Longrightarrow> cpus_allowed s p dst \<Longrightarrow> src \<noteq> dst
    \<Longrightarrow> lb_step dst s (transfer src dst p s)"

abbreviation lb_steps :: "nat \<Rightarrow> lb_sys \<Rightarrow> lb_sys \<Rightarrow> bool" where
  "lb_steps dst \<equiv> (lb_step dst)\<^sup>*\<^sup>*"

definition lb_queued :: "lb_sys \<Rightarrow> nat \<Rightarrow> bool" where
  "lb_queued s p \<longleftrightarrow> p \<in> set (cfs_tasks (rqs s (task_cpu s p)))"

text \<open>
  The invariant of the queues: a task is on the queue of its processor only, once, it may run there, and the load of a
  queue is the sum of the weights on it.
\<close>

definition queues_ok :: "lb_sys \<Rightarrow> bool" where
  "queues_ok s \<longleftrightarrow>
    (\<forall>c. distinct (cfs_tasks (rqs s c)) \<and> (\<forall>p\<in>set (cfs_tasks (rqs s c)). task_cpu s p = c \<and> cpus_allowed s p c)
      \<and> load (rqs s c) = (\<Sum>p\<leftarrow>cfs_tasks (rqs s c). weight s p))"

text \<open>What a balancing for \<open>dst\<close> may do to the tasks.\<close>

definition rebalanced :: "nat \<Rightarrow> lb_sys \<Rightarrow> lb_sys \<Rightarrow> bool" where
  "rebalanced dst s s' \<longleftrightarrow>
    (\<forall>p. lb_queued s' p = lb_queued s p)
    \<and> (\<forall>p. task_cpu s' p = task_cpu s p
        \<or> task_cpu s' p = dst \<and> cpus_allowed s p dst \<and> lb_queued s p \<and> p \<noteq> rq_curr (rqs s (task_cpu s p)))
    \<and> (\<forall>c. nr_running (rqs s' c) - of_nat (length (cfs_tasks (rqs s' c))) = nr_running (rqs s c) - of_nat (length (cfs_tasks (rqs s c))))
    \<and> (\<forall>c. rq_curr (rqs s' c) = rq_curr (rqs s c)) \<and> weight s' = weight s \<and> cpus_allowed s' = cpus_allowed s \<and> same_nohz s s'"

section \<open>Properties of the steps\<close>

lemma same_nohz_refl [simp]: "same_nohz s s"
  by (simp add: same_nohz_def)

lemma same_nohz_trans: "same_nohz s t \<Longrightarrow> same_nohz t u \<Longrightarrow> same_nohz s u"
  by (simp add: same_nohz_def)

lemma same_queues_refl [simp]: "same_queues s s"
  by (simp add: same_queues_def)

lemma same_queues_ok: "same_queues s s' \<Longrightarrow> queues_ok s \<Longrightarrow> queues_ok s'"
  by (simp add: same_queues_def queues_ok_def)

lemma same_queues_rebalanced: "same_queues s s' \<Longrightarrow> rebalanced dst s s'"
  by (simp add: same_queues_def rebalanced_def lb_queued_def)

lemma rebalanced_nohz: "rebalanced dst s t \<Longrightarrow> same_nohz s t"
  by (simp add: rebalanced_def)

lemma rebalanced_trans:
  assumes "rebalanced dst s t" "rebalanced dst t u"
  shows "rebalanced dst s u"
proof -
  let ?may = "\<lambda>s p. cpus_allowed s p dst \<and> lb_queued s p \<and> p \<noteq> rq_curr (rqs s (task_cpu s p))"
  have st: "task_cpu t p = task_cpu s p \<or> task_cpu t p = dst \<and> ?may s p" for p using assms(1) by (simp add: rebalanced_def)
  have tu: "task_cpu u p = task_cpu t p \<or> task_cpu u p = dst \<and> ?may t p" for p using assms(2) by (simp add: rebalanced_def)
  have same: "?may t p = ?may s p" if "task_cpu t p = task_cpu s p" for p using assms(1) that by (simp add: rebalanced_def)
  have "task_cpu u p = task_cpu s p \<or> task_cpu u p = dst \<and> ?may s p" for p using st [of p] tu [of p] same [of p] by metis
  with assms same_nohz_trans [OF assms [THEN rebalanced_nohz]] show ?thesis by (simp add: rebalanced_def)
qed

lemma sum_remove1: "p \<in> set ps \<Longrightarrow> (\<Sum>q\<leftarrow>remove1 p ps. f q) = (\<Sum>q\<leftarrow>ps. f q) - (f p :: 'a :: ab_group_add)"
  by (induction ps) auto

lemma queues_ok_rotate: "queues_ok s \<Longrightarrow> p \<in> set (cfs_tasks (rqs s c)) \<Longrightarrow> queues_ok (list_move_tail c p s)"
  by (auto simp: queues_ok_def list_move_tail_def upd_lb_rq_def sum_remove1 distinct_remove1 dest: notin_set_remove1)

lemma length_rotate: "p \<in> set ps \<Longrightarrow> length (remove1 p ps @ [p]) = length ps"
  by (induction ps) auto

lemma set_rotate: "p \<in> set ps \<Longrightarrow> set (remove1 p ps @ [p]) = set ps"
  by (induction ps) auto

lemma rebalanced_rotate: "p \<in> set (cfs_tasks (rqs s c)) \<Longrightarrow> rebalanced dst s (list_move_tail c p s)"
  using length_rotate [of p "cfs_tasks (rqs s c)"] set_rotate [of p "cfs_tasks (rqs s c)"]
  by (simp add: rebalanced_def lb_queued_def list_move_tail_def upd_lb_rq_def same_nohz_def)

lemma queues_ok_home: "queues_ok s \<Longrightarrow> p \<in> set (cfs_tasks (rqs s c)) \<Longrightarrow> task_cpu s p = c"
  by (simp add: queues_ok_def)

lemma queues_ok_transfer:
  assumes "queues_ok s" "p \<in> set (cfs_tasks (rqs s src))" "cpus_allowed s p dst" "src \<noteq> dst"
  shows "queues_ok (transfer src dst p s)"
proof -
  have home: "p \<in> set (cfs_tasks (rqs s c)) \<longleftrightarrow> c = src" for c
    using assms(1,2) by (auto dest: queues_ok_home)
  show ?thesis
    using assms home
    by (auto simp: queues_ok_def transfer_def lb_dequeue_def lb_enqueue_def upd_lb_rq_def Let_def sum_remove1 distinct_remove1
        dest: notin_set_remove1)
qed

lemma rebalanced_transfer:
  assumes "queues_ok s" "p \<in> set (cfs_tasks (rqs s src))" "p \<noteq> rq_curr (rqs s src)" "cpus_allowed s p dst" "src \<noteq> dst"
  shows "rebalanced dst s (transfer src dst p s)"
proof -
  have p: "task_cpu s p = src" and home: "p \<in> set (cfs_tasks (rqs s c)) \<longleftrightarrow> c = src" for c
    using assms(1,2) by (auto dest: queues_ok_home)
  have len: "of_nat (length (cfs_tasks (rqs s src)) - Suc 0) = (of_nat (length (cfs_tasks (rqs s src))) - 1 :: ulong)"
    using assms(2) by (cases "cfs_tasks (rqs s src)") auto
  show ?thesis
    using assms(3-)
    by (auto simp: rebalanced_def lb_queued_def transfer_def lb_dequeue_def lb_enqueue_def upd_lb_rq_def Let_def length_remove1 len p home
        same_nohz_def)
qed

lemma step_ok: "queues_ok s \<Longrightarrow> lb_step dst s s' \<Longrightarrow> queues_ok s'"
  by (erule lb_step.cases) (simp_all add: same_queues_ok queues_ok_rotate queues_ok_transfer)

lemma step_rebalanced: "queues_ok s \<Longrightarrow> lb_step dst s s' \<Longrightarrow> rebalanced dst s s'"
  by (erule lb_step.cases) (simp_all add: same_queues_rebalanced rebalanced_rotate rebalanced_transfer)

interpretation balancer: step_invariant "lb_step dst" queues_ok
  by unfold_locales (rule step_ok)

lemma steps_rebalanced: "lb_steps dst s s' \<Longrightarrow> queues_ok s \<Longrightarrow> rebalanced dst s s'"
proof (induction rule: rtranclp_induct)
  case (step t u)
  then show ?case by (meson balancer.steps_inv step_rebalanced rebalanced_trans)
qed (simp add: same_queues_rebalanced)

section \<open>The operations are sequences of steps\<close>

lemma quiet_steps: "same_queues s s' \<Longrightarrow> lb_steps dst s s'"
  by (blast intro: lb_step.quiet)

lemma move_task_steps:
  assumes "fst (can_migrate_task K p e s)" "p \<in> set (cfs_tasks (rqs s (src_cpu e)))" "src_cpu e \<noteq> dst_cpu e"
    and "src_cpu e' = src_cpu e" "dst_cpu e' = dst_cpu e"
  shows "lb_steps (dst_cpu e) s (move_task K p e' s)"
proof -
  have "lb_step (dst_cpu e) s (transfer (src_cpu e) (dst_cpu e) p s)"
    using assms by (intro lb_step.move) (auto simp: can_migrate_task_def Let_def split: if_splits)
  moreover have "same_queues (transfer (src_cpu e) (dst_cpu e) p s) (move_task K p e' s)"
    using assms(4,5) by (simp add: move_task_def transfer_def same_queues_def same_nohz_def Let_def)
  ultimately show ?thesis by (meson quiet_steps rtranclp.rtrancl_refl rtranclp.rtrancl_into_rtrancl rtranclp_trans)
qed

lemma rotate_steps: "p \<in> set (cfs_tasks (rqs s c)) \<Longrightarrow> lb_steps dst s (list_move_tail c p s)"
  by (blast intro: lb_step.rotate)

text \<open>A round of the loop of \<open>move_tasks\<close>: give up, skip the first task, or move it.\<close>

lemma move_task_loop [simp]: "move_task K p (e\<lparr>loop := n\<rparr>) s = move_task K p e s"
  by (simp add: move_task_def Let_def)

lemma can_migrate_loop [simp]: "fst (can_migrate_task K p (e\<lparr>loop := n\<rparr>) s) = fst (can_migrate_task K p e s)"
  by (simp add: can_migrate_task_def Let_def)

lemma move_task_migrate [simp]: "move_task K p (snd (can_migrate_task K q e t)) s = move_task K p e s"
  by (simp add: move_task_def Let_def)

text \<open>How the environment changes: the loop counter only grows, and a break is taken within the limit.\<close>

definition env_le :: "lb_env \<Rightarrow> lb_env \<Rightarrow> bool" where
  "env_le e e' \<longleftrightarrow> src_cpu e' = src_cpu e \<and> dst_cpu e' = dst_cpu e \<and> loop_max e' = loop_max e \<and> loop e \<le> loop e'
    \<and> (LBF_ALL_PINNED e' \<longrightarrow> LBF_ALL_PINNED e)
    \<and> (LBF_NEED_BREAK e' \<longrightarrow> LBF_NEED_BREAK e \<or> loop e < loop e' \<and> loop e \<le> loop_max e)"

lemma env_le_refl [simp]: "env_le e e"
  by (simp add: env_le_def)

lemma env_le_trans: "env_le e f \<Longrightarrow> env_le f g \<Longrightarrow> env_le e g"
  by (auto simp: env_le_def)

lemma env_leD: "env_le e e' \<Longrightarrow> src_cpu e' = src_cpu e" "env_le e e' \<Longrightarrow> dst_cpu e' = dst_cpu e" "env_le e e' \<Longrightarrow> loop_max e' = loop_max e"
  by (simp_all add: env_le_def)

lemma can_migrate_pinned:
  "LBF_ALL_PINNED (snd (can_migrate_task K p e s)) \<Longrightarrow> LBF_ALL_PINNED e \<and> \<not> fst (can_migrate_task K p e s)"
  by (auto simp: can_migrate_task_def Let_def split: if_splits)

lemma move_loop_cases [case_names stop skip last go]:
  assumes "\<And>e'. move_loop K n e s = (n, e', s) \<Longrightarrow> load_move e' = load_move e \<Longrightarrow> env_le e e'
      \<Longrightarrow> cfs_tasks (rqs s (src_cpu e)) = [] \<or> loop_max e' < loop e' \<or> LBF_NEED_BREAK e' \<Longrightarrow> P"
    and "\<And>p e'. p \<in> set (cfs_tasks (rqs s (src_cpu e))) \<Longrightarrow> move_loop K n e s = move_loop K n e' (list_move_tail (src_cpu e) p s)
      \<Longrightarrow> load_move e' = load_move e \<Longrightarrow> env_le e e' \<Longrightarrow> Suc (loop_max e') - loop e' < Suc (loop_max e) - loop e \<Longrightarrow> P"
    and "\<And>p e'. p \<in> set (cfs_tasks (rqs s (src_cpu e))) \<Longrightarrow> fst (can_migrate_task K p e s) \<Longrightarrow> move_loop K n e s = (n + 1, e', move_task K p e s)
      \<Longrightarrow> task_h_load s p div 2 \<le> load_move e \<Longrightarrow> load_move e' = load_move e - task_h_load s p \<Longrightarrow> env_le e e' \<Longrightarrow> \<not> LBF_ALL_PINNED e' \<Longrightarrow> P"
    and "\<And>p e'. p \<in> set (cfs_tasks (rqs s (src_cpu e))) \<Longrightarrow> fst (can_migrate_task K p e s) \<Longrightarrow> move_loop K n e s = move_loop K (n + 1) e' (move_task K p e s)
      \<Longrightarrow> task_h_load s p div 2 \<le> load_move e \<Longrightarrow> load_move e' = load_move e - task_h_load s p \<Longrightarrow> 0 < sint (load_move e')
      \<Longrightarrow> env_le e e' \<Longrightarrow> \<not> LBF_ALL_PINNED e' \<Longrightarrow> Suc (loop_max e') - loop e' < Suc (loop_max e) - loop e \<Longrightarrow> P"
  shows P
proof (cases "cfs_tasks (rqs s (src_cpu e))")
  case Nil
  then show ?thesis by (intro assms(1) [of e]) (simp_all add: move_loop.simps)
next
  case (Cons p ps)
  let ?e = "e\<lparr>loop := loop e + 1\<rparr>"
  note unfold = move_loop.simps [of K n e s]
  consider (a) "Suc (loop e) > loop_max e" | (b) "\<not> Suc (loop e) > loop_max e" "Suc (loop e) > loop_break e"
    | (c) "\<not> Suc (loop e) > loop_max e" "\<not> Suc (loop e) > loop_break e" "LB_MIN K \<and> task_h_load s p < 16 \<and> sd_balance_failed e = 0 \<or> task_h_load s p div 2 > load_move e"
    | (d) "\<not> Suc (loop e) > loop_max e" "\<not> Suc (loop e) > loop_break e" "\<not> (LB_MIN K \<and> task_h_load s p < 16 \<and> sd_balance_failed e = 0)"
      "\<not> task_h_load s p div 2 > load_move e" "\<not> fst (can_migrate_task K p e s)"
    | (g) "\<not> Suc (loop e) > loop_max e" "\<not> Suc (loop e) > loop_break e" "\<not> (LB_MIN K \<and> task_h_load s p < 16 \<and> sd_balance_failed e = 0)"
      "\<not> task_h_load s p div 2 > load_move e" "fst (can_migrate_task K p e s)"
    by blast
  then show ?thesis
  proof cases
    case a
    then show ?thesis using Cons by (intro assms(1) [of ?e]) (simp_all add: move_loop.simps Let_def env_le_def)
  next
    case b
    then show ?thesis using Cons by (intro assms(1) [of "?e\<lparr>loop_break := loop_break e + LBF_BREAK, LBF_NEED_BREAK := True\<rparr>"]) (simp_all add: move_loop.simps Let_def env_le_def)
  next
    case c
    then show ?thesis using Cons by (intro assms(2) [of p ?e]) (auto simp: unfold Let_def env_le_def dest: can_migrate_pinned)
  next
    case d
    then show ?thesis using Cons by (intro assms(2) [of p "snd (can_migrate_task K p ?e s)"]) (auto simp: unfold Let_def env_le_def dest: can_migrate_pinned)
  next
    case g
    let ?e' = "(snd (can_migrate_task K p ?e s))\<lparr>load_move := load_move e - task_h_load s p\<rparr>"
    show ?thesis
    proof (cases "CONFIG_PREEMPT K \<and> env_idle e = CPU_NEWLY_IDLE \<or> sint (load_move e - task_h_load s p) \<le> 0")
      case True
      then show ?thesis using g Cons by (intro assms(3) [of p ?e']) (auto simp: unfold Let_def env_le_def dest: can_migrate_pinned)
    next
      case False
      then show ?thesis using g Cons by (intro assms(4) [of p ?e']) (auto simp: unfold Let_def env_le_def dest: can_migrate_pinned)
    qed
  qed
qed



lemma move_loop_steps:
  assumes "move_loop K n e s = (m, e', s')" "src_cpu e \<noteq> dst_cpu e"
  shows "lb_steps (dst_cpu e) s s'"
  using assms
proof (induction "Suc (loop_max e) - loop e" arbitrary: n e s rule: less_induct)
  case less
  show ?case
  proof (cases rule: move_loop_cases [of K n e s])
    case (skip p f)
    then show ?thesis using less env_leD [OF skip(4)] rotate_steps [OF skip(1)] by (metis rtranclp_trans)
  next
    case (last p f)
    then show ?thesis using less move_task_steps [of K p e s e] by simp
  next
    case (go p f)
    then show ?thesis using less env_leD [OF go(7)] move_task_steps [of K p e s e] by (metis rtranclp_trans)
  qed (use less.prems in simp)
qed

lemma rqs_move_task:
  "src_cpu e \<noteq> dst_cpu e \<Longrightarrow> cfs_tasks (rqs (move_task K p e s) (dst_cpu e)) = p # cfs_tasks (rqs s (dst_cpu e))"
  "src_cpu e \<noteq> dst_cpu e \<Longrightarrow> load (rqs (move_task K p e s) (dst_cpu e)) = load (rqs s (dst_cpu e)) + weight s p"
  "src_cpu e \<noteq> dst_cpu e \<Longrightarrow> nr_running (rqs (move_task K p e s) (dst_cpu e)) = nr_running (rqs s (dst_cpu e)) + 1"
  "weight (move_task K p e s) = weight s" "domains (move_task K p e s) = domains s"
  by (simp_all add: move_task_def lb_dequeue_def lb_enqueue_def upd_lb_rq_def Let_def)

lemma rqs_list_move_tail [simp]:
  "c \<noteq> c' \<Longrightarrow> rqs (list_move_tail c p s) c' = rqs s c'" "weight (list_move_tail c p s) = weight s" "domains (list_move_tail c p s) = domains s"
  by (simp_all add: list_move_tail_def upd_lb_rq_def)

lemma sint_positive: "0 < sint (l :: ulong) \<Longrightarrow> uint l < 2 ^ 31 \<and> sint l = uint l"
proof -
  assume "0 < sint l"
  then have "\<not> bit l 31" using bit_last_iff [of l] by simp
  then have "sint l = uint l" 
    using uint_lt2p [of l] by (simp add: sint_uint signed_take_bit_eq_take_bit_minus bit_unsigned_iff take_bit_int_eq_self)
  with sint_lt [of l] show ?thesis by simp
qed

lemma sint_after_move:
  assumes "w div 2 \<le> l" "0 < sint (l :: ulong)"
  shows "sint (l - w) = sint l - uint w \<and> uint w \<le> 2 * sint l + 1"
proof -
  note l = sint_positive [OF assms(2)]
  have w: "uint w div 2 \<le> uint l" using assms(1) by (simp add: word_le_def uint_div)
  have "l - w = word_of_int (uint l - uint w)" by simp
  then have "sint (l - w) = signed_take_bit 31 (uint l - uint w)" by (simp add: sint_sbintrunc' del: of_int_diff)
  also have "\<dots> = uint l - uint w"
    using w l uint_ge_0 [of w] by (intro signed_take_bit_int_eq_self) linarith+
  finally have "sint (l - w) = uint l - uint w" .
  then show ?thesis using w l uint_ge_0 [of w] by linarith
qed

text \<open>The tasks that were moved, and how much load they are.\<close>

lemma move_loop_moved:
  assumes "move_loop K n e s = (m, e', s')" "src_cpu e \<noteq> dst_cpu e" "0 < sint (load_move e)"
  shows "\<exists>ps. cfs_tasks (rqs s' (dst_cpu e)) = ps @ cfs_tasks (rqs s (dst_cpu e)) \<and> m = n + length ps
    \<and> (\<Sum>p\<leftarrow>ps. uint (weight s p)) \<le> 2 * sint (load_move e) + 1"
  using assms
proof (induction "Suc (loop_max e) - loop e" arbitrary: n e s rule: less_induct)
  case less
  show ?case
  proof (cases rule: move_loop_cases [of K n e s])
    case (skip p f)
    then show ?thesis using less.hyps [of f n "list_move_tail (src_cpu e) p s"] less.prems by (simp add: env_leD)
  next
    case (last p f)
    then show ?thesis using less.prems sint_after_move [OF last(4)] by (intro exI [of _ "[p]"]) (auto simp: rqs_move_task task_h_load_def)
  next
    case (go p f)
    obtain ps where "cfs_tasks (rqs s' (dst_cpu e)) = ps @ p # cfs_tasks (rqs s (dst_cpu e))" "m = n + 1 + length ps"
      "(\<Sum>q\<leftarrow>ps. uint (weight s q)) \<le> 2 * sint (load_move f) + 1"
      using less.hyps [of f "n + 1" "move_task K p e s"] go less.prems by (auto simp: rqs_move_task env_leD)
    moreover have "sint (load_move f) = sint (load_move e) - uint (weight s p)"
      using sint_after_move [OF go(4)] go(5) less.prems by (simp add: task_h_load_def)
    moreover from calculation have "(\<Sum>q\<leftarrow>ps. uint (weight s q)) + uint (weight s p) \<le> 2 * sint (load_move e) + 1"
      using uint_ge_0 [of "weight s p"] by linarith
    ultimately show ?thesis by (intro exI [of _ "ps @ [p]"]) simp
  qed (use less.prems in \<open>auto intro!: exI [of _ "[]"]\<close>)
qed

lemma move_loop_env:
  assumes "move_loop K n e s = (m, e', s')"
  shows "env_le e e' \<and> domains s' = domains s \<and> (LBF_ALL_PINNED e' \<longrightarrow> m = n)"
  using assms
proof (induction "Suc (loop_max e) - loop e" arbitrary: n e s rule: less_induct)
  case less
  show ?case
  proof (cases rule: move_loop_cases [of K n e s])
    case (skip p f)
    then show ?thesis using less.hyps [of f n "list_move_tail (src_cpu e) p s"] less.prems by (auto intro: env_le_trans)
  next
    case (go p f)
    then show ?thesis using less.hyps [of f "n + 1" "move_task K p e s"] less.prems
      by (auto intro: env_le_trans simp: rqs_move_task) (auto simp: env_le_def)
  qed (use less.prems in \<open>auto simp: rqs_move_task\<close>)
qed

text \<open>A queue that is found pinned was looked at until the limit or a break.\<close>

lemma move_loop_pinned:
  assumes "move_loop K n e s = (m, e', s')" "LBF_ALL_PINNED e'" "cfs_tasks (rqs s (src_cpu e)) \<noteq> []"
  shows "cfs_tasks (rqs s' (src_cpu e)) \<noteq> [] \<and> load_move e' = load_move e \<and> (loop_max e' < loop e' \<or> LBF_NEED_BREAK e')"
  using assms
proof (induction "Suc (loop_max e) - loop e" arbitrary: n e s rule: less_induct)
  case less
  show ?case
  proof (cases rule: move_loop_cases [of K n e s])
    case (skip p f)
    moreover have "cfs_tasks (rqs (list_move_tail (src_cpu e) p s) (src_cpu f)) \<noteq> []"
      using skip(4) by (simp add: list_move_tail_def upd_lb_rq_def env_leD)
    ultimately show ?thesis using less.hyps [of f n "list_move_tail (src_cpu e) p s"] less.prems by (simp add: env_leD)
  next
    case (go p f)
    then show ?thesis using move_loop_env [of K "n + 1" f "move_task K p e s" m e' s'] less.prems by (simp add: env_le_def)
  qed (use less.prems in \<open>auto simp: env_le_def\<close>)
qed

lemma move_tasks_pinned:
  "move_tasks K e s = (m, e', s') \<Longrightarrow> LBF_ALL_PINNED e' \<Longrightarrow> cfs_tasks (rqs s (src_cpu e)) \<noteq> [] \<Longrightarrow> 0 < sint (load_move e)
    \<Longrightarrow> cfs_tasks (rqs s' (src_cpu e)) \<noteq> [] \<and> load_move e' = load_move e \<and> (loop_max e' < loop e' \<or> LBF_NEED_BREAK e')"
  using move_loop_pinned [of K 0 e s m e' s'] by (simp add: move_tasks_def)

text \<open>With the loop counter at its limit no task is looked at.\<close>

lemma move_tasks_spent:
  "loop_max e \<le> loop e \<Longrightarrow> \<exists>e'. move_tasks K e s = (0, e', s) \<and> LBF_ALL_PINNED e' = LBF_ALL_PINNED e \<and> LBF_NEED_BREAK e' = LBF_NEED_BREAK e"
  by (auto simp: move_tasks_def move_loop.simps [of K 0 e s] Let_def split: list.split)

lemma move_tasks_env: "move_tasks K e s = (m, e', s') \<Longrightarrow> env_le e e' \<and> domains s' = domains s \<and> (LBF_ALL_PINNED e' \<longrightarrow> m = 0)"
  using move_loop_env [of K 0 e s m e' s'] by (auto simp: move_tasks_def split: if_splits)

lemma move_tasks_steps:
  "move_tasks K e s = (m, e', s') \<Longrightarrow> src_cpu e \<noteq> dst_cpu e \<Longrightarrow> lb_steps (dst_cpu e) s s'"
  by (auto simp: move_tasks_def intro: move_loop_steps split: if_splits)

lemma move_tasks_length:
  assumes "move_tasks K e s = (m, e', s')" "src_cpu e \<noteq> dst_cpu e"
  shows "length (cfs_tasks (rqs s' (dst_cpu e))) = m + length (cfs_tasks (rqs s (dst_cpu e)))"
  using assms move_loop_moved [of K 0 e s m e' s'] by (fastforce simp: move_tasks_def split: if_splits)

lemma move_tasks_correct_full:
  assumes "move_tasks K e s = (m, e', s')" "src_cpu e \<noteq> dst_cpu e" "queues_ok s"
  shows "queues_ok s'" "rebalanced (dst_cpu e) s s'"
    "\<exists>ps. cfs_tasks (rqs s' (dst_cpu e)) = ps @ cfs_tasks (rqs s (dst_cpu e)) \<and> m = length ps
      \<and> (ps \<noteq> [] \<longrightarrow> (\<Sum>p\<leftarrow>ps. uint (weight s p)) \<le> 2 * sint (load_move e) + 1)"
proof -
  note steps = move_tasks_steps [OF assms(1,2)]
  show "queues_ok s'" using steps assms(3) by (rule balancer.steps_inv)
  show "rebalanced (dst_cpu e) s s'" using steps assms(3) by (rule steps_rebalanced)
  show "\<exists>ps. cfs_tasks (rqs s' (dst_cpu e)) = ps @ cfs_tasks (rqs s (dst_cpu e)) \<and> m = length ps
      \<and> (ps \<noteq> [] \<longrightarrow> (\<Sum>p\<leftarrow>ps. uint (weight s p)) \<le> 2 * sint (load_move e) + 1)"
    using assms(1) move_loop_moved [of K 0 e s m e' s'] assms(2) by (fastforce simp: move_tasks_def split: if_splits)
qed

section \<open>Moving one task\<close>

lemma move_first_Cons:
  "move_first K (p # ps) e s =
    (let f = snd (can_migrate_task K p e s) in if fst (can_migrate_task K p e s) then (True, f, move_task K p e s) else move_first K ps f s)"
  by (cases "can_migrate_task K p e s") (use move_task_migrate [of K p p e s s] in \<open>auto simp: Let_def split: bool.split\<close>)

declare move_first.simps(2) [simp del]

lemma move_first_steps:
  assumes "move_first K ps e s = (r, e', s')" "set ps \<subseteq> set (cfs_tasks (rqs s (src_cpu e)))" "src_cpu e \<noteq> dst_cpu e"
  shows "lb_steps (dst_cpu e) s s' \<and> (if r then length (cfs_tasks (rqs s' (dst_cpu e))) = length (cfs_tasks (rqs s (dst_cpu e))) + 1 else s' = s)"
  using assms
proof (induction ps arbitrary: e)
  case (Cons p ps)
  show ?case
  proof (cases "fst (can_migrate_task K p e s)")
    case True
    with Cons.prems show ?thesis using move_task_steps [of K p e s e] by (auto simp: rqs_move_task move_first_Cons Let_def)
  next
    case False
    with Cons.prems Cons.IH [of "snd (can_migrate_task K p e s)"] show ?thesis
      by (simp add: move_first_Cons Let_def split: if_splits)
  qed
qed simp

lemma move_one_task_steps:
  "move_one_task K e s = (r, e', s') \<Longrightarrow> src_cpu e \<noteq> dst_cpu e \<Longrightarrow> lb_steps (dst_cpu e) s s'"
  using move_first_steps [of K _ e s r e' s'] by (auto simp: move_one_task_def)

text \<open>It moves a task whenever the queue has one that may move.\<close>

lemma can_migrate_flags [simp]: "fst (can_migrate_task K p (snd (can_migrate_task K q e t)) s) = fst (can_migrate_task K p e s)"
  by (auto simp: can_migrate_task_def Let_def)

lemma move_first_moves: "fst (move_first K ps e s) \<longleftrightarrow> (\<exists>p\<in>set ps. fst (can_migrate_task K p e s))"
  by (induction ps arbitrary: e) (simp_all add: move_first_Cons Let_def)

section \<open>Main results\<close>

lemma sys3_ok: "queues_ok sys3"
  by (auto simp: queues_ok_def sys3_def idle_rq_def)



end
