(* ===== verification/Lb_Stats.thy ===== *)
theory Lb_Stats
  imports Lb_Steps
begin

text \<open>
  Load balancing, second part: the statistics of the groups of a scheduling domain, the choice of the busiest group and of the
  busiest queue in it, and the load to be moved.
\<close>

unbundle bit_operations_syntax

section \<open>Kernel arithmetic\<close>

definition SCHED_POWER_SHIFT :: nat where "SCHED_POWER_SHIFT = 10"
definition SCHED_POWER_SCALE :: ulong where "SCHED_POWER_SCALE = push_bit SCHED_POWER_SHIFT 1"
definition SCHED_LOAD_SCALE :: ulong where "SCHED_LOAD_SCALE = push_bit 10 1"

definition DIV_ROUND_CLOSEST :: "ulong \<Rightarrow> ulong \<Rightarrow> ulong" where
  "DIV_ROUND_CLOSEST x d = (x + d div 2) div d"

definition clamp :: "ulong \<Rightarrow> ulong \<Rightarrow> ulong \<Rightarrow> ulong" where
  "clamp x lo hi = (let x = (if x < lo then lo else x) in if x > hi then hi else x)"

definition time_after :: "ulong \<Rightarrow> ulong \<Rightarrow> bool" where "time_after a b \<longleftrightarrow> sint (b - a) < 0"
definition time_after_eq :: "ulong \<Rightarrow> ulong \<Rightarrow> bool" where "time_after_eq a b \<longleftrightarrow> 0 \<le> sint (a - b)"

section \<open>The power of a processor and of a group\<close>

definition upd_sgp :: "nat \<Rightarrow> (sched_group_power \<Rightarrow> sched_group_power) \<Rightarrow> lb_sys \<Rightarrow> lb_sys" where
  "upd_sgp a f s = s\<lparr>sgps := (sgps s)(a := f (sgps s a))\<rparr>"

definition group_power :: "lb_sys \<Rightarrow> sched_group \<Rightarrow> ulong" where
  "group_power s g = sgp_power (sgps s (sgp_ref g))"

definition group_first_cpu :: "lb_conf \<Rightarrow> sched_group \<Rightarrow> nat" where
  "group_first_cpu K g = (case sched_group_cpus g of [] \<Rightarrow> nr_cpu_ids K | c # _ \<Rightarrow> c)"

definition get_sd_load_idx :: "sched_domain \<Rightarrow> cpu_idle_type \<Rightarrow> nat" where
  "get_sd_load_idx sd idle = (case idle of CPU_NOT_IDLE \<Rightarrow> busy_idx sd | CPU_NEWLY_IDLE \<Rightarrow> newidle_idx sd | CPU_IDLE \<Rightarrow> idle_idx sd)"

definition default_scale_freq_power :: "sched_domain \<Rightarrow> nat \<Rightarrow> ulong" where
  "default_scale_freq_power sd c = SCHED_POWER_SCALE"

definition default_scale_smt_power :: "sched_domain \<Rightarrow> nat \<Rightarrow> ulong" where
  "default_scale_smt_power sd c = smt_gain sd div span_weight sd"

definition scale_rt_power :: "lb_conf \<Rightarrow> lb_sys \<Rightarrow> nat \<Rightarrow> ulong" where
  "scale_rt_power K s c =
    (let rq = rqs s c;
         total = sched_avg_period K + (clock rq - age_stamp rq);
         available = (if total < rt_avg rq then 0 else total - rt_avg rq);
         total = (if sint total < sint SCHED_POWER_SCALE then ucast SCHED_POWER_SCALE else total);
         total = drop_bit SCHED_POWER_SHIFT total
     in ucast (available div ucast (ucast total :: u32)))"

definition update_cpu_power :: "lb_conf \<Rightarrow> sched_domain \<Rightarrow> nat \<Rightarrow> lb_sys \<Rightarrow> lb_sys" where
  "update_cpu_power K sd c s =
    (case groups sd of [] \<Rightarrow> s
     | sdg # _ \<Rightarrow>
         let pw = SCHED_POWER_SCALE;
             pw = (if SD_SHARE_CPUPOWER sd \<and> span_weight sd > 1
                   then drop_bit SCHED_POWER_SHIFT (pw * (if ARCH_POWER K then arch_scale_smt_power K sd c else default_scale_smt_power sd c))
                   else pw);
             s = upd_sgp (sgp_ref sdg) (\<lambda>g. g\<lparr>power_orig := pw\<rparr>) s;
             pw = drop_bit SCHED_POWER_SHIFT (pw * (if ARCH_POWER K then arch_scale_freq_power K sd c else default_scale_freq_power sd c));
             pw = drop_bit SCHED_POWER_SHIFT (pw * scale_rt_power K s c);
             pw = (if pw = 0 then 1 else pw);
             s = upd_lb_rq c (\<lambda>q. q\<lparr>cpu_power := pw\<rparr>) s
         in upd_sgp (sgp_ref sdg) (\<lambda>g. g\<lparr>sgp_power := pw\<rparr>) s)"

text \<open>\<open>child\<close> is \<open>sd->child\<close>.\<close>

definition update_group_power :: "lb_conf \<Rightarrow> sched_domain \<Rightarrow> sched_domain option \<Rightarrow> nat \<Rightarrow> lb_sys \<Rightarrow> lb_sys" where
  "update_group_power K sd child c s =
    (case groups sd of [] \<Rightarrow> s
     | sdg # _ \<Rightarrow>
         let interval = clamp (msecs_to_jiffies K (balance_interval sd)) 1 (max_load_balance_interval K);
             s = upd_sgp (sgp_ref sdg) (\<lambda>g. g\<lparr>next_update := jiffies K + interval\<rparr>) s
         in case child of
              None \<Rightarrow> update_cpu_power K sd c s
            | Some ch \<Rightarrow> upd_sgp (sgp_ref sdg) (\<lambda>g. g\<lparr>sgp_power := (\<Sum>h\<leftarrow>groups ch. group_power s h)\<rparr>) s)"

definition fix_small_capacity :: "sched_domain \<Rightarrow> sched_group \<Rightarrow> lb_sys \<Rightarrow> ulong" where
  "fix_small_capacity sd g s =
    (if \<not> SD_SHARE_CPUPOWER sd then 0
     else if group_power s g * 32 > power_orig (sgps s (sgp_ref g)) * 29 then 1
     else 0)"

section \<open>Statistics\<close>

record sg_lb_stats =
  sg_avg_load :: ulong
  group_load :: ulong
  sum_nr_running :: ulong
  sum_weighted_load :: ulong
  group_capacity :: ulong
  idle_cpus :: ulong
  sg_weight :: ulong
  sg_imb :: bool
  group_has_capacity :: bool

definition sg_zero :: sg_lb_stats where
  "sg_zero = \<lparr>sg_avg_load = 0, group_load = 0, sum_nr_running = 0, sum_weighted_load = 0, group_capacity = 0, idle_cpus = 0,
    sg_weight = 0, sg_imb = False, group_has_capacity = False\<rparr>"

text \<open>The local variables of the loop over the processors of a group.\<close>

record sg_tally =
  sgs :: sg_lb_stats
  max_cpu_load :: ulong
  min_cpu_load :: ulong
  max_nr_running :: ulong
  first_idle_cpu :: bool
  balance_cpu :: nat

definition tally_cpu :: "lb_conf \<Rightarrow> lb_sys \<Rightarrow> bool \<Rightarrow> nat \<Rightarrow> nat \<Rightarrow> sg_tally \<Rightarrow> sg_tally" where
  "tally_cpu K s local_group load_idx i t =
    (let t = (if local_group \<and> idle_cpu s i \<and> \<not> first_idle_cpu t then t\<lparr>first_idle_cpu := True, balance_cpu := i\<rparr> else t);
         ld = (if local_group then target_load K s i load_idx else source_load K s i load_idx);
         t = (if \<not> local_group \<and> ld > max_cpu_load t then t\<lparr>max_cpu_load := ld, max_nr_running := nr_running (rqs s i)\<rparr> else t);
         t = (if \<not> local_group \<and> min_cpu_load t > ld then t\<lparr>min_cpu_load := ld\<rparr> else t)
     in t\<lparr>sgs := (sgs t)\<lparr>group_load := group_load (sgs t) + ld,
                       sum_nr_running := sum_nr_running (sgs t) + nr_running (rqs s i),
                       sum_weighted_load := sum_weighted_load (sgs t) + weighted_cpuload s i,
                       idle_cpus := (if idle_cpu s i then idle_cpus (sgs t) + 1 else idle_cpus (sgs t))\<rparr>\<rparr>)"

definition tally_group :: "lb_conf \<Rightarrow> lb_sys \<Rightarrow> bool \<Rightarrow> nat \<Rightarrow> nat list \<Rightarrow> sched_group \<Rightarrow> sg_tally" where
  "tally_group K s local_group load_idx cpus g =
    fold (tally_cpu K s local_group load_idx) (filter (\<lambda>i. i \<in> set cpus) (sched_group_cpus g))
      \<lparr>sgs = sg_zero, max_cpu_load = 0, min_cpu_load = - 1, max_nr_running = 0, first_idle_cpu = False,
       balance_cpu = group_first_cpu K g\<rparr>"

text \<open>The value of \<open>*balance\<close>, the statistics, and the state with the power of the group brought up to date.\<close>

definition update_sg_lb_stats ::
  "lb_conf \<Rightarrow> sched_domain \<Rightarrow> sched_domain option \<Rightarrow> sched_group \<Rightarrow> nat \<Rightarrow> cpu_idle_type \<Rightarrow> nat \<Rightarrow> bool \<Rightarrow> nat list \<Rightarrow> lb_sys
    \<Rightarrow> bool \<times> sg_lb_stats \<times> lb_sys" where
  "update_sg_lb_stats K sd child g this_cpu idle load_idx local_group cpus s =
    (let t = tally_group K s local_group load_idx cpus g; x = sgs t
     in if local_group \<and> idle \<noteq> CPU_NEWLY_IDLE \<and> balance_cpu t \<noteq> this_cpu then (False, x, s)
        else
          let s = (if local_group \<and> (idle \<noteq> CPU_NEWLY_IDLE \<or> time_after_eq (jiffies K) (next_update (sgps s (sgp_ref g))))
                   then update_group_power K sd child this_cpu s else s);
              x = x\<lparr>sg_avg_load := group_load x * SCHED_POWER_SCALE div group_power s g\<rparr>;
              avg_load_per_task = (if sum_nr_running x \<noteq> 0 then sum_weighted_load x div sum_nr_running x else 0);
              x = (if max_cpu_load t - min_cpu_load t \<ge> avg_load_per_task \<and> max_nr_running t > 1 then x\<lparr>sg_imb := True\<rparr> else x);
              cap = DIV_ROUND_CLOSEST (group_power s g) SCHED_POWER_SCALE;
              x = x\<lparr>group_capacity := (if cap = 0 then fix_small_capacity sd g s else cap), sg_weight := group_weight g\<rparr>;
              x = (if group_capacity x > sum_nr_running x then x\<lparr>group_has_capacity := True\<rparr> else x)
          in (True, x, s))"

record sd_lb_stats =
  busiest :: "sched_group option"
  this_group :: "sched_group option"
  total_load :: ulong
  total_pwr :: ulong
  avg_load :: ulong
  this_load :: ulong
  this_load_per_task :: ulong
  this_nr_running :: ulong
  this_has_capacity :: bool
  this_idle_cpus :: u32
  busiest_idle_cpus :: u32
  max_load :: ulong
  busiest_load_per_task :: ulong
  busiest_nr_running :: ulong
  busiest_group_capacity :: ulong
  busiest_has_capacity :: bool
  busiest_group_weight :: u32
  group_imb :: bool

definition sd_zero :: sd_lb_stats where
  "sd_zero = \<lparr>busiest = None, this_group = None, total_load = 0, total_pwr = 0, avg_load = 0, this_load = 0, this_load_per_task = 0,
    this_nr_running = 0, this_has_capacity = False, this_idle_cpus = 0, busiest_idle_cpus = 0, max_load = 0, busiest_load_per_task = 0,
    busiest_nr_running = 0, busiest_group_capacity = 0, busiest_has_capacity = False, busiest_group_weight = 0, group_imb = False\<rparr>"

definition update_sd_pick_busiest :: "lb_conf \<Rightarrow> sched_domain \<Rightarrow> sd_lb_stats \<Rightarrow> sched_group \<Rightarrow> sg_lb_stats \<Rightarrow> nat \<Rightarrow> bool" where
  "update_sd_pick_busiest K sd d g x this_cpu =
    (if sg_avg_load x \<le> max_load d then False
     else if sum_nr_running x > group_capacity x then True
     else if sg_imb x then True
     else if SD_ASYM_PACKING sd \<and> sum_nr_running x \<noteq> 0 \<and> this_cpu < group_first_cpu K g
     then (case busiest d of None \<Rightarrow> True | Some b \<Rightarrow> group_first_cpu K b > group_first_cpu K g)
     else False)"

fun sd_stats_loop ::
  "lb_conf \<Rightarrow> sched_domain \<Rightarrow> sched_domain option \<Rightarrow> nat \<Rightarrow> cpu_idle_type \<Rightarrow> nat list \<Rightarrow> sched_group list \<Rightarrow> sd_lb_stats \<Rightarrow> lb_sys
    \<Rightarrow> bool \<times> sd_lb_stats \<times> lb_sys" where
  "sd_stats_loop K sd child this_cpu idle cpus [] d s = (True, d, s)"
| "sd_stats_loop K sd child this_cpu idle cpus (g # gs) d s =
    (let local_group = (this_cpu \<in> set (sched_group_cpus g));
         (balance, x, s) = update_sg_lb_stats K sd child g this_cpu idle (get_sd_load_idx sd idle) local_group cpus s
     in if local_group \<and> \<not> balance then (False, d, s)
        else
          let d = d\<lparr>total_load := total_load d + group_load x, total_pwr := total_pwr d + group_power s g\<rparr>;
              prefer_sibling = (case child of Some ch \<Rightarrow> SD_PREFER_SIBLING ch | None \<Rightarrow> False);
              x = (if prefer_sibling \<and> \<not> local_group \<and> this_has_capacity d then x\<lparr>group_capacity := min (group_capacity x) 1\<rparr> else x);
              d = (if local_group
                   then d\<lparr>this_load := sg_avg_load x, this_group := Some g, this_nr_running := sum_nr_running x,
                          this_load_per_task := sum_weighted_load x, this_has_capacity := group_has_capacity x, this_idle_cpus := idle_cpus x\<rparr>
                   else if update_sd_pick_busiest K sd d g x this_cpu
                   then d\<lparr>max_load := sg_avg_load x, busiest := Some g, busiest_nr_running := sum_nr_running x, busiest_idle_cpus := idle_cpus x,
                          busiest_group_capacity := group_capacity x, busiest_load_per_task := sum_weighted_load x,
                          busiest_has_capacity := group_has_capacity x, busiest_group_weight := sg_weight x, group_imb := sg_imb x\<rparr>
                   else d)
          in sd_stats_loop K sd child this_cpu idle cpus gs d s)"

definition update_sd_lb_stats ::
  "lb_conf \<Rightarrow> sched_domain \<Rightarrow> sched_domain option \<Rightarrow> nat \<Rightarrow> cpu_idle_type \<Rightarrow> nat list \<Rightarrow> lb_sys \<Rightarrow> bool \<times> sd_lb_stats \<times> lb_sys" where
  "update_sd_lb_stats K sd child this_cpu idle cpus s = sd_stats_loop K sd child this_cpu idle cpus (groups sd) sd_zero s"

section \<open>The imbalance\<close>

text \<open>The imbalance where packing is required.\<close>

definition check_asym_packing :: "lb_conf \<Rightarrow> sched_domain \<Rightarrow> sd_lb_stats \<Rightarrow> nat \<Rightarrow> lb_sys \<Rightarrow> ulong option" where
  "check_asym_packing K sd d this_cpu s =
    (if \<not> SD_ASYM_PACKING sd then None
     else case busiest d of
       None \<Rightarrow> None
     | Some b \<Rightarrow> if this_cpu > group_first_cpu K b then None
                 else Some (DIV_ROUND_CLOSEST (max_load d * group_power s b) SCHED_POWER_SCALE))"

text \<open>\<open>imb\<close> is \<open>*imbalance\<close> on entry, the result its value on return; the two groups are dereferenced.\<close>

definition fix_small_imbalance :: "sd_lb_stats \<Rightarrow> nat \<Rightarrow> lb_sys \<Rightarrow> ulong \<Rightarrow> ulong result" where
  "fix_small_imbalance d this_cpu s imb =
    (let tl = (if this_nr_running d \<noteq> 0 then this_load_per_task d div this_nr_running d else cpu_avg_load_per_task s this_cpu);
         imbn = (if this_nr_running d \<noteq> 0 \<and> busiest_load_per_task d > tl then 1 else 2)
     in case busiest d of
       None \<Rightarrow> Inl NullDeref
     | Some b \<Rightarrow>
         let bp = group_power s b;
             scaled_busy_load_per_task = busiest_load_per_task d * SCHED_POWER_SCALE div bp
         in if max_load d - this_load d + scaled_busy_load_per_task \<ge> scaled_busy_load_per_task * imbn
            then Inr (busiest_load_per_task d)
            else case this_group d of
              None \<Rightarrow> Inl NullDeref
            | Some h \<Rightarrow>
                let tp = group_power s h;
                    pwr_now = bp * min (busiest_load_per_task d) (max_load d);
                    pwr_now = pwr_now + tp * min tl (this_load d);
                    pwr_now = pwr_now div SCHED_POWER_SCALE;
                    tmp = busiest_load_per_task d * SCHED_POWER_SCALE div bp;
                    pwr_move = (if max_load d > tmp then bp * min (busiest_load_per_task d) (max_load d - tmp) else 0);
                    tmp = (if max_load d * bp < busiest_load_per_task d * SCHED_POWER_SCALE then max_load d * bp div tp
                           else busiest_load_per_task d * SCHED_POWER_SCALE div tp);
                    pwr_move = pwr_move + tp * min tl (this_load d + tmp);
                    pwr_move = pwr_move div SCHED_POWER_SCALE
                in Inr (if pwr_move > pwr_now then busiest_load_per_task d else imb))"

text \<open>\<open>*imbalance\<close> is written on every path before it is read.\<close>

definition calculate_imbalance :: "sd_lb_stats \<Rightarrow> nat \<Rightarrow> lb_sys \<Rightarrow> ulong result" where
  "calculate_imbalance d this_cpu s =
    (let d = d\<lparr>busiest_load_per_task := busiest_load_per_task d div busiest_nr_running d\<rparr>;
         d = (if group_imb d then d\<lparr>busiest_load_per_task := min (busiest_load_per_task d) (avg_load d)\<rparr> else d)
     in if max_load d < avg_load d then fix_small_imbalance d this_cpu s 0
        else case busiest d of
          None \<Rightarrow> Inl NullDeref
        | Some b \<Rightarrow> (case this_group d of
            None \<Rightarrow> Inl NullDeref
          | Some h \<Rightarrow>
              let load_above_capacity =
                    (if group_imb d then - 1
                     else (busiest_nr_running d - busiest_group_capacity d) * (SCHED_LOAD_SCALE * SCHED_POWER_SCALE) div group_power s b);
                  max_pull = min (max_load d - avg_load d) load_above_capacity;
                  imb = min (max_pull * group_power s b) ((avg_load d - this_load d) * group_power s h) div SCHED_POWER_SCALE
              in if imb < busiest_load_per_task d then fix_small_imbalance d this_cpu s imb else Inr imb))"

section \<open>The busiest group and queue\<close>

text \<open>
  \<open>*balance\<close>, the group (none if there is no imbalance), \<open>*imbalance\<close> and the state. The power savings that are
  compiled out never choose a group.
\<close>

definition busiest_group_test :: "sched_domain \<Rightarrow> sd_lb_stats \<Rightarrow> cpu_idle_type \<Rightarrow> bool" where
  "busiest_group_test sd d idle =
    (if group_imb d then True
     else if idle = CPU_NEWLY_IDLE \<and> this_has_capacity d \<and> \<not> busiest_has_capacity d then True
     else if this_load d \<ge> max_load d then False
     else if this_load d \<ge> avg_load d then False
     else if idle = CPU_IDLE then \<not> (this_idle_cpus d \<le> busiest_idle_cpus d + 1 \<and> busiest_nr_running d \<le> busiest_group_weight d)
     else \<not> 100 * max_load d \<le> imbalance_pct sd * this_load d)"

definition find_busiest_group ::
  "lb_conf \<Rightarrow> sched_domain \<Rightarrow> sched_domain option \<Rightarrow> nat \<Rightarrow> cpu_idle_type \<Rightarrow> nat list \<Rightarrow> lb_sys
    \<Rightarrow> (bool \<times> sched_group option \<times> ulong \<times> lb_sys) result" where
  "find_busiest_group K sd child this_cpu idle cpus s =
    (let (balance, d, s) = update_sd_lb_stats K sd child this_cpu idle cpus s
     in if \<not> balance then Inr (False, None, 0, s)
        else
          case (if idle = CPU_IDLE \<or> idle = CPU_NEWLY_IDLE then check_asym_packing K sd d this_cpu s else None) of
            Some im \<Rightarrow> Inr (True, busiest d, im, s)
          | None \<Rightarrow>
              if busiest d = None \<or> busiest_nr_running d = 0 then Inr (True, None, 0, s)
              else
                let d = d\<lparr>avg_load := SCHED_POWER_SCALE * total_load d div total_pwr d\<rparr>
                in if busiest_group_test sd d idle
                   then rbind (calculate_imbalance d this_cpu s) (\<lambda>im. Inr (True, busiest d, im, s))
                   else Inr (True, None, 0, s))"

fun busiest_queue_loop :: "sched_domain \<Rightarrow> sched_group \<Rightarrow> ulong \<Rightarrow> nat list \<Rightarrow> lb_sys \<Rightarrow> nat list \<Rightarrow> ulong \<Rightarrow> nat option \<Rightarrow> nat option" where
  "busiest_queue_loop sd g imb cpus s [] mx b = b"
| "busiest_queue_loop sd g imb cpus s (i # is') mx b =
    (let pw = power_of s i;
         cap = DIV_ROUND_CLOSEST pw SCHED_POWER_SCALE;
         cap = (if cap = 0 then fix_small_capacity sd g s else cap)
     in if i \<notin> set cpus then busiest_queue_loop sd g imb cpus s is' mx b
        else if cap \<noteq> 0 \<and> nr_running (rqs s i) = 1 \<and> weighted_cpuload s i > imb then busiest_queue_loop sd g imb cpus s is' mx b
        else
          let wl = weighted_cpuload s i * SCHED_POWER_SCALE div pw
          in if wl > mx then busiest_queue_loop sd g imb cpus s is' wl (Some i) else busiest_queue_loop sd g imb cpus s is' mx b)"

definition find_busiest_queue :: "sched_domain \<Rightarrow> sched_group \<Rightarrow> ulong \<Rightarrow> nat list \<Rightarrow> lb_sys \<Rightarrow> nat option" where
  "find_busiest_queue sd g imb cpus s = busiest_queue_loop sd g imb cpus s (sched_group_cpus g) 0 None"

text \<open>A queue from which the imbalance may be pulled, and its load scaled by the power of its processor.\<close>

definition eligible :: "sched_domain \<Rightarrow> sched_group \<Rightarrow> ulong \<Rightarrow> nat list \<Rightarrow> lb_sys \<Rightarrow> nat \<Rightarrow> bool" where
  "eligible sd g imb cpus s i \<longleftrightarrow>
    i \<in> set cpus
    \<and> \<not> ((DIV_ROUND_CLOSEST (power_of s i) SCHED_POWER_SCALE \<noteq> 0 \<or> fix_small_capacity sd g s \<noteq> 0) \<and> nr_running (rqs s i) = 1 \<and> weighted_cpuload s i > imb)"

definition scaled_load :: "lb_sys \<Rightarrow> nat \<Rightarrow> ulong" where
  "scaled_load s i = weighted_cpuload s i * SCHED_POWER_SCALE div power_of s i"

lemma busiest_queue_loop_Cons:
  "busiest_queue_loop sd g imb cpus s (i # is') mx b =
    (if eligible sd g imb cpus s i \<and> scaled_load s i > mx then busiest_queue_loop sd g imb cpus s is' (scaled_load s i) (Some i)
     else busiest_queue_loop sd g imb cpus s is' mx b)"
  by (simp add: Let_def eligible_def scaled_load_def)

declare busiest_queue_loop.simps(2) [simp del]

lemma busiest_queue_loop_spec:
  "if \<exists>i\<in>set is'. eligible sd g imb cpus s i \<and> mx < scaled_load s i
   then \<exists>i\<in>set is'. busiest_queue_loop sd g imb cpus s is' mx b = Some i \<and> eligible sd g imb cpus s i \<and> mx < scaled_load s i
     \<and> (\<forall>j\<in>set is'. eligible sd g imb cpus s j \<longrightarrow> scaled_load s j \<le> scaled_load s i)
   else busiest_queue_loop sd g imb cpus s is' mx b = b"
proof (induction is' arbitrary: mx b)
  case (Cons i is')
  show ?case
  proof (cases "eligible sd g imb cpus s i \<and> scaled_load s i > mx")
    case True
    with Cons.IH [of "scaled_load s i" "Some i"] show ?thesis
      by (simp add: busiest_queue_loop_Cons split: if_splits) (meson less_trans not_le order.strict_implies_order order_refl)+
  next
    case False
    with Cons.IH [of mx b] show ?thesis
      by (simp add: busiest_queue_loop_Cons split: if_splits) (meson less_imp_le not_le order_trans)+
  qed
qed simp

lemma find_busiest_queue_spec:
  "case find_busiest_queue sd g imb cpus s of
     None \<Rightarrow> \<forall>i\<in>set (sched_group_cpus g). eligible sd g imb cpus s i \<longrightarrow> scaled_load s i = 0
   | Some b \<Rightarrow> b \<in> set (sched_group_cpus g) \<and> eligible sd g imb cpus s b \<and> 0 < scaled_load s b
       \<and> (\<forall>i\<in>set (sched_group_cpus g). eligible sd g imb cpus s i \<longrightarrow> scaled_load s i \<le> scaled_load s b)"
  using busiest_queue_loop_spec [of "sched_group_cpus g" sd g imb cpus s 0 None]
  by (auto simp: find_busiest_queue_def word_gt_0 split: if_splits)

lemma find_busiest_queue_in: "find_busiest_queue sd g imb cpus s = Some i \<Longrightarrow> i \<in> set (sched_group_cpus g) \<and> i \<in> set cpus"
  using find_busiest_queue_spec [where sd = sd and g = g and imb = imb and cpus = cpus and s = s] by (simp add: eligible_def)

section \<open>The statistics change no queue\<close>

definition quietly :: "lb_sys \<Rightarrow> lb_sys \<Rightarrow> bool" where
  "quietly s s' \<longleftrightarrow> same_queues s s' \<and> domains s' = domains s"

lemma quietly_refl [simp]: "quietly s s"
  by (simp add: quietly_def)

lemma quietly_trans: "quietly s t \<Longrightarrow> quietly t u \<Longrightarrow> quietly s u"
  by (simp add: quietly_def same_queues_def same_nohz_def)

lemma upd_sgp_frame [simp]:
  "rqs (upd_sgp a f t) = rqs t" "weight (upd_sgp a f t) = weight t" "cpus_allowed (upd_sgp a f t) = cpus_allowed t"
  "task_cpu (upd_sgp a f t) = task_cpu t" "nohz_idle_cpus_mask (upd_sgp a f t) = nohz_idle_cpus_mask t"
  "nohz_nr_cpus (upd_sgp a f t) = nohz_nr_cpus t" "domains (upd_sgp a f t) = domains t"
  by (simp_all add: upd_sgp_def)

lemma quietly_upd_sgp:
  assumes "\<And>p. nr_busy_cpus (f p) = nr_busy_cpus p"
  shows "quietly s (upd_sgp a f t) = quietly s t"
proof -
  have "nr_busy_cpus (sgps (upd_sgp a f t) b) = nr_busy_cpus (sgps t b)" for b using assms by (simp add: upd_sgp_def)
  then show ?thesis by (simp add: quietly_def same_queues_def same_nohz_def)
qed

lemma quietly_cpu_power [simp]: "quietly s (upd_lb_rq c (\<lambda>q. q\<lparr>cpu_power := x\<rparr>) t) = quietly s t"
  by (auto simp: quietly_def same_queues_def same_nohz_def upd_lb_rq_def)

lemma update_cpu_power_quiet: "quietly s (update_cpu_power K sd c t) = quietly s t"
  by (simp add: update_cpu_power_def Let_def quietly_upd_sgp split: list.split)

lemma update_group_power_quiet: "quietly s (update_group_power K sd child c s)"
  by (simp add: update_group_power_def update_cpu_power_quiet Let_def quietly_upd_sgp split: list.split option.split)

lemma update_sg_lb_stats_quiet:
  "update_sg_lb_stats K sd child g this_cpu idle load_idx local_group cpus s = (b, x, s') \<Longrightarrow> quietly s s'"
  by (auto simp: update_sg_lb_stats_def Let_def update_group_power_quiet split: if_splits)

text \<open>The busiest group does not contain the processor that balances, and its own group is found.\<close>

lemma sd_stats_loop_spec:
  assumes "sd_stats_loop K sd child this_cpu idle cpus gs d s = (bal, d', s')"
  shows "quietly s s'
    \<and> (\<forall>g. busiest d' = Some g \<longrightarrow> busiest d = Some g \<or> g \<in> set gs \<and> this_cpu \<notin> set (sched_group_cpus g))
    \<and> (bal \<and> (this_group d \<noteq> None \<or> (\<exists>g\<in>set gs. this_cpu \<in> set (sched_group_cpus g))) \<longrightarrow> this_group d' \<noteq> None)"
  using assms
proof (induction gs arbitrary: d s)
  case (Cons g gs)
  let ?loc = "this_cpu \<in> set (sched_group_cpus g)"
  obtain b x t where u: "update_sg_lb_stats K sd child g this_cpu idle (get_sd_load_idx sd idle) ?loc cpus s = (b, x, t)"
    by (metis prod_cases3)
  note q = update_sg_lb_stats_quiet [OF u]
  show ?case
  proof (cases "?loc \<and> \<not> b")
    case True
    with Cons.prems u q show ?thesis by auto
  next
    case False
    with Cons.prems u obtain f where f: "sd_stats_loop K sd child this_cpu idle cpus gs f t = (bal, d', s')"
      and b: "busiest f = busiest d \<or> busiest f = Some g \<and> \<not> ?loc" and th: "this_group f = (if ?loc then Some g else this_group d)"
      by (auto simp: Let_def split: if_splits)
    show ?thesis using Cons.IH [OF f] b th quietly_trans [OF q] by (auto split: if_splits)
  qed
qed simp

lemma fix_small_imbalance_returns:
  "busiest d \<noteq> None \<Longrightarrow> this_group d \<noteq> None \<Longrightarrow> \<exists>im. fix_small_imbalance d this_cpu s imb = Inr im"
  by (auto simp: fix_small_imbalance_def Let_def)

lemma calculate_imbalance_returns:
  "busiest d \<noteq> None \<Longrightarrow> this_group d \<noteq> None \<Longrightarrow> \<exists>im. calculate_imbalance d this_cpu s = Inr im"
  by (auto simp: calculate_imbalance_def Let_def intro!: fix_small_imbalance_returns)

lemma find_busiest_group_spec:
  assumes "\<exists>g\<in>set (groups sd). this_cpu \<in> set (sched_group_cpus g)"
  obtains b grp imb s' where "find_busiest_group K sd child this_cpu idle cpus s = Inr (b, grp, imb, s')" "quietly s s'"
    "\<And>g. grp = Some g \<Longrightarrow> g \<in> set (groups sd) \<and> this_cpu \<notin> set (sched_group_cpus g)"
proof -
  obtain bal d t where u: "update_sd_lb_stats K sd child this_cpu idle cpus s = (bal, d, t)" by (metis prod_cases3)
  note spec = sd_stats_loop_spec [OF u [unfolded update_sd_lb_stats_def]]
  have busy: "g \<in> set (groups sd) \<and> this_cpu \<notin> set (sched_group_cpus g)" if "busiest d = Some g" for g
    using spec that by (auto simp: sd_zero_def)
  have "\<exists>b grp imb. find_busiest_group K sd child this_cpu idle cpus s = Inr (b, grp, imb, t) \<and> (grp = None \<or> grp = busiest d)"
  proof (cases "bal")
    case True
    let ?d = "d\<lparr>avg_load := SCHED_POWER_SCALE * total_load d div total_pwr d\<rparr>"
    have same: "busiest ?d = busiest d" by simp
    have "busiest d = None \<or> (\<exists>im. calculate_imbalance ?d this_cpu t = Inr im)"
      using spec assms True calculate_imbalance_returns [of ?d this_cpu t] by (cases "busiest d") auto
    then have "\<exists>grp imb. find_busiest_group K sd child this_cpu idle cpus s = Inr (True, grp, imb, t) \<and> (grp = None \<or> grp = busiest d)"
      using True u by (cases "if idle = CPU_IDLE \<or> idle = CPU_NEWLY_IDLE then check_asym_packing K sd d this_cpu t else None")
        (auto simp only: find_busiest_group_def Let_def prod.case option.case rbind_simps same split: if_split, simp)
    then show ?thesis by blast
  qed (auto simp: find_busiest_group_def u)
  with spec busy that show thesis by blast
qed

section \<open>Main results\<close>

text \<open>
  \<open>find_busiest_queue\<close> returns a queue of the group that is under consideration, from which the imbalance may be pulled, with the largest load scaled by
  the power of its processor; it returns none only if every such queue has scaled load zero.
\<close>

theorem find_busiest_queue_correct:
  "case find_busiest_queue sd g imb cpus s of
     None \<Rightarrow> \<forall>i\<in>set (sched_group_cpus g). eligible sd g imb cpus s i \<longrightarrow> scaled_load s i = 0
   | Some b \<Rightarrow> b \<in> set (sched_group_cpus g) \<and> eligible sd g imb cpus s b \<and> 0 < scaled_load s b
       \<and> (\<forall>i\<in>set (sched_group_cpus g). eligible sd g imb cpus s i \<longrightarrow> scaled_load s i \<le> scaled_load s b)"
  by (rule find_busiest_queue_spec)

theorem find_busiest_queue_correct_witness:
  "find_busiest_queue sd3 (groups sd3 ! 1) 2048 [0, 1, 2] sys3 = Some 1 \<and> eligible sd3 (groups sd3 ! 1) 2048 [0, 1, 2] sys3 1
    \<and> scaled_load sys3 2 \<le> scaled_load sys3 1"
proof -
  have r: "find_busiest_queue sd3 (groups sd3 ! 1) 2048 [0, 1, 2] sys3 = Some 1" by code_simp
  have "eligible sd3 (groups sd3 ! 1) 2048 [0, 1, 2] sys3 2" by code_simp
  with find_busiest_queue_correct [where sd = sd3 and g = "groups sd3 ! 1" and imb = 2048 and cpus = "[0, 1, 2]" and s = sys3]
  show ?thesis unfolding r by (simp add: sd3_def)
qed

text \<open>
  With an imbalanced busiest group the check against the average load is skipped, and \<open>avg_load - this_load\<close> wraps around: a local group far above the
  average is still told to pull.
\<close>

lemma imbalance_above_average:
  "let d = sd_zero\<lparr>busiest := Some (groups sd3 ! 1), this_group := Some (groups sd3 ! 0), avg_load := 2000, max_load := 2500, this_load := 3000,
             busiest_load_per_task := 4096, busiest_nr_running := 4, this_nr_running := 3, this_load_per_task := 3072, group_imb := True\<rparr>
   in this_load d > avg_load d \<and> this_load d > max_load d \<and> busiest_group_test sd3 d CPU_NOT_IDLE \<and> calculate_imbalance d 0 sys3 = Inr 1000"
  by code_simp

end
