(* ===== verification/Load_Balance.thy ===== *)
theory Load_Balance
  imports Lb_Stats
begin

text \<open>
  Load balancing, third part: \<open>load_balance\<close> for one scheduling domain, with its loops over the busiest queues, and the callers: a
  processor that goes idle, the periodic balancing of every domain, and the stopper thread that pushes a running task away.

  A domain is named by its processor and its level; its child is the level below.
\<close>

section \<open>Balancing one domain\<close>

definition sd_of :: "lb_sys \<Rightarrow> nat \<Rightarrow> nat \<Rightarrow> sched_domain" where
  "sd_of s c l = domains s c ! l"

definition child_of :: "lb_sys \<Rightarrow> nat \<Rightarrow> nat \<Rightarrow> sched_domain option" where
  "child_of s c l = (case l of 0 \<Rightarrow> None | Suc m \<Rightarrow> Some (sd_of s c m))"

definition upd_sd :: "nat \<Rightarrow> nat \<Rightarrow> (sched_domain \<Rightarrow> sched_domain) \<Rightarrow> lb_sys \<Rightarrow> lb_sys" where
  "upd_sd c l f s = s\<lparr>domains := (domains s)(c := (domains s c)[l := f (sd_of s c l)])\<rparr>"

definition MAX_PINNED_INTERVAL :: u32 where "MAX_PINNED_INTERVAL = 512"
definition POWERSAVINGS_BALANCE_WAKEUP :: int where "POWERSAVINGS_BALANCE_WAKEUP = 2"

definition resched_cpu :: "lb_conf \<Rightarrow> nat \<Rightarrow> lb_sys \<Rightarrow> lb_sys" where
  "resched_cpu K c s = (if rq_trylock K c then s\<lparr>need_resched := (need_resched s)(c := True)\<rparr> else s)"

definition need_active_balance :: "lb_conf \<Rightarrow> sched_domain \<Rightarrow> cpu_idle_type \<Rightarrow> nat \<Rightarrow> nat \<Rightarrow> bool" where
  "need_active_balance K sd idle busiest_cpu this_cpu =
    (if idle = CPU_NEWLY_IDLE \<and> SD_ASYM_PACKING sd \<and> busiest_cpu > this_cpu then True
     else if idle = CPU_NEWLY_IDLE \<and> sched_mc_power_savings K < POWERSAVINGS_BALANCE_WAKEUP then False
     else nr_balance_failed sd > cache_nice_tries sd + 2)"

text \<open>The notifier that a migrated task asked for.\<close>

definition notify_boost :: "nat \<Rightarrow> nat \<Rightarrow> lb_sys \<Rightarrow> lb_sys" where
  "notify_boost c b s =
    (if dbs_boost_needed s c then s\<lparr>dbs_boost_needed := (dbs_boost_needed s)(c := False), notified := (c, b) # notified s\<rparr> else s)"

lemma more_balance_measure:
  assumes "LBF_NEED_BREAK (fst (snd (move_tasks K e s)))"
  shows "2 * (Suc (loop_max (fst (snd (move_tasks K e s)))) - loop (fst (snd (move_tasks K e s))))
    < 2 * (Suc (loop_max e) - loop e) + of_bool (LBF_NEED_BREAK e)"
proof -
  have "env_le e (fst (snd (move_tasks K e s)))"
    using move_tasks_env [of K e s "fst (move_tasks K e s)" "fst (snd (move_tasks K e s))" "snd (snd (move_tasks K e s))"] by simp
  with assms show ?thesis by (cases "LBF_NEED_BREAK e") (auto simp: env_le_def)
qed

function more_balance :: "lb_conf \<Rightarrow> nat \<Rightarrow> lb_env \<Rightarrow> lb_sys \<Rightarrow> nat \<times> lb_env \<times> lb_sys" where
  "more_balance K ld e s =
    (let r = move_tasks K e s; ld = ld + fst r; e = fst (snd r); s = snd (snd r)
     in if LBF_NEED_BREAK e then more_balance K ld (e\<lparr>LBF_NEED_BREAK := False\<rparr>) s else (ld, e, s))"
  by pat_completeness auto

termination
  by (relation "measure (\<lambda>(K, ld, e, s). 2 * (Suc (loop_max e) - loop e) + of_bool (LBF_NEED_BREAK e))")
    (use more_balance_measure in auto)

declare more_balance.simps [simp del]

text \<open>The exits of \<open>load_balance\<close>: \<open>out_one_pinned\<close>, \<open>out_balanced\<close>, and the end of an attempt that moved \<open>ld\<close> tasks.\<close>

definition out_one_pinned :: "nat \<Rightarrow> nat \<Rightarrow> bool \<Rightarrow> lb_sys \<Rightarrow> lb_sys" where
  "out_one_pinned this_cpu l all_pinned s =
    (let sd = sd_of s this_cpu l
     in if all_pinned \<and> balance_interval sd < MAX_PINNED_INTERVAL \<or> balance_interval sd < max_interval sd
        then upd_sd this_cpu l (\<lambda>d. d\<lparr>balance_interval := balance_interval d * 2\<rparr>) s else s)"

definition out_balanced :: "nat \<Rightarrow> nat \<Rightarrow> bool \<Rightarrow> lb_sys \<Rightarrow> lb_sys" where
  "out_balanced this_cpu l all_pinned s = out_one_pinned this_cpu l all_pinned (upd_sd this_cpu l (\<lambda>d. d\<lparr>nr_balance_failed := 0\<rparr>) s)"

definition kick_active_balance :: "nat \<Rightarrow> nat \<Rightarrow> lb_sys \<Rightarrow> lb_sys" where
  "kick_active_balance this_cpu b s =
    (if active_balance (rqs s b) then s
     else (upd_lb_rq b (\<lambda>q. q\<lparr>active_balance := True, push_cpu := this_cpu\<rparr>) s)\<lparr>stop_works := b # stop_works s\<rparr>)"

definition lb_finish :: "lb_conf \<Rightarrow> nat \<Rightarrow> nat \<Rightarrow> cpu_idle_type \<Rightarrow> nat \<Rightarrow> nat \<Rightarrow> lb_sys \<Rightarrow> nat \<times> lb_sys" where
  "lb_finish K this_cpu l idle b ld s =
    (if ld = 0 then
       let s = (if idle \<noteq> CPU_NEWLY_IDLE then upd_sd this_cpu l (\<lambda>d. d\<lparr>nr_balance_failed := nr_balance_failed d + 1\<rparr>) s else s)
       in if need_active_balance K (sd_of s this_cpu l) idle b this_cpu
          then if \<not> cpus_allowed s (rq_curr (rqs s b)) this_cpu then (0, out_one_pinned this_cpu l True s)
               else
                 let kicked = \<not> active_balance (rqs s b);
                     s = kick_active_balance this_cpu b s;
                     s = upd_sd this_cpu l (\<lambda>d. d\<lparr>nr_balance_failed := cache_nice_tries d + 1\<rparr>) s
                 in (0, upd_sd this_cpu l (\<lambda>d. if \<not> kicked then d\<lparr>balance_interval := min_interval d\<rparr>
                                               else if balance_interval d < max_interval d then d\<lparr>balance_interval := balance_interval d * 2\<rparr> else d) s)
          else (0, upd_sd this_cpu l (\<lambda>d. d\<lparr>balance_interval := min_interval d\<rparr>) s)
     else
       let s = upd_sd this_cpu l (\<lambda>d. d\<lparr>nr_balance_failed := 0\<rparr>) s;
           s = notify_boost this_cpu b s
       in (ld, upd_sd this_cpu l (\<lambda>d. d\<lparr>balance_interval := min_interval d\<rparr>) s))"

text \<open>The attempt to pull tasks from the queue of \<open>b\<close>: how many were moved, the environment and the state.\<close>

definition lb_pull :: "lb_conf \<Rightarrow> nat \<Rightarrow> nat \<Rightarrow> ulong \<Rightarrow> lb_env \<Rightarrow> lb_sys \<Rightarrow> nat \<times> lb_env \<times> lb_sys" where
  "lb_pull K this_cpu b imb e s =
    (let e = e\<lparr>LBF_ALL_PINNED := True, load_move := imb, src_cpu := b, loop_max := min (sysctl_sched_nr_migrate K) (unat (nr_running (rqs s b)))\<rparr>;
         (ld, e, s) = more_balance K 0 e s
     in (ld, e, if ld \<noteq> 0 \<and> this_cpu \<noteq> smp_processor_id K then resched_cpu K this_cpu s else s))"

text \<open>From the label \<open>redo\<close>: the number of moved tasks, \<open>*balance\<close> and the state.\<close>

function lb_redo :: "lb_conf \<Rightarrow> nat \<Rightarrow> nat \<Rightarrow> cpu_idle_type \<Rightarrow> nat list \<Rightarrow> lb_env \<Rightarrow> lb_sys \<Rightarrow> (nat \<times> bool \<times> lb_sys) result" where
  "lb_redo K this_cpu l idle cpus e s =
    (case find_busiest_group K (sd_of s this_cpu l) (child_of s this_cpu l) this_cpu idle cpus s of
       Inl f \<Rightarrow> Inl f
     | Inr (balance, grp, imb, s1) \<Rightarrow>
         if \<not> balance then Inr (0, False, out_balanced this_cpu l (LBF_ALL_PINNED e) s1)
         else case grp of
           None \<Rightarrow> Inr (0, True, out_balanced this_cpu l (LBF_ALL_PINNED e) s1)
         | Some g \<Rightarrow> (case find_busiest_queue (sd_of s1 this_cpu l) g imb cpus s1 of
             None \<Rightarrow> Inr (0, True, out_balanced this_cpu l (LBF_ALL_PINNED e) s1)
           | Some b \<Rightarrow>
               if b = this_cpu then Inl Bug
               else if nr_running (rqs s1 b) > 1 then
                 (case lb_pull K this_cpu b imb e s1 of
                    (ld, e2, s2) \<Rightarrow>
                      if LBF_ALL_PINNED e2
                      then if removeAll b cpus \<noteq> [] then lb_redo K this_cpu l idle (removeAll b cpus) e2 s2
                           else Inr (0, True, out_balanced this_cpu l True s2)
                      else case lb_finish K this_cpu l idle b ld s2 of (ld, s3) \<Rightarrow> Inr (ld, True, s3))
               else case lb_finish K this_cpu l idle b 0 s1 of (ld, s3) \<Rightarrow> Inr (ld, True, s3)))"
  by pat_completeness auto

termination
  by (relation "measure (\<lambda>(K, this_cpu, l, idle, cpus, e, s). length cpus)")
    (auto dest!: find_busiest_queue_in intro: length_removeAll_less)

declare lb_redo.simps [simp del]

definition load_balance :: "lb_conf \<Rightarrow> nat \<Rightarrow> nat \<Rightarrow> cpu_idle_type \<Rightarrow> lb_sys \<Rightarrow> (nat \<times> bool \<times> lb_sys) result" where
  "load_balance K this_cpu l idle s =
    lb_redo K this_cpu l idle (cpu_active_mask K)
      \<lparr>src_cpu = 0, dst_cpu = this_cpu, env_idle = idle, load_move = 0, LBF_ALL_PINNED = False, LBF_NEED_BREAK = False,
       loop = 0, loop_break = LBF_BREAK, loop_max = 0,
       sd_balance_failed = nr_balance_failed (sd_of s this_cpu l), sd_nice_tries = cache_nice_tries (sd_of s this_cpu l)\<rparr> s"

section \<open>Callers\<close>

text \<open>The loop of \<open>idle_balance\<close> over the domains of the processor: the number of pulled tasks, the time of the next balancing and the state.\<close>

fun idle_domains :: "lb_conf \<Rightarrow> nat \<Rightarrow> nat list \<Rightarrow> ulong \<Rightarrow> lb_sys \<Rightarrow> (nat \<times> ulong \<times> lb_sys) result" where
  "idle_domains K c [] nb s = Inr (0, nb, s)"
| "idle_domains K c (l # ls) nb s =
    (if \<not> SD_LOAD_BALANCE (sd_of s c l) then idle_domains K c ls nb s
     else rbind (if SD_BALANCE_NEWIDLE (sd_of s c l) then load_balance K c l CPU_NEWLY_IDLE s else Inr (0, True, s)) (\<lambda>(n, _, s).
       let due = last_balance (sd_of s c l) + msecs_to_jiffies K (balance_interval (sd_of s c l));
           nb = (if time_after nb due then due else nb)
       in if n \<noteq> 0 then Inr (n, nb, upd_lb_rq c (\<lambda>q. q\<lparr>idle_stamp := 0\<rparr>) s) else idle_domains K c ls nb s))"

definition idle_balance :: "lb_conf \<Rightarrow> nat \<Rightarrow> lb_sys \<Rightarrow> lb_sys result" where
  "idle_balance K c s =
    (let s = upd_lb_rq c (\<lambda>q. q\<lparr>idle_stamp := clock q\<rparr>) s
     in if avg_idle (rqs s c) < ucast (sysctl_sched_migration_cost K) then Inr s
        else rbind (idle_domains K c [0..<length (domains s c)] (jiffies K + HZ K) s) (\<lambda>(n, nb, s).
          Inr (if n \<noteq> 0 \<or> time_after (jiffies K) (next_balance (rqs s c)) then upd_lb_rq c (\<lambda>q. q\<lparr>next_balance := nb\<rparr>) s else s)))"

text \<open>The work of the stopper thread of \<open>b\<close>: what it does before the label \<open>out_unlock\<close>, and the whole of it.\<close>

definition push_one :: "lb_conf \<Rightarrow> nat \<Rightarrow> nat \<Rightarrow> lb_sys \<Rightarrow> lb_sys result" where
  "push_one K b target_cpu s =
    (if b \<noteq> smp_processor_id K \<or> \<not> active_balance (rqs s b) then Inr s
     else if nr_running (rqs s b) \<le> 1 then Inr s
     else if b = target_cpu then Inl Bug
     else case List.find (\<lambda>sd. SD_LOAD_BALANCE sd \<and> b \<in> set (span sd)) (domains s target_cpu) of
       None \<Rightarrow> Inr s
     | Some sd \<Rightarrow>
         Inr (snd (snd (move_one_task K
           \<lparr>src_cpu = b, dst_cpu = target_cpu, env_idle = CPU_IDLE, load_move = 0, LBF_ALL_PINNED = False, LBF_NEED_BREAK = False,
            loop = 0, loop_break = 0, loop_max = 0, sd_balance_failed = nr_balance_failed sd, sd_nice_tries = cache_nice_tries sd\<rparr> s))))"

definition active_load_balance_cpu_stop :: "lb_conf \<Rightarrow> nat \<Rightarrow> lb_sys \<Rightarrow> lb_sys result" where
  "active_load_balance_cpu_stop K b s =
    (let target_cpu = push_cpu (rqs s b)
     in rbind (push_one K b target_cpu s) (\<lambda>s. Inr (notify_boost target_cpu b (upd_lb_rq b (\<lambda>q. q\<lparr>active_balance := False\<rparr>) s))))"

text \<open>The periodic balancing: \<open>upd\<close> is \<open>update_next_balance\<close>.\<close>

fun rebalance_loop :: "lb_conf \<Rightarrow> nat \<Rightarrow> nat list \<Rightarrow> cpu_idle_type \<Rightarrow> ulong \<Rightarrow> bool \<Rightarrow> lb_sys \<Rightarrow> (ulong \<times> bool \<times> lb_sys) result" where
  "rebalance_loop K c [] idle nb upd s = Inr (nb, upd, s)"
| "rebalance_loop K c (l # ls) idle nb upd s =
    (let sd = sd_of s c l
     in if \<not> SD_LOAD_BALANCE sd then rebalance_loop K c ls idle nb upd s
        else
          let interval = (if idle \<noteq> CPU_IDLE then balance_interval sd * busy_factor sd else balance_interval sd);
              interval = clamp (msecs_to_jiffies K interval) 1 (max_load_balance_interval K)
          in rbind
               (if SD_SERIALIZE sd \<and> \<not> balancing_trylock K l then Inr (True, idle, s)
                else if time_after_eq (jiffies K) (last_balance sd + interval)
                then rbind (load_balance K c l idle s) (\<lambda>(n, bal, s).
                  Inr (bal, if n \<noteq> 0 then CPU_NOT_IDLE else idle, upd_sd c l (\<lambda>d. d\<lparr>last_balance := jiffies K\<rparr>) s))
                else Inr (True, idle, s))
               (\<lambda>(bal, idle, s).
                 let due = last_balance (sd_of s c l) + interval;
                     upd = (upd \<or> time_after nb due);
                     nb = (if time_after nb due then due else nb)
                 in if bal then rebalance_loop K c ls idle nb upd s else Inr (nb, upd, s)))"

definition rebalance_domains :: "lb_conf \<Rightarrow> nat \<Rightarrow> cpu_idle_type \<Rightarrow> lb_sys \<Rightarrow> lb_sys result" where
  "rebalance_domains K c idle s =
    rbind (rebalance_loop K c [0..<length (domains s c)] idle (jiffies K + 60 * HZ K) False s) (\<lambda>(nb, upd, s).
      Inr (if upd then upd_lb_rq c (\<lambda>q. q\<lparr>next_balance := nb\<rparr>) s else s))"

section \<open>Correctness of the balancing of a domain\<close>

definition same_topology :: "lb_sys \<Rightarrow> lb_sys \<Rightarrow> bool" where
  "same_topology s s' \<longleftrightarrow> (\<forall>c. map groups (domains s' c) = map groups (domains s c))"

lemma same_topology_refl [simp]: "same_topology s s"
  by (simp add: same_topology_def)

lemma same_topology_trans: "same_topology s t \<Longrightarrow> same_topology t u \<Longrightarrow> same_topology s u"
  by (simp add: same_topology_def)

lemma same_topology_domains: "domains s' = domains s \<Longrightarrow> same_topology s s'"
  by (simp add: same_topology_def)

lemma same_topology_length: "same_topology s s' \<Longrightarrow> length (domains s' c) = length (domains s c)"
  unfolding same_topology_def by (metis length_map)

lemma same_topology_groups: "same_topology s s' \<Longrightarrow> l < length (domains s c) \<Longrightarrow> groups (sd_of s' c l) = groups (sd_of s c l)"
  unfolding sd_of_def by (metis same_topology_def same_topology_length nth_map)

text \<open>A change that leaves the queues and the groups of the domains alone.\<close>

definition keeps_books :: "lb_sys \<Rightarrow> lb_sys \<Rightarrow> bool" where
  "keeps_books s s' \<longleftrightarrow> same_queues s s' \<and> same_topology s s'"

lemma keeps_books_refl [simp]: "keeps_books s s"
  by (simp add: keeps_books_def)

lemma keeps_books_trans: "keeps_books s t \<Longrightarrow> keeps_books t u \<Longrightarrow> keeps_books s u"
  by (simp add: keeps_books_def same_queues_def same_nohz_def same_topology_def)

lemma same_topology_upd_sd: "(\<And>d. groups (f d) = groups d) \<Longrightarrow> same_topology s (upd_sd c l f t) = same_topology s t"
  by (simp add: same_topology_def upd_sd_def sd_of_def map_update)
     (metis (no_types, lifting) list_update_id map_update nth_map list_update_beyond not_le length_map)

lemma same_queues_upd_sd: "same_queues s (upd_sd c l f t) = same_queues s t"
  by (simp add: same_queues_def same_nohz_def upd_sd_def)

lemma keeps_books_upd_sd: "(\<And>d. groups (f d) = groups d) \<Longrightarrow> keeps_books s (upd_sd c l f t) = keeps_books s t"
  by (simp add: keeps_books_def same_topology_upd_sd same_queues_upd_sd)

lemma keeps_books_others [simp]:
  "keeps_books s (notify_boost c b t) = keeps_books s t" "keeps_books s (kick_active_balance c b t) = keeps_books s t" "keeps_books s (resched_cpu K c t) = keeps_books s t"
  by (auto simp: keeps_books_def same_queues_def same_nohz_def same_topology_def notify_boost_def kick_active_balance_def resched_cpu_def upd_lb_rq_def)

lemma keeps_books_pinned [simp]: "keeps_books s (out_one_pinned c l p t) = keeps_books s t" "keeps_books s (out_balanced c l p t) = keeps_books s t"
  by (simp_all add: out_one_pinned_def out_balanced_def Let_def keeps_books_upd_sd)

lemma lb_finish_keeps: "keeps_books s (snd (lb_finish K c l idle b ld s)) \<and> fst (lb_finish K c l idle b ld s) = ld"
  by (simp add: lb_finish_def Let_def keeps_books_upd_sd)

lemma more_balance_spec:
  assumes "more_balance K ld e s = (m, e', s')" "src_cpu e \<noteq> dst_cpu e"
  shows "lb_steps (dst_cpu e) s s' \<and> domains s' = domains s \<and> dst_cpu e' = dst_cpu e
    \<and> m + length (cfs_tasks (rqs s (dst_cpu e))) = ld + length (cfs_tasks (rqs s' (dst_cpu e)))
    \<and> (LBF_ALL_PINNED e' \<longrightarrow> LBF_ALL_PINNED e \<and> m = ld)"
  using assms
proof (induction K ld e s rule: more_balance.induct)
  case (1 K ld e s)
  obtain k f t where m: "move_tasks K e s = (k, f, t)" by (metis prod_cases3)
  have steps: "lb_steps (dst_cpu e) s t" and env: "env_le e f" "domains t = domains s" "LBF_ALL_PINNED f \<longrightarrow> k = 0"
    using move_tasks_steps [OF m 1(3)] move_tasks_env [OF m] by auto
  have len: "length (cfs_tasks (rqs t (dst_cpu e))) = k + length (cfs_tasks (rqs s (dst_cpu e)))"
    using move_tasks_length [OF m 1(3)] .
  show ?case
  proof (cases "LBF_NEED_BREAK f")
    case True
    have r: "more_balance K (ld + k) (f\<lparr>LBF_NEED_BREAK := False\<rparr>) t = (m, e', s')"
      using 1(2) True m by (simp add: more_balance.simps [of K ld e s] Let_def)
    note ih = 1(1) [OF refl refl refl refl, unfolded m fst_conv snd_conv, OF True r]
    show ?thesis using ih env steps len 1(3) by (auto simp: env_le_def intro: rtranclp_trans)
  next
    case False
    then show ?thesis using 1(2) m steps env len by (auto simp: more_balance.simps [of K ld e s] Let_def env_le_def)
  qed
qed

text \<open>What every attempt guarantees, on return from any of its exits.\<close>

definition balanced_for :: "nat \<Rightarrow> lb_sys \<Rightarrow> nat \<Rightarrow> lb_sys \<Rightarrow> bool" where
  "balanced_for c s n s' \<longleftrightarrow> lb_steps c s s' \<and> same_topology s s' \<and> length (cfs_tasks (rqs s' c)) = n + length (cfs_tasks (rqs s c))"

lemma balanced_for_keeps: "keeps_books s s' \<Longrightarrow> balanced_for c s 0 s'"
  by (simp add: balanced_for_def keeps_books_def quiet_steps) (simp add: same_queues_def same_nohz_def)

lemma balanced_for_trans: "balanced_for c s m t \<Longrightarrow> balanced_for c t n u \<Longrightarrow> k = m + n \<Longrightarrow> balanced_for c s k u"
  by (auto simp: balanced_for_def intro: rtranclp_trans same_topology_trans)

lemma quietly_keeps: "quietly s s' \<Longrightarrow> keeps_books s s'"
  by (simp add: quietly_def keeps_books_def same_topology_domains)

lemma balanced_for_finish: "balanced_for c s n t \<Longrightarrow> lb_finish K c' l idle b n t = (k, u) \<Longrightarrow> balanced_for c s k u"
  using lb_finish_keeps [of t K c' l idle b n] by (auto intro: balanced_for_trans [OF _ balanced_for_keeps])

definition has_local_group :: "lb_sys \<Rightarrow> nat \<Rightarrow> nat \<Rightarrow> bool" where
  "has_local_group s c l \<longleftrightarrow> l < length (domains s c) \<and> (\<exists>g\<in>set (groups (sd_of s c l)). c \<in> set (sched_group_cpus g))"

lemma has_local_group_same: "same_topology s s' \<Longrightarrow> has_local_group s' c l = has_local_group s c l"
  by (auto simp: has_local_group_def same_topology_length same_topology_groups)

lemma lb_pull_spec:
  assumes "lb_pull K c b imb e s = (ld, e2, s2)" "b \<noteq> c" "dst_cpu e = c"
  shows "balanced_for c s ld s2 \<and> (LBF_ALL_PINNED e2 \<longrightarrow> ld = 0) \<and> dst_cpu e2 = c"
proof -
  define f where "f = e\<lparr>LBF_ALL_PINNED := True, load_move := imb, src_cpu := b, loop_max := min (sysctl_sched_nr_migrate K) (unat (nr_running (rqs s b)))\<rparr>"
  obtain u where m: "more_balance K 0 f s = (ld, e2, u)" and s2: "s2 = (if ld \<noteq> 0 \<and> c \<noteq> smp_processor_id K then resched_cpu K c u else u)"
    using assms(1) by (auto simp: lb_pull_def Let_def f_def split: prod.splits)
  have f: "src_cpu f \<noteq> dst_cpu f" "dst_cpu f = c" using assms(2,3) by (simp_all add: f_def)
  note spec = more_balance_spec [OF m f(1), unfolded f(2)]
  have "balanced_for c s ld u" using spec by (simp add: balanced_for_def same_topology_domains)
  then have "balanced_for c s ld s2" using balanced_for_keeps [of u s2 c] s2 by (auto intro: balanced_for_trans)
  with spec show ?thesis by auto
qed

lemma lb_redo_spec:
  assumes "has_local_group s c l" "dst_cpu e = c"
  shows "\<exists>n b s'. lb_redo K c l idle cpus e s = Inr (n, b, s') \<and> balanced_for c s n s'"
  using assms
proof (induction K c l idle cpus e s rule: lb_redo.induct)
  case (1 K c l idle cpus e s)
  obtain bal grp imb t where g: "find_busiest_group K (sd_of s c l) (child_of s c l) c idle cpus s = Inr (bal, grp, imb, t)" and q: "quietly s t"
    and away: "\<And>g. grp = Some g \<Longrightarrow> g \<in> set (groups (sd_of s c l)) \<and> c \<notin> set (sched_group_cpus g)"
    using 1(2) find_busiest_group_spec [of "sd_of s c l" c K "child_of s c l" idle cpus s] unfolding has_local_group_def by metis
  note unfold = lb_redo.simps [of K c l idle cpus e s, unfolded g sum.case prod.case]
  have st: "balanced_for c s 0 t" by (intro balanced_for_keeps quietly_keeps q)
  have out: "balanced_for c s 0 (out_balanced c l p t)" for p
    by (intro balanced_for_keeps) (simp add: quietly_keeps q)
  show ?case
  proof (cases "bal \<and> (\<exists>g b. grp = Some g \<and> find_busiest_queue (sd_of t c l) g imb cpus t = Some b)")
    case False
    then show ?thesis using out by (auto simp: unfold split: option.split)
  next
    case True
    then obtain g' b where b: bal "grp = Some g'" "find_busiest_queue (sd_of t c l) g' imb cpus t = Some b" by blast
    have bc: "b \<noteq> c" using away [OF b(2)] find_busiest_queue_in [OF b(3)] by blast
    show ?thesis
    proof (cases "nr_running (rqs t b) > 1")
      case False
      then show ?thesis using b bc balanced_for_finish [OF st, of K c l idle b] by (auto simp: unfold split: prod.split)
    next
      case many: True
      obtain ld e2 u where m: "lb_pull K c b imb e t = (ld, e2, u)" by (metis prod_cases3)
      have su: "balanced_for c s ld u" and pin: "LBF_ALL_PINNED e2 \<longrightarrow> ld = 0" and dst: "dst_cpu e2 = c"
        using lb_pull_spec [OF m bc 1(3)] balanced_for_trans [OF st] by auto
      show ?thesis
      proof (cases "LBF_ALL_PINNED e2")
        case False
        then show ?thesis using many b bc balanced_for_finish [OF su, of K c l idle b] by (auto simp: unfold m split: prod.split)
      next
        case pinned: True
        have z: "ld = 0" using pin pinned by simp
        show ?thesis
        proof (cases "removeAll b cpus = []")
          case True
          then show ?thesis using many b bc pinned su z balanced_for_trans [OF su balanced_for_keeps] by (auto simp: unfold m)
        next
          case False
          have "has_local_group u c l" using su 1(2) has_local_group_same [of s u c l] by (simp add: balanced_for_def)
          then have "\<exists>n b' s'. lb_redo K c l idle (removeAll b cpus) e2 u = Inr (n, b', s') \<and> balanced_for c u n s'"
            using b bc many pinned False dst by (intro 1(1) [OF g refl refl refl _ b(2) b(3) _ _ m [symmetric] refl]) auto
          then show ?thesis using many b bc pinned False su z balanced_for_trans [OF su] by (fastforce simp: unfold m)
        qed
      qed
    qed
  qed
qed

lemma load_balance_spec:
  "has_local_group s c l \<Longrightarrow> \<exists>n b s'. load_balance K c l idle s = Inr (n, b, s') \<and> balanced_for c s n s'"
  unfolding load_balance_def by (rule lb_redo_spec) simp_all

lemma balanced_for_ok: "balanced_for c s n s' \<Longrightarrow> queues_ok s \<Longrightarrow> queues_ok s' \<and> rebalanced c s s'"
  by (auto simp: balanced_for_def intro: balancer.steps_inv steps_rebalanced)

lemma keeps_books_rq:
  assumes "\<And>q. cfs_tasks (f q) = cfs_tasks q" "\<And>q. load (f q) = load q" "\<And>q. nr_running (f q) = nr_running q" "\<And>q. rq_curr (f q) = rq_curr q"
    and "\<And>q. NOHZ_TICK_STOPPED (f q) = NOHZ_TICK_STOPPED q" "\<And>q. NOHZ_IDLE (f q) = NOHZ_IDLE q"
  shows "keeps_books s (upd_lb_rq c f t) = keeps_books s t"
  using assms by (auto simp: keeps_books_def same_queues_def same_nohz_def same_topology_def upd_lb_rq_def)

lemma balanced_for_after: "balanced_for c s n t \<Longrightarrow> keeps_books t u \<Longrightarrow> balanced_for c s n u"
  by (rule balanced_for_trans [OF _ balanced_for_keeps]) simp_all

lemma idle_domains_spec:
  assumes "\<forall>l\<in>set ls. has_local_group s c l"
  shows "\<exists>n nb' s'. idle_domains K c ls nb s = Inr (n, nb', s') \<and> balanced_for c s n s'"
  using assms
proof (induction ls arbitrary: nb s)
  case (Cons l ls)
  have "\<exists>n b t. (if SD_BALANCE_NEWIDLE (sd_of s c l) then load_balance K c l CPU_NEWLY_IDLE s else Inr (0, True, s)) = Inr (n, b, t) \<and> balanced_for c s n t"
    using load_balance_spec [of s c l] Cons.prems by (auto intro: balanced_for_keeps)
  then obtain n b t where t: "(if SD_BALANCE_NEWIDLE (sd_of s c l) then load_balance K c l CPU_NEWLY_IDLE s else Inr (0, True, s)) = Inr (n, b, t)" "balanced_for c s n t" by blast
  have "\<forall>l\<in>set ls. has_local_group t c l" using Cons.prems t(2) has_local_group_same by (auto simp: balanced_for_def)
  note ih = Cons.IH [OF this]
  show ?case
  proof (cases "SD_LOAD_BALANCE (sd_of s c l)")
    case False
    then show ?thesis using Cons by simp
  next
    case lb: True
    show ?thesis
    proof (cases "n = 0")
      case True
      with t ih balanced_for_trans [OF t(2)] show ?thesis by (fastforce simp: lb t(1) Let_def simp del: if_split)
    next
      case False
      with t balanced_for_after [OF t(2)] show ?thesis by (auto simp: lb t(1) Let_def keeps_books_rq simp del: if_split)
    qed
  qed
qed (simp add: balanced_for_keeps)

lemma idle_balance_spec:
  assumes "\<forall>l < length (domains s c). has_local_group s c l"
  shows "\<exists>n s'. idle_balance K c s = Inr s' \<and> balanced_for c s n s'"
proof -
  define t where "t = upd_lb_rq c (\<lambda>q. q\<lparr>idle_stamp := clock q\<rparr>) s"
  have t: "keeps_books s t" by (simp add: t_def keeps_books_rq)
  then have "same_topology s t" by (simp add: keeps_books_def)
  then have "\<forall>l\<in>set [0..<length (domains t c)]. has_local_group t c l"
    using assms by (simp add: has_local_group_same same_topology_length)
  then obtain n nb u where u: "idle_domains K c [0..<length (domains t c)] (jiffies K + HZ K) t = Inr (n, nb, u)" "balanced_for c t n u"
    using idle_domains_spec by metis
  have su: "balanced_for c s n u" using balanced_for_trans [OF balanced_for_keeps [OF t] u(2)] by simp
  show ?thesis
  proof (cases "avg_idle (rqs t c) < ucast (sysctl_sched_migration_cost K)")
    case True
    then show ?thesis using t balanced_for_keeps by (auto simp: idle_balance_def Let_def t_def [symmetric])
  next
    case False
    moreover have "balanced_for c s n (upd_lb_rq c (\<lambda>q. q\<lparr>next_balance := nb\<rparr>) u)"
      by (rule balanced_for_after [OF su]) (simp add: keeps_books_rq)
    ultimately show ?thesis using su by (fastforce simp: idle_balance_def Let_def t_def [symmetric] u(1))
  qed
qed

lemma rebalance_loop_spec:
  assumes "\<forall>l\<in>set ls. has_local_group s c l"
  shows "\<exists>n nb' upd' s'. rebalance_loop K c ls idle nb upd s = Inr (nb', upd', s') \<and> balanced_for c s n s'"
  using assms
proof (induction ls arbitrary: idle nb upd s)
  case (Cons l ls)
  show ?case
  proof (cases "SD_LOAD_BALANCE (sd_of s c l)")
    case False
    then show ?thesis using Cons by simp
  next
    case lb: True
    define interval where "interval = clamp (msecs_to_jiffies K (if idle \<noteq> CPU_IDLE then balance_interval (sd_of s c l) * busy_factor (sd_of s c l) else balance_interval (sd_of s c l))) 1 (max_load_balance_interval K)"
    define m where "m =
       (if SD_SERIALIZE (sd_of s c l) \<and> \<not> balancing_trylock K l then Inr (True, idle, s)
        else if time_after_eq (jiffies K) (last_balance (sd_of s c l) + interval)
        then rbind (load_balance K c l idle s) (\<lambda>(n, bal, s).
          Inr (bal, if n \<noteq> 0 then CPU_NOT_IDLE else idle, upd_sd c l (\<lambda>d. d\<lparr>last_balance := jiffies K\<rparr>) s))
        else Inr (True, idle, s) :: (bool \<times> cpu_idle_type \<times> lb_sys) result)"
    obtain n b t where t: "load_balance K c l idle s = Inr (n, b, t)" "balanced_for c s n t"
      using load_balance_spec [of s c l K idle] Cons.prems by auto
    have "balanced_for c s n (upd_sd c l (\<lambda>d. d\<lparr>last_balance := jiffies K\<rparr>) t)"
      by (rule balanced_for_after [OF t(2)]) (simp add: keeps_books_upd_sd)
    then have "\<exists>bal idle' u n. m = Inr (bal, idle', u) \<and> balanced_for c s n u"
      using balanced_for_keeps [of s s c] by (auto simp: m_def t(1))
    then obtain bal idle' u k where m: "m = Inr (bal, idle', u)" and u: "balanced_for c s k u" by blast
    have "\<forall>l\<in>set ls. has_local_group u c l" using Cons.prems u has_local_group_same by (auto simp: balanced_for_def)
    note ih = Cons.IH [OF this]
    have eq: "rebalance_loop K c (l # ls) idle nb upd s = rbind m (\<lambda>(bal, idle, s).
                 let due = last_balance (sd_of s c l) + interval;
                     upd = (upd \<or> time_after nb due);
                     nb = (if time_after nb due then due else nb)
                 in if bal then rebalance_loop K c ls idle nb upd s else Inr (nb, upd, s))"
      by (simp only: rebalance_loop.simps Let_def m_def interval_def lb simp_thms if_False)
    show ?thesis
    proof (cases bal)
      case True
      with ih balanced_for_trans [OF u] show ?thesis unfolding eq m by (simp add: Let_def del: if_split) blast
    next
      case False
      with u show ?thesis unfolding eq m by (auto simp add: Let_def)
    qed
  qed
qed (metis balanced_for_keeps keeps_books_refl rebalance_loop.simps(1))

lemma rebalance_domains_spec:
  assumes "\<forall>l < length (domains s c). has_local_group s c l"
  shows "\<exists>n s'. rebalance_domains K c idle s = Inr s' \<and> balanced_for c s n s'"
proof -
  have "\<forall>l\<in>set [0..<length (domains s c)]. has_local_group s c l" using assms by simp
  then obtain n nb upd u where u: "rebalance_loop K c [0..<length (domains s c)] idle (jiffies K + 60 * HZ K) False s = Inr (nb, upd, u)"
    "balanced_for c s n u"
    using rebalance_loop_spec by metis
  moreover have "balanced_for c s n (upd_lb_rq c (\<lambda>q. q\<lparr>next_balance := nb\<rparr>) u)"
    by (rule balanced_for_after [OF u(2)]) (simp add: keeps_books_rq)
  ultimately show ?thesis by (auto simp: rebalance_domains_def)
qed

text \<open>The stopper thread moves at most one task, to the processor that asked for it.\<close>

lemma push_one_steps:
  assumes "push_one K b t s = Inr u"
  shows "lb_steps t s u"
proof -
  have one: "lb_steps (dst_cpu e) s (snd (snd (move_one_task K e s)))" if "src_cpu e \<noteq> dst_cpu e" for e
    using move_one_task_steps [of K e s "fst (move_one_task K e s)" "fst (snd (move_one_task K e s))"] that by simp
  show ?thesis
    using assms one [of "\<lparr>src_cpu = b, dst_cpu = t, env_idle = CPU_IDLE, load_move = 0, LBF_ALL_PINNED = False, LBF_NEED_BREAK = False,
            loop = 0, loop_break = 0, loop_max = 0, sd_balance_failed = _, sd_nice_tries = _\<rparr>"]
    by (auto simp: push_one_def split: if_splits option.splits)
qed

lemma active_stop_spec:
  assumes "active_load_balance_cpu_stop K b s = Inr s'"
  shows "lb_steps (push_cpu (rqs s b)) s s' \<and> \<not> active_balance (rqs s' b)"
proof -
  let ?t = "push_cpu (rqs s b)"
  obtain u where p: "push_one K b ?t s = Inr u" and s': "s' = notify_boost ?t b (upd_lb_rq b (\<lambda>q. q\<lparr>active_balance := False\<rparr>) u)"
    using assms by (auto simp: active_load_balance_cpu_stop_def Let_def rbind_Inr_iff)
  have "keeps_books u s'" by (simp add: s' keeps_books_rq)
  then have "lb_steps ?t u s'" by (simp add: keeps_books_def quiet_steps)
  moreover have "\<not> active_balance (rqs s' b)" by (simp add: s' notify_boost_def upd_lb_rq_def)
  ultimately show ?thesis using push_one_steps [OF p] by (meson rtranclp_trans)
qed

section \<open>Pinned queues\<close>

lemma more_balance_pinned:
  assumes "more_balance K ld e s = (m, e', s')" "LBF_ALL_PINNED e'" "cfs_tasks (rqs s (src_cpu e)) \<noteq> []" "0 < sint (load_move e)"
    and "src_cpu e \<noteq> dst_cpu e"
  shows "loop_max e < loop e' \<and> \<not> LBF_NEED_BREAK e'"
  using assms
proof (induction K ld e s rule: more_balance.induct)
  case (1 K ld e s)
  obtain k f t where m: "move_tasks K e s = (k, f, t)" by (metis prod_cases3)
  note env = move_tasks_env [OF m]
  show ?case
  proof (cases "LBF_NEED_BREAK f")
    case True
    have r: "more_balance K (ld + k) (f\<lparr>LBF_NEED_BREAK := False\<rparr>) t = (m, e', s')"
      using 1(2) True m by (simp add: more_balance.simps [of K ld e s] Let_def)
    have pin: "LBF_ALL_PINNED f"
      using more_balance_spec [OF r] 1(3,6) env by (auto simp: env_le_def)
    note ih = 1(1) [OF refl refl refl refl, unfolded m fst_conv snd_conv, OF True r 1(3)]
    show ?thesis using ih move_tasks_pinned [OF m pin 1(4,5)] env 1(5,6) by (simp add: env_le_def)
  next
    case False
    then have "e' = f" using 1(2) m by (simp add: more_balance.simps [of K ld e s] Let_def)
    with False 1(3) move_tasks_pinned [OF m _ 1(4,5)] env show ?thesis by (simp add: env_le_def)
  qed
qed

lemma lb_pull_spent:
  assumes "min (sysctl_sched_nr_migrate K) (unat (nr_running (rqs s b))) \<le> loop e" "\<not> LBF_NEED_BREAK e"
  shows "\<exists>e'. lb_pull K c b imb e s = (0, e', s) \<and> LBF_ALL_PINNED e'"
proof -
  let ?f = "e\<lparr>LBF_ALL_PINNED := True, load_move := imb, src_cpu := b, loop_max := min (sysctl_sched_nr_migrate K) (unat (nr_running (rqs s b)))\<rparr>"
  obtain e' where "move_tasks K ?f s = (0, e', s)" "LBF_ALL_PINNED e'" "\<not> LBF_NEED_BREAK e'"
    using move_tasks_spent [of ?f K s] assms by auto
  then show ?thesis by (simp add: lb_pull_def Let_def more_balance.simps [of K 0])
qed

lemma pinned_queue_blocks_next_full:
  assumes "lb_pull K c b imb e s = (ld, e2, s2)" "LBF_ALL_PINNED e2"
    and "b \<noteq> c" "dst_cpu e = c" "cfs_tasks (rqs s b) \<noteq> []" "0 < sint imb" "nr_running (rqs s2 b') \<le> nr_running (rqs s b)"
  shows "\<exists>e3. lb_pull K c b' imb' e2 s2 = (0, e3, s2) \<and> LBF_ALL_PINNED e3"
proof -
  define f where "f = e\<lparr>LBF_ALL_PINNED := True, load_move := imb, src_cpu := b, loop_max := min (sysctl_sched_nr_migrate K) (unat (nr_running (rqs s b)))\<rparr>"
  obtain u where m: "more_balance K 0 f s = (ld, e2, u)"
    using assms(1) by (auto simp: lb_pull_def Let_def f_def split: prod.splits)
  have "loop_max f < loop e2 \<and> \<not> LBF_NEED_BREAK e2"
    using assms(3-6) by (intro more_balance_pinned [OF m assms(2)]) (simp_all add: f_def)
  moreover have "unat (nr_running (rqs s2 b')) \<le> unat (nr_running (rqs s b))" using assms(7) by (simp add: word_le_nat_alt)
  ultimately show ?thesis by (intro lb_pull_spent) (auto simp: f_def)
qed

lemma sys3_local: "has_local_group sys3 0 0"
  by (simp add: sys3_def has_local_group_def sd_of_def sd3_def)

section \<open>Main results\<close>

text \<open>
  C8. \<open>load_balance\<close> always returns, with no \<open>BUG\<close> and no null dereference, for a domain with a group of the processor. The
  invariant of the run queues is kept: every task stays queued, on one queue only, on a processor it may run on, and loads are the
  sums of weights. Only tasks that do not run are moved, only to the balancing processor, and the result is their number.
\<close>

theorem load_balance_correct:
  assumes "has_local_group s c l" "queues_ok s"
  shows "\<exists>n b s'. load_balance K c l idle s = Inr (n, b, s') \<and> queues_ok s' \<and> rebalanced c s s'
    \<and> length (cfs_tasks (rqs s' c)) = n + length (cfs_tasks (rqs s c))"
proof -
  obtain n b s' where b: "load_balance K c l idle s = Inr (n, b, s')" "balanced_for c s n s'"
    using load_balance_spec [OF assms(1)] by blast
  from balanced_for_ok [OF b(2) assms(2)] b show ?thesis by (auto simp: balanced_for_def)
qed

theorem load_balance_correct_witness:
  "\<exists>n b s'. load_balance conf3 0 0 CPU_IDLE sys3 = Inr (n, b, s') \<and> queues_ok s' \<and> rebalanced 0 sys3 s'
    \<and> length (cfs_tasks (rqs s' 0)) = n"
  using load_balance_correct [OF sys3_local sys3_ok, of conf3 CPU_IDLE] by (simp add: sys3_def idle_rq_def)

text \<open>
  The periodic balancing of all domains of a processor, and the balancing of a processor that goes idle, return and
  keep the same promises.
\<close>

theorem rebalance_correct:
  assumes "\<forall>l < length (domains s c). has_local_group s c l" "queues_ok s"
  shows "\<exists>s'. rebalance_domains K c idle s = Inr s' \<and> queues_ok s' \<and> rebalanced c s s'"
    and "\<exists>s'. idle_balance K c s = Inr s' \<and> queues_ok s' \<and> rebalanced c s s'"
  using rebalance_domains_spec [OF assms(1)] idle_balance_spec [OF assms(1)] balanced_for_ok [OF _ assms(2)] by blast+

theorem rebalance_correct_witness:
  "\<exists>s'. rebalance_domains conf3 0 CPU_IDLE sys3 = Inr s' \<and> queues_ok s' \<and> rebalanced 0 sys3 s'"
  by (rule rebalance_correct(1)) (use sys3_ok sys3_local in \<open>auto simp: sys3_def\<close>)

text \<open>
  The loop counter survives the label \<open>redo\<close>: after a queue whose tasks are all pinned, another queue with no more running tasks is given up
  without a look at any of its tasks, and counts as pinned too.
\<close>

theorem pinned_queue_blocks_next:
  assumes "lb_pull K c b imb e s = (ld, e2, s2)" "LBF_ALL_PINNED e2"
    and "b \<noteq> c" "dst_cpu e = c" "cfs_tasks (rqs s b) \<noteq> []" "0 < sint imb" "nr_running (rqs s2 b') \<le> nr_running (rqs s b)"
  shows "\<exists>e3. lb_pull K c b' imb' e2 s2 = (0, e3, s2) \<and> LBF_ALL_PINNED e3"
  using assms by (rule pinned_queue_blocks_next_full)

theorem pinned_queue_blocks_next_witness:
  "let r = lb_pull conf3 0 1 2000 env3 sys3
   in (\<exists>e3. lb_pull conf3 0 2 2000 (fst (snd r)) (snd (snd r)) = (0, e3, snd (snd r)) \<and> LBF_ALL_PINNED e3)
     \<and> fst (lb_pull conf3 0 2 2000 env3 sys3) = 2"
proof -
  let ?r = "lb_pull conf3 0 1 2000 env3 sys3"
  have "\<exists>e3. lb_pull conf3 0 2 2000 (fst (snd ?r)) (snd (snd ?r)) = (0, e3, snd (snd ?r)) \<and> LBF_ALL_PINNED e3"
  proof (rule pinned_queue_blocks_next)
    show "?r = (fst ?r, fst (snd ?r), snd (snd ?r))" by simp
    show "LBF_ALL_PINNED (fst (snd ?r))" by code_simp
    show "nr_running (rqs (snd (snd ?r)) 2) \<le> nr_running (rqs sys3 1)" by code_simp
  qed (simp_all add: env3_def sys3_def)
  moreover have "fst (lb_pull conf3 0 2 2000 env3 sys3) = 2" by code_simp
  ultimately show ?thesis by (simp add: Let_def)
qed

end
