(* ===== verification/Lb_Nohz.thy ===== *)
theory Lb_Nohz
  imports Load_Balance
begin

text \<open>
  Load balancing of processors whose tick is stopped (\<open>CONFIG_NO_HZ\<close>), and the entry points from the timer tick: which processors are
  idle without a tick, how many processors of a group are busy, when another processor is asked to balance for them.
\<close>

section \<open>Bookkeeping of idle processors\<close>

definition cpumask_set_cpu :: "nat \<Rightarrow> nat list \<Rightarrow> nat list" where
  "cpumask_set_cpu c m = (if c \<in> set m then m else insort c m)"

definition cpumask_clear_cpu :: "nat \<Rightarrow> nat list \<Rightarrow> nat list" where
  "cpumask_clear_cpu c m = removeAll c m"

text \<open>Without \<open>CONFIG_SCHED_MC\<close> and \<open>CONFIG_SCHED_SMT\<close> no processor is ever nominated.\<close>

definition find_new_ilb :: "lb_conf \<Rightarrow> nat \<Rightarrow> nat" where
  "find_new_ilb K c = nr_cpu_ids K"

definition nohz_balancer_kick :: "lb_conf \<Rightarrow> nat \<Rightarrow> lb_sys \<Rightarrow> lb_sys" where
  "nohz_balancer_kick K c s =
    (let s = s\<lparr>nohz_next_balance := nohz_next_balance s + 1\<rparr>;
         ilb_cpu = find_new_ilb K c
     in if ilb_cpu \<ge> nr_cpu_ids K then s
        else if NOHZ_BALANCE_KICK (rqs s ilb_cpu) then s
        else (upd_lb_rq ilb_cpu (\<lambda>q. q\<lparr>NOHZ_BALANCE_KICK := True\<rparr>) s)\<lparr>reschedule_ipis := ilb_cpu # reschedule_ipis s\<rparr>)"

definition clear_nohz_tick_stopped :: "nat \<Rightarrow> lb_sys \<Rightarrow> lb_sys" where
  "clear_nohz_tick_stopped c s =
    (if NOHZ_TICK_STOPPED (rqs s c)
     then upd_lb_rq c (\<lambda>q. q\<lparr>NOHZ_TICK_STOPPED := False\<rparr>)
            (s\<lparr>nohz_idle_cpus_mask := cpumask_clear_cpu c (nohz_idle_cpus_mask s), nohz_nr_cpus := nohz_nr_cpus s - 1\<rparr>)
     else s)"

fun add_busy :: "int \<Rightarrow> sched_domain list \<Rightarrow> lb_sys \<Rightarrow> lb_sys" where
  "add_busy x [] s = s"
| "add_busy x (sd # sds) s =
    add_busy x sds (case groups sd of [] \<Rightarrow> s | g # _ \<Rightarrow> upd_sgp (sgp_ref g) (\<lambda>p. p\<lparr>nr_busy_cpus := nr_busy_cpus p + x\<rparr>) s)"

text \<open>The next two are called on the processor \<open>c\<close>.\<close>

definition set_cpu_sd_state_busy :: "nat \<Rightarrow> lb_sys \<Rightarrow> lb_sys" where
  "set_cpu_sd_state_busy c s =
    (if \<not> NOHZ_IDLE (rqs s c) then s
     else add_busy 1 (domains s c) (upd_lb_rq c (\<lambda>q. q\<lparr>NOHZ_IDLE := False\<rparr>) s))"

definition set_cpu_sd_state_idle :: "nat \<Rightarrow> lb_sys \<Rightarrow> lb_sys" where
  "set_cpu_sd_state_idle c s =
    (if NOHZ_IDLE (rqs s c) then s
     else add_busy (- 1) (domains s c) (upd_lb_rq c (\<lambda>q. q\<lparr>NOHZ_IDLE := True\<rparr>) s))"

definition select_nohz_load_balancer :: "lb_conf \<Rightarrow> nat \<Rightarrow> bool \<Rightarrow> lb_sys \<Rightarrow> lb_sys" where
  "select_nohz_load_balancer K c stop_tick s =
    (if c \<notin> set (cpu_active_mask K) then s
     else if stop_tick then
       if NOHZ_TICK_STOPPED (rqs s c) then s
       else upd_lb_rq c (\<lambda>q. q\<lparr>NOHZ_TICK_STOPPED := True\<rparr>)
              (s\<lparr>nohz_idle_cpus_mask := cpumask_set_cpu c (nohz_idle_cpus_mask s), nohz_nr_cpus := nohz_nr_cpus s + 1\<rparr>)
     else s)"

text \<open>The argument says whether the processor \<open>c\<close> is dying; the result is \<open>NOTIFY_OK\<close>.\<close>

definition sched_ilb_notifier :: "nat \<Rightarrow> bool \<Rightarrow> lb_sys \<Rightarrow> bool \<times> lb_sys" where
  "sched_ilb_notifier c dying s = (if dying then (True, clear_nohz_tick_stopped c s) else (False, s))"

section \<open>Kicking and balancing\<close>

fun kick_domains :: "nat \<Rightarrow> sched_domain list \<Rightarrow> lb_conf \<Rightarrow> lb_sys \<Rightarrow> bool" where
  "kick_domains c [] K s = False"
| "kick_domains c (sd # sds) K s =
    (case groups sd of [] \<Rightarrow> False
     | sg # _ \<Rightarrow>
         let nr_busy = nr_busy_cpus (sgps s (sgp_ref sg));
             first_idle = (case filter (\<lambda>i. i \<in> set (span sd)) (nohz_idle_cpus_mask s) of [] \<Rightarrow> nr_cpu_ids K | i # _ \<Rightarrow> i)
         in if SD_SHARE_PKG_RESOURCES sd \<and> nr_busy > 1 then True
            else if SD_ASYM_PACKING sd \<and> word_of_int nr_busy \<noteq> group_weight sg \<and> first_idle < c then True
            else if \<not> (SD_SHARE_PKG_RESOURCES sd \<or> SD_ASYM_PACKING sd) then False
            else kick_domains c sds K s)"

definition nohz_kick_needed :: "lb_conf \<Rightarrow> nat \<Rightarrow> lb_sys \<Rightarrow> bool \<times> lb_sys" where
  "nohz_kick_needed K c s =
    (if idle_cpu s c then (False, s)
     else
       let s = clear_nohz_tick_stopped c (set_cpu_sd_state_busy (smp_processor_id K) s)
       in if nohz_nr_cpus s = 0 then (False, s)
          else if time_after (nohz_next_balance s) (jiffies K) then (False, s)
          else if nr_running (rqs s c) \<ge> 2 then (True, s)
          else (kick_domains c (domains s c) K s, s))"

definition refresh_rq :: "lb_conf \<Rightarrow> nat \<Rightarrow> lb_sys \<Rightarrow> lb_sys" where
  "refresh_rq K c s =
    upd_lb_rq c (\<lambda>q. case refreshed K c q of (t, tt, ld) \<Rightarrow> q\<lparr>clock := t, clock_task := tt, cpu_load := ld\<rparr>) s"

fun nohz_idle_loop :: "lb_conf \<Rightarrow> nat \<Rightarrow> nat list \<Rightarrow> lb_sys \<Rightarrow> lb_sys result" where
  "nohz_idle_loop K this_cpu [] s = Inr s"
| "nohz_idle_loop K this_cpu (b # bs) s =
    (if b = this_cpu \<or> \<not> idle_cpu s b then nohz_idle_loop K this_cpu bs s
     else if need_resched s this_cpu then Inr s
     else rbind (rebalance_domains K b CPU_IDLE (refresh_rq K this_cpu s)) (\<lambda>s.
       nohz_idle_loop K this_cpu bs
         (if time_after (next_balance (rqs s this_cpu)) (next_balance (rqs s b))
          then upd_lb_rq this_cpu (\<lambda>q. q\<lparr>next_balance := next_balance (rqs s b)\<rparr>) s else s)))"

definition nohz_idle_balance :: "lb_conf \<Rightarrow> nat \<Rightarrow> cpu_idle_type \<Rightarrow> lb_sys \<Rightarrow> lb_sys result" where
  "nohz_idle_balance K this_cpu idle s =
    rbind (if idle \<noteq> CPU_IDLE \<or> \<not> NOHZ_BALANCE_KICK (rqs s this_cpu) then Inr s
           else rbind (nohz_idle_loop K this_cpu (nohz_idle_cpus_mask s) s) (\<lambda>s. Inr (s\<lparr>nohz_next_balance := next_balance (rqs s this_cpu)\<rparr>)))
      (\<lambda>s. Inr (upd_lb_rq this_cpu (\<lambda>q. q\<lparr>NOHZ_BALANCE_KICK := False\<rparr>) s))"

section \<open>Entry points\<close>

definition run_rebalance_domains :: "lb_conf \<Rightarrow> lb_sys \<Rightarrow> lb_sys result" where
  "run_rebalance_domains K s =
    (let this_cpu = smp_processor_id K;
         idle = (if rq_idle_balance (rqs s this_cpu) then CPU_IDLE else CPU_NOT_IDLE)
     in rbind (rebalance_domains K this_cpu idle s) (nohz_idle_balance K this_cpu idle))"

definition on_null_domain :: "lb_sys \<Rightarrow> nat \<Rightarrow> bool" where
  "on_null_domain s c \<longleftrightarrow> domains s c = []"

definition trigger_load_balance :: "lb_conf \<Rightarrow> nat \<Rightarrow> lb_sys \<Rightarrow> lb_sys" where
  "trigger_load_balance K c s =
    (let s = (if time_after_eq (jiffies K) (next_balance (rqs s c)) \<and> \<not> on_null_domain s c then s\<lparr>softirqs := smp_processor_id K # softirqs s\<rparr> else s);
         (kick, s) = nohz_kick_needed K c s
     in if kick \<and> \<not> on_null_domain s c then nohz_balancer_kick K c s else s)"

definition got_nohz_idle_kick :: "lb_conf \<Rightarrow> lb_sys \<Rightarrow> bool" where
  "got_nohz_idle_kick K s \<longleftrightarrow> idle_cpu s (smp_processor_id K) \<and> NOHZ_BALANCE_KICK (rqs s (smp_processor_id K))"

text \<open>The processor to which a timer is migrated: the nearest that is not idle.\<close>

definition get_nohz_timer_target :: "lb_conf \<Rightarrow> lb_sys \<Rightarrow> nat" where
  "get_nohz_timer_target K s =
    (let c = smp_processor_id K
     in case List.find (\<lambda>i. \<not> idle_cpu s i) (concat (map span (domains s c))) of None \<Rightarrow> c | Some i \<Rightarrow> i)"

section \<open>The invariant\<close>

text \<open>
  The mask holds exactly the processors whose tick is stopped, in order, and they are counted. The busy processors of a group are \<open>N\<close>, the
  number at boot, less the idle ones of the processors \<open>C\<close>.
\<close>

definition nohz_ok :: "lb_sys \<Rightarrow> bool" where
  "nohz_ok s \<longleftrightarrow> sorted (nohz_idle_cpus_mask s) \<and> distinct (nohz_idle_cpus_mask s)
    \<and> (\<forall>c. c \<in> set (nohz_idle_cpus_mask s) \<longleftrightarrow> NOHZ_TICK_STOPPED (rqs s c)) \<and> nohz_nr_cpus s = int (length (nohz_idle_cpus_mask s))"

definition head_refs :: "sched_domain list \<Rightarrow> nat list" where
  "head_refs sds = concat (map (\<lambda>gs. case gs of [] \<Rightarrow> [] | g # _ \<Rightarrow> [sgp_ref g]) (map groups sds))"

definition idle_share :: "lb_sys \<Rightarrow> nat \<Rightarrow> nat \<Rightarrow> int" where
  "idle_share s a c = (if NOHZ_IDLE (rqs s c) then int (count_list (head_refs (domains s c)) a) else 0)"

definition busy_ok :: "(nat \<Rightarrow> int) \<Rightarrow> nat set \<Rightarrow> lb_sys \<Rightarrow> bool" where
  "busy_ok N C s \<longleftrightarrow> (\<forall>a. nr_busy_cpus (sgps s a) + (\<Sum>c\<in>C. idle_share s a c) = N a)"

definition topology_ok :: "lb_sys \<Rightarrow> bool" where
  "topology_ok s \<longleftrightarrow> (\<forall>c. \<forall>l < length (domains s c). has_local_group s c l)"

definition lb_inv :: "(nat \<Rightarrow> int) \<Rightarrow> nat set \<Rightarrow> lb_sys \<Rightarrow> bool" where
  "lb_inv N C s \<longleftrightarrow> queues_ok s \<and> topology_ok s \<and> nohz_ok s \<and> busy_ok N C s"

inductive lb_event :: "nat set \<Rightarrow> lb_sys \<Rightarrow> lb_sys \<Rightarrow> bool" for C where
  go_idle: "c \<in> C \<Longrightarrow> lb_event C s (set_cpu_sd_state_idle c s)"
| go_busy: "c \<in> C \<Longrightarrow> lb_event C s (set_cpu_sd_state_busy c s)"
| stop_tick: "lb_event C s (select_nohz_load_balancer K c b s)"
| dying: "lb_event C s (snd (sched_ilb_notifier c b s))"
| tick: "smp_processor_id K \<in> C \<Longrightarrow> lb_event C s (trigger_load_balance K c s)"
| softirq: "run_rebalance_domains K s = Inr s' \<Longrightarrow> lb_event C s s'"
| newidle: "idle_balance K c s = Inr s' \<Longrightarrow> lb_event C s s'"

lemma topology_ok_same: "same_topology s s' \<Longrightarrow> topology_ok s' = topology_ok s"
  by (simp add: topology_ok_def has_local_group_same same_topology_length)

lemma head_refs_same: "same_topology s s' \<Longrightarrow> head_refs (domains s' c) = head_refs (domains s c)"
  by (simp only: same_topology_def head_refs_def)

lemma nohz_ok_same: "same_nohz s s' \<Longrightarrow> nohz_ok s' = nohz_ok s"
  by (simp add: nohz_ok_def same_nohz_def)

lemma busy_ok_same: "same_nohz s s' \<Longrightarrow> same_topology s s' \<Longrightarrow> busy_ok N C s' = busy_ok N C s"
proof -
  assume s: "same_nohz s s'" "same_topology s s'"
  have "idle_share s' a c = idle_share s a c" for a c using s(1) head_refs_same [OF s(2)] by (simp add: idle_share_def same_nohz_def)
  with s(1) show ?thesis by (simp add: busy_ok_def same_nohz_def)
qed

lemma keeps_books_inv: "keeps_books s s' \<Longrightarrow> lb_inv N C s \<Longrightarrow> lb_inv N C s'"
  using same_queues_ok [of s s'] topology_ok_same [of s s'] nohz_ok_same [of s s'] busy_ok_same [of s s' N C]
  by (simp add: lb_inv_def keeps_books_def same_queues_def)

lemma balanced_for_inv: "balanced_for c s n s' \<Longrightarrow> lb_inv N C s \<Longrightarrow> lb_inv N C s'"
  using balanced_for_ok [of c s n s'] topology_ok_same [of s s'] nohz_ok_same [of s s'] busy_ok_same [of s s' N C] rebalanced_nohz [of c s s']
  by (auto simp: lb_inv_def balanced_for_def)

lemma rebalance_domains_inv:
  assumes "lb_inv N C s"
  shows "\<exists>s'. rebalance_domains K c idle s = Inr s' \<and> lb_inv N C s'"
proof -
  have "\<forall>l < length (domains s c). has_local_group s c l" using assms by (simp add: lb_inv_def topology_ok_def)
  from rebalance_domains_spec [OF this] assms show ?thesis by (blast intro: balanced_for_inv)
qed

lemma idle_balance_inv:
  assumes "lb_inv N C s"
  shows "\<exists>s'. idle_balance K c s = Inr s' \<and> lb_inv N C s'"
proof -
  have "\<forall>l < length (domains s c). has_local_group s c l" using assms by (simp add: lb_inv_def topology_ok_def)
  from idle_balance_spec [OF this] assms show ?thesis by (blast intro: balanced_for_inv)
qed

lemma refresh_rq_keeps: "keeps_books s (refresh_rq K c s)"
  unfolding refresh_rq_def by (subst keeps_books_rq) (simp_all split: prod.split)

lemma nohz_idle_loop_inv:
  assumes "lb_inv N C s"
  shows "\<exists>s'. nohz_idle_loop K c bs s = Inr s' \<and> lb_inv N C s'"
  using assms
proof (induction bs arbitrary: s)
  case (Cons b bs)
  obtain t where t: "rebalance_domains K b CPU_IDLE (refresh_rq K c s) = Inr t" "lb_inv N C t"
    using rebalance_domains_inv keeps_books_inv [OF refresh_rq_keeps Cons.prems] by blast
  have "lb_inv N C (upd_lb_rq c (\<lambda>q. q\<lparr>next_balance := x\<rparr>) t)" for x
    by (rule keeps_books_inv [OF _ t(2)]) (simp add: keeps_books_rq)
  with Cons t show ?case by (auto split: if_split)
qed simp

lemma nohz_idle_balance_inv:
  assumes "lb_inv N C s"
  shows "\<exists>s'. nohz_idle_balance K c idle s = Inr s' \<and> lb_inv N C s'"
proof -
  have kick: "lb_inv N C (upd_lb_rq c (\<lambda>q. q\<lparr>NOHZ_BALANCE_KICK := False\<rparr>) t)" if "lb_inv N C t" for t
    by (rule keeps_books_inv [OF _ that]) (simp add: keeps_books_rq)
  have nb: "lb_inv N C (t\<lparr>nohz_next_balance := x\<rparr>)" if "lb_inv N C t" for t x
    by (rule keeps_books_inv [OF _ that]) (simp add: keeps_books_def same_queues_def same_nohz_def same_topology_def)
  obtain t where "nohz_idle_loop K c (nohz_idle_cpus_mask s) s = Inr t" "lb_inv N C t"
    using nohz_idle_loop_inv [OF assms] by blast
  with kick nb assms show ?thesis by (auto simp: nohz_idle_balance_def)
qed

lemma run_rebalance_domains_inv:
  assumes "lb_inv N C s"
  shows "\<exists>s'. run_rebalance_domains K s = Inr s' \<and> lb_inv N C s'"
proof -
  let ?c = "smp_processor_id K" let ?i = "if rq_idle_balance (rqs s ?c) then CPU_IDLE else CPU_NOT_IDLE"
  obtain t where t: "rebalance_domains K ?c ?i s = Inr t" "lb_inv N C t" using rebalance_domains_inv [OF assms] by blast
  from nohz_idle_balance_inv [OF t(2), of K ?c ?i] t(1) show ?thesis by (simp add: run_rebalance_domains_def Let_def)
qed

section \<open>The bookkeeping operations keep the invariant\<close>

lemma add_busy_frame [simp]:
  "rqs (add_busy x sds s) = rqs s" "weight (add_busy x sds s) = weight s" "cpus_allowed (add_busy x sds s) = cpus_allowed s"
  "task_cpu (add_busy x sds s) = task_cpu s" "nohz_idle_cpus_mask (add_busy x sds s) = nohz_idle_cpus_mask s"
  "nohz_nr_cpus (add_busy x sds s) = nohz_nr_cpus s" "domains (add_busy x sds s) = domains s"
  by (induction sds arbitrary: s) (simp_all split: list.split)

lemma add_busy_count: "nr_busy_cpus (sgps (add_busy x sds s) a) = nr_busy_cpus (sgps s a) + x * int (count_list (head_refs sds) a)"
  by (induction sds arbitrary: s) (auto simp: head_refs_def upd_sgp_def algebra_simps split: list.split)

lemma sum_idle_share:
  assumes "finite C" "c \<in> C" "\<And>c'. c' \<noteq> c \<Longrightarrow> idle_share t a c' = idle_share s a c'"
  shows "(\<Sum>c'\<in>C. idle_share t a c') = (\<Sum>c'\<in>C. idle_share s a c') - idle_share s a c + idle_share t a c"
  using assms by (simp add: sum.remove [of C c])

lemma busy_ok_flip:
  assumes "finite C" "c \<in> C" "busy_ok N C s" "NOHZ_IDLE (rqs s c) = (x = 1)" "x = 1 \<or> x = - 1"
  shows "busy_ok N C (add_busy x (domains s c) (upd_lb_rq c (\<lambda>q. q\<lparr>NOHZ_IDLE := (x = - 1)\<rparr>) s))"
proof -
  let ?t = "add_busy x (domains s c) (upd_lb_rq c (\<lambda>q. q\<lparr>NOHZ_IDLE := (x = - 1)\<rparr>) s)"
  have 1: "(\<Sum>c'\<in>C. idle_share ?t a c') = (\<Sum>c'\<in>C. idle_share s a c') - idle_share s a c + idle_share ?t a c" for a
    using assms(1,2) by (rule sum_idle_share) (simp add: idle_share_def upd_lb_rq_def)
  have 2: "nr_busy_cpus (sgps ?t a) = nr_busy_cpus (sgps s a) + x * int (count_list (head_refs (domains s c)) a)" for a
    by (simp add: add_busy_count upd_lb_rq_def)
  have 3: "idle_share ?t a c - idle_share s a c = - (x * int (count_list (head_refs (domains s c)) a))" for a
    using assms(4,5) by (auto simp: idle_share_def upd_lb_rq_def)
  have "nr_busy_cpus (sgps ?t a) + (\<Sum>c'\<in>C. idle_share ?t a c') = N a" for a
  proof -
    have "nr_busy_cpus (sgps s a) + (\<Sum>c'\<in>C. idle_share s a c') = N a" using assms(3) by (simp add: busy_ok_def)
    then show ?thesis using 1 [of a] 2 [of a] 3 [of a] by linarith
  qed
  then show ?thesis by (simp add: busy_ok_def)
qed

lemma set_cpu_sd_state_inv:
  assumes "finite C" "c \<in> C" "lb_inv N C s"
  shows "lb_inv N C (set_cpu_sd_state_busy c s)" "lb_inv N C (set_cpu_sd_state_idle c s)"
proof -
  have "lb_inv N C (add_busy x (domains s c) (upd_lb_rq c (\<lambda>q. q\<lparr>NOHZ_IDLE := (x = - 1)\<rparr>) s))"
    if "NOHZ_IDLE (rqs s c) = (x = 1)" "x = 1 \<or> x = - 1" for x
    using busy_ok_flip [OF assms(1,2) _ that] assms(3)
    by (auto simp: lb_inv_def queues_ok_def topology_ok_def has_local_group_def sd_of_def nohz_ok_def upd_lb_rq_def)
  from this [of 1] this [of "- 1"] assms(3)
  show "lb_inv N C (set_cpu_sd_state_busy c s)" "lb_inv N C (set_cpu_sd_state_idle c s)"
    by (simp_all add: set_cpu_sd_state_busy_def set_cpu_sd_state_idle_def)
qed

lemma lb_inv_nohz:
  assumes "lb_inv N C s" "nohz_ok t" "weight t = weight s" "cpus_allowed t = cpus_allowed s" "task_cpu t = task_cpu s" "sgps t = sgps s" "domains t = domains s"
    and "\<And>c. cfs_tasks (rqs t c) = cfs_tasks (rqs s c) \<and> load (rqs t c) = load (rqs s c) \<and> NOHZ_IDLE (rqs t c) = NOHZ_IDLE (rqs s c)"
  shows "lb_inv N C t"
proof -
  have "idle_share t a c = idle_share s a c" for a c using assms(7,8) by (simp add: idle_share_def)
  then have "busy_ok N C t" using assms(1,6) by (simp add: lb_inv_def busy_ok_def)
  then show ?thesis using assms by (simp add: lb_inv_def queues_ok_def topology_ok_def has_local_group_def sd_of_def)
qed

lemma nohz_ok_clear: "nohz_ok s \<Longrightarrow> nohz_ok (clear_nohz_tick_stopped c s)"
proof -
  assume ok: "nohz_ok s"
  have "length (removeAll c xs) + 1 = length xs" if "distinct xs" "c \<in> set xs" for xs :: "nat list"
    using that by (simp add: distinct_remove1_removeAll [symmetric] length_remove1) (metis Suc_pred length_pos_if_in_set)
  from this [of "nohz_idle_cpus_mask s"] ok show ?thesis
    by (auto simp: nohz_ok_def clear_nohz_tick_stopped_def cpumask_clear_cpu_def upd_lb_rq_def distinct_removeAll removeAll_filter_not_eq sorted_wrt_filter)
qed

lemma nohz_ok_select: "nohz_ok s \<Longrightarrow> nohz_ok (select_nohz_load_balancer K c b s)"
  by (auto simp: nohz_ok_def select_nohz_load_balancer_def cpumask_set_cpu_def upd_lb_rq_def sorted_insort distinct_insort set_insort_key)

lemma clear_nohz_inv:
  assumes "lb_inv N C s"
  shows "lb_inv N C (clear_nohz_tick_stopped c s)"
proof (rule lb_inv_nohz [OF assms])
  show "nohz_ok (clear_nohz_tick_stopped c s)" using assms by (simp add: lb_inv_def nohz_ok_clear)
qed (simp_all add: clear_nohz_tick_stopped_def upd_lb_rq_def)

lemma select_nohz_inv:
  assumes "lb_inv N C s"
  shows "lb_inv N C (select_nohz_load_balancer K c b s)"
proof (rule lb_inv_nohz [OF assms])
  show "nohz_ok (select_nohz_load_balancer K c b s)" using assms by (simp add: lb_inv_def nohz_ok_select)
qed (simp_all add: select_nohz_load_balancer_def upd_lb_rq_def)

lemma nohz_balancer_kick_keeps: "keeps_books s (nohz_balancer_kick K c s)"
  by (simp add: nohz_balancer_kick_def find_new_ilb_def Let_def keeps_books_def same_queues_def same_nohz_def same_topology_def)

lemma trigger_inv:
  assumes "finite C" "smp_processor_id K \<in> C" "lb_inv N C s"
  shows "lb_inv N C (trigger_load_balance K c s)"
proof -
  define t where "t = (if time_after_eq (jiffies K) (next_balance (rqs s c)) \<and> \<not> on_null_domain s c then s\<lparr>softirqs := smp_processor_id K # softirqs s\<rparr> else s)"
  have t: "lb_inv N C t"
    by (rule keeps_books_inv [OF _ assms(3)]) (simp add: t_def keeps_books_def same_queues_def same_nohz_def same_topology_def)
  have "lb_inv N C (snd (nohz_kick_needed K c t))"
    using t clear_nohz_inv [OF set_cpu_sd_state_inv(1) [OF assms(1,2) t]] by (auto simp: nohz_kick_needed_def Let_def)
  then show ?thesis using keeps_books_inv [OF nohz_balancer_kick_keeps]
    by (auto simp: trigger_load_balance_def Let_def t_def [symmetric] split: prod.split)
qed

lemma lb_event_inv: "lb_event C s s' \<Longrightarrow> finite C \<Longrightarrow> lb_inv N C s \<Longrightarrow> lb_inv N C s'"
proof (induction rule: lb_event.induct)
  case (softirq K s s')
  then show ?case using run_rebalance_domains_inv [of N C s K] by auto
next
  case (newidle K c s s')
  then show ?case using idle_balance_inv [of N C s K c] by auto
qed (auto simp: set_cpu_sd_state_inv select_nohz_inv trigger_inv clear_nohz_inv sched_ilb_notifier_def)

text \<open>The set of processors is finite, as part of the invariant.\<close>

interpretation nohz: step_invariant "lb_event C" "\<lambda>s. finite C \<and> lb_inv N C s"
  by unfold_locales (auto intro: lb_event_inv)

section \<open>Main results\<close>


lemma sys3_inv: "lb_inv (\<lambda>_. 0) {0, 1, 2} sys3"
  using sys3_ok by (auto simp: lb_inv_def topology_ok_def has_local_group_def sd_of_def sys3_def sd3_def nohz_ok_def idle_rq_def busy_ok_def idle_share_def)


text \<open>
  Without multi-core scheduling the search for a processor to balance on behalf of the tickless ones always comes up empty, so nobody is ever kicked: no tick sets the flag.
\<close>

lemma kick_flag_kept:
  "NOHZ_BALANCE_KICK (rqs (clear_nohz_tick_stopped c s) c') = NOHZ_BALANCE_KICK (rqs s c')"
  "NOHZ_BALANCE_KICK (rqs (set_cpu_sd_state_busy c s) c') = NOHZ_BALANCE_KICK (rqs s c')"
  "NOHZ_BALANCE_KICK (rqs (nohz_balancer_kick K c s) c') = NOHZ_BALANCE_KICK (rqs s c')"
  by (simp_all add: clear_nohz_tick_stopped_def set_cpu_sd_state_busy_def upd_lb_rq_def nohz_balancer_kick_def find_new_ilb_def Let_def)

lemma nohz_never_kicked: "NOHZ_BALANCE_KICK (rqs (trigger_load_balance K c s) c') = NOHZ_BALANCE_KICK (rqs s c')"
proof -
  have "NOHZ_BALANCE_KICK (rqs (snd (nohz_kick_needed K c t)) c') = NOHZ_BALANCE_KICK (rqs t c')" for t
    by (simp add: nohz_kick_needed_def Let_def kick_flag_kept)
  then show ?thesis by (simp add: trigger_load_balance_def Let_def kick_flag_kept case_prod_beta)
qed

end
