(* ===== verification/Task_Affinity.thy ===== *)
theory Task_Affinity
  imports Lb_Steps
begin

text \<open>
  Processor affinity (\<open>hw4/kernel/sched/core.c\<close>, \<open>CONFIG_SMP\<close>): changing the set of processors a task may run on,
  with the migration that it needs, the search for a processor when none is left, and the migration of all tasks off a processor that goes down.

  Tasks are fair ones (their class has no hook for affinity changes), so a task is on a run queue exactly when it is on the list
  of its processor. The mask of the cpuset of a task, the state of the processors and the choice of the next task are parameters.
\<close>

section \<open>Masks\<close>

record aff_conf =
  cpu_online_mask :: "nat list"
  cpu_possible_mask :: "nat list"
  node_cpus :: "nat \<Rightarrow> nat list" \<comment> \<open>\<open>cpumask_of_node(cpu_to_node(cpu))\<close>\<close>
  cpuset_fallback :: "nat \<Rightarrow> nat list" \<comment> \<open>what \<open>cpuset_cpus_allowed_fallback\<close> allows\<close>
  thread_bound :: "nat \<Rightarrow> bool" \<comment> \<open>\<open>PF_THREAD_BOUND\<close>\<close>
  aff_current :: nat

definition allowed_list :: "lb_conf \<Rightarrow> lb_sys \<Rightarrow> nat \<Rightarrow> nat list" where
  "allowed_list K s p = filter (cpus_allowed s p) [0..<nr_cpu_ids K]"

definition do_set_cpus_allowed :: "nat \<Rightarrow> nat list \<Rightarrow> lb_sys \<Rightarrow> lb_sys" where
  "do_set_cpus_allowed p m s =
    s\<lparr>cpus_allowed := (cpus_allowed s)(p := (\<lambda>c. c \<in> set m)), nr_cpus_allowed := (nr_cpus_allowed s)(p := length m)\<rparr>"

definition usable :: "lb_conf \<Rightarrow> aff_conf \<Rightarrow> nat \<Rightarrow> bool" where
  "usable K A c \<longleftrightarrow> c \<in> set (cpu_online_mask A) \<and> c \<in> set (cpu_active_mask K)"

section \<open>A processor for a task that has none left\<close>

datatype fb_state = Cpuset | Possible | Fail

function fallback_loop :: "lb_conf \<Rightarrow> aff_conf \<Rightarrow> nat \<Rightarrow> fb_state \<Rightarrow> lb_sys \<Rightarrow> (nat \<times> lb_sys) result" where
  "fallback_loop K A p st s =
    (case List.find (usable K A) (allowed_list K s p) of
       Some d \<Rightarrow> Inr (d, s)
     | None \<Rightarrow>
         (case st of
            Cpuset \<Rightarrow> fallback_loop K A p Possible (do_set_cpus_allowed p (cpuset_fallback A p) s)
          | Possible \<Rightarrow> fallback_loop K A p Fail (do_set_cpus_allowed p (cpu_possible_mask A) s)
          | Fail \<Rightarrow> Inl Bug))"
  by pat_completeness auto

termination
  by (relation "measure (\<lambda>(K, A, p, st, s). case st of Cpuset \<Rightarrow> 2 | Possible \<Rightarrow> 1 | Fail \<Rightarrow> (0 :: nat))") auto

declare fallback_loop.simps [simp del]

definition select_fallback_rq :: "lb_conf \<Rightarrow> aff_conf \<Rightarrow> nat \<Rightarrow> nat \<Rightarrow> lb_sys \<Rightarrow> (nat \<times> lb_sys) result" where
  "select_fallback_rq K A c p s =
    (case List.find (\<lambda>d. usable K A d \<and> cpus_allowed s p d) (node_cpus A c) of
       Some d \<Rightarrow> Inr (d, s)
     | None \<Rightarrow> fallback_loop K A p Cpuset s)"

section \<open>Migration\<close>

definition migrate_task :: "lb_conf \<Rightarrow> nat \<Rightarrow> nat \<Rightarrow> nat \<Rightarrow> lb_sys \<Rightarrow> bool \<times> lb_sys" where
  "migrate_task K p src dest s =
    (if dest \<notin> set (cpu_active_mask K) then (False, s)
     else if task_cpu s p \<noteq> src then (True, s)
     else if \<not> cpus_allowed s p dest then (False, s)
     else if lb_queued s p then
       let s = lb_dequeue src p s;
           s = s\<lparr>task_cpu := (task_cpu s)(p := dest)\<rparr>;
           s = lb_enqueue dest p s;
           s = (if check_preempt K dest p s then s\<lparr>need_resched := (need_resched s)(dest := True)\<rparr> else s)
       in (True, if notify_on_migrate s p then s\<lparr>notified := (dest, src) # notified s\<rparr> else s)
     else (True, s))"

definition migration_cpu_stop :: "lb_conf \<Rightarrow> nat \<Rightarrow> nat \<Rightarrow> nat \<Rightarrow> lb_sys \<Rightarrow> lb_sys" where
  "migration_cpu_stop K this_cpu p dest s = snd (migrate_task K p this_cpu dest s)"

text \<open>The stopper thread preempts whatever runs on the processor and is the current task when the work is done.\<close>

definition stop_one_cpu :: "nat \<Rightarrow> (lb_sys \<Rightarrow> lb_sys) \<Rightarrow> lb_sys \<Rightarrow> lb_sys" where
  "stop_one_cpu c f s = f (upd_lb_rq c (\<lambda>q. q\<lparr>rq_curr := rq_stop q\<rparr>) s)"

definition set_cpus_allowed_ptr :: "lb_conf \<Rightarrow> aff_conf \<Rightarrow> nat \<Rightarrow> nat list \<Rightarrow> lb_sys \<Rightarrow> int \<times> lb_sys" where
  "set_cpus_allowed_ptr K A p m s =
    (if \<forall>c\<in>set [0..<nr_cpu_ids K]. cpus_allowed s p c = (c \<in> set m) then (0, s)
     else if filter (\<lambda>c. c \<in> set m) (cpu_active_mask K) = [] then (- EINVAL, s)
     else if thread_bound A p \<and> p \<noteq> aff_current A then (- EINVAL, s)
     else
       let s = do_set_cpus_allowed p m s
       in if task_cpu s p \<in> set m then (0, s)
          else
            let dest_cpu = hd (filter (\<lambda>c. c \<in> set m) (cpu_active_mask K)); c = task_cpu s p
            in if lb_queued s p then (0, stop_one_cpu c (migration_cpu_stop K c p dest_cpu) s) else (0, s))"

section \<open>A processor goes down\<close>

text \<open>\<open>pick\<close> stands for \<open>pick_next_task\<close>.\<close>

partial_function (option) migrate_tasks ::
  "lb_conf \<Rightarrow> aff_conf \<Rightarrow> (lb_sys \<Rightarrow> nat \<Rightarrow> nat option) \<Rightarrow> nat \<Rightarrow> lb_sys \<Rightarrow> lb_sys result option" where
  "migrate_tasks K A pick dead s =
    (if nr_running (rqs s dead) = 1 then Some (Inr s)
     else case pick s dead of
       None \<Rightarrow> Some (Inl Bug)
     | Some p \<Rightarrow>
         (case select_fallback_rq K A dead p s of
            Inl f \<Rightarrow> Some (Inl f)
          | Inr ds \<Rightarrow> migrate_tasks K A pick dead (snd (migrate_task K p dead (fst ds) (snd ds)))))"

section \<open>System calls\<close>

definition ENOMEM_aff :: int where [errno_defs]: "ENOMEM_aff = 12"

text \<open>
  What the calls find around them: \<open>cpuset i\<close> is the answer of the \<open>i\<close>-th question for the mask of the cpuset of the task, which may change
  under the call.
\<close>

record aff_env =
  find_process_by_pid :: "nat \<Rightarrow> nat option"
  alloc_ok :: "bool \<times> bool"
  permitted :: "nat \<Rightarrow> bool" \<comment> \<open>same owner or \<open>CAP_SYS_NICE\<close>\<close>
  security_set :: "nat \<Rightarrow> int"
  security_get :: "nat \<Rightarrow> int"
  cpuset :: "nat \<Rightarrow> nat list"

partial_function (option) affinity_again ::
  "lb_conf \<Rightarrow> aff_conf \<Rightarrow> aff_env \<Rightarrow> nat \<Rightarrow> nat \<Rightarrow> nat list \<Rightarrow> lb_sys \<Rightarrow> (int \<times> lb_sys) option" where
  "affinity_again K A E p i m s =
    (let r = set_cpus_allowed_ptr K A p m s
     in if fst r \<noteq> 0 then Some r
        else if set m \<subseteq> set (cpuset E i) then Some r
        else affinity_again K A E p (Suc i) (cpuset E i) (snd r))"

definition sched_setaffinity :: "lb_conf \<Rightarrow> aff_conf \<Rightarrow> aff_env \<Rightarrow> nat \<Rightarrow> nat list \<Rightarrow> lb_sys \<Rightarrow> (int \<times> lb_sys) option" where
  "sched_setaffinity K A E pid in_mask s =
    (case find_process_by_pid E pid of
       None \<Rightarrow> Some (- ESRCH, s)
     | Some p \<Rightarrow>
         if \<not> fst (alloc_ok E) then Some (- ENOMEM_aff, s)
         else if \<not> snd (alloc_ok E) then Some (- ENOMEM_aff, s)
         else if \<not> permitted E p then Some (- EPERM, s)
         else if security_set E p \<noteq> 0 then Some (security_set E p, s)
         else affinity_again K A E p 1 (filter (\<lambda>c. c \<in> set (cpuset E 0)) in_mask) s)"

definition sched_getaffinity :: "lb_conf \<Rightarrow> aff_conf \<Rightarrow> aff_env \<Rightarrow> nat \<Rightarrow> lb_sys \<Rightarrow> int + nat list" where
  "sched_getaffinity K A E pid s =
    (case find_process_by_pid E pid of
       None \<Rightarrow> Inl (- ESRCH)
     | Some p \<Rightarrow> if security_get E p \<noteq> 0 then Inl (security_get E p)
                 else Inr (filter (\<lambda>c. c \<in> set (cpu_online_mask A)) (allowed_list K s p)))"

text \<open>
  The user's mask is a sequence of bits (\<open>None\<close>: the memory cannot be read); \<open>sz\<close> is \<open>cpumask_size()\<close> in bytes.
\<close>

definition get_user_cpu_mask :: "nat \<Rightarrow> (nat \<Rightarrow> bool) option \<Rightarrow> nat \<Rightarrow> int + nat list" where
  "get_user_cpu_mask sz user len =
    (let n = (if len > sz then sz else len)
     in case user of None \<Rightarrow> Inl (- EFAULT) | Some bits \<Rightarrow> Inr (filter bits [0..<8 * n]))"

definition sys_sched_setaffinity ::
  "lb_conf \<Rightarrow> aff_conf \<Rightarrow> aff_env \<Rightarrow> nat \<Rightarrow> bool \<Rightarrow> nat \<Rightarrow> nat \<Rightarrow> (nat \<Rightarrow> bool) option \<Rightarrow> lb_sys \<Rightarrow> (int \<times> lb_sys) option" where
  "sys_sched_setaffinity K A E sz mask_ok pid len user s =
    (if \<not> mask_ok then Some (- ENOMEM_aff, s)
     else case get_user_cpu_mask sz user len of
       Inl e \<Rightarrow> Some (e, s)
     | Inr m \<Rightarrow> sched_setaffinity K A E pid m s)"

text \<open>The return value and the mask written to the user.\<close>

definition sys_sched_getaffinity ::
  "lb_conf \<Rightarrow> aff_conf \<Rightarrow> aff_env \<Rightarrow> nat \<Rightarrow> bool \<Rightarrow> bool \<Rightarrow> nat \<Rightarrow> u32 \<Rightarrow> lb_sys \<Rightarrow> int \<times> nat list option" where
  "sys_sched_getaffinity K A E sz mask_ok writable pid len s =
    (if unat (len * 8) < nr_cpu_ids K then (- EINVAL, None)
     else if unat len mod 4 \<noteq> 0 then (- EINVAL, None)
     else if \<not> mask_ok then (- ENOMEM_aff, None)
     else case sched_getaffinity K A E pid s of
       Inl e \<Rightarrow> (e, None)
     | Inr m \<Rightarrow>
         let retlen = min (unat len) sz
         in if writable then (int retlen, Some (filter (\<lambda>c. c < 8 * retlen) m)) else (- EFAULT, None))"

section \<open>The invariant, with one task that may be in the wrong place\<close>

definition queues_but :: "nat \<Rightarrow> lb_sys \<Rightarrow> bool" where
  "queues_but p s \<longleftrightarrow>
    (\<forall>c. distinct (cfs_tasks (rqs s c)) \<and> (\<forall>q\<in>set (cfs_tasks (rqs s c)). task_cpu s q = c \<and> (q \<noteq> p \<longrightarrow> cpus_allowed s q c))
      \<and> load (rqs s c) = (\<Sum>q\<leftarrow>cfs_tasks (rqs s c). weight s q))"

lemma queues_ok_but: "queues_ok s \<longleftrightarrow> queues_but p s \<and> (lb_queued s p \<longrightarrow> cpus_allowed s p (task_cpu s p))"
  unfolding queues_ok_def queues_but_def lb_queued_def by metis

lemma queues_but_frame [simp]:
  "queues_but p (do_set_cpus_allowed p m s) = queues_but p s"
  "queues_but p (upd_lb_rq c (\<lambda>q. q\<lparr>rq_curr := rq_stop q\<rparr>) s) = queues_but p s"
  by (auto simp: queues_but_def do_set_cpus_allowed_def upd_lb_rq_def)

text \<open>Only the processor and the mask of \<open>p\<close> change, and nobody leaves or enters the run queues.\<close>

definition only_task :: "nat \<Rightarrow> lb_sys \<Rightarrow> lb_sys \<Rightarrow> bool" where
  "only_task p s s' \<longleftrightarrow> (\<forall>q. lb_queued s' q = lb_queued s q) \<and> (\<forall>q. q \<noteq> p \<longrightarrow> task_cpu s' q = task_cpu s q \<and> cpus_allowed s' q = cpus_allowed s q)
    \<and> weight s' = weight s"

lemma only_task_refl [simp]: "only_task p s s"
  by (simp add: only_task_def)

lemma only_task_trans: "only_task p s t \<Longrightarrow> only_task p t u \<Longrightarrow> only_task p s u"
  by (simp add: only_task_def)

lemma only_task_frame [simp]:
  "only_task p s (do_set_cpus_allowed p m t) = only_task p s t"
  "only_task p s (upd_lb_rq c (\<lambda>q. q\<lparr>rq_curr := rq_stop q\<rparr>) t) = only_task p s t"
  by (auto simp: only_task_def do_set_cpus_allowed_def upd_lb_rq_def lb_queued_def)

lemma migrate_task_moved:
  assumes "dest \<in> set (cpu_active_mask K)" "task_cpu s p = src" "cpus_allowed s p dest" "lb_queued s p"
  shows "same_queues (transfer src dest p s) (snd (migrate_task K p src dest s))"
  using assms by (simp add: migrate_task_def transfer_def same_queues_def same_nohz_def Let_def)

lemma queues_but_home: "queues_but p s \<Longrightarrow> q \<in> set (cfs_tasks (rqs s c)) \<Longrightarrow> task_cpu s q = c"
  by (simp add: queues_but_def)

lemma transfer_but:
  assumes "queues_but p s" "p \<in> set (cfs_tasks (rqs s src))" "cpus_allowed s p dst" "src \<noteq> dst"
  shows "queues_ok (transfer src dst p s)" "only_task p s (transfer src dst p s)"
    "cfs_tasks (rqs (transfer src dst p s) src) = remove1 p (cfs_tasks (rqs s src))"
    "nr_running (rqs (transfer src dst p s) src) = nr_running (rqs s src) - 1"
proof -
  have home: "p \<in> set (cfs_tasks (rqs s c)) \<longleftrightarrow> c = src" for c
    using assms(1,2) by (auto dest: queues_but_home)
  show "queues_ok (transfer src dst p s)"
    using assms home
    by (auto simp: queues_ok_def queues_but_def transfer_def lb_dequeue_def lb_enqueue_def upd_lb_rq_def Let_def sum_remove1 distinct_remove1
        dest: notin_set_remove1)
  show "only_task p s (transfer src dst p s)"
  proof -
    have "task_cpu s p = src" using assms(1,2) by (rule queues_but_home)
    then have "lb_queued (transfer src dst p s) q = lb_queued s q" for q
      using assms(2) by (cases "q = p") (simp_all add: lb_queued_def transfer_def lb_dequeue_def lb_enqueue_def upd_lb_rq_def Let_def in_set_remove1)
    then show ?thesis by (simp add: only_task_def) (simp add: transfer_def lb_dequeue_def lb_enqueue_def upd_lb_rq_def Let_def)
  qed
  show "cfs_tasks (rqs (transfer src dst p s) src) = remove1 p (cfs_tasks (rqs s src))"
    "nr_running (rqs (transfer src dst p s) src) = nr_running (rqs s src) - 1"
    using assms(4) by (simp_all add: transfer_def lb_dequeue_def lb_enqueue_def upd_lb_rq_def Let_def)
qed

lemma same_queues_only_task: "same_queues s s' \<Longrightarrow> only_task p s s'"
  by (simp add: same_queues_def only_task_def lb_queued_def)

text \<open>Moving the misplaced task to a processor it may run on restores the invariant.\<close>

lemma migrate_task_restores:
  assumes "queues_but p s" "lb_queued s p" "task_cpu s p = src" "cpus_allowed s p dest" "src \<noteq> dest" "dest \<in> set (cpu_active_mask K)"
  shows "queues_ok (snd (migrate_task K p src dest s))" "only_task p s (snd (migrate_task K p src dest s))"
    "task_cpu (snd (migrate_task K p src dest s)) p = dest" "cpus_allowed (snd (migrate_task K p src dest s)) = cpus_allowed s"
    "cfs_tasks (rqs (snd (migrate_task K p src dest s)) src) = remove1 p (cfs_tasks (rqs s src))"
    "nr_running (rqs (snd (migrate_task K p src dest s)) src) = nr_running (rqs s src) - 1"
proof -
  have p: "p \<in> set (cfs_tasks (rqs s src))" using assms(2,3) by (simp add: lb_queued_def)
  note t = transfer_but [OF assms(1) p assms(4,5)] and m = migrate_task_moved [OF assms(6,3,4,2)]
  show "queues_ok (snd (migrate_task K p src dest s))" using m t(1) by (rule same_queues_ok)
  show "only_task p s (snd (migrate_task K p src dest s))" using t(2) same_queues_only_task [OF m] by (rule only_task_trans)
  show "task_cpu (snd (migrate_task K p src dest s)) p = dest" "cpus_allowed (snd (migrate_task K p src dest s)) = cpus_allowed s"
    using m by (simp_all add: same_queues_def transfer_def lb_dequeue_def lb_enqueue_def upd_lb_rq_def Let_def)
  show "cfs_tasks (rqs (snd (migrate_task K p src dest s)) src) = remove1 p (cfs_tasks (rqs s src))"
    "nr_running (rqs (snd (migrate_task K p src dest s)) src) = nr_running (rqs s src) - 1"
    using m t(3,4) by (simp_all add: same_queues_def)
qed

section \<open>Changing the affinity\<close>

lemma set_cpus_allowed_ptr_spec:
  assumes "set_cpus_allowed_ptr K A p m s = (r, s')" "queues_ok s"
  shows "queues_ok s' \<and> only_task p s s' \<and> (if r = 0 then \<forall>c < nr_cpu_ids K. cpus_allowed s' p c = (c \<in> set m) else r = - EINVAL \<and> s' = s)"
proof (cases "(\<forall>c\<in>set [0..<nr_cpu_ids K]. cpus_allowed s p c = (c \<in> set m)) \<or> filter (\<lambda>c. c \<in> set m) (cpu_active_mask K) = [] \<or> thread_bound A p \<and> p \<noteq> aff_current A")
  case True
  then show ?thesis using assms by (auto simp: set_cpus_allowed_ptr_def EINVAL_def split: if_splits)
next
  case False
  define t where "t = do_set_cpus_allowed p m s"
  define d where "d = hd (filter (\<lambda>c. c \<in> set m) (cpu_active_mask K))"
  have d: "d \<in> set m" "d \<in> set (cpu_active_mask K)" using False hd_in_set [of "filter (\<lambda>c. c \<in> set m) (cpu_active_mask K)"] by (auto simp: d_def)
  have t: "queues_but p t" "only_task p s t" "cpus_allowed t p = (\<lambda>c. c \<in> set m)" "task_cpu t = task_cpu s"
    using assms(2) by (auto simp: t_def queues_ok_but [of s p]) (simp_all add: do_set_cpus_allowed_def)
  show ?thesis
  proof (cases "task_cpu t p \<in> set m \<or> \<not> lb_queued t p")
    case True
    then have "queues_ok t" using t by (auto simp: queues_ok_but [of t p])
    moreover have "r = 0" "s' = t" using assms(1) False True by (auto simp: set_cpus_allowed_ptr_def Let_def t_def [symmetric] split: if_splits)
    ultimately show ?thesis using t by simp
  next
    case wrong: False
    define u where "u = upd_lb_rq (task_cpu t p) (\<lambda>q. q\<lparr>rq_curr := rq_stop q\<rparr>) t"
    have r: "r = 0" "s' = snd (migrate_task K p (task_cpu t p) d u)"
      using assms(1) False wrong
      by (auto simp: set_cpus_allowed_ptr_def Let_def t_def [symmetric] d_def [symmetric] stop_one_cpu_def migration_cpu_stop_def u_def [symmetric] split: if_splits)
    have u: "queues_but p u" "only_task p s u" "cpus_allowed u p = (\<lambda>c. c \<in> set m)" "task_cpu u p = task_cpu t p" "lb_queued u p"
      using t wrong by (simp_all add: u_def) (simp_all add: upd_lb_rq_def lb_queued_def)
    note mig = migrate_task_restores [OF u(1,5,4) _ _ d(2)]
    have "cpus_allowed u p d" "task_cpu t p \<noteq> d" using u(3) d wrong by auto
    note mig = mig [OF this]
    show ?thesis using mig(1,4) only_task_trans [OF u(2) mig(2)] u(3) r by simp
  qed
qed

section \<open>A processor for every task\<close>

lemma find_usable_None: "List.find P xs = None \<Longrightarrow> x \<in> set xs \<Longrightarrow> \<not> P x"
  by (auto simp: find_None_iff)

lemma find_usable_Some: "List.find P xs = Some x \<Longrightarrow> P x \<and> x \<in> set xs"
  by (auto simp: find_Some_iff)

lemma set_allowed_list: "c \<in> set (allowed_list K s p) \<longleftrightarrow> cpus_allowed s p c \<and> c < nr_cpu_ids K"
  by (auto simp: allowed_list_def)

text \<open>\<open>d\<close> is a processor for \<open>p\<close>, and only the mask of \<open>p\<close> was changed to find it.\<close>

definition placed :: "lb_conf \<Rightarrow> aff_conf \<Rightarrow> nat \<Rightarrow> lb_sys \<Rightarrow> nat \<Rightarrow> lb_sys \<Rightarrow> bool" where
  "placed K A p s d s' \<longleftrightarrow> usable K A d \<and> cpus_allowed s' p d \<and> only_task p s s' \<and> task_cpu s' = task_cpu s \<and> rqs s' = rqs s
    \<and> (queues_but p s \<longrightarrow> queues_but p s')"

lemma placed_here: "usable K A d \<Longrightarrow> cpus_allowed s p d \<Longrightarrow> placed K A p s d s"
  by (simp add: placed_def)

lemma placed_after: "placed K A p (do_set_cpus_allowed p m s) d s' \<Longrightarrow> placed K A p s d s'"
  using only_task_trans [of p s "do_set_cpus_allowed p m s" s'] by (simp add: placed_def) (simp add: do_set_cpus_allowed_def)

lemma fallback_loop_spec:
  assumes "\<exists>c < nr_cpu_ids K. usable K A c \<and> (if st = Fail then cpus_allowed s p c else c \<in> set (cpu_possible_mask A))"
  shows "\<exists>d s'. fallback_loop K A p st s = Inr (d, s') \<and> placed K A p s d s'"
  using assms
proof (induction K A p st s rule: fallback_loop.induct)
  case (1 K A p st s)
  note unfold = fallback_loop.simps [of K A p _ s]
  show ?case
  proof (cases "List.find (usable K A) (allowed_list K s p)")
    case (Some d)
    with find_usable_Some [OF Some] placed_here show ?thesis by (simp add: unfold set_allowed_list)
  next
    case None
    show ?thesis
    proof (cases st)
      case Cpuset
      have "\<exists>d s'. fallback_loop K A p Possible (do_set_cpus_allowed p (cpuset_fallback A p) s) = Inr (d, s') \<and> placed K A p (do_set_cpus_allowed p (cpuset_fallback A p) s) d s'"
        using 1(3) Cpuset by (intro 1(1) [OF None Cpuset]) simp
      then show ?thesis using placed_after by (auto simp: unfold None Cpuset)
    next
      case Possible
      have "\<exists>c < nr_cpu_ids K. usable K A c \<and> cpus_allowed (do_set_cpus_allowed p (cpu_possible_mask A) s) p c"
        using 1(3) Possible by (auto simp: do_set_cpus_allowed_def)
      then have "\<exists>d s'. fallback_loop K A p Fail (do_set_cpus_allowed p (cpu_possible_mask A) s) = Inr (d, s') \<and> placed K A p (do_set_cpus_allowed p (cpu_possible_mask A) s) d s'"
        by (intro 1(2) [OF None Possible]) simp
      then show ?thesis using placed_after by (auto simp: unfold None Possible)
    next
      case Fail
      with 1(3) find_usable_None [OF None] show ?thesis by (auto simp: set_allowed_list)
    qed
  qed
qed

lemma select_fallback_rq_spec:
  assumes "\<exists>c < nr_cpu_ids K. usable K A c \<and> c \<in> set (cpu_possible_mask A)"
  shows "\<exists>d s'. select_fallback_rq K A c p s = Inr (d, s') \<and> placed K A p s d s'"
proof (cases "List.find (\<lambda>d. usable K A d \<and> cpus_allowed s p d) (node_cpus A c)")
  case None
  then show ?thesis using fallback_loop_spec [of K A Cpuset s p] assms by (simp add: select_fallback_rq_def)
next
  case (Some d)
  from find_usable_Some [OF this] placed_here Some show ?thesis by (simp add: select_fallback_rq_def)
qed

lemma select_fallback_rq_keeps_mask:
  assumes "c' < nr_cpu_ids K" "usable K A c'" "cpus_allowed s p c'" "select_fallback_rq K A c p s = Inr (d, s')"
  shows "s' = s"
proof (cases "List.find (\<lambda>d. usable K A d \<and> cpus_allowed s p d) (node_cpus A c)")
  case None
  obtain d' where "List.find (usable K A) (allowed_list K s p) = Some d'"
    using assms(1-3) find_usable_None [of "usable K A" "allowed_list K s p" c'] by (cases "List.find (usable K A) (allowed_list K s p)") (auto simp: set_allowed_list)
  with assms(4) None show ?thesis by (simp add: select_fallback_rq_def fallback_loop.simps [of K A p Cpuset s])
qed (use assms(4) in \<open>simp add: select_fallback_rq_def\<close>)

section \<open>All tasks leave a processor that goes down\<close>

lemma migrate_tasks_spec:
  assumes "queues_ok s" "length (cfs_tasks (rqs s dead)) = n" "nr_running (rqs s dead) = of_nat n + 1" "n < 2 ^ 32 - 1"
    and "dead \<notin> set (cpu_active_mask K)" "\<exists>c < nr_cpu_ids K. usable K A c \<and> c \<in> set (cpu_possible_mask A)"
    and "\<And>t. cfs_tasks (rqs t dead) \<noteq> [] \<Longrightarrow> \<exists>p\<in>set (cfs_tasks (rqs t dead)). pick t dead = Some p"
  shows "\<exists>s'. migrate_tasks K A pick dead s = Some (Inr s') \<and> queues_ok s' \<and> cfs_tasks (rqs s' dead) = [] \<and> nr_running (rqs s' dead) = 1
    \<and> (\<forall>q. lb_queued s' q = lb_queued s q)"
  using assms(1-4)
proof (induction n arbitrary: s)
  case 0
  then show ?case by (subst migrate_tasks.simps) simp
next
  case (Suc n)
  obtain p where p: "p \<in> set (cfs_tasks (rqs s dead))" "pick s dead = Some p" using assms(7) [of s] Suc.prems(2) by fastforce
  obtain d t where t: "select_fallback_rq K A dead p s = Inr (d, t)" "placed K A p s d t"
    using select_fallback_rq_spec [OF assms(6)] by blast
  have run: "nr_running (rqs s dead) \<noteq> 1"
  proof
    assume "nr_running (rqs s dead) = 1"
    then have "(of_nat (Suc n) :: ulong) = 0" using Suc.prems(3) by simp
    then have "unat (of_nat (Suc n) :: ulong) = 0" by simp
    then show False using Suc.prems(4) by (simp add: unat_of_nat del: of_nat_Suc)
  qed
  define u where "u = snd (migrate_task K p dead d t)"
  have home: "task_cpu t p = dead" "lb_queued t p" "d \<noteq> dead" "d \<in> set (cpu_active_mask K)" "cpus_allowed t p d" "queues_but p t"
    using t(2) p(1) queues_ok_home [OF Suc.prems(1) p(1)] assms(5) Suc.prems(1) by (auto simp: placed_def lb_queued_def usable_def queues_ok_but [of s p])
  note m = migrate_task_restores [OF home(6,2,1,5) home(3) [symmetric] home(4), folded u_def]
  have "rqs t = rqs s" "only_task p s t" using t(2) by (simp_all add: placed_def)
  then have u: "queues_ok u" "only_task p s u" "length (cfs_tasks (rqs u dead)) = n" "nr_running (rqs u dead) = of_nat n + 1"
    using m(1,5,6) only_task_trans [OF _ m(2)] p(1) Suc.prems(2,3) by (simp_all add: length_remove1)
  have "migrate_tasks K A pick dead s = migrate_tasks K A pick dead u"
    using run by (subst migrate_tasks.simps) (simp add: p(2) t(1) u_def)
  moreover have "n < 2 ^ 32 - 1" using Suc.prems(4) by simp
  ultimately show ?case using Suc.IH [OF u(1,3,4)] u(2) by (auto simp: only_task_def)
qed

section \<open>The loop against concurrent changes of the cpuset\<close>

definition affine :: "lb_conf \<Rightarrow> aff_env \<Rightarrow> nat \<Rightarrow> lb_sys \<Rightarrow> int \<Rightarrow> lb_sys \<Rightarrow> bool" where
  "affine K E p s r s' \<longleftrightarrow> queues_ok s' \<and> only_task p s s'
    \<and> (if r = 0 then \<exists>i. \<forall>c < nr_cpu_ids K. cpus_allowed s' p c \<longrightarrow> c \<in> set (cpuset E i) else r = - EINVAL)"

lemma affinity_again_stable:
  assumes "set m \<subseteq> set (cpuset E i)" "queues_ok s"
  shows "affinity_again K A E p i m s = Some (set_cpus_allowed_ptr K A p m s)
    \<and> affine K E p s (fst (set_cpus_allowed_ptr K A p m s)) (snd (set_cpus_allowed_ptr K A p m s))"
proof -
  obtain r s' where r: "set_cpus_allowed_ptr K A p m s = (r, s')" by (cases "set_cpus_allowed_ptr K A p m s")
  from set_cpus_allowed_ptr_spec [OF r assms(2)] assms(1) have "affine K E p s r s'"
    unfolding affine_def by (cases "r = 0") (auto simp: EINVAL_def)
  then show ?thesis using assms(1) by (subst affinity_again.simps) (simp add: r Let_def)
qed

lemma affinity_again_step:
  assumes "queues_ok s" "\<And>t. queues_ok t \<Longrightarrow> \<exists>r s'. affinity_again K A E p (Suc i) (cpuset E i) t = Some (r, s') \<and> affine K E p t r s'"
  shows "\<exists>r s'. affinity_again K A E p i m s = Some (r, s') \<and> affine K E p s r s'"
proof (cases "set m \<subseteq> set (cpuset E i)")
  case True
  from affinity_again_stable [OF this assms(1), of K A p] show ?thesis by (cases "set_cpus_allowed_ptr K A p m s") simp
next
  case False
  obtain r t where r: "set_cpus_allowed_ptr K A p m s = (r, t)" by (cases "set_cpus_allowed_ptr K A p m s")
  note spec = set_cpus_allowed_ptr_spec [OF r assms(1)]
  show ?thesis
  proof (cases "r = 0")
    case True
    with assms(2) [of t] spec obtain r' s' where "affinity_again K A E p (Suc i) (cpuset E i) t = Some (r', s')" "affine K E p t r' s'" by auto
    moreover have "affinity_again K A E p i m s = affinity_again K A E p (Suc i) (cpuset E i) t"
      using False True by (subst affinity_again.simps) (simp add: r Let_def)
    moreover have "affine K E p s r' s'" using calculation(2) spec only_task_trans [of p s t s'] by (simp add: affine_def)
    ultimately show ?thesis by metis
  next
    case False
    then have "affinity_again K A E p i m s = Some (r, t)" by (subst affinity_again.simps) (simp add: r Let_def)
    moreover have "affine K E p s r t" using False spec by (auto simp: affine_def)
    ultimately show ?thesis by blast
  qed
qed

lemma affinity_again_spec:
  assumes "\<forall>j\<ge>N. cpuset E j = cpuset E N" "queues_ok s"
  shows "\<exists>r s'. affinity_again K A E p i m s = Some (r, s') \<and> affine K E p s r s'"
  using assms(2)
proof (induction "N - i" arbitrary: i m s)
  case 0
  have "cpuset E i = cpuset E N" "cpuset E (Suc i) = cpuset E N" using 0 by (intro assms(1) [rule_format]; simp)+
  then have sub: "set (cpuset E i) \<subseteq> set (cpuset E (Suc i))" by simp
  have ret: "\<exists>r s'. affinity_again K A E p (Suc i) (cpuset E i) t = Some (r, s') \<and> affine K E p t r s'" if "queues_ok t" for t
    using affinity_again_stable [OF sub that, of K A p] by (cases "set_cpus_allowed_ptr K A p (cpuset E i) t") simp
  show ?case by (rule affinity_again_step [OF 0(2) ret])
next
  case (Suc k)
  have "k = N - Suc i" using Suc.hyps(2) by simp
  then show ?case by (intro affinity_again_step [OF Suc.prems Suc.hyps(1)])
qed

lemma getaffinity_mask:
  assumes "find_process_by_pid E pid = Some p" "security_get E p = 0" "\<forall>c < nr_cpu_ids K. cpus_allowed s p c = (c \<in> set m \<and> c \<in> set n)"
  shows "sched_getaffinity K A E pid s = Inr (filter (\<lambda>c. c \<in> set m \<and> c \<in> set n \<and> c \<in> set (cpu_online_mask A)) [0..<nr_cpu_ids K])"
  using assms(3) by (auto simp: sched_getaffinity_def assms(1,2) allowed_list_def intro: filter_cong)

lemma setaffinity_full:
  assumes "queues_ok s" "\<forall>j\<ge>N. cpuset E j = cpuset E N"
  shows "\<exists>r s'. sched_setaffinity K A E pid m s = Some (r, s') \<and> queues_ok s'
    \<and> (r = 0 \<and> N = 0 \<and> find_process_by_pid E pid = Some p \<and> security_get E p = 0 \<longrightarrow>
        sched_getaffinity K A E pid s' = Inr (filter (\<lambda>c. c \<in> set m \<and> c \<in> set (cpuset E 0) \<and> c \<in> set (cpu_online_mask A)) [0..<nr_cpu_ids K]))"
proof (cases "\<exists>q. find_process_by_pid E pid = Some q \<and> fst (alloc_ok E) \<and> snd (alloc_ok E) \<and> permitted E q \<and> security_set E q = 0")
  case False
  then have "\<exists>r. sched_setaffinity K A E pid m s = Some (r, s) \<and> r \<noteq> 0"
    by (cases "find_process_by_pid E pid") (auto simp: sched_setaffinity_def errno_defs)
  with assms(1) show ?thesis by auto
next
  case True
  then obtain q where q: "find_process_by_pid E pid = Some q" and
    eq: "sched_setaffinity K A E pid m s = affinity_again K A E q 1 (filter (\<lambda>c. c \<in> set (cpuset E 0)) m) s"
    by (auto simp: sched_setaffinity_def)
  obtain r s' where r: "affinity_again K A E q 1 (filter (\<lambda>c. c \<in> set (cpuset E 0)) m) s = Some (r, s')" "affine K E q s r s'"
    using affinity_again_spec [OF assms(2,1)] by blast
  have "sched_getaffinity K A E pid s' = Inr (filter (\<lambda>c. c \<in> set m \<and> c \<in> set (cpuset E 0) \<and> c \<in> set (cpu_online_mask A)) [0..<nr_cpu_ids K])"
    if "r = 0" "N = 0" "security_get E q = 0"
  proof -
    have "cpuset E 1 = cpuset E 0" using assms(2) that(2) by simp
    then have "set (filter (\<lambda>c. c \<in> set (cpuset E 0)) m) \<subseteq> set (cpuset E 1)" by auto
    from affinity_again_stable [OF this assms(1), of K A q] r(1) have "set_cpus_allowed_ptr K A q (filter (\<lambda>c. c \<in> set (cpuset E 0)) m) s = (r, s')" by simp
    from set_cpus_allowed_ptr_spec [OF this assms(1)] that(1) have "\<forall>c < nr_cpu_ids K. cpus_allowed s' q c = (c \<in> set m \<and> c \<in> set (cpuset E 0))" by auto
    then show ?thesis by (rule getaffinity_mask [OF q that(3)])
  qed
  with q eq r show ?thesis by (auto simp: affine_def)
qed

section \<open>Main results\<close>

definition aff3 :: aff_conf where
  "aff3 = \<lparr>cpu_online_mask = [0, 1, 2], cpu_possible_mask = [0, 1, 2], node_cpus = (\<lambda>_. [0, 1, 2]), cpuset_fallback = (\<lambda>_. [0, 1, 2]),
    thread_bound = (\<lambda>_. False), aff_current = 21\<rparr>"

definition env_aff3 :: aff_env where
  "env_aff3 = \<lparr>find_process_by_pid = (\<lambda>n. if n = 22 then Some 22 else None), alloc_ok = (True, True), permitted = (\<lambda>_. True),
    security_set = (\<lambda>_. 0), security_get = (\<lambda>_. 0), cpuset = (\<lambda>_. [0, 1, 2])\<rparr>"

text \<open>
  Changing the affinity of a task either fails with \<open>EINVAL\<close> and changes nothing, or gives the task the new mask; a queued task is then on a
  processor of the mask, and nothing happens to other tasks.
\<close>

theorem set_cpus_allowed_correct:
  assumes "set_cpus_allowed_ptr K A p m s = (r, s')" "queues_ok s"
  shows "queues_ok s' \<and> only_task p s s' \<and> (if r = 0 then \<forall>c < nr_cpu_ids K. cpus_allowed s' p c = (c \<in> set m) else r = - EINVAL \<and> s' = s)"
  using assms by (rule set_cpus_allowed_ptr_spec)

theorem set_cpus_allowed_correct_witness:
  "let r = set_cpus_allowed_ptr conf3 aff3 22 [0, 1] sys3 in fst r = 0 \<and> queues_ok (snd r) \<and> task_cpu (snd r) 22 = 0"
proof -
  let ?r = "set_cpus_allowed_ptr conf3 aff3 22 [0, 1] sys3"
  have "?r = (fst ?r, snd ?r)" by simp
  from set_cpus_allowed_correct [OF this sys3_ok] have "queues_ok (snd ?r)" by simp
  moreover have "fst ?r = 0 \<and> task_cpu (snd ?r) 22 = 0" by code_simp
  ultimately show ?thesis by (simp add: Let_def)
qed

text \<open>
  C9. When a processor goes down, the loop over its tasks ends, whatever task the scheduler picks next: its queue is empty, no task was lost, and every
  task is on a processor it may run on, with its mask widened where nothing else was left.
\<close>

theorem migrate_tasks_correct:
  assumes "queues_ok s" "nr_running (rqs s dead) = of_nat (length (cfs_tasks (rqs s dead))) + 1" "length (cfs_tasks (rqs s dead)) < 2 ^ 32 - 1"
    and "dead \<notin> set (cpu_active_mask K)" "\<exists>c < nr_cpu_ids K. usable K A c \<and> c \<in> set (cpu_possible_mask A)"
    and "\<And>t. cfs_tasks (rqs t dead) \<noteq> [] \<Longrightarrow> \<exists>p\<in>set (cfs_tasks (rqs t dead)). pick t dead = Some p"
  shows "\<exists>s'. migrate_tasks K A pick dead s = Some (Inr s') \<and> queues_ok s' \<and> cfs_tasks (rqs s' dead) = [] \<and> nr_running (rqs s' dead) = 1
    \<and> (\<forall>q. lb_queued s' q = lb_queued s q)"
  using assms(1) refl assms(2-6) by (rule migrate_tasks_spec)

definition dying3 :: lb_sys where
  "dying3 = upd_lb_rq 1 (\<lambda>q. q\<lparr>nr_running := 6\<rparr>) sys3"

theorem migrate_tasks_correct_witness:
  "\<exists>s'. migrate_tasks (conf3\<lparr>cpu_active_mask := [0, 2]\<rparr>) aff3 (\<lambda>t c. case cfs_tasks (rqs t c) of [] \<Rightarrow> None | p # _ \<Rightarrow> Some p) 1 dying3 = Some (Inr s')
    \<and> queues_ok s' \<and> cfs_tasks (rqs s' 1) = []"
proof -
  let ?pick = "\<lambda>t c. case cfs_tasks (rqs t c) of [] \<Rightarrow> None | p # _ \<Rightarrow> Some p"
  have ok: "queues_ok dying3" using sys3_ok by (auto simp: dying3_def queues_ok_def upd_lb_rq_def)
  have "\<exists>s'. migrate_tasks (conf3\<lparr>cpu_active_mask := [0, 2]\<rparr>) aff3 ?pick 1 dying3 = Some (Inr s') \<and> queues_ok s' \<and> cfs_tasks (rqs s' 1) = []
    \<and> nr_running (rqs s' 1) = 1 \<and> (\<forall>q. lb_queued s' q = lb_queued dying3 q)"
    by (rule migrate_tasks_correct [OF ok])
      (auto simp: dying3_def sys3_def upd_lb_rq_def conf3_def aff3_def usable_def intro!: exI [of _ 0] split: list.split)
  then show ?thesis by blast
qed



end
