(* ===== verification/Task_Placement.thy ===== *)
theory Task_Placement
  imports Lb_Stats Task_Affinity
begin

text \<open>
  Where a task that wakes up, is created or executes a new program is placed (\<open>select_task_rq_fair\<close> in
  \<open>hw4/kernel/sched/fair.c\<close>, \<open>select_task_rq\<close> in \<open>core.c\<close>).
\<close>

section \<open>Waking near the waker\<close>

text \<open>Without group scheduling the result is the argument, an \<open>unsigned long\<close>.\<close>

definition effective_load :: "nat \<Rightarrow> ulong \<Rightarrow> ulong \<Rightarrow> ulong" where
  "effective_load c wl wg = wl"

text \<open>\<open>this_load\<close> and \<open>load\<close> are of type \<open>s64\<close>.\<close>

definition wake_affine :: "lb_conf \<Rightarrow> sched_domain \<Rightarrow> nat \<Rightarrow> bool \<Rightarrow> lb_sys \<Rightarrow> bool" where
  "wake_affine K sd p sync s =
    (let idx = wake_idx sd; this_cpu = smp_processor_id K; prev_cpu = task_cpu s p;
         ld = ucast (source_load K s prev_cpu idx) :: u64;
         tl = ucast (target_load K s this_cpu idx) :: u64;
         w = weight s (rq_curr (rqs s this_cpu));
         tl = (if sync then tl + ucast (effective_load this_cpu (- w) (- w)) else tl);
         ld = (if sync then ld + ucast (effective_load prev_cpu 0 (- w)) else ld);
         w = weight s p;
         balanced =
           (if 0 < sint tl then
              let this_eff_load = 100 * ucast (power_of s prev_cpu) * (tl + ucast (effective_load this_cpu w w));
                  prev_eff_load = ucast (100 + (imbalance_pct sd - 100) div 2) * ucast (power_of s this_cpu) * (ld + ucast (effective_load prev_cpu 0 w))
              in sint this_eff_load \<le> sint prev_eff_load
            else True)
     in if sync \<and> balanced then True
        else balanced \<or> sint tl \<le> sint ld
          \<and> sint (tl + ucast (target_load K s prev_cpu idx)) \<le> uint (cpu_avg_load_per_task s this_cpu))"

section \<open>The idlest group and processor\<close>

definition group_avg_load :: "lb_conf \<Rightarrow> lb_sys \<Rightarrow> nat \<Rightarrow> nat \<Rightarrow> sched_group \<Rightarrow> ulong" where
  "group_avg_load K s this_cpu load_idx g =
    (\<Sum>i\<leftarrow>sched_group_cpus g. if this_cpu \<in> set (sched_group_cpus g) then source_load K s i load_idx else target_load K s i load_idx)
      * SCHED_POWER_SCALE div group_power s g"

fun idlest_group_loop ::
  "lb_conf \<Rightarrow> lb_sys \<Rightarrow> nat \<Rightarrow> nat \<Rightarrow> nat \<Rightarrow> sched_group list \<Rightarrow> sched_group option \<Rightarrow> ulong \<Rightarrow> ulong \<Rightarrow> sched_group option \<times> ulong \<times> ulong" where
  "idlest_group_loop K s p this_cpu load_idx [] idlest min_load loc_load = (idlest, min_load, loc_load)"
| "idlest_group_loop K s p this_cpu load_idx (g # gs) idlest min_load loc_load =
    (if \<not> (\<exists>i\<in>set (sched_group_cpus g). cpus_allowed s p i) then idlest_group_loop K s p this_cpu load_idx gs idlest min_load loc_load
     else
       let av = group_avg_load K s this_cpu load_idx g
       in if this_cpu \<in> set (sched_group_cpus g) then idlest_group_loop K s p this_cpu load_idx gs idlest min_load av
          else if av < min_load then idlest_group_loop K s p this_cpu load_idx gs (Some g) av loc_load
          else idlest_group_loop K s p this_cpu load_idx gs idlest min_load loc_load)"

definition find_idlest_group :: "lb_conf \<Rightarrow> sched_domain \<Rightarrow> nat \<Rightarrow> nat \<Rightarrow> nat \<Rightarrow> lb_sys \<Rightarrow> sched_group option" where
  "find_idlest_group K sd p this_cpu load_idx s =
    (let imbalance = 100 + (imbalance_pct sd - 100) div 2;
         (idlest, min_load, loc_load) = idlest_group_loop K s p this_cpu load_idx (groups sd) None (- 1) 0
     in case idlest of
          None \<Rightarrow> None
        | Some g \<Rightarrow> if 100 * loc_load < imbalance * min_load then None else Some g)"

fun idlest_cpu_loop :: "lb_sys \<Rightarrow> nat \<Rightarrow> nat list \<Rightarrow> nat option \<Rightarrow> ulong \<Rightarrow> nat option" where
  "idlest_cpu_loop s this_cpu [] idlest min_load = idlest"
| "idlest_cpu_loop s this_cpu (i # is') idlest min_load =
    (let ld = weighted_cpuload s i
     in if ld < min_load \<or> ld = min_load \<and> i = this_cpu then idlest_cpu_loop s this_cpu is' (Some i) ld
        else idlest_cpu_loop s this_cpu is' idlest min_load)"

text \<open>\<open>None\<close> is the result -1.\<close>

definition find_idlest_cpu :: "sched_group \<Rightarrow> nat \<Rightarrow> nat \<Rightarrow> lb_sys \<Rightarrow> nat option" where
  "find_idlest_cpu g p this_cpu s = idlest_cpu_loop s this_cpu (filter (cpus_allowed s p) (sched_group_cpus g)) None (- 1)"

text \<open>\<open>sd_llc\<close> of a processor is the highest of its domains that share a cache; the loop goes down from it.\<close>

definition highest_flag_domains :: "lb_sys \<Rightarrow> nat \<Rightarrow> sched_domain list" where
  "highest_flag_domains s c = rev (takeWhile SD_SHARE_PKG_RESOURCES (domains s c))"

definition select_idle_sibling :: "lb_conf \<Rightarrow> nat \<Rightarrow> nat \<Rightarrow> lb_sys \<Rightarrow> nat" where
  "select_idle_sibling K p target s =
    (let cpu = smp_processor_id K; prev_cpu = task_cpu s p
     in if target = cpu \<and> idle_cpu s cpu then cpu
        else if target = prev_cpu \<and> idle_cpu s prev_cpu then prev_cpu
        else case List.find (\<lambda>g. (\<exists>i\<in>set (sched_group_cpus g). cpus_allowed s p i) \<and> (\<forall>i\<in>set (sched_group_cpus g). idle_cpu s i))
                    (concat (map groups (highest_flag_domains s target))) of
          None \<Rightarrow> target
        | Some g \<Rightarrow> hd (filter (cpus_allowed s p) (sched_group_cpus g)))"

section \<open>The placement\<close>

datatype sd_flag = Balance_Exec | Balance_Fork | Balance_Wake

definition has_flag :: "sched_domain \<Rightarrow> sd_flag \<Rightarrow> bool" where
  "has_flag sd f = (case f of Balance_Exec \<Rightarrow> SD_BALANCE_EXEC sd | Balance_Fork \<Rightarrow> SD_BALANCE_FORK sd | Balance_Wake \<Rightarrow> SD_BALANCE_WAKE sd)"

text \<open>The first loop, over the domains of the processor by level: the affine domain and the level from which to search.\<close>

fun scan_domains ::
  "lb_sys \<Rightarrow> nat \<Rightarrow> sd_flag \<Rightarrow> nat \<Rightarrow> sched_domain list \<Rightarrow> bool \<Rightarrow> bool \<Rightarrow> sched_domain option \<Rightarrow> nat option
    \<Rightarrow> sched_domain option \<times> nat option" where
  "scan_domains s prev_cpu f l [] want_affine want_sd affine_sd sd = (affine_sd, sd)"
| "scan_domains s prev_cpu f l (tmp # ds) want_affine want_sd affine_sd sd =
    (if \<not> SD_LOAD_BALANCE tmp then scan_domains s prev_cpu f (Suc l) ds want_affine want_sd affine_sd sd
     else
       let pw = (\<Sum>i\<leftarrow>span tmp. power_of s i);
           nr = (\<Sum>i\<leftarrow>span tmp. of_nat (length (cfs_tasks (rqs s i))));
           nr = (if SD_POWERSAVINGS_BALANCE tmp then nr div 2 else nr);
           want_sd = (if (SD_POWERSAVINGS_BALANCE tmp \<or> SD_PREFER_LOCAL tmp) \<and> nr < DIV_ROUND_CLOSEST pw SCHED_POWER_SCALE then False else want_sd);
           aff = (want_affine \<and> SD_WAKE_AFFINE tmp \<and> prev_cpu \<in> set (span tmp));
           affine_sd = (if aff then Some tmp else affine_sd);
           want_affine = (want_affine \<and> \<not> aff)
       in if \<not> want_sd \<and> \<not> want_affine then (affine_sd, sd)
          else if \<not> has_flag tmp f then scan_domains s prev_cpu f (Suc l) ds want_affine want_sd affine_sd sd
          else scan_domains s prev_cpu f (Suc l) ds want_affine want_sd affine_sd (if want_sd then Some l else sd))"

text \<open>The domains of a new processor that are smaller than \<open>w\<close>: the highest level with the flag.\<close>

fun smaller_domain :: "sd_flag \<Rightarrow> u32 \<Rightarrow> nat \<Rightarrow> sched_domain list \<Rightarrow> nat option \<Rightarrow> nat option" where
  "smaller_domain f w l [] sd = sd"
| "smaller_domain f w l (tmp # ds) sd =
    (if w \<le> span_weight tmp then sd else smaller_domain f w (Suc l) ds (if has_flag tmp f then Some l else sd))"

text \<open>The second loop: \<open>sd\<close> is the level in the domains of \<open>cpu\<close>, \<open>child_level\<close> that of the child.\<close>

definition child_level :: "nat \<Rightarrow> nat option" where
  "child_level l = (case l of 0 \<Rightarrow> None | Suc m \<Rightarrow> Some m)"

partial_function (option) descend ::
  "lb_conf \<Rightarrow> lb_sys \<Rightarrow> nat \<Rightarrow> sd_flag \<Rightarrow> nat \<Rightarrow> nat option \<Rightarrow> nat option \<Rightarrow> nat option option" where
  "descend K s p f cpu level new_cpu =
    (case level of
       None \<Rightarrow> Some new_cpu
     | Some l \<Rightarrow>
         (let sd = domains s cpu ! l
          in if \<not> has_flag sd f then descend K s p f cpu (child_level l) new_cpu
             else case find_idlest_group K sd p cpu (if f = Balance_Wake then wake_idx sd else forkexec_idx sd) s of
               None \<Rightarrow> descend K s p f cpu (child_level l) new_cpu
             | Some g \<Rightarrow>
                 (let n = find_idlest_cpu g p cpu s
                  in if n = None \<or> n = Some cpu then descend K s p f cpu (child_level l) n
                     else descend K s p f (the n) (smaller_domain f (span_weight sd) 0 (domains s (the n)) None) n)))"

definition select_task_rq_fair :: "lb_conf \<Rightarrow> nat \<Rightarrow> sd_flag \<Rightarrow> bool \<Rightarrow> lb_sys \<Rightarrow> nat option option" where
  "select_task_rq_fair K p f sync s =
    (let cpu = smp_processor_id K; prev_cpu = task_cpu s p
     in if nr_cpus_allowed s p = 1 then Some (Some prev_cpu)
        else
          let want_affine = (f = Balance_Wake \<and> cpus_allowed s p cpu);
              new_cpu = (if f = Balance_Wake then prev_cpu else cpu)
          in case scan_domains s prev_cpu f 0 (domains s cpu) want_affine True None None of
               (Some affine_sd, _) \<Rightarrow>
                 Some (Some (select_idle_sibling K p (if cpu = prev_cpu \<or> wake_affine K affine_sd p sync s then cpu else prev_cpu) s))
             | (None, sd) \<Rightarrow> descend K s p f cpu sd (Some new_cpu))"

text \<open>Any class may return any processor; a result that the task may not use, or that is off line, is replaced. A result of -1 would be read outside of the masks.\<close>

definition select_task_rq :: "lb_conf \<Rightarrow> aff_conf \<Rightarrow> nat \<Rightarrow> sd_flag \<Rightarrow> bool \<Rightarrow> lb_sys \<Rightarrow> (nat \<times> lb_sys) result option" where
  "select_task_rq K A p f sync s =
    (case select_task_rq_fair K p f sync s of
       None \<Rightarrow> None
     | Some None \<Rightarrow> Some (Inl UseAfterFree)
     | Some (Some c) \<Rightarrow>
         Some (if \<not> cpus_allowed s p c \<or> c \<notin> set (cpu_online_mask A) then select_fallback_rq K A (task_cpu s p) p s else Inr (c, s)))"

definition sched_exec :: "lb_conf \<Rightarrow> nat \<Rightarrow> lb_sys \<Rightarrow> lb_sys option" where
  "sched_exec K p s =
    (case select_task_rq_fair K p Balance_Exec False s of
       None \<Rightarrow> None
     | Some d \<Rightarrow>
         Some (if d = Some (smp_processor_id K) then s
               else case d of
                 Some dest \<Rightarrow> if dest \<in> set (cpu_active_mask K) then stop_one_cpu (task_cpu s p) (migration_cpu_stop K (task_cpu s p) p dest) s else s
               | None \<Rightarrow> s))"

section \<open>What the searches return\<close>

lemma idlest_cpu_loop_spec:
  "\<exists>m \<le> mn. (\<forall>j\<in>set is'. m \<le> weighted_cpuload s j)
    \<and> (idlest_cpu_loop s c is' b mn = b \<and> m = mn \<or> (\<exists>i\<in>set is'. idlest_cpu_loop s c is' b mn = Some i \<and> weighted_cpuload s i = m))"
proof (induction is' arbitrary: b mn)
  case (Cons i is')
  show ?case
  proof (cases "weighted_cpuload s i < mn \<or> weighted_cpuload s i = mn \<and> i = c")
    case True
    obtain m where m: "m \<le> weighted_cpuload s i" "\<forall>j\<in>set is'. m \<le> weighted_cpuload s j"
      "idlest_cpu_loop s c is' (Some i) (weighted_cpuload s i) = Some i \<and> m = weighted_cpuload s i
        \<or> (\<exists>j\<in>set is'. idlest_cpu_loop s c is' (Some i) (weighted_cpuload s i) = Some j \<and> weighted_cpuload s j = m)"
      using Cons.IH [of "weighted_cpuload s i" "Some i"] by auto
    have "m \<le> mn" using True m(1) by auto
    with m True show ?thesis by (intro exI [of _ m]) auto
  next
    case False
    obtain m where m: "m \<le> mn" "\<forall>j\<in>set is'. m \<le> weighted_cpuload s j"
      "idlest_cpu_loop s c is' b mn = b \<and> m = mn \<or> (\<exists>j\<in>set is'. idlest_cpu_loop s c is' b mn = Some j \<and> weighted_cpuload s j = m)"
      using Cons.IH [of mn b] by auto
    have "m \<le> weighted_cpuload s i" using False m(1) by auto
    with m False show ?thesis by (intro exI [of _ m]) auto
  qed
qed simp

lemma find_idlest_cpu_spec:
  assumes "\<exists>i\<in>set (sched_group_cpus g). cpus_allowed s p i" "\<forall>i. weighted_cpuload s i \<noteq> - 1"
  shows "\<exists>i\<in>set (sched_group_cpus g). find_idlest_cpu g p c s = Some i \<and> cpus_allowed s p i
    \<and> (\<forall>j\<in>set (sched_group_cpus g). cpus_allowed s p j \<longrightarrow> weighted_cpuload s i \<le> weighted_cpuload s j)"
proof -
  let ?is = "filter (cpus_allowed s p) (sched_group_cpus g)"
  obtain m where m: "\<forall>j\<in>set ?is. m \<le> weighted_cpuload s j"
    "idlest_cpu_loop s c ?is None (- 1) = None \<and> m = - 1 \<or> (\<exists>i\<in>set ?is. idlest_cpu_loop s c ?is None (- 1) = Some i \<and> weighted_cpuload s i = m)"
    using idlest_cpu_loop_spec [of "- 1" ?is s c None] by auto
  have "m \<noteq> - 1"
  proof
    assume "m = - 1"
    obtain j where "j \<in> set ?is" using assms(1) by auto
    with m(1) \<open>m = - 1\<close> have "- 1 \<le> weighted_cpuload s j" by blast
    then have "weighted_cpuload s j = - 1" by (simp add: order_antisym)
    with assms(2) show False by simp
  qed
  with m show ?thesis by (auto simp: find_idlest_cpu_def)
qed

lemma idlest_group_loop_spec:
  assumes "idlest_group_loop K s p c idx gs b mn th = (r, mn', th')"
  shows "(r = b \<and> mn' = mn \<or> (\<exists>g\<in>set gs. r = Some g \<and> c \<notin> set (sched_group_cpus g) \<and> (\<exists>i\<in>set (sched_group_cpus g). cpus_allowed s p i)
      \<and> mn' = group_avg_load K s c idx g)) \<and> mn' \<le> mn
    \<and> (\<forall>g\<in>set gs. c \<notin> set (sched_group_cpus g) \<and> (\<exists>i\<in>set (sched_group_cpus g). cpus_allowed s p i) \<longrightarrow> mn' \<le> group_avg_load K s c idx g)"
  using assms
proof (induction gs arbitrary: b mn th)
  case (Cons g gs)
  let ?ok = "c \<notin> set (sched_group_cpus g) \<and> (\<exists>i\<in>set (sched_group_cpus g). cpus_allowed s p i)" let ?av = "group_avg_load K s c idx g"
  show ?case
  proof (cases "?ok \<and> ?av < mn")
    case True
    then have "idlest_group_loop K s p c idx gs (Some g) ?av th = (r, mn', th')" using Cons.prems by (simp add: Let_def)
    from Cons.IH [OF this] True show ?thesis by auto
  next
    case False
    then obtain th2 where l: "idlest_group_loop K s p c idx gs b mn th2 = (r, mn', th')" using Cons.prems by (auto simp: Let_def split: if_splits)
    have "mn' \<le> mn" using Cons.IH [OF l] by simp
    then have "?ok \<longrightarrow> mn' \<le> ?av" using False by auto
    with Cons.IH [OF l] show ?thesis by auto
  qed
qed simp

lemma find_idlest_group_spec:
  assumes "find_idlest_group K sd p c idx s = Some g"
  shows "g \<in> set (groups sd) \<and> c \<notin> set (sched_group_cpus g) \<and> (\<exists>i\<in>set (sched_group_cpus g). cpus_allowed s p i)
    \<and> (\<forall>h\<in>set (groups sd). c \<notin> set (sched_group_cpus h) \<and> (\<exists>i\<in>set (sched_group_cpus h). cpus_allowed s p i)
        \<longrightarrow> group_avg_load K s c idx g \<le> group_avg_load K s c idx h)"
proof -
  obtain r mn th where l: "idlest_group_loop K s p c idx (groups sd) None (- 1) 0 = (r, mn, th)" by (metis prod_cases3)
  have "r = Some g" using assms l by (auto simp: find_idlest_group_def Let_def split: option.splits if_splits)
  with idlest_group_loop_spec [OF l] show ?thesis by auto
qed

lemma select_idle_sibling_spec:
  "select_idle_sibling K p target s = target
    \<or> cpus_allowed s p (select_idle_sibling K p target s) \<and> idle_cpu s (select_idle_sibling K p target s)"
proof (cases "target = smp_processor_id K \<and> idle_cpu s target \<or> target = task_cpu s p \<and> idle_cpu s target")
  case True
  then show ?thesis by (auto simp: select_idle_sibling_def Let_def)
next
  case False
  let ?P = "\<lambda>g. (\<exists>i\<in>set (sched_group_cpus g). cpus_allowed s p i) \<and> (\<forall>i\<in>set (sched_group_cpus g). idle_cpu s i)"
  show ?thesis
  proof (cases "List.find ?P (concat (map groups (highest_flag_domains s target)))")
    case None
    with False show ?thesis by (auto simp: select_idle_sibling_def Let_def)
  next
    case (Some g)
    let ?f = "filter (cpus_allowed s p) (sched_group_cpus g)"
    have g: "?P g" using find_usable_Some [OF Some] by blast
    then have "?f \<noteq> []" by (auto simp: filter_empty_conv)
    then have "hd ?f \<in> set ?f" by (rule hd_in_set)
    with g have "cpus_allowed s p (hd ?f) \<and> idle_cpu s (hd ?f)" by auto
    with False Some show ?thesis by (auto simp: select_idle_sibling_def Let_def)
  qed
qed

section \<open>The placement ends\<close>

text \<open>A domain is at least as large as its child.\<close>

definition nested :: "lb_sys \<Rightarrow> bool" where
  "nested s \<longleftrightarrow> (\<forall>c l. Suc l < length (domains s c) \<longrightarrow> span_weight (domains s c ! l) \<le> span_weight (domains s c ! Suc l))"

definition level_ok :: "lb_sys \<Rightarrow> nat \<Rightarrow> nat option \<Rightarrow> bool" where
  "level_ok s c lv \<longleftrightarrow> (\<forall>l. lv = Some l \<longrightarrow> l < length (domains s c))"

definition level_key :: "lb_sys \<Rightarrow> nat \<Rightarrow> nat option \<Rightarrow> nat \<times> nat" where
  "level_key s c lv = (case lv of None \<Rightarrow> (0, 0) | Some l \<Rightarrow> (unat (span_weight (domains s c ! l)), Suc l))"

lemma smaller_domain_spec:
  "smaller_domain f w l ds sd = Some k \<Longrightarrow> sd = Some k \<or> l \<le> k \<and> k < l + length ds \<and> span_weight (ds ! (k - l)) < w"
proof (induction ds arbitrary: l sd)
  case (Cons d ds)
  show ?case
  proof (cases "w \<le> span_weight d")
    case False
    with Cons.prems have "smaller_domain f w (Suc l) ds (if has_flag d f then Some l else sd) = Some k" by simp
    from Cons.IH [OF this] False show ?thesis by (auto simp: nth_Cons' split: if_splits)
  qed (use Cons.prems in simp)
qed simp

lemma smaller_key:
  assumes "span_weight sd = w" "lv = smaller_domain f w 0 (domains s c) None"
  shows "level_ok s c lv" "fst (level_key s c lv) < unat w \<or> lv = None"
  using smaller_domain_spec [of f w 0 "domains s c" None] assms by (auto simp: level_ok_def level_key_def word_less_nat_alt split: option.split)

lemma child_key:
  assumes "nested s" "level_ok s c (Some l)"
  shows "level_ok s c (child_level l)" "(level_key s c (child_level l), level_key s c (Some l)) \<in> less_than <*lex*> less_than"
proof -
  show "level_ok s c (child_level l)" using assms(2) by (auto simp: child_level_def level_ok_def split: nat.splits)
  show "(level_key s c (child_level l), level_key s c (Some l)) \<in> less_than <*lex*> less_than"
  proof (cases l)
    case (Suc m)
    then have "span_weight (domains s c ! m) \<le> span_weight (domains s c ! l)" using assms by (simp add: nested_def level_ok_def)
    with Suc show ?thesis by (auto simp: child_level_def level_key_def word_le_nat_alt)
  qed (auto simp: child_level_def level_key_def)
qed

lemma descend_returns:
  assumes "nested s" "\<forall>i. weighted_cpuload s i \<noteq> - 1" "level_ok s c lv"
  shows "\<exists>n. descend K s p f c lv new = Some n \<and> (n = new \<or> (\<exists>i. n = Some i \<and> cpus_allowed s p i))"
  using assms(3)
proof (induction "level_key s c lv" arbitrary: c lv new rule: wf_induct_rule [OF wf_lex_prod [OF wf_less_than wf_less_than]])
  case (1 c lv new)
  show ?case
  proof (cases lv)
    case None
    then show ?thesis by (subst descend.simps) simp
  next
    case (Some l)
    note ck = child_key [OF assms(1) 1(2) [unfolded Some]]
    have down: "\<exists>n. descend K s p f c (child_level l) x = Some n \<and> (n = x \<or> (\<exists>i. n = Some i \<and> cpus_allowed s p i))" for x
      using ck by (intro 1(1)) (simp_all add: Some)
    let ?sd = "domains s c ! l" let ?idx = "if f = Balance_Wake then wake_idx ?sd else forkexec_idx ?sd"
    show ?thesis
    proof (cases "has_flag ?sd f \<and> (\<exists>g. find_idlest_group K ?sd p c ?idx s = Some g)")
      case False
      then have "descend K s p f c lv new = descend K s p f c (child_level l) new"
        by (subst descend.simps) (auto simp: Some Let_def split: option.split)
      with down show ?thesis by simp
    next
      case True
      then obtain g where g: "has_flag ?sd f" "find_idlest_group K ?sd p c ?idx s = Some g" by blast
      obtain i where i: "find_idlest_cpu g p c s = Some i" "cpus_allowed s p i"
        using find_idlest_cpu_spec [OF _ assms(2), of g p c] find_idlest_group_spec [OF g(2)] by blast
      show ?thesis
      proof (cases "i = c")
        case True
        then have "descend K s p f c lv new = descend K s p f c (child_level l) (Some i)"
          using g i by (subst descend.simps) (simp add: Some Let_def)
        with down [of "Some i"] i(2) show ?thesis by auto
      next
        case False
        define lv2 where "lv2 = smaller_domain f (span_weight ?sd) 0 (domains s i) None"
        have eq: "descend K s p f c lv new = descend K s p f i lv2 (Some i)"
          using g i False by (subst descend.simps) (simp add: Some Let_def lv2_def)
        have "level_ok s i lv2" using smaller_key(1) [OF refl lv2_def] .
        moreover have "(level_key s i lv2, level_key s c lv) \<in> less_than <*lex*> less_than"
          using smaller_key(2) [OF refl lv2_def] by (cases lv2) (auto simp: Some level_key_def)
        ultimately have "\<exists>n. descend K s p f i lv2 (Some i) = Some n \<and> (n = Some i \<or> (\<exists>i. n = Some i \<and> cpus_allowed s p i))" by (intro 1(1))
        with eq i(2) show ?thesis by auto
      qed
    qed
  qed
qed

lemma scan_domains_level:
  "scan_domains s pc f l ds wa ws a sd = (a', Some k) \<Longrightarrow> sd = Some k \<or> l \<le> k \<and> k < l + length ds"
proof (induction ds arbitrary: l wa ws a sd)
  case (Cons d ds)
  have "(\<exists>wa' ws' a2. \<exists>sd2\<in>{sd, Some l}. scan_domains s pc f (Suc l) ds wa' ws' a2 sd2 = (a', Some k)) \<or> sd = Some k"
    using Cons.prems by (auto simp: Let_def split: if_splits)
  with Cons.IH show ?case by fastforce
qed simp

lemma select_task_rq_fair_returns:
  assumes "nested s" "\<forall>i. weighted_cpuload s i \<noteq> - 1"
  shows "\<exists>c. select_task_rq_fair K p f sync s = Some (Some c)"
proof -
  let ?c = "smp_processor_id K" let ?sc = "scan_domains s (task_cpu s p) f 0 (domains s ?c) (f = Balance_Wake \<and> cpus_allowed s p ?c) True None None"
  obtain a lv where sc: "?sc = (a, lv)" by (cases ?sc)
  have "level_ok s ?c lv" using scan_domains_level [of s "task_cpu s p" f 0 "domains s ?c"] sc by (fastforce simp: level_ok_def)
  from descend_returns [OF assms this] sc show ?thesis
    by (cases a) (fastforce simp: select_task_rq_fair_def Let_def)+
qed

section \<open>Main results\<close>

text \<open>
  C20. Placing a task always ends, with a processor that is on line and that the task may use; the mask of the task is only widened when it has no usable processor
  left, and nothing else changes.
\<close>

theorem select_task_rq_correct:
  assumes "nested s" "\<forall>i. weighted_cpuload s i \<noteq> - 1" "\<exists>c < nr_cpu_ids K. usable K A c \<and> c \<in> set (cpu_possible_mask A)"
  shows "\<exists>c s'. select_task_rq K A p f sync s = Some (Inr (c, s')) \<and> cpus_allowed s' p c \<and> c \<in> set (cpu_online_mask A) \<and> rqs s' = rqs s \<and> only_task p s s'
    \<and> ((\<exists>c < nr_cpu_ids K. usable K A c \<and> cpus_allowed s p c) \<longrightarrow> s' = s)"
proof -
  obtain c where c: "select_task_rq_fair K p f sync s = Some (Some c)" using select_task_rq_fair_returns [OF assms(1,2)] by blast
  show ?thesis
  proof (cases "cpus_allowed s p c \<and> c \<in> set (cpu_online_mask A)")
    case True
    then show ?thesis by (simp add: select_task_rq_def c)
  next
    case False
    obtain d t where d: "select_fallback_rq K A (task_cpu s p) p s = Inr (d, t)" "placed K A p s d t"
      using select_fallback_rq_spec [OF assms(3)] by blast
    then show ?thesis using False select_fallback_rq_keeps_mask [OF _ _ _ d(1)] by (auto simp: select_task_rq_def c placed_def usable_def)
  qed
qed

theorem select_task_rq_correct_witness:
  "\<exists>c s'. select_task_rq conf3 aff3 22 Balance_Fork False sys3 = Some (Inr (c, s')) \<and> cpus_allowed s' 22 c"
proof -
  have "nested sys3" by (auto simp: nested_def sys3_def)
  moreover have "\<forall>i. weighted_cpuload sys3 i \<noteq> - 1" by (simp add: weighted_cpuload_def sys3_def idle_rq_def)
  moreover have "\<exists>c < nr_cpu_ids conf3. usable conf3 aff3 c \<and> c \<in> set (cpu_possible_mask aff3)" by (auto simp: conf3_def aff3_def usable_def intro!: exI [of _ 0])
  ultimately show ?thesis using select_task_rq_correct [of sys3 conf3 aff3 22 Balance_Fork False] by blast
qed

text \<open>
  The search for the idlest place returns a group without the processor, with a processor the task may use, and of the least scaled load among them; in it, a permitted
  processor of least load. A sibling that is chosen instead of the target is idle and permitted.
\<close>

theorem idlest_search_correct:
  assumes "find_idlest_group K sd p c idx s = Some g" "\<forall>i. weighted_cpuload s i \<noteq> - 1"
  shows "g \<in> set (groups sd) \<and> c \<notin> set (sched_group_cpus g)
    \<and> (\<forall>h\<in>set (groups sd). c \<notin> set (sched_group_cpus h) \<and> (\<exists>i\<in>set (sched_group_cpus h). cpus_allowed s p i)
        \<longrightarrow> group_avg_load K s c idx g \<le> group_avg_load K s c idx h)
    \<and> (\<exists>i\<in>set (sched_group_cpus g). find_idlest_cpu g p c s = Some i \<and> cpus_allowed s p i
        \<and> (\<forall>j\<in>set (sched_group_cpus g). cpus_allowed s p j \<longrightarrow> weighted_cpuload s i \<le> weighted_cpuload s j))"
  using find_idlest_group_spec [OF assms(1)] find_idlest_cpu_spec [OF _ assms(2), of g p c] by blast

definition busy3 :: lb_sys where
  "busy3 = upd_lb_rq 0 (\<lambda>q. q\<lparr>nr_running := 4, load := 40960, cpu_load := (\<lambda>_. 40960), cfs_tasks := [31], rq_curr := 31\<rparr>) sys3"

theorem idlest_search_correct_witness:
  "find_idlest_group conf3 sd3 22 0 0 busy3 = Some (groups sd3 ! 1)
    \<and> (\<exists>i\<in>set (sched_group_cpus (groups sd3 ! 1)). find_idlest_cpu (groups sd3 ! 1) 22 0 busy3 = Some i \<and> cpus_allowed busy3 22 i)"
proof -
  have g: "find_idlest_group conf3 sd3 22 0 0 busy3 = Some (groups sd3 ! 1)" by code_simp
  have "\<forall>i. weighted_cpuload busy3 i \<noteq> - 1" by (simp add: weighted_cpuload_def busy3_def upd_lb_rq_def sys3_def idle_rq_def)
  from idlest_search_correct [OF g this] g show ?thesis by blast
qed

text \<open>
  On the 32-bit target a synchronous wake-up does not take the weight of the waker off its load: \<open>effective_load\<close> returns an \<open>unsigned long\<close>, so that
  the negative change is widened to almost 2 to the power of 32.
\<close>

definition waker3 :: lb_sys where
  "waker3 = upd_lb_rq 0 (\<lambda>q. q\<lparr>nr_running := 1, load := 1024, cpu_load := (\<lambda>_. 1024), cfs_tasks := [31], rq_curr := 31\<rparr>) sys3"

lemma sync_wakeup_not_attracted:
  "sint (ucast (target_load conf3 waker3 0 0) + ucast (effective_load 0 (- weight waker3 31) (- weight waker3 31)) :: u64) = 2 ^ 32"
  "\<not> wake_affine conf3 sd3 22 True waker3"
  by code_simp+

end
