(* ===== verification/Spec2Isabelle.thy ===== *)
theory Spec2Isabelle
  imports Sys_Fail Semaphore_Threads Semaphore_Ad Alloc_Exact Sched_Policy Sched_Load Netlock Sthread Completion Rt_Group Cputime Lb_Nohz Task_Placement
begin

text \<open>
  A verification library for the kernel and library code of the repository: system call fault injection (\<open>sys_fail.c\<close>,
  \<open>entry-common.S\<close>), the SThread user-level thread library with its semaphores and a read/write lock in
  the kernel (\<open>hw3\<close>), the scheduler (\<open>hw4/kernel/sched\<close>) and the page allocator with per-user memory limits and the
  out-of-memory killer (\<open>hw5\<close>).

  \<^bold>\<open>Conventions.\<close> Every C function is one HOL function of the same name where HOL allows it (a name with two leading
  underscores loses them; a prime separates \<open>__f\<close> from \<open>f\<close>). State is passed explicitly, as a record per
  component whose fields are those of the structs that the code reads or writes. Machine integers are words, or integers with
  the wrap-around written out; where a theorem needs that no wrap-around happens it says so, and where the
  code relies on wrap-around (virtual run times, expiry times) the values are words. A function that can crash
  returns \<open>fault + result\<close> (\<open>Prelude.fault\<close>: null dereference, use after free, free of foreign memory, abort, panic, bug); error numbers are
  values. Loops are structural recursion, \<open>function\<close>s with a measure, or \<open>partial_function (option)\<close>, for which the theorems prove that a
  result exists. There is no fuel. Locks that the code takes around a whole operation make it one step;
  where several tasks interleave inside an operation the component has an \<open>inductive\<close> step relation.
  Code outside the repository (the real-time class \<open>rt.c\<close>, the operating system below the thread library, timers, security hooks) is an
  argument of the definitions that call it.

  \<^bold>\<open>Configuration.\<close> 32-bit ARM for the kernel, one processor for the scheduler classes (\<open>CONFIG_SMP\<close> off), no
  high-resolution tick and no statistics; the theories on bandwidth and task groups are for \<open>CONFIG_FAIR_GROUP_SCHED\<close>,
  \<open>CONFIG_CFS_BANDWIDTH\<close> and \<open>CONFIG_RT_GROUP_SCHED\<close> and for any number of processors. The theories on balancing, placement and
  affinity are for \<open>CONFIG_SMP\<close> and \<open>CONFIG_NO_HZ\<close> without group scheduling and power savings, with run queues seen through their lists of
  tasks, loads and counters.

  \<^bold>\<open>Shared theories.\<close>
  \<^item> \<open>Prelude\<close>: machine integers, error numbers, faults, linked lists in a store, lemma collections.
  \<^item> \<open>Transition\<close>: the locales \<open>step_invariant\<close> (a step relation keeps an invariant) and \<open>step_refinement\<close> (every step is a step of
    a specification), interpreted by the components that run concurrently.
  \<^item> \<open>Wait_Queue\<close>: the locale of a queue of waiting threads, interpreted on both semaphores.
  \<^item> \<open>Page_Pool\<close>: the locale of an allocator, with the proof that clients of one never share a page; interpreted on the
    three allocation routines of the page allocator.

  \<^bold>\<open>Fault injection\<close> (\<open>Sys_Fail\<close>; \<open>sys_fail.c\<close>, the hook in \<open>entry-common.S\<close>). The counters, \<open>sys_fail\<close>, \<open>should_fail\<close>, \<open>fail_syscall\<close> and \<open>vector_swi\<close>.
  The N-th system call after a request fails, no other does; the request is global, so it can hit another task.

  \<^bold>\<open>Thread library\<close> (\<open>hw3\<close>).
  \<^item> \<open>Semaphore\<close>, \<open>Semaphore_Threads\<close> (\<open>sync.c\<close>) and \<open>Semaphore_Ad\<close> (\<open>sync_ad.c\<close>): the operations over an explicit heap refine an abstract
    semaphore with a first-in first-out queue; in every interleaving of threads the capacity is respected and no wake-up is lost.
  \<^item> \<open>Sthread\<close> (\<open>sthread.c\<close>): the thread list refines a sequence; stacks, descriptors, thread structures and
    children are exactly those of the listed threads; every outcome of \<open>sthread_create\<close>; the use after free in \<open>MSG_ALL_EXIT\<close>.
  \<^item> \<open>Netlock\<close> (\<open>netlock.c\<close>): the lock works for one kind of request at a time; mixed use does not exclude, and
    a request that has to wait returns without the lock.

  \<^bold>\<open>Scheduler\<close> (\<open>hw4/kernel/sched\<close>).
  \<^item> \<open>Sched_Types\<close> (\<open>sched.h\<close>, weights), \<open>Cfs_Math\<close> (division by inverse weights with its error bound, slices), \<open>Cfs_Timeline\<close> (the ordered timeline with its
    cached leftmost entity refines a queue; \<open>min_vruntime\<close> only advances), \<open>Cfs_Entity\<close> (\<open>fair.c\<close>, one entity: enqueue, dequeue, pick, tick, buddies), \<open>Cfs_Class\<close> (the class: any sequence of
    its events keeps the run queue consistent and does not fault).
  \<^item> \<open>Sched_Core\<close> (\<open>core.c\<close>, \<open>mycfs.c\<close>: dispatch over the classes, tick, schedule, wake-up, fork) and \<open>Sched_Policy\<close> (\<open>nice\<close>, \<open>sched_setscheduler\<close> and its relatives, with the faults of the
    added class).
  \<^item> \<open>Sched_Load\<close>: load averages; no count of active tasks is lost; accuracy of the fixed-point power.
  \<^item> \<open>Cputime\<close>: accounting of ticks, interrupt time and run time; every tick is accounted once, the usage of an accounting group is its own plus
    that of its children, reported times never run backwards.
  \<^item> \<open>Lb_State\<close>, \<open>Lb_Steps\<close>, \<open>Lb_Stats\<close>, \<open>Load_Balance\<close>, \<open>Lb_Nohz\<close> (\<open>fair.c\<close>, multiprocessor): run queues and the migration of tasks between them, a step relation
    whose steps keep the queues consistent, the statistics and the choice of the busiest group and queue, \<open>load_balance\<close> with its callers, and the bookkeeping of idle
    processors. Every operation is a sequence of steps, so tasks are neither lost nor put where they may not run; the loops end and nothing faults.
  \<^item> \<open>Task_Affinity\<close> (\<open>core.c\<close>): masks of processors, migration, the affinity system calls and the tasks of a processor that goes down. \<open>Task_Placement\<close>: where a
    waking or new task goes; the search ends with a permitted processor.
  \<^item> \<open>Completion\<close>: completions and wake-ups, with waits split at their sleep.
  \<^item> \<open>Cfs_Bandwidth\<close> (\<open>fair.c\<close>, bandwidth control): run time is conserved, so a group never exceeds quota times periods plus open debts; the period timer
    terminates and pays debts; throttling and unthrottling restore the counts above the group.
  \<^item> \<open>Task_Group\<close> and \<open>Rt_Group\<close> (\<open>core.c\<close>): the walk over the tree of groups equals a recursive traversal; the tests of a configuration
    accept exactly what the specification allows, and the limits hold after any sequence of changes.

  \<^bold>\<open>Memory\<close> (\<open>hw5\<close>).
  \<^item> \<open>Buddy\<close>, \<open>Page_Fallback\<close>, \<open>Page_Pcp\<close> (\<open>page_alloc.c\<close>): free lists with coalescing and splitting, stealing between migrate types, per-CPU lists. Free blocks
    stay aligned, disjoint and counted, no page is handed out twice, allocation fails only when nothing fits, and the retry loops end.
  \<^item> \<open>Watermark\<close>: a passed watermark test implies a free block; the computed marks are ordered.
  \<^item> \<open>User_Table\<close>, \<open>User_Cache\<close> (\<open>user.c\<close>): one \<open>user_struct\<close> per user, with reference counts. \<open>Oom_State\<close> (\<open>set_mlimit.c\<close>), \<open>Oom_Kill\<close> (\<open>oom_kill.c\<close>: the choice of the victim and who is
    killed with it), \<open>Alloc_Limit\<close> (the memory limit in \<open>__alloc_pages_nodemask\<close>).
  \<^item> \<open>Alloc_Path\<close>: the whole allocation, composed of these: scan of the zone list, slow path with compaction, reclaim and the killer, limit check. What is returned was
    available, from a zone that passed the tests the request is entitled to; which requests always return, and which never fail. \<open>Alloc_Exact\<close>:
    exact sizes, with the pages that go back at once.

  \<^bold>\<open>Not modelled.\<close> The building of scheduling domains, and of processor hotplug all but the migration of the tasks; load balancing with group shares and with power savings; the context switch, tracing and boot
  code; moving tasks between groups and the cgroup files; high-resolution timers; the boot-time memory map, the building of zone lists, memory hotplug; reports (\<open>dump_tasks\<close>, \<open>show_free_areas\<close>); the system call tables, the patches and the test programs. These are
  hardware or device facing, generated from tables, or call code that is not part of the repository.
\<close>

end
